(* ===== verification/Odp_Prelude.thy ===== *)
theory Odp_Prelude
  imports Main "HOL-Library.Word"
begin

unbundle bit_operations_syntax

text \<open>
  Shared vocabulary of the development: the machine integers of the sources
  (\<open>uint8_t\<close> to \<open>uint64_t\<close>), the collections of simplification rules, the
  conversions between words and natural numbers, pointer chains through a
  \<open>next\<close> field, and the contract of a bounded first-in first-out container
  (\<open>fifo_container\<close>) that the buffer ring, the helper ring and the event queue
  all implement.
\<close>

section \<open>Machine integers\<close>

type_synonym u8 = "8 word"
type_synonym u16 = "16 word"
type_synonym u32 = "32 word"
type_synonym u64 = "64 word"

named_theorems wnat \<comment> \<open>words read as natural numbers\<close>
named_theorems odp_defs \<comment> \<open>definitions of operations, to be unfolded\<close>

lemma unat_add_small [wnat]:
  fixes a b :: u32
  assumes "unat a + unat b < 2 ^ 32"
  shows "unat (a + b) = unat a + unat b"
  using assms by (simp add: unat_word_ariths)

lemma unat_sub_small [wnat]:
  fixes a b :: u32
  assumes "unat b \<le> unat a"
  shows "unat (a - b) = unat a - unat b"
  using assms by (simp add: unat_sub word_le_nat_alt)

text \<open>A subtraction that goes below zero reads as a huge unsigned value.\<close>

lemma unat_sub_wrap:
  fixes a b :: u32
  assumes "unat a < unat b"
  shows "unat (a - b) = 2 ^ 32 - (unat b - unat a)"
  using assms by (simp add: unat_sub_if_size word_size)

text \<open>Adding the modulus of a ring back to a difference that went below zero.\<close>

lemma unat_sub_add:
  fixes a b n :: u32
  assumes "unat a \<le> unat b" and "unat b - unat a \<le> unat n"
  shows "unat (a - b + n) = unat n - (unat b - unat a)"
proof -
  have "unat (a - b + n) = unat (n - (b - a))" by (simp add: algebra_simps)
  also have "\<dots> = unat n - (unat b - unat a)" using assms by (simp only: unat_sub_small)
  finally show ?thesis .
qed

lemma unat_of_nat_small [wnat]: "n < 2 ^ 32 \<Longrightarrow> unat (of_nat n :: u32) = n"
  by (simp add: unsigned_of_nat take_bit_nat_eq_self)

lemma unat_ucast_small: "unat (x :: u64) < 2 ^ 32 \<Longrightarrow> unat (ucast x :: u32) = unat x"
  by (simp add: unsigned_ucast_eq take_bit_nat_eq_self)

lemma u16_bound: "unat (a :: u16) < 65536"
  using unsigned_less [of a, where ?'a = nat] by simp

lemma unat_ucast_16_32 [simp]: "unat (ucast (x :: u16) :: u32) = unat x"
  using u16_bound [of x] by (simp add: unsigned_ucast_eq take_bit_nat_eq_self)

lemma unat_ucast_32_16: "unat (x :: u32) < 2 ^ 16 \<Longrightarrow> unat (ucast x :: u16) = unat x"
  by (simp add: unsigned_ucast_eq take_bit_nat_eq_self)

lemma unat_add_small16:
  fixes a b :: u16
  assumes "unat a + unat b < 2 ^ 16"
  shows "unat (a + b) = unat a + unat b"
  using assms by (simp add: unat_word_ariths)

lemma unat_sub_small16:
  fixes a b :: u16
  assumes "unat b \<le> unat a"
  shows "unat (a - b) = unat a - unat b"
  using assms by (simp add: unat_sub word_le_nat_alt)

lemma unat_add_small64:
  fixes a b :: u64
  assumes "unat a + unat b < 2 ^ 64"
  shows "unat (a + b) = unat a + unat b"
  using assms by (simp add: unat_word_ariths)

lemma u32_less [wnat]: "(a :: u32) < b \<longleftrightarrow> unat a < unat b"
  by (rule word_less_nat_alt)

lemma u32_le [wnat]: "(a :: u32) \<le> b \<longleftrightarrow> unat a \<le> unat b"
  by (rule word_le_nat_alt)

lemma u32_eq [wnat]: "(a :: u32) = b \<longleftrightarrow> unat a = unat b"
  by (rule word_unat_eq_iff)

lemma u32_bound: "unat (a :: u32) < 4294967296"
  using unsigned_less [of a, where ?'a = nat] by simp

lemma unat_Suc_small [wnat]:
  fixes a b :: u32
  assumes "unat a < unat b"
  shows "unat (a + 1) = Suc (unat a)"
proof -
  have "unat a < 4294967295" using assms u32_bound [of b] by linarith
  then show ?thesis by (subst unat_add_small) simp_all
qed

text \<open>Distinct offsets below a modulus give distinct residues.\<close>

lemma residue_inj:
  fixes a :: nat
  assumes "(a + i) mod N = (a + j) mod N" "i < N" "j < N"
  shows "i = j"
proof -
  have "i = j" if "i \<le> j" "(a + j) mod N = (a + i) mod N" "j < N" for i j
  proof -
    from that have "N dvd j - i" by (simp add: mod_eq_dvd_iff_nat)
    with that show ?thesis by (auto dest: dvd_imp_le)
  qed
  with assms show ?thesis by (metis nat_le_linear)
qed

text \<open>Clearing the low \<open>d\<close> bits of a word rounds it down to a multiple of \<open>2 ^ d\<close>.\<close>

lemma unat_and_high_mask:
  fixes n :: u32
  shows "unat (n AND push_bit d (- 1)) = unat n div 2 ^ d * 2 ^ d"
proof -
  have "n AND push_bit d (- 1) = push_bit d (drop_bit d n)"
    by (rule bit_word_eqI) (auto simp: bit_simps)
  also have "unat \<dots> = unat n div 2 ^ d * 2 ^ d"
  proof -
    have "unat (push_bit d (drop_bit d n)) = take_bit 32 (push_bit d (drop_bit d (unat n)))"
      using u32_bound [of n] by (simp add: unsigned_push_bit_eq unsigned_drop_bit_eq take_bit_nat_eq_self)
    also have "push_bit d (drop_bit d (unat n)) = unat n div 2 ^ d * 2 ^ d"
      by (simp add: push_bit_eq_mult drop_bit_eq_div)
    also have "take_bit 32 (unat n div 2 ^ d * 2 ^ d) = unat n div 2 ^ d * 2 ^ d"
    proof -
      have "unat n div 2 ^ d * 2 ^ d \<le> unat n" by simp
      also have "\<dots> < 2 ^ 32" using unsigned_less [of n, where ?'a = nat] by simp
      finally show ?thesis by (simp add: take_bit_nat_eq_self)
    qed
    finally show ?thesis .
  qed
  finally show ?thesis .
qed

section \<open>Rounding to an alignment\<close>

text \<open>\<open>ODP_ALIGN_ROUNDUP\<close> and \<open>ODP_ALIGN_ROUNDDOWN_POWER_2\<close> of \<open>odp_align_internal.h\<close>.\<close>

definition ODP_ALIGN_ROUNDUP :: "'a :: len word \<Rightarrow> 'a word \<Rightarrow> 'a word" where
  "ODP_ALIGN_ROUNDUP x align = align * ((x + align - 1) div align)"

definition ODP_ALIGN_ROUNDDOWN_POWER_2 :: "'a :: len word \<Rightarrow> 'a word \<Rightarrow> 'a word" where
  "ODP_ALIGN_ROUNDDOWN_POWER_2 x align = x AND NOT (align - 1)"

lemma roundup_nat:
  fixes x a :: nat
  assumes "0 < a"
  shows "x \<le> a * ((x + a - 1) div a)" "a * ((x + a - 1) div a) < x + a"
proof -
  have "a * ((x + a - 1) div a) = x + a - 1 - (x + a - 1) mod a"
    by (simp add: minus_mod_eq_mult_div)
  moreover have "(x + a - 1) mod a < a" using assms by simp
  ultimately show "x \<le> a * ((x + a - 1) div a)" "a * ((x + a - 1) div a) < x + a"
    using assms by linarith+
qed

lemma roundup_u32:
  fixes x a :: u32
  assumes "0 < unat a" and "unat x + unat a \<le> 2 ^ 32"
  shows "unat (ODP_ALIGN_ROUNDUP x a) = unat a * ((unat x + unat a - 1) div unat a)"
    and "unat x \<le> unat (ODP_ALIGN_ROUNDUP x a)"
    and "unat (ODP_ALIGN_ROUNDUP x a) < unat x + unat a"
    and "unat a dvd unat (ODP_ALIGN_ROUNDUP x a)"
proof -
  have "unat (a - 1) = unat a - 1" using assms(1) by (simp add: unat_sub_small)
  moreover have "x + a - 1 = x + (a - 1)" by simp
  ultimately have d: "unat (x + a - 1) = unat x + unat a - 1"
    using assms by (simp only: unat_add_small)
  have "unat a * ((unat x + unat a - 1) div unat a) < 2 ^ 32"
    using roundup_nat(2) [OF assms(1), of "unat x"] assms(2) by linarith
  then show eq: "unat (ODP_ALIGN_ROUNDUP x a) = unat a * ((unat x + unat a - 1) div unat a)"
    using d by (simp add: ODP_ALIGN_ROUNDUP_def unat_word_ariths(2) unat_div)
  show "unat x \<le> unat (ODP_ALIGN_ROUNDUP x a)"
    and "unat (ODP_ALIGN_ROUNDUP x a) < unat x + unat a"
    and "unat a dvd unat (ODP_ALIGN_ROUNDUP x a)"
    unfolding eq using roundup_nat [OF assms(1), of "unat x"] by simp_all
qed

section \<open>Chains through a next pointer\<close>

text \<open>
  \<open>chain nx p as q\<close>: following \<open>nx\<close> from the pointer \<open>p\<close> visits exactly the
  nodes \<open>as\<close>, in order, and then stands at \<open>q\<close>. A null pointer is \<open>None\<close>.
\<close>

fun chain :: "('a \<Rightarrow> 'a option) \<Rightarrow> 'a option \<Rightarrow> 'a list \<Rightarrow> 'a option \<Rightarrow> bool" where
  "chain nx p [] q \<longleftrightarrow> p = q"
| "chain nx p (a # as) q \<longleftrightarrow> p = Some a \<and> chain nx (nx a) as q"

lemma chain_append [simp]:
  "chain nx p (as @ bs) q \<longleftrightarrow> (\<exists>m. chain nx p as m \<and> chain nx m bs q)"
  by (induction as arbitrary: p) auto

lemma chain_None_iff [simp]: "chain nx None as None \<longleftrightarrow> as = []"
  by (cases as) auto

lemma chain_Some_None:
  "chain nx (Some a) as None \<longleftrightarrow> (\<exists>bs. as = a # bs \<and> chain nx (nx a) bs None)"
  by (cases as) auto

lemma chain_fun_upd [simp]:
  "u \<notin> set as \<Longrightarrow> chain (nx(u := v)) p as q = chain nx p as q"
  by (induction as arbitrary: p) auto

lemma chain_cong:
  "(\<And>a. a \<in> set as \<Longrightarrow> nx a = ny a) \<Longrightarrow> chain nx p as q = chain ny p as q"
  by (induction as arbitrary: p) auto

lemma chain_unique: "chain nx p as None \<Longrightarrow> chain nx p bs None \<Longrightarrow> as = bs"
proof (induction as arbitrary: p bs)
  case Nil
  then show ?case by (cases bs) auto
next
  case (Cons a as)
  then show ?case by (cases bs) auto
qed

lemma chain_distinct: "chain nx p as None \<Longrightarrow> distinct as"
proof (induction as arbitrary: p)
  case Nil
  then show ?case by simp
next
  case (Cons a as)
  have "a \<notin> set as"
  proof
    assume "a \<in> set as"
    then obtain us vs where as: "as = us @ a # vs" by (auto dest: split_list)
    with Cons.prems have "chain nx (nx a) (us @ a # vs) None" and "chain nx (nx a) vs None"
      by auto
    from chain_unique [OF this] show False by simp
  qed
  with Cons show ?case by auto
qed


text \<open>The part of a chain up to some element, cut off there.\<close>

lemma chain_cut:
  assumes "chain nx p (us @ vs) None" "us \<noteq> []"
  shows "chain (nx(last us := None)) p us None"
proof -
  obtain ts t where us: "us = ts @ [t]" using assms(2) by (cases us rule: rev_cases) auto
  then have "t \<notin> set ts" using chain_distinct [OF assms(1)] by simp
  then show ?thesis using assms(1) unfolding us by auto
qed
section \<open>The contract of a first-in first-out container\<close>

datatype 'b fifo_op = Put "'b list" | Get nat

text \<open>
  Running a sequence of operations: a \<open>Put\<close> that the container cannot take is not
  issued (its caller keeps the elements), a \<open>Get\<close> delivers what it removed. The
  result is the accepted input, the delivered output and the final container.
\<close>

fun fifo_run ::
  "('q \<Rightarrow> 'b list \<Rightarrow> bool) \<Rightarrow> ('q \<Rightarrow> 'b list \<Rightarrow> 'q) \<Rightarrow> ('q \<Rightarrow> nat \<Rightarrow> 'b list \<times> 'q) \<Rightarrow>
   'b fifo_op list \<Rightarrow> 'q \<Rightarrow> 'b list \<times> 'b list \<times> 'q" where
  "fifo_run fits put get [] q = ([], [], q)"
| "fifo_run fits put get (Put xs # ops) q =
     (if fits q xs
      then let (i, out, q') = fifo_run fits put get ops (put q xs) in (xs @ i, out, q')
      else fifo_run fits put get ops q)"
| "fifo_run fits put get (Get n # ops) q =
     (let (ys, q1) = get q n; (i, out, q') = fifo_run fits put get ops q1 in (i, ys @ out, q'))"

text \<open>\<open>rep q xs\<close>: the container is well formed and holds \<open>xs\<close>, the oldest element first.\<close>

locale fifo_container =
  fixes rep :: "'q \<Rightarrow> 'b list \<Rightarrow> bool"
    and fits :: "'q \<Rightarrow> 'b list \<Rightarrow> bool"
    and put :: "'q \<Rightarrow> 'b list \<Rightarrow> 'q"
    and get :: "'q \<Rightarrow> nat \<Rightarrow> 'b list \<times> 'q"
  assumes put_rep: "rep q xs \<Longrightarrow> fits q ys \<Longrightarrow> rep (put q ys) (xs @ ys)"
    and get_rep: "rep q xs \<Longrightarrow> \<exists>zs. xs = fst (get q n) @ zs \<and> rep (snd (get q n)) zs"
begin

text \<open>Whatever the interleaving, elements leave in the order they entered: none is
  lost, duplicated or overtaken.\<close>

lemma run_fifo:
  assumes "rep q xs" and "fifo_run fits put get ops q = (i, out, q')"
  shows "\<exists>ys. rep q' ys \<and> xs @ i = out @ ys"
  using assms
proof (induction ops arbitrary: q xs i out)
  case Nil
  then show ?case by simp
next
  case (Cons op ops)
  show ?case
  proof (cases op)
    case (Put ys)
    show ?thesis
    proof (cases "fits q ys")
      case True
      with Cons.prems Put obtain i1 where
        run: "fifo_run fits put get ops (put q ys) = (i1, out, q')" and i: "i = ys @ i1"
        by (auto split: prod.splits)
      from Cons.IH [OF put_rep [OF Cons.prems(1) True] run] i show ?thesis by simp
    next
      case False
      with Cons.prems Put Cons.IH show ?thesis by simp
    qed
  next
    case (Get n)
    with Cons.prems obtain out1 where
      run: "fifo_run fits put get ops (snd (get q n)) = (i, out1, q')"
      and out: "out = fst (get q n) @ out1"
      by (auto split: prod.splits)
    from get_rep [OF Cons.prems(1), of n] obtain zs
      where "xs = fst (get q n) @ zs" "rep (snd (get q n)) zs" by blast
    with Cons.IH [OF this(2) run] out show ?thesis by auto
  qed
qed

corollary run_from_empty:
  assumes "rep q []" and "fifo_run fits put get ops q = (i, out, q')"
  shows "\<exists>ys. rep q' ys \<and> i = out @ ys"
  using run_fifo [OF assms] by simp

end


section \<open>Signed words and lists\<close>

lemma sint_u32:
  "sint (x :: u32) = (if unat x < 2 ^ 31 then int (unat x) else int (unat x) - 2 ^ 32)"
proof -
  define k where "k = unat x"
  have b: "k < 2 ^ 32" using u32_bound [of x] by (simp add: k_def)
  have s: "sint x = (int k + 2 ^ 31) mod 2 ^ 32 - 2 ^ 31"
    unfolding sint_uint signed_take_bit_eq_take_bit_shift take_bit_eq_mod by (simp add: k_def)
  have "sint x = (if k < 2 ^ 31 then int k else int k - 2 ^ 32)"
  proof (cases "k < 2 ^ 31")
    case True
    then have "(int k + 2 ^ 31) mod 2 ^ 32 = int k + 2 ^ 31" by (intro mod_pos_pos_trivial) auto
    with True s show ?thesis by simp
  next
    case False
    have "(int k + 2 ^ 31) mod 2 ^ 32 = (int k + 2 ^ 31 - 2 ^ 32) mod 2 ^ 32"
      by (rule minus_mod_self2 [symmetric])
    also have "\<dots> = int k + 2 ^ 31 - 2 ^ 32" using b False by (intro mod_pos_pos_trivial) auto
    finally show ?thesis using False s by simp
  qed
  then show ?thesis unfolding k_def .
qed

lemma sorted_insert_after:
  fixes k :: "'a :: linorder"
  assumes "sorted (map f (us @ vs))" "\<forall>u \<in> set us. f u \<le> k" "vs \<noteq> [] \<Longrightarrow> k < f (hd vs)"
  shows "sorted (map f us @ k # map f vs)"
  using assms by (cases vs) (auto simp: sorted_append intro: order.trans)

lemma find_upt_first:
  assumes "P i" "i < n" "\<And>j. j < i \<Longrightarrow> \<not> P j"
  shows "find P [0..<n] = Some i"
  using assms by (auto simp: find_Some_iff intro!: exI [of _ i])

lemma find_upt_Some:
  "find P [a..<b] = Some i \<longleftrightarrow> a \<le> i \<and> i < b \<and> P i \<and> (\<forall>j. a \<le> j \<and> j < i \<longrightarrow> \<not> P j)"
proof (cases "a \<le> b")
  case True
  have "find P [a..<b] = Some i \<longleftrightarrow> (\<exists>k < b - a. P (a + k) \<and> i = a + k \<and> (\<forall>j < k. \<not> P (a + j)))"
    using True by (auto simp: find_Some_iff)
  also have "\<dots> \<longleftrightarrow> a \<le> i \<and> i < b \<and> P i \<and> (\<forall>j. a \<le> j \<and> j < i \<longrightarrow> \<not> P j)"
    by (auto simp: le_iff_add)
  finally show ?thesis .
qed simp

lemma find_upt_None: "find P [a..<b] = None \<longleftrightarrow> (\<forall>i. a \<le> i \<and> i < b \<longrightarrow> \<not> P i)"
  by (auto simp: find_None_iff)

lemma insert_between:
  "set (takeWhile P xs @ a # dropWhile P xs) = set (a # xs)" "distinct (a # xs) \<Longrightarrow> distinct (takeWhile P xs @ a # dropWhile P xs)"
proof -
  obtain us vs where uv: "takeWhile P xs = us" "dropWhile P xs = vs" by simp
  then have "xs = us @ vs" by (metis takeWhile_dropWhile_id)
  then show "set (takeWhile P xs @ a # dropWhile P xs) = set (a # xs)" "distinct (a # xs) \<Longrightarrow> distinct (takeWhile P xs @ a # dropWhile P xs)"
    unfolding uv by auto
qed

section \<open>Words in memory\<close>

text \<open>A word from its bytes, the least significant first.\<close>

fun le_word :: "u8 list \<Rightarrow> 'a::len word" where
  "le_word [] = 0"
| "le_word (b # bs) = ucast b OR push_bit 8 (le_word bs)"

lemma bit_u8: "bit (b :: u8) n \<Longrightarrow> n < 8"
  using bit_imp_le_length [of b n] by simp

lemma bit_le_word:
  "bit (le_word bs :: 'a::len word) n \<longleftrightarrow> n < LENGTH('a) \<and> n div 8 < length bs \<and> bit (bs ! (n div 8)) (n mod 8)"
proof (induction bs arbitrary: n)
  case (Cons b bs)
  show ?case
  proof (cases "n < 8")
    case True
    then show ?thesis by (auto simp: bit_simps)
  next
    case False
    then obtain m where m: "n = m + 8" by (metis add.commute le_Suc_ex not_less)
    have "\<not> bit b n" using False bit_u8 by blast
    moreover have "(m + 8) div 8 = Suc (m div 8)" by simp
    ultimately show ?thesis using Cons.IH [of m] by (auto simp: bit_simps m)
  qed
qed simp

lemma find_SomeD: "find P xs = Some x \<Longrightarrow> x \<in> set xs \<and> P x"
  by (induction xs) (auto split: if_splits)

section \<open>Invariants of step relations\<close>

locale invariant_system =
  fixes start :: "'s \<Rightarrow> bool" and step :: "'s \<Rightarrow> 's \<Rightarrow> bool" and inv :: "'s \<Rightarrow> bool"
  assumes start_inv: "start s \<Longrightarrow> inv s"
    and step_inv: "inv s \<Longrightarrow> step s s' \<Longrightarrow> inv s'"
begin

lemma reachable_inv:
  assumes "rtranclp step s s'" and "start s"
  shows "inv s'"
  using assms by (induction rule: rtranclp_induct) (auto intro: start_inv step_inv)

end

lemma three_steps:
  assumes "r a b" "r b c" "r c d"
  shows "rtranclp r a d"
proof -
  have "rtranclp r a b" using assms(1) by (rule r_into_rtranclp)
  then have "rtranclp r a c" using assms(2) by (rule rtranclp.rtrancl_into_rtrancl)
  then show ?thesis using assms(3) by (rule rtranclp.rtrancl_into_rtrancl)
qed

end
