(* ===== verification/Odp_Locks.thy ===== *)
theory Odp_Locks
  imports Odp_Prelude
begin

text \<open>
  Locks and barriers (\<open>platform/mppa/odp_spinlock.c\<close>, \<open>odp_ticketlock.c\<close>, \<open>odp_rwlock.c\<close>,
  \<open>platform/linux-generic/odp_barrier.c\<close>). Each atomic access is one step; the threads of a
  system take their steps in any order. The position of a thread in the function it is
  executing, with its local variables, is its program counter.
\<close>

section \<open>Atomic operations\<close>

text \<open>Compare and exchange: the success flag, the expected value (updated on failure) and the
  new value of the variable.\<close>

definition cmp_xchg_strong :: "u32 \<Rightarrow> u32 \<Rightarrow> u32 \<Rightarrow> bool \<times> u32 \<times> u32" where
  "cmp_xchg_strong atom expected val =
     (if atom = expected then (True, expected, val) else (False, atom, atom))"

text \<open>A flag is set when its word is zero.\<close>

definition flag_init :: "u64 \<Rightarrow> u64" where "flag_init val = val"
definition flag_load :: "u64 \<Rightarrow> bool" where "flag_load flag \<longleftrightarrow> flag = 0"
definition flag_tas :: "u64 \<Rightarrow> bool \<times> u64" where "flag_tas flag = (flag = 0, 0)"
definition flag_clear :: "u64 \<Rightarrow> u64" where "flag_clear flag = 1"

section \<open>Definitions: spin lock\<close>

definition odp_spinlock_init :: u64 where "odp_spinlock_init = flag_init 1"

text \<open>One round of the outer loop of \<open>odp_spinlock_lock\<close>: the lock has been taken, or the
  inner loop starts.\<close>

definition odp_spinlock_trylock :: "u64 \<Rightarrow> bool \<times> u64" where
  "odp_spinlock_trylock lk = (let (taken, lk) = flag_tas lk in (\<not> taken, lk))"

definition odp_spinlock_unlock :: "u64 \<Rightarrow> u64" where "odp_spinlock_unlock lk = flag_clear lk"
definition odp_spinlock_is_locked :: "u64 \<Rightarrow> bool" where "odp_spinlock_is_locked lk = flag_load lk"

datatype spin_pc = Sp_idle | Sp_tas | Sp_read | Sp_in

record spin_sys =
  sp_lock :: u64
  sp_pc :: "nat \<Rightarrow> spin_pc"

inductive spin_step :: "spin_sys \<Rightarrow> spin_sys \<Rightarrow> bool" where
  lock_call: "sp_pc s i = Sp_idle \<Longrightarrow> spin_step s (s\<lparr>sp_pc := (sp_pc s)(i := Sp_tas)\<rparr>)"
| lock_tas: "sp_pc s i = Sp_tas \<Longrightarrow> flag_tas (sp_lock s) = (busy, lk) \<Longrightarrow>
    spin_step s (s\<lparr>sp_lock := lk, sp_pc := (sp_pc s)(i := if busy then Sp_read else Sp_in)\<rparr>)"
| lock_read: "sp_pc s i = Sp_read \<Longrightarrow>
    spin_step s (s\<lparr>sp_pc := (sp_pc s)(i := if flag_load (sp_lock s) then Sp_read else Sp_tas)\<rparr>)"
| trylock: "sp_pc s i = Sp_idle \<Longrightarrow> odp_spinlock_trylock (sp_lock s) = (ok, lk) \<Longrightarrow>
    spin_step s (s\<lparr>sp_lock := lk, sp_pc := (sp_pc s)(i := if ok then Sp_in else Sp_idle)\<rparr>)"
| unlock: "sp_pc s i = Sp_in \<Longrightarrow>
    spin_step s (s\<lparr>sp_lock := odp_spinlock_unlock (sp_lock s), sp_pc := (sp_pc s)(i := Sp_idle)\<rparr>)"

section \<open>Definitions: ticket lock\<close>

record odp_ticketlock_t =
  tk_next_ticket :: u32
  tk_cur_ticket :: u32

definition odp_ticketlock_init :: odp_ticketlock_t where
  "odp_ticketlock_init = \<lparr>tk_next_ticket = 0, tk_cur_ticket = 0\<rparr>"

definition ticketlock_take :: "odp_ticketlock_t \<Rightarrow> u32 \<times> odp_ticketlock_t" where
  "ticketlock_take l = (tk_next_ticket l, l\<lparr>tk_next_ticket := tk_next_ticket l + 1\<rparr>)"

definition ticketlock_turn :: "odp_ticketlock_t \<Rightarrow> u32 \<Rightarrow> bool" where
  "ticketlock_turn l ticket \<longleftrightarrow> ticket = tk_cur_ticket l"

text \<open>The compare and exchange of \<open>odp_ticketlock_trylock\<close>, on the next ticket read before.\<close>

definition ticketlock_try :: "odp_ticketlock_t \<Rightarrow> u32 \<Rightarrow> bool \<times> odp_ticketlock_t" where
  "ticketlock_try l nx =
     (let (ok, _, v) = cmp_xchg_strong (tk_next_ticket l) nx (nx + 1) in (ok, l\<lparr>tk_next_ticket := v\<rparr>))"

definition odp_ticketlock_unlock :: "odp_ticketlock_t \<Rightarrow> odp_ticketlock_t" where
  "odp_ticketlock_unlock l = l\<lparr>tk_cur_ticket := tk_cur_ticket l + 1\<rparr>"

definition odp_ticketlock_is_locked :: "odp_ticketlock_t \<Rightarrow> bool" where
  "odp_ticketlock_is_locked l \<longleftrightarrow> tk_cur_ticket l \<noteq> tk_next_ticket l"

text \<open>The numbers of tickets taken and served since the start are kept beside the lock, and a
  thread remembers the number of its ticket and of the tickets taken when it read the
  lock: history that no step depends on.\<close>

datatype tk_pc = Tk_idle | Tk_spin u32 nat | Tk_in nat | Tk_try u32 nat | Tk_cas u32 nat

record tk_sys =
  tk_lock :: odp_ticketlock_t
  tk_pc :: "nat \<Rightarrow> tk_pc"
  tk_taken :: nat
  tk_served :: nat

definition tk_start :: tk_sys where
  "tk_start = \<lparr>tk_lock = odp_ticketlock_init, tk_pc = (\<lambda>_. Tk_idle), tk_taken = 0, tk_served = 0\<rparr>"

inductive tk_step :: "nat \<Rightarrow> tk_sys \<Rightarrow> tk_sys \<Rightarrow> bool" for n where
  take: "i < n \<Longrightarrow> tk_pc s i = Tk_idle \<Longrightarrow> ticketlock_take (tk_lock s) = (t, l) \<Longrightarrow>
    tk_step n s (s\<lparr>tk_lock := l, tk_pc := (tk_pc s)(i := Tk_spin t (tk_taken s)), tk_taken := tk_taken s + 1\<rparr>)"
| spin: "tk_pc s i = Tk_spin t k \<Longrightarrow>
    tk_step n s (s\<lparr>tk_pc := (tk_pc s)(i := if ticketlock_turn (tk_lock s) t then Tk_in k else Tk_spin t k)\<rparr>)"
| try_read: "i < n \<Longrightarrow> tk_pc s i = Tk_idle \<Longrightarrow>
    tk_step n s (s\<lparr>tk_pc := (tk_pc s)(i := Tk_try (tk_next_ticket (tk_lock s)) (tk_taken s))\<rparr>)"
| try_check: "tk_pc s i = Tk_try nx k \<Longrightarrow>
    tk_step n s (s\<lparr>tk_pc := (tk_pc s)(i := if nx = tk_cur_ticket (tk_lock s) then Tk_cas nx k else Tk_idle)\<rparr>)"
| try_taken: "tk_pc s i = Tk_cas nx k \<Longrightarrow> ticketlock_try (tk_lock s) nx = (True, l) \<Longrightarrow>
    tk_step n s (s\<lparr>tk_lock := l, tk_pc := (tk_pc s)(i := Tk_in (tk_taken s)), tk_taken := tk_taken s + 1\<rparr>)"
| try_busy: "tk_pc s i = Tk_cas nx k \<Longrightarrow> ticketlock_try (tk_lock s) nx = (False, l) \<Longrightarrow>
    tk_step n s (s\<lparr>tk_lock := l, tk_pc := (tk_pc s)(i := Tk_idle)\<rparr>)"
| unlock: "tk_pc s i = Tk_in k \<Longrightarrow>
    tk_step n s (s\<lparr>tk_lock := odp_ticketlock_unlock (tk_lock s), tk_pc := (tk_pc s)(i := Tk_idle),
                  tk_served := tk_served s + 1\<rparr>)"


section \<open>Definitions: reader-writer lock\<close>

text \<open>One round of each loop: whether the loop ends, the local variable and the lock word.\<close>

definition rwlock_read_iter :: "u32 \<Rightarrow> u32 \<Rightarrow> bool \<times> u32 \<times> u32" where
  "rwlock_read_iter atom cnt =
     (if sint cnt < 0 then (False, atom, atom) else cmp_xchg_strong atom cnt (cnt + 1))"

definition rwlock_read_unlock_iter :: "u32 \<Rightarrow> u32 \<Rightarrow> bool \<times> u32 \<times> u32" where
  "rwlock_read_unlock_iter atom cnt =
     cmp_xchg_strong atom cnt (cnt + (if sint cnt < 0 then 1 else - 1))"

definition rwlock_write_iter :: "u32 \<Rightarrow> u32 \<Rightarrow> bool \<times> u32 \<times> u32" where
  "rwlock_write_iter atom cnt =
     (if cnt \<noteq> 0 \<and> cnt \<noteq> - 2
      then if sint cnt > 0 then let (_, cnt, atom) = cmp_xchg_strong atom cnt (- cnt - 2) in (False, cnt, atom)
           else (False, atom, atom)
      else cmp_xchg_strong atom cnt (- 1))"

datatype rw_pc = Rw_idle | Rw_rlock u32 | Rw_read | Rw_runlock u32 | Rw_wlock u32 | Rw_write

record rw_sys =
  rw_cnt :: u32
  rw_pc :: "nat \<Rightarrow> rw_pc"

text \<open>\<open>odp_rwlock_init\<close>, with all threads outside.\<close>

definition rw_start :: rw_sys where
  "rw_start = \<lparr>rw_cnt = 0, rw_pc = (\<lambda>_. Rw_idle)\<rparr>"

inductive rw_step :: "nat \<Rightarrow> rw_sys \<Rightarrow> rw_sys \<Rightarrow> bool" for n where
  read_lock: "i < n \<Longrightarrow> rw_pc s i = Rw_idle \<Longrightarrow>
    rw_step n s (s\<lparr>rw_pc := (rw_pc s)(i := Rw_rlock (- 1))\<rparr>)"
| read_iter: "rw_pc s i = Rw_rlock c \<Longrightarrow> rwlock_read_iter (rw_cnt s) c = (ok, c', atom) \<Longrightarrow>
    rw_step n s \<lparr>rw_cnt = atom, rw_pc = (rw_pc s)(i := if ok then Rw_read else Rw_rlock c')\<rparr>"
| read_unlock: "rw_pc s i = Rw_read \<Longrightarrow> rw_step n s (s\<lparr>rw_pc := (rw_pc s)(i := Rw_runlock 1)\<rparr>)"
| read_unlock_iter: "rw_pc s i = Rw_runlock c \<Longrightarrow> rwlock_read_unlock_iter (rw_cnt s) c = (ok, c', atom) \<Longrightarrow>
    rw_step n s \<lparr>rw_cnt = atom, rw_pc = (rw_pc s)(i := if ok then Rw_idle else Rw_runlock c')\<rparr>"
| write_lock: "i < n \<Longrightarrow> rw_pc s i = Rw_idle \<Longrightarrow>
    rw_step n s (s\<lparr>rw_pc := (rw_pc s)(i := Rw_wlock 1)\<rparr>)"
| write_iter: "rw_pc s i = Rw_wlock c \<Longrightarrow> rwlock_write_iter (rw_cnt s) c = (ok, c', atom) \<Longrightarrow>
    rw_step n s \<lparr>rw_cnt = atom, rw_pc = (rw_pc s)(i := if ok then Rw_write else Rw_wlock c')\<rparr>"
| write_unlock: "rw_pc s i = Rw_write \<Longrightarrow>
    rw_step n s \<lparr>rw_cnt = 0, rw_pc = (rw_pc s)(i := Rw_idle)\<rparr>"


section \<open>Definitions: barrier\<close>

record odp_barrier_t =
  ba_count :: u32
  ba_bar :: u32

definition odp_barrier_init :: "u32 \<Rightarrow> odp_barrier_t" where
  "odp_barrier_init count = \<lparr>ba_count = count, ba_bar = 0\<rparr>"

datatype ba_pc = Ba_out | Ba_wait bool | Ba_wrap

text \<open>\<open>odp_barrier_wait\<close> up to its first test, the wrap-around, and one round of its loop.\<close>

definition barrier_arrive :: "odp_barrier_t \<Rightarrow> ba_pc \<times> odp_barrier_t" where
  "barrier_arrive b =
     (let count = ba_bar b; wasless = (count < ba_count b)
      in (if count = 2 * ba_count b - 1 then Ba_wrap else Ba_wait wasless, b\<lparr>ba_bar := ba_bar b + 1\<rparr>))"

definition barrier_wrap :: "odp_barrier_t \<Rightarrow> odp_barrier_t" where
  "barrier_wrap b = b\<lparr>ba_bar := ba_bar b - 2 * ba_count b\<rparr>"

definition barrier_spin :: "odp_barrier_t \<Rightarrow> bool \<Rightarrow> bool" where
  "barrier_spin b wasless \<longleftrightarrow> (ba_bar b < ba_count b) = wasless"

text \<open>How often each thread has entered and left the barrier is kept as history.\<close>

record ba_sys =
  ba_barrier :: odp_barrier_t
  ba_pc :: "nat \<Rightarrow> ba_pc"
  ba_entered :: "nat \<Rightarrow> nat"
  ba_left :: "nat \<Rightarrow> nat"

definition ba_start :: "nat \<Rightarrow> ba_sys" where
  "ba_start n = \<lparr>ba_barrier = odp_barrier_init (of_nat n), ba_pc = (\<lambda>_. Ba_out), ba_entered = (\<lambda>_. 0), ba_left = (\<lambda>_. 0)\<rparr>"

inductive ba_step :: "nat \<Rightarrow> ba_sys \<Rightarrow> ba_sys \<Rightarrow> bool" for n where
  arrive: "i < n \<Longrightarrow> ba_pc s i = Ba_out \<Longrightarrow> barrier_arrive (ba_barrier s) = (p, b) \<Longrightarrow>
    ba_step n s (s\<lparr>ba_barrier := b, ba_pc := (ba_pc s)(i := p),
                   ba_entered := (ba_entered s)(i := ba_entered s i + 1)\<rparr>)"
| wrap: "ba_pc s i = Ba_wrap \<Longrightarrow>
    ba_step n s (s\<lparr>ba_barrier := barrier_wrap (ba_barrier s), ba_pc := (ba_pc s)(i := Ba_out),
                   ba_left := (ba_left s)(i := ba_left s i + 1)\<rparr>)"
| spin: "ba_pc s i = Ba_wait w \<Longrightarrow> barrier_spin (ba_barrier s) w \<Longrightarrow> ba_step n s s"
| leave: "ba_pc s i = Ba_wait w \<Longrightarrow> \<not> barrier_spin (ba_barrier s) w \<Longrightarrow>
    ba_step n s (s\<lparr>ba_pc := (ba_pc s)(i := Ba_out), ba_left := (ba_left s)(i := ba_left s i + 1)\<rparr>)"


section \<open>Proofs: ticket lock\<close>

fun tk_ticket :: "tk_pc \<Rightarrow> nat option" where
  "tk_ticket (Tk_spin t k) = Some k"
| "tk_ticket (Tk_in k) = Some k"
| "tk_ticket _ = None"

text \<open>A thread is fresh when fewer than \<open>2 ^ 32\<close> tickets have been taken since its unfinished
  \<open>odp_ticketlock_trylock\<close> read the lock.\<close>

fun pc_fresh :: "nat \<Rightarrow> tk_pc \<Rightarrow> bool" where
  "pc_fresh taken (Tk_try nx k) \<longleftrightarrow> taken < k + 2 ^ 32"
| "pc_fresh taken (Tk_cas nx k) \<longleftrightarrow> taken < k + 2 ^ 32"
| "pc_fresh taken _ \<longleftrightarrow> True"

definition tk_fresh :: "tk_sys \<Rightarrow> bool" where
  "tk_fresh s \<longleftrightarrow> (\<forall>i. pc_fresh (tk_taken s) (tk_pc s i))"

fun pc_ok :: "nat \<Rightarrow> nat \<Rightarrow> tk_pc \<Rightarrow> bool" where
  "pc_ok taken served Tk_idle \<longleftrightarrow> True"
| "pc_ok taken served (Tk_spin t k) \<longleftrightarrow> t = of_nat k \<and> served \<le> k \<and> k < taken"
| "pc_ok taken served (Tk_in k) \<longleftrightarrow> k = served \<and> k < taken"
| "pc_ok taken served (Tk_try nx k) \<longleftrightarrow> nx = of_nat k \<and> k \<le> taken"
| "pc_ok taken served (Tk_cas nx k) \<longleftrightarrow> nx = of_nat k \<and> k \<le> served"

definition tk_inv :: "nat \<Rightarrow> tk_sys \<Rightarrow> bool" where
  "tk_inv n s \<longleftrightarrow> tk_next_ticket (tk_lock s) = of_nat (tk_taken s) \<and>
     tk_cur_ticket (tk_lock s) = of_nat (tk_served s) \<and> tk_served s \<le> tk_taken s \<and>
     (\<forall>i. pc_ok (tk_taken s) (tk_served s) (tk_pc s i)) \<and>
     (\<forall>i. n \<le> i \<longrightarrow> tk_pc s i = Tk_idle) \<and>
     (\<forall>i j k. tk_ticket (tk_pc s i) = Some k \<longrightarrow> tk_ticket (tk_pc s j) = Some k \<longrightarrow> i = j) \<and>
     (\<forall>k. tk_served s \<le> k \<longrightarrow> k < tk_taken s \<longrightarrow> (\<exists>i. tk_ticket (tk_pc s i) = Some k)) \<and>
     tk_fresh s"

lemma tk_invD:
  assumes "tk_inv n s"
  shows "tk_next_ticket (tk_lock s) = of_nat (tk_taken s)" "tk_cur_ticket (tk_lock s) = of_nat (tk_served s)"
    "tk_served s \<le> tk_taken s" "pc_ok (tk_taken s) (tk_served s) (tk_pc s i)" "n \<le> i \<Longrightarrow> tk_pc s i = Tk_idle"
    "tk_ticket (tk_pc s i) = Some k \<Longrightarrow> tk_ticket (tk_pc s j) = Some k \<Longrightarrow> i = j"
    "tk_served s \<le> k \<Longrightarrow> k < tk_taken s \<Longrightarrow> \<exists>i. tk_ticket (tk_pc s i) = Some k" "tk_fresh s"
    "pc_fresh (tk_taken s) (tk_pc s i)"
  using assms by (auto simp: tk_inv_def tk_fresh_def)

text \<open>At most as many tickets are outstanding as there are threads.\<close>

lemma tk_outstanding:
  assumes "tk_inv n s"
  shows "tk_taken s - tk_served s \<le> n"
proof -
  define f where "f k = (SOME i. tk_ticket (tk_pc s i) = Some k)" for k
  have f: "tk_ticket (tk_pc s (f k)) = Some k" if "k \<in> {tk_served s..<tk_taken s}" for k
    unfolding f_def by (rule someI_ex) (use tk_invD(7) [OF assms, of k] that in simp)
  have "inj_on f {tk_served s..<tk_taken s}"
  proof (rule inj_onI)
    fix a b assume ab: "a \<in> {tk_served s..<tk_taken s}" "b \<in> {tk_served s..<tk_taken s}" and eq: "f a = f b"
    have "Some a = Some b" using f [OF ab(1)] f [OF ab(2)] unfolding eq by (rule trans [OF sym])
    then show "a = b" by (rule option.inject [THEN iffD1])
  qed
  moreover have "f ` {tk_served s..<tk_taken s} \<subseteq> {..<n}"
  proof
    fix i assume "i \<in> f ` {tk_served s..<tk_taken s}"
    then have "tk_ticket (tk_pc s i) \<noteq> None" using f by auto
    then show "i \<in> {..<n}" using tk_invD(5) [OF assms, of i] by (cases "n \<le> i") auto
  qed
  ultimately have "card {tk_served s..<tk_taken s} \<le> card {..<n}" by (rule card_inj_on_le) simp
  then show ?thesis by simp
qed

lemma mod_eq_close:
  assumes "a mod m = b mod m" "a < b + m" "b < a + (m :: nat)"
  shows "a = b"
proof (rule ccontr)
  assume "a \<noteq> b"
  then consider "a < b" | "b < a" by linarith
  then show False
  proof cases
    case 1
    then have "m dvd b - a" using assms(1) by (metis less_imp_le mod_eq_dvd_iff_nat)
    with 1 assms(3) show False using nat_dvd_not_less [of "b - a" m] by linarith
  next
    case 2
    then have "m dvd a - b" using assms(1) by (metis less_imp_le mod_eq_dvd_iff_nat)
    with 2 assms(2) show False using nat_dvd_not_less [of "a - b" m] by linarith
  qed
qed

lemma of_nat_u32_eq:
  assumes "(of_nat a :: u32) = of_nat b" "a < b + 2 ^ 32" "b < a + 2 ^ 32"
  shows "a = b"
proof (rule mod_eq_close [OF _ assms(2,3)])
  show "a mod 2 ^ 32 = b mod 2 ^ 32"
    using arg_cong [OF assms(1), of unat] by (simp add: unsigned_of_nat take_bit_eq_mod)
qed

lemma pc_ok_mono: "pc_ok taken served pc \<Longrightarrow> pc_ok (Suc taken) served pc"
  by (cases pc) auto

lemma tk_start_inv: "tk_inv n tk_start"
  by (simp add: tk_inv_def tk_start_def odp_ticketlock_init_def tk_fresh_def)


lemma pc_ok_ticket: "pc_ok taken served pc \<Longrightarrow> tk_ticket pc = Some k \<Longrightarrow> served \<le> k \<and> k < taken"
  by (cases pc) auto

lemma tk_invI:
  assumes "tk_next_ticket (tk_lock s) = of_nat (tk_taken s)" "tk_cur_ticket (tk_lock s) = of_nat (tk_served s)"
    "tk_served s \<le> tk_taken s" "\<And>i. pc_ok (tk_taken s) (tk_served s) (tk_pc s i)"
    "\<And>i. n \<le> i \<Longrightarrow> tk_pc s i = Tk_idle"
    "\<And>i j k. tk_ticket (tk_pc s i) = Some k \<Longrightarrow> tk_ticket (tk_pc s j) = Some k \<Longrightarrow> i = j"
    "\<And>k. tk_served s \<le> k \<Longrightarrow> k < tk_taken s \<Longrightarrow> \<exists>i. tk_ticket (tk_pc s i) = Some k" "tk_fresh s"
  shows "tk_inv n s"
  unfolding tk_inv_def using assms by blast

text \<open>The three kinds of changes: a thread gets the next ticket; it moves without touching the
  tickets; the thread that is served leaves.\<close>

lemma tk_inv_ticket:
  assumes inv: "tk_inv n s" and i: "i < n" "tk_ticket (tk_pc s i) = None"
    and new: "tk_ticket pc = Some (tk_taken s)" "pc_ok (Suc (tk_taken s)) (tk_served s) pc"
    and s': "s' = s\<lparr>tk_lock := (tk_lock s)\<lparr>tk_next_ticket := tk_next_ticket (tk_lock s) + 1\<rparr>,
      tk_pc := (tk_pc s)(i := pc), tk_taken := tk_taken s + 1\<rparr>" "tk_fresh s'"
  shows "tk_inv n s'"
proof -
  note I = tk_invD [OF inv]
  have old: "tk_ticket (tk_pc s j) \<noteq> Some (tk_taken s)" for j using pc_ok_ticket [OF I(4) [of j]] by auto
  show ?thesis
  proof (rule tk_invI)
    show "tk_next_ticket (tk_lock s') = of_nat (tk_taken s')" "tk_cur_ticket (tk_lock s') = of_nat (tk_served s')"
      "tk_served s' \<le> tk_taken s'" "tk_fresh s'" using I(1-3) s'(2) unfolding s'(1) by simp_all
    show "a = b" if "tk_ticket (tk_pc s' a) = Some k" "tk_ticket (tk_pc s' b) = Some k" for a b k
      using that I(6) [of a k b] old [of a] old [of b] new(1) by (auto simp: s'(1) split: if_splits)
    show "\<exists>j. tk_ticket (tk_pc s' j) = Some k" if kk': "tk_served s' \<le> k" "k < tk_taken s'" for k
    proof (cases "k = tk_taken s")
      case True
      then show ?thesis using new(1) by (intro exI [of _ i]) (simp add: s'(1))
    next
      case False
      then obtain j where j: "tk_ticket (tk_pc s j) = Some k" using I(7) [of k] kk' unfolding s'(1) by auto
      then have "j \<noteq> i" using i(2) by auto
      with j show ?thesis by (intro exI [of _ j]) (simp add: s'(1))
    qed
    show "pc_ok (tk_taken s') (tk_served s') (tk_pc s' j)" for j
      using pc_ok_mono [OF I(4) [of j]] new(2) by (simp add: s'(1))
    show "n \<le> j \<Longrightarrow> tk_pc s' j = Tk_idle" for j using I(5) [of j] i(1) by (auto simp: s'(1))
  qed
qed

lemma tk_inv_move:
  assumes inv: "tk_inv n s" and i: "i < n" and new: "tk_ticket pc = tk_ticket (tk_pc s i)"
    "pc_ok (tk_taken s) (tk_served s) pc" and s': "s' = s\<lparr>tk_pc := (tk_pc s)(i := pc)\<rparr>" "tk_fresh s'"
  shows "tk_inv n s'"
proof -
  note I = tk_invD [OF inv]
  have t: "tk_ticket (tk_pc s' j) = tk_ticket (tk_pc s j)" for j using new(1) by (simp add: s'(1))
  show ?thesis
  proof (rule tk_invI)
    show "tk_next_ticket (tk_lock s') = of_nat (tk_taken s')" "tk_cur_ticket (tk_lock s') = of_nat (tk_served s')"
      "tk_served s' \<le> tk_taken s'" "tk_fresh s'" using I(1-3) s'(2) unfolding s'(1) by (simp_all)
    show "pc_ok (tk_taken s') (tk_served s') (tk_pc s' j)" for j using I(4) [of j] new(2) by (simp add: s'(1))
    show "n \<le> j \<Longrightarrow> tk_pc s' j = Tk_idle" for j using I(5) [of j] i(1) by (auto simp: s'(1))
    show "a = b" if "tk_ticket (tk_pc s' a) = Some k" "tk_ticket (tk_pc s' b) = Some k" for a b k
      using that I(6) [of a k b] unfolding t by blast
    show "\<exists>j. tk_ticket (tk_pc s' j) = Some k" if "tk_served s' \<le> k" "k < tk_taken s'" for k
      using that I(7) [of k] unfolding t unfolding s'(1) by simp
  qed
qed

lemma tk_inv_unlock:
  assumes inv: "tk_inv n s" and i: "tk_pc s i = Tk_in k"
    and s': "s' = s\<lparr>tk_lock := odp_ticketlock_unlock (tk_lock s), tk_pc := (tk_pc s)(i := Tk_idle),
                  tk_served := tk_served s + 1\<rparr>" "tk_fresh s'"
  shows "tk_inv n s'"
proof -
  note I = tk_invD [OF inv]
  have k: "k = tk_served s" "k < tk_taken s" using I(4) [of i] i by simp_all
  have "pc_ok (tk_taken s) (Suc (tk_served s)) (tk_pc s j)" if "j \<noteq> i" for j
  proof -
    have "tk_ticket (tk_pc s j) \<noteq> Some k" using that I(6) [of i k j] i by auto
    then show ?thesis using I(4) [of j] k by (cases "tk_pc s j") auto
  qed
  note pcs = this
  show ?thesis
  proof (rule tk_invI)
    show "tk_next_ticket (tk_lock s') = of_nat (tk_taken s')" "tk_cur_ticket (tk_lock s') = of_nat (tk_served s')"
      "tk_served s' \<le> tk_taken s'" "tk_fresh s'" using I(1-3) k s'(2) unfolding s'(1) by (simp_all add: odp_ticketlock_unlock_def)
    show "pc_ok (tk_taken s') (tk_served s') (tk_pc s' j)" for j using pcs unfolding s'(1) by simp
    show "n \<le> j \<Longrightarrow> tk_pc s' j = Tk_idle" for j using I(5) [of j] by (simp add: s'(1))
    show "a = b" if "tk_ticket (tk_pc s' a) = Some m" "tk_ticket (tk_pc s' b) = Some m" for a b m
      using that I(6) [of a m b] by (auto simp: s'(1) split: if_splits)
    show "\<exists>j. tk_ticket (tk_pc s' j) = Some m" if mm': "tk_served s' \<le> m" "m < tk_taken s'" for m
    proof -
      have mm: "Suc (tk_served s) \<le> m" "m < tk_taken s" using mm' by (simp_all add: s'(1))
      obtain j where j: "tk_ticket (tk_pc s j) = Some m" using I(7) [of m] mm by auto
      then have "j \<noteq> i" using i k mm by auto
      with j show ?thesis by (intro exI [of _ j]) (simp add: s'(1))
    qed
  qed
qed

lemma tk_step_inv:
  assumes inv: "tk_inv n s" and step: "tk_step n s s'" and fresh: "tk_fresh s'" and n: "n < 2 ^ 32"
  shows "tk_inv n s'"
  using step
proof cases
  case (take i t l)
  then show ?thesis using fresh tk_invD(1,3) [OF inv]
    by (intro tk_inv_ticket [OF inv, of i "Tk_spin t (tk_taken s)"]) (auto simp: ticketlock_take_def)
next
  case (spin i t k)
  have i: "i < n" using tk_invD(5) [OF inv, of i] spin(2) by (cases "n \<le> i") auto
  have k: "t = of_nat k" "tk_served s \<le> k" "k < tk_taken s" using tk_invD(4) [OF inv, of i] spin(2) by auto
  have "k = tk_served s" if "ticketlock_turn (tk_lock s) t"
  proof (rule of_nat_u32_eq)
    show "of_nat k = (of_nat (tk_served s) :: u32)"
      using that k(1) tk_invD(2) [OF inv] unfolding ticketlock_turn_def by metis
    show "k < tk_served s + 2 ^ 32" "tk_served s < k + 2 ^ 32"
      using k tk_outstanding [OF inv] n by linarith+
  qed
  then show ?thesis using fresh i k spin by (intro tk_inv_move [OF inv i _ _ spin(1)]) auto
next
  case (try_read i)
  then show ?thesis using fresh tk_invD(1) [OF inv] by (intro tk_inv_move [OF inv _ _ _ try_read(1)]) auto
next
  case (try_check i nx k)
  have i: "i < n" using tk_invD(5) [OF inv, of i] try_check(2) by (cases "n \<le> i") auto
  have k: "nx = of_nat k" "k \<le> tk_taken s" "tk_taken s < k + 2 ^ 32"
    using tk_invD(4,9) [OF inv, of i] try_check(2) by auto
  have "k \<le> tk_served s" if "nx = tk_cur_ticket (tk_lock s)"
  proof -
    have "of_nat k = (of_nat (tk_served s) :: u32)" using that k(1) tk_invD(2) [OF inv] by metis
    moreover have "k < tk_served s + 2 ^ 32" "tk_served s < k + 2 ^ 32"
      using k(2,3) tk_outstanding [OF inv] n tk_invD(3) [OF inv] by linarith+
    ultimately have "k = tk_served s" by (rule of_nat_u32_eq)
    then show ?thesis by simp
  qed
  then show ?thesis using fresh k try_check(2) by (intro tk_inv_move [OF inv i _ _ try_check(1)]) auto
next
  case (try_taken i nx k l)
  have i: "i < n" using tk_invD(5) [OF inv, of i] try_taken(2) by (cases "n \<le> i") auto
  have k: "nx = of_nat k" "k \<le> tk_served s" "tk_taken s < k + 2 ^ 32"
    using tk_invD(4,9) [OF inv, of i] try_taken(2) by auto
  have l: "tk_next_ticket (tk_lock s) = nx" "l = (tk_lock s)\<lparr>tk_next_ticket := tk_next_ticket (tk_lock s) + 1\<rparr>"
    using try_taken(3) by (auto simp: ticketlock_try_def cmp_xchg_strong_def split: if_splits)
  have "tk_taken s = k"
  proof (rule of_nat_u32_eq)
    show "of_nat (tk_taken s) = (of_nat k :: u32)" using l(1) k(1) tk_invD(1) [OF inv] by metis
    show "tk_taken s < k + 2 ^ 32" "k < tk_taken s + 2 ^ 32" using k(2,3) tk_invD(3) [OF inv] by linarith+
  qed
  then have "tk_served s = tk_taken s" using k(2) tk_invD(3) [OF inv] by simp
  then show ?thesis using fresh try_taken(1,2) l(2)
    by (intro tk_inv_ticket [OF inv i, of "Tk_in (tk_taken s)"]) auto
next
  case (try_busy i nx k l)
  have i: "i < n" using tk_invD(5) [OF inv, of i] try_busy(2) by (cases "n \<le> i") auto
  have "l = tk_lock s" using try_busy(3) by (auto simp: ticketlock_try_def cmp_xchg_strong_def split: if_splits)
  then have "s' = s\<lparr>tk_pc := (tk_pc s)(i := Tk_idle)\<rparr>" using try_busy(1) by simp
  from tk_inv_move [OF inv i _ _ this] fresh try_busy(2) show ?thesis by simp
next
  case (unlock i k)
  then show ?thesis using tk_inv_unlock [OF inv unlock(2) unlock(1)] fresh by simp
qed


interpretation tk: invariant_system "\<lambda>s. s = tk_start" "\<lambda>s s'. n < 2 ^ 32 \<and> tk_step n s s' \<and> tk_fresh s'" "tk_inv n" for n
  by unfold_locales (auto intro: tk_start_inv tk_step_inv)

text \<open>C5. The ticket lock gives mutual exclusion to any number of threads below \<open>2 ^ 32\<close> that
  lock, try to lock and unlock it in any interleaving, although its counters wrap: two
  threads are never both inside, and threads enter in the order of their tickets. This needs
  that fewer than \<open>2 ^ 32\<close> tickets are taken while one \<open>odp_ticketlock_trylock\<close> runs. The
  lock is never stuck: when a thread waits, a thread is inside or the next one in turn
  enters with its next step.\<close>

theorem ticketlock_mutual_exclusion:
  assumes "n < 2 ^ 32" and "rtranclp (\<lambda>s s'. tk_step n s s' \<and> tk_fresh s') tk_start s"
  shows "(\<forall>i j k k'. tk_pc s i = Tk_in k \<longrightarrow> tk_pc s j = Tk_in k' \<longrightarrow> i = j) \<and>
    (\<forall>i j k t k'. tk_pc s i = Tk_in k \<longrightarrow> tk_pc s j = Tk_spin t k' \<longrightarrow> k < k') \<and>
    ((\<exists>i t k. tk_pc s i = Tk_spin t k) \<longrightarrow>
      (\<exists>j k. tk_pc s j = Tk_in k \<or> (\<exists>t. tk_pc s j = Tk_spin t k \<and> ticketlock_turn (tk_lock s) t)))"
proof -
  have "rtranclp (\<lambda>s s'. n < 2 ^ 32 \<and> tk_step n s s' \<and> tk_fresh s') tk_start s" using assms by simp
  then have inv: "tk_inv n s" by (rule tk.reachable_inv) simp
  note I = tk_invD [OF inv]
  have ex: "i = j" if "tk_pc s i = Tk_in k" "tk_pc s j = Tk_in k'" for i j k k'
    using I(4) [of i] I(4) [of j] I(6) [of i k j] that by simp
  have fifo: "k < k'" if "tk_pc s i = Tk_in k" "tk_pc s j = Tk_spin t k'" for i j k t k'
    using I(4) [of i] I(4) [of j] I(6) [of i k j] that by (cases "k = k'") auto
  have "\<exists>j k. tk_pc s j = Tk_in k \<or> (\<exists>t. tk_pc s j = Tk_spin t k \<and> ticketlock_turn (tk_lock s) t)"
    if w: "tk_pc s i = Tk_spin t k" for i t k
  proof -
    have "tk_served s < tk_taken s" using I(4) [of i] w by simp
    then obtain j where j: "tk_ticket (tk_pc s j) = Some (tk_served s)" using I(7) [of "tk_served s"] by auto
    then show ?thesis using I(2) I(4) [of j] by (cases "tk_pc s j") (auto simp: ticketlock_turn_def)
  qed
  with ex fifo show ?thesis by blast
qed

definition tk_example :: tk_sys where
  "tk_example = \<lparr>tk_lock = \<lparr>tk_next_ticket = 2, tk_cur_ticket = 0\<rparr>,
     tk_pc = (\<lambda>_. Tk_idle)(0 := Tk_in 0, 1 := Tk_spin 1 1), tk_taken = 2, tk_served = 0\<rparr>"

lemma tk_example_reach: "rtranclp (\<lambda>s s'. tk_step 2 s s' \<and> tk_fresh s') tk_start tk_example"
proof -
  let ?s1 = "\<lparr>tk_lock = \<lparr>tk_next_ticket = 1, tk_cur_ticket = 0\<rparr>,
     tk_pc = (\<lambda>_. Tk_idle)(0 := Tk_spin 0 0), tk_taken = 1, tk_served = 0\<rparr>"
  let ?s2 = "?s1\<lparr>tk_pc := (\<lambda>_. Tk_idle)(0 := Tk_in 0)\<rparr>"
  have 1: "tk_step 2 tk_start ?s1"
    using tk_step.take [of 0 2 tk_start 0 "\<lparr>tk_next_ticket = 1, tk_cur_ticket = 0\<rparr>"]
    by (simp add: tk_start_def odp_ticketlock_init_def ticketlock_take_def)
  have 2: "tk_step 2 ?s1 ?s2"
    using tk_step.spin [of ?s1 0 0 0 2] by (simp add: ticketlock_turn_def)
  have 3: "tk_step 2 ?s2 tk_example"
    using tk_step.take [of 1 2 ?s2 1 "\<lparr>tk_next_ticket = 2, tk_cur_ticket = 0\<rparr>"]
    by (simp add: tk_example_def ticketlock_take_def numeral_2_eq_2)
  have "tk_fresh ?s1" "tk_fresh ?s2" "tk_fresh tk_example" by (simp_all add: tk_fresh_def tk_example_def)
  with 1 2 3 show ?thesis by (intro three_steps [of "\<lambda>s s'. tk_step 2 s s' \<and> tk_fresh s'" tk_start ?s1 ?s2]) simp_all
qed

theorem ticketlock_mutual_exclusion_witness:
  "tk_pc tk_example 1 = Tk_spin 1 1 \<and> {j. tk_pc tk_example j = Tk_in 0} = {0}"
proof -
  have "tk_pc tk_example 0 = Tk_in 0" "tk_pc tk_example 1 = Tk_spin 1 1" by (simp_all add: tk_example_def)
  moreover from this have "j = 0" if "tk_pc tk_example j = Tk_in 0" for j
    using ticketlock_mutual_exclusion [OF _ tk_example_reach] that by simp
  ultimately show ?thesis by blast
qed


section \<open>Proofs: reader-writer lock\<close>

fun pc_reads :: "rw_pc \<Rightarrow> bool" where
  "pc_reads Rw_read \<longleftrightarrow> True"
| "pc_reads (Rw_runlock c) \<longleftrightarrow> True"
| "pc_reads _ \<longleftrightarrow> False"

definition rw_readers :: "(nat \<Rightarrow> rw_pc) \<Rightarrow> nat set" where "rw_readers pc = {i. pc_reads (pc i)}"
definition rw_writers :: "(nat \<Rightarrow> rw_pc) \<Rightarrow> nat set" where "rw_writers pc = {i. pc i = Rw_write}"

text \<open>The word encodes the writer, or the number of readers, negated and shifted while a
  writer waits.\<close>

definition rw_code :: "nat \<Rightarrow> bool \<Rightarrow> u32" where
  "rw_code r wait = (if wait then - of_nat r - 2 else of_nat r)"

definition rw_inv :: "nat \<Rightarrow> rw_sys \<Rightarrow> bool" where
  "rw_inv n s \<longleftrightarrow> (\<forall>i. n \<le> i \<longrightarrow> rw_pc s i = Rw_idle) \<and>
     (rw_cnt s = - 1 \<and> rw_readers (rw_pc s) = {} \<and> card (rw_writers (rw_pc s)) = 1 \<or>
      (\<exists>wait. rw_cnt s = rw_code (card (rw_readers (rw_pc s))) wait) \<and> rw_writers (rw_pc s) = {})"

lemma sint_rw_code:
  assumes "r \<le> 2 ^ 31 - 2"
  shows "sint (rw_code r wait) = (if wait then - int r - 2 else int r)"
proof (cases wait)
  case True
  have "rw_code r wait = of_nat (2 ^ 32 - (r + 2))"
    using assms True by (simp add: rw_code_def of_nat_diff)
  moreover have "unat (of_nat (2 ^ 32 - (r + 2)) :: u32) = 2 ^ 32 - (r + 2)" by (rule unat_of_nat_small) simp
  ultimately have u: "unat (rw_code r wait) = 2 ^ 32 - (r + 2)" by simp
  have "\<not> 2 ^ 32 - (r + 2) < 2 ^ 31" using assms by simp
  moreover have "int (2 ^ 32 - (r + 2)) - 2 ^ 32 = - int r - 2" using assms by (simp add: of_nat_diff)
  ultimately show ?thesis unfolding sint_u32 u using True by simp
next
  case False
  have "unat (of_nat r :: u32) = r" using assms by (intro unat_of_nat_small) simp
  moreover have "r < 2 ^ 31" using assms by simp
  ultimately show ?thesis using False by (simp only: sint_u32 rw_code_def if_False if_True)
qed

lemma rw_code_inj:
  assumes "rw_code r w = rw_code r' w'" "r \<le> 2 ^ 31 - 2" "r' \<le> 2 ^ 31 - 2"
  shows "r = r' \<and> w = w'"
proof -
  have "(if w then - int r - 2 else int r) = (if w' then - int r' - 2 else int r')"
    using sint_rw_code [OF assms(2), of w] sint_rw_code [OF assms(3), of w'] unfolding assms(1) by (rule trans [OF sym])
  then show ?thesis by (cases w; cases w') simp_all
qed

lemma rw_code_simps:
  "0 = rw_code 0 False" "- 2 = rw_code 0 True" "rw_code r False + 1 = rw_code (Suc r) False"
  "rw_code (Suc r) False - 1 = rw_code r False" "rw_code (Suc r) True + 1 = rw_code r True"
  "- rw_code r False - 2 = rw_code r True"
  by (simp_all add: rw_code_def)

lemma rw_code_writer: "r \<le> 2 ^ 31 - 2 \<Longrightarrow> rw_code r w \<noteq> - 1"
  using sint_rw_code [of r w] by (auto split: if_splits)

lemma rw_sets_upd:
  assumes "pc' = pc(i := p)"
  shows "rw_readers pc' = (if pc_reads p then insert i (rw_readers pc) else rw_readers pc - {i})"
    "rw_writers pc' = (if p = Rw_write then insert i (rw_writers pc) else rw_writers pc - {i})"
  using assms by (auto simp: rw_readers_def rw_writers_def)

lemma rw_readers_card:
  assumes "rw_inv n s"
  shows "finite (rw_readers (rw_pc s))" "card (rw_readers (rw_pc s)) \<le> n"
    "i < n \<Longrightarrow> i \<notin> rw_readers (rw_pc s) \<Longrightarrow> card (rw_readers (rw_pc s)) < n"
proof -
  have sub: "rw_readers (rw_pc s) \<subseteq> {..<n}"
    using assms by (force simp: rw_inv_def rw_readers_def not_le [symmetric])
  then show "finite (rw_readers (rw_pc s))" by (rule finite_subset) simp
  show "card (rw_readers (rw_pc s)) \<le> n" using card_mono [OF _ sub] by simp
  assume "i < n" "i \<notin> rw_readers (rw_pc s)"
  then have "rw_readers (rw_pc s) \<subset> {..<n}" using sub by blast
  then show "card (rw_readers (rw_pc s)) < n" using psubset_card_mono [of "{..<n}"] by simp
qed

lemma rw_invE:
  assumes "rw_inv n s" "n \<le> 2 ^ 31 - 2"
  obtains (writer) j where "rw_cnt s = - 1" "rw_readers (rw_pc s) = {}" "rw_writers (rw_pc s) = {j}"
  | (readers) r w where "rw_cnt s = rw_code r w" "card (rw_readers (rw_pc s)) = r" "r \<le> 2 ^ 31 - 2" "rw_cnt s \<noteq> - 1"
      "rw_writers (rw_pc s) = {}"
proof -
  consider "rw_cnt s = - 1 \<and> rw_readers (rw_pc s) = {} \<and> card (rw_writers (rw_pc s)) = 1"
    | w where "rw_cnt s = rw_code (card (rw_readers (rw_pc s))) w" "rw_writers (rw_pc s) = {}"
    using assms(1) unfolding rw_inv_def by blast
  then show thesis
  proof cases
    case 1
    then obtain j where "rw_writers (rw_pc s) = {j}" by (auto simp: card_1_singleton_iff)
    with 1 show thesis using writer by blast
  next
    case 2
    have r: "card (rw_readers (rw_pc s)) \<le> 2 ^ 31 - 2" using rw_readers_card(2) [OF assms(1)] assms(2) by linarith
    show thesis by (rule readers [OF 2(1) refl r _ 2(2)]) (simp only: 2(1) rw_code_writer [OF r] not_False_eq_True)
  qed
qed

lemma rw_invI_readers:
  assumes "\<And>i. n \<le> i \<Longrightarrow> rw_pc s i = Rw_idle" "rw_cnt s = rw_code (card (rw_readers (rw_pc s))) w" "rw_writers (rw_pc s) = {}"
  shows "rw_inv n s"
  using assms unfolding rw_inv_def by blast

lemma rw_inv_same:
  assumes "rw_inv n s" "i < n" "pc_reads p = pc_reads (rw_pc s i)" "(p = Rw_write) = (rw_pc s i = Rw_write)"
  shows "rw_inv n (s\<lparr>rw_pc := (rw_pc s)(i := p)\<rparr>)" "rw_inv n \<lparr>rw_cnt = rw_cnt s, rw_pc = (rw_pc s)(i := p)\<rparr>"
proof -
  have "rw_readers ((rw_pc s)(i := p)) = rw_readers (rw_pc s)" "rw_writers ((rw_pc s)(i := p)) = rw_writers (rw_pc s)"
    using assms(3,4) by (auto simp: rw_readers_def rw_writers_def)
  moreover have "n \<le> j \<Longrightarrow> ((rw_pc s)(i := p)) j = Rw_idle" for j using assms(1,2) by (auto simp: rw_inv_def)
  ultimately show "rw_inv n (s\<lparr>rw_pc := (rw_pc s)(i := p)\<rparr>)" "rw_inv n \<lparr>rw_cnt = rw_cnt s, rw_pc = (rw_pc s)(i := p)\<rparr>"
    using assms(1) unfolding rw_inv_def by simp_all
qed

lemma rw_inv_lt: "rw_inv n s \<Longrightarrow> rw_pc s i \<noteq> Rw_idle \<Longrightarrow> i < n"
  by (auto simp: rw_inv_def not_le [symmetric])

lemma rw_inv_idle: "rw_inv n s \<Longrightarrow> i < n \<Longrightarrow> n \<le> j \<Longrightarrow> ((rw_pc s)(i := p)) j = Rw_idle"
  by (auto simp: rw_inv_def)


lemma rw_inv_read_iter:
  assumes inv: "rw_inv n s" and n: "n \<le> 2 ^ 31 - 2" and i: "rw_pc s i = Rw_rlock c"
    and it: "rwlock_read_iter (rw_cnt s) c = (ok, c', atom)"
  shows "rw_inv n \<lparr>rw_cnt = atom, rw_pc = (rw_pc s)(i := if ok then Rw_read else Rw_rlock c')\<rparr>"
proof (cases ok)
  case False
  have lt: "i < n" using rw_inv_lt [OF inv] i by simp
  have "atom = rw_cnt s" using it False by (auto simp: rwlock_read_iter_def cmp_xchg_strong_def split: if_splits)
  with rw_inv_same(2) [OF inv lt, of "Rw_rlock c'"] i False show ?thesis by simp
next
  case True
  have lt: "i < n" using rw_inv_lt [OF inv] i by simp
  have c: "\<not> sint c < 0" "rw_cnt s = c" "atom = c + 1"
    using it True by (auto simp: rwlock_read_iter_def cmp_xchg_strong_def split: if_splits)
  have ni: "i \<notin> rw_readers (rw_pc s)" using i by (simp add: rw_readers_def)
  from inv n show ?thesis
  proof (cases rule: rw_invE)
    case (writer j)
    then show ?thesis using c(1,2) by simp
  next
    case (readers r w)
    then have "\<not> w" using c(1,2) sint_rw_code [OF readers(3), of w] by (cases w) simp_all
    then have "atom = rw_code (Suc r) False" using readers(1) c(2,3) by (simp add: rw_code_simps(3))
    moreover have "card (insert i (rw_readers (rw_pc s))) = Suc r"
      using rw_readers_card(1) [OF inv] ni readers(2) by simp
    ultimately show ?thesis
      using True readers(5) rw_inv_idle [OF inv lt] rw_sets_upd [OF refl, of "rw_pc s" i Rw_read]
      by (intro rw_invI_readers [where w = False]) simp_all
  qed
qed

lemma rw_inv_unlock_iter:
  assumes inv: "rw_inv n s" and n: "n \<le> 2 ^ 31 - 2" and i: "rw_pc s i = Rw_runlock c"
    and it: "rwlock_read_unlock_iter (rw_cnt s) c = (ok, c', atom)"
  shows "rw_inv n \<lparr>rw_cnt = atom, rw_pc = (rw_pc s)(i := if ok then Rw_idle else Rw_runlock c')\<rparr>"
proof (cases ok)
  case False
  have lt: "i < n" using rw_inv_lt [OF inv] i by simp
  have "atom = rw_cnt s" using it False by (auto simp: rwlock_read_unlock_iter_def cmp_xchg_strong_def split: if_splits)
  with rw_inv_same(2) [OF inv lt, of "Rw_runlock c'"] i False show ?thesis by simp
next
  case True
  have lt: "i < n" using rw_inv_lt [OF inv] i by simp
  have c: "rw_cnt s = c" "atom = c + (if sint c < 0 then 1 else - 1)"
    using it True by (auto simp: rwlock_read_unlock_iter_def cmp_xchg_strong_def split: if_splits)
  have ni: "i \<in> rw_readers (rw_pc s)" using i by (simp add: rw_readers_def)
  from inv n show ?thesis
  proof (cases rule: rw_invE)
    case (writer j)
    then show ?thesis using ni by simp
  next
    case (readers r w)
    obtain q where r: "r = Suc q" using readers(2) ni rw_readers_card(1) [OF inv] by (cases r) auto
    have "sint c < 0 \<longleftrightarrow> w" using c(1) readers(1) sint_rw_code [OF readers(3), of w] by (cases w) simp_all
    then have "atom = rw_code q w"
      using c readers(1) r rw_code_simps(4,5) [of q] by (cases w) simp_all
    moreover have "card (rw_readers (rw_pc s) - {i}) = q"
      using rw_readers_card(1) [OF inv] ni readers(2) r by (simp add: card_Diff_singleton)
    ultimately show ?thesis
      using True readers(5) rw_inv_idle [OF inv lt] rw_sets_upd [OF refl, of "rw_pc s" i Rw_idle]
      by (intro rw_invI_readers [where w = w]) simp_all
  qed
qed

lemma rw_inv_write_iter:
  assumes inv: "rw_inv n s" and n: "n \<le> 2 ^ 31 - 2" and i: "rw_pc s i = Rw_wlock c"
    and it: "rwlock_write_iter (rw_cnt s) c = (ok, c', atom)"
  shows "rw_inv n \<lparr>rw_cnt = atom, rw_pc = (rw_pc s)(i := if ok then Rw_write else Rw_wlock c')\<rparr>"
proof -
  have lt: "i < n" using rw_inv_lt [OF inv] i by simp
  have sets: "rw_readers ((rw_pc s)(i := Rw_wlock d)) = rw_readers (rw_pc s)"
    "rw_writers ((rw_pc s)(i := Rw_wlock d)) = rw_writers (rw_pc s)" for d
    using i by (auto simp: rw_readers_def rw_writers_def)
  consider (same) "\<not> ok" "atom = rw_cnt s" | (wait) "\<not> ok" "sint c > 0" "rw_cnt s = c" "atom = - c - 2"
    | (taken) "ok" "c = 0 \<or> c = - 2" "rw_cnt s = c" "atom = - 1"
    using it by (auto simp: rwlock_write_iter_def cmp_xchg_strong_def split: if_splits)
  then show ?thesis
  proof cases
    case same
    with rw_inv_same(2) [OF inv lt, of "Rw_wlock c'"] i show ?thesis by simp
  next
    case wait
    from inv n show ?thesis
    proof (cases rule: rw_invE)
      case (writer j)
      then show ?thesis using wait(2,3) by simp
    next
      case (readers r w)
      then have "\<not> w" using wait(2,3) sint_rw_code [OF readers(3), of w] by (cases w) simp_all
      then have "atom = rw_code r True" using wait(3,4) readers(1) rw_code_simps(6) [of r] by simp
      then show ?thesis using wait(1) readers(2,5) rw_inv_idle [OF inv lt] sets
        by (intro rw_invI_readers [where w = True]) simp_all
    qed
  next
    case taken
    from inv n show ?thesis
    proof (cases rule: rw_invE)
      case (writer j)
      then show ?thesis using taken(2,3) by simp
    next
      case (readers r w)
      have "c = rw_code 0 False \<or> c = rw_code 0 True" using taken(2) rw_code_simps(1,2) by simp
      then have "r = 0" using rw_code_inj [of r w 0] readers(1,3) taken(3) by auto
      then have "rw_readers (rw_pc s) = {}" using readers(2) rw_readers_card(1) [OF inv] by simp
      then show ?thesis
        using taken(1,4) readers(5) rw_inv_idle [OF inv lt] rw_sets_upd [OF refl, of "rw_pc s" i Rw_write]
        by (simp add: rw_inv_def)
    qed
  qed
qed

lemma rw_step_inv:
  assumes inv: "rw_inv n s" and step: "rw_step n s s'" and n: "n \<le> 2 ^ 31 - 2"
  shows "rw_inv n s'"
  using step
proof cases
  case (read_unlock i)
  with rw_inv_same(1) [OF inv rw_inv_lt [OF inv, of i]] show ?thesis by simp
next
  case (write_unlock i)
  have lt: "i < n" using rw_inv_lt [OF inv] write_unlock(2) by simp
  have "i \<in> rw_writers (rw_pc s)" using write_unlock(2) by (simp add: rw_writers_def)
  with inv n have "rw_readers (rw_pc s) = {}" "rw_writers (rw_pc s) = {i}" by (cases rule: rw_invE; auto)+
  then show ?thesis
    using rw_inv_idle [OF inv lt] rw_sets_upd [OF refl, of "rw_pc s" i Rw_idle] unfolding write_unlock(1)
    by (intro rw_invI_readers [where w = False]) (simp_all add: rw_code_def)
qed (use assms rw_inv_same(1) rw_inv_read_iter rw_inv_unlock_iter rw_inv_write_iter in simp_all)

interpretation rw: invariant_system "\<lambda>s. s = rw_start" "\<lambda>s s'. n \<le> 2 ^ 31 - 2 \<and> rw_step n s s'" "rw_inv n" for n
proof unfold_locales
  show "s = rw_start \<Longrightarrow> rw_inv n s" for s
    by (simp add: rw_inv_def rw_start_def rw_readers_def rw_writers_def) (metis rw_code_simps(1) card.empty)
qed (use rw_step_inv in blast)

text \<open>C17. The reader-writer lock, used by at most \<open>2 ^ 31 - 2\<close> threads in any interleaving,
  never lets a writer in together with a reader or another writer. A thread that is
  releasing a read lock counts as a reader until its update has succeeded.\<close>

theorem rwlock_exclusion:
  assumes "n \<le> 2 ^ 31 - 2" and "rtranclp (rw_step n) rw_start s" and "rw_pc s i = Rw_write"
  shows "\<not> pc_reads (rw_pc s j) \<and> (rw_pc s j = Rw_write \<longrightarrow> j = i)"
proof -
  have "rtranclp (\<lambda>s s'. n \<le> 2 ^ 31 - 2 \<and> rw_step n s s') rw_start s" using assms(1,2) by simp
  then have inv: "rw_inv n s" by (rule rw.reachable_inv) simp
  have i: "i \<in> rw_writers (rw_pc s)" using assms(3) by (simp add: rw_writers_def)
  from inv assms(1) have "rw_readers (rw_pc s) = {} \<and> rw_writers (rw_pc s) = {i}"
    by (cases rule: rw_invE) (use i in auto)
  then show ?thesis by (auto simp: rw_readers_def rw_writers_def)
qed

definition rw_example :: rw_sys where
  "rw_example = \<lparr>rw_cnt = - 1, rw_pc = (\<lambda>_. Rw_idle)(0 := Rw_write)\<rparr>"

lemma rw_example_reach: "rtranclp (rw_step 2) rw_start rw_example"
proof -
  let ?s1 = "\<lparr>rw_cnt = 0, rw_pc = (\<lambda>_. Rw_idle)(0 := Rw_wlock 1)\<rparr>"
  let ?s2 = "\<lparr>rw_cnt = 0, rw_pc = (\<lambda>_. Rw_idle)(0 := Rw_wlock 0)\<rparr>"
  have 1: "rw_step 2 rw_start ?s1"
    using rw_step.write_lock [of 0 2 rw_start] by (simp add: rw_start_def)
  have 2: "rw_step 2 ?s1 ?s2"
    using rw_step.write_iter [of ?s1 0 1 False 0 0 2] by (simp add: rwlock_write_iter_def cmp_xchg_strong_def)
  have 3: "rw_step 2 ?s2 rw_example"
    using rw_step.write_iter [of ?s2 0 0 True 0 "- 1" 2]
    by (simp add: rwlock_write_iter_def cmp_xchg_strong_def rw_example_def)
  show ?thesis by (rule three_steps [of "rw_step 2", OF 1 2 3])
qed

theorem rwlock_exclusion_witness: "rw_pc rw_example 0 = Rw_write \<and> (\<forall>j. \<not> pc_reads (rw_pc rw_example j))"
proof -
  have "rw_pc rw_example 0 = Rw_write" by (simp add: rw_example_def)
  with rwlock_exclusion [OF _ rw_example_reach this] show ?thesis by simp
qed


section \<open>Proofs: barrier\<close>

text \<open>In round \<open>r\<close> a thread has entered the round and waits, is outside, or has not yet left the
  previous round.\<close>

definition ba_thread :: "nat \<Rightarrow> ba_pc \<Rightarrow> nat \<Rightarrow> nat \<Rightarrow> bool" where
  "ba_thread r p e l \<longleftrightarrow> (e = Suc r \<and> l = r \<and> p = Ba_wait (even r)) \<or> (e = r \<and> l = r \<and> p = Ba_out) \<or>
     (0 < r \<and> e = r \<and> l = r - 1 \<and> p = Ba_wait (odd r))"

definition ba_cur :: "nat \<Rightarrow> nat \<Rightarrow> ba_sys \<Rightarrow> nat set" where
  "ba_cur n r s = {t. t < n \<and> ba_entered s t = Suc r}"

definition ba_running :: "nat \<Rightarrow> nat \<Rightarrow> ba_sys \<Rightarrow> bool" where
  "ba_running n r s \<longleftrightarrow> (\<forall>t < n. ba_thread r (ba_pc s t) (ba_entered s t) (ba_left s t)) \<and> card (ba_cur n r s) < n \<and>
     ba_bar (ba_barrier s) = of_nat ((if odd r then n else 0) + card (ba_cur n r s))"

text \<open>The last thread of an odd round has not yet reset the counter.\<close>

definition ba_wrapping :: "nat \<Rightarrow> nat \<Rightarrow> nat \<Rightarrow> ba_sys \<Rightarrow> bool" where
  "ba_wrapping n r w s \<longleftrightarrow> w < n \<and> even r \<and> 0 < r \<and> ba_pc s w = Ba_wrap \<and>
     (\<forall>t < n. ba_entered s t = r \<and> ba_left s t = r - 1 \<and> (t \<noteq> w \<longrightarrow> ba_pc s t = Ba_wait False)) \<and>
     ba_bar (ba_barrier s) = of_nat (2 * n)"

definition ba_inv :: "nat \<Rightarrow> ba_sys \<Rightarrow> bool" where
  "ba_inv n s \<longleftrightarrow> ba_count (ba_barrier s) = of_nat n \<and> (\<forall>t. n \<le> t \<longrightarrow> ba_pc s t = Ba_out) \<and>
     (\<exists>r. ba_running n r s \<or> (\<exists>w. ba_wrapping n r w s))"

lemma of_nat_u32_less:
  assumes "a < 2 ^ 32" "b < 2 ^ 32"
  shows "(of_nat a :: u32) < of_nat b \<longleftrightarrow> a < b"
  unfolding u32_less using assms by (simp only: unat_of_nat_small)

lemma ba_cur_sub: "finite (ba_cur n r s)" "ba_cur n r s \<subseteq> {..<n}"
  by (auto simp: ba_cur_def)

lemma ba_start_inv: "0 < n \<Longrightarrow> ba_inv n (ba_start n)"
  by (auto simp: ba_inv_def ba_start_def odp_barrier_init_def ba_running_def ba_thread_def ba_cur_def intro!: exI [of _ 0])

text \<open>The comparison the waiting threads make.\<close>

lemma ba_running_less:
  assumes "ba_running n r s" "ba_count (ba_barrier s) = of_nat n" "2 * n < 2 ^ 32"
  shows "ba_bar (ba_barrier s) < ba_count (ba_barrier s) \<longleftrightarrow> even r"
proof -
  define A where "A = card (ba_cur n r s)"
  have A: "A < n" "ba_bar (ba_barrier s) = of_nat ((if odd r then n else 0) + A)"
    using assms(1) by (simp_all add: ba_running_def A_def)
  have "(of_nat ((if odd r then n else 0) + A) :: u32) < of_nat n \<longleftrightarrow> (if odd r then n else 0) + A < n"
    using A(1) assms(3) by (intro of_nat_u32_less) (cases "odd r"; simp; linarith)+
  then show ?thesis unfolding A(2) assms(2) using A(1) by (cases "odd r") simp_all
qed


lemma barrier_arrive_running:
  assumes run: "ba_running n r s" and c: "ba_count (ba_barrier s) = of_nat n" and n: "2 * n < 2 ^ 32"
  shows "barrier_arrive (ba_barrier s) =
    (if odd r \<and> Suc (card (ba_cur n r s)) = n then Ba_wrap else Ba_wait (even r),
     (ba_barrier s)\<lparr>ba_bar := of_nat ((if odd r then n else 0) + Suc (card (ba_cur n r s)))\<rparr>)"
proof -
  define A where "A = card (ba_cur n r s)"
  define X where "X = (if odd r then n else 0) + A"
  have A: "A < n" and bar: "ba_bar (ba_barrier s) = of_nat X" using run by (simp_all add: ba_running_def A_def X_def)
  have X: "X < 2 ^ 32" "X = 2 * n - 1 \<longleftrightarrow> odd r \<and> Suc A = n" using A n by (auto simp: X_def)
  have e: "(2 * of_nat n - 1 :: u32) = of_nat (2 * n - 1)" using A by (simp add: of_nat_diff)
  have eq: "of_nat X = (2 * of_nat n - 1 :: u32) \<longleftrightarrow> X = 2 * n - 1"
  proof
    assume "of_nat X = (2 * of_nat n - 1 :: u32)"
    then have "of_nat X = (of_nat (2 * n - 1) :: u32)" unfolding e .
    then show "X = 2 * n - 1" by (rule of_nat_u32_eq) (use X(1) n in linarith)+
  qed (simp only: e)
  have nxt: "of_nat X + 1 = (of_nat ((if odd r then n else 0) + Suc A) :: u32)" by (simp add: X_def)
  have less: "(of_nat X :: u32) < of_nat n \<longleftrightarrow> even r" using ba_running_less [OF run c n] unfolding bar c .
  have "barrier_arrive (ba_barrier s) = (if X = 2 * n - 1 then Ba_wrap else Ba_wait (even r),
     (ba_barrier s)\<lparr>ba_bar := of_nat ((if odd r then n else 0) + Suc A)\<rparr>)"
    unfolding barrier_arrive_def Let_def bar c by (simp only: less eq nxt)
  then show ?thesis unfolding X(2) A_def .
qed

lemma ba_thread_out: "ba_thread r Ba_out e l \<Longrightarrow> e = r \<and> l = r"
  by (simp add: ba_thread_def)

lemma ba_full_round:
  assumes "ba_running n r s" "ba_cur n r s = {..<n} - {i}" "t < n" "t \<noteq> i"
  shows "ba_entered s t = Suc r \<and> ba_left s t = r \<and> ba_pc s t = Ba_wait (even r)"
proof -
  have "t \<in> ba_cur n r s" using assms(2-4) by simp
  then show ?thesis using assms(1,3) by (auto simp: ba_running_def ba_cur_def ba_thread_def)
qed

lemma ba_arrive_inv:
  assumes run: "ba_running n r s" and c: "ba_count (ba_barrier s) = of_nat n" and n: "2 * n < 2 ^ 32"
    and i: "i < n" "ba_pc s i = Ba_out" and b: "barrier_arrive (ba_barrier s) = (p, b)"
    and s': "s' = s\<lparr>ba_barrier := b, ba_pc := (ba_pc s)(i := p), ba_entered := (ba_entered s)(i := ba_entered s i + 1)\<rparr>"
  shows "ba_running n r s' \<or> ba_running n (Suc r) s' \<or> ba_wrapping n (Suc r) i s'"
proof -
  have ei: "ba_entered s i = r" "ba_left s i = r" using run i by (auto simp: ba_running_def dest!: ba_thread_out)
  have cur: "ba_cur n r s' = insert i (ba_cur n r s)" "i \<notin> ba_cur n r s"
    using i ei by (auto simp: ba_cur_def s')
  then have card: "card (ba_cur n r s') = Suc (card (ba_cur n r s))" using ba_cur_sub(1) by simp
  note arr = barrier_arrive_running [OF run c n, unfolded b]
  show ?thesis
  proof (cases "Suc (card (ba_cur n r s)) = n")
    case False
    then have "card (ba_cur n r s') < n" using run card by (simp add: ba_running_def)
    moreover have "ba_thread r (ba_pc s' t) (ba_entered s' t) (ba_left s' t)" if "t < n" for t
      using run that ei arr False by (auto simp: ba_running_def s' ba_thread_def)
    moreover have "ba_bar (ba_barrier s') = of_nat ((if odd r then n else 0) + card (ba_cur n r s'))"
      unfolding card using arr by (simp add: s')
    ultimately show ?thesis by (simp add: ba_running_def)
  next
    case True
    have full: "ba_cur n r s = {..<n} - {i}"
    proof (rule card_subset_eq)
      show "ba_cur n r s \<subseteq> {..<n} - {i}" using cur(2) ba_cur_sub(2) [of n r s] by auto
      show "card (ba_cur n r s) = card ({..<n} - {i})" using True i(1) by simp
    qed simp
    note others = ba_full_round [OF run full]
    show ?thesis
    proof (cases "odd r")
      case True
      then have p: "p = Ba_wrap" "ba_bar b = of_nat (2 * n)" using arr \<open>Suc _ = n\<close> by simp_all
      have "ba_entered s' t = Suc r \<and> ba_left s' t = Suc r - 1 \<and> (t \<noteq> i \<longrightarrow> ba_pc s' t = Ba_wait False)" if "t < n" for t
        using others [OF that] ei True by (cases "t = i") (simp_all add: s')
      then have "ba_wrapping n (Suc r) i s'" using i(1) True p unfolding ba_wrapping_def by (simp add: s')
      then show ?thesis by simp
    next
      case False
      have "ba_thread (Suc r) (ba_pc s' t) (ba_entered s' t) (ba_left s' t)" if "t < n" for t
        using others [OF that] ei arr False by (cases "t = i") (simp_all add: s' ba_thread_def)
      moreover have "ba_cur n (Suc r) s' = {}" using others ei by (auto simp: ba_cur_def s')
      moreover have "ba_bar (ba_barrier s') = of_nat n" using arr False \<open>Suc _ = n\<close> by (simp add: s')
      ultimately have "ba_running n (Suc r) s'" using i(1) False by (simp add: ba_running_def)
      then show ?thesis by simp
    qed
  qed
qed

lemma ba_running_step:
  assumes run: "ba_running n r s" and step: "ba_step n s s'" and n: "2 * n < 2 ^ 32"
    and c: "ba_count (ba_barrier s) = of_nat n" and idle: "\<And>t. n \<le> t \<Longrightarrow> ba_pc s t = Ba_out"
  shows "ba_count (ba_barrier s') = of_nat n \<and> (\<forall>t. n \<le> t \<longrightarrow> ba_pc s' t = Ba_out) \<and>
    (\<exists>r. ba_running n r s' \<or> (\<exists>w. ba_wrapping n r w s'))"
proof -
  note less = ba_running_less [OF run c n]
  from step show ?thesis
  proof cases
    case (arrive i p b)
    from ba_arrive_inv [OF run c n arrive(2,3,4,1)] have "\<exists>r. ba_running n r s' \<or> (\<exists>w. ba_wrapping n r w s')" by blast
    moreover have "ba_count b = of_nat n" using arrive(4) c by (auto simp: barrier_arrive_def Let_def)
    ultimately show ?thesis using arrive(1,2) idle by simp
  next
    case (wrap i)
    then have "i < n" using idle [of i] by (cases "n \<le> i") auto
    then have "ba_thread r Ba_wrap (ba_entered s i) (ba_left s i)" using run wrap(2) unfolding ba_running_def by metis
    then show ?thesis by (simp add: ba_thread_def)
  next
    case spin
    then show ?thesis using run c idle by blast
  next
    case (leave i w)
    have i: "i < n" using leave(2) idle [of i] by (cases "n \<le> i") auto
    have "w \<noteq> even r" using leave(3) less by (auto simp: barrier_spin_def)
    then have e: "0 < r" "ba_entered s i = r" "ba_left s i = r - 1"
      using run i leave(2) by (auto simp: ba_running_def ba_thread_def)
    have "ba_cur n r s' = ba_cur n r s" by (simp add: leave(1) ba_cur_def)
    moreover have "ba_thread r (ba_pc s' t) (ba_entered s' t) (ba_left s' t)" if "t < n" for t
      using run that e by (auto simp: ba_running_def leave(1) ba_thread_def)
    ultimately have "ba_running n r s'" using run by (simp add: ba_running_def leave(1))
    then show ?thesis using c idle i by (auto simp: leave(1))
  qed
qed

lemma ba_wrapping_step:
  assumes wr: "ba_wrapping n r w s" and step: "ba_step n s s'" and n: "2 * n < 2 ^ 32"
    and c: "ba_count (ba_barrier s) = of_nat n" and idle: "\<And>t. n \<le> t \<Longrightarrow> ba_pc s t = Ba_out"
  shows "ba_count (ba_barrier s') = of_nat n \<and> (\<forall>t. n \<le> t \<longrightarrow> ba_pc s' t = Ba_out) \<and>
    (\<exists>r. ba_running n r s' \<or> (\<exists>w. ba_wrapping n r w s'))"
proof -
  from wr have W: "w < n" "even r" "0 < r" "ba_pc s w = Ba_wrap" "ba_bar (ba_barrier s) = of_nat (2 * n)"
    "\<And>t. t < n \<Longrightarrow> ba_entered s t = r \<and> ba_left s t = r - 1 \<and> (t \<noteq> w \<longrightarrow> ba_pc s t = Ba_wait False)"
    by (simp_all add: ba_wrapping_def)
  have sp: "barrier_spin (ba_barrier s) False"
  proof -
    have "\<not> (of_nat (2 * n) :: u32) < of_nat n" using n by (subst of_nat_u32_less) simp_all
    then show ?thesis by (simp only: barrier_spin_def W(5) c)
  qed
  from step show ?thesis
  proof cases
    case (arrive i p b)
    then show ?thesis using W(4) W(6) [of i] by (cases "i = w") auto
  next
    case (wrap i)
    have i: "i = w" using wrap(2) W(6) [of i] idle [of i] by (cases "i < n") auto
    have "ba_cur n r s' = {}" using W(6) by (auto simp: wrap(1) ba_cur_def)
    moreover have "ba_thread r (ba_pc s' t) (ba_entered s' t) (ba_left s' t)" if "t < n" for t
      using W(2,3) W(6) [OF that] i by (auto simp: wrap(1) ba_thread_def)
    moreover have "ba_bar (ba_barrier s') = 0" by (simp add: wrap(1) barrier_wrap_def W(5) c)
    ultimately have "ba_running n r s'" using W(1,2) by (simp add: ba_running_def)
    then show ?thesis using c idle W(1) i by (auto simp: wrap(1) barrier_wrap_def)
  next
    case spin
    then show ?thesis using wr c idle by blast
  next
    case (leave i v)
    have "i < n" using leave(2) idle [of i] by (cases "n \<le> i") auto
    then have "v = False" using leave(2) W(4) W(6) [of i] by (cases "i = w") auto
    then show ?thesis using leave(3) sp by simp
  qed
qed

lemma ba_step_inv:
  assumes inv: "ba_inv n s" and step: "ba_step n s s'" and n: "2 * n < 2 ^ 32"
  shows "ba_inv n s'"
proof -
  have c: "ba_count (ba_barrier s) = of_nat n" and idle: "\<And>t. n \<le> t \<Longrightarrow> ba_pc s t = Ba_out"
    using inv by (auto simp: ba_inv_def)
  from inv obtain r where "ba_running n r s \<or> (\<exists>w. ba_wrapping n r w s)" by (auto simp: ba_inv_def)
  then show ?thesis unfolding ba_inv_def
    using ba_running_step [OF _ step n c idle] ba_wrapping_step [OF _ step n c idle] by blast
qed


interpretation ba: invariant_system "\<lambda>s. 0 < n \<and> s = ba_start n" "\<lambda>s s'. 2 * n < 2 ^ 32 \<and> ba_step n s s'" "ba_inv n" for n
  by unfold_locales (auto intro: ba_start_inv ba_step_inv)

text \<open>C18. The barrier synchronises its \<open>n\<close> threads in every round, in any interleaving: no
  thread has left the barrier more often than any other thread has entered it. It is
  never stuck: when all threads are inside, one of them leaves with its next step.\<close>

theorem barrier_synchronises:
  assumes "0 < n" and "2 * n < 2 ^ 32" and "rtranclp (ba_step n) (ba_start n) s"
  shows "(\<forall>t < n. \<forall>u < n. ba_left s t \<le> ba_entered s u) \<and>
    ((\<forall>t < n. ba_pc s t \<noteq> Ba_out) \<longrightarrow>
      (\<exists>t < n. ba_pc s t = Ba_wrap \<or> (\<exists>w. ba_pc s t = Ba_wait w \<and> \<not> barrier_spin (ba_barrier s) w)))"
proof -
  have "rtranclp (\<lambda>s s'. 2 * n < 2 ^ 32 \<and> ba_step n s s') (ba_start n) s" using assms(2,3) by simp
  then have inv: "ba_inv n s" by (rule ba.reachable_inv) (simp add: assms(1))
  then obtain r where c: "ba_count (ba_barrier s) = of_nat n" and "ba_running n r s \<or> (\<exists>w. ba_wrapping n r w s)"
    by (auto simp: ba_inv_def)
  then consider (run) "ba_running n r s" | (wr) w where "ba_wrapping n r w s" by blast
  then show ?thesis
  proof cases
    case run
    have th: "ba_thread r (ba_pc s t) (ba_entered s t) (ba_left s t)" if "t < n" for t
      using run that by (simp add: ba_running_def)
    have sync: "ba_left s t \<le> r \<and> r \<le> ba_entered s t" if "t < n" for t using th [OF that] by (auto simp: ba_thread_def)
    have "\<exists>t < n. \<exists>w. ba_pc s t = Ba_wait w \<and> \<not> barrier_spin (ba_barrier s) w" if out: "\<forall>t < n. ba_pc s t \<noteq> Ba_out"
    proof -
      have "card (ba_cur n r s) < card {..<n}" using run by (simp add: ba_running_def)
      then have "ba_cur n r s \<noteq> {..<n}" by (metis less_irrefl)
      then obtain t where t: "t < n" "ba_entered s t \<noteq> Suc r" by (auto simp: ba_cur_def)
      then have "ba_pc s t = Ba_wait (odd r)" using th [OF t(1)] out unfolding ba_thread_def by blast
      moreover have "\<not> barrier_spin (ba_barrier s) (odd r)"
        unfolding barrier_spin_def ba_running_less [OF run c assms(2)] by simp
      ultimately show ?thesis using t(1) by blast
    qed
    moreover have "ba_left s t \<le> ba_entered s u" if "t < n" "u < n" for t u
      using sync [OF that(1)] sync [OF that(2)] by linarith
    ultimately show ?thesis by blast
  next
    case wr
    then have "\<forall>t < n. ba_left s t = r - 1 \<and> ba_entered s t = r" "w < n" "ba_pc s w = Ba_wrap"
      by (simp_all add: ba_wrapping_def)
    then show ?thesis by (metis diff_le_self)
  qed
qed

definition ba_example :: ba_sys where
  "ba_example = \<lparr>ba_barrier = \<lparr>ba_count = 2, ba_bar = 2\<rparr>, ba_pc = (\<lambda>_. Ba_out)(0 := Ba_out, 1 := Ba_wait True),
     ba_entered = (\<lambda>_. 0)(0 := 1, 1 := 1), ba_left = (\<lambda>_. 0)(0 := 1)\<rparr>"

lemma ba_example_reach: "rtranclp (ba_step 2) (ba_start 2) ba_example"
proof -
  let ?s1 = "\<lparr>ba_barrier = \<lparr>ba_count = 2, ba_bar = 1\<rparr>, ba_pc = (\<lambda>_. Ba_out)(0 := Ba_wait True),
     ba_entered = (\<lambda>_. 0)(0 := 1), ba_left = (\<lambda>_. 0)\<rparr>"
  let ?s2 = "\<lparr>ba_barrier = \<lparr>ba_count = 2, ba_bar = 2\<rparr>, ba_pc = (\<lambda>_. Ba_out)(0 := Ba_wait True, 1 := Ba_wait True),
     ba_entered = (\<lambda>_. 0)(0 := 1, 1 := 1), ba_left = (\<lambda>_. 0)\<rparr>"
  have 1: "ba_step 2 (ba_start 2) ?s1"
    using ba_step.arrive [of 0 2 "ba_start 2" "Ba_wait True" "\<lparr>ba_count = 2, ba_bar = 1\<rparr>"]
    by (simp add: ba_start_def odp_barrier_init_def barrier_arrive_def)
  have 2: "ba_step 2 ?s1 ?s2"
    using ba_step.arrive [of 1 2 ?s1 "Ba_wait True" "\<lparr>ba_count = 2, ba_bar = 2\<rparr>"] by (simp add: barrier_arrive_def)
  have 3: "ba_step 2 ?s2 ba_example"
    using ba_step.leave [of ?s2 0 True 2] by (simp add: barrier_spin_def ba_example_def fun_upd_twist)
  show ?thesis by (rule three_steps [of "ba_step 2", OF 1 2 3])
qed

theorem barrier_synchronises_witness: "ba_left ba_example 0 = 1 \<and> ba_left ba_example 0 \<le> ba_entered ba_example 1"
proof -
  have "ba_left ba_example 0 \<le> ba_entered ba_example 1" using barrier_synchronises [OF _ _ ba_example_reach] by simp
  then show ?thesis by (simp add: ba_example_def)
qed

section \<open>Proofs: spin lock\<close>

definition spin_inv :: "spin_sys \<Rightarrow> bool" where
  "spin_inv s \<longleftrightarrow> (\<forall>i. sp_pc s i = Sp_in \<longrightarrow> sp_lock s = 0 \<and> (\<forall>j. sp_pc s j = Sp_in \<longrightarrow> i = j))"

lemma spin_invD: "spin_inv s \<Longrightarrow> sp_pc s i = Sp_in \<Longrightarrow> sp_lock s = 0 \<and> (sp_pc s j = Sp_in \<longrightarrow> i = j)"
  by (auto simp: spin_inv_def)

lemma spin_invI: "(\<And>i j. sp_pc s i = Sp_in \<Longrightarrow> sp_lock s = 0 \<and> (sp_pc s j = Sp_in \<longrightarrow> i = j)) \<Longrightarrow> spin_inv s"
  by (auto simp: spin_inv_def)

lemma spin_free: "spin_inv s \<Longrightarrow> sp_lock s \<noteq> 0 \<Longrightarrow> sp_pc s i \<noteq> Sp_in"
  by (auto simp: spin_inv_def)

lemma spin_inv_enter:
  assumes "spin_inv s" "sp_lock s \<noteq> 0"
  shows "spin_inv (s\<lparr>sp_lock := 0, sp_pc := (sp_pc s)(i := Sp_in)\<rparr>)"
  using spin_free [OF assms] by (simp add: spin_inv_def)

lemma spin_inv_stay:
  assumes "spin_inv s" "p \<noteq> Sp_in" "lk = 0 \<or> (\<forall>j. j \<noteq> i \<longrightarrow> sp_pc s j \<noteq> Sp_in)"
  shows "spin_inv (s\<lparr>sp_lock := lk, sp_pc := (sp_pc s)(i := p)\<rparr>)"
  using assms unfolding spin_inv_def by auto

lemma spin_step_inv:
  assumes inv: "spin_inv s" and "spin_step s s'"
  shows "spin_inv s'"
  using assms(2)
proof cases
  case (lock_call i)
  with inv show ?thesis by (simp add: spin_inv_def)
next
  case (lock_tas i busy lk)
  with spin_inv_enter [OF inv] spin_inv_stay [OF inv, of Sp_read 0 i] show ?thesis by (cases busy) (simp_all add: flag_tas_def)
next
  case (lock_read i)
  with inv show ?thesis by (simp add: spin_inv_def)
next
  case (trylock i ok lk)
  with spin_inv_enter [OF inv] spin_inv_stay [OF inv, of Sp_idle 0 i] show ?thesis
    by (cases ok) (simp_all add: flag_tas_def odp_spinlock_trylock_def)
next
  case (unlock i)
  have "j \<noteq> i \<Longrightarrow> sp_pc s j \<noteq> Sp_in" for j using spin_invD [OF inv unlock(2), of j] by auto
  with unlock spin_inv_stay [OF inv] show ?thesis by simp
qed

interpretation spl: invariant_system "\<lambda>s. s = \<lparr>sp_lock = odp_spinlock_init, sp_pc = (\<lambda>_. Sp_idle)\<rparr>" spin_step spin_inv
  by unfold_locales (rule spin_invI, simp, rule spin_step_inv)

lemma spinlock_exclusion:
  assumes "rtranclp spin_step \<lparr>sp_lock = odp_spinlock_init, sp_pc = (\<lambda>_. Sp_idle)\<rparr> s"
    and "sp_pc s i = Sp_in" and "sp_pc s j = Sp_in"
  shows "i = j" "odp_spinlock_is_locked (sp_lock s)"
  using spl.reachable_inv [OF assms(1)] assms(2,3) by (auto simp: spin_inv_def odp_spinlock_is_locked_def flag_load_def)

end
