(* ===== verification/Odp_Buffer_Ring.thy ===== *)
theory Odp_Buffer_Ring
  imports Odp_Prelude
begin

text \<open>
  The ring of free buffers (\<open>platform/mppa/odp_buffer_ring.c\<close> and
  \<open>include/odp_buffer_ring_internal.h\<close>). A ring of \<open>buf_num\<close> slots keeps at most
  \<open>buf_num - 1\<close> buffers; the four positions run from \<open>0\<close> to \<open>buf_num\<close> and position
  \<open>buf_num\<close> denotes slot \<open>0\<close>. Each operation is modelled as one call executed
  without interference: the compare-and-exchange then succeeds at once, and the
  wait for the tail to reach the head either ends at once or never, which is the
  result \<open>None\<close>. The theorems relate the ring to the list of its buffers.
\<close>

section \<open>State and operations\<close>

record 'a odp_buffer_ring_t =
  br_buf_ptrs :: "'a list"
  br_buf_num :: u32
  br_prod_head :: u32
  br_prod_tail :: u32
  br_cons_head :: u32
  br_cons_tail :: u32

definition POOL_MULTI_MAX :: u32 where
  "POOL_MULTI_MAX = 16"

definition odp_buffer_ring_init :: "'a list \<Rightarrow> u32 \<Rightarrow> 'a odp_buffer_ring_t" where
  "odp_buffer_ring_init addr buf_num =
     \<lparr>br_buf_ptrs = addr, br_buf_num = buf_num, br_prod_head = 0, br_prod_tail = 0,
      br_cons_head = 0, br_cons_tail = 0\<rparr>"

text \<open>The copying loops. The index is set back to \<open>0\<close> when it stands at \<open>buf_num\<close>.\<close>

definition ring_idx :: "u32 \<Rightarrow> u32 \<Rightarrow> u32" where
  "ring_idx buf_num idx = (if idx = buf_num then 0 else idx)"

fun ring_load :: "'a list \<Rightarrow> u32 \<Rightarrow> u32 \<Rightarrow> nat \<Rightarrow> 'a list" where
  "ring_load ptrs buf_num idx 0 = []"
| "ring_load ptrs buf_num idx (Suc n) =
     ptrs ! unat (ring_idx buf_num idx) # ring_load ptrs buf_num (ring_idx buf_num idx + 1) n"

fun ring_store :: "'a list \<Rightarrow> u32 \<Rightarrow> u32 \<Rightarrow> 'a list \<Rightarrow> 'a list" where
  "ring_store ptrs buf_num idx [] = ptrs"
| "ring_store ptrs buf_num idx (b # bs) =
     ring_store (ptrs[unat (ring_idx buf_num idx) := b]) buf_num (ring_idx buf_num idx + 1) bs"

text \<open>The loop of \<open>push_list\<close> also stops at the end of the linked list of headers.\<close>

fun ring_store_list ::
  "('a \<Rightarrow> 'a option) \<Rightarrow> 'a list \<Rightarrow> u32 \<Rightarrow> u32 \<Rightarrow> nat \<Rightarrow> 'a option \<Rightarrow> 'a list \<times> 'a option" where
  "ring_store_list nx ptrs buf_num idx 0 buf = (ptrs, buf)"
| "ring_store_list nx ptrs buf_num idx (Suc n) None = (ptrs, None)"
| "ring_store_list nx ptrs buf_num idx (Suc n) (Some b) =
     ring_store_list nx (ptrs[unat (ring_idx buf_num idx) := b]) buf_num
       (ring_idx buf_num idx + 1) n (nx b)"

text \<open>The position \<open>n\<close> slots further, and the count left between two positions.\<close>

definition ring_next :: "u32 \<Rightarrow> u32 \<Rightarrow> u32 \<Rightarrow> u32" where
  "ring_next buf_num pos n = (let nxt = pos + n in if nxt > buf_num then nxt - buf_num else nxt)"

definition ring_left :: "u32 \<Rightarrow> u32 \<Rightarrow> u32 \<Rightarrow> u32" where
  "ring_left buf_num prd cns =
     (let bufcount = prd - cns in if bufcount > buf_num then bufcount + buf_num else bufcount)"

text \<open>
  The result of \<open>get_multi\<close>: the buffers taken (the return value is their number),
  the value stored through \<open>left\<close>, if any is stored, and the ring.
\<close>

definition get_multi_claim :: "'a odp_buffer_ring_t \<Rightarrow> u32 \<Rightarrow> u32 \<Rightarrow> u32" where
  "get_multi_claim ring n_buffers divisor =
     (let mask = push_bit (unat divisor) (- 1);
          cons_head = br_cons_head ring;
          prod_tail = br_prod_tail ring;
          avail = (if prod_tail > cons_head then prod_tail - cons_head
                   else prod_tail + br_buf_num ring - cons_head);
          n_bufs = (if avail < n_buffers then avail else n_buffers)
      in n_bufs AND mask)"

definition odp_buffer_ring_get_multi ::
  "'a odp_buffer_ring_t \<Rightarrow> u32 \<Rightarrow> u32 \<Rightarrow> ('a list \<times> u32 option \<times> 'a odp_buffer_ring_t) option"
  where
  "odp_buffer_ring_get_multi ring n_buffers divisor =
     (let n_buffers = (if n_buffers > POOL_MULTI_MAX then POOL_MULTI_MAX else n_buffers);
          cons_head = br_cons_head ring;
          prod_tail = br_prod_tail ring
      in if cons_head = prod_tail then Some ([], None, ring)
         else let n_bufs = get_multi_claim ring n_buffers divisor;
                  cons_next = ring_next (br_buf_num ring) cons_head n_bufs;
                  buffers = ring_load (br_buf_ptrs ring) (br_buf_num ring) cons_head (unat n_bufs)
              in if br_cons_tail ring \<noteq> cons_head then None
                 else Some (buffers, Some (ring_left (br_buf_num ring) prod_tail cons_next),
                            ring\<lparr>br_cons_head := cons_next, br_cons_tail := cons_next\<rparr>))"

definition odp_buffer_ring_push_multi ::
  "'a odp_buffer_ring_t \<Rightarrow> 'a list \<Rightarrow> u32 \<Rightarrow> (u32 \<times> 'a odp_buffer_ring_t) option" where
  "odp_buffer_ring_push_multi ring buffers n_buffers =
     (let prod_head = br_prod_head ring;
          prod_next = ring_next (br_buf_num ring) prod_head n_buffers;
          cons_tail = br_cons_tail ring;
          ptrs = ring_store (br_buf_ptrs ring) (br_buf_num ring) prod_head
                   (take (unat n_buffers) buffers)
      in if br_prod_tail ring \<noteq> prod_head then None
         else Some (ring_left (br_buf_num ring) prod_next cons_tail,
                    ring\<lparr>br_buf_ptrs := ptrs, br_prod_head := prod_next,
                         br_prod_tail := prod_next\<rparr>))"

definition push_list_claim :: "'a odp_buffer_ring_t \<Rightarrow> u32 \<Rightarrow> u32" where
  "push_list_claim ring n_buffers =
     (let prod_head = br_prod_head ring; cons_tail = br_cons_tail ring; buf_num = br_buf_num ring
      in if prod_head = cons_tail \<and> n_buffers \<ge> buf_num then buf_num - 1
         else if prod_head < cons_tail \<and> prod_head + n_buffers \<ge> cons_tail
           then cons_tail - prod_head - 1
         else if prod_head > cons_tail \<and> prod_head + n_buffers \<ge> cons_tail + buf_num
           then cons_tail + buf_num - prod_head - 1
         else n_buffers)"

text \<open>
  The result of \<open>push_list\<close>: the number of buffers not pushed, the head of the
  list that remains, and the ring.
\<close>

definition odp_buffer_ring_push_list ::
  "('a \<Rightarrow> 'a option) \<Rightarrow> 'a odp_buffer_ring_t \<Rightarrow> 'a option \<Rightarrow> u32 \<Rightarrow>
   (u32 \<times> 'a option \<times> 'a odp_buffer_ring_t) option" where
  "odp_buffer_ring_push_list nx ring head total_bufs =
     (if total_bufs = 0 then Some (0, head, ring)
      else let n_buffers = push_list_claim ring total_bufs in
        if n_buffers = 0 then Some (total_bufs, head, ring)
        else let prod_head = br_prod_head ring;
                 prod_next = ring_next (br_buf_num ring) prod_head n_buffers;
                 (ptrs, buf) = ring_store_list nx (br_buf_ptrs ring) (br_buf_num ring) prod_head
                                 (unat n_buffers) head
             in if br_prod_tail ring \<noteq> prod_head then None
                else Some (total_bufs - n_buffers, buf,
                           ring\<lparr>br_buf_ptrs := ptrs, br_prod_head := prod_next,
                                br_prod_tail := prod_next\<rparr>))"

definition odp_buffer_ring_get_count :: "'a odp_buffer_ring_t \<Rightarrow> u32" where
  "odp_buffer_ring_get_count ring =
     (let bufcount = br_prod_tail ring - br_cons_tail ring
      in if bufcount > br_buf_num ring then bufcount + (br_buf_num ring + 1) else bufcount)"

section \<open>The ring as a list\<close>

definition ring_count :: "'a odp_buffer_ring_t \<Rightarrow> nat" where
  "ring_count r =
     (if unat (br_cons_tail r) \<le> unat (br_prod_tail r)
      then unat (br_prod_tail r) - unat (br_cons_tail r)
      else unat (br_prod_tail r) + unat (br_buf_num r) - unat (br_cons_tail r))"

definition ring_list :: "'a odp_buffer_ring_t \<Rightarrow> 'a list" where
  "ring_list r =
     map (\<lambda>i. br_buf_ptrs r ! ((unat (br_cons_tail r) + i) mod unat (br_buf_num r)))
         [0..<ring_count r]"

definition ring_room :: "'a odp_buffer_ring_t \<Rightarrow> nat" where
  "ring_room r = unat (br_buf_num r) - 1 - ring_count r"

text \<open>
  The invariant between two calls: no call is half done, the positions are in
  range, and one slot is free. The bound on \<open>buf_num\<close> keeps \<open>pos + buf_num\<close> and the
  wrapped differences apart in 32 bits.
\<close>

definition ring_inv :: "'a odp_buffer_ring_t \<Rightarrow> bool" where
  "ring_inv r \<longleftrightarrow>
     0 < unat (br_buf_num r) \<and> unat (br_buf_num r) < 2 ^ 31 \<and>
     length (br_buf_ptrs r) = unat (br_buf_num r) \<and>
     br_prod_head r = br_prod_tail r \<and> br_cons_head r = br_cons_tail r \<and>
     unat (br_prod_tail r) \<le> unat (br_buf_num r) \<and>
     unat (br_cons_tail r) \<le> unat (br_buf_num r) \<and>
     ring_count r < unat (br_buf_num r)"

lemma length_ring_list [simp]: "length (ring_list r) = ring_count r"
  by (simp add: ring_list_def)

lemma unat_ring_idx: "unat (ring_idx N i) = (if unat i = unat N then 0 else unat i)"
  by (simp add: ring_idx_def u32_eq)

lemma ring_idx_bounds:
  assumes "0 < unat N" "unat i \<le> unat N"
  shows "unat (ring_idx N i) = unat i mod unat N"
    and "unat (ring_idx N i + 1) \<le> unat N"
    and "unat (ring_idx N i + 1) mod unat N = (unat i + 1) mod unat N"
proof -
  have lt: "unat (ring_idx N i) < unat N" using assms by (simp add: unat_ring_idx)
  show "unat (ring_idx N i) = unat i mod unat N" using assms by (simp add: unat_ring_idx)
  then show "unat (ring_idx N i + 1) \<le> unat N"
    and "unat (ring_idx N i + 1) mod unat N = (unat i + 1) mod unat N"
    using lt unat_Suc_small [OF lt] by (simp_all add: mod_Suc_eq)
qed

lemma ring_load_eq:
  assumes "0 < unat N" "unat idx \<le> unat N"
  shows "ring_load ptrs N idx n = map (\<lambda>i. ptrs ! ((unat idx + i) mod unat N)) [0..<n]"
  using assms(2)
proof (induction n arbitrary: idx)
  case 0
  then show ?case by simp
next
  case (Suc n)
  note b = ring_idx_bounds [OF assms(1) Suc.prems]
  have shift: "(unat (ring_idx N idx + 1) + i) mod unat N = (unat idx + Suc i) mod unat N" for i
    using b(3) by (metis add_Suc_right add_Suc_shift mod_add_left_eq plus_1_eq_Suc add.commute)
  show ?case
    unfolding ring_load.simps Suc.IH [OF b(2)] shift b(1)
    by (simp add: upt_conv_Cons map_Suc_upt [symmetric] del: upt_Suc)
qed

lemma length_ring_store [simp]: "length (ring_store ptrs N idx bs) = length ptrs"
  by (induction bs arbitrary: ptrs idx) auto

lemma ring_store_nth:
  assumes "0 < unat N" "unat idx \<le> unat N" "length ptrs = unat N" "length bs \<le> unat N"
    and "j < unat N"
  shows "ring_store ptrs N idx bs ! ((unat idx + j) mod unat N) =
         (if j < length bs then bs ! j else ptrs ! ((unat idx + j) mod unat N))"
  using assms(2-)
proof (induction bs arbitrary: ptrs idx j)
  case Nil
  then show ?case by simp
next
  case (Cons b bs)
  note b = ring_idx_bounds [OF assms(1) Cons.prems(1)]
  let ?i1 = "ring_idx N idx + 1"
  let ?p1 = "ptrs[unat (ring_idx N idx) := b]"
  have shift: "(unat ?i1 + k) mod unat N = (unat idx + Suc k) mod unat N" for k
    using b(3) by (metis add_Suc_right add_Suc_shift mod_add_left_eq plus_1_eq_Suc add.commute)
  show ?case
  proof (cases j)
    case 0
    have last: "(unat ?i1 + (unat N - 1)) mod unat N = unat idx mod unat N"
      using shift [of "unat N - 1"] assms(1) by simp
    have "ring_store ?p1 N ?i1 bs ! ((unat ?i1 + (unat N - 1)) mod unat N) = b"
      using Cons.IH [of ?i1 ?p1 "unat N - 1"] Cons.prems assms(1) b last by auto
    with 0 last show ?thesis by simp
  next
    case (Suc k)
    have neq: "(unat idx + j) mod unat N \<noteq> unat idx mod unat N"
      using residue_inj [of "unat idx" j "unat N" 0] Cons.prems assms(1) Suc by auto
    have "ring_store ?p1 N ?i1 bs ! ((unat ?i1 + k) mod unat N) =
          (if k < length bs then bs ! k else ?p1 ! ((unat ?i1 + k) mod unat N))"
      using Cons.IH [of ?i1 ?p1 k] Cons.prems b Suc by simp
    with Suc shift neq b(1) show ?thesis by simp
  qed
qed

text \<open>Moving a position forward by \<open>n\<close> slots.\<close>

lemma ring_next_bounds:
  assumes "unat N < 2 ^ 31" "unat pos \<le> unat N" "unat n \<le> unat N"
  shows "unat (ring_next N pos n) =
           (if unat pos + unat n > unat N then unat pos + unat n - unat N else unat pos + unat n)"
proof -
  have "unat (pos + n) = unat pos + unat n" using assms by (subst unat_add_small) auto
  then show ?thesis by (simp add: ring_next_def Let_def wnat)
qed

lemma ring_left_eq:
  assumes "unat N < 2 ^ 31" "unat p \<le> unat N" "unat c \<le> unat N"
  shows "unat (ring_left N p c) =
           (if unat c \<le> unat p then unat p - unat c else unat p + unat N - unat c)"
proof (cases "unat c \<le> unat p")
  case True
  then have "unat (p - c) = unat p - unat c" by (rule unat_sub_small)
  with True assms show ?thesis by (auto simp: ring_left_def Let_def u32_less)
next
  case False
  then have w: "unat (p - c) = 2 ^ 32 - (unat c - unat p)" by (simp add: unat_sub_wrap)
  have "unat (p - c + N) = unat p + unat N - unat c"
    using assms False w by (simp add: unat_word_ariths(1) mod_if)
  with False w assms show ?thesis by (simp add: ring_left_def Let_def u32_less)
qed

section \<open>Correctness of the operations\<close>

lemma ring_init_ok:
  assumes "0 < unat n" "unat n < 2 ^ 31" "length ptrs = unat n"
  shows "ring_inv (odp_buffer_ring_init ptrs n)" "ring_list (odp_buffer_ring_init ptrs n) = []"
  using assms by (simp_all add: odp_buffer_ring_init_def ring_inv_def ring_list_def ring_count_def)

text \<open>The producer position is \<open>count\<close> slots after the consumer position.\<close>

lemma ring_prod_slot:
  assumes "ring_inv r"
  shows "(unat (br_prod_tail r) + j) mod unat (br_buf_num r) =
         (unat (br_cons_tail r) + (ring_count r + j)) mod unat (br_buf_num r)"
proof (cases "unat (br_cons_tail r) \<le> unat (br_prod_tail r)")
  case True
  then show ?thesis by (simp add: ring_count_def)
next
  case False
  with assms have "unat (br_cons_tail r) + (ring_count r + j) =
      unat (br_prod_tail r) + j + unat (br_buf_num r)"
    by (simp add: ring_count_def ring_inv_def)
  then show ?thesis by (simp only: mod_add_self2)
qed

text \<open>What any store of \<open>n\<close> buffers at the producer position does to the ring.\<close>

lemma ring_store_ok:
  assumes inv: "ring_inv r" and room: "ring_count r + length bs < unat (br_buf_num r)"
    and n: "unat n = length bs"
    and r': "r' = r\<lparr>br_buf_ptrs := ring_store (br_buf_ptrs r) (br_buf_num r) (br_prod_tail r) bs,
             br_prod_head := ring_next (br_buf_num r) (br_prod_tail r) n,
             br_prod_tail := ring_next (br_buf_num r) (br_prod_tail r) n\<rparr>"
  shows "ring_inv r'" "ring_count r' = ring_count r + length bs" "ring_list r' = ring_list r @ bs"
proof -
  let ?N = "unat (br_buf_num r)" and ?c = "unat (br_cons_tail r)" and ?p = "unat (br_prod_tail r)"
  from inv have N: "0 < ?N" "?N < 2 ^ 31" "?p \<le> ?N" "?c \<le> ?N" "length (br_buf_ptrs r) = ?N"
    by (simp_all add: ring_inv_def)
  have nxt: "unat (br_prod_tail r') = (if ?p + length bs > ?N then ?p + length bs - ?N
                                       else ?p + length bs)"
    using ring_next_bounds [of "br_buf_num r" "br_prod_tail r" n] N n room by (simp add: r')
  show cnt: "ring_count r' = ring_count r + length bs"
    using nxt N room unfolding ring_count_def by (auto simp: r' split: if_splits)
  show "ring_inv r'"
    using inv cnt room nxt by (auto simp: ring_inv_def r')
  have slot: "br_buf_ptrs r' ! ((?c + i) mod ?N) = (ring_list r @ bs) ! i"
    if i: "i < ring_count r + length bs" for i
  proof (cases "i < ring_count r")
    case True
    obtain j where j: "j < ?N" "(?p + j) mod ?N = (?c + i) mod ?N" "length bs \<le> j"
    proof
      show "?N - ring_count r + i < ?N" "length bs \<le> ?N - ring_count r + i"
        using True room by simp_all
      show "(?p + (?N - ring_count r + i)) mod ?N = (?c + i) mod ?N"
        using ring_prod_slot [OF inv, of "?N - ring_count r + i"] room
          mod_add_self2 [of "?c + i" ?N] by (simp add: ac_simps)
    qed
    have "br_buf_ptrs r' ! ((?c + i) mod ?N) = br_buf_ptrs r ! ((?c + i) mod ?N)"
      using ring_store_nth [OF N(1,3,5), of bs j] j room by (simp add: r')
    with True show ?thesis by (simp add: ring_list_def nth_append)
  next
    case False
    then have "(?p + (i - ring_count r)) mod ?N = (?c + i) mod ?N"
      using ring_prod_slot [OF inv, of "i - ring_count r"] by simp
    moreover have "i - ring_count r < length bs" using i False by simp
    ultimately show ?thesis
      using ring_store_nth [OF N(1,3,5), of bs "i - ring_count r"] room False
      by (simp add: r' nth_append)
  qed
  show "ring_list r' = ring_list r @ bs"
  proof (rule nth_equalityI)
    fix i assume "i < length (ring_list r')"
    with cnt have i: "i < ring_count r + length bs" by simp
    have "ring_list r' ! i = br_buf_ptrs r' ! ((?c + i) mod ?N)"
      using i cnt by (simp add: ring_list_def r')
    with slot [OF i] show "ring_list r' ! i = (ring_list r @ bs) ! i" by simp
  qed (simp add: cnt)
qed

text \<open>Each operation, from a ring between two calls.\<close>

lemma ring_push_multi_ok:
  assumes "ring_inv r" "ring_count r + length bs < unat (br_buf_num r)" "unat n = length bs"
  shows "\<exists>left r'. odp_buffer_ring_push_multi r bs n = Some (left, r') \<and>
           ring_inv r' \<and> ring_list r' = ring_list r @ bs \<and>
           br_buf_num r' = br_buf_num r \<and> unat left = ring_count r'"
proof -
  define r' where "r' = r\<lparr>br_buf_ptrs := ring_store (br_buf_ptrs r) (br_buf_num r) (br_prod_tail r) bs,
             br_prod_head := ring_next (br_buf_num r) (br_prod_tail r) n,
             br_prod_tail := ring_next (br_buf_num r) (br_prod_tail r) n\<rparr>"
  note ok = ring_store_ok [OF assms r'_def]
  have "unat (ring_left (br_buf_num r') (br_prod_tail r') (br_cons_tail r')) = ring_count r'"
    using ok(1) by (subst ring_left_eq) (auto simp: ring_inv_def ring_count_def)
  with ok assms show ?thesis
    by (simp add: odp_buffer_ring_push_multi_def ring_inv_def Let_def r'_def)
qed

lemma ring_claim_eq:
  assumes "ring_inv r" "br_cons_head r \<noteq> br_prod_tail r"
  shows "unat (get_multi_claim r n d) = min (unat n) (ring_count r) div 2 ^ unat d * 2 ^ unat d"
proof -
  let ?N = "unat (br_buf_num r)" and ?c = "unat (br_cons_tail r)" and ?p = "unat (br_prod_tail r)"
  from assms have N: "?N < 2 ^ 31" "?p \<le> ?N" "?c \<le> ?N" "br_cons_head r = br_cons_tail r" "?p \<noteq> ?c"
    by (auto simp: ring_inv_def u32_eq)
  have "unat (br_prod_tail r + br_buf_num r) = ?p + ?N" using N by (subst unat_add_small) auto
  with N have avail: "unat (if br_prod_tail r > br_cons_head r then br_prod_tail r - br_cons_head r
            else br_prod_tail r + br_buf_num r - br_cons_head r) = ring_count r"
    by (auto simp: ring_count_def wnat)
  show ?thesis
    unfolding get_multi_claim_def Let_def unat_and_high_mask
    using avail by (simp add: u32_less min_def)
qed

text \<open>Taking the first \<open>k\<close> buffers.\<close>

lemma ring_take_ok:
  assumes inv: "ring_inv r" and k: "unat k \<le> ring_count r"
    and r': "r' = r\<lparr>br_cons_head := ring_next (br_buf_num r) (br_cons_tail r) k,
                    br_cons_tail := ring_next (br_buf_num r) (br_cons_tail r) k\<rparr>"
  shows "ring_inv r'" "ring_count r' = ring_count r - unat k"
    "ring_list r' = drop (unat k) (ring_list r)"
    "ring_load (br_buf_ptrs r) (br_buf_num r) (br_cons_tail r) (unat k) = take (unat k) (ring_list r)"
proof -
  let ?N = "unat (br_buf_num r)" and ?c = "unat (br_cons_tail r)" and ?p = "unat (br_prod_tail r)"
  from inv k have N: "0 < ?N" "?N < 2 ^ 31" "?p \<le> ?N" "?c \<le> ?N" "unat k \<le> ?N"
    by (simp_all add: ring_inv_def)
  have nxt: "unat (br_cons_tail r') = (if ?c + unat k > ?N then ?c + unat k - ?N else ?c + unat k)"
    using ring_next_bounds [OF N(2,4,5)] by (simp add: r')
  show cnt: "ring_count r' = ring_count r - unat k"
    using nxt N k unfolding ring_count_def by (auto simp: r' split: if_splits)
  show "ring_inv r'"
    using inv cnt nxt N by (auto simp: ring_inv_def r')
  have slot: "(unat (br_cons_tail r') + i) mod ?N = (?c + (unat k + i)) mod ?N" for i
  proof (cases "?c + unat k > ?N")
    case True
    then have "?c + (unat k + i) = unat (br_cons_tail r') + i + ?N" using nxt by simp
    then show ?thesis by (simp only: mod_add_self2)
  qed (simp add: nxt ac_simps)
  show "ring_list r' = drop (unat k) (ring_list r)"
    by (rule nth_equalityI) (use cnt slot in \<open>auto simp: ring_list_def r' ac_simps\<close>)
  show "ring_load (br_buf_ptrs r) (br_buf_num r) (br_cons_tail r) (unat k) = take (unat k) (ring_list r)"
    unfolding ring_load_eq [OF N(1,4)] ring_list_def using k by (simp add: take_map)
qed

text \<open>The number of buffers \<open>get_multi\<close> delivers.\<close>

definition get_amount :: "nat \<Rightarrow> nat \<Rightarrow> nat \<Rightarrow> nat" where
  "get_amount n d count = min (min n 16) count div 2 ^ d * 2 ^ d"

lemma get_amount_le: "get_amount n d count \<le> count"
  unfolding get_amount_def by (rule order_trans [OF div_times_less_eq_dividend]) simp

lemma ring_get_multi_ok:
  assumes inv: "ring_inv r" and k: "k = get_amount (unat n) (unat d) (ring_count r)"
  shows "\<exists>left r'. odp_buffer_ring_get_multi r n d = Some (take k (ring_list r), left, r') \<and>
           ring_inv r' \<and> ring_list r' = drop k (ring_list r) \<and> br_buf_num r' = br_buf_num r \<and>
           (ring_count r = 0 \<or> (\<exists>l. left = Some l \<and> unat l = ring_count r'))"
proof (cases "br_cons_head r = br_prod_tail r")
  case True
  with inv have "ring_count r = 0" by (simp add: ring_inv_def ring_count_def)
  moreover from this have "ring_list r = []" by (simp add: ring_list_def)
  ultimately show ?thesis
    using True inv by (simp add: odp_buffer_ring_get_multi_def)
next
  case False
  define m where "m = (if n > POOL_MULTI_MAX then POOL_MULTI_MAX else n)"
  define c where "c = get_multi_claim r m d"
  define r' where "r' = r\<lparr>br_cons_head := ring_next (br_buf_num r) (br_cons_tail r) c,
                    br_cons_tail := ring_next (br_buf_num r) (br_cons_tail r) c\<rparr>"
  have "unat m = min (unat n) 16" by (simp add: m_def POOL_MULTI_MAX_def u32_less min_def)
  with ring_claim_eq [OF inv False, of m d] have c: "unat c = k"
    by (simp add: c_def k get_amount_def)
  with k get_amount_le have "unat c \<le> ring_count r" by simp
  note ok = ring_take_ok [OF inv this r'_def]
  have "unat (ring_left (br_buf_num r') (br_prod_tail r') (br_cons_tail r')) = ring_count r'"
    using ok(1) by (subst ring_left_eq) (auto simp: ring_inv_def ring_count_def)
  with False inv ok show ?thesis
    by (simp add: odp_buffer_ring_get_multi_def ring_inv_def Let_def r'_def c_def [symmetric]
        m_def [symmetric] c)
qed

text \<open>The linked-list push stores the nodes of the chain.\<close>

lemma ring_store_list_eq:
  assumes "chain nx hp bs rest"
  shows "ring_store_list nx ptrs N idx (length bs) hp = (ring_store ptrs N idx bs, rest)"
  using assms by (induction bs arbitrary: hp ptrs idx) auto

lemma push_list_claim_eq:
  assumes "ring_inv r" "unat n < 2 ^ 31"
  shows "unat (push_list_claim r n) = min (unat n) (ring_room r)"
proof -
  let ?N = "unat (br_buf_num r)" and ?c = "unat (br_cons_tail r)" and ?p = "unat (br_prod_tail r)"
  from assms have N: "0 < ?N" "?N < 2 ^ 31" "?p \<le> ?N" "?c \<le> ?N" "br_prod_head r = br_prod_tail r"
    by (simp_all add: ring_inv_def)
  have a: "unat (br_prod_tail r + n) = ?p + unat n" "unat (br_cons_tail r + br_buf_num r) = ?c + ?N"
    using N assms(2) by (subst unat_add_small; simp)+
  consider (eq) "?p = ?c" | (lt) "?p < ?c" | (gt) "?c < ?p" by linarith
  then show ?thesis
  proof cases
    case eq
    with N show ?thesis
      unfolding push_list_claim_def Let_def N(5)
      by (auto simp: u32_eq u32_less u32_le unat_sub_small ring_room_def ring_count_def)
  next
    case lt
    then have "unat (br_cons_tail r - br_prod_tail r - 1) = ?c - ?p - 1" by (simp add: unat_sub_small)
    with lt N a show ?thesis
      unfolding push_list_claim_def Let_def N(5)
      by (auto simp: u32_eq u32_less u32_le ring_room_def ring_count_def)
  next
    case gt
    then have "ring_count r = ?p - ?c" by (simp add: ring_count_def)
    with assms(1) have "?p - ?c < ?N" by (simp add: ring_inv_def)
    with gt a have "unat (br_cons_tail r + br_buf_num r - br_prod_tail r - 1) = ?c + ?N - ?p - 1"
      by (simp add: unat_sub_small)
    with gt N a show ?thesis
      unfolding push_list_claim_def Let_def N(5)
      by (auto simp: u32_eq u32_less u32_le ring_room_def ring_count_def)
  qed
qed

lemma ring_push_list_ok:
  assumes inv: "ring_inv r" and n: "unat n = length bs" "length bs < 2 ^ 31"
    and ch: "chain nx hp bs rest"
  defines "k \<equiv> min (length bs) (ring_room r)"
  shows "\<exists>hp' r'. odp_buffer_ring_push_list nx r hp n = Some (of_nat (length bs - k), hp', r') \<and>
           ring_inv r' \<and> ring_list r' = ring_list r @ take k bs \<and> chain nx hp' (drop k bs) rest"
proof (cases "push_list_claim r n = 0")
  case True
  with push_list_claim_eq [OF inv, of n] n have "k = 0" by (simp add: k_def)
  then show ?thesis
    using True inv ch n
    by (auto simp: odp_buffer_ring_push_list_def word_unat_eq_iff take_bit_nat_eq_self
        unsigned_of_nat)
next
  case False
  have c: "unat (push_list_claim r n) = k" using push_list_claim_eq [OF inv] n by (simp add: k_def)
  with False have pos: "0 < k" by (auto simp: u32_eq)
  define r' where "r' = r\<lparr>br_buf_ptrs := ring_store (br_buf_ptrs r) (br_buf_num r) (br_prod_tail r) (take k bs),
             br_prod_head := ring_next (br_buf_num r) (br_prod_tail r) (push_list_claim r n),
             br_prod_tail := ring_next (br_buf_num r) (br_prod_tail r) (push_list_claim r n)\<rparr>"
  have len: "length (take k bs) = k" by (simp add: k_def)
  have "ring_count r + length (take k bs) < unat (br_buf_num r)"
    using inv unfolding len by (simp add: k_def ring_room_def ring_inv_def) arith
  note ok = ring_store_ok [OF inv this _ r'_def]
  obtain hp' where hp': "chain nx hp (take k bs) hp'" "chain nx hp' (drop k bs) rest"
    using ch chain_append [of nx hp "take k bs" "drop k bs" rest] by auto
  have st: "ring_store_list nx (br_buf_ptrs r) (br_buf_num r) (br_prod_tail r) k hp =
        (ring_store (br_buf_ptrs r) (br_buf_num r) (br_prod_tail r) (take k bs), hp')"
    using ring_store_list_eq [OF hp'(1)] len by simp
  have left: "n - push_list_claim r n = of_nat (length bs - k)"
    using c n by (simp add: u32_eq unat_sub_small k_def unat_of_nat_small)
  show ?thesis
    using ok c len hp' st left False pos n inv
    by (auto simp: odp_buffer_ring_push_list_def Let_def r'_def ring_inv_def k_def)
qed

lemma ring_get_count_eq:
  assumes "ring_inv r"
  shows "unat (odp_buffer_ring_get_count r) =
           ring_count r + (if br_prod_tail r < br_cons_tail r then 1 else 0)"
proof -
  let ?N = "unat (br_buf_num r)" and ?c = "unat (br_cons_tail r)" and ?p = "unat (br_prod_tail r)"
  from assms have N: "?N < 2 ^ 31" "?p \<le> ?N" "?c \<le> ?N" by (simp_all add: ring_inv_def)
  show ?thesis
  proof (cases "?c \<le> ?p")
    case True
    then have "unat (br_prod_tail r - br_cons_tail r) = ?p - ?c" by (rule unat_sub_small)
    with True N show ?thesis
      by (auto simp: odp_buffer_ring_get_count_def Let_def u32_less ring_count_def)
  next
    case False
    then have w: "unat (br_prod_tail r - br_cons_tail r) = 2 ^ 32 - (?c - ?p)"
      by (simp add: unat_sub_wrap)
    have "unat (br_buf_num r + 1) = ?N + 1" using N by (subst unat_add_small) auto
    then have "unat (br_prod_tail r - br_cons_tail r + (br_buf_num r + 1)) = ?N + 1 - (?c - ?p)"
      using N False by (subst unat_sub_add) auto
    moreover have "br_prod_tail r - br_cons_tail r > br_buf_num r"
      unfolding u32_less w using N by simp
    moreover have "ring_count r = ?p + ?N - ?c" using False by (simp add: ring_count_def)
    ultimately show ?thesis
      using False N by (simp add: odp_buffer_ring_get_count_def Let_def u32_less)
  qed
qed

section \<open>Sequences of calls\<close>

text \<open>
  A sequence of calls, run by the code; \<open>None\<close> when a call waits for ever. The pushes of the code do not look for
  room: a push into a ring without room overwrites buffers. The specification is a list that holds less than \<open>N\<close> elements,
  and it is undefined (\<open>None\<close>) from the first push without room on.
\<close>

datatype 'a ring_call = Push_multi "'a list" | Get_multi u32 u32

fun ring_run :: "'a ring_call list \<Rightarrow> 'a odp_buffer_ring_t \<Rightarrow> ('a list \<times> 'a odp_buffer_ring_t) option" where
  "ring_run [] r = Some ([], r)"
| "ring_run (Push_multi bs # cs) r =
     (case odp_buffer_ring_push_multi r bs (of_nat (length bs)) of
        None \<Rightarrow> None
      | Some (_, r') \<Rightarrow> ring_run cs r')"
| "ring_run (Get_multi n divisor # cs) r =
     (case odp_buffer_ring_get_multi r n divisor of
        None \<Rightarrow> None
      | Some (bs, _, r') \<Rightarrow> map_option (\<lambda>(out, r''). (bs @ out, r'')) (ring_run cs r'))"

fun ring_spec :: "nat \<Rightarrow> 'a ring_call list \<Rightarrow> 'a list \<Rightarrow> ('a list \<times> 'a list) option" where
  "ring_spec N [] xs = Some ([], xs)"
| "ring_spec N (Push_multi bs # cs) xs =
     (if length xs + length bs < N then ring_spec N cs (xs @ bs) else None)"
| "ring_spec N (Get_multi n divisor # cs) xs =
     (let k = get_amount (unat n) (unat divisor) (length xs)
      in map_option (\<lambda>(out, ys). (take k xs @ out, ys)) (ring_spec N cs (drop k xs)))"

fun pushed :: "'a ring_call list \<Rightarrow> 'a list" where
  "pushed [] = []"
| "pushed (Push_multi bs # cs) = bs @ pushed cs"
| "pushed (Get_multi n divisor # cs) = pushed cs"

lemma ring_spec_fifo: "ring_spec N cs xs = Some (out, ys) \<Longrightarrow> xs @ pushed cs = out @ ys"
proof (induction N cs xs arbitrary: out rule: ring_spec.induct)
  case (3 N n divisor cs xs)
  then obtain out' where "out = take (get_amount (unat n) (unat divisor) (length xs)) xs @ out'"
    "drop (get_amount (unat n) (unat divisor) (length xs)) xs @ pushed cs = out' @ ys"
    by (auto simp: Let_def)
  then show ?case by (metis append_assoc append_take_drop_id pushed.simps(3))
qed (auto split: if_splits)

lemma ring_run_refines:
  "ring_inv r \<Longrightarrow> ring_spec (unat (br_buf_num r)) cs (ring_list r) = Some (out, ys) \<Longrightarrow>
     \<exists>r'. ring_run cs r = Some (out, r') \<and> ring_inv r' \<and> ring_list r' = ys"
proof (induction cs r arbitrary: out rule: ring_run.induct)
  case (2 bs cs r)
  then have c: "ring_count r + length bs < unat (br_buf_num r)"
    and sp: "ring_spec (unat (br_buf_num r)) cs (ring_list r @ bs) = Some (out, ys)"
    by (auto split: if_splits)
  have "unat (of_nat (length bs) :: u32) = length bs"
    using c u32_bound [of "br_buf_num r"] by (intro unat_of_nat_small) simp
  then obtain left r' where r': "odp_buffer_ring_push_multi r bs (of_nat (length bs)) = Some (left, r')"
    "ring_inv r'" "ring_list r' = ring_list r @ bs" "br_buf_num r' = br_buf_num r"
    using ring_push_multi_ok [OF 2(2) c] by blast
  with 2(1) [OF r'(1) refl r'(2)] sp show ?case by simp
next
  case (3 n divisor cs r)
  then obtain out' where out: "out = take (get_amount (unat n) (unat divisor) (length (ring_list r))) (ring_list r) @ out'"
    and sp: "ring_spec (unat (br_buf_num r)) cs (drop (get_amount (unat n) (unat divisor) (length (ring_list r))) (ring_list r)) = Some (out', ys)"
    by (auto simp: Let_def)
  obtain left r' where r': "odp_buffer_ring_get_multi r n divisor =
      Some (take (get_amount (unat n) (unat divisor) (length (ring_list r))) (ring_list r), left, r')"
    "ring_inv r'" "ring_list r' = drop (get_amount (unat n) (unat divisor) (length (ring_list r))) (ring_list r)" "br_buf_num r' = br_buf_num r"
    using ring_get_multi_ok [OF 3(2) refl, of n divisor] unfolding length_ring_list by blast
  from 3(1) [OF r'(1) refl refl r'(2)] sp r' out show ?case by auto
qed simp

section \<open>Properties\<close>

lemma ring_load_numeral:
  "ring_load ptrs N idx (numeral k) =
     ptrs ! unat (ring_idx N idx) # ring_load ptrs N (ring_idx N idx + 1) (pred_numeral k)"
  by (simp add: numeral_eq_Suc)

lemmas ring_eval =
  ring_load_numeral
  odp_buffer_ring_init_def odp_buffer_ring_push_multi_def
  odp_buffer_ring_get_multi_def odp_buffer_ring_push_list_def get_multi_claim_def
  push_list_claim_def ring_next_def ring_left_def ring_idx_def POOL_MULTI_MAX_def
  ring_inv_def ring_list_def ring_count_def ring_room_def Let_def upt_rec

text \<open>C2. A ring of less than \<open>2 ^ 31\<close> slots, at least one, and any sequence of \<open>odp_buffer_ring_push_multi\<close> and
  \<open>odp_buffer_ring_get_multi\<close> calls, one after the other, in which every push finds room for its buffers (one slot stays
  free; the code does not check this and overwrites buffers otherwise): every call returns, the ring keeps its invariant, and it
  behaves as the list \<open>ring_spec\<close>: a get delivers the first buffers, as many as requested and present, at most
  16, rounded down to a multiple of \<open>2 ^ divisor\<close>. So the buffers pushed are the buffers delivered followed by those still in the
  ring, with nothing lost, duplicated or reordered.\<close>

theorem buffer_ring_fifo:
  assumes "0 < unat buf_num" and "unat buf_num < 2 ^ 31" and "length addr = unat buf_num"
    and "ring_spec (unat buf_num) calls [] = Some (out, ys)"
  shows "\<exists>r'. ring_run calls (odp_buffer_ring_init addr buf_num) = Some (out, r') \<and> ring_inv r' \<and> ring_list r' = ys \<and>
    pushed calls = out @ ys"
proof -
  have "ring_inv (odp_buffer_ring_init addr buf_num)" "ring_list (odp_buffer_ring_init addr buf_num) = []"
    using ring_init_ok [OF assms(1-3)] by simp_all
  moreover have "br_buf_num (odp_buffer_ring_init addr buf_num) = buf_num" by (simp add: odp_buffer_ring_init_def)
  ultimately show ?thesis using ring_run_refines [of "odp_buffer_ring_init addr buf_num" calls] ring_spec_fifo [OF assms(4)] assms(4)
    by simp
qed

theorem buffer_ring_fifo_witness:
  "\<exists>r'. ring_run [Push_multi [1, 2 :: nat], Get_multi 1 0, Push_multi [3], Get_multi 5 1] (odp_buffer_ring_init [0, 0, 0, 0] 4) =
     Some ([1, 2, 3], r') \<and> ring_inv r' \<and> ring_list r' = [] \<and> [1, 2, 3 :: nat] = [1, 2, 3] @ []"
  using buffer_ring_fifo [of "4 :: u32" "[0, 0, 0, 0 :: nat]" "[Push_multi [1, 2], Get_multi 1 0, Push_multi [3], Get_multi 5 1]" "[1, 2, 3]" "[]"]
  by (simp add: get_amount_def)

text \<open>\<open>odp_buffer_ring_get_multi\<close> returns, without waiting, the first \<open>k\<close> buffers
  of the ring in order and removes exactly those, where \<open>k\<close> is the smallest of the
  request, 16 and the number of buffers present, rounded down to a multiple of
  \<open>2 ^ divisor\<close>; when the ring was not empty, \<open>left\<close> is the number that remains.\<close>

lemma buffer_ring_get_multi_correct:
  assumes "ring_inv r"
  shows "\<exists>left r'.
     odp_buffer_ring_get_multi r n divisor =
       Some (take (min (min (unat n) 16) (length (ring_list r)) div 2 ^ unat divisor * 2 ^ unat divisor)
               (ring_list r), left, r') \<and>
     ring_inv r' \<and>
     ring_list r' =
       drop (min (min (unat n) 16) (length (ring_list r)) div 2 ^ unat divisor * 2 ^ unat divisor)
         (ring_list r) \<and>
     (ring_list r \<noteq> [] \<longrightarrow> map_option unat left = Some (length (ring_list r')))"
  using ring_get_multi_ok [OF assms refl, of n divisor]
  by (auto simp: get_amount_def ring_list_def)

text \<open>\<open>odp_buffer_ring_push_list\<close> on a linked list of \<open>n\<close> headers appends the first
  \<open>k\<close> of them in list order, where \<open>k\<close> is the smaller of \<open>n\<close> and the free room, so the
  ring never overflows; it returns \<open>n - k\<close> and leaves \<open>head\<close> at the first header that
  was not pushed, from which exactly the remaining headers are linked.\<close>

lemma buffer_ring_push_list_correct:
  assumes "ring_inv r" and "unat n = length bs" and "length bs < 2 ^ 31"
    and "chain nx head bs rest"
  shows "\<exists>head' r'.
     odp_buffer_ring_push_list nx r head n =
       Some (of_nat (length bs - min (length bs) (ring_room r)), head', r') \<and>
     ring_inv r' \<and> ring_list r' = ring_list r @ take (ring_room r) bs \<and>
     chain nx head' (drop (ring_room r) bs) rest"
proof -
  have "take (min (length bs) (ring_room r)) bs = take (ring_room r) bs"
    and "drop (min (length bs) (ring_room r)) bs = drop (ring_room r) bs"
    by (simp_all add: min_def)
  with ring_push_list_ok [OF assms] show ?thesis by simp
qed

text \<open>\<open>odp_buffer_ring_get_count\<close> is not the number of buffers in the ring: when the
  producer position is below the consumer position, it reports one buffer too many.\<close>

lemma buffer_ring_get_count_off_by_one:
  assumes "ring_inv r"
  shows "unat (odp_buffer_ring_get_count r) =
           length (ring_list r) + (if br_prod_tail r < br_cons_tail r then 1 else 0)"
  using ring_get_count_eq [OF assms] by simp

end
