(* ===== verification/Odp_Shm.thy ===== *)
theory Odp_Shm
  imports Odp_Prelude
begin

text \<open>
  Shared memory blocks (\<open>platform/mppa/odp_shared_memory.c\<close>): the table of named
  blocks and its operations. Addresses are 32-bit words, the null pointer is \<open>0\<close>,
  and a C string is the list of its characters before the terminator. The table
  lock makes each call one step. The pointer that \<open>malloc\<close> returns for a size is
  the parameter \<open>malloc\<close>; a call to \<open>free\<close> is reported in the result.
\<close>

section \<open>State and operations\<close>

definition ODP_CONFIG_SHM_BLOCKS :: nat where "ODP_CONFIG_SHM_BLOCKS = 60"
definition ODP_SHM_NAME_LEN :: nat where "ODP_SHM_NAME_LEN = 32"
definition ODP_SHM_INVALID :: u32 where "ODP_SHM_INVALID = 0"
definition ODP_SHM_PROC :: u32 where "ODP_SHM_PROC = 2"
definition ODP_SHM_UNCACHED :: u32 where "ODP_SHM_UNCACHED = 8"
definition ODP_PAGE_SIZE :: u32 where "ODP_PAGE_SIZE = 4096"

definition CACHED_TO_UNCACHED :: "u32 \<Rightarrow> u32" where
  "CACHED_TO_UNCACHED p = p OR push_bit 21 1"

record odp_shm_block_t =
  sb_name :: string
  sb_size :: u64
  sb_align :: u64
  sb_alloc_size :: u64
  sb_addr_orig :: u32
  sb_addr :: u32
  sb_huge :: int
  sb_hdl :: u32
  sb_flags :: u32
  sb_fd :: int

type_synonym odp_shm_table_t = "odp_shm_block_t list"

definition shm_zero_block :: odp_shm_block_t where
  "shm_zero_block = \<lparr>sb_name = [], sb_size = 0, sb_align = 0, sb_alloc_size = 0,
     sb_addr_orig = 0, sb_addr = 0, sb_huge = 0, sb_hdl = 0, sb_flags = 0, sb_fd = 0\<rparr>"

definition shm_from_handle :: "u32 \<Rightarrow> u32" where
  "shm_from_handle shm = shm - 1"

definition shm_to_handle :: "u32 \<Rightarrow> u32" where
  "shm_to_handle index = index + 1"

text \<open>\<open>malloc\<close> of the table may fail; a fresh table is all zero.\<close>

definition odp_shm_init_global :: "u32 \<Rightarrow> int \<times> odp_shm_table_t option" where
  "odp_shm_init_global addr =
     (if addr = 0 then (- 1, None)
      else (0, Some (replicate ODP_CONFIG_SHM_BLOCKS shm_zero_block)))"

fun shm_first :: "(odp_shm_block_t \<Rightarrow> bool) \<Rightarrow> odp_shm_table_t \<Rightarrow> nat" where
  "shm_first P [] = 0"
| "shm_first P (b # bs) = (if P b then 0 else Suc (shm_first P bs))"

definition find_block :: "odp_shm_table_t \<Rightarrow> string \<Rightarrow> nat option" where
  "find_block tbl name =
     (let i = shm_first (\<lambda>b. sb_name b = name) tbl in if i < length tbl then Some i else None)"

text \<open>The result of \<open>odp_shm_free\<close>: the return value, the pointer given to \<open>free\<close>, if
  any, and the table; \<open>None\<close> is the abort on a block shared between processes.\<close>

definition odp_shm_free :: "odp_shm_table_t \<Rightarrow> u32 \<Rightarrow> (int \<times> u32 option \<times> odp_shm_table_t) option" where
  "odp_shm_free tbl shm =
     (if shm = ODP_SHM_INVALID then Some (- 1, None, tbl)
      else let i = shm_from_handle shm in
        if unat i \<ge> ODP_CONFIG_SHM_BLOCKS then Some (- 1, None, tbl)
        else let block = tbl ! unat i in
          if sb_addr block = 0 then Some (0, None, tbl)
          else if sb_flags block AND ODP_SHM_PROC \<noteq> 0 then None
          else Some (0, Some (sb_addr_orig block), tbl[unat i := shm_zero_block]))"

text \<open>
  \<open>odp_shm_reserve\<close>: the handle and the table. \<open>size_t\<close> and \<open>uintptr_t\<close> have 32 bits,
  so the 64-bit sizes are truncated where they are passed to \<open>malloc\<close> and to the
  rounding macro; an alignment that truncates to zero divides by zero (\<open>None\<close>).
\<close>

definition odp_shm_reserve ::
  "(u32 \<Rightarrow> u32) \<Rightarrow> odp_shm_table_t \<Rightarrow> string \<Rightarrow> u64 \<Rightarrow> u64 \<Rightarrow> u32 \<Rightarrow> (u32 \<times> odp_shm_table_t) option"
  where
  "odp_shm_reserve malloc tbl name sz align flags =
     (let alloc_size = sz + align in
      if flags AND ODP_SHM_PROC \<noteq> 0 then Some (ODP_SHM_INVALID, tbl)
      else if find_block tbl name \<noteq> None then Some (ODP_SHM_INVALID, tbl)
      else let i = shm_first (\<lambda>b. sb_addr b = 0) tbl in
        if i > ODP_CONFIG_SHM_BLOCKS - 1 then Some (ODP_SHM_INVALID, tbl)
        else let block = (tbl ! i)\<lparr>sb_hdl := shm_to_handle (of_nat i)\<rparr>;
                 addr = malloc (ucast alloc_size) in
          if addr = 0 then Some (ODP_SHM_INVALID, tbl[i := block])
          else if (ucast align :: u32) = 0 then None
          else let block' = block\<lparr>sb_alloc_size := alloc_size, sb_huge := 0, sb_addr_orig := addr,
                     sb_name := take (ODP_SHM_NAME_LEN - 1) name, sb_size := sz,
                     sb_align := align, sb_flags := flags, sb_fd := - 1,
                     sb_addr := ODP_ALIGN_ROUNDUP addr (ucast align)\<rparr>
               in Some (sb_hdl block', tbl[i := block']))"

definition odp_shm_lookup :: "odp_shm_table_t \<Rightarrow> string \<Rightarrow> u32" where
  "odp_shm_lookup tbl name =
     (case find_block tbl name of None \<Rightarrow> ODP_SHM_INVALID | Some i \<Rightarrow> sb_hdl (tbl ! i))"

definition odp_shm_addr :: "odp_shm_table_t \<Rightarrow> u32 \<Rightarrow> u32" where
  "odp_shm_addr tbl shm =
     (let i = shm_from_handle shm in
      if unat i > ODP_CONFIG_SHM_BLOCKS - 1 then 0
      else if sb_flags (tbl ! unat i) AND ODP_SHM_UNCACHED \<noteq> 0
        then CACHED_TO_UNCACHED (sb_addr (tbl ! unat i))
        else sb_addr (tbl ! unat i))"

record odp_shm_info_t =
  si_name :: string
  si_addr :: u32
  si_size :: u64
  si_page_size :: u32
  si_flags :: u32

definition odp_shm_info :: "odp_shm_table_t \<Rightarrow> u32 \<Rightarrow> odp_shm_info_t option" where
  "odp_shm_info tbl shm =
     (let i = shm_from_handle shm in
      if unat i > ODP_CONFIG_SHM_BLOCKS - 1 then None
      else let block = tbl ! unat i in
        Some \<lparr>si_name = sb_name block, si_addr = sb_addr block, si_size = sb_size block,
              si_page_size = ODP_PAGE_SIZE, si_flags = sb_flags block\<rparr>)"

section \<open>The invariant of the table\<close>

definition shm_used :: "odp_shm_block_t \<Rightarrow> bool" where
  "shm_used b \<longleftrightarrow> sb_addr b \<noteq> 0"

text \<open>The bytes of a block that belong to its user.\<close>

definition shm_bytes :: "odp_shm_block_t \<Rightarrow> nat set" where
  "shm_bytes b = {unat (sb_addr b) ..< unat (sb_addr b) + unat (sb_size b)}"

text \<open>The bytes \<open>malloc\<close> gave for a block.\<close>

definition shm_extent :: "odp_shm_block_t \<Rightarrow> nat set" where
  "shm_extent b = {unat (sb_addr_orig b) ..< unat (sb_addr_orig b) + unat (sb_alloc_size b)}"

definition shm_block_ok :: "nat \<Rightarrow> odp_shm_block_t \<Rightarrow> bool" where
  "shm_block_ok i b \<longleftrightarrow>
     (if shm_used b
      then sb_name b \<noteq> [] \<and> sb_hdl b = shm_to_handle (of_nat i) \<and> sb_flags b AND ODP_SHM_PROC = 0 \<and>
           unat (sb_align b) dvd unat (sb_addr b) \<and> shm_bytes b \<subseteq> shm_extent b
      else sb_name b = [])"

definition shm_inv :: "odp_shm_table_t \<Rightarrow> bool" where
  "shm_inv tbl \<longleftrightarrow>
     length tbl = ODP_CONFIG_SHM_BLOCKS \<and>
     (\<forall>i < length tbl. shm_block_ok i (tbl ! i)) \<and>
     (\<forall>i < length tbl. \<forall>j < length tbl. i \<noteq> j \<longrightarrow> shm_used (tbl ! i) \<longrightarrow> shm_used (tbl ! j) \<longrightarrow>
        shm_extent (tbl ! i) \<inter> shm_extent (tbl ! j) = {})"

text \<open>What the allocator promises: a successful \<open>malloc\<close> of \<open>n\<close> bytes gives a range
  inside the address space that overlaps no block in use.\<close>

definition malloc_ok :: "odp_shm_table_t \<Rightarrow> u32 \<Rightarrow> u32 \<Rightarrow> bool" where
  "malloc_ok tbl n addr \<longleftrightarrow> addr \<noteq> 0 \<longrightarrow>
     unat addr + unat n \<le> 2 ^ 32 \<and>
     (\<forall>b \<in> set tbl. shm_used b \<longrightarrow> {unat addr ..< unat addr + unat n} \<inter> shm_extent b = {})"

section \<open>Lemmas\<close>

lemma shm_first_le: "shm_first P tbl \<le> length tbl"
  by (induction tbl) auto

lemma shm_first_less: "shm_first P tbl < length tbl \<Longrightarrow> P (tbl ! shm_first P tbl)"
  by (induction tbl) (auto split: if_splits)

lemma shm_first_before: "j < shm_first P tbl \<Longrightarrow> \<not> P (tbl ! j)"
  by (induction tbl arbitrary: j) (auto simp: nth_Cons split: if_splits nat.splits)

lemma shm_first_eq:
  assumes "i < length tbl" "P (tbl ! i)" "\<And>j. j < i \<Longrightarrow> \<not> P (tbl ! j)"
  shows "shm_first P tbl = i"
proof -
  have "\<not> i < shm_first P tbl" using assms(2) shm_first_before [of i P tbl] by auto
  moreover from this have "P (tbl ! shm_first P tbl)"
    using assms(1) shm_first_less [of P tbl] by simp
  ultimately show ?thesis using assms(3) by (meson linorder_neqE_nat)
qed

lemma find_block_None: "find_block tbl name = None \<longleftrightarrow> (\<forall>b \<in> set tbl. sb_name b \<noteq> name)"
proof -
  let ?P = "\<lambda>b. sb_name b = name"
  have "find_block tbl name = None \<longleftrightarrow> length tbl \<le> shm_first ?P tbl"
    by (auto simp: find_block_def Let_def not_less)
  also have "\<dots> \<longleftrightarrow> (\<forall>b \<in> set tbl. \<not> ?P b)"
  proof
    assume l: "length tbl \<le> shm_first ?P tbl"
    show "\<forall>b \<in> set tbl. \<not> ?P b"
    proof
      fix b assume "b \<in> set tbl"
      then obtain j where "j < length tbl" "tbl ! j = b" by (auto simp: in_set_conv_nth)
      with shm_first_before [of j ?P tbl] l show "\<not> ?P b" by simp
    qed
  next
    assume "\<forall>b \<in> set tbl. \<not> ?P b"
    then show "length tbl \<le> shm_first ?P tbl"
      using shm_first_less [of ?P tbl] by (meson not_less nth_mem)
  qed
  finally show ?thesis .
qed

lemma find_block_unique:
  assumes "i < length tbl" "sb_name (tbl ! i) = name"
    and "\<And>j. j < length tbl \<Longrightarrow> j \<noteq> i \<Longrightarrow> sb_name (tbl ! j) \<noteq> name"
  shows "find_block tbl name = Some i"
proof -
  have "shm_first (\<lambda>b. sb_name b = name) tbl = i"
    by (rule shm_first_eq) (use assms in auto)
  then show ?thesis using assms(1) by (simp add: find_block_def)
qed

lemma shm_handle_roundtrip [simp]: "shm_from_handle (shm_to_handle i) = i"
  by (simp add: shm_from_handle_def shm_to_handle_def)

lemma shm_to_handle_valid:
  "i < ODP_CONFIG_SHM_BLOCKS \<Longrightarrow> shm_to_handle (of_nat i) \<noteq> ODP_SHM_INVALID"
  "i < ODP_CONFIG_SHM_BLOCKS \<Longrightarrow> unat (of_nat i :: u32) = i"
proof -
  assume i: "i < ODP_CONFIG_SHM_BLOCKS"
  then show n: "unat (of_nat i :: u32) = i"
    by (simp add: ODP_CONFIG_SHM_BLOCKS_def unat_of_nat_small)
  have "unat (of_nat i + 1 :: u32) = Suc i"
    using unat_Suc_small [of "of_nat i" 60] n i by (simp add: ODP_CONFIG_SHM_BLOCKS_def)
  then show "shm_to_handle (of_nat i) \<noteq> ODP_SHM_INVALID"
    by (auto simp: shm_to_handle_def ODP_SHM_INVALID_def)
qed

text \<open>Replacing one block of the table.\<close>

lemma shm_inv_update:
  assumes "shm_inv tbl" "i < length tbl" "shm_block_ok i b"
    and "\<And>j. j < length tbl \<Longrightarrow> j \<noteq> i \<Longrightarrow> shm_used b \<Longrightarrow> shm_used (tbl ! j) \<Longrightarrow>
           shm_extent b \<inter> shm_extent (tbl ! j) = {}"
  shows "shm_inv (tbl[i := b])"
proof -
  have "shm_extent (tbl[i := b] ! j) \<inter> shm_extent (tbl[i := b] ! k) = {}"
    if "j < length tbl" "k < length tbl" "j \<noteq> k" "shm_used (tbl[i := b] ! j)" "shm_used (tbl[i := b] ! k)"
    for j k
  proof (cases "j = i \<or> k = i")
    case True
    with that assms(2) assms(4) [of j] assms(4) [of k] show ?thesis
      by (metis Int_commute nth_list_update_eq nth_list_update_neq)
  next
    case False
    with that assms(1) show ?thesis by (simp add: shm_inv_def)
  qed
  with assms show ?thesis by (simp add: shm_inv_def nth_list_update)
qed

text \<open>A successful reservation puts an aligned block inside the memory it obtained.\<close>

definition shm_new_block :: "u32 \<Rightarrow> nat \<Rightarrow> string \<Rightarrow> u64 \<Rightarrow> u64 \<Rightarrow> u32 \<Rightarrow> odp_shm_block_t" where
  "shm_new_block addr i name sz align flags =
     \<lparr>sb_name = take 31 name, sb_size = sz, sb_align = align, sb_alloc_size = sz + align,
      sb_addr_orig = addr, sb_addr = ODP_ALIGN_ROUNDUP addr (ucast align), sb_huge = 0,
      sb_hdl = shm_to_handle (of_nat i), sb_flags = flags, sb_fd = - 1\<rparr>"

lemma shm_new_block_ok:
  assumes "name \<noteq> []" "0 < unat align" "unat sz + unat align < 2 ^ 32" "flags AND ODP_SHM_PROC = 0"
    and addr: "addr \<noteq> 0" "unat addr + unat (ucast (sz + align) :: u32) \<le> 2 ^ 32"
  shows "shm_block_ok i (shm_new_block addr i name sz align flags)"
    and "shm_used (shm_new_block addr i name sz align flags)"
    and "shm_extent (shm_new_block addr i name sz align flags) =
           {unat addr ..< unat addr + unat (ucast (sz + align) :: u32)}"
proof -
  let ?b = "shm_new_block addr i name sz align flags"
  have sum: "unat (sz + align) = unat sz + unat align"
    using assms(3) by (intro unat_add_small64) simp
  have c: "unat (ucast (sz + align) :: u32) = unat sz + unat align"
    "unat (ucast align :: u32) = unat align"
    using assms(3) sum by (simp_all add: unat_ucast_small)
  have r: "unat addr \<le> unat (sb_addr ?b)" "unat (sb_addr ?b) < unat addr + unat align"
      "unat align dvd unat (sb_addr ?b)"
    using roundup_u32 [of "ucast align" addr] c addr assms(2,3) by (simp_all add: shm_new_block_def)
  have "0 < unat addr" using addr(1) by (simp add: unat_gt_0)
  with r show used: "shm_used ?b" by (auto simp: shm_used_def)
  show ext: "shm_extent ?b = {unat addr ..< unat addr + unat (ucast (sz + align) :: u32)}"
    by (simp add: shm_extent_def shm_new_block_def c sum)
  have "shm_bytes ?b \<subseteq> shm_extent ?b"
    unfolding ext c using r by (auto simp: shm_bytes_def shm_new_block_def)
  with used r(3) assms(1,4) show "shm_block_ok i ?b"
    by (simp add: shm_block_ok_def shm_new_block_def)
qed

text \<open>The outcome of a reservation on each branch.\<close>

lemma shm_reserve_fail:
  assumes "flags AND ODP_SHM_PROC \<noteq> 0 \<or> find_block tbl name \<noteq> None \<or>
           (length tbl = ODP_CONFIG_SHM_BLOCKS \<and> (\<forall>b \<in> set tbl. shm_used b))"
  shows "odp_shm_reserve malloc tbl name sz align flags = Some (ODP_SHM_INVALID, tbl)"
proof (cases "flags AND ODP_SHM_PROC \<noteq> 0 \<or> find_block tbl name \<noteq> None")
  case True
  then show ?thesis by (auto simp: odp_shm_reserve_def Let_def)
next
  case False
  with assms have full: "length tbl = 60" "\<forall>b \<in> set tbl. shm_used b"
    by (auto simp: ODP_CONFIG_SHM_BLOCKS_def)
  have "\<not> shm_first (\<lambda>b. sb_addr b = 0) tbl < length tbl"
    using shm_first_less [of "\<lambda>b. sb_addr b = 0" tbl] full(2) nth_mem
    by (force simp: shm_used_def)
  with full(1) False show ?thesis by (simp add: odp_shm_reserve_def Let_def ODP_CONFIG_SHM_BLOCKS_def)
qed

lemma shm_reserve_cases:
  assumes inv: "shm_inv tbl" and ok: "flags AND ODP_SHM_PROC = 0" "find_block tbl name = None"
    and free: "\<exists>b \<in> set tbl. \<not> shm_used b" and al: "(ucast align :: u32) \<noteq> 0"
  obtains i where "i < length tbl" "\<not> shm_used (tbl ! i)"
    "odp_shm_reserve malloc tbl name sz align flags =
       (if malloc (ucast (sz + align)) = 0
        then Some (ODP_SHM_INVALID, tbl[i := (tbl ! i)\<lparr>sb_hdl := shm_to_handle (of_nat i)\<rparr>])
        else Some (shm_to_handle (of_nat i),
                   tbl[i := shm_new_block (malloc (ucast (sz + align))) i name sz align flags]))"
proof -
  define i where "i = shm_first (\<lambda>b. sb_addr b = 0) tbl"
  have l: "i < length tbl"
  proof (rule ccontr)
    assume "\<not> i < length tbl"
    then have "\<forall>j < length tbl. sb_addr (tbl ! j) \<noteq> 0"
      using shm_first_before [of _ "\<lambda>b. sb_addr b = 0" tbl] by (simp add: i_def)
    with free show False by (auto simp: in_set_conv_nth shm_used_def)
  qed
  have "\<not> shm_used (tbl ! i)" using l shm_first_less by (auto simp: i_def shm_used_def)
  moreover have "odp_shm_reserve malloc tbl name sz align flags =
       (if malloc (ucast (sz + align)) = 0
        then Some (ODP_SHM_INVALID, tbl[i := (tbl ! i)\<lparr>sb_hdl := shm_to_handle (of_nat i)\<rparr>])
        else Some (shm_to_handle (of_nat i),
                   tbl[i := shm_new_block (malloc (ucast (sz + align))) i name sz align flags]))"
    using l inv ok al
    by (cases "tbl ! i") (simp add: odp_shm_reserve_def Let_def shm_inv_def i_def [symmetric]
        shm_new_block_def ODP_CONFIG_SHM_BLOCKS_def ODP_SHM_NAME_LEN_def)
  ultimately show ?thesis using l that by blast
qed

lemma shm_init_inv: "shm_inv (replicate ODP_CONFIG_SHM_BLOCKS shm_zero_block)"
  by (simp add: shm_inv_def shm_block_ok_def shm_used_def shm_zero_block_def)

lemma shm_reserve_inv:
  assumes inv: "shm_inv tbl" and name: "name \<noteq> []"
    and sz: "0 < unat align" "unat sz + unat align < 2 ^ 32"
    and m: "malloc_ok tbl (ucast (sz + align)) (malloc (ucast (sz + align)))"
  obtains h tbl' where "odp_shm_reserve malloc tbl name sz align flags = Some (h, tbl')"
    "shm_inv tbl'" "length tbl' = length tbl"
    "h = ODP_SHM_INVALID \<longleftrightarrow> flags AND ODP_SHM_PROC \<noteq> 0 \<or> find_block tbl name \<noteq> None \<or>
       (\<forall>b \<in> set tbl. shm_used b) \<or> malloc (ucast (sz + align)) = 0"
    "h \<noteq> ODP_SHM_INVALID \<Longrightarrow> (\<exists>i < length tbl. h = shm_to_handle (of_nat i) \<and> \<not> shm_used (tbl ! i) \<and>
       tbl' = tbl[i := shm_new_block (malloc (ucast (sz + align))) i name sz align flags])"
proof (cases "flags AND ODP_SHM_PROC \<noteq> 0 \<or> find_block tbl name \<noteq> None \<or> (\<forall>b \<in> set tbl. shm_used b)")
  case True
  then have "odp_shm_reserve malloc tbl name sz align flags = Some (ODP_SHM_INVALID, tbl)"
    using shm_reserve_fail [of flags tbl name] inv unfolding shm_inv_def by blast
  with True inv that show ?thesis by blast
next
  case False
  let ?m = "malloc (ucast (sz + align))"
  have "(ucast align :: u32) \<noteq> 0"
    using sz unat_ucast_small [of align] by (auto simp: u32_eq)
  with False obtain i where i: "i < length tbl" "\<not> shm_used (tbl ! i)" and
    res: "odp_shm_reserve malloc tbl name sz align flags =
       (if ?m = 0
        then Some (ODP_SHM_INVALID, tbl[i := (tbl ! i)\<lparr>sb_hdl := shm_to_handle (of_nat i)\<rparr>])
        else Some (shm_to_handle (of_nat i), tbl[i := shm_new_block ?m i name sz align flags]))"
    using shm_reserve_cases [OF inv] by metis
  show ?thesis
  proof (cases "?m = 0")
    case True
    have "shm_inv (tbl[i := (tbl ! i)\<lparr>sb_hdl := shm_to_handle (of_nat i)\<rparr>])"
      using inv i by (intro shm_inv_update) (auto simp: shm_inv_def shm_block_ok_def shm_used_def)
    with True res that show ?thesis by auto
  next
    case nz: False
    with m False have b: "shm_block_ok i (shm_new_block ?m i name sz align flags)"
      "shm_extent (shm_new_block ?m i name sz align flags) =
         {unat ?m ..< unat ?m + unat (ucast (sz + align) :: u32)}"
      using shm_new_block_ok [OF name sz, of flags ?m] by (auto simp: malloc_ok_def)
    have "shm_inv (tbl[i := shm_new_block ?m i name sz align flags])"
      using inv i(1) b(1) by (rule shm_inv_update) (use m nz b(2) in \<open>auto simp: malloc_ok_def\<close>)
    moreover have "shm_to_handle (of_nat i) \<noteq> ODP_SHM_INVALID"
      using i(1) inv shm_to_handle_valid by (simp add: shm_inv_def)
    ultimately show ?thesis using nz False res i that by auto
  qed
qed

lemma shm_free_total:
  assumes "shm_inv tbl"
  shows "\<exists>r f tbl'. odp_shm_free tbl h = Some (r, f, tbl')"
proof (cases "h \<noteq> ODP_SHM_INVALID \<and> unat (shm_from_handle h) < ODP_CONFIG_SHM_BLOCKS")
  case True
  with assms have "shm_block_ok (unat (shm_from_handle h)) (tbl ! unat (shm_from_handle h))"
    by (simp add: shm_inv_def)
  then show ?thesis
    by (auto simp: odp_shm_free_def Let_def shm_block_ok_def shm_used_def)
next
  case False
  then show ?thesis by (auto simp: odp_shm_free_def Let_def not_less)
qed

lemma shm_reserve_no_name:
  assumes "shm_inv tbl"
  shows "odp_shm_reserve malloc tbl [] sz align flags = Some (ODP_SHM_INVALID, tbl)"
proof (rule shm_reserve_fail)
  show "flags AND ODP_SHM_PROC \<noteq> 0 \<or> find_block tbl [] \<noteq> None \<or>
        length tbl = ODP_CONFIG_SHM_BLOCKS \<and> (\<forall>b \<in> set tbl. shm_used b)"
  proof (cases "\<forall>b \<in> set tbl. shm_used b")
    case False
    then obtain i where "i < length tbl" "\<not> shm_used (tbl ! i)" by (auto simp: in_set_conv_nth)
    with assms have "sb_name (tbl ! i) = []" by (auto simp: shm_inv_def shm_block_ok_def)
    with \<open>i < length tbl\<close> show ?thesis by (auto simp: find_block_None)
  qed (use assms in \<open>simp add: shm_inv_def\<close>)
qed

lemmas shm_eval =
  malloc_ok_def find_block_def shm_used_def shm_zero_block_def Let_def

section \<open>Properties\<close>

text \<open>C28. For a name that is not empty and shorter than the limit, an alignment that is not 0, and a size that together with the
  alignment stays below \<open>2 ^ 32\<close>, where \<open>malloc\<close> returns null or memory that overlaps no block:
  \<open>odp_shm_reserve\<close> keeps the table invariant (every block in use lies, aligned,
  inside memory of its own that overlaps no other block), fails exactly when the
  block would be shared between processes, the name is taken, the table is full or
  \<open>malloc\<close> fails, and otherwise returns a handle that \<open>odp_shm_lookup\<close> finds under the
  name and whose information shows the requested size. An empty name is always refused, an alignment of 0 divides by zero,
  and a larger size is cut to 32 bits when the memory is allocated.\<close>

theorem shm_reserve_correct:
  assumes "shm_inv tbl" and "name \<noteq> []" and "length name < ODP_SHM_NAME_LEN"
    and "0 < unat align" and "unat sz + unat align < 2 ^ 32"
    and "malloc_ok tbl (ucast (sz + align)) (malloc (ucast (sz + align)))"
  shows "\<exists>h tbl'. odp_shm_reserve malloc tbl name sz align flags = Some (h, tbl') \<and> shm_inv tbl' \<and>
    (h = ODP_SHM_INVALID \<longleftrightarrow> flags AND ODP_SHM_PROC \<noteq> 0 \<or> find_block tbl name \<noteq> None \<or>
       (\<forall>b \<in> set tbl. shm_used b) \<or> malloc (ucast (sz + align)) = 0) \<and>
    (h \<noteq> ODP_SHM_INVALID \<longrightarrow>
       odp_shm_lookup tbl' name = h \<and> map_option si_size (odp_shm_info tbl' h) = Some sz)"
proof -
  let ?m = "malloc (ucast (sz + align))"
  obtain h tbl' where res: "odp_shm_reserve malloc tbl name sz align flags = Some (h, tbl')"
    and inv': "shm_inv tbl'" and len: "length tbl' = length tbl"
    and fail: "h = ODP_SHM_INVALID \<longleftrightarrow> flags AND ODP_SHM_PROC \<noteq> 0 \<or> find_block tbl name \<noteq> None \<or>
       (\<forall>b \<in> set tbl. shm_used b) \<or> ?m = 0"
    and succ: "h \<noteq> ODP_SHM_INVALID \<Longrightarrow> \<exists>i < length tbl. h = shm_to_handle (of_nat i) \<and>
       \<not> shm_used (tbl ! i) \<and> tbl' = tbl[i := shm_new_block ?m i name sz align flags]"
    by (rule shm_reserve_inv [where malloc = malloc and flags = flags, OF assms(1,2,4,5,6)]) blast
  have "odp_shm_lookup tbl' name = h \<and> map_option si_size (odp_shm_info tbl' h) = Some sz"
    if h: "h \<noteq> ODP_SHM_INVALID"
  proof -
    from succ [OF h] obtain i where i: "i < length tbl" "h = shm_to_handle (of_nat i)"
      and t: "tbl' = tbl[i := shm_new_block ?m i name sz align flags]" by blast
    have n: "unat (of_nat i :: u32) = i" "i < ODP_CONFIG_SHM_BLOCKS"
      using i(1) assms(1) shm_to_handle_valid(2) by (simp_all add: shm_inv_def)
    have "find_block tbl name = None" using fail h by blast
    then have other: "sb_name (tbl ! j) \<noteq> name" if "j < length tbl" for j
      using that by (simp add: find_block_None)
    have "find_block tbl' name = Some i"
      by (rule find_block_unique)
        (use i(1) t other assms(3) in \<open>auto simp: shm_new_block_def ODP_SHM_NAME_LEN_def\<close>)
    with i t n show ?thesis
      by (auto simp: odp_shm_lookup_def odp_shm_info_def shm_new_block_def Let_def)
  qed
  with res inv' fail show ?thesis by blast
qed

theorem shm_reserve_correct_witness:
  "\<exists>h tbl'. odp_shm_reserve (\<lambda>n. 4096) (replicate ODP_CONFIG_SHM_BLOCKS shm_zero_block) ''pool'' 100 64 0
       = Some (h, tbl') \<and> h \<noteq> ODP_SHM_INVALID \<and> odp_shm_lookup tbl' ''pool'' = h"
proof -
  let ?t = "replicate ODP_CONFIG_SHM_BLOCKS shm_zero_block"
  have "\<forall>b \<in> set ?t. sb_name b \<noteq> ''pool''" "\<not> (\<forall>b \<in> set ?t. shm_used b)"
    by (simp_all add: shm_eval ODP_CONFIG_SHM_BLOCKS_def)
  moreover have "malloc_ok ?t (ucast (100 + 64 :: u64)) ((\<lambda>n. 4096) (ucast (100 + 64 :: u64) :: u32))"
    by (simp add: shm_eval)
  ultimately show ?thesis
    using shm_reserve_correct [OF shm_init_inv, of "''pool''" 64 100 "\<lambda>n. 4096" 0]
    by (auto simp: ODP_SHM_NAME_LEN_def find_block_None)
qed

text \<open>\<open>odp_shm_free\<close> of the handle of a block in use gives its memory back to the
  allocator exactly once, empties that block and no other, and keeps the invariant.\<close>

lemma shm_free_correct:
  assumes "shm_inv tbl" and "i < length tbl" and "shm_used (tbl ! i)"
  shows "\<exists>tbl'. odp_shm_free tbl (sb_hdl (tbl ! i)) = Some (0, Some (sb_addr_orig (tbl ! i)), tbl') \<and>
    shm_inv tbl' \<and> (\<forall>j. j \<noteq> i \<longrightarrow> tbl' ! j = tbl ! j) \<and>
    odp_shm_addr tbl' (sb_hdl (tbl ! i)) = 0 \<and>
    odp_shm_free tbl' (sb_hdl (tbl ! i)) = Some (0, None, tbl')"
proof -
  have l: "i < ODP_CONFIG_SHM_BLOCKS" and b: "sb_hdl (tbl ! i) = shm_to_handle (of_nat i)"
    "sb_flags (tbl ! i) AND ODP_SHM_PROC = 0"
    using assms by (auto simp: shm_inv_def shm_block_ok_def)
  have "shm_inv (tbl[i := shm_zero_block])"
    by (rule shm_inv_update [OF assms(1,2)]) (simp_all add: shm_block_ok_def shm_used_def shm_zero_block_def)
  with assms(2,3) b l shm_to_handle_valid [OF l] show ?thesis
    by (auto simp: odp_shm_free_def odp_shm_addr_def Let_def shm_used_def shm_zero_block_def)
qed

end
