(* ===== verification/Odp_Types.thy ===== *)
theory Odp_Types
  imports Odp_Buffer_Ring Odp_Shm
begin

text \<open>
  The data structures shared by the pool, packet, queue and timer components:
  buffer and packet headers (\<open>include/odp_buffer_internal.h\<close>,
  \<open>include/odp_packet_internal.h\<close>) and pool entries (\<open>include/odp_pool_internal.h\<close>).
  A header is identified by its address; the null pointer is \<open>0\<close>. A packet header
  extends a buffer header, as the embedded first member does in C. Bit fields are
  booleans, so a union with an \<open>all\<close> member is zero when every flag is false. Not
  represented: the lock words (a locked section is one step), the crypto result of
  a packet, which \<open>Odp_Crypto\<close> keeps by packet, and the empty array of sub-packets. The array \<open>sync\<close> that shares its memory with the
  target and the link of a header is represented as far as it is visible in other places: the link is the upper half of
  its first counter after a dequeue (\<open>queue_assign_order\<close>), and the counters the scheduler copies from the one event it
  takes from an ordered queue are those that the queue has just given out. Its effect on the target is not
  represented: the target of an event is written by \<open>reorder_enq\<close> before it is read.
\<close>

section \<open>Event types\<close>

definition ODP_EVENT_BUFFER :: int where "ODP_EVENT_BUFFER = 1"
definition ODP_EVENT_PACKET :: int where "ODP_EVENT_PACKET = 2"
definition ODP_EVENT_TIMEOUT :: int where "ODP_EVENT_TIMEOUT = 3"
abbreviation ODP_POOL_BUFFER :: int where "ODP_POOL_BUFFER \<equiv> ODP_EVENT_BUFFER"
abbreviation ODP_POOL_PACKET :: int where "ODP_POOL_PACKET \<equiv> ODP_EVENT_PACKET"
abbreviation ODP_POOL_TIMEOUT :: int where "ODP_POOL_TIMEOUT \<equiv> ODP_EVENT_TIMEOUT"

lemmas event_types = ODP_EVENT_BUFFER_def ODP_EVENT_PACKET_def ODP_EVENT_TIMEOUT_def

section \<open>Buffer headers\<close>

text \<open>A pool is identified by its index in the pool table, a queue by its index in
  the queue table; \<open>None\<close> is the null pointer.\<close>

record odp_buffer_hdr_t =
  bh_next :: u32
  bh_zeroized :: bool
  bh_hdrdata :: bool
  bh_sustain :: bool
  bh_type :: int
  bh_event_type :: int
  bh_size :: u16
  bh_uarea_addr :: u32
  bh_pool_hdl :: "nat option"
  bh_buf_ctx :: u32
  bh_addr :: u32
  bh_origin_qe :: "nat option"
  bh_ref_count :: u32
  bh_order :: u64
  bh_target_qe :: "nat option"
  bh_link :: u32

section \<open>Packet headers\<close>

record input_flags_t =
  if_parsed_l2 :: bool
  if_parsed_all :: bool
  if_l2 :: bool
  if_l3 :: bool
  if_l4 :: bool
  if_eth :: bool
  if_jumbo :: bool
  if_vlan :: bool
  if_vlan_qinq :: bool
  if_snap :: bool
  if_arp :: bool
  if_ipv4 :: bool
  if_ipv6 :: bool
  if_ipfrag :: bool
  if_ipopt :: bool
  if_ipsec :: bool
  if_udp :: bool
  if_tcp :: bool
  if_tcpopt :: bool
  if_sctp :: bool
  if_icmp :: bool

definition input_flags_zero :: input_flags_t where
  "input_flags_zero = \<lparr>if_parsed_l2 = False, if_parsed_all = False, if_l2 = False, if_l3 = False,
     if_l4 = False, if_eth = False, if_jumbo = False, if_vlan = False, if_vlan_qinq = False,
     if_snap = False, if_arp = False, if_ipv4 = False, if_ipv6 = False, if_ipfrag = False,
     if_ipopt = False, if_ipsec = False, if_udp = False, if_tcp = False, if_tcpopt = False,
     if_sctp = False, if_icmp = False\<rparr>"

record error_flags_t =
  ef_app_error :: bool
  ef_frame_len :: bool
  ef_snap_len :: bool
  ef_l2_chksum :: bool
  ef_ip_err :: bool
  ef_tcp_err :: bool
  ef_udp_err :: bool

definition error_flags_zero :: error_flags_t where
  "error_flags_zero = \<lparr>ef_app_error = False, ef_frame_len = False, ef_snap_len = False,
     ef_l2_chksum = False, ef_ip_err = False, ef_tcp_err = False, ef_udp_err = False\<rparr>"

record output_flags_t =
  of_l3_chksum_set :: bool
  of_l3_chksum :: bool
  of_l4_chksum_set :: bool
  of_l4_chksum :: bool

definition output_flags_zero :: output_flags_t where
  "output_flags_zero = \<lparr>of_l3_chksum_set = False, of_l3_chksum = False,
     of_l4_chksum_set = False, of_l4_chksum = False\<rparr>"

record odp_packet_hdr_t = odp_buffer_hdr_t +
  ph_input_flags :: input_flags_t
  ph_error_flags :: error_flags_t
  ph_output_flags :: output_flags_t
  ph_l2_offset :: u16
  ph_vlan_s_tag :: u16
  ph_vlan_c_tag :: u16
  ph_l3_offset :: u16
  ph_l3_protocol :: u16
  ph_l4_offset :: u16
  ph_l4_protocol :: u16
  ph_payload_offset :: u16
  ph_frame_len :: u16
  ph_headroom :: u16
  ph_tailroom :: u16
  ph_input :: u32
  ph_has_hash :: bool
  ph_nofree :: u32
  ph_flow_hash :: u32

section \<open>Pools\<close>

text \<open>The members of the union in \<open>odp_pool_param_t\<close> overlap: \<open>pp_size\<close> is
  \<open>buf.size\<close> and \<open>pkt.len\<close>, \<open>pp_align\<close> is \<open>buf.align\<close> and \<open>pkt.seg_len\<close>.\<close>

record odp_pool_param_t =
  pp_type :: int
  pp_num :: u32
  pp_size :: u32
  pp_align :: u32
  pp_uarea_size :: u32

record pool_entry_s =
  pl_name :: string
  pl_params :: odp_pool_param_t
  pl_udata_size :: u32
  pl_pool_id :: u32
  pl_pool_shm :: u32
  pl_has_name :: bool
  pl_user_supplied_shm :: bool
  pl_unsegmented :: bool
  pl_zeroized :: bool
  pl_predefined :: bool
  pl_quiesced :: u32
  pl_low_wm_assert :: u32
  pl_pool_base_addr :: u32
  pl_pool_mdata_addr :: u32
  pl_pool_size :: u32
  pl_buf_align :: u32
  pl_buf_stride :: u32
  pl_ring :: "u32 odp_buffer_ring_t"
  pl_blk_freelist :: u32
  pl_blkcount :: u32
  pl_buf_num :: u32
  pl_seg_size :: u32
  pl_blk_size :: u32
  pl_high_wm :: u32
  pl_low_wm :: u32
  pl_headroom :: u32
  pl_tailroom :: u32

text \<open>The memory the components work on: the headers by address, and the bytes.\<close>

record odp_mem =
  om_hdr :: "u32 \<Rightarrow> odp_packet_hdr_t"
  om_byte :: "u32 \<Rightarrow> u8"

definition upd_hdr :: "u32 \<Rightarrow> (odp_packet_hdr_t \<Rightarrow> odp_packet_hdr_t) \<Rightarrow> odp_mem \<Rightarrow> odp_mem" where
  "upd_hdr a f m = m\<lparr>om_hdr := (om_hdr m)(a := f (om_hdr m a))\<rparr>"

definition next_ptr :: "odp_mem \<Rightarrow> u32 \<Rightarrow> u32 option" where
  "next_ptr m a = (if bh_next (om_hdr m a) = 0 then None else Some (bh_next (om_hdr m a)))"

text \<open>Reading and writing \<open>n\<close> consecutive bytes (addresses wrap at 32 bits).\<close>

definition read_bytes :: "(u32 \<Rightarrow> u8) \<Rightarrow> u32 \<Rightarrow> nat \<Rightarrow> u8 list" where
  "read_bytes mem a n = map (\<lambda>i. mem (a + of_nat i)) [0..<n]"

fun write_bytes :: "(u32 \<Rightarrow> u8) \<Rightarrow> u32 \<Rightarrow> u8 list \<Rightarrow> (u32 \<Rightarrow> u8)" where
  "write_bytes mem a [] = mem"
| "write_bytes mem a (b # bs) = write_bytes (mem(a := b)) (a + 1) bs"

lemma length_read_bytes [simp]: "length (read_bytes mem a n) = n"
  by (simp add: read_bytes_def)

lemma write_bytes_nth:
  assumes "length bs \<le> 2 ^ 32"
  shows "write_bytes mem a bs x =
           (if unat (x - a) < length bs then bs ! unat (x - a) else mem x)"
  using assms
proof (induction bs arbitrary: mem a)
  case Nil
  then show ?case by simp
next
  case (Cons b bs)
  show ?case
  proof (cases "x = a")
    case True
    have "x - (a + 1) = - 1" using True by simp
    then have "unat (x - (a + 1)) = 2 ^ 32 - 1"
      by (simp only:) (simp add: unsigned_minus_1_eq_mask mask_eq_exp_minus_1)
    with Cons True show ?thesis by simp
  next
    case False
    then have "x - a \<noteq> 0" by simp
    then have pos: "0 < unat (x - a)" by (simp add: unat_gt_0)
    have "unat (x - (a + 1)) = unat (x - a - 1)" by (simp add: algebra_simps)
    also have "\<dots> = unat (x - a) - 1" using pos by (subst unat_sub_small) auto
    finally obtain k where "unat (x - a) = Suc k" "unat (x - (a + 1)) = k"
      using pos by (metis Suc_pred One_nat_def)
    with Cons False show ?thesis by simp
  qed
qed

lemma read_write_bytes:
  assumes "length bs \<le> 2 ^ 32"
  shows "read_bytes (write_bytes mem a bs) a (length bs) = bs"
proof (rule nth_equalityI)
  fix i assume "i < length (read_bytes (write_bytes mem a bs) a (length bs))"
  then have i: "i < length bs" by simp
  then have "unat (of_nat i :: u32) = i" using assms by (simp add: unat_of_nat_small)
  with i assms show "read_bytes (write_bytes mem a bs) a (length bs) ! i = bs ! i"
    by (simp add: read_bytes_def write_bytes_nth)
qed simp


text \<open>Ranges of bytes that do not reach the end of the address space.\<close>

lemma write_bytes_frame:
  assumes "unat a + length bs \<le> 2 ^ 32" "unat x \<notin> {unat a ..< unat a + length bs}"
  shows "write_bytes mem a bs x = mem x"
proof -
  have l: "length bs \<le> 2 ^ 32" using assms(1) by simp
  have "length bs \<le> unat (x - a)"
  proof (cases "unat a \<le> unat x")
    case True
    then show ?thesis using assms(2) by (subst unat_sub_small) auto
  next
    case False
    then show ?thesis using assms(1) u32_bound [of x] by (subst unat_sub_wrap) auto
  qed
  then show ?thesis using write_bytes_nth [OF l] by simp
qed

lemma read_bytes_cong:
  assumes "unat a + n \<le> 2 ^ 32" "\<And>x. unat x \<in> {unat a ..< unat a + n} \<Longrightarrow> mem' x = mem x"
  shows "read_bytes mem' a n = read_bytes mem a n"
proof -
  have "mem' (a + of_nat k) = mem (a + of_nat k)" if "k < n" for k
  proof (rule assms(2))
    have "unat (of_nat k :: u32) = k" using that assms(1) by (intro unat_of_nat_small) simp
    then have "unat (a + of_nat k) = unat a + k"
      using that assms(1) by (subst unat_add_small) simp_all
    with that show "unat (a + of_nat k) \<in> {unat a ..< unat a + n}" by simp
  qed
  then show ?thesis by (simp add: read_bytes_def)
qed

lemma read_write_disjoint:
  assumes "unat a + length bs \<le> 2 ^ 32" "unat b + n \<le> 2 ^ 32"
    and "{unat a ..< unat a + length bs} \<inter> {unat b ..< unat b + n} = {}"
  shows "read_bytes (write_bytes mem a bs) b n = read_bytes mem b n"
  using assms(3) by (intro read_bytes_cong [OF assms(2)] write_bytes_frame [OF assms(1)]) auto

lemma read_bytes_append:
  "read_bytes mem a (m + n) = read_bytes mem a m @ read_bytes mem (a + of_nat m) n"
proof -
  have "read_bytes mem a (m + n) = map (\<lambda>i. mem (a + of_nat i)) ([0..<m] @ [m..<m + n])"
    unfolding read_bytes_def by (simp only: upt_add_eq_append [OF le0])
  moreover have "map (\<lambda>i. mem (a + of_nat i)) [m..<m + n] = map (\<lambda>i. mem (a + of_nat m + of_nat i)) [0..<n]"
    by (rule nth_equalityI) (simp_all add: add.assoc)
  ultimately show ?thesis by (simp add: read_bytes_def)
qed

lemma write_read_same: "n \<le> 2 ^ 32 \<Longrightarrow> write_bytes mem a (read_bytes mem a n) = mem"
proof
  fix x assume n: "n \<le> 2 ^ 32"
  then show "write_bytes mem a (read_bytes mem a n) x = mem x"
    by (simp add: write_bytes_nth read_bytes_def)
qed

lemma write_write_same:
  "length xs = length ys \<Longrightarrow> length ys \<le> 2 ^ 32 \<Longrightarrow> write_bytes (write_bytes mem a xs) a ys = write_bytes mem a ys"
  by (rule ext) (simp add: write_bytes_nth)

lemma write_write_commute:
  assumes "unat a + length xs \<le> 2 ^ 32" "unat b + length ys \<le> 2 ^ 32"
    and "{unat a ..< unat a + length xs} \<inter> {unat b ..< unat b + length ys} = {}"
  shows "write_bytes (write_bytes mem a xs) b ys = write_bytes (write_bytes mem b ys) a xs"
proof
  fix x
  have l: "length xs \<le> 2 ^ 32" "length ys \<le> 2 ^ 32" using assms(1,2) by simp_all
  show "write_bytes (write_bytes mem a xs) b ys x = write_bytes (write_bytes mem b ys) a xs x"
  proof (cases "unat x \<in> {unat a ..< unat a + length xs}")
    case True
    then have "unat x \<notin> {unat b ..< unat b + length ys}" using assms(3) by blast
    then have "write_bytes (write_bytes mem a xs) b ys x = write_bytes mem a xs x"
      "write_bytes mem b ys x = mem x" by (rule write_bytes_frame [OF assms(2)])+
    then show ?thesis by (simp add: write_bytes_nth [OF l(1)])
  next
    case False
    then have "write_bytes (write_bytes mem b ys) a xs x = write_bytes mem b ys x"
      "write_bytes mem a xs x = mem x" by (rule write_bytes_frame [OF assms(1)])+
    then show ?thesis by (simp add: write_bytes_nth [OF l(2)])
  qed
qed

end
