(* ===== verification/Odp_Packet_Hdr.thy ===== *)
theory Odp_Packet_Hdr
  imports Odp_Types
begin

text \<open>
  Packet headers (\<open>platform/mppa/odp_packet.c\<close>, \<open>include/odp_packet_internal.h\<close>,
  \<open>include/odp_buffer_inlines.h\<close>): the head and tail operations, the mapping of an
  offset to an address, initialisation and the copies in and out of a packet. The
  operations refine a window that moves inside the packet's buffer.
\<close>

section \<open>Buffer inlines\<close>

definition odp_buffer_incr_refcount :: "odp_packet_hdr_t \<Rightarrow> u32 \<Rightarrow> u32 \<times> odp_packet_hdr_t" where
  "odp_buffer_incr_refcount buf val =
     (bh_ref_count buf + val, buf\<lparr>bh_ref_count := bh_ref_count buf + val\<rparr>)"

definition odp_buffer_decr_refcount :: "odp_packet_hdr_t \<Rightarrow> u32 \<Rightarrow> u32 \<times> odp_packet_hdr_t" where
  "odp_buffer_decr_refcount buf val =
     (let tmp = bh_ref_count buf; buf1 = buf\<lparr>bh_ref_count := tmp - val\<rparr>
      in if tmp < val then (0, buf1\<lparr>bh_ref_count := bh_ref_count buf1 + (val - tmp)\<rparr>)
         else (tmp - val, buf1))"

text \<open>The address of an offset in a buffer and the bytes from there to the end of the
  segment, where \<open>limit\<close> is the end of the data.\<close>

definition buffer_map :: "odp_packet_hdr_t \<Rightarrow> u32 \<Rightarrow> u32 \<Rightarrow> u32 \<times> u32" where
  "buffer_map buf offset limit =
     (let seg_offset = offset; buf_size = ucast (bh_size buf); buf_left = limit - offset
      in (seg_offset + bh_addr buf,
          if seg_offset + buf_left \<le> buf_size then buf_left else buf_size - seg_offset))"

section \<open>Mapping an offset, and the head and tail operations\<close>

text \<open>A null result leaves the segment length untouched (\<open>None\<close>).\<close>

definition packet_map :: "odp_packet_hdr_t \<Rightarrow> u32 \<Rightarrow> u32 \<times> u32 option" where
  "packet_map h offset =
     (if offset > ucast (ph_frame_len h) then (0, None)
      else let (addr, seglen) = buffer_map h (ucast (ph_headroom h) + offset)
                                  (ucast (ph_headroom h) + ucast (ph_frame_len h))
           in (addr, Some seglen))"

definition push_head :: "odp_packet_hdr_t \<Rightarrow> u32 \<Rightarrow> odp_packet_hdr_t" where
  "push_head h len = h\<lparr>ph_headroom := ph_headroom h - ucast len,
                       ph_frame_len := ph_frame_len h + ucast len\<rparr>"

definition pull_head :: "odp_packet_hdr_t \<Rightarrow> u32 \<Rightarrow> odp_packet_hdr_t" where
  "pull_head h len = h\<lparr>ph_headroom := ph_headroom h + ucast len,
                       ph_frame_len := ph_frame_len h - ucast len\<rparr>"

definition push_tail :: "odp_packet_hdr_t \<Rightarrow> u32 \<Rightarrow> odp_packet_hdr_t" where
  "push_tail h len = h\<lparr>ph_tailroom := ph_tailroom h - ucast len,
                       ph_frame_len := ph_frame_len h + ucast len\<rparr>"

definition pull_tail :: "odp_packet_hdr_t \<Rightarrow> u32 \<Rightarrow> odp_packet_hdr_t" where
  "pull_tail h len = h\<lparr>ph_tailroom := ph_tailroom h + ucast len,
                       ph_frame_len := ph_frame_len h - ucast len\<rparr>"

definition odp_packet_head :: "odp_packet_hdr_t \<Rightarrow> u32" where
  "odp_packet_head h = fst (buffer_map h 0 0)"

definition odp_packet_buf_len :: "odp_packet_hdr_t \<Rightarrow> u32" where
  "odp_packet_buf_len h = ucast (bh_size h)"

definition odp_packet_data :: "odp_packet_hdr_t \<Rightarrow> u32" where
  "odp_packet_data h = fst (packet_map h 0)"

definition odp_packet_seg_len :: "odp_packet_hdr_t \<Rightarrow> u32 option" where
  "odp_packet_seg_len h = snd (packet_map h 0)"

definition odp_packet_len :: "odp_packet_hdr_t \<Rightarrow> u32" where
  "odp_packet_len h = ucast (ph_frame_len h)"

definition odp_packet_headroom :: "odp_packet_hdr_t \<Rightarrow> u32" where
  "odp_packet_headroom h = ucast (ph_headroom h)"

definition odp_packet_tailroom :: "odp_packet_hdr_t \<Rightarrow> u32" where
  "odp_packet_tailroom h = ucast (ph_tailroom h)"

definition odp_packet_tail :: "odp_packet_hdr_t \<Rightarrow> u32" where
  "odp_packet_tail h = fst (packet_map h (ucast (ph_frame_len h)))"

definition odp_packet_push_head :: "odp_packet_hdr_t \<Rightarrow> u32 \<Rightarrow> u32 \<times> odp_packet_hdr_t" where
  "odp_packet_push_head h len =
     (if len > ucast (ph_headroom h) then (0, h)
      else let h' = push_head h len in (fst (packet_map h' 0), h'))"

definition odp_packet_pull_head :: "odp_packet_hdr_t \<Rightarrow> u32 \<Rightarrow> u32 \<times> odp_packet_hdr_t" where
  "odp_packet_pull_head h len =
     (if len > ucast (ph_frame_len h) then (0, h)
      else let h' = pull_head h len in (fst (packet_map h' 0), h'))"

definition odp_packet_push_tail :: "odp_packet_hdr_t \<Rightarrow> u32 \<Rightarrow> u32 \<times> odp_packet_hdr_t" where
  "odp_packet_push_tail h len =
     (let origin = ucast (ph_frame_len h) in
      if len > ucast (ph_tailroom h) then (0, h)
      else let h' = push_tail h len in (fst (packet_map h' origin), h'))"

definition odp_packet_pull_tail :: "odp_packet_hdr_t \<Rightarrow> u32 \<Rightarrow> u32 \<times> odp_packet_hdr_t" where
  "odp_packet_pull_tail h len =
     (if len > ucast (ph_frame_len h) then (0, h)
      else let h' = pull_tail h len in (fst (packet_map h' (ucast (ph_frame_len h'))), h'))"

definition odp_packet_offset :: "odp_packet_hdr_t \<Rightarrow> u32 \<Rightarrow> u32 \<times> u32 option" where
  "odp_packet_offset h offset = packet_map h offset"

definition odp_packet_seg_buf_addr :: "odp_packet_hdr_t \<Rightarrow> u32" where
  "odp_packet_seg_buf_addr h =
     fst (buffer_map h 0 (ucast (ph_headroom h) + ucast (ph_frame_len h)))"

definition odp_packet_seg_data :: "odp_packet_hdr_t \<Rightarrow> u32" where
  "odp_packet_seg_data h =
     fst (buffer_map h (ucast (ph_headroom h)) (ucast (ph_headroom h) + ucast (ph_frame_len h)))"

definition odp_packet_seg_data_len :: "odp_packet_hdr_t \<Rightarrow> u32" where
  "odp_packet_seg_data_len h =
     snd (buffer_map h (ucast (ph_headroom h)) (ucast (ph_headroom h) + ucast (ph_frame_len h)))"

definition odp_packet_l2_offset_set :: "odp_packet_hdr_t \<Rightarrow> u32 \<Rightarrow> int \<times> odp_packet_hdr_t" where
  "odp_packet_l2_offset_set h offset =
     (if offset \<ge> ucast (ph_frame_len h) then (- 1, h)
      else (0, h\<lparr>ph_l2_offset := ucast offset\<rparr>))"

definition odp_packet_flow_hash_set :: "odp_packet_hdr_t \<Rightarrow> u32 \<Rightarrow> odp_packet_hdr_t" where
  "odp_packet_flow_hash_set h flow_hash = h\<lparr>ph_flow_hash := flow_hash, ph_has_hash := True\<rparr>"

section \<open>Initialisation\<close>

definition ODP_PACKET_OFFSET_INVALID :: u16 where "ODP_PACKET_OFFSET_INVALID = 0xffff"

definition packet_parse_disable :: "odp_packet_hdr_t \<Rightarrow> odp_packet_hdr_t" where
  "packet_parse_disable h =
     h\<lparr>ph_input_flags := (ph_input_flags h)\<lparr>if_parsed_l2 := True, if_parsed_all := True\<rparr>\<rparr>"

definition packet_parse_reset :: "odp_packet_hdr_t \<Rightarrow> odp_packet_hdr_t" where
  "packet_parse_reset h =
     h\<lparr>ph_error_flags := error_flags_zero, ph_input_flags := input_flags_zero,
       ph_output_flags := output_flags_zero, ph_l2_offset := 0,
       ph_l3_offset := ODP_PACKET_OFFSET_INVALID, ph_l4_offset := ODP_PACKET_OFFSET_INVALID,
       ph_payload_offset := ODP_PACKET_OFFSET_INVALID, ph_vlan_s_tag := 0, ph_vlan_c_tag := 0,
       ph_l3_protocol := 0, ph_l4_protocol := 0\<rparr>"

text \<open>The metadata after the buffer header is cleared first.\<close>

definition packet_meta_clear :: "odp_packet_hdr_t \<Rightarrow> odp_packet_hdr_t" where
  "packet_meta_clear h =
     h\<lparr>ph_input_flags := input_flags_zero, ph_error_flags := error_flags_zero,
       ph_output_flags := output_flags_zero, ph_l2_offset := 0, ph_vlan_s_tag := 0,
       ph_vlan_c_tag := 0, ph_l3_offset := 0, ph_l3_protocol := 0, ph_l4_offset := 0,
       ph_l4_protocol := 0, ph_payload_offset := 0, ph_frame_len := 0, ph_headroom := 0,
       ph_tailroom := 0, ph_input := 0, ph_has_hash := False, ph_nofree := 0, ph_flow_hash := 0\<rparr>"

definition packet_init_hdr :: "pool_entry_s \<Rightarrow> odp_packet_hdr_t \<Rightarrow> u32 \<Rightarrow> bool \<Rightarrow> odp_packet_hdr_t" where
  "packet_init_hdr pool h sz parse =
     (let h = packet_meta_clear h;
          h = h\<lparr>ph_l2_offset := ODP_PACKET_OFFSET_INVALID, ph_l3_offset := ODP_PACKET_OFFSET_INVALID,
                ph_l4_offset := ODP_PACKET_OFFSET_INVALID,
                ph_payload_offset := ODP_PACKET_OFFSET_INVALID, ph_nofree := 0\<rparr>;
          h = (if \<not> parse then packet_parse_disable h else h)
      in h\<lparr>ph_frame_len := ucast sz, ph_headroom := ucast (pl_headroom pool),
           ph_tailroom := ucast (pl_seg_size pool - (pl_headroom pool + sz))\<rparr>)"

text \<open>The 16 bytes of the MPPA header in front of the data are cleared as well.\<close>

definition packet_init :: "pool_entry_s \<Rightarrow> odp_mem \<Rightarrow> u32 \<Rightarrow> u32 \<Rightarrow> bool \<Rightarrow> odp_mem" where
  "packet_init pool m pkt sz parse =
     (let m = upd_hdr pkt (\<lambda>h. packet_init_hdr pool h sz parse) m;
          h = om_hdr m pkt
      in m\<lparr>om_byte := write_bytes (om_byte m) (bh_addr h + ucast (ph_headroom h) - 16)
                        (replicate 16 0)\<rparr>)"

definition odp_packet_reset :: "pool_entry_s \<Rightarrow> odp_mem \<Rightarrow> u32 \<Rightarrow> u32 \<Rightarrow> int \<times> odp_mem" where
  "odp_packet_reset pool m pkt len =
     (let totsize = pl_headroom pool + len + pl_tailroom pool in
      if totsize > ucast (bh_size (om_hdr m pkt)) then (- 1, m)
      else (0, packet_init pool m pkt len False))"

section \<open>Copies in and out of a packet\<close>

text \<open>The loops keep the previous segment length when \<open>packet_map\<close> leaves it untouched;
  a loop that never ends is \<open>None\<close>.\<close>

partial_function (option) copydata_out_loop ::
  "(u32 \<Rightarrow> u8) \<Rightarrow> odp_packet_hdr_t \<Rightarrow> u32 \<Rightarrow> u32 \<Rightarrow> u32 \<Rightarrow> u8 list \<Rightarrow> u8 list option" where
  "copydata_out_loop mem h offset len seglen dst =
     (if len = 0 then Some dst
      else let (mapaddr, sl) = packet_map h offset;
               seglen = (case sl of None \<Rightarrow> seglen | Some s \<Rightarrow> s);
               cpylen = (if len > seglen then seglen else len)
           in copydata_out_loop mem h (offset + cpylen) (len - cpylen) seglen
                (dst @ read_bytes mem mapaddr (unat cpylen)))"

definition odp_packet_copydata_out ::
  "(u32 \<Rightarrow> u8) \<Rightarrow> odp_packet_hdr_t \<Rightarrow> u32 \<Rightarrow> u32 \<Rightarrow> (int \<times> u8 list) option" where
  "odp_packet_copydata_out mem h offset len =
     (if offset + len > ucast (ph_frame_len h) then Some (- 1, [])
      else map_option (\<lambda>dst. (0, dst)) (copydata_out_loop mem h offset len 0 []))"

partial_function (option) copydata_in_loop ::
  "(u32 \<Rightarrow> u8) \<Rightarrow> odp_packet_hdr_t \<Rightarrow> u32 \<Rightarrow> u32 \<Rightarrow> u32 \<Rightarrow> u8 list \<Rightarrow> (u32 \<Rightarrow> u8) option" where
  "copydata_in_loop mem h offset len seglen src =
     (if len = 0 then Some mem
      else let (mapaddr, sl) = packet_map h offset;
               seglen = (case sl of None \<Rightarrow> seglen | Some s \<Rightarrow> s);
               cpylen = (if len > seglen then seglen else len)
           in copydata_in_loop (write_bytes mem mapaddr (take (unat cpylen) src)) h
                (offset + cpylen) (len - cpylen) seglen (drop (unat cpylen) src))"

definition odp_packet_copydata_in ::
  "(u32 \<Rightarrow> u8) \<Rightarrow> odp_packet_hdr_t \<Rightarrow> u32 \<Rightarrow> u32 \<Rightarrow> u8 list \<Rightarrow> (int \<times> (u32 \<Rightarrow> u8)) option" where
  "odp_packet_copydata_in mem h offset len src =
     (if offset + len > ucast (ph_frame_len h) then Some (- 1, mem)
      else map_option (\<lambda>mem'. (0, mem')) (copydata_in_loop mem h offset len 0 src))"

partial_function (option) copy_to_packet_loop ::
  "(u32 \<Rightarrow> u8) \<Rightarrow> odp_packet_hdr_t \<Rightarrow> u32 \<Rightarrow> odp_packet_hdr_t \<Rightarrow> u32 \<Rightarrow> u32 \<Rightarrow> u32 \<Rightarrow> u32 \<Rightarrow>
   (u32 \<Rightarrow> u8) option" where
  "copy_to_packet_loop mem src srcoffset dst dstoffset len srcseg dstseg =
     (if len = 0 then Some mem
      else let (srcmap, sl) = packet_map src srcoffset;
               (dstmap, dl) = packet_map dst dstoffset;
               srcseg = (case sl of None \<Rightarrow> srcseg | Some s \<Rightarrow> s);
               dstseg = (case dl of None \<Rightarrow> dstseg | Some s \<Rightarrow> s);
               minseg = (if dstseg > srcseg then srcseg else dstseg);
               cpylen = (if len > minseg then minseg else len)
           in copy_to_packet_loop (write_bytes mem dstmap (read_bytes mem srcmap (unat cpylen)))
                src (srcoffset + cpylen) dst (dstoffset + cpylen) (len - cpylen) srcseg dstseg)"

definition odp_packet_copy_to_packet ::
  "(u32 \<Rightarrow> u8) \<Rightarrow> odp_packet_hdr_t \<Rightarrow> u32 \<Rightarrow> odp_packet_hdr_t \<Rightarrow> u32 \<Rightarrow> u32 \<Rightarrow> (int \<times> (u32 \<Rightarrow> u8)) option"
  where
  "odp_packet_copy_to_packet mem src srcoffset dst dstoffset len =
     (if srcoffset + len > ucast (ph_frame_len src) \<or> dstoffset + len > ucast (ph_frame_len dst)
      then Some (- 1, mem)
      else map_option (\<lambda>mem'. (0, mem'))
             (copy_to_packet_loop mem src srcoffset dst dstoffset len 0 0))"

definition copy_packet_parser_metadata ::
  "odp_packet_hdr_t \<Rightarrow> odp_packet_hdr_t \<Rightarrow> odp_packet_hdr_t" where
  "copy_packet_parser_metadata src_hdr dst_hdr =
     dst_hdr\<lparr>ph_input_flags := ph_input_flags src_hdr, ph_error_flags := ph_error_flags src_hdr,
             ph_output_flags := ph_output_flags src_hdr, ph_l2_offset := ph_l2_offset src_hdr,
             ph_l3_offset := ph_l3_offset src_hdr, ph_l4_offset := ph_l4_offset src_hdr,
             ph_payload_offset := ph_payload_offset src_hdr,
             ph_l4_protocol := ph_l4_protocol src_hdr\<rparr>"

text \<open>The user area sizes of the two pools are truncated to 16 bits.\<close>

definition odp_packet_copy_md_to_packet ::
  "odp_mem \<Rightarrow> u32 \<Rightarrow> u32 \<Rightarrow> u32 \<Rightarrow> u32 \<Rightarrow> odp_mem" where
  "odp_packet_copy_md_to_packet m src_udata dst_udata src dst =
     (let s = om_hdr m src; d = om_hdr m dst;
          src_size = (ucast src_udata :: u16); dst_size = (ucast dst_udata :: u16);
          n = (if dst_size \<le> src_size then dst_size else src_size);
          bytes = (if bh_uarea_addr d \<noteq> 0 \<and> bh_uarea_addr s \<noteq> 0
                   then write_bytes (om_byte m) (bh_uarea_addr d)
                          (read_bytes (om_byte m) (bh_uarea_addr s) (unat n))
                   else om_byte m)
      in upd_hdr dst (\<lambda>d. copy_packet_parser_metadata s
           (d\<lparr>ph_input := ph_input s, bh_buf_ctx := bh_buf_ctx s, bh_ref_count := bh_ref_count s\<rparr>))
           (m\<lparr>om_byte := bytes\<rparr>))"

section \<open>The window of a packet\<close>

text \<open>The specification: a window of \<open>len\<close> bytes at \<open>start\<close> inside \<open>cap\<close> bytes. A step
  gives the offset of the pointer it returns, or nothing when it fails, and fails
  exactly when the window would leave the buffer.\<close>

datatype pkt_op = Push_head u32 | Pull_head u32 | Push_tail u32 | Pull_tail u32

record window =
  w_start :: nat
  w_len :: nat
  w_cap :: nat

fun window_step :: "pkt_op \<Rightarrow> window \<Rightarrow> nat option \<times> window" where
  "window_step (Push_head n) w =
     (if unat n \<le> w_start w
      then (Some (w_start w - unat n), w\<lparr>w_start := w_start w - unat n, w_len := w_len w + unat n\<rparr>)
      else (None, w))"
| "window_step (Pull_head n) w =
     (if unat n \<le> w_len w
      then (Some (w_start w + unat n), w\<lparr>w_start := w_start w + unat n, w_len := w_len w - unat n\<rparr>)
      else (None, w))"
| "window_step (Push_tail n) w =
     (if w_start w + w_len w + unat n \<le> w_cap w
      then (Some (w_start w + w_len w), w\<lparr>w_len := w_len w + unat n\<rparr>)
      else (None, w))"
| "window_step (Pull_tail n) w =
     (if unat n \<le> w_len w
      then (Some (w_start w + w_len w - unat n), w\<lparr>w_len := w_len w - unat n\<rparr>)
      else (None, w))"

fun pkt_step :: "pkt_op \<Rightarrow> odp_packet_hdr_t \<Rightarrow> u32 \<times> odp_packet_hdr_t" where
  "pkt_step (Push_head n) h = odp_packet_push_head h n"
| "pkt_step (Pull_head n) h = odp_packet_pull_head h n"
| "pkt_step (Push_tail n) h = odp_packet_push_tail h n"
| "pkt_step (Pull_tail n) h = odp_packet_pull_tail h n"

fun steps :: "('o \<Rightarrow> 's \<Rightarrow> 'r \<times> 's) \<Rightarrow> 'o list \<Rightarrow> 's \<Rightarrow> 'r list \<times> 's" where
  "steps f [] s = ([], s)"
| "steps f (x # xs) s = (let (r, s1) = f x s; (rs, s2) = steps f xs s1 in (r # rs, s2))"

definition pkt_window :: "odp_packet_hdr_t \<Rightarrow> window" where
  "pkt_window h = \<lparr>w_start = unat (ph_headroom h), w_len = unat (ph_frame_len h),
                   w_cap = unat (bh_size h)\<rparr>"

definition pkt_wf :: "odp_packet_hdr_t \<Rightarrow> bool" where
  "pkt_wf h \<longleftrightarrow>
     unat (ph_headroom h) + unat (ph_frame_len h) + unat (ph_tailroom h) = unat (bh_size h)"

text \<open>The pointer for an offset of the specification.\<close>

definition pkt_ptr :: "odp_packet_hdr_t \<Rightarrow> nat option \<Rightarrow> u32" where
  "pkt_ptr h off = (case off of None \<Rightarrow> 0 | Some k \<Rightarrow> bh_addr h + of_nat k)"

lemma packet_map_in:
  assumes "pkt_wf h" "unat off \<le> unat (ph_frame_len h)"
  shows "packet_map h off =
    (bh_addr h + of_nat (unat (ph_headroom h) + unat off), Some (ucast (ph_frame_len h) - off))"
proof -
  have l: "\<not> off > ucast (ph_frame_len h)" using assms(2) by (simp add: u32_less)
  have s: "unat (ph_headroom h) + unat (ph_frame_len h) < 65536"
    using assms(1) u16_bound [of "bh_size h"] by (simp add: pkt_wf_def)
  have e: "of_nat (unat (ph_headroom h) + unat off) = (ucast (ph_headroom h) + off :: u32)"
    by (simp add: u32_eq)
  have "unat (ucast (ph_headroom h) + ucast (ph_frame_len h) :: u32) =
        unat (ph_headroom h) + unat (ph_frame_len h)"
    using s by (subst unat_add_small) simp_all
  with assms(1) have "ucast (ph_headroom h) + ucast (ph_frame_len h) \<le> (ucast (bh_size h) :: u32)"
    by (simp add: u32_le pkt_wf_def)
  with l show ?thesis
    unfolding packet_map_def buffer_map_def Let_def e by (simp add: ac_simps)
qed

text \<open>Reading the fields of a header whose window moved by \<open>n\<close> bytes inside it.\<close>

lemma pkt_move_fields:
  fixes n :: u32
  assumes "pkt_wf h"
  shows "unat n \<le> unat (ph_headroom h) \<Longrightarrow>
           unat (ph_frame_len h + ucast n) = unat (ph_frame_len h) + unat n \<and>
           unat (ph_headroom h - ucast n) = unat (ph_headroom h) - unat n"
    and "unat n \<le> unat (ph_frame_len h) \<Longrightarrow>
           unat (ph_frame_len h - ucast n) = unat (ph_frame_len h) - unat n \<and>
           unat (ph_headroom h + ucast n) = unat (ph_headroom h) + unat n \<and>
           unat (ph_tailroom h + ucast n) = unat (ph_tailroom h) + unat n"
    and "unat n \<le> unat (ph_tailroom h) \<Longrightarrow>
           unat (ph_frame_len h + ucast n) = unat (ph_frame_len h) + unat n \<and>
           unat (ph_tailroom h - ucast n) = unat (ph_tailroom h) - unat n"
proof -
  have s: "unat (ph_headroom h) + unat (ph_frame_len h) + unat (ph_tailroom h) < 65536"
    using assms u16_bound [of "bh_size h"] by (simp add: pkt_wf_def)
  have n: "unat (ucast n :: u16) = unat n" if "unat n < 65536" for n :: u32
    using that by (simp add: unat_ucast_32_16)
  show "unat n \<le> unat (ph_headroom h) \<Longrightarrow>
           unat (ph_frame_len h + ucast n) = unat (ph_frame_len h) + unat n \<and>
           unat (ph_headroom h - ucast n) = unat (ph_headroom h) - unat n"
    "unat n \<le> unat (ph_frame_len h) \<Longrightarrow>
           unat (ph_frame_len h - ucast n) = unat (ph_frame_len h) - unat n \<and>
           unat (ph_headroom h + ucast n) = unat (ph_headroom h) + unat n \<and>
           unat (ph_tailroom h + ucast n) = unat (ph_tailroom h) + unat n"
    "unat n \<le> unat (ph_tailroom h) \<Longrightarrow>
           unat (ph_frame_len h + ucast n) = unat (ph_frame_len h) + unat n \<and>
           unat (ph_tailroom h - ucast n) = unat (ph_tailroom h) - unat n"
    using s n [of n] by (simp_all add: unat_add_small16 unat_sub_small16)
qed

definition pkt_refines :: "pkt_op \<Rightarrow> odp_packet_hdr_t \<Rightarrow> bool" where
  "pkt_refines op h \<longleftrightarrow>
     pkt_wf (snd (pkt_step op h)) \<and> bh_addr (snd (pkt_step op h)) = bh_addr h \<and>
     pkt_window (snd (pkt_step op h)) = snd (window_step op (pkt_window h)) \<and>
     fst (pkt_step op h) = pkt_ptr h (fst (window_step op (pkt_window h)))"

lemmas pkt_step_defs =
  pkt_refines_def odp_packet_push_head_def odp_packet_pull_head_def odp_packet_push_tail_def
  odp_packet_pull_tail_def Let_def u32_less pkt_window_def pkt_ptr_def push_head_def pull_head_def
  push_tail_def pull_tail_def

lemma pkt_step_push_head: "pkt_wf h \<Longrightarrow> pkt_refines (Push_head n) h"
proof (cases "unat n \<le> unat (ph_headroom h)")
  case True
  assume wf: "pkt_wf h"
  note f = pkt_move_fields(1) [OF wf True]
  have wf': "pkt_wf (push_head h n)" using wf True f by (simp add: pkt_wf_def push_head_def)
  show ?thesis using True wf' f packet_map_in [OF wf', of 0] by (simp add: pkt_step_defs)
qed (simp add: pkt_step_defs)

lemma pkt_step_pull_head: "pkt_wf h \<Longrightarrow> pkt_refines (Pull_head n) h"
proof (cases "unat n \<le> unat (ph_frame_len h)")
  case True
  assume wf: "pkt_wf h"
  note f = pkt_move_fields(2) [OF wf True]
  have wf': "pkt_wf (pull_head h n)" using wf True f by (simp add: pkt_wf_def pull_head_def)
  show ?thesis using True wf' f packet_map_in [OF wf', of 0] by (simp add: pkt_step_defs)
qed (simp add: pkt_step_defs)

lemma pkt_step_push_tail: "pkt_wf h \<Longrightarrow> pkt_refines (Push_tail n) h"
proof (cases "unat n \<le> unat (ph_tailroom h)")
  case True
  assume wf: "pkt_wf h"
  note f = pkt_move_fields(3) [OF wf True]
  have wf': "pkt_wf (push_tail h n)" using wf True f by (simp add: pkt_wf_def push_tail_def)
  have g: "unat (ph_headroom h) + unat (ph_frame_len h) + unat n \<le> unat (bh_size h)"
    using wf True by (simp add: pkt_wf_def)
  show ?thesis
    using True g wf' f packet_map_in [OF wf', of "ucast (ph_frame_len h)"] by (simp add: pkt_step_defs)
qed (simp add: pkt_step_defs pkt_wf_def)

lemma pkt_step_pull_tail: "pkt_wf h \<Longrightarrow> pkt_refines (Pull_tail n) h"
proof (cases "unat n \<le> unat (ph_frame_len h)")
  case True
  assume wf: "pkt_wf h"
  note f = pkt_move_fields(2) [OF wf True]
  have wf': "pkt_wf (pull_tail h n)" using wf True f by (simp add: pkt_wf_def pull_tail_def)
  show ?thesis
    using True wf' f packet_map_in [OF wf', of "ucast (ph_frame_len (pull_tail h n))"]
    by (simp add: pkt_step_defs)
qed (simp add: pkt_step_defs)

lemma pkt_step_refines: "pkt_wf h \<Longrightarrow> pkt_refines op h"
  by (cases op) (simp_all add: pkt_step_push_head pkt_step_pull_head pkt_step_push_tail
      pkt_step_pull_tail)

lemma pkt_steps_refine:
  assumes "pkt_wf h"
  shows "pkt_wf (snd (steps pkt_step ops h)) \<and>
    pkt_window (snd (steps pkt_step ops h)) = snd (steps window_step ops (pkt_window h)) \<and>
    fst (steps pkt_step ops h) = map (pkt_ptr h) (fst (steps window_step ops (pkt_window h)))"
  using assms
proof (induction ops arbitrary: h)
  case Nil
  then show ?case by simp
next
  case (Cons op ops)
  from pkt_step_refines [OF Cons.prems, of op]
  have r: "pkt_wf (snd (pkt_step op h))" "bh_addr (snd (pkt_step op h)) = bh_addr h"
    "pkt_window (snd (pkt_step op h)) = snd (window_step op (pkt_window h))"
    "fst (pkt_step op h) = pkt_ptr h (fst (window_step op (pkt_window h)))"
    by (simp_all add: pkt_refines_def)
  have p: "pkt_ptr (snd (pkt_step op h)) = pkt_ptr h"
    using r(2) by (auto simp: pkt_ptr_def fun_eq_iff split: option.split)
  show ?case using Cons.IH [OF r(1)] r p by (simp add: Let_def split_beta)
qed

section \<open>Correctness of the copies\<close>

text \<open>An offset and a length inside the frame, without wrap-around.\<close>

lemma pkt_range:
  fixes off len :: u32 and f :: u16
  assumes "unat off + unat len \<le> unat f"
  shows "\<not> off + len > ucast f" "\<not> len > ucast f - off"
proof -
  have "unat (off + len) = unat off + unat len"
    using assms u16_bound [of f] by (subst unat_add_small) simp_all
  with assms show "\<not> off + len > ucast f" by (simp add: u32_less)
  have "unat (ucast f - off :: u32) = unat f - unat off"
    using assms by (simp add: unat_sub_small)
  with assms show "\<not> len > ucast f - off" by (simp add: u32_less)
qed

lemma copydata_out_eq:
  assumes "pkt_wf h" "unat off + unat len \<le> unat (ph_frame_len h)"
  shows "odp_packet_copydata_out mem h off len =
    Some (0, read_bytes mem (bh_addr h + of_nat (unat (ph_headroom h) + unat off)) (unat len))"
proof (cases "len = 0")
  case True
  then show ?thesis
    using pkt_range [OF assms(2)]
    by (simp add: odp_packet_copydata_out_def copydata_out_loop.simps read_bytes_def)
next
  case False
  have "packet_map h off = (bh_addr h + of_nat (unat (ph_headroom h) + unat off),
                            Some (ucast (ph_frame_len h) - off))"
    using assms by (intro packet_map_in) simp_all
  then show ?thesis
    using pkt_range [OF assms(2)] False
    by (simp add: odp_packet_copydata_out_def copydata_out_loop.simps [of mem h off len]
        copydata_out_loop.simps [of mem h "off + len" 0] Let_def)
qed

lemma copydata_in_eq:
  assumes "pkt_wf h" "unat off + unat len \<le> unat (ph_frame_len h)" "length src = unat len"
  shows "odp_packet_copydata_in mem h off len src =
    Some (0, write_bytes mem (bh_addr h + of_nat (unat (ph_headroom h) + unat off)) src)"
proof (cases "len = 0")
  case True
  then show ?thesis
    using pkt_range [OF assms(2)] assms(3)
    by (simp add: odp_packet_copydata_in_def copydata_in_loop.simps)
next
  case False
  have "packet_map h off = (bh_addr h + of_nat (unat (ph_headroom h) + unat off),
                            Some (ucast (ph_frame_len h) - off))"
    using assms by (intro packet_map_in) simp_all
  then show ?thesis
    using pkt_range [OF assms(2)] False assms(3)
    by (simp add: odp_packet_copydata_in_def copydata_in_loop.simps [of mem h off len]
        copydata_in_loop.simps [of _ h "off + len" 0] Let_def)
qed

lemma copydata_out_diverges:
  assumes "copydata_out_loop mem h off len seglen dst = Some r"
  shows "seglen = 0 \<longrightarrow> len \<noteq> 0 \<longrightarrow> off \<le> ucast (ph_frame_len h)"
proof (rule copydata_out_loop.raw_induct [OF _ assms])
  fix loop and mem :: "u32 \<Rightarrow> u8" and h off len seglen dst and r :: "u8 list"
  assume IH: "\<And>mem h off len seglen dst r. loop mem h off len seglen dst = Some r \<Longrightarrow>
      seglen = 0 \<longrightarrow> len \<noteq> 0 \<longrightarrow> off \<le> ucast (ph_frame_len h)"
    and step: "(if len = 0 then Some dst
      else let (mapaddr, sl) = packet_map h off;
               seglen = (case sl of None \<Rightarrow> seglen | Some s \<Rightarrow> s);
               cpylen = (if seglen < len then seglen else len)
           in loop mem h (off + cpylen) (len - cpylen) seglen
                (dst @ read_bytes mem mapaddr (unat cpylen))) = Some r"
  show "seglen = 0 \<longrightarrow> len \<noteq> 0 \<longrightarrow> off \<le> ucast (ph_frame_len h)"
  proof (intro impI, rule ccontr)
    assume a: "seglen = 0" "len \<noteq> 0" "\<not> off \<le> ucast (ph_frame_len h)"
    then have "packet_map h off = (0, None)" by (simp add: packet_map_def not_le)
    moreover have "(0 :: u32) < len" using a(2) by (simp add: word_gt_0)
    ultimately have "loop mem h off len 0 dst = Some r"
      using step a by (simp add: read_bytes_def)
    from IH [OF this] a show False by simp
  qed
qed

section \<open>Initialised packets\<close>

lemma packet_init_hdr_fields [simp]:
  "ph_frame_len (packet_init_hdr pool h sz parse) = ucast sz"
  "ph_headroom (packet_init_hdr pool h sz parse) = ucast (pl_headroom pool)"
  "ph_tailroom (packet_init_hdr pool h sz parse) = ucast (pl_seg_size pool - (pl_headroom pool + sz))"
  "ph_input (packet_init_hdr pool h sz parse) = 0"
  "ph_nofree (packet_init_hdr pool h sz parse) = 0"
  "bh_next (packet_init_hdr pool h sz parse) = bh_next h"
  "bh_size (packet_init_hdr pool h sz parse) = bh_size h"
  "bh_addr (packet_init_hdr pool h sz parse) = bh_addr h"
  "bh_uarea_addr (packet_init_hdr pool h sz parse) = bh_uarea_addr h"
  "bh_pool_hdl (packet_init_hdr pool h sz parse) = bh_pool_hdl h"
  by (simp_all add: packet_init_hdr_def packet_meta_clear_def packet_parse_disable_def Let_def)

lemma packet_init_wf:
  assumes "unat (pl_headroom pool) + unat sz \<le> unat (pl_seg_size pool)"
    and "bh_size h = ucast (pl_seg_size pool)" "unat (pl_seg_size pool) < 2 ^ 16"
  shows "pkt_wf (packet_init_hdr pool h sz parse)"
    and "pkt_window (packet_init_hdr pool h sz parse) =
           \<lparr>w_start = unat (pl_headroom pool), w_len = unat sz, w_cap = unat (pl_seg_size pool)\<rparr>"
proof -
  have "unat (pl_headroom pool + sz) = unat (pl_headroom pool) + unat sz"
    using assms by (subst unat_add_small) simp_all
  then have "unat (pl_seg_size pool - (pl_headroom pool + sz)) =
      unat (pl_seg_size pool) - (unat (pl_headroom pool) + unat sz)"
    using assms(1) by (subst unat_sub_small) simp_all
  with assms show "pkt_wf (packet_init_hdr pool h sz parse)"
    and "pkt_window (packet_init_hdr pool h sz parse) =
           \<lparr>w_start = unat (pl_headroom pool), w_len = unat sz, w_cap = unat (pl_seg_size pool)\<rparr>"
    by (simp_all add: pkt_wf_def pkt_window_def unat_ucast_32_16)
qed

lemma packet_init_hdr_mem [simp]:
  "om_hdr (packet_init pool m pkt sz parse) =
     (om_hdr m)(pkt := packet_init_hdr pool (om_hdr m pkt) sz parse)"
  by (simp add: packet_init_def upd_hdr_def Let_def)

section \<open>Properties\<close>

text \<open>C11. On a packet whose head room, data and tail room fill its buffer, every sequence
  of \<open>odp_packet_push_head\<close>, \<open>odp_packet_pull_head\<close>, \<open>odp_packet_push_tail\<close> and
  \<open>odp_packet_pull_tail\<close> behaves as a window that moves inside the buffer: the data never
  leave the buffer, a call fails exactly when they would, and each pointer returned is
  the address the specification gives.\<close>

theorem packet_ops_refine_window:
  assumes "pkt_wf h"
  shows "pkt_wf (snd (steps pkt_step ops h)) \<and>
    pkt_window (snd (steps pkt_step ops h)) = snd (steps window_step ops (pkt_window h)) \<and>
    fst (steps pkt_step ops h) = map (pkt_ptr h) (fst (steps window_step ops (pkt_window h)))"
  using assms by (rule pkt_steps_refine)

definition pkt_example_pool :: pool_entry_s where
  "pkt_example_pool = \<lparr>pl_name = [], pl_params = \<lparr>pp_type = ODP_POOL_PACKET, pp_num = 1,
     pp_size = 100, pp_align = 0, pp_uarea_size = 0\<rparr>, pl_udata_size = 0, pl_pool_id = 0,
     pl_pool_shm = 1, pl_has_name = False, pl_user_supplied_shm = False, pl_unsegmented = False,
     pl_zeroized = False, pl_predefined = False, pl_quiesced = 0, pl_low_wm_assert = 0,
     pl_pool_base_addr = 0, pl_pool_mdata_addr = 0, pl_pool_size = 4096, pl_buf_align = 64,
     pl_buf_stride = 128, pl_ring = odp_buffer_ring_init [0, 0] 2, pl_blk_freelist = 0,
     pl_blkcount = 0, pl_buf_num = 1, pl_seg_size = 256, pl_blk_size = 256, pl_high_wm = 0,
     pl_low_wm = 0, pl_headroom = 64, pl_tailroom = 0\<rparr>"

definition hdr_example :: odp_packet_hdr_t where
  "hdr_example =
     \<lparr>bh_next = 0, bh_zeroized = False, bh_hdrdata = False, bh_sustain = False, bh_type = 2,
      bh_event_type = 2, bh_size = 256, bh_uarea_addr = 0, bh_pool_hdl = Some 0, bh_buf_ctx = 0,
      bh_addr = 4096, bh_origin_qe = None, bh_ref_count = 0, bh_order = 0, bh_target_qe = None,
      bh_link = 0, ph_input_flags = input_flags_zero, ph_error_flags = error_flags_zero,
      ph_output_flags = output_flags_zero, ph_l2_offset = 0, ph_vlan_s_tag = 0, ph_vlan_c_tag = 0,
      ph_l3_offset = 0, ph_l3_protocol = 0, ph_l4_offset = 0, ph_l4_protocol = 0,
      ph_payload_offset = 0, ph_frame_len = 0, ph_headroom = 0, ph_tailroom = 0, ph_input = 0,
      ph_has_hash = False, ph_nofree = 0, ph_flow_hash = 0\<rparr>"

definition pkt_example :: odp_packet_hdr_t where
  "pkt_example = packet_init_hdr pkt_example_pool hdr_example 100 False"

lemma pkt_example_ok:
  "pkt_wf pkt_example" "pkt_window pkt_example = \<lparr>w_start = 64, w_len = 100, w_cap = 256\<rparr>"
  "bh_addr pkt_example = 4096" "ph_frame_len pkt_example = 100" "ph_headroom pkt_example = 64"
  by (simp_all add: pkt_example_def pkt_example_pool_def hdr_example_def pkt_wf_def pkt_window_def)

theorem packet_ops_refine_window_witness:
  "fst (steps pkt_step [Push_head 14, Push_head 60, Pull_tail 10, Push_tail 20] pkt_example) =
     [4096 + 50, 0, 4096 + 154, 4096 + 154]"
  using packet_ops_refine_window [OF pkt_example_ok(1),
      of "[Push_head 14, Push_head 60, Pull_tail 10, Push_tail 20]"]
  by (simp add: pkt_example_ok pkt_ptr_def)

text \<open>C15. Bytes copied into a packet by \<open>odp_packet_copydata_in\<close> are the bytes
  \<open>odp_packet_copydata_out\<close> reads back, for every range inside the frame; both calls
  return success, and no byte outside the range changes.\<close>

theorem packet_copydata_roundtrip:
  assumes "pkt_wf h" and "unat off + unat len \<le> unat (ph_frame_len h)" and "length src = unat len"
  shows "\<exists>mem'. odp_packet_copydata_in mem h off len src = Some (0, mem') \<and>
    odp_packet_copydata_out mem' h off len = Some (0, src) \<and>
    (\<forall>x. unat (x - (bh_addr h + ucast (ph_headroom h) + off)) \<ge> unat len \<longrightarrow> mem' x = mem x)"
proof -
  let ?a = "bh_addr h + of_nat (unat (ph_headroom h) + unat off)"
  have l: "length src \<le> 2 ^ 32" using assms(3) u32_bound [of len] by simp
  have a: "?a = bh_addr h + ucast (ph_headroom h) + off" by (simp add: u32_eq ac_simps)
  have "read_bytes (write_bytes mem ?a src) ?a (unat len) = src"
    using read_write_bytes [OF l] assms(3) by simp
  moreover have "write_bytes mem ?a src x = mem x" if "unat (x - ?a) \<ge> unat len" for x
    using write_bytes_nth [OF l] that assms(3) by simp
  ultimately show ?thesis
    using copydata_in_eq [OF assms] copydata_out_eq [OF assms(1,2)] unfolding a by auto
qed

theorem packet_copydata_roundtrip_witness:
  "\<exists>mem'. odp_packet_copydata_in (\<lambda>_. 0) pkt_example 10 3 [1, 2, 3] = Some (0, mem') \<and>
     odp_packet_copydata_out mem' pkt_example 10 3 = Some (0, [1, 2, 3])"
  using packet_copydata_roundtrip [OF pkt_example_ok(1), of 10 3 "[1, 2, 3]" "\<lambda>_. 0"]
  by (auto simp: pkt_example_ok)

text \<open>The range check of \<open>odp_packet_copydata_out\<close> adds offset and length in 32 bits.
  For an offset beyond the frame whose sum with the length wraps around to a value
  inside it, the check passes and the copy loop never ends.\<close>

lemma packet_copydata_out_wraps:
  assumes "off > ucast (ph_frame_len h)" and "off + len \<le> ucast (ph_frame_len h)"
  shows "odp_packet_copydata_out mem h off len = None"
proof -
  have "len \<noteq> 0" using assms by auto
  with assms(1) have "copydata_out_loop mem h off len 0 [] = None"
    using copydata_out_diverges [of mem h off len 0 "[]"] by (cases "copydata_out_loop mem h off len 0 []") auto
  with assms(2) show ?thesis by (simp add: odp_packet_copydata_out_def)
qed

end
