(* ===== verification/Odp_Pool.thy ===== *)
theory Odp_Pool
  imports Odp_Packet_Hdr "HOL-Library.Monad_Syntax"
begin

text \<open>
  Buffer pools (\<open>platform/mppa/odp_pool.c\<close>, \<open>include/odp_pool_internal.h\<close>): creation with the
  layout of the shared memory block, allocation and release through the ring of free
  buffers and the local cache of the calling thread, watermarks, lookup and
  destruction. A buffer is identified by the address of its header. The result \<open>None\<close>
  is a call that does not return. Parameters: \<open>malloc\<close>, and the strides of the three
  header types, which depend on the compiler's layout of the header structures.
\<close>

section \<open>State\<close>

text \<open>One entry per pool in \<open>pt_cache\<close>: the free list of the calling thread's cache.\<close>

record pool_table =
  pt_pool :: "pool_entry_s list"
  pt_cache :: "u32 list"
  pt_mem :: odp_mem
  pt_shm :: odp_shm_table_t

definition ODP_CONFIG_POOLS :: nat where "ODP_CONFIG_POOLS = 12"
definition ODP_POOL_NAME_LEN :: nat where "ODP_POOL_NAME_LEN = 32"
definition ODP_CACHE_LINE_SIZE :: u32 where "ODP_CACHE_LINE_SIZE = 64"
definition ODP_CONFIG_BUFFER_ALIGN_MIN :: u32 where "ODP_CONFIG_BUFFER_ALIGN_MIN = 16"
definition ODP_CONFIG_BUFFER_ALIGN_MAX :: u32 where "ODP_CONFIG_BUFFER_ALIGN_MAX = 64"
definition ODP_CONFIG_PACKET_HEADROOM :: u32 where "ODP_CONFIG_PACKET_HEADROOM = 64"
definition ODP_CONFIG_PACKET_TAILROOM :: u32 where "ODP_CONFIG_PACKET_TAILROOM = 0"
definition ODP_CONFIG_PACKET_SEG_LEN_MIN :: u32 where "ODP_CONFIG_PACKET_SEG_LEN_MIN = 128"
definition ODP_CONFIG_PACKET_SEG_LEN_MAX :: u32 where "ODP_CONFIG_PACKET_SEG_LEN_MAX = 9280"
definition ODP_BUFFER_MAX_SEG :: u32 where "ODP_BUFFER_MAX_SEG = 1"
definition ODP_BUFFER_MAX_BUFFERS :: u32 where "ODP_BUFFER_MAX_BUFFERS = 0x8000000"

lemmas pool_consts =
  ODP_CONFIG_POOLS_def ODP_POOL_NAME_LEN_def ODP_CACHE_LINE_SIZE_def ODP_CONFIG_BUFFER_ALIGN_MIN_def
  ODP_CONFIG_BUFFER_ALIGN_MAX_def ODP_CONFIG_PACKET_HEADROOM_def ODP_CONFIG_PACKET_TAILROOM_def
  ODP_CONFIG_PACKET_SEG_LEN_MIN_def ODP_CONFIG_PACKET_SEG_LEN_MAX_def ODP_BUFFER_MAX_SEG_def
  ODP_BUFFER_MAX_BUFFERS_def

section \<open>The ring of free buffers of a pool\<close>

definition get_buf_multi :: "pool_entry_s \<Rightarrow> u32 \<Rightarrow> (u32 list \<times> pool_entry_s) option" where
  "get_buf_multi pool n_buffers =
     (let n_buffers = (if n_buffers > POOL_MULTI_MAX then POOL_MULTI_MAX else n_buffers) in
      do {
        (buffers, left, ring) \<leftarrow> odp_buffer_ring_get_multi (pl_ring pool) n_buffers 0;
        let bufcount = (case left of None \<Rightarrow> 0 | Some l \<Rightarrow> l);
        let pool = pool\<lparr>pl_ring := ring\<rparr>;
        Some (buffers,
              if bufcount \<le> pl_low_wm pool \<and> bufcount + n_buffers > pl_low_wm pool \<and>
                 pl_low_wm_assert pool = 0
              then pool\<lparr>pl_low_wm_assert := 1\<rparr> else pool)
      })"

fun ret_buf_init :: "pool_entry_s \<Rightarrow> u32 list \<Rightarrow> odp_mem \<Rightarrow> odp_mem" where
  "ret_buf_init pool [] m = m"
| "ret_buf_init pool (b # bs) m =
     ret_buf_init pool bs (packet_init pool m b (pp_size (pl_params pool)) True)"

definition ret_buf :: "pool_entry_s \<Rightarrow> odp_mem \<Rightarrow> u32 list \<Rightarrow> (pool_entry_s \<times> odp_mem) option" where
  "ret_buf pool m buffers =
     (let n_buffers = of_nat (length buffers);
          m = (if pp_type (pl_params pool) = ODP_POOL_PACKET then ret_buf_init pool buffers m else m)
      in do {
        (bufcount, ring) \<leftarrow> odp_buffer_ring_push_multi (pl_ring pool) buffers n_buffers;
        let pool = pool\<lparr>pl_ring := ring\<rparr>;
        Some (if bufcount \<ge> pl_high_wm pool \<and> bufcount - n_buffers < pl_high_wm pool \<and>
                 pl_low_wm_assert pool \<noteq> 0
              then pool\<lparr>pl_low_wm_assert := 0\<rparr> else pool, m)
      })"

section \<open>The local cache\<close>

definition get_local_buf :: "u32 \<Rightarrow> odp_mem \<Rightarrow> u32 \<Rightarrow> u32 \<times> u32" where
  "get_local_buf cache m totsize =
     (let buf = cache in
      if buf \<noteq> 0
      then let cache = bh_next (om_hdr m buf) in
        if ucast (bh_size (om_hdr m buf)) < totsize then (0, cache) else (buf, cache)
      else (buf, cache))"

definition ret_local_buf :: "u32 \<Rightarrow> odp_mem \<Rightarrow> u32 \<Rightarrow> u32 \<Rightarrow> u32 \<times> odp_mem" where
  "ret_local_buf cache m head tail = (head, upd_hdr tail (\<lambda>h. h\<lparr>bh_next := cache\<rparr>) m)"

text \<open>The loop of \<open>flush_cache\<close>, with the buffers collected since the last release.\<close>

partial_function (option) flush_loop ::
  "pool_entry_s \<Rightarrow> odp_mem \<Rightarrow> u32 \<Rightarrow> u32 list \<Rightarrow> (pool_entry_s \<times> odp_mem) option" where
  "flush_loop pool m buf bufs =
     (if buf = 0 then (if bufs \<noteq> [] then ret_buf pool m bufs else Some (pool, m))
      else let nxt = bh_next (om_hdr m buf); bufs = bufs @ [buf] in
        if length bufs = 16
        then Option.bind (ret_buf pool m bufs) (\<lambda>(pool, m). flush_loop pool m nxt [])
        else flush_loop pool m nxt bufs)"

definition flush_cache ::
  "u32 \<Rightarrow> pool_entry_s \<Rightarrow> odp_mem \<Rightarrow> (u32 \<times> pool_entry_s \<times> odp_mem) option" where
  "flush_cache cache pool m = map_option (\<lambda>(pool, m). (0, pool, m)) (flush_loop pool m cache [])"

section \<open>Allocation\<close>

text \<open>Taking up to \<open>num\<close> buffers from the cache; the loop ends at the first failure.\<close>

fun local_bufs :: "u32 \<Rightarrow> odp_mem \<Rightarrow> u32 \<Rightarrow> nat \<Rightarrow> u32 list \<times> u32" where
  "local_bufs cache m totsize 0 = ([], cache)"
| "local_bufs cache m totsize (Suc num) =
     (let (buf, cache) = get_local_buf cache m totsize in
      if buf = 0 then ([], cache)
      else let (bufs, cache) = local_bufs cache m totsize num in (buf # bufs, cache))"

fun alloc_init :: "pool_entry_s \<Rightarrow> u32 list \<Rightarrow> odp_mem \<Rightarrow> odp_mem" where
  "alloc_init pool [] m = m"
| "alloc_init pool (b # bs) m =
     alloc_init pool bs
       (upd_hdr b (\<lambda>h. h\<lparr>bh_zeroized := pl_zeroized pool, bh_origin_qe := None\<rparr>) m)"

text \<open>\<open>None\<close> in the list position is the return value \<open>-1\<close> for an oversized request.\<close>

definition buffer_alloc ::
  "pool_entry_s \<Rightarrow> u32 \<Rightarrow> odp_mem \<Rightarrow> u32 \<Rightarrow> nat \<Rightarrow>
   (u32 list option \<times> pool_entry_s \<times> u32 \<times> odp_mem) option" where
  "buffer_alloc pool cache m sz num =
     (let totsize = pl_headroom pool + sz + pl_tailroom pool in
      if (pl_unsegmented pool \<and> totsize > pl_seg_size pool) \<or>
         (\<not> pl_unsegmented pool \<and> totsize > pl_seg_size pool * ODP_BUFFER_MAX_SEG)
      then Some (None, pool, cache, m)
      else let (bufs, cache) = local_bufs cache m totsize num in do {
        (bufs, pool) \<leftarrow> (if bufs = [] then get_buf_multi pool (of_nat num) else Some (bufs, pool));
        Some (Some bufs, pool, cache, alloc_init pool bufs m)
      })"

section \<open>The layout of a new pool\<close>

record pool_layout =
  ly_unseg :: bool
  ly_headroom :: u32
  ly_tailroom :: u32
  ly_buf_num :: u32
  ly_blk_size :: u32
  ly_seg_len :: u32
  ly_udata_size :: u32
  ly_udata_stride :: u32
  ly_buf_stride :: u32
  ly_buf_align :: u32

definition pool_buf_align :: "odp_pool_param_t \<Rightarrow> u32 option" where
  "pool_buf_align params =
     (let buf_align = (if pp_type params = ODP_POOL_BUFFER then pp_align params else 0) in
      if buf_align > ODP_CONFIG_BUFFER_ALIGN_MAX \<or>
         buf_align \<noteq> ODP_ALIGN_ROUNDDOWN_POWER_2 buf_align buf_align then None
      else Some (if buf_align = 0 then ODP_CACHE_LINE_SIZE
                 else if buf_align < ODP_CONFIG_BUFFER_ALIGN_MIN then ODP_CONFIG_BUFFER_ALIGN_MIN
                 else buf_align))"

definition pool_seg_len :: "odp_pool_param_t \<Rightarrow> u32" where
  "pool_seg_len params =
     (let seg_len = pp_align params + ODP_CONFIG_PACKET_HEADROOM + ODP_CONFIG_PACKET_TAILROOM;
          seg_len = (if seg_len \<le> ODP_CONFIG_PACKET_SEG_LEN_MIN then ODP_CONFIG_PACKET_SEG_LEN_MIN
                     else if seg_len \<le> ODP_CONFIG_PACKET_SEG_LEN_MAX then seg_len
                     else ODP_CONFIG_PACKET_SEG_LEN_MAX)
      in ODP_ALIGN_ROUNDUP seg_len ODP_CONFIG_BUFFER_ALIGN_MIN)"

definition pool_packet_layout :: "u32 \<Rightarrow> u32 \<Rightarrow> odp_pool_param_t \<Rightarrow> pool_layout option" where
  "pool_packet_layout stride buf_align params =
     (let headroom = ODP_CONFIG_PACKET_HEADROOM; tailroom = ODP_CONFIG_PACKET_TAILROOM;
          seg_len = pool_seg_len params;
          blk_size = (if pp_size params \<le> seg_len then seg_len
                      else ODP_ALIGN_ROUNDUP (pp_size params + headroom + tailroom) seg_len);
          seg_len' = (if blk_size div seg_len > ODP_BUFFER_MAX_SEG
                      then ODP_ALIGN_ROUNDUP ((blk_size + ODP_BUFFER_MAX_SEG - 1) div ODP_BUFFER_MAX_SEG)
                             ODP_CONFIG_BUFFER_ALIGN_MIN
                      else seg_len)
      in if blk_size div seg_len > ODP_BUFFER_MAX_SEG \<and> pp_align params \<noteq> 0 then None
         else Some \<lparr>ly_unseg = False, ly_headroom = headroom, ly_tailroom = tailroom,
                    ly_buf_num = pp_num params, ly_blk_size = blk_size, ly_seg_len = seg_len',
                    ly_udata_size = pp_uarea_size params,
                    ly_udata_stride = ODP_ALIGN_ROUNDUP (pp_uarea_size params) 8,
                    ly_buf_stride = stride, ly_buf_align = buf_align\<rparr>)"

definition pool_create_layout :: "(int \<Rightarrow> u32) \<Rightarrow> odp_pool_param_t \<Rightarrow> pool_layout option" where
  "pool_create_layout stride params =
     do {
       buf_align \<leftarrow> pool_buf_align params;
       ly \<leftarrow> (if pp_type params = ODP_POOL_BUFFER
         then Some \<lparr>ly_unseg = True, ly_headroom = 0, ly_tailroom = 0, ly_buf_num = pp_num params,
                    ly_blk_size = ODP_ALIGN_ROUNDUP (pp_size params) buf_align, ly_seg_len = 0,
                    ly_udata_size = 0, ly_udata_stride = 0,
                    ly_buf_stride = stride ODP_POOL_BUFFER, ly_buf_align = buf_align\<rparr>
         else if pp_type params = ODP_POOL_PACKET
         then pool_packet_layout (stride ODP_POOL_PACKET) buf_align params
         else if pp_type params = ODP_POOL_TIMEOUT
         then Some \<lparr>ly_unseg = True, ly_headroom = 0, ly_tailroom = 0, ly_buf_num = pp_num params,
                    ly_blk_size = 0, ly_seg_len = 0, ly_udata_size = 0, ly_udata_stride = 0,
                    ly_buf_stride = stride ODP_POOL_TIMEOUT, ly_buf_align = buf_align\<rparr>
         else None);
       if ly_buf_num ly > ODP_BUFFER_MAX_BUFFERS div (ly_buf_stride ly div ODP_CACHE_LINE_SIZE)
       then None else Some ly
     }"

section \<open>Creation\<close>

text \<open>The regions of the block: ring, data blocks, headers and user areas, in this order.\<close>

definition ly_block_size :: "pool_layout \<Rightarrow> u32" where
  "ly_block_size ly = ly_buf_num ly * ly_blk_size ly"

definition ly_pad_size :: "pool_layout \<Rightarrow> u32" where
  "ly_pad_size ly = ODP_ALIGN_ROUNDUP (ly_block_size ly) ODP_CACHE_LINE_SIZE - ly_block_size ly"

definition ly_mdata_size :: "pool_layout \<Rightarrow> u32" where
  "ly_mdata_size ly = ly_buf_num ly * ly_buf_stride ly"

definition ly_uarea_total :: "pool_layout \<Rightarrow> u32" where
  "ly_uarea_total ly = ly_buf_num ly * ly_udata_stride ly"

definition ly_ring_size :: "pool_layout \<Rightarrow> u32" where
  "ly_ring_size ly = (ly_buf_num ly + 1) * 4"

definition ly_ring_pad_size :: "pool_layout \<Rightarrow> u32" where
  "ly_ring_pad_size ly = ODP_ALIGN_ROUNDUP (ly_ring_size ly) ODP_CACHE_LINE_SIZE - ly_ring_size ly"

definition ly_pool_size :: "pool_layout \<Rightarrow> u32" where
  "ly_pool_size ly = ODP_ALIGN_ROUNDUP
     (ly_ring_size ly + ly_ring_pad_size ly + ly_block_size ly + ly_pad_size ly + ly_mdata_size ly +
      ly_uarea_total ly) ODP_PAGE_SIZE"

definition ly_seg_size :: "pool_layout \<Rightarrow> u32" where
  "ly_seg_size ly = (if ly_unseg ly then ly_blk_size ly else ly_seg_len ly)"

definition ly_block_base :: "pool_layout \<Rightarrow> u32 \<Rightarrow> u32" where
  "ly_block_base ly base = base + ly_ring_size ly + ly_ring_pad_size ly"

definition ly_mdata_base :: "pool_layout \<Rightarrow> u32 \<Rightarrow> u32" where
  "ly_mdata_base ly base = ly_block_base ly base + ly_block_size ly + ly_pad_size ly"

definition ly_udata_base :: "pool_layout \<Rightarrow> u32 \<Rightarrow> u32" where
  "ly_udata_base ly base = ly_mdata_base ly base + ly_mdata_size ly"

text \<open>The entry of the slot that was found, before the memory is reserved.\<close>

definition pool_claim ::
  "pool_entry_s \<Rightarrow> string option \<Rightarrow> odp_pool_param_t \<Rightarrow> pool_layout \<Rightarrow> pool_entry_s" where
  "pool_claim pool name params ly =
     (let pool = pool\<lparr>pl_has_name := False, pl_user_supplied_shm := False, pl_unsegmented := False,
                     pl_zeroized := False, pl_predefined := False\<rparr>;
          pool = (case name of
                    None \<Rightarrow> pool\<lparr>pl_name := []\<rparr>
                  | Some n \<Rightarrow> pool\<lparr>pl_name := take (ODP_POOL_NAME_LEN - 1) n, pl_has_name := True\<rparr>)
      in pool\<lparr>pl_params := params, pl_buf_align := ly_buf_align ly, pl_buf_num := ly_buf_num ly,
              pl_pool_size := ly_pool_size ly\<rparr>)"

definition pool_setup :: "pool_entry_s \<Rightarrow> pool_layout \<Rightarrow> u32 \<Rightarrow> u32 \<Rightarrow> pool_entry_s" where
  "pool_setup pool ly shm base =
     pool\<lparr>pl_pool_base_addr := base, pl_pool_shm := shm, pl_unsegmented := ly_unseg ly,
          pl_zeroized := False, pl_seg_size := ly_seg_size ly, pl_blk_size := ly_blk_size ly,
          pl_pool_mdata_addr := ly_mdata_base ly base, pl_udata_size := ly_udata_size ly,
          pl_buf_stride := ly_buf_stride ly, pl_blk_freelist := 0,
          pl_ring := odp_buffer_ring_init (replicate (unat (ly_buf_num ly + 1)) 0) (ly_buf_num ly + 1),
          pl_blkcount := 0, pl_low_wm_assert := 0, pl_quiesced := 0,
          pl_headroom := ly_headroom ly, pl_tailroom := ly_tailroom ly\<rparr>"

text \<open>One header of the pool with index \<open>pid\<close>.\<close>

definition pool_hdr_init ::
  "nat \<Rightarrow> pool_entry_s \<Rightarrow> u32 \<Rightarrow> u32 \<Rightarrow> odp_packet_hdr_t \<Rightarrow> odp_packet_hdr_t" where
  "pool_hdr_init pid pool udat blk tmp =
     tmp\<lparr>bh_zeroized := False, bh_hdrdata := False, bh_sustain := False,
         bh_size := ucast (pl_seg_size pool), bh_ref_count := 0, bh_type := pp_type (pl_params pool),
         bh_event_type := pp_type (pl_params pool), bh_pool_hdl := Some pid, bh_uarea_addr := udat,
         bh_addr := blk\<rparr>"

text \<open>The loop runs downwards from the last header, at least once.\<close>

partial_function (option) pool_init_loop ::
  "nat \<Rightarrow> pool_layout \<Rightarrow> u32 \<Rightarrow> u32 \<Rightarrow> u32 \<Rightarrow> u32 \<Rightarrow> pool_entry_s \<Rightarrow> odp_mem \<Rightarrow>
   (pool_entry_s \<times> odp_mem) option" where
  "pool_init_loop pid ly base buf udat blk pool m =
     Option.bind (ret_buf pool (upd_hdr buf (pool_hdr_init pid pool udat blk) m) [buf])
       (\<lambda>(pool, m).
          let buf = buf - ly_buf_stride ly;
              udat = udat - ly_udata_stride ly;
              blk = blk - pl_seg_size pool
          in if buf \<ge> ly_mdata_base ly base \<and> blk \<ge> ly_block_base ly base
             then pool_init_loop pid ly base buf udat blk pool m
             else Some (pool, m))"

definition pool_populate ::
  "nat \<Rightarrow> pool_layout \<Rightarrow> u32 \<Rightarrow> pool_entry_s \<Rightarrow> odp_mem \<Rightarrow> (pool_entry_s \<times> odp_mem) option" where
  "pool_populate pid ly base pool m =
     do {
       (pool, m) \<leftarrow> pool_init_loop pid ly base
         (ly_udata_base ly base - ly_buf_stride ly)
         (if ly_udata_stride ly = 0 then 0
          else ly_udata_base ly base + ly_uarea_total ly - ly_udata_stride ly)
         (ly_block_base ly base + ly_block_size ly - pl_seg_size pool) pool m;
       Some (pool\<lparr>pl_high_wm := pl_buf_num pool div 2, pl_low_wm := pl_buf_num pool div 4\<rparr>, m)
     }"

fun pool_first_free :: "pool_entry_s list \<Rightarrow> nat" where
  "pool_first_free [] = 0"
| "pool_first_free (p # ps) = (if pl_pool_shm p = ODP_SHM_INVALID then 0 else Suc (pool_first_free ps))"

text \<open>Size and alignment default to zero for timeouts.\<close>

definition pool_params_norm :: "odp_pool_param_t \<Rightarrow> odp_pool_param_t" where
  "pool_params_norm params =
     (if pp_type params = ODP_POOL_TIMEOUT then params\<lparr>pp_size := 0, pp_align := 0\<rparr> else params)"

definition odp_pool_create ::
  "(u32 \<Rightarrow> u32) \<Rightarrow> (int \<Rightarrow> u32) \<Rightarrow> pool_table \<Rightarrow> string option \<Rightarrow> odp_pool_param_t option \<Rightarrow>
   (nat option \<times> pool_table) option" where
  "odp_pool_create malloc stride t name params =
     (case params of
        None \<Rightarrow> Some (None, t)
      | Some params \<Rightarrow>
          let params = pool_params_norm params in
          case pool_create_layout stride params of
            None \<Rightarrow> Some (None, t)
          | Some ly \<Rightarrow>
              let i = pool_first_free (pt_pool t) in
              if i \<ge> length (pt_pool t) then Some (None, t)
              else let pool = pool_claim (pt_pool t ! i) name params ly in do {
                (shm, tbl) \<leftarrow> odp_shm_reserve malloc (pt_shm t) (pl_name pool)
                  (ucast (pl_pool_size pool)) (ucast ODP_PAGE_SIZE) 0;
                if shm = ODP_SHM_INVALID
                then Some (None, t\<lparr>pt_pool := (pt_pool t)[i := pool], pt_shm := tbl\<rparr>)
                else let base = odp_shm_addr tbl shm; pool = pool_setup pool ly shm base in do {
                  (pool, m) \<leftarrow> pool_populate i ly base pool (pt_mem t);
                  Some (Some i, t\<lparr>pt_pool := (pt_pool t)[i := pool], pt_shm := tbl, pt_mem := m\<rparr>)
                }
              })"

section \<open>Lookup, destruction, and the calls on the pool table\<close>

definition pool_zero :: "nat \<Rightarrow> pool_entry_s" where
  "pool_zero i = \<lparr>pl_name = [], pl_params = \<lparr>pp_type = 0, pp_num = 0, pp_size = 0, pp_align = 0,
     pp_uarea_size = 0\<rparr>, pl_udata_size = 0, pl_pool_id = of_nat i, pl_pool_shm = 0,
     pl_has_name = False, pl_user_supplied_shm = False, pl_unsegmented = False, pl_zeroized = False,
     pl_predefined = False, pl_quiesced = 0, pl_low_wm_assert = 0, pl_pool_base_addr = 0,
     pl_pool_mdata_addr = 0, pl_pool_size = 0, pl_buf_align = 0, pl_buf_stride = 0,
     pl_ring = odp_buffer_ring_init [] 0, pl_blk_freelist = 0, pl_blkcount = 0, pl_buf_num = 0,
     pl_seg_size = 0, pl_blk_size = 0, pl_high_wm = 0, pl_low_wm = 0, pl_headroom = 0,
     pl_tailroom = 0\<rparr>"

definition odp_pool_init_global :: "pool_table \<Rightarrow> pool_table" where
  "odp_pool_init_global t = t\<lparr>pt_pool := map pool_zero [0..<ODP_CONFIG_POOLS]\<rparr>"

definition odp_pool_term_global :: "pool_table \<Rightarrow> int" where
  "odp_pool_term_global t =
     (if \<exists>p \<in> set (pt_pool t). pl_pool_shm p \<noteq> ODP_SHM_INVALID then - 1 else 0)"

fun pool_find :: "string \<Rightarrow> pool_entry_s list \<Rightarrow> nat option" where
  "pool_find name [] = None"
| "pool_find name (p # ps) = (if name = pl_name p then Some 0 else map_option Suc (pool_find name ps))"

definition odp_pool_lookup :: "pool_table \<Rightarrow> string \<Rightarrow> nat option" where
  "odp_pool_lookup t name = pool_find name (pt_pool t)"

definition odp_pool_info :: "pool_table \<Rightarrow> nat option \<Rightarrow> (string \<times> odp_pool_param_t) option" where
  "odp_pool_info t hdl =
     (case hdl of None \<Rightarrow> None | Some i \<Rightarrow> Some (pl_name (pt_pool t ! i), pl_params (pt_pool t ! i)))"

definition odp_pool_destroy :: "pool_table \<Rightarrow> nat option \<Rightarrow> (int \<times> pool_table) option" where
  "odp_pool_destroy t hdl =
     (case hdl of
        None \<Rightarrow> Some (- 1, t)
      | Some i \<Rightarrow> let pool = pt_pool t ! i in
          if pl_pool_shm pool = ODP_SHM_INVALID \<or> pl_predefined pool then Some (- 1, t)
          else do {
            (cache, pool, m) \<leftarrow> flush_cache (pt_cache t ! i) pool (pt_mem t);
            let t = t\<lparr>pt_cache := (pt_cache t)[i := cache], pt_pool := (pt_pool t)[i := pool], pt_mem := m\<rparr>;
            if odp_buffer_ring_get_count (pl_ring pool) < pl_buf_num pool then Some (- 1, t)
            else do {
              (_, _, tbl) \<leftarrow> odp_shm_free (pt_shm t) (pl_pool_shm pool);
              Some (0, t\<lparr>pt_pool := (pt_pool t)[i := pool\<lparr>pl_pool_shm := ODP_SHM_INVALID\<rparr>], pt_shm := tbl\<rparr>)
            }
          })"

definition pool_alloc :: "pool_table \<Rightarrow> nat \<Rightarrow> u32 \<Rightarrow> nat \<Rightarrow> (u32 list option \<times> pool_table) option" where
  "pool_alloc t i sz num =
     do {
       (r, pool, cache, m) \<leftarrow> buffer_alloc (pt_pool t ! i) (pt_cache t ! i) (pt_mem t) sz num;
       Some (r, t\<lparr>pt_pool := (pt_pool t)[i := pool], pt_cache := (pt_cache t)[i := cache], pt_mem := m\<rparr>)
     }"

definition odp_buffer_alloc :: "pool_table \<Rightarrow> nat \<Rightarrow> (u32 \<times> pool_table) option" where
  "odp_buffer_alloc t i =
     do {
       (r, t) \<leftarrow> pool_alloc t i (pp_size (pl_params (pt_pool t ! i))) 1;
       Some (case r of Some (b # _) \<Rightarrow> b | _ \<Rightarrow> 0, t)
     }"

definition odp_buffer_alloc_multi :: "pool_table \<Rightarrow> nat \<Rightarrow> nat \<Rightarrow> (u32 list option \<times> pool_table) option" where
  "odp_buffer_alloc_multi t i num = pool_alloc t i (pp_size (pl_params (pt_pool t ! i))) num"

definition pool_ret :: "pool_table \<Rightarrow> nat \<Rightarrow> u32 list \<Rightarrow> pool_table option" where
  "pool_ret t i bufs =
     do {
       (pool, m) \<leftarrow> ret_buf (pt_pool t ! i) (pt_mem t) bufs;
       Some (t\<lparr>pt_pool := (pt_pool t)[i := pool], pt_mem := m\<rparr>)
     }"

definition buf_pool :: "pool_table \<Rightarrow> u32 \<Rightarrow> nat option" where
  "buf_pool t buf = bh_pool_hdl (om_hdr (pt_mem t) buf)"

definition odp_buffer_free :: "pool_table \<Rightarrow> u32 \<Rightarrow> pool_table option" where
  "odp_buffer_free t buf =
     do {
       i \<leftarrow> buf_pool t buf;
       if pl_low_wm_assert (pt_pool t ! i) \<noteq> 0 then pool_ret t i [buf]
       else let (cache, m) = ret_local_buf (pt_cache t ! i) (pt_mem t) buf buf
            in Some (t\<lparr>pt_cache := (pt_cache t)[i := cache], pt_mem := m\<rparr>)
     }"

text \<open>Runs of buffers of the same pool are given back together.\<close>

function odp_buffer_free_multi :: "pool_table \<Rightarrow> u32 list \<Rightarrow> pool_table option" where
  "odp_buffer_free_multi t [] = Some t"
| "odp_buffer_free_multi t (b # bs) =
     (let run = b # takeWhile (\<lambda>x. buf_pool t x = buf_pool t b) bs;
          rest = dropWhile (\<lambda>x. buf_pool t x = buf_pool t b) bs
      in do {
        i \<leftarrow> buf_pool t b;
        t \<leftarrow> pool_ret t i run;
        odp_buffer_free_multi t rest
      })"
  by pat_completeness auto

termination
  by (relation "measure (length \<circ> snd)") (auto simp: length_dropWhile_le less_Suc_eq_le)

fun flush_all :: "pool_table \<Rightarrow> nat list \<Rightarrow> pool_table option" where
  "flush_all t [] = Some t"
| "flush_all t (i # is) =
     do {
       (cache, pool, m) \<leftarrow> flush_cache (pt_cache t ! i) (pt_pool t ! i) (pt_mem t);
       flush_all (t\<lparr>pt_cache := (pt_cache t)[i := cache], pt_pool := (pt_pool t)[i := pool], pt_mem := m\<rparr>) is
     }"

definition odp_flush_caches :: "pool_table \<Rightarrow> pool_table option" where
  "odp_flush_caches t = flush_all t [0..<ODP_CONFIG_POOLS]"

section \<open>The buffers of a pool\<close>

definition ptr_opt :: "u32 \<Rightarrow> u32 option" where
  "ptr_opt p = (if p = 0 then None else Some p)"

lemma ptr_opt_simps [simp]: "ptr_opt 0 = None" "p \<noteq> 0 \<Longrightarrow> ptr_opt p = Some p"
  by (simp_all add: ptr_opt_def)

lemma next_ptr_opt: "next_ptr m a = ptr_opt (bh_next (om_hdr m a))"
  by (simp add: next_ptr_def ptr_opt_def)

text \<open>What stays the same in a header: the pool it belongs to and the size of its data.\<close>

definition hdr_ok :: "nat \<Rightarrow> pool_entry_s \<Rightarrow> odp_packet_hdr_t \<Rightarrow> bool" where
  "hdr_ok i p h \<longleftrightarrow> bh_pool_hdl h = Some i \<and> bh_size h = ucast (pl_seg_size p)"

text \<open>
  The buffers \<open>A\<close> of pool \<open>i\<close> are those in the ring, those in the cache (\<open>cs\<close>) and those
  that are \<open>owned\<close> outside the pool, each in exactly one of the three.
\<close>

definition pool_parts ::
  "u32 set \<Rightarrow> nat \<Rightarrow> pool_entry_s \<Rightarrow> odp_mem \<Rightarrow> u32 \<Rightarrow> u32 list \<Rightarrow> u32 set \<Rightarrow> bool" where
  "pool_parts A i p m cache cs owned \<longleftrightarrow>
     ring_inv (pl_ring p) \<and> unat (br_buf_num (pl_ring p)) = Suc (unat (pl_buf_num p)) \<and>
     chain (next_ptr m) (ptr_opt cache) cs None \<and>
     distinct (ring_list (pl_ring p) @ cs) \<and>
     (set (ring_list (pl_ring p)) \<union> set cs) \<inter> owned = {} \<and>
     set (ring_list (pl_ring p)) \<union> set cs \<union> owned = A \<and>
     finite A \<and> card A = unat (pl_buf_num p) \<and> 0 \<notin> A \<and> (\<forall>b \<in> A. hdr_ok i p (om_hdr m b))"

text \<open>The fields of an entry that allocation and release do not change.\<close>

definition same_pool :: "pool_entry_s \<Rightarrow> pool_entry_s \<Rightarrow> bool" where
  "same_pool p q \<longleftrightarrow> pl_params q = pl_params p \<and> pl_buf_num q = pl_buf_num p \<and>
     pl_seg_size q = pl_seg_size p \<and> pl_headroom q = pl_headroom p \<and> pl_tailroom q = pl_tailroom p \<and>
     pl_unsegmented q = pl_unsegmented p \<and> pl_zeroized q = pl_zeroized p \<and>
     pl_pool_shm q = pl_pool_shm p \<and> pl_predefined q = pl_predefined p \<and>
     pl_buf_stride q = pl_buf_stride p \<and> pl_udata_size q = pl_udata_size p"

lemma same_pool_refl [simp]: "same_pool p p"
  by (simp add: same_pool_def)

lemma same_pool_trans: "same_pool p q \<Longrightarrow> same_pool q r \<Longrightarrow> same_pool p r"
  by (simp add: same_pool_def)

lemma hdr_ok_same: "same_pool p q \<Longrightarrow> hdr_ok i q h = hdr_ok i p h"
  by (simp add: hdr_ok_def same_pool_def)

lemma get_buf_multi_parts:
  assumes "pool_parts A i p m cache cs owned"
  obtains bufs p' where "get_buf_multi p n = Some (bufs, p')" "same_pool p p'"
    "bufs = take (min (unat n) 16) (ring_list (pl_ring p))"
    "distinct bufs" "set bufs \<inter> owned = {}" "set bufs \<subseteq> A"
    "pool_parts A i p' m cache cs (set bufs \<union> owned)"
proof -
  define n1 where "n1 = (if n > POOL_MULTI_MAX then POOL_MULTI_MAX else n)"
  have n1: "unat n1 = min (unat n) 16" by (simp add: n1_def POOL_MULTI_MAX_def u32_less min_def)
  let ?r = "pl_ring p"
  from assms have inv: "ring_inv ?r" by (simp add: pool_parts_def)
  obtain left r' where g: "odp_buffer_ring_get_multi ?r n1 0 =
      Some (take (get_amount (unat n1) 0 (ring_count ?r)) (ring_list ?r), left, r')"
    and r': "ring_inv r'" "ring_list r' = drop (get_amount (unat n1) 0 (ring_count ?r)) (ring_list ?r)"
      "br_buf_num r' = br_buf_num ?r"
    using ring_get_multi_ok [OF inv refl, of n1 0] by auto
  let ?k = "min (unat n) 16"
  have "get_amount (unat n1) 0 (ring_count ?r) = min ?k (length (ring_list ?r))"
    using n1 by (simp add: get_amount_def)
  then have tk: "take (get_amount (unat n1) 0 (ring_count ?r)) (ring_list ?r) = take ?k (ring_list ?r)"
    "drop (get_amount (unat n1) 0 (ring_count ?r)) (ring_list ?r) = drop ?k (ring_list ?r)"
    by (simp_all add: min_def)
  obtain p' where p': "get_buf_multi p n = Some (take ?k (ring_list ?r), p')"
    "same_pool p p'" "pl_ring p' = r'"
    using g tk unfolding get_buf_multi_def n1_def [symmetric] by (auto simp: same_pool_def Let_def)
  define bs rs where "bs = take ?k (ring_list ?r)" and "rs = drop ?k (ring_list ?r)"
  have app: "ring_list ?r = bs @ rs" by (simp add: bs_def rs_def)
  from assms have dist: "distinct (bs @ rs @ cs)"
    and disj: "(set bs \<union> set rs \<union> set cs) \<inter> owned = {}"
    and A: "set bs \<union> set rs \<union> set cs \<union> owned = A"
    unfolding pool_parts_def app by auto
  have "pool_parts A i p' m cache cs (set bs \<union> owned)"
    unfolding pool_parts_def p'(3) r'(2) tk rs_def [symmetric]
  proof (intro conjI)
    show "ring_inv r'" by (rule r'(1))
    show "unat (br_buf_num r') = Suc (unat (pl_buf_num p'))"
      using assms r'(3) p'(2) by (simp add: pool_parts_def same_pool_def)
    show "chain (next_ptr m) (ptr_opt cache) cs None" "finite A" "0 \<notin> A"
      using assms by (simp_all add: pool_parts_def)
    show "card A = unat (pl_buf_num p')" using assms p'(2) by (simp add: pool_parts_def same_pool_def)
    show "\<forall>b \<in> A. hdr_ok i p' (om_hdr m b)"
      using assms hdr_ok_same [OF p'(2)] by (simp add: pool_parts_def)
    show "distinct (rs @ cs)" "(set rs \<union> set cs) \<inter> (set bs \<union> owned) = {}"
      "set rs \<union> set cs \<union> (set bs \<union> owned) = A"
      using dist disj A by auto
  qed
  then show ?thesis
    using that [OF p'(1,2)] dist disj A unfolding bs_def [symmetric] by auto
qed

text \<open>Operations that change no link, pool handle or size of a header.\<close>

definition mem_same :: "odp_mem \<Rightarrow> odp_mem \<Rightarrow> bool" where
  "mem_same m m' \<longleftrightarrow> (\<forall>a. bh_next (om_hdr m' a) = bh_next (om_hdr m a) \<and>
     bh_pool_hdl (om_hdr m' a) = bh_pool_hdl (om_hdr m a) \<and> bh_size (om_hdr m' a) = bh_size (om_hdr m a) \<and>
     bh_addr (om_hdr m' a) = bh_addr (om_hdr m a) \<and>
     bh_uarea_addr (om_hdr m' a) = bh_uarea_addr (om_hdr m a))"

lemma mem_same_refl [simp]: "mem_same m m"
  by (simp add: mem_same_def)

lemma mem_same_trans: "mem_same m m1 \<Longrightarrow> mem_same m1 m2 \<Longrightarrow> mem_same m m2"
  by (simp add: mem_same_def)

lemma mem_same_next: "mem_same m m' \<Longrightarrow> next_ptr m' = next_ptr m"
  by (simp add: mem_same_def next_ptr_def fun_eq_iff)

lemma mem_same_hdr_ok: "mem_same m m' \<Longrightarrow> hdr_ok i p (om_hdr m' a) = hdr_ok i p (om_hdr m a)"
  by (simp add: mem_same_def hdr_ok_def)

lemma packet_init_same: "mem_same m (packet_init p m b sz parse)"
  by (simp add: mem_same_def)

lemma ret_buf_init_same: "mem_same m (ret_buf_init p bs m)"
proof (induction bs arbitrary: m)
  case (Cons b bs)
  show ?case by simp (rule mem_same_trans [OF packet_init_same Cons.IH])
qed simp

lemma alloc_init_same: "mem_same m (alloc_init p bs m)"
proof (induction bs arbitrary: m)
  case (Cons b bs)
  show ?case
    by simp (rule mem_same_trans [OF _ Cons.IH], simp add: mem_same_def upd_hdr_def)
qed simp

lemma alloc_init_frame:
  "om_byte (alloc_init p bs m) = om_byte m" "a \<notin> set bs \<Longrightarrow> om_hdr (alloc_init p bs m) a = om_hdr m a"
  by (induction bs arbitrary: m) (auto simp: upd_hdr_def)

lemma pool_parts_mem_same:
  "pool_parts A i p m cache cs owned \<Longrightarrow> mem_same m m' \<Longrightarrow> pool_parts A i p m' cache cs owned"
  by (simp add: pool_parts_def mem_same_next mem_same_hdr_ok)

lemma ret_buf_ring:
  assumes inv: "ring_inv (pl_ring p)"
    and room: "ring_count (pl_ring p) + length bs < unat (br_buf_num (pl_ring p))"
  obtains p' m' where "ret_buf p m bs = Some (p', m')" "same_pool p p'" "mem_same m m'"
    "ring_inv (pl_ring p')" "br_buf_num (pl_ring p') = br_buf_num (pl_ring p)"
    "ring_list (pl_ring p') = ring_list (pl_ring p) @ bs"
proof -
  let ?r = "pl_ring p" and ?n = "of_nat (length bs) :: u32"
  let ?m = "if pp_type (pl_params p) = ODP_POOL_PACKET then ret_buf_init p bs m else m"
  have "length bs < 4294967296" using room u32_bound [of "br_buf_num ?r"] by linarith
  then have n: "unat ?n = length bs" by (simp add: unat_of_nat_small)
  obtain left r' where push: "odp_buffer_ring_push_multi ?r bs ?n = Some (left, r')"
    and r': "ring_inv r'" "ring_list r' = ring_list ?r @ bs" "br_buf_num r' = br_buf_num ?r"
    using ring_push_multi_ok [OF inv room n] by auto
  obtain p' where p': "ret_buf p m bs = Some (p', ?m)" "same_pool p p'" "pl_ring p' = r'"
    using push unfolding ret_buf_def by (auto simp: same_pool_def Let_def)
  have "mem_same m ?m" using ret_buf_init_same by simp
  with that p' r' show ?thesis by simp
qed

lemma ret_buf_parts:
  assumes parts: "pool_parts A i p m cache cs owned"
    and bs: "distinct bs" "set bs \<subseteq> owned"
  obtains p' m' where "ret_buf p m bs = Some (p', m')" "same_pool p p'" "mem_same m m'"
    "ring_list (pl_ring p') = ring_list (pl_ring p) @ bs"
    "pool_parts A i p' m' cache cs (owned - set bs)"
proof -
  let ?r = "pl_ring p"
  from parts have inv: "ring_inv ?r" and N: "unat (br_buf_num ?r) = Suc (unat (pl_buf_num p))"
    and dist: "distinct (ring_list ?r @ cs)" and disj: "(set (ring_list ?r) \<union> set cs) \<inter> owned = {}"
    and A: "set (ring_list ?r) \<union> set cs \<union> owned = A" and fin: "finite A" "card A = unat (pl_buf_num p)"
    by (auto simp: pool_parts_def)
  have "card (set (ring_list ?r) \<union> set bs) \<le> card A"
    using A bs(2) fin(1) by (intro card_mono) auto
  moreover have "card (set (ring_list ?r) \<union> set bs) = ring_count ?r + length bs"
    using dist bs disj by (subst card_Un_disjoint) (auto simp: distinct_card)
  ultimately have room: "ring_count ?r + length bs < unat (br_buf_num ?r)" using N fin(2) by simp
  obtain p' m' where r: "ret_buf p m bs = Some (p', m')" "same_pool p p'" "mem_same m m'"
    and p': "ring_inv (pl_ring p')" "br_buf_num (pl_ring p') = br_buf_num ?r"
      "ring_list (pl_ring p') = ring_list ?r @ bs"
    by (rule ret_buf_ring [OF inv room])
  have "pool_parts A i p' m cache cs (owned - set bs)"
    unfolding pool_parts_def p'(3)
  proof (intro conjI)
    show "ring_inv (pl_ring p')" by (rule p'(1))
    show "unat (br_buf_num (pl_ring p')) = Suc (unat (pl_buf_num p'))" "card A = unat (pl_buf_num p')"
      using N p'(2) r(2) fin by (simp_all add: same_pool_def)
    show "chain (next_ptr m) (ptr_opt cache) cs None" "finite A" "0 \<notin> A"
      using parts by (simp_all add: pool_parts_def)
    show "\<forall>b \<in> A. hdr_ok i p' (om_hdr m b)"
      using parts hdr_ok_same [OF r(2)] by (simp add: pool_parts_def)
    show "distinct ((ring_list ?r @ bs) @ cs)"
      "(set (ring_list ?r @ bs) \<union> set cs) \<inter> (owned - set bs) = {}"
      "set (ring_list ?r @ bs) \<union> set cs \<union> (owned - set bs) = A"
      using dist disj A bs by auto
  qed
  then have "pool_parts A i p' m' cache cs (owned - set bs)" using r(3) by (rule pool_parts_mem_same)
  with that [OF r] p'(3) show ?thesis by simp
qed

text \<open>The cache as a stack.\<close>

lemma ret_local_buf_parts:
  assumes parts: "pool_parts A i p m cache cs owned" and b: "b \<in> owned"
    and res: "ret_local_buf cache m b b = (cache', m')"
  shows "pool_parts A i p m' cache' (b # cs) (owned - {b})"
proof -
  from res have c: "cache' = b" and m': "m' = upd_hdr b (\<lambda>h. h\<lparr>bh_next := cache\<rparr>) m"
    by (auto simp: ret_local_buf_def)
  from parts b have nz: "b \<noteq> 0" and nin: "b \<notin> set cs" by (auto simp: pool_parts_def)
  have nx: "next_ptr m' = (next_ptr m)(b := ptr_opt cache)"
    by (simp add: m' upd_hdr_def next_ptr_opt fun_eq_iff)
  have "chain (next_ptr m') (ptr_opt cache') (b # cs) None"
    using parts nz nin by (simp add: nx c pool_parts_def)
  moreover have "hdr_ok i p (om_hdr m' a) = hdr_ok i p (om_hdr m a)" for a
    by (simp add: m' upd_hdr_def hdr_ok_def)
  ultimately show ?thesis using parts b by (auto simp: pool_parts_def)
qed

lemma get_local_buf_parts:
  assumes parts: "pool_parts A i p m cache cs owned"
    and sz: "unat totsize \<le> unat (pl_seg_size p)" "unat (pl_seg_size p) < 2 ^ 16"
    and res: "get_local_buf cache m totsize = (b, cache')"
  shows "if cs = [] then b = 0 \<and> cache' = cache
         else b = hd cs \<and> b \<noteq> 0 \<and> pool_parts A i p m cache' (tl cs) (insert b owned)"
proof (cases cs)
  case Nil
  with parts have "cache = 0" by (auto simp: pool_parts_def ptr_opt_def split: if_splits)
  with Nil res show ?thesis by (simp add: get_local_buf_def)
next
  case (Cons c cs')
  with parts have c: "cache = c" "c \<noteq> 0" and ch: "chain (next_ptr m) (next_ptr m c) cs' None"
    by (auto simp: pool_parts_def ptr_opt_def split: if_splits)
  have "hdr_ok i p (om_hdr m c)" using parts Cons by (auto simp: pool_parts_def)
  then have "\<not> ucast (bh_size (om_hdr m c)) < totsize"
    using sz by (simp add: u32_less hdr_ok_def unat_ucast_32_16)
  then have r: "b = c" "cache' = bh_next (om_hdr m c)"
    using res c by (auto simp: get_local_buf_def Let_def)
  have "pool_parts A i p m cache' cs' (insert c owned)"
    using parts ch Cons by (auto simp: pool_parts_def r next_ptr_opt)
  with Cons r c show ?thesis by simp
qed

lemma local_bufs_parts:
  assumes "pool_parts A i p m cache cs owned"
    and sz: "unat totsize \<le> unat (pl_seg_size p)" "unat (pl_seg_size p) < 2 ^ 16"
    and "local_bufs cache m totsize num = (bs, cache')"
  shows "bs = take num cs \<and> pool_parts A i p m cache' (drop num cs) (set bs \<union> owned)"
  using assms(1,4)
proof (induction num arbitrary: cache cs owned bs cache')
  case 0
  then show ?case by simp
next
  case (Suc num)
  obtain b cache1 where g: "get_local_buf cache m totsize = (b, cache1)" by fastforce
  note gp = get_local_buf_parts [OF Suc.prems(1) sz g]
  show ?case
  proof (cases cs)
    case Nil
    with gp g Suc.prems show ?thesis by simp
  next
    case (Cons c cs')
    with gp have b: "b = c" "b \<noteq> 0" "pool_parts A i p m cache1 cs' (insert b owned)" by auto
    obtain bs1 cache2 where l: "local_bufs cache1 m totsize num = (bs1, cache2)" by fastforce
    from Suc.IH [OF b(3) l] b Cons g l Suc.prems(2) show ?thesis by auto
  qed
qed

text \<open>The total size of a request is a 32-bit sum.\<close>

lemma buffer_alloc_parts_mod:
  assumes parts: "pool_parts A i p m cache cs owned"
    and sz: "unat (pl_headroom p + sz + pl_tailroom p) \<le> unat (pl_seg_size p)"
      "unat (pl_seg_size p) < 2 ^ 16"
    and num: "num < 2 ^ 32"
  obtains bs p' cache' cs' m' where "buffer_alloc p cache m sz num = Some (Some bs, p', cache', m')"
    "same_pool p p'" "mem_same m m'" "distinct bs" "set bs \<inter> owned = {}" "set bs \<subseteq> A"
    "pool_parts A i p' m' cache' cs' (set bs \<union> owned)"
    "bs = (if cs \<noteq> [] \<and> num \<noteq> 0 then take num cs else take (min num 16) (ring_list (pl_ring p)))"
    "om_byte m' = om_byte m" "\<And>a. a \<notin> set bs \<Longrightarrow> om_hdr m' a = om_hdr m a"
proof -
  let ?t = "pl_headroom p + sz + pl_tailroom p"
  from sz have ok: "\<not> ?t > pl_seg_size p" and tle: "unat ?t \<le> unat (pl_seg_size p)"
    by (simp_all add: u32_less)
  obtain lb cache1 where l: "local_bufs cache m ?t num = (lb, cache1)" by fastforce
  note lp = local_bufs_parts [OF parts tle sz(2) l]
  show ?thesis
  proof (cases "lb = []")
    case True
    with lp have emp: "cs = [] \<or> num = 0"
      and lparts: "pool_parts A i p m cache1 (drop num cs) owned" by auto
    obtain bs p' where g: "get_buf_multi p (of_nat num) = Some (bs, p')" "same_pool p p'"
      "bs = take (min (unat (of_nat num :: u32)) 16) (ring_list (pl_ring p))"
      "distinct bs" "set bs \<inter> owned = {}" "set bs \<subseteq> A"
      "pool_parts A i p' m cache1 (drop num cs) (set bs \<union> owned)"
      by (rule get_buf_multi_parts [OF lparts, of "of_nat num"])
    have "unat (of_nat num :: u32) = num" using num by (simp add: unat_of_nat_small)
    moreover have "buffer_alloc p cache m sz num = Some (Some bs, p', cache1, alloc_init p' bs m)"
      using ok l True g(1) by (simp add: buffer_alloc_def ODP_BUFFER_MAX_SEG_def)
    moreover have "pool_parts A i p' (alloc_init p' bs m) cache1 (drop num cs) (set bs \<union> owned)"
      by (rule pool_parts_mem_same [OF g(7) alloc_init_same])
    moreover note alloc_init_same [of m p' bs] alloc_init_frame [where p = p' and bs = bs and m = m]
    ultimately show ?thesis using that g emp by auto
  next
    case False
    from lp have "distinct lb" "set lb \<inter> owned = {}" "set lb \<subseteq> A"
      using parts by (auto simp: pool_parts_def dest: in_set_takeD)
    moreover have "buffer_alloc p cache m sz num = Some (Some lb, p, cache1, alloc_init p lb m)"
      using ok l False by (simp add: buffer_alloc_def ODP_BUFFER_MAX_SEG_def)
    moreover have "pool_parts A i p (alloc_init p lb m) cache1 (drop num cs) (set lb \<union> owned)"
      using lp alloc_init_same pool_parts_mem_same by blast
    moreover have "cs \<noteq> [] \<and> num \<noteq> 0" using lp False by auto
    ultimately show ?thesis using that [of lb p cache1 "alloc_init p lb m"] lp alloc_init_same alloc_init_frame by auto
  qed
qed

lemma buffer_alloc_parts:
  assumes parts: "pool_parts A i p m cache cs owned"
    and sz: "unat (pl_headroom p) + unat sz + unat (pl_tailroom p) \<le> unat (pl_seg_size p)"
      "unat (pl_seg_size p) < 2 ^ 16"
    and num: "num < 2 ^ 32"
  obtains bs p' cache' cs' m' where "buffer_alloc p cache m sz num = Some (Some bs, p', cache', m')"
    "same_pool p p'" "mem_same m m'" "distinct bs" "set bs \<inter> owned = {}" "set bs \<subseteq> A"
    "pool_parts A i p' m' cache' cs' (set bs \<union> owned)"
    "bs = (if cs \<noteq> [] \<and> num \<noteq> 0 then take num cs else take (min num 16) (ring_list (pl_ring p)))"
    "om_byte m' = om_byte m" "\<And>a. a \<notin> set bs \<Longrightarrow> om_hdr m' a = om_hdr m a"
proof -
  have "unat (pl_headroom p + sz + pl_tailroom p) = unat (pl_headroom p) + unat sz + unat (pl_tailroom p)"
    using assms(2,3) by (subst unat_add_small; subst unat_add_small) simp_all
  then have "unat (pl_headroom p + sz + pl_tailroom p) \<le> unat (pl_seg_size p)" using assms(2) by simp
  then show thesis by (rule buffer_alloc_parts_mod [OF parts _ assms(3,4)]) (rule that, assumption+)
qed

text \<open>Flushing moves the whole cache to the ring.\<close>

lemma flush_loop_parts:
  assumes "pool_parts A i p m buf cs (set bs \<union> owned)" "distinct bs" "set bs \<inter> owned = {}"
    and "length bs < 16"
  shows "\<exists>p' m'. flush_loop p m buf bs = Some (p', m') \<and> same_pool p p' \<and> mem_same m m' \<and>
           ring_list (pl_ring p') = ring_list (pl_ring p) @ bs @ cs \<and>
           pool_parts A i p' m' 0 [] owned"
  using assms
proof (induction cs arbitrary: p m buf bs)
  case Nil
  then have z: "buf = 0" by (auto simp: pool_parts_def ptr_opt_def split: if_splits)
  show ?case
  proof (cases "bs = []")
    case True
    with z Nil show ?thesis by (auto simp: flush_loop.simps)
  next
    case False
    obtain p' m' where "ret_buf p m bs = Some (p', m')" "same_pool p p'" "mem_same m m'"
      "ring_list (pl_ring p') = ring_list (pl_ring p) @ bs"
      "pool_parts A i p' m' buf [] ((set bs \<union> owned) - set bs)"
      by (rule ret_buf_parts [OF Nil(1,2)]) auto
    moreover have "(set bs \<union> owned) - set bs = owned" using Nil(3) by auto
    ultimately show ?thesis using z False by (auto simp: flush_loop.simps)
  qed
next
  case (Cons c cs)
  let ?nx = "bh_next (om_hdr m c)"
  from Cons.prems(1) have b: "buf = c" "c \<noteq> 0"
    and c: "c \<notin> set bs \<union> owned" "c \<in> A"
    by (auto simp: pool_parts_def ptr_opt_def split: if_splits)
  have parts: "pool_parts A i p m ?nx cs (set (bs @ [c]) \<union> owned)"
    using Cons.prems(1) b by (auto simp: pool_parts_def next_ptr_opt)
  have d: "distinct (bs @ [c])" "set (bs @ [c]) \<inter> owned = {}" using Cons.prems(2,3) c by auto
  show ?case
  proof (cases "length (bs @ [c]) = 16")
    case True
    obtain p1 m1 where r: "ret_buf p m (bs @ [c]) = Some (p1, m1)" "same_pool p p1" "mem_same m m1"
      "ring_list (pl_ring p1) = ring_list (pl_ring p) @ (bs @ [c])"
      "pool_parts A i p1 m1 ?nx cs ((set (bs @ [c]) \<union> owned) - set (bs @ [c]))"
      by (rule ret_buf_parts [OF parts d(1)]) auto
    have "(set (bs @ [c]) \<union> owned) - set (bs @ [c]) = set [] \<union> owned" using d(2) by auto
    with r(5) Cons.IH [of p1 m1 ?nx "[]"] obtain p' m' where
      "flush_loop p1 m1 ?nx [] = Some (p', m')" "same_pool p1 p'" "mem_same m1 m'"
      "ring_list (pl_ring p') = ring_list (pl_ring p1) @ [] @ cs" "pool_parts A i p' m' 0 [] owned"
      by auto
    with r b True show ?thesis
      by (auto simp: flush_loop.simps [of p m] intro: same_pool_trans mem_same_trans)
  next
    case False
    with Cons.prems(4) have "length (bs @ [c]) < 16" by simp
    from Cons.IH [OF parts d this] b False show ?thesis
      by (auto simp: flush_loop.simps [of p m])
  qed
qed

lemma flush_cache_parts:
  assumes "pool_parts A i p m cache cs owned"
  obtains p' m' where "flush_cache cache p m = Some (0, p', m')" "same_pool p p'" "mem_same m m'"
    "ring_list (pl_ring p') = ring_list (pl_ring p) @ cs" "pool_parts A i p' m' 0 [] owned"
  using flush_loop_parts [of A i p m cache cs "[]" owned] assms by (auto simp: flush_cache_def)

section \<open>A pool in use\<close>

definition pool_sizes_ok :: "pool_entry_s \<Rightarrow> bool" where
  "pool_sizes_ok p \<longleftrightarrow>
     unat (pl_headroom p) + unat (pp_size (pl_params p)) + unat (pl_tailroom p) \<le> unat (pl_seg_size p) \<and>
     unat (pl_seg_size p) < 2 ^ 16"

definition pool_ok :: "u32 set \<Rightarrow> nat \<Rightarrow> pool_table \<Rightarrow> u32 set \<Rightarrow> bool" where
  "pool_ok A i t owned \<longleftrightarrow>
     i < length (pt_pool t) \<and> length (pt_cache t) = length (pt_pool t) \<and>
     pool_sizes_ok (pt_pool t ! i) \<and>
     (\<exists>cs. pool_parts A i (pt_pool t ! i) (pt_mem t) (pt_cache t ! i) cs owned)"

lemma pool_sizes_same: "same_pool p q \<Longrightarrow> pool_sizes_ok q = pool_sizes_ok p"
  by (simp add: same_pool_def pool_sizes_ok_def)

lemma pool_alloc_ok:
  assumes "pool_ok A i t owned" "n < 2 ^ 32"
  obtains bs t' where "odp_buffer_alloc_multi t i n = Some (Some bs, t')" "pool_ok A i t' (set bs \<union> owned)"
    "distinct bs" "set bs \<inter> owned = {}" "set bs \<subseteq> A"
proof -
  let ?p = "pt_pool t ! i"
  from assms obtain cs where parts: "pool_parts A i ?p (pt_mem t) (pt_cache t ! i) cs owned"
    and l: "i < length (pt_pool t)" "length (pt_cache t) = length (pt_pool t)" and sz: "pool_sizes_ok ?p"
    by (auto simp: pool_ok_def)
  obtain bs p' cache' cs' m' where
    a: "buffer_alloc ?p (pt_cache t ! i) (pt_mem t) (pp_size (pl_params ?p)) n = Some (Some bs, p', cache', m')"
    and p': "same_pool ?p p'" "distinct bs" "set bs \<inter> owned = {}" "set bs \<subseteq> A"
      "pool_parts A i p' m' cache' cs' (set bs \<union> owned)"
    by (rule buffer_alloc_parts [OF parts, of "pp_size (pl_params ?p)" n])
      (use sz assms(2) in \<open>simp_all add: pool_sizes_ok_def\<close>)
  show ?thesis
    by (rule that [of bs "t\<lparr>pt_pool := (pt_pool t)[i := p'], pt_cache := (pt_cache t)[i := cache'], pt_mem := m'\<rparr>"])
      (use a p' l sz pool_sizes_same [OF p'(1)]
       in \<open>auto simp: odp_buffer_alloc_multi_def pool_alloc_def pool_ok_def\<close>)
qed

lemma pool_ret_ok:
  assumes "pool_ok A i t owned" "distinct bs" "set bs \<subseteq> owned"
  obtains t' where "pool_ret t i bs = Some t'" "pool_ok A i t' (owned - set bs)"
proof -
  let ?p = "pt_pool t ! i"
  from assms obtain cs where parts: "pool_parts A i ?p (pt_mem t) (pt_cache t ! i) cs owned"
    and l: "i < length (pt_pool t)" "length (pt_cache t) = length (pt_pool t)" and sz: "pool_sizes_ok ?p"
    by (auto simp: pool_ok_def)
  obtain p' m' where r: "ret_buf ?p (pt_mem t) bs = Some (p', m')" "same_pool ?p p'"
    "pool_parts A i p' m' (pt_cache t ! i) cs (owned - set bs)"
    by (rule ret_buf_parts [OF parts assms(2,3)])
  show ?thesis
    by (rule that [of "t\<lparr>pt_pool := (pt_pool t)[i := p'], pt_mem := m'\<rparr>"])
      (use r l sz pool_sizes_same [OF r(2)] in \<open>auto simp: pool_ret_def pool_ok_def\<close>)
qed

lemma pool_ok_buf_pool: "pool_ok A i t owned \<Longrightarrow> b \<in> owned \<Longrightarrow> buf_pool t b = Some i"
  by (auto simp: pool_ok_def pool_parts_def hdr_ok_def buf_pool_def)

lemma pool_free_ok:
  assumes ok: "pool_ok A i t owned" and b: "b \<in> owned"
  obtains t' where "odp_buffer_free t b = Some t'" "pool_ok A i t' (owned - {b})"
proof (cases "pl_low_wm_assert (pt_pool t ! i) \<noteq> 0")
  case True
  obtain t' where "pool_ret t i [b] = Some t'" "pool_ok A i t' (owned - set [b])"
    by (rule pool_ret_ok [OF ok, of "[b]"]) (use b in auto)
  with True that pool_ok_buf_pool [OF ok b] show ?thesis by (simp add: odp_buffer_free_def)
next
  case False
  from ok obtain cs where parts: "pool_parts A i (pt_pool t ! i) (pt_mem t) (pt_cache t ! i) cs owned"
    and l: "i < length (pt_pool t)" "length (pt_cache t) = length (pt_pool t)"
    and sz: "pool_sizes_ok (pt_pool t ! i)"
    by (auto simp: pool_ok_def)
  obtain cache' m' where r: "ret_local_buf (pt_cache t ! i) (pt_mem t) b b = (cache', m')" by fastforce
  have "odp_buffer_free t b = Some (t\<lparr>pt_cache := (pt_cache t)[i := cache'], pt_mem := m'\<rparr>)"
    using False r pool_ok_buf_pool [OF ok b] by (simp add: odp_buffer_free_def)
  moreover have "pool_ok A i (t\<lparr>pt_cache := (pt_cache t)[i := cache'], pt_mem := m'\<rparr>) (owned - {b})"
    using ret_local_buf_parts [OF parts b r] l sz by (auto simp: pool_ok_def)
  ultimately show ?thesis using that by blast
qed

lemma pool_free_multi_ok:
  assumes ok: "pool_ok A i t owned" and bs: "distinct bs" "set bs \<subseteq> owned"
  obtains t' where "odp_buffer_free_multi t bs = Some t'" "pool_ok A i t' (owned - set bs)"
proof (cases bs)
  case Nil
  with ok that show ?thesis by auto
next
  case (Cons b bs')
  then have all: "\<forall>x \<in> set bs'. buf_pool t x = buf_pool t b" "buf_pool t b = Some i"
    using bs(2) pool_ok_buf_pool [OF ok] by auto
  then have tw: "takeWhile (\<lambda>x. buf_pool t x = Some i) bs' = bs'"
    "dropWhile (\<lambda>x. buf_pool t x = Some i) bs' = []"
    by (simp_all add: takeWhile_eq_all_conv)
  have "odp_buffer_free_multi t bs = pool_ret t i bs"
    unfolding Cons by (simp add: all(2) tw)
  moreover obtain t' where "pool_ret t i bs = Some t'" "pool_ok A i t' (owned - set bs)"
    by (rule pool_ret_ok [OF ok bs])
  ultimately show ?thesis using that by simp
qed

text \<open>
  A client of one pool: a history of calls, with the set of buffers it holds. The run
  is stuck (\<open>None\<close>) when a call does not return, when an allocation delivers a buffer
  that is already held, or the same buffer twice. A release of a buffer that is not
  held is not issued.
\<close>

datatype pool_op = Op_alloc nat | Op_free u32 | Op_free_multi "u32 list"

fun pool_run :: "nat \<Rightarrow> pool_op list \<Rightarrow> pool_table \<Rightarrow> u32 set \<Rightarrow> (pool_table \<times> u32 set) option" where
  "pool_run i [] t owned = Some (t, owned)"
| "pool_run i (Op_alloc n # ops) t owned =
     (case odp_buffer_alloc_multi t i n of
        Some (Some bs, t') \<Rightarrow>
          if distinct bs \<and> set bs \<inter> owned = {} then pool_run i ops t' (set bs \<union> owned) else None
      | _ \<Rightarrow> None)"
| "pool_run i (Op_free b # ops) t owned =
     (if b \<in> owned
      then case odp_buffer_free t b of Some t' \<Rightarrow> pool_run i ops t' (owned - {b}) | None \<Rightarrow> None
      else pool_run i ops t owned)"
| "pool_run i (Op_free_multi bs # ops) t owned =
     (if distinct bs \<and> set bs \<subseteq> owned
      then case odp_buffer_free_multi t bs of
             Some t' \<Rightarrow> pool_run i ops t' (owned - set bs) | None \<Rightarrow> None
      else pool_run i ops t owned)"

fun op_small :: "pool_op \<Rightarrow> bool" where
  "op_small (Op_alloc n) \<longleftrightarrow> n < 2 ^ 32"
| "op_small _ \<longleftrightarrow> True"

lemma pool_run_ok:
  assumes "pool_ok A i t owned" "list_all op_small ops"
  shows "\<exists>t' owned'. pool_run i ops t owned = Some (t', owned') \<and> pool_ok A i t' owned'"
  using assms
proof (induction ops arbitrary: t owned)
  case Nil
  then show ?case by simp
next
  case (Cons op ops)
  show ?case
  proof (cases op)
    case (Op_alloc n)
    obtain bs t' where "odp_buffer_alloc_multi t i n = Some (Some bs, t')"
      "pool_ok A i t' (set bs \<union> owned)" "distinct bs" "set bs \<inter> owned = {}"
      by (rule pool_alloc_ok [OF Cons.prems(1), of n]) (use Cons.prems(2) Op_alloc in auto)
    with Cons Op_alloc show ?thesis by simp
  next
    case (Op_free b)
    then show ?thesis using Cons by (auto elim!: pool_free_ok [OF Cons.prems(1), of b])
  next
    case (Op_free_multi bs)
    then show ?thesis using Cons by (auto elim!: pool_free_multi_ok [OF Cons.prems(1), of bs])
  qed
qed

section \<open>The memory of a new pool\<close>

definition rup64 :: "nat \<Rightarrow> nat" where
  "rup64 x = 64 * ((x + 63) div 64)"

lemma rup64_bounds: "x \<le> rup64 x" "rup64 x < x + 64"
  using roundup_nat [of 64 x] by (simp_all add: rup64_def)

lemma roundup_cache_line:
  assumes "unat x + 64 \<le> 2 ^ 32"
  shows "unat (ODP_ALIGN_ROUNDUP x ODP_CACHE_LINE_SIZE) = rup64 (unat x)"
  using roundup_u32(1) [of ODP_CACHE_LINE_SIZE x] assms by (simp add: ODP_CACHE_LINE_SIZE_def rup64_def)

text \<open>A layout whose regions fit in the address space behind \<open>base\<close>.\<close>

definition ly_ok :: "pool_layout \<Rightarrow> u32 \<Rightarrow> bool" where
  "ly_ok ly base \<longleftrightarrow>
     (let n = unat (ly_buf_num ly); s = unat (ly_buf_stride ly) in
      0 < n \<and> 0 < s \<and> s \<le> unat base \<and> ly_seg_size ly = ly_blk_size ly \<and>
      n * unat (ly_blk_size ly) + 64 \<le> 2 ^ 32 \<and> 4 * (n + 1) + 64 \<le> 2 ^ 32 \<and>
      unat base + rup64 (4 * (n + 1)) + rup64 (n * unat (ly_blk_size ly)) + n * s +
        n * unat (ly_udata_stride ly) < 2 ^ 32)"

lemma unat_mult_small:
  fixes a b :: u32
  assumes "unat a * unat b < 2 ^ 32"
  shows "unat (a * b) = unat a * unat b"
  using assms by (simp add: unat_word_ariths)

text \<open>The region bases as natural numbers.\<close>

definition block_at :: "pool_layout \<Rightarrow> u32 \<Rightarrow> nat" where
  "block_at ly base = unat base + rup64 (4 * (unat (ly_buf_num ly) + 1))"

definition mdata_at :: "pool_layout \<Rightarrow> u32 \<Rightarrow> nat" where
  "mdata_at ly base = block_at ly base + rup64 (unat (ly_buf_num ly) * unat (ly_blk_size ly))"

definition udata_at :: "pool_layout \<Rightarrow> u32 \<Rightarrow> nat" where
  "udata_at ly base = mdata_at ly base + unat (ly_buf_num ly) * unat (ly_buf_stride ly)"

lemma ly_bases:
  assumes "ly_ok ly base"
  shows "unat (ly_block_base ly base) = block_at ly base"
    "unat (ly_mdata_base ly base) = mdata_at ly base"
    "unat (ly_udata_base ly base) = udata_at ly base"
    "unat (ly_block_size ly) = unat (ly_buf_num ly) * unat (ly_blk_size ly)"
proof -
  let ?n = "unat (ly_buf_num ly)"
  from assms have ok: "?n * unat (ly_blk_size ly) + 64 \<le> 2 ^ 32" "4 * (?n + 1) + 64 \<le> 2 ^ 32"
    "block_at ly base + rup64 (?n * unat (ly_blk_size ly)) + ?n * unat (ly_buf_stride ly) < 2 ^ 32"
    by (simp_all add: ly_ok_def Let_def block_at_def)
  have "unat (ly_buf_num ly + 1) = ?n + 1" using ok(2) by (subst unat_add_small) simp_all
  then have rs: "unat (ly_ring_size ly) = 4 * (?n + 1)"
    unfolding ly_ring_size_def using ok(2) by (subst unat_mult_small) simp_all
  have bs: "unat (ly_block_size ly) = ?n * unat (ly_blk_size ly)"
    using ok(1) unfolding ly_block_size_def by (intro unat_mult_small) simp
  then show "unat (ly_block_size ly) = ?n * unat (ly_blk_size ly)" .
  have bb: "ly_block_base ly base = base + ODP_ALIGN_ROUNDUP (ly_ring_size ly) ODP_CACHE_LINE_SIZE"
    by (simp add: ly_block_base_def ly_ring_pad_size_def)
  show b: "unat (ly_block_base ly base) = block_at ly base"
    unfolding bb using roundup_cache_line [of "ly_ring_size ly"] rs ok(2,3)
    by (subst unat_add_small) (simp_all add: block_at_def)
  have mb: "ly_mdata_base ly base =
      ly_block_base ly base + ODP_ALIGN_ROUNDUP (ly_block_size ly) ODP_CACHE_LINE_SIZE"
    by (simp add: ly_mdata_base_def ly_pad_size_def)
  show m: "unat (ly_mdata_base ly base) = mdata_at ly base"
    unfolding mb using roundup_cache_line [of "ly_block_size ly"] bs b ok(1,3)
    by (subst unat_add_small) (simp_all add: mdata_at_def)
  have "unat (ly_mdata_size ly) = ?n * unat (ly_buf_stride ly)"
    using ok(3) unfolding ly_mdata_size_def by (intro unat_mult_small) simp
  with m ok(3) show "unat (ly_udata_base ly base) = udata_at ly base"
    unfolding ly_udata_base_def by (subst unat_add_small) (simp_all add: udata_at_def mdata_at_def)
qed

text \<open>The header, the data block and the user area with index \<open>j\<close>.\<close>

definition hdr_addr :: "pool_layout \<Rightarrow> u32 \<Rightarrow> nat \<Rightarrow> u32" where
  "hdr_addr ly base j = ly_mdata_base ly base + of_nat j * ly_buf_stride ly"

definition blk_addr :: "pool_layout \<Rightarrow> u32 \<Rightarrow> nat \<Rightarrow> u32" where
  "blk_addr ly base j = ly_block_base ly base + of_nat j * ly_seg_size ly"

definition udat_addr :: "pool_layout \<Rightarrow> u32 \<Rightarrow> nat \<Rightarrow> u32" where
  "udat_addr ly base j =
     (if ly_udata_stride ly = 0 then 0 else ly_udata_base ly base + of_nat j * ly_udata_stride ly)"

lemma hdr_addr_unat:
  assumes "ly_ok ly base" "j \<le> unat (ly_buf_num ly)"
  shows "unat (hdr_addr ly base j) = mdata_at ly base + j * unat (ly_buf_stride ly)"
    "unat (blk_addr ly base j) = block_at ly base + j * unat (ly_blk_size ly)"
proof -
  let ?n = "unat (ly_buf_num ly)"
  have j: "unat (of_nat j :: u32) = j"
    using assms(2) u32_bound [of "ly_buf_num ly"] by (simp add: unat_of_nat_small)
  have js: "j * unat (ly_buf_stride ly) \<le> ?n * unat (ly_buf_stride ly)"
    "j * unat (ly_blk_size ly) \<le> ?n * unat (ly_blk_size ly)"
    using assms(2) by (simp_all add: mult_le_mono1)
  have "?n * unat (ly_blk_size ly) \<le> rup64 (?n * unat (ly_blk_size ly))" by (rule rup64_bounds)
  moreover have "unat base + rup64 (4 * (?n + 1)) + rup64 (?n * unat (ly_blk_size ly)) +
      ?n * unat (ly_buf_stride ly) < 2 ^ 32"
    using assms(1) by (simp add: ly_ok_def Let_def)
  ultimately have b: "mdata_at ly base + j * unat (ly_buf_stride ly) < 2 ^ 32"
    "block_at ly base + j * unat (ly_blk_size ly) < 2 ^ 32"
    using js unfolding mdata_at_def block_at_def by linarith+
  have m: "unat (of_nat j * ly_buf_stride ly) = j * unat (ly_buf_stride ly)"
    "unat (of_nat j * ly_blk_size ly) = j * unat (ly_blk_size ly)"
    using b j by (simp_all add: unat_mult_small)
  show "unat (hdr_addr ly base j) = mdata_at ly base + j * unat (ly_buf_stride ly)"
    unfolding hdr_addr_def using m b ly_bases(2) [OF assms(1)] by (subst unat_add_small) simp_all
  have "ly_seg_size ly = ly_blk_size ly" using assms(1) by (simp add: ly_ok_def Let_def)
  then show "unat (blk_addr ly base j) = block_at ly base + j * unat (ly_blk_size ly)"
    unfolding blk_addr_def using m b ly_bases(1) [OF assms(1)] by (subst unat_add_small) simp_all
qed

lemma hdr_addr_inj:
  assumes "ly_ok ly base" "j \<le> unat (ly_buf_num ly)" "k \<le> unat (ly_buf_num ly)"
    and "hdr_addr ly base j = hdr_addr ly base k"
  shows "j = k"
proof -
  have "unat (hdr_addr ly base j) = unat (hdr_addr ly base k)" using assms(4) by simp
  then have "j * unat (ly_buf_stride ly) = k * unat (ly_buf_stride ly)"
    using hdr_addr_unat(1) [OF assms(1,2)] hdr_addr_unat(1) [OF assms(1,3)] by linarith
  moreover have "0 < unat (ly_buf_stride ly)" using assms(1) by (simp add: ly_ok_def Let_def)
  ultimately show ?thesis by simp
qed

text \<open>A header as the creation of the pool leaves it.\<close>

definition hdr_created :: "nat \<Rightarrow> pool_layout \<Rightarrow> u32 \<Rightarrow> odp_mem \<Rightarrow> nat \<Rightarrow> bool" where
  "hdr_created pid ly base m k \<longleftrightarrow> (let h = om_hdr m (hdr_addr ly base k) in
     bh_pool_hdl h = Some pid \<and> bh_size h = ucast (ly_seg_size ly) \<and>
     bh_addr h = blk_addr ly base k \<and> bh_uarea_addr h = udat_addr ly base k)"

lemma addr_pred:
  "hdr_addr ly base (Suc j) - ly_buf_stride ly = hdr_addr ly base j"
  "blk_addr ly base (Suc j) - ly_seg_size ly = blk_addr ly base j"
  "udat_addr ly base (Suc j) - ly_udata_stride ly = udat_addr ly base j"
  by (simp_all add: hdr_addr_def blk_addr_def udat_addr_def algebra_simps)

lemma pool_init_step:
  assumes ly: "ly_ok ly base" and j: "j < unat (ly_buf_num ly)"
    and p: "ring_inv (pl_ring p)" "unat (br_buf_num (pl_ring p)) = Suc (unat (ly_buf_num ly))"
      "pl_seg_size p = ly_seg_size ly"
    and rl: "ring_list (pl_ring p) = map (hdr_addr ly base) (rev [Suc j..<unat (ly_buf_num ly)])"
    and hdrs: "\<forall>k. j < k \<longrightarrow> k < unat (ly_buf_num ly) \<longrightarrow> hdr_created pid ly base m k"
  obtains p1 m1 where "ret_buf p (upd_hdr (hdr_addr ly base j)
        (pool_hdr_init pid p (udat_addr ly base j) (blk_addr ly base j)) m) [hdr_addr ly base j] = Some (p1, m1)"
    "same_pool p p1" "ring_inv (pl_ring p1)" "br_buf_num (pl_ring p1) = br_buf_num (pl_ring p)"
    "ring_list (pl_ring p1) = map (hdr_addr ly base) (rev [j..<unat (ly_buf_num ly)])"
    "\<forall>k. j \<le> k \<longrightarrow> k < unat (ly_buf_num ly) \<longrightarrow> hdr_created pid ly base m1 k"
proof -
  let ?a = "hdr_addr ly base j"
  define m0 where "m0 = upd_hdr ?a (pool_hdr_init pid p (udat_addr ly base j) (blk_addr ly base j)) m"
  have "length (ring_list (pl_ring p)) = unat (ly_buf_num ly) - Suc j" using rl by simp
  then have room: "ring_count (pl_ring p) + length [?a] < unat (br_buf_num (pl_ring p))"
    using p(2) j by simp
  obtain p1 m1 where r: "ret_buf p m0 [?a] = Some (p1, m1)" "same_pool p p1" "mem_same m0 m1"
    "ring_inv (pl_ring p1)" "br_buf_num (pl_ring p1) = br_buf_num (pl_ring p)"
    "ring_list (pl_ring p1) = ring_list (pl_ring p) @ [?a]"
    by (rule ret_buf_ring [OF p(1) room])
  have "hdr_created pid ly base m1 k" if k: "j \<le> k" "k < unat (ly_buf_num ly)" for k
  proof -
    have "hdr_created pid ly base m0 k"
    proof (cases "k = j")
      case True
      then show ?thesis by (simp add: m0_def hdr_created_def upd_hdr_def pool_hdr_init_def Let_def p(3))
    next
      case False
      then have "hdr_addr ly base k \<noteq> ?a" using hdr_addr_inj [OF ly, of k j] k j by auto
      then show ?thesis using hdrs k False by (simp add: m0_def hdr_created_def upd_hdr_def)
    qed
    then show ?thesis using r(3) by (simp add: hdr_created_def mem_same_def Let_def)
  qed
  moreover have "ring_list (pl_ring p1) = map (hdr_addr ly base) (rev [j..<unat (ly_buf_num ly)])"
    using r(6) rl j by (simp add: upt_conv_Cons)
  ultimately show ?thesis using that r unfolding m0_def by blast
qed

lemma pool_init_loop_ok:
  assumes ly: "ly_ok ly base" and j: "j < unat (ly_buf_num ly)"
    and p: "ring_inv (pl_ring p)" "unat (br_buf_num (pl_ring p)) = Suc (unat (ly_buf_num ly))"
      "pl_seg_size p = ly_seg_size ly"
    and rl: "ring_list (pl_ring p) = map (hdr_addr ly base) (rev [Suc j..<unat (ly_buf_num ly)])"
    and hdrs: "\<forall>k. j < k \<longrightarrow> k < unat (ly_buf_num ly) \<longrightarrow> hdr_created pid ly base m k"
  shows "\<exists>p' m'. pool_init_loop pid ly base (hdr_addr ly base j) (udat_addr ly base j)
             (blk_addr ly base j) p m = Some (p', m') \<and>
           same_pool p p' \<and> ring_inv (pl_ring p') \<and> br_buf_num (pl_ring p') = br_buf_num (pl_ring p) \<and>
           ring_list (pl_ring p') = map (hdr_addr ly base) (rev [0..<unat (ly_buf_num ly)]) \<and>
           (\<forall>k < unat (ly_buf_num ly). hdr_created pid ly base m' k)"
  using j p rl hdrs
proof (induction j arbitrary: p m)
  case 0
  obtain p1 m1 where r: "ret_buf p (upd_hdr (hdr_addr ly base 0)
        (pool_hdr_init pid p (udat_addr ly base 0) (blk_addr ly base 0)) m) [hdr_addr ly base 0] = Some (p1, m1)"
    "same_pool p p1" "ring_inv (pl_ring p1)" "br_buf_num (pl_ring p1) = br_buf_num (pl_ring p)"
    "ring_list (pl_ring p1) = map (hdr_addr ly base) (rev [0..<unat (ly_buf_num ly)])"
    "\<forall>k. 0 \<le> k \<longrightarrow> k < unat (ly_buf_num ly) \<longrightarrow> hdr_created pid ly base m1 k"
    by (rule pool_init_step [OF ly 0])
  have s: "0 < unat (ly_buf_stride ly)" "unat (ly_buf_stride ly) \<le> unat base"
    using ly by (simp_all add: ly_ok_def Let_def)
  have "unat (ly_mdata_base ly base - ly_buf_stride ly) = mdata_at ly base - unat (ly_buf_stride ly)"
    using ly_bases(2) [OF ly] s by (subst unat_sub_small) (simp_all add: mdata_at_def block_at_def)
  then have "\<not> hdr_addr ly base 0 - ly_buf_stride ly \<ge> ly_mdata_base ly base"
    using ly_bases(2) [OF ly] s by (simp add: hdr_addr_def u32_le mdata_at_def block_at_def)
  with r show ?case by (simp add: pool_init_loop.simps [of pid ly base "hdr_addr ly base 0"])
next
  case (Suc j)
  obtain p1 m1 where r: "ret_buf p (upd_hdr (hdr_addr ly base (Suc j)) (pool_hdr_init pid p
        (udat_addr ly base (Suc j)) (blk_addr ly base (Suc j))) m) [hdr_addr ly base (Suc j)] = Some (p1, m1)"
    "same_pool p p1" "ring_inv (pl_ring p1)" "br_buf_num (pl_ring p1) = br_buf_num (pl_ring p)"
    "ring_list (pl_ring p1) = map (hdr_addr ly base) (rev [Suc j..<unat (ly_buf_num ly)])"
    "\<forall>k. Suc j \<le> k \<longrightarrow> k < unat (ly_buf_num ly) \<longrightarrow> hdr_created pid ly base m1 k"
    by (rule pool_init_step [OF ly Suc.prems])
  have seg: "pl_seg_size p1 = ly_seg_size ly" using r(2) Suc.prems(4) by (simp add: same_pool_def)
  have "hdr_addr ly base j \<ge> ly_mdata_base ly base" "blk_addr ly base j \<ge> ly_block_base ly base"
    using hdr_addr_unat [OF ly, of j] ly_bases [OF ly] Suc.prems(1) by (simp_all add: u32_le)
  then have "pool_init_loop pid ly base (hdr_addr ly base (Suc j)) (udat_addr ly base (Suc j))
      (blk_addr ly base (Suc j)) p m =
    pool_init_loop pid ly base (hdr_addr ly base j) (udat_addr ly base j) (blk_addr ly base j) p1 m1"
    using r(1) seg by (simp add: pool_init_loop.simps [of pid ly base "hdr_addr ly base (Suc j)"] addr_pred)
  moreover have "\<forall>k. j < k \<longrightarrow> k < unat (ly_buf_num ly) \<longrightarrow> hdr_created pid ly base m1 k"
    using r(6) by (simp add: Suc_le_eq)
  ultimately show ?case
    using Suc.IH [OF _ r(3) _ seg r(5), of m1] Suc.prems(1,3) r(2,4) same_pool_trans [of p p1] by auto
qed

lemma addr_last:
  assumes "ly_seg_size ly = ly_blk_size ly" "unat (ly_buf_num ly) = Suc j"
  shows "ly_udata_base ly base - ly_buf_stride ly = hdr_addr ly base j"
    "ly_block_base ly base + ly_block_size ly - ly_seg_size ly = blk_addr ly base j"
    "(if ly_udata_stride ly = 0 then 0
      else ly_udata_base ly base + ly_uarea_total ly - ly_udata_stride ly) = udat_addr ly base j"
proof -
  have n: "ly_buf_num ly = of_nat j + 1"
    using arg_cong [OF assms(2), of "of_nat :: nat \<Rightarrow> u32"] by simp
  show "ly_udata_base ly base - ly_buf_stride ly = hdr_addr ly base j"
    "ly_block_base ly base + ly_block_size ly - ly_seg_size ly = blk_addr ly base j"
    "(if ly_udata_stride ly = 0 then 0
      else ly_udata_base ly base + ly_uarea_total ly - ly_udata_stride ly) = udat_addr ly base j"
    by (simp_all add: ly_udata_base_def ly_mdata_size_def hdr_addr_def ly_block_size_def blk_addr_def
        ly_uarea_total_def udat_addr_def assms(1) n algebra_simps)
qed

definition pool_hdrs :: "pool_layout \<Rightarrow> u32 \<Rightarrow> u32 set" where
  "pool_hdrs ly base = hdr_addr ly base ` {..<unat (ly_buf_num ly)}"

lemma pool_hdrs_card:
  assumes "ly_ok ly base"
  shows "finite (pool_hdrs ly base)" "card (pool_hdrs ly base) = unat (ly_buf_num ly)" "0 \<notin> pool_hdrs ly base"
proof -
  have "inj_on (hdr_addr ly base) {..<unat (ly_buf_num ly)}"
    by (rule inj_onI) (use hdr_addr_inj [OF assms] in auto)
  then show "card (pool_hdrs ly base) = unat (ly_buf_num ly)" by (simp add: pool_hdrs_def card_image)
  show "finite (pool_hdrs ly base)" by (simp add: pool_hdrs_def)
  have "0 < unat base" using assms by (auto simp: ly_ok_def Let_def)
  then have "unat (hdr_addr ly base j) \<noteq> 0" if "j < unat (ly_buf_num ly)" for j
    using hdr_addr_unat(1) [OF assms, of j] that by (simp add: mdata_at_def block_at_def)
  then show "0 \<notin> pool_hdrs ly base" by (force simp: pool_hdrs_def)
qed

lemma pool_populate_ok:
  assumes ly: "ly_ok ly base"
    and p: "pl_ring p = odp_buffer_ring_init (replicate (unat (ly_buf_num ly + 1)) 0) (ly_buf_num ly + 1)"
      "pl_seg_size p = ly_seg_size ly" "pl_buf_num p = ly_buf_num ly"
  obtains p' m' where "pool_populate pid ly base p m = Some (p', m')" "same_pool p p'"
    "pool_parts (pool_hdrs ly base) pid p' m' 0 [] {}"
    "\<forall>k < unat (ly_buf_num ly). hdr_created pid ly base m' k"
proof -
  let ?n = "unat (ly_buf_num ly)"
  from ly have n: "0 < ?n" "4 * (?n + 1) + 64 \<le> 2 ^ 32" and seg: "ly_seg_size ly = ly_blk_size ly"
    by (simp_all add: ly_ok_def Let_def)
  obtain j where j: "?n = Suc j" using n(1) gr0_implies_Suc by blast
  have n1: "unat (ly_buf_num ly + 1) = Suc ?n" using n(2) by (subst unat_add_small) simp_all
  have r0: "ring_inv (pl_ring p)" "ring_list (pl_ring p) = []"
    unfolding p(1) using ring_init_ok [of "ly_buf_num ly + 1" "replicate (unat (ly_buf_num ly + 1)) 0"] n n1
    by simp_all
  have num: "unat (br_buf_num (pl_ring p)) = Suc ?n" using n1 by (simp add: p(1) odp_buffer_ring_init_def)
  obtain p1 m1 where l: "pool_init_loop pid ly base (hdr_addr ly base j) (udat_addr ly base j)
        (blk_addr ly base j) p m = Some (p1, m1)"
    and p1: "same_pool p p1" "ring_inv (pl_ring p1)" "br_buf_num (pl_ring p1) = br_buf_num (pl_ring p)"
      "ring_list (pl_ring p1) = map (hdr_addr ly base) (rev [0..<?n])"
      "\<forall>k < ?n. hdr_created pid ly base m1 k"
    using pool_init_loop_ok [OF ly _ r0(1) num p(2), of j pid m] r0(2) j by auto
  define p2 where "p2 = p1\<lparr>pl_high_wm := pl_buf_num p1 div 2, pl_low_wm := pl_buf_num p1 div 4\<rparr>"
  have same: "same_pool p p2" using p1(1) by (simp add: p2_def same_pool_def)
  have pop: "pool_populate pid ly base p m = Some (p2, m1)"
    unfolding pool_populate_def p(2) addr_last [OF seg j] using l by (simp add: p2_def)
  have "inj_on (hdr_addr ly base) (set (rev [0..<?n]))"
    by (rule inj_onI) (use hdr_addr_inj [OF ly] in auto)
  then have dist: "distinct (map (hdr_addr ly base) (rev [0..<?n]))" by (simp add: distinct_map)
  have "pool_parts (pool_hdrs ly base) pid p2 m1 0 [] {}"
    unfolding pool_parts_def
  proof (intro conjI)
    show "ring_inv (pl_ring p2)" "unat (br_buf_num (pl_ring p2)) = Suc (unat (pl_buf_num p2))"
      using p1 num p(3) by (simp_all add: p2_def same_pool_def)
    show "distinct (ring_list (pl_ring p2) @ [])" using dist p1(4) by (simp add: p2_def)
    show "set (ring_list (pl_ring p2)) \<union> set [] \<union> {} = pool_hdrs ly base"
      using p1(4) by (simp add: p2_def pool_hdrs_def lessThan_atLeast0)
    show "\<forall>b \<in> pool_hdrs ly base. hdr_ok pid p2 (om_hdr m1 b)"
      using p1(1,5) p(2) by (auto simp: pool_hdrs_def hdr_ok_def hdr_created_def p2_def same_pool_def Let_def)
    show "card (pool_hdrs ly base) = unat (pl_buf_num p2)"
      using pool_hdrs_card(2) [OF ly] same p(3) by (simp add: same_pool_def)
  qed (use pool_hdrs_card [OF ly] in auto)
  with that [OF pop same] p1(5) show ?thesis by simp
qed

text \<open>Distinct buffers have disjoint data, and no data overlap a header.\<close>

definition data_range :: "pool_entry_s \<Rightarrow> odp_mem \<Rightarrow> u32 \<Rightarrow> nat set" where
  "data_range p m b =
     {unat (bh_addr (om_hdr m b)) ..< unat (bh_addr (om_hdr m b)) + unat (pl_seg_size p)}"

definition hdr_range :: "pool_entry_s \<Rightarrow> u32 \<Rightarrow> nat set" where
  "hdr_range p b = {unat b ..< unat b + unat (pl_buf_stride p)}"

lemma blocks_disjoint:
  fixes s :: nat
  assumes "j \<noteq> k"
  shows "{b + j * s ..< b + j * s + s} \<inter> {b + k * s ..< b + k * s + s} = {}"
proof -
  have "j * s + s \<le> k * s" if "j < k" for j k
    using mult_le_mono1 [of "Suc j" k s] that by simp
  from this [of j k] this [of k j] assms show ?thesis by (cases "j < k") auto
qed

lemma pool_data_disjoint:
  assumes ly: "ly_ok ly base" and hc: "\<forall>k < unat (ly_buf_num ly). hdr_created pid ly base m k"
    and p: "pl_seg_size p = ly_seg_size ly" "pl_buf_stride p = ly_buf_stride ly"
    and ab: "a \<in> pool_hdrs ly base" "b \<in> pool_hdrs ly base"
  shows "a \<noteq> b \<Longrightarrow> data_range p m a \<inter> data_range p m b = {}" "a \<noteq> b \<Longrightarrow> hdr_range p a \<inter> hdr_range p b = {}"
    "data_range p m a \<inter> hdr_range p b = {}"
proof -
  let ?n = "unat (ly_buf_num ly)" and ?s = "unat (ly_blk_size ly)" and ?h = "unat (ly_buf_stride ly)"
  from ab obtain j k where j: "a = hdr_addr ly base j" "j < ?n" and k: "b = hdr_addr ly base k" "k < ?n"
    by (auto simp: pool_hdrs_def)
  have seg: "ly_seg_size ly = ly_blk_size ly" using ly by (simp add: ly_ok_def Let_def)
  have d: "data_range p m a = {block_at ly base + j * ?s ..< block_at ly base + j * ?s + ?s}"
    "data_range p m b = {block_at ly base + k * ?s ..< block_at ly base + k * ?s + ?s}"
    using hc j k hdr_addr_unat(2) [OF ly, of j] hdr_addr_unat(2) [OF ly, of k] seg p(1)
    by (simp_all add: data_range_def hdr_created_def Let_def)
  have h: "hdr_range p a = {mdata_at ly base + j * ?h ..< mdata_at ly base + j * ?h + ?h}"
    "hdr_range p b = {mdata_at ly base + k * ?h ..< mdata_at ly base + k * ?h + ?h}"
    using j k hdr_addr_unat(1) [OF ly, of j] hdr_addr_unat(1) [OF ly, of k] p(2)
    by (simp_all add: hdr_range_def)
  show "a \<noteq> b \<Longrightarrow> data_range p m a \<inter> data_range p m b = {}" "a \<noteq> b \<Longrightarrow> hdr_range p a \<inter> hdr_range p b = {}"
    unfolding d h using j k by (auto simp only: intro!: blocks_disjoint)
  have "j * ?s + ?s \<le> ?n * ?s" using mult_le_mono1 [of "Suc j" ?n ?s] j(2) by simp
  then have "block_at ly base + j * ?s + ?s \<le> mdata_at ly base"
    using rup64_bounds(1) [of "?n * ?s"] by (simp add: mdata_at_def)
  then show "data_range p m a \<inter> hdr_range p b = {}" unfolding d(1) h(2) by auto
qed

lemma pool_create_eq:
  assumes lay: "pool_create_layout stride (pool_params_norm params) = Some ly"
    and i: "pool_first_free (pt_pool t) = i" "i < length (pt_pool t)"
    and res: "odp_shm_reserve malloc (pt_shm t) (take 31 name) (ucast (ly_pool_size ly)) 4096 0 = Some (shm, tbl)"
      "shm \<noteq> ODP_SHM_INVALID"
    and ly: "ly_ok ly (odp_shm_addr tbl shm)"
  obtains p' m' where "odp_pool_create malloc stride t (Some name) (Some params) =
      Some (Some i, t\<lparr>pt_pool := (pt_pool t)[i := p'], pt_shm := tbl, pt_mem := m'\<rparr>)"
    "pl_seg_size p' = ly_seg_size ly" "pl_headroom p' = ly_headroom ly" "pl_tailroom p' = ly_tailroom ly"
    "pl_buf_stride p' = ly_buf_stride ly" "pl_params p' = pool_params_norm params"
    "pl_pool_shm p' = shm" "\<not> pl_predefined p'" "pl_udata_size p' = ly_udata_size ly"
    "pool_parts (pool_hdrs ly (odp_shm_addr tbl shm)) i p' m' 0 [] {}"
    "\<forall>k < unat (ly_buf_num ly). hdr_created i ly (odp_shm_addr tbl shm) m' k"
proof -
  let ?base = "odp_shm_addr tbl shm"
  let ?claim = "pool_claim (pt_pool t ! i) (Some name) (pool_params_norm params) ly"
  define p where "p = pool_setup ?claim ly shm ?base"
  have c: "pl_name ?claim = take 31 name" "pl_pool_size ?claim = ly_pool_size ly"
    by (simp_all add: pool_claim_def Let_def ODP_POOL_NAME_LEN_def)
  have p: "pl_ring p = odp_buffer_ring_init (replicate (unat (ly_buf_num ly + 1)) 0) (ly_buf_num ly + 1)"
    "pl_seg_size p = ly_seg_size ly" "pl_buf_num p = ly_buf_num ly"
    "pl_headroom p = ly_headroom ly" "pl_tailroom p = ly_tailroom ly" "pl_params p = pool_params_norm params" "pl_buf_stride p = ly_buf_stride ly"
    "pl_pool_shm p = shm" "\<not> pl_predefined p" "pl_udata_size p = ly_udata_size ly"
    by (simp_all add: p_def pool_setup_def pool_claim_def Let_def)
  obtain p' m' where pop: "pool_populate i ly ?base p (pt_mem t) = Some (p', m')" "same_pool p p'"
    "pool_parts (pool_hdrs ly ?base) i p' m' 0 [] {}"
    "\<forall>k < unat (ly_buf_num ly). hdr_created i ly ?base m' k"
    by (rule pool_populate_ok [OF ly p(1-3)])
  have "odp_pool_create malloc stride t (Some name) (Some params) =
      Some (Some i, t\<lparr>pt_pool := (pt_pool t)[i := p'], pt_shm := tbl, pt_mem := m'\<rparr>)"
    using i res pop(1) by (simp add: odp_pool_create_def lay c p_def ODP_PAGE_SIZE_def Let_def)
  then show ?thesis using that pop p by (simp add: same_pool_def)
qed

section \<open>An example pool\<close>

definition pool_example_params :: odp_pool_param_t where
  "pool_example_params = \<lparr>pp_type = ODP_POOL_BUFFER, pp_num = 2, pp_size = 64, pp_align = 0,
     pp_uarea_size = 0\<rparr>"

definition pool_example_table :: pool_table where
  "pool_example_table = \<lparr>pt_pool = map pool_zero [0..<ODP_CONFIG_POOLS],
     pt_cache = replicate ODP_CONFIG_POOLS 0,
     pt_mem = \<lparr>om_hdr = \<lambda>_. hdr_example, om_byte = \<lambda>_. 0\<rparr>,
     pt_shm = replicate ODP_CONFIG_SHM_BLOCKS shm_zero_block\<rparr>"

definition pool_example_layout :: pool_layout where
  "pool_example_layout = \<lparr>ly_unseg = True, ly_headroom = 0, ly_tailroom = 0, ly_buf_num = 2,
     ly_blk_size = 64, ly_seg_len = 0, ly_udata_size = 0, ly_udata_stride = 0, ly_buf_stride = 64,
     ly_buf_align = 64\<rparr>"

definition pool_example_shm :: odp_shm_table_t where
  "pool_example_shm =
     (replicate ODP_CONFIG_SHM_BLOCKS shm_zero_block)[0 := shm_new_block 65536 0 ''p'' 4096 4096 0]"

lemma pool_example_layout: "pool_create_layout (\<lambda>_. 64) (pool_params_norm pool_example_params) =
    Some pool_example_layout"
  by (simp add: pool_create_layout_def pool_params_norm_def pool_example_params_def pool_buf_align_def
      event_types pool_consts ODP_ALIGN_ROUNDDOWN_POWER_2_def ODP_ALIGN_ROUNDUP_def
      pool_example_layout_def Let_def)

lemma pool_example_reserve_page:
  "odp_shm_reserve (\<lambda>_. 65536) (pt_shm pool_example_table) (take 31 ''p'') 4096 4096 0 =
     Some (1, pool_example_shm)"
proof -
  let ?z = "replicate ODP_CONFIG_SHM_BLOCKS shm_zero_block"
  have nf: "find_block ?z ''p'' = None" by (simp add: find_block_None shm_zero_block_def)
  have "shm_first (\<lambda>b. sb_addr b = 0) ?z = 0"
    by (rule shm_first_eq) (simp_all add: ODP_CONFIG_SHM_BLOCKS_def shm_zero_block_def nth_replicate)
  moreover have "?z ! 0 = shm_zero_block" by (simp add: ODP_CONFIG_SHM_BLOCKS_def)
  ultimately show ?thesis
    using nf by (simp add: odp_shm_reserve_def pool_example_table_def pool_example_shm_def Let_def
        shm_new_block_def shm_zero_block_def shm_to_handle_def ODP_SHM_NAME_LEN_def)
qed

lemmas ly_size_defs =
  ly_pool_size_def ly_ring_size_def ly_ring_pad_size_def ly_block_size_def ly_pad_size_def
  ly_mdata_size_def ly_uarea_total_def ODP_ALIGN_ROUNDUP_def ODP_PAGE_SIZE_def ODP_CACHE_LINE_SIZE_def

lemma pool_example_reserve:
  "odp_shm_reserve (\<lambda>_. 65536) (pt_shm pool_example_table) (take 31 ''p'')
     (ucast (ly_pool_size pool_example_layout)) 4096 0 = Some (1, pool_example_shm)"
proof -
  have "ly_pool_size pool_example_layout = 4096" by (simp add: ly_size_defs pool_example_layout_def)
  with pool_example_reserve_page show ?thesis by simp
qed

lemma pool_example_addr: "odp_shm_addr pool_example_shm 1 = 65536"
  by (simp add: odp_shm_addr_def pool_example_shm_def shm_from_handle_def shm_new_block_def
      ODP_CONFIG_SHM_BLOCKS_def ODP_ALIGN_ROUNDUP_def ODP_SHM_UNCACHED_def Let_def)

lemma pool_example_ly_ok: "ly_ok pool_example_layout (odp_shm_addr pool_example_shm 1)"
  by (simp add: pool_example_addr ly_ok_def pool_example_layout_def Let_def rup64_def ly_seg_size_def)

lemma pool_example_first: "pool_first_free (pt_pool pool_example_table) = 0"
  "0 < length (pt_pool pool_example_table)"
  by (simp_all add: pool_example_table_def ODP_CONFIG_POOLS_def pool_zero_def ODP_SHM_INVALID_def
      upt_conv_Cons)

lemma pool_example_shm_inv: "shm_inv pool_example_shm"
proof -
  have b: "shm_block_ok 0 (shm_new_block 65536 0 ''p'' 4096 4096 0)"
    using shm_new_block_ok(1) [of "''p''" 4096 4096 0 65536 0] by simp
  show ?thesis
    unfolding pool_example_shm_def
    by (rule shm_inv_update [OF shm_init_inv])
      (use b in \<open>simp_all add: ODP_CONFIG_SHM_BLOCKS_def shm_used_def shm_zero_block_def nth_replicate\<close>)
qed

lemma pool_example_ok:
  obtains A t where "pool_ok A 0 t {}" "shm_inv (pt_shm t)"
    "pl_pool_shm (pt_pool t ! 0) \<noteq> ODP_SHM_INVALID" "\<not> pl_predefined (pt_pool t ! 0)"
proof -
  let ?ly = pool_example_layout and ?t = pool_example_table
  obtain p' m' where p': "pl_seg_size p' = ly_seg_size ?ly" "pl_headroom p' = ly_headroom ?ly"
      "pl_tailroom p' = ly_tailroom ?ly" "pl_params p' = pool_params_norm pool_example_params"
      "pl_pool_shm p' = 1" "\<not> pl_predefined p'"
      "pool_parts (pool_hdrs ?ly (odp_shm_addr pool_example_shm 1)) 0 p' m' 0 [] {}"
    by (rule pool_create_eq [OF pool_example_layout pool_example_first pool_example_reserve _ pool_example_ly_ok])
      (simp_all add: ODP_SHM_INVALID_def)
  let ?t' = "?t\<lparr>pt_pool := (pt_pool ?t)[0 := p'], pt_shm := pool_example_shm, pt_mem := m'\<rparr>"
  have z: "pt_cache ?t ! 0 = 0" "length (pt_cache ?t) = length (pt_pool ?t)"
    by (simp_all add: pool_example_table_def ODP_CONFIG_POOLS_def)
  have sz: "pool_sizes_ok p'"
    using p'(1-4) by (simp add: pool_sizes_ok_def pool_example_layout_def pool_example_params_def
        pool_params_norm_def event_types ly_seg_size_def)
  show ?thesis
  proof (rule that [of "pool_hdrs ?ly (odp_shm_addr pool_example_shm 1)" ?t'])
    show "pool_ok (pool_hdrs ?ly (odp_shm_addr pool_example_shm 1)) 0 ?t' {}"
      unfolding pool_ok_def
    proof (intro conjI exI)
      show "0 < length (pt_pool ?t')" using pool_example_first(2) by simp
      show "length (pt_cache ?t') = length (pt_pool ?t')" using z(2) by simp
      show "pool_sizes_ok (pt_pool ?t' ! 0)" using sz pool_example_first(2) by simp
      show "pool_parts (pool_hdrs ?ly (odp_shm_addr pool_example_shm 1)) 0 (pt_pool ?t' ! 0)
          (pt_mem ?t') (pt_cache ?t' ! 0) [] {}"
        using p'(7) z(1) pool_example_first(2) by simp
    qed
  qed (use p'(5,6) pool_example_shm_inv pool_example_first(2) in \<open>simp_all add: ODP_SHM_INVALID_def\<close>)
qed

section \<open>Properties\<close>

text \<open>C14. Creation of a named pool of at least one buffer whose segments are smaller than 64 kilobytes and hold
  the head room, the buffer size and the tail room: when the layout fits in the address space (\<open>ly_ok\<close>), its memory can be
  reserved and the cache of the first unused slot is empty, \<open>odp_pool_create\<close> returns a handle to that slot, and the new pool
  is complete: every buffer is free, exactly once, in the ring; each header belongs to
  the pool; and the data of distinct buffers and all headers are disjoint.\<close>

theorem pool_create_correct:
  assumes "pool_create_layout stride (pool_params_norm params) = Some ly"
    and "pool_first_free (pt_pool t) = i" and "i < length (pt_pool t)"
    and "length (pt_cache t) = length (pt_pool t)" and "pt_cache t ! i = 0"
    and "odp_shm_reserve malloc (pt_shm t) (take 31 name) (ucast (ly_pool_size ly)) 4096 0 = Some (shm, tbl)"
    and "shm \<noteq> ODP_SHM_INVALID" and "ly_ok ly (odp_shm_addr tbl shm)"
    and "unat (ly_headroom ly) + unat (pp_size (pool_params_norm params)) + unat (ly_tailroom ly) \<le>
           unat (ly_seg_size ly)"
    and "unat (ly_seg_size ly) < 2 ^ 16"
  shows "\<exists>t'. odp_pool_create malloc stride t (Some name) (Some params) = Some (Some i, t') \<and>
    pool_ok (pool_hdrs ly (odp_shm_addr tbl shm)) i t' {} \<and>
    (\<forall>a \<in> pool_hdrs ly (odp_shm_addr tbl shm). \<forall>b \<in> pool_hdrs ly (odp_shm_addr tbl shm).
       (a \<noteq> b \<longrightarrow> data_range (pt_pool t' ! i) (pt_mem t') a \<inter> data_range (pt_pool t' ! i) (pt_mem t') b = {} \<and>
                 hdr_range (pt_pool t' ! i) a \<inter> hdr_range (pt_pool t' ! i) b = {}) \<and>
       data_range (pt_pool t' ! i) (pt_mem t') a \<inter> hdr_range (pt_pool t' ! i) b = {})"
proof -
  let ?base = "odp_shm_addr tbl shm"
  obtain p' m' where c: "odp_pool_create malloc stride t (Some name) (Some params) =
      Some (Some i, t\<lparr>pt_pool := (pt_pool t)[i := p'], pt_shm := tbl, pt_mem := m'\<rparr>)"
    and p': "pl_seg_size p' = ly_seg_size ly" "pl_headroom p' = ly_headroom ly"
      "pl_tailroom p' = ly_tailroom ly" "pl_buf_stride p' = ly_buf_stride ly"
      "pl_params p' = pool_params_norm params" "pool_parts (pool_hdrs ly ?base) i p' m' 0 [] {}"
      "\<forall>k < unat (ly_buf_num ly). hdr_created i ly ?base m' k"
    by (rule pool_create_eq [OF assms(1-3,6-8)])
  note d = pool_data_disjoint [OF assms(8) p'(7) p'(1,4)]
  have "pool_ok (pool_hdrs ly ?base) i (t\<lparr>pt_pool := (pt_pool t)[i := p'], pt_shm := tbl, pt_mem := m'\<rparr>) {}"
    using p' assms(3,4,5,9,10) by (auto simp: pool_ok_def pool_sizes_ok_def)
  then show ?thesis using c d assms(3) by auto
qed

theorem pool_create_correct_witness:
  "\<exists>t'. odp_pool_create (\<lambda>_. 65536) (\<lambda>_. 64) pool_example_table (Some ''p'') (Some pool_example_params) =
          Some (Some 0, t') \<and> pool_ok (pool_hdrs pool_example_layout 65536) 0 t' {}"
  using pool_create_correct [OF pool_example_layout pool_example_first _ _ pool_example_reserve _
      pool_example_ly_ok]
  by (auto simp: pool_example_table_def pool_example_layout_def pool_example_params_def ly_seg_size_def
      pool_params_norm_def event_types ODP_CONFIG_POOLS_def ODP_SHM_INVALID_def pool_example_addr)

text \<open>C1. A pool whose segments are smaller than 64 kilobytes and hold the head room, the buffer size and the tail room
  (\<open>pool_sizes_ok\<close>, a part of \<open>pool_ok\<close>; a buffer of a larger segment can be lost, as \<open>pool_large_buffer_lost\<close> shows), and any
  sequence of \<open>odp_buffer_alloc_multi\<close>, \<open>odp_buffer_free\<close> and \<open>odp_buffer_free_multi\<close> calls that asks for less than \<open>2 ^ 32\<close> buffers at
  a time and frees buffers that are held only: every call returns, no allocation ever delivers
  a buffer that is already held, and the buffers in the ring, in the cache and held by
  the caller remain a partition of the pool's buffers.\<close>

theorem pool_no_double_allocation:
  assumes "pool_ok A i t owned" and "list_all op_small ops"
  shows "\<exists>t' owned'. pool_run i ops t owned = Some (t', owned') \<and> pool_ok A i t' owned'"
  using assms by (rule pool_run_ok)

theorem pool_no_double_allocation_witness:
  "\<exists>A t t' owned. pool_run 0 [Op_alloc 1, Op_alloc 1, Op_alloc 1] t {} = Some (t', owned) \<and>
     pool_ok A 0 t' owned"
proof -
  obtain A t where "pool_ok A 0 t {}" by (rule pool_example_ok)
  from pool_no_double_allocation [OF this, of "[Op_alloc 1, Op_alloc 1, Op_alloc 1]"]
  show ?thesis by auto
qed

lemma pool_destroy_eq:
  assumes ok: "pool_ok A i t owned" and shm: "shm_inv (pt_shm t)"
    and p: "pl_pool_shm (pt_pool t ! i) \<noteq> ODP_SHM_INVALID" "\<not> pl_predefined (pt_pool t ! i)"
  obtains r t' where "odp_pool_destroy t (Some i) = Some (r, t')" "r = 0 \<or> r = - 1"
    "r = 0 \<longleftrightarrow> card owned = 0 \<or>
       (card owned = 1 \<and> br_prod_tail (pl_ring (pt_pool t' ! i)) < br_cons_tail (pl_ring (pt_pool t' ! i)))"
proof -
  from ok obtain cs where parts: "pool_parts A i (pt_pool t ! i) (pt_mem t) (pt_cache t ! i) cs owned"
    and l: "i < length (pt_pool t)" by (auto simp: pool_ok_def)
  obtain p' m' where f: "flush_cache (pt_cache t ! i) (pt_pool t ! i) (pt_mem t) = Some (0, p', m')"
    and same: "same_pool (pt_pool t ! i) p'" and parts': "pool_parts A i p' m' 0 [] owned"
    by (rule flush_cache_parts [OF parts])
  obtain x fr tbl where fr: "odp_shm_free (pt_shm t) (pl_pool_shm p') = Some (x, fr, tbl)"
    using shm_free_total [OF shm] by blast
  let ?r = "pl_ring p'"
  from parts' have dist: "distinct (ring_list ?r)" and A: "set (ring_list ?r) \<union> owned = A"
    and disj: "set (ring_list ?r) \<inter> owned = {}" and fin: "finite A" "card A = unat (pl_buf_num p')"
    and inv: "ring_inv ?r" by (auto simp: pool_parts_def)
  have "card A = ring_count ?r + card owned"
    using A disj fin(1) dist card_Un_disjoint [of "set (ring_list ?r)" owned] distinct_card [OF dist]
    by auto
  with fin(2) have cnt: "unat (pl_buf_num p') = ring_count ?r + card owned" by simp
  have lt: "odp_buffer_ring_get_count ?r < pl_buf_num p' \<longleftrightarrow>
      ring_count ?r + (if br_prod_tail ?r < br_cons_tail ?r then 1 else 0) < ring_count ?r + card owned"
    unfolding u32_less [of "odp_buffer_ring_get_count ?r"] ring_get_count_eq [OF inv] cnt ..
  define t1 where "t1 = t\<lparr>pt_cache := (pt_cache t)[i := 0], pt_pool := (pt_pool t)[i := p'], pt_mem := m'\<rparr>"
  define t2 where "t2 = t1\<lparr>pt_pool := (pt_pool t1)[i := p'\<lparr>pl_pool_shm := ODP_SHM_INVALID\<rparr>], pt_shm := tbl\<rparr>"
  have res: "odp_pool_destroy t (Some i) =
      (if odp_buffer_ring_get_count ?r < pl_buf_num p' then Some (- 1, t1) else Some (0, t2))"
    using p f fr by (simp add: odp_pool_destroy_def Let_def t1_def t2_def)
  have ring: "pl_ring (pt_pool t1 ! i) = ?r" "pl_ring (pt_pool t2 ! i) = ?r"
    using l by (simp_all add: t1_def t2_def)
  show ?thesis
  proof (cases "odp_buffer_ring_get_count ?r < pl_buf_num p'")
    case True
    with lt have "card owned \<noteq> 0 \<and> \<not> (card owned = 1 \<and> br_prod_tail ?r < br_cons_tail ?r)"
      by (auto split: if_splits)
    with that [of "- 1" t1] res ring True show ?thesis by simp
  next
    case False
    with lt have "card owned = 0 \<or> (card owned = 1 \<and> br_prod_tail ?r < br_cons_tail ?r)"
      by (cases "br_prod_tail ?r < br_cons_tail ?r"; cases "card owned") auto
    with that [of 0 t2] res ring False show ?thesis by simp
  qed
qed

text \<open>C37. \<open>odp_pool_destroy\<close> returns, and it succeeds exactly when no buffer is held outside
  the pool, or when one buffer is held and the producer position of the ring is below
  its consumer position: in that case the wrong count lets a pool with an outstanding
  buffer be destroyed.\<close>

theorem pool_destroy_result:
  assumes "pool_ok A i t owned" and "shm_inv (pt_shm t)"
    and "pl_pool_shm (pt_pool t ! i) \<noteq> ODP_SHM_INVALID" and "\<not> pl_predefined (pt_pool t ! i)"
  shows "\<exists>r t'. odp_pool_destroy t (Some i) = Some (r, t') \<and> (r = 0 \<or> r = - 1) \<and>
    (r = 0 \<longleftrightarrow> card owned = 0 \<or>
       (card owned = 1 \<and> br_prod_tail (pl_ring (pt_pool t' ! i)) < br_cons_tail (pl_ring (pt_pool t' ! i))))"
  by (rule pool_destroy_eq [OF assms]) blast

theorem pool_destroy_result_witness:
  "\<exists>t t'. odp_pool_destroy t (Some 0) = Some (0, t')"
proof -
  obtain A t where "pool_ok A 0 t {}" "shm_inv (pt_shm t)"
    "pl_pool_shm (pt_pool t ! 0) \<noteq> ODP_SHM_INVALID" "\<not> pl_predefined (pt_pool t ! 0)"
    by (rule pool_example_ok)
  from pool_destroy_result [OF this] show ?thesis by auto
qed

text \<open>The size of a buffer is kept in 16 bits. In a pool of buffers of 64 kilobytes or
  more whose truncated size is below the request, an allocation that finds a buffer in
  the local cache loses it: the buffer leaves the cache, and is neither delivered nor
  put back in the ring.\<close>

lemma pool_large_buffer_lost:
  assumes "pool_parts A i p m cache [c] owned" and "pl_unsegmented p"
    and "unat (pl_headroom p + sz + pl_tailroom p) \<le> unat (pl_seg_size p)"
    and "unat (ucast (pl_seg_size p) :: u16) < unat (pl_headroom p + sz + pl_tailroom p)"
  shows "\<exists>bs p' m'. buffer_alloc p cache m sz 1 = Some (Some bs, p', 0, m') \<and>
    c \<notin> set bs \<and> c \<notin> set (ring_list (pl_ring p'))"
proof -
  let ?t = "pl_headroom p + sz + pl_tailroom p"
  from assms(1) have c: "cache = c" "c \<noteq> 0" "bh_next (om_hdr m c) = 0" "c \<notin> set (ring_list (pl_ring p))"
    and ok: "hdr_ok i p (om_hdr m c)"
    by (auto simp: pool_parts_def next_ptr_opt ptr_opt_def split: if_splits)
  have "ucast (bh_size (om_hdr m c)) < ?t" using ok assms(4) by (simp add: hdr_ok_def u32_less)
  with c have l: "local_bufs cache m ?t 1 = ([], 0)" by (simp add: get_local_buf_def Let_def)
  have p0: "pool_parts A i p m 0 [] (insert c owned)" using assms(1) by (auto simp: pool_parts_def)
  obtain bs p' where g: "get_buf_multi p (of_nat 1) = Some (bs, p')"
    "bs = take (min (unat (of_nat 1 :: u32)) 16) (ring_list (pl_ring p))"
    "pool_parts A i p' m 0 [] (set bs \<union> insert c owned)"
    by (rule get_buf_multi_parts [OF p0])
  have "\<not> ?t > pl_seg_size p" using assms(3) by (simp add: u32_less)
  with assms(2) l g(1) have "buffer_alloc p cache m sz 1 = Some (Some bs, p', 0, alloc_init p' bs m)"
    by (simp add: buffer_alloc_def)
  moreover have "c \<notin> set bs" using c(4) g(2) by (auto dest: in_set_takeD)
  moreover have "c \<notin> set (ring_list (pl_ring p'))" using g(3) by (auto simp: pool_parts_def)
  ultimately show ?thesis by blast
qed

text \<open>A pool cannot be created without a name, although the interface allows it: the
  memory of the pool is reserved under the empty name, which is always refused.\<close>

lemma pool_create_anonymous_fails:
  assumes "shm_inv (pt_shm t)"
  shows "\<exists>t'. odp_pool_create malloc stride t None params = Some (None, t')"
proof -
  have "odp_shm_reserve malloc (pt_shm t) [] sz al fl = Some (ODP_SHM_INVALID, pt_shm t)" for sz al fl
    using shm_reserve_no_name [OF assms] .
  then show ?thesis
    by (auto simp: odp_pool_create_def pool_claim_def Let_def split: option.split)
qed

end
