(* ===== verification/Odp_Queue.thy ===== *)
theory Odp_Queue
  imports Odp_Pool
begin

text \<open>
  Queues (\<open>platform/mppa/odp_queue.c\<close>, \<open>include/odp_queue_internal.h\<close>) with the parts of
  the scheduler (\<open>odp_schedule.c\<close>) they call. A queue is identified by its index in the
  queue table. The events of a queue are linked through the \<open>next\<close> pointers of their
  headers; the tail pointer of a queue is the address of its own head or of the
  \<open>next\<close> field of its last event. A locked section is one step. Functions that call each other through the
  \<open>enqueue\<close> pointer of a queue are one recursive function; \<open>None\<close> is a call that does not
  return or aborts. Packet output is the parameter \<open>io\<close>.
\<close>

section \<open>State\<close>

definition ODP_CONFIG_QUEUES :: nat where "ODP_CONFIG_QUEUES = 128"
definition ODP_CONFIG_SCHED_PRIOS :: nat where "ODP_CONFIG_SCHED_PRIOS = 8"
definition ODP_QUEUE_NAME_LEN :: nat where "ODP_QUEUE_NAME_LEN = 32"

definition QUEUE_STATUS_FREE :: int where "QUEUE_STATUS_FREE = 0"
definition QUEUE_STATUS_DESTROYED :: int where "QUEUE_STATUS_DESTROYED = 1"
definition QUEUE_STATUS_READY :: int where "QUEUE_STATUS_READY = 2"
definition QUEUE_STATUS_NOTSCHED :: int where "QUEUE_STATUS_NOTSCHED = 3"
definition QUEUE_STATUS_SCHED :: int where "QUEUE_STATUS_SCHED = 4"

definition ODP_QUEUE_TYPE_SCHED :: int where "ODP_QUEUE_TYPE_SCHED = 0"
definition ODP_QUEUE_TYPE_POLL :: int where "ODP_QUEUE_TYPE_POLL = 1"
definition ODP_QUEUE_TYPE_PKTIN :: int where "ODP_QUEUE_TYPE_PKTIN = 2"
definition ODP_QUEUE_TYPE_PKTOUT :: int where "ODP_QUEUE_TYPE_PKTOUT = 3"

definition ODP_SCHED_SYNC_NONE :: int where "ODP_SCHED_SYNC_NONE = 0"
definition ODP_SCHED_SYNC_ATOMIC :: int where "ODP_SCHED_SYNC_ATOMIC = 1"
definition ODP_SCHED_SYNC_ORDERED :: int where "ODP_SCHED_SYNC_ORDERED = 2"
definition ODP_SCHED_GROUP_ALL :: int where "ODP_SCHED_GROUP_ALL = 0"
definition ODP_SCHED_PRIO_DEFAULT :: nat where "ODP_SCHED_PRIO_DEFAULT = 4"

lemmas queue_consts =
  QUEUE_STATUS_FREE_def QUEUE_STATUS_DESTROYED_def QUEUE_STATUS_READY_def QUEUE_STATUS_NOTSCHED_def
  QUEUE_STATUS_SCHED_def ODP_QUEUE_TYPE_SCHED_def ODP_QUEUE_TYPE_POLL_def ODP_QUEUE_TYPE_PKTIN_def
  ODP_QUEUE_TYPE_PKTOUT_def ODP_SCHED_SYNC_NONE_def ODP_SCHED_SYNC_ATOMIC_def
  ODP_SCHED_SYNC_ORDERED_def ODP_SCHED_GROUP_ALL_def ODP_SCHED_PRIO_DEFAULT_def

text \<open>The places a tail pointer can point to.\<close>

datatype tail_ptr = Tail_head | Tail_next u32

record odp_queue_param_t =
  sp_prio :: nat
  sp_sync :: int
  sp_group :: int
  sp_lock_count :: nat
  sp_context :: u32

record queue_entry_s =
  qe_head :: u32
  qe_tail :: tail_ptr
  qe_status :: int
  qe_pri_queue :: "nat option"
  qe_cmd_ev :: u32
  qe_type :: int
  qe_param :: odp_queue_param_t
  qe_name :: string
  qe_order_in :: u64
  qe_order_out :: u64
  qe_reorder_head :: u32
  qe_reorder_tail :: u32
  qe_sync_in :: "u64 list"
  qe_sync_out :: "u64 list"

datatype sched_cmd_t = Cmd_none | Cmd_dequeue nat | Cmd_poll_pktin nat nat

record sched_t =
  sc_pri_queue :: "nat list"
  sc_pool :: nat
  sc_pri_count :: "u32 list"

record sched_local_t =
  sl_pri_queue :: "nat option"
  sl_cmd_ev :: u32
  sl_buf_hdr :: "u32 list"
  sl_qe :: "nat option"
  sl_origin_qe :: "nat option"
  sl_order :: u64
  sl_sync :: "u64 list"
  sl_pool :: "nat option"
  sl_enq_called :: bool
  sl_num :: nat
  sl_index :: nat
  sl_pause :: bool
  sl_ignore_ordered_context :: bool

text \<open>\<open>os_cmd\<close>: the scheduler commands stored in the data of the command events.\<close>

record odp_state =
  os_pools :: pool_table
  os_queue :: "queue_entry_s list"
  os_sched :: sched_t
  os_local :: sched_local_t
  os_cmd :: "u32 \<Rightarrow> sched_cmd_t"

definition hdr :: "odp_state \<Rightarrow> u32 \<Rightarrow> odp_packet_hdr_t" where
  "hdr st b = om_hdr (pt_mem (os_pools st)) b"

definition upd_buf :: "u32 \<Rightarrow> (odp_packet_hdr_t \<Rightarrow> odp_packet_hdr_t) \<Rightarrow> odp_state \<Rightarrow> odp_state" where
  "upd_buf b f st = st\<lparr>os_pools := (os_pools st)\<lparr>pt_mem := upd_hdr b f (pt_mem (os_pools st))\<rparr>\<rparr>"

definition upd_qe :: "nat \<Rightarrow> (queue_entry_s \<Rightarrow> queue_entry_s) \<Rightarrow> odp_state \<Rightarrow> odp_state" where
  "upd_qe q f st = st\<lparr>os_queue := (os_queue st)[q := f (os_queue st ! q)]\<rparr>"

definition upd_local :: "(sched_local_t \<Rightarrow> sched_local_t) \<Rightarrow> odp_state \<Rightarrow> odp_state" where
  "upd_local f st = st\<lparr>os_local := f (os_local st)\<rparr>"

abbreviation qe :: "odp_state \<Rightarrow> nat \<Rightarrow> queue_entry_s" where
  "qe st q \<equiv> os_queue st ! q"

definition queue_is_atomic :: "queue_entry_s \<Rightarrow> bool" where
  "queue_is_atomic e \<longleftrightarrow> sp_sync (qe_param e) = ODP_SCHED_SYNC_ATOMIC"

definition queue_is_ordered :: "queue_entry_s \<Rightarrow> bool" where
  "queue_is_ordered e \<longleftrightarrow> sp_sync (qe_param e) = ODP_SCHED_SYNC_ORDERED"

section \<open>Creation and destruction\<close>

definition queue_param_default :: odp_queue_param_t where
  "queue_param_default = \<lparr>sp_prio = ODP_SCHED_PRIO_DEFAULT, sp_sync = ODP_SCHED_SYNC_ATOMIC,
     sp_group = ODP_SCHED_GROUP_ALL, sp_lock_count = 0, sp_context = 0\<rparr>"

definition queue_init :: "string \<Rightarrow> int \<Rightarrow> odp_queue_param_t option \<Rightarrow> queue_entry_s \<Rightarrow> queue_entry_s" where
  "queue_init name type param q =
     q\<lparr>qe_name := take (ODP_QUEUE_NAME_LEN - 1) name, qe_type := type,
       qe_param := (case param of Some p \<Rightarrow> p | None \<Rightarrow> queue_param_default),
       qe_head := 0, qe_tail := Tail_head, qe_reorder_head := 0, qe_reorder_tail := 0,
       qe_pri_queue := None, qe_cmd_ev := 0\<rparr>"

definition queue_zero :: queue_entry_s where
  "queue_zero = \<lparr>qe_head = 0, qe_tail = Tail_head, qe_status = QUEUE_STATUS_FREE, qe_pri_queue = None,
     qe_cmd_ev = 0, qe_type = 0,
     qe_param = \<lparr>sp_prio = 0, sp_sync = 0, sp_group = 0, sp_lock_count = 0, sp_context = 0\<rparr>,
     qe_name = [], qe_order_in = 0, qe_order_out = 0, qe_reorder_head = 0, qe_reorder_tail = 0,
     qe_sync_in = [0], qe_sync_out = [0]\<rparr>"

definition odp_queue_init_global :: "odp_state \<Rightarrow> odp_state" where
  "odp_queue_init_global st = st\<lparr>os_queue := replicate ODP_CONFIG_QUEUES queue_zero\<rparr>"

definition odp_queue_term_global :: "odp_state \<Rightarrow> int" where
  "odp_queue_term_global st =
     (if list_all (\<lambda>q. qe_status q = QUEUE_STATUS_FREE) (os_queue st) then 0 else - 1)"

definition pri_set :: "nat \<Rightarrow> odp_state \<Rightarrow> nat \<times> odp_state" where
  "pri_set prio st =
     (let s = os_sched st in
      (sc_pri_queue s ! prio,
       st\<lparr>os_sched := s\<lparr>sc_pri_count := (sc_pri_count s)[prio := sc_pri_count s ! prio + 1]\<rparr>\<rparr>))"

definition pri_clr :: "nat \<Rightarrow> odp_state \<Rightarrow> odp_state" where
  "pri_clr prio st =
     (let s = os_sched st in
      st\<lparr>os_sched := s\<lparr>sc_pri_count := (sc_pri_count s)[prio := sc_pri_count s ! prio - 1]\<rparr>\<rparr>)"

definition schedule_queue_init :: "odp_state \<Rightarrow> nat \<Rightarrow> (int \<times> odp_state) option" where
  "schedule_queue_init st q =
     do {
       (buf, pools) \<leftarrow> odp_buffer_alloc (os_pools st) (sc_pool (os_sched st));
       let st = st\<lparr>os_pools := pools\<rparr>;
       if buf = 0 then Some (- 1, st)
       else do {
         let st = st\<lparr>os_cmd := (os_cmd st)(buf := Cmd_dequeue q)\<rparr>;
         let (pri, st) = pri_set (sp_prio (qe_param (qe st q))) st;
         Some (0, upd_qe q (\<lambda>e. e\<lparr>qe_cmd_ev := buf, qe_pri_queue := Some pri\<rparr>) st)
       }
     }"

definition schedule_queue_destroy :: "odp_state \<Rightarrow> nat \<Rightarrow> odp_state option" where
  "schedule_queue_destroy st q =
     do {
       pools \<leftarrow> odp_buffer_free (os_pools st) (qe_cmd_ev (qe st q));
       let st = pri_clr (sp_prio (qe_param (qe st q))) (st\<lparr>os_pools := pools\<rparr>);
       Some (upd_qe q (\<lambda>e. e\<lparr>qe_cmd_ev := 0, qe_pri_queue := None\<rparr>) st)
     }"

fun queue_first_free :: "queue_entry_s list \<Rightarrow> nat" where
  "queue_first_free [] = 0"
| "queue_first_free (q # qs) = (if qe_status q = QUEUE_STATUS_FREE then 0 else Suc (queue_first_free qs))"

text \<open>\<open>None\<close> in the handle position is the invalid queue.\<close>

definition odp_queue_create ::
  "odp_state \<Rightarrow> string \<Rightarrow> int \<Rightarrow> odp_queue_param_t option \<Rightarrow> (nat option \<times> odp_state) option" where
  "odp_queue_create st name type param =
     (let i = queue_first_free (os_queue st);
          scheduled = (type = ODP_QUEUE_TYPE_SCHED \<or> type = ODP_QUEUE_TYPE_PKTIN)
      in if i = length (os_queue st) then Some (None, st)
         else let st = upd_qe i (\<lambda>q. (queue_init name type param q)\<lparr>qe_status :=
                 (if scheduled then QUEUE_STATUS_NOTSCHED else QUEUE_STATUS_READY)\<rparr>) st
              in if scheduled
                 then do {
                   (r, st) \<leftarrow> schedule_queue_init st i;
                   Some (if r \<noteq> 0 then None else Some i, st)
                 }
                 else Some (Some i, st))"

definition queue_destroy_finalize :: "odp_state \<Rightarrow> nat \<Rightarrow> odp_state option" where
  "queue_destroy_finalize st q =
     (if qe_status (qe st q) = QUEUE_STATUS_DESTROYED
      then schedule_queue_destroy (upd_qe q (\<lambda>e. e\<lparr>qe_status := QUEUE_STATUS_FREE\<rparr>) st) q
      else Some st)"

definition odp_queue_destroy :: "odp_state \<Rightarrow> nat \<Rightarrow> (int \<times> odp_state) option" where
  "odp_queue_destroy st q =
     (let e = qe st q in
      if qe_status e = QUEUE_STATUS_FREE then Some (- 1, st)
      else if qe_status e = QUEUE_STATUS_DESTROYED then Some (- 1, st)
      else if qe_head e \<noteq> 0 then Some (- 1, st)
      else if queue_is_ordered e \<and> qe_reorder_head e \<noteq> 0 then Some (- 1, st)
      else if qe_status e = QUEUE_STATUS_READY
      then Some (0, upd_qe q (\<lambda>e. e\<lparr>qe_status := QUEUE_STATUS_FREE\<rparr>) st)
      else if qe_status e = QUEUE_STATUS_NOTSCHED
      then map_option (\<lambda>st. (0, st))
             (schedule_queue_destroy (upd_qe q (\<lambda>e. e\<lparr>qe_status := QUEUE_STATUS_FREE\<rparr>) st) q)
      else if qe_status e = QUEUE_STATUS_SCHED
      then Some (0, upd_qe q (\<lambda>e. e\<lparr>qe_status := QUEUE_STATUS_DESTROYED\<rparr>) st)
      else None)"

section \<open>Attributes\<close>

definition odp_queue_context_set :: "odp_state \<Rightarrow> nat \<Rightarrow> u32 \<Rightarrow> int \<times> odp_state" where
  "odp_queue_context_set st q ctx =
     (0, upd_qe q (\<lambda>e. e\<lparr>qe_param := (qe_param e)\<lparr>sp_context := ctx\<rparr>\<rparr>) st)"

definition odp_queue_context :: "odp_state \<Rightarrow> nat \<Rightarrow> u32" where
  "odp_queue_context st q = sp_context (qe_param (qe st q))"

definition odp_queue_lock_count :: "odp_state \<Rightarrow> nat \<Rightarrow> int" where
  "odp_queue_lock_count st q =
     (if sp_sync (qe_param (qe st q)) = ODP_SCHED_SYNC_ORDERED
      then int (sp_lock_count (qe_param (qe st q))) else - 1)"

definition queue_named :: "string \<Rightarrow> queue_entry_s \<Rightarrow> bool" where
  "queue_named name e \<longleftrightarrow>
     \<not> (qe_status e = QUEUE_STATUS_FREE \<or> qe_status e = QUEUE_STATUS_DESTROYED) \<and> name = qe_name e"

definition odp_queue_lookup :: "odp_state \<Rightarrow> string \<Rightarrow> nat option" where
  "odp_queue_lookup st name =
     find (\<lambda>i. queue_named name (qe st i)) [0..<length (os_queue st)]"

definition odp_queue_info :: "odp_state \<Rightarrow> nat \<Rightarrow> (string \<times> int \<times> odp_queue_param_t) option" where
  "odp_queue_info st q =
     (let e = qe st q in
      if qe_status e = QUEUE_STATUS_FREE \<or> qe_status e = QUEUE_STATUS_DESTROYED then None
      else Some (qe_name e, qe_type e, qe_param e))"


section \<open>Events in a queue\<close>

definition queue_enq_update :: "odp_state \<Rightarrow> nat \<Rightarrow> u32 \<Rightarrow> u32 \<Rightarrow> int \<Rightarrow> bool \<times> odp_state" where
  "queue_enq_update st q head tail status =
     (let q_tail = qe_tail (qe st q);
          st = upd_buf tail (\<lambda>h. h\<lparr>bh_next := 0\<rparr>) st;
          st = upd_qe q (\<lambda>e. e\<lparr>qe_tail := Tail_next tail\<rparr>) st;
          st = (case q_tail of
                  Tail_head \<Rightarrow> upd_qe q (\<lambda>e. e\<lparr>qe_head := head\<rparr>) st
                | Tail_next b \<Rightarrow> upd_buf b (\<lambda>h. h\<lparr>bh_next := head\<rparr>) st)
      in if status = QUEUE_STATUS_NOTSCHED
         then (True, upd_qe q (\<lambda>e. e\<lparr>qe_status := QUEUE_STATUS_SCHED\<rparr>) st)
         else (False, st))"

definition queue_enq_list :: "odp_state \<Rightarrow> nat \<Rightarrow> u32 \<Rightarrow> u32 \<Rightarrow> int \<times> odp_state" where
  "queue_enq_list st q head tail = (0, snd (queue_enq_update st q head tail QUEUE_STATUS_READY))"

text \<open>The order an event gets when it leaves an ordered queue. The array \<open>sync\<close> of a header
  shares its memory with the link; the link is the upper half of the last counter.\<close>

fun sync_fetch :: "nat \<Rightarrow> nat \<Rightarrow> u64 list \<Rightarrow> u64 list" where
  "sync_fetch 0 i cs = cs"
| "sync_fetch (Suc n) i cs = sync_fetch n (Suc i) (cs[i := cs ! i + 1])"

definition queue_assign_order :: "nat \<Rightarrow> u32 \<Rightarrow> odp_state \<Rightarrow> odp_state" where
  "queue_assign_order q b st =
     (if queue_is_ordered (qe st q)
      then let e = qe st q; n = sp_lock_count (qe_param e);
               st = upd_buf b (\<lambda>h. h\<lparr>bh_origin_qe := Some q, bh_order := qe_order_in e, bh_sustain := False,
                      bh_link := (if n = 0 then bh_link h else ucast (drop_bit 32 (qe_sync_in e ! 0)))\<rparr>) st
           in upd_qe q (\<lambda>e. e\<lparr>qe_order_in := qe_order_in e + 1,
                             qe_sync_in := sync_fetch n 0 (qe_sync_in e)\<rparr>) st
      else upd_buf b (\<lambda>h. h\<lparr>bh_origin_qe := None\<rparr>) st)"

definition queue_deq :: "odp_state \<Rightarrow> nat \<Rightarrow> u32 \<times> odp_state" where
  "queue_deq st q =
     (let buf = qe_head (qe st q) in
      if buf = 0 then (0, st)
      else let st = queue_assign_order q buf st;
               nx = bh_next (hdr st buf);
               st = upd_qe q (\<lambda>e. e\<lparr>qe_head := nx\<rparr>) st;
               st = (if nx = 0 then upd_qe q (\<lambda>e. e\<lparr>qe_tail := Tail_head\<rparr>) st else st)
           in (buf, upd_buf buf (\<lambda>h. h\<lparr>bh_next := 0\<rparr>) st))"

fun deq_loop :: "nat \<Rightarrow> nat \<Rightarrow> u32 \<Rightarrow> odp_state \<Rightarrow> u32 list \<times> u32 \<times> odp_state" where
  "deq_loop q 0 b st = ([], b, st)"
| "deq_loop q (Suc num) b st =
     (if b = 0 then ([], b, st)
      else let nx = bh_next (hdr st b);
               st = queue_assign_order q b (upd_buf b (\<lambda>h. h\<lparr>bh_next := 0\<rparr>) st);
               (bs, b', st) = deq_loop q num nx st
           in (b # bs, b', st))"

text \<open>\<open>None\<close> is the return value \<open>-1\<close>, for a queue that has been destroyed.\<close>

definition queue_deq_multi :: "odp_state \<Rightarrow> nat \<Rightarrow> nat \<Rightarrow> u32 list option \<times> odp_state" where
  "queue_deq_multi st q num =
     (let status = qe_status (qe st q); b = qe_head (qe st q) in
      if status < QUEUE_STATUS_READY then (None, st)
      else if b = 0
      then (Some [], if status = QUEUE_STATUS_SCHED
                     then upd_qe q (\<lambda>e. e\<lparr>qe_status := QUEUE_STATUS_NOTSCHED\<rparr>) st else st)
      else let (bs, b, st) = deq_loop q num b st;
               st = upd_qe q (\<lambda>e. e\<lparr>qe_head := b\<rparr>) st;
               st = (if b = 0 then upd_qe q (\<lambda>e. e\<lparr>qe_tail := Tail_head\<rparr>) st else st)
           in (Some bs, st))"

section \<open>The reorder list of an ordered queue\<close>

partial_function (option) list_end :: "odp_state \<Rightarrow> u32 \<Rightarrow> u32 option" where
  "list_end st b = (let nx = bh_next (hdr st b) in if nx = 0 then Some b else list_end st nx)"

definition get_buf_tail :: "odp_state \<Rightarrow> u32 \<Rightarrow> (u32 \<times> odp_state) option" where
  "get_buf_tail st buf =
     (let link = bh_link (hdr st buf) in
      if link = 0 then map_option (\<lambda>b. (b, st)) (list_end st buf)
      else let st = upd_buf buf (\<lambda>h. h\<lparr>bh_next := link, bh_link := 0\<rparr>) st
           in map_option (\<lambda>b. (b, st)) (list_end st link))"

partial_function (option) reorder_find :: "odp_state \<Rightarrow> u64 \<Rightarrow> u32 \<Rightarrow> u32 \<Rightarrow> (u32 \<times> u32) option" where
  "reorder_find st order prev buf =
     (if buf \<noteq> 0 \<and> order \<ge> bh_order (hdr st buf)
      then reorder_find st order buf (bh_next (hdr st buf))
      else Some (prev, buf))"

definition reorder_enq ::
  "odp_state \<Rightarrow> nat option \<Rightarrow> u64 \<Rightarrow> nat \<Rightarrow> u32 \<Rightarrow> bool \<Rightarrow> odp_state option" where
  "reorder_enq st queue order origin buf sustain =
     do {
       (prev, nx) \<leftarrow> reorder_find st order 0 (qe_reorder_head (qe st origin));
       let st = upd_buf buf (\<lambda>h. h\<lparr>bh_next := nx\<rparr>) st;
       let st = (if prev \<noteq> 0 then upd_buf prev (\<lambda>h. h\<lparr>bh_next := buf\<rparr>) st
                 else upd_qe origin (\<lambda>e. e\<lparr>qe_reorder_head := buf\<rparr>) st);
       let st = (if nx = 0 then upd_qe origin (\<lambda>e. e\<lparr>qe_reorder_tail := buf\<rparr>) st else st);
       Some (upd_buf buf (\<lambda>h. h\<lparr>bh_origin_qe := Some origin, bh_target_qe := queue, bh_order := order,
                               bh_sustain := sustain\<rparr>) st)
     }"

text \<open>The counter passes through a C \<open>int\<close>: its lower 32 bits, as a signed number.\<close>

fun sync_release :: "nat \<Rightarrow> nat \<Rightarrow> u64 \<Rightarrow> u64 list \<Rightarrow> u64 list" where
  "sync_release 0 i out cs = cs"
| "sync_release (Suc n) i out cs =
     sync_release n (Suc i) out (if cs ! i < out then cs[i := cs ! i + (out - cs ! i)] else cs)"

definition order_release :: "nat \<Rightarrow> nat \<Rightarrow> odp_state \<Rightarrow> odp_state" where
  "order_release origin count st =
     (let e = qe st origin;
          order_out = (ucast (qe_order_out e) :: u32);
          out = (scast (order_out + of_nat count) :: u64)
      in upd_qe origin (\<lambda>e. e\<lparr>qe_order_out := out,
           qe_sync_out := sync_release (sp_lock_count (qe_param e)) 0 out (qe_sync_out e)\<rparr>) st)"

record reorder_scan =
  rs_tail :: u32
  rs_placeholder :: u32
  rs_deq :: nat
  rs_release :: nat
  rs_placeholders :: nat

definition reorder_take :: "odp_state \<Rightarrow> u32 \<Rightarrow> reorder_scan \<Rightarrow> (reorder_scan \<times> odp_state) option" where
  "reorder_take st buf s =
     (let nx = bh_next (hdr st buf); link = bh_link (hdr st buf) in
      do {
        (tl, st) \<leftarrow>
          (if link = 0 then Some (buf, st)
           else do {
             let st = upd_buf buf (\<lambda>h. h\<lparr>bh_next := link, bh_link := 0\<rparr>) st;
             e \<leftarrow> list_end st link;
             Some (e, upd_buf e (\<lambda>h. h\<lparr>bh_next := nx\<rparr>) st)
           });
        Some (s\<lparr>rs_tail := tl, rs_deq := rs_deq s + 1,
               rs_release := rs_release s + (if bh_sustain (hdr st buf) then 0 else 1)\<rparr>, st)
      })"

partial_function (option) reorder_deq_loop ::
  "nat \<Rightarrow> nat \<Rightarrow> odp_state \<Rightarrow> u32 \<Rightarrow> reorder_scan \<Rightarrow> (reorder_scan \<times> odp_state) option" where
  "reorder_deq_loop queue origin st buf s =
     (if buf \<noteq> 0 \<and> bh_order (hdr st buf) \<le>
           qe_order_out (qe st origin) + of_nat (rs_release s) + of_nat (rs_placeholders s)
      then let nx = bh_next (hdr st buf) in
        if bh_target_qe (hdr st buf) = Some queue
        then Option.bind (reorder_take st buf s) (\<lambda>(s, st). reorder_deq_loop queue origin st nx s)
        else if bh_target_qe (hdr st buf) = None
        then let st = (if rs_tail s \<noteq> 0 then upd_buf (rs_tail s) (\<lambda>h. h\<lparr>bh_next := nx\<rparr>) st
                       else upd_qe origin (\<lambda>e. e\<lparr>qe_reorder_head := nx\<rparr>) st);
                 st = upd_buf buf (\<lambda>h. h\<lparr>bh_next := rs_placeholder s\<rparr>) st
             in reorder_deq_loop queue origin st nx
                  (s\<lparr>rs_placeholder := buf, rs_placeholders := rs_placeholders s + 1\<rparr>)
        else Some (s, st)
      else Some (s, st))"

definition reorder_deq :: "odp_state \<Rightarrow> nat \<Rightarrow> nat \<Rightarrow> (reorder_scan \<times> odp_state) option" where
  "reorder_deq st queue origin =
     reorder_deq_loop queue origin st (qe_reorder_head (qe st origin))
       \<lparr>rs_tail = 0, rs_placeholder = 0, rs_deq = 0, rs_release = 0, rs_placeholders = 0\<rparr>"

text \<open>The result is the buffer taken off the list (or null), and the placeholders.\<close>

partial_function (option) reorder_complete_loop ::
  "nat \<Rightarrow> odp_state \<Rightarrow> u32 \<Rightarrow> u32 \<Rightarrow> (u32 \<times> u32 \<times> odp_state) option" where
  "reorder_complete_loop origin st buf placeholder =
     (if buf \<noteq> 0 \<and> bh_order (hdr st buf) \<le> qe_order_out (qe st origin)
      then let nx = bh_next (hdr st buf) in
        if bh_target_qe (hdr st buf) = None
        then reorder_complete_loop origin
               (order_release origin 1
                 (upd_buf buf (\<lambda>h. h\<lparr>bh_next := placeholder\<rparr>)
                   (upd_qe origin (\<lambda>e. e\<lparr>qe_reorder_head := nx\<rparr>) st))) nx buf
        else if bh_sustain (hdr st buf) then reorder_complete_loop origin st nx placeholder
        else let b = qe_reorder_head (qe st origin)
             in Some (b, placeholder, upd_qe origin (\<lambda>e. e\<lparr>qe_reorder_head := bh_next (hdr st b)\<rparr>) st)
      else Some (0, placeholder, st))"

definition reorder_complete ::
  "odp_state \<Rightarrow> nat \<Rightarrow> u32 \<Rightarrow> bool \<Rightarrow> (u32 \<times> u32 \<times> odp_state) option" where
  "reorder_complete st origin placeholder keep =
     reorder_complete_loop origin st (qe_reorder_head (qe st origin)) (if keep then placeholder else 0)"

partial_function (option) free_placeholders :: "odp_state \<Rightarrow> u32 \<Rightarrow> odp_state option" where
  "free_placeholders st b =
     (if b = 0 then Some st
      else let nx = bh_next (hdr st b) in
        Option.bind (odp_buffer_free (os_pools st) b)
          (\<lambda>pools. free_placeholders (st\<lparr>os_pools := pools\<rparr>) nx))"

section \<open>Enqueue\<close>

definition get_sched_order :: "odp_state \<Rightarrow> (nat option \<times> u64) \<times> odp_state" where
  "get_sched_order st =
     (if sl_ignore_ordered_context (os_local st)
      then ((None, 0), upd_local (\<lambda>l. l\<lparr>sl_ignore_ordered_context := False\<rparr>) st)
      else ((sl_origin_qe (os_local st), sl_order (os_local st)), st))"

definition get_queue_order :: "odp_state \<Rightarrow> u32 \<Rightarrow> (nat option \<times> u64) \<times> odp_state" where
  "get_queue_order st buf =
     (if buf \<noteq> 0 \<and> bh_origin_qe (hdr st buf) \<noteq> None
      then ((bh_origin_qe (hdr st buf), bh_order (hdr st buf)), st)
      else get_sched_order st)"

definition sched_enq_called :: "odp_state \<Rightarrow> odp_state" where
  "sched_enq_called st = upd_local (\<lambda>l. l\<lparr>sl_enq_called := True\<rparr>) st"

definition sched_order_resolved :: "u32 \<Rightarrow> odp_state \<Rightarrow> odp_state" where
  "sched_order_resolved buf st =
     upd_local (\<lambda>l. l\<lparr>sl_origin_qe := None\<rparr>)
       (if buf \<noteq> 0 then upd_buf buf (\<lambda>h. h\<lparr>bh_origin_qe := None\<rparr>) st else st)"

text \<open>
  The part of \<open>ordered_queue_enq\<close> that runs under the locks of both queues, up to the
  first call that can enqueue again: the queue status is bad, the event waits for its
  turn, the event has been appended (with a flag: the queue must be scheduled), or it
  has been merged with the reorder list (with the placeholders to free). When the scan of
  the reorder list picks no event, the source dereferences a null pointer (\<open>None\<close>).
\<close>

datatype ordered_step = Ord_bad | Ord_wait | Ord_direct bool | Ord_merged bool u32

text \<open>In turn: the order is accounted for, and the queue is marked as scheduled when it must be.\<close>

definition ordered_enq_prep :: "odp_state \<Rightarrow> nat \<Rightarrow> u32 \<Rightarrow> bool \<Rightarrow> nat \<Rightarrow> odp_state" where
  "ordered_enq_prep st queue buf sustain origin =
     (let st = (if \<not> sustain then sched_order_resolved buf (order_release origin 1 st) else st)
      in if qe_status (qe st queue) = QUEUE_STATUS_NOTSCHED
         then upd_qe queue (\<lambda>e. e\<lparr>qe_status := QUEUE_STATUS_SCHED\<rparr>) st else st)"

definition ordered_enq_merge ::
  "odp_state \<Rightarrow> nat \<Rightarrow> u32 \<Rightarrow> nat \<Rightarrow> u64 \<Rightarrow> bool \<Rightarrow> (ordered_step \<times> odp_state) option" where
  "ordered_enq_merge st queue buf origin order sched =
     do {
       st \<leftarrow> reorder_enq st (Some queue) order origin buf True;
       (s, st) \<leftarrow> reorder_deq st queue origin;
       if rs_tail s = 0 then None
       else let st = snd (queue_enq_update st queue (qe_reorder_head (qe st origin)) (rs_tail s)
                            (qe_status (qe st queue)));
                st = upd_qe origin (\<lambda>e. e\<lparr>qe_reorder_head := bh_next (hdr st (rs_tail s))\<rparr>) st
            in Some (Ord_merged sched (rs_placeholder s),
                     order_release origin (rs_release s + rs_placeholders s) st)
     }"

definition ordered_enq_locked ::
  "odp_state \<Rightarrow> nat \<Rightarrow> u32 \<Rightarrow> bool \<Rightarrow> nat \<Rightarrow> u64 \<Rightarrow> (ordered_step \<times> odp_state) option" where
  "ordered_enq_locked st queue buf sustain origin order =
     (if qe_status (qe st origin) < QUEUE_STATUS_READY \<or> qe_status (qe st queue) < QUEUE_STATUS_READY
      then Some (Ord_bad, st)
      else let st = sched_enq_called st in
        if order > qe_order_out (qe st origin)
        then map_option (\<lambda>st. (Ord_wait, st)) (reorder_enq st (Some queue) order origin buf sustain)
        else
          let sched = (qe_status (qe st queue) = QUEUE_STATUS_NOTSCHED);
              st = ordered_enq_prep st queue buf sustain origin
          in if qe_reorder_head (qe st origin) = 0
             then do {
               (tl, st) \<leftarrow> get_buf_tail st buf;
               Some (Ord_direct sched, snd (queue_enq_update st queue buf tl (qe_status (qe st queue))))
             }
             else ordered_enq_merge st queue buf origin order sched)"

text \<open>
  Packet output. The parameter \<open>io\<close> is \<open>odp_pktio_send\<close> on the interface of the queue: the
  number of packets sent.
\<close>

definition QUEUE_MULTI_MAX :: nat where "QUEUE_MULTI_MAX = 8"

definition pktout_one ::
  "(odp_state \<Rightarrow> nat \<Rightarrow> u32 list \<Rightarrow> int \<times> odp_state) \<Rightarrow> odp_state \<Rightarrow> nat \<Rightarrow> u32 \<Rightarrow> int \<times> odp_state" where
  "pktout_one io st queue buf = (let (nbr, st) = io st queue [buf] in (if nbr = 1 then 0 else - 1, st))"

partial_function (option) link_bufs :: "odp_state \<Rightarrow> u32 \<Rightarrow> u32 list option" where
  "link_bufs st b =
     (if b = 0 then Some [] else Option.bind (link_bufs st (bh_next (hdr st b))) (\<lambda>bs. Some (b # bs)))"

text \<open>Sending the events released by the reorder list; the result of a send is not looked at.\<close>

partial_function (option) xmit_bufs ::
  "(odp_state \<Rightarrow> nat \<Rightarrow> u32 list \<Rightarrow> int \<times> odp_state) \<Rightarrow> nat \<Rightarrow> odp_state \<Rightarrow> u32 \<Rightarrow> odp_state option" where
  "xmit_bufs io queue st b =
     (let nx = bh_next (hdr st b); st = snd (pktout_one io st queue b)
      in if nx = 0 then Some st else xmit_bufs io queue st nx)"

text \<open>
  \<open>queue_pktout_enq\<close> for an event that came from an ordered queue, up to the enqueue of the next
  event to its own queue: the call returns, or goes on with that event (or null) and the
  placeholders to free. More chained events than the array holds overrun it (\<open>None\<close>).
\<close>

datatype pktout_step = Out_ret int | Out_next u32 u32

definition pktout_send where
  "pktout_send io st queue buf =
     (let link = bh_link (hdr st buf) in
      if link \<noteq> 0
      then let st = upd_buf buf (\<lambda>h. h\<lparr>bh_link := 0\<rparr>) st in
        Option.bind (link_bufs st link) (\<lambda>bufs.
          if length bufs > QUEUE_MULTI_MAX then None
          else let (rc, st) = io st queue bufs in Some (if rc < int (length bufs) then - 1 else 0, st))
      else Some (pktout_one io st queue buf))"

definition pktout_released where
  "pktout_released io st queue origin s =
     (if rs_deq s \<noteq> 0
      then let xmit = qe_reorder_head (qe st origin);
               st = upd_qe origin (\<lambda>e. e\<lparr>qe_reorder_head := bh_next (hdr st (rs_tail s))\<rparr>) st;
               st = upd_buf (rs_tail s) (\<lambda>h. h\<lparr>bh_next := 0\<rparr>) st
           in map_option (\<lambda>st. (qe_status (qe st origin) < QUEUE_STATUS_READY, st)) (xmit_bufs io queue st xmit)
      else Some (False, st))"

definition queue_pktout_ordered ::
  "(odp_state \<Rightarrow> nat \<Rightarrow> u32 list \<Rightarrow> int \<times> odp_state) \<Rightarrow> odp_state \<Rightarrow> nat \<Rightarrow> u32 \<Rightarrow> bool \<Rightarrow> nat \<Rightarrow> u64 \<Rightarrow>
   (pktout_step \<times> odp_state) option" where
  "queue_pktout_ordered io st queue buf sustain origin order =
     (if qe_status (qe st origin) < QUEUE_STATUS_READY then Some (Out_ret (- 1), st)
      else let st = sched_enq_called st in
        if order > qe_order_out (qe st origin)
        then map_option (\<lambda>st. (Out_ret 0, st)) (reorder_enq st (Some queue) order origin buf sustain)
        else do {
          (rc, st) \<leftarrow> pktout_send io st queue buf;
          if rc \<noteq> 0 then Some (Out_ret rc, st)
          else if qe_status (qe st origin) < QUEUE_STATUS_READY then Some (Out_ret (- 1), st)
          else do {
            let st = (if \<not> sustain then sched_order_resolved 0 (order_release origin 1 st) else st);
            (s, st) \<leftarrow> reorder_deq st queue origin;
            (bad, st) \<leftarrow> pktout_released io st queue origin s;
            if bad then Some (Out_ret (- 1), st)
            else do {
              (reorder_buf, placeholder, st) \<leftarrow>
                reorder_complete (order_release origin (rs_release s + rs_placeholders s) st) origin (rs_placeholder s) True;
              Some (Out_next reorder_buf placeholder, st)
            }
          }
        })"

text \<open>
  \<open>ordered_queue_enq\<close>, the enqueue function of a queue (\<open>queue_enq\<close>, \<open>queue_pktout_enq\<close> or
  \<open>pktin_enqueue\<close>, by the type of the queue) and \<open>schedule_queue\<close> call each other; each is a
  case of one recursive function. A failed \<open>schedule_queue\<close> aborts, and so does an enqueue
  to a packet input queue.
\<close>

datatype queue_call =
    Call_enqueue nat u32 bool
  | Call_ordered nat u32 bool nat u64
  | Call_schedule nat

partial_function (option) queue_do ::
  "(odp_state \<Rightarrow> nat \<Rightarrow> u32 list \<Rightarrow> int \<times> odp_state) \<Rightarrow> odp_state \<Rightarrow> queue_call \<Rightarrow>
   (int \<times> odp_state) option" where
  "queue_do io st call =
     (case call of
        Call_schedule queue \<Rightarrow>
          Option.bind (qe_pri_queue (qe st queue)) (\<lambda>pri. Option.bind
            (queue_do io (upd_local (\<lambda>l. l\<lparr>sl_ignore_ordered_context := True\<rparr>) st)
              (Call_enqueue pri (qe_cmd_ev (qe st queue)) True))
            (\<lambda>(r, st). if r \<noteq> 0 then None else Some (0, st)))
      | Call_enqueue queue buf sustain \<Rightarrow>
          if qe_type (qe st queue) = ODP_QUEUE_TYPE_PKTIN then None
          else let ((origin, order), st) = get_queue_order st buf in
            (case origin of
               Some origin \<Rightarrow>
                 if qe_type (qe st queue) = ODP_QUEUE_TYPE_PKTOUT
                 then Option.bind (queue_pktout_ordered io st queue buf sustain origin order) (\<lambda>(step, st).
                   case step of
                     Out_ret rc \<Rightarrow> Some (rc, st)
                   | Out_next reorder_buf placeholder \<Rightarrow> Option.bind
                       (if reorder_buf \<noteq> 0
                        then Option.bind (bh_target_qe (hdr st reorder_buf)) (\<lambda>target.
                               queue_do io st (Call_enqueue target reorder_buf (bh_sustain (hdr st reorder_buf))))
                        else Some (0, st))
                       (\<lambda>(_, st). map_option (\<lambda>st. (0, st)) (free_placeholders st placeholder)))
                 else queue_do io st (Call_ordered queue buf sustain origin order)
             | None \<Rightarrow>
                 if qe_type (qe st queue) = ODP_QUEUE_TYPE_PKTOUT then Some (pktout_one io st queue buf)
                 else let status = qe_status (qe st queue) in
                   if status < QUEUE_STATUS_READY then Some (- 1, st)
                   else let (sched, st) = queue_enq_update st queue buf buf status
                        in if sched then queue_do io st (Call_schedule queue) else Some (0, st))
      | Call_ordered queue buf sustain origin order \<Rightarrow>
          Option.bind (ordered_enq_locked st queue buf sustain origin order) (\<lambda>(step, st).
            case step of
              Ord_bad \<Rightarrow> Some (- 1, st)
            | Ord_wait \<Rightarrow> Some (0, st)
            | Ord_direct sched \<Rightarrow> if sched then queue_do io st (Call_schedule queue) else Some (0, st)
            | Ord_merged sched placeholder \<Rightarrow>
                Option.bind (if sched then queue_do io st (Call_schedule queue) else Some (0, st))
                  (\<lambda>(_, st). Option.bind (reorder_complete st origin placeholder True)
                    (\<lambda>(reorder_buf, placeholder, st). Option.bind
                      (if reorder_buf \<noteq> 0
                       then Option.bind (bh_target_qe (hdr st reorder_buf)) (\<lambda>target.
                              queue_do io st (Call_enqueue target reorder_buf (bh_sustain (hdr st reorder_buf))))
                       else Some (0, st))
                      (\<lambda>(_, st). map_option (\<lambda>st. (0, st)) (free_placeholders st placeholder))))))"

definition queue_enq where
  "queue_enq io st queue buf sustain = queue_do io st (Call_enqueue queue buf sustain)"

definition ordered_queue_enq where
  "ordered_queue_enq io st queue buf sustain origin order =
     queue_do io st (Call_ordered queue buf sustain origin order)"

definition schedule_queue where
  "schedule_queue io st queue = queue_do io st (Call_schedule queue)"

text \<open>The link of the event is not cleared: the source writes to the queue entry instead.\<close>

definition odp_queue_enq where
  "odp_queue_enq io st queue ev = queue_enq io st queue ev True"

fun chain_bufs :: "u32 list \<Rightarrow> odp_state \<Rightarrow> odp_state" where
  "chain_bufs [] st = st"
| "chain_bufs [b] st = upd_buf b (\<lambda>h. h\<lparr>bh_next := 0\<rparr>) st"
| "chain_bufs (b # c # bs) st = chain_bufs (c # bs) (upd_buf b (\<lambda>h. h\<lparr>bh_next := c\<rparr>) st)"

definition queue_enq_multi ::
  "(odp_state \<Rightarrow> nat \<Rightarrow> u32 list \<Rightarrow> int \<times> odp_state) \<Rightarrow> odp_state \<Rightarrow> nat \<Rightarrow> u32 list \<Rightarrow> bool \<Rightarrow>
   (int \<times> odp_state) option" where
  "queue_enq_multi io st queue bufs sustain =
     (let st = chain_bufs bufs st; b0 = bufs ! 0; num = int (length bufs);
          ((origin, order), st) = get_queue_order st b0
      in case origin of
           Some _ \<Rightarrow>
             do {
               let st = upd_buf b0 (\<lambda>h. h\<lparr>bh_link := bh_next h\<rparr>) st;
               (rc, st) \<leftarrow> queue_enq io st queue b0 sustain;
               Some (if rc = 0 then num else rc, st)
             }
         | None \<Rightarrow>
             let status = qe_status (qe st queue) in
             if status < QUEUE_STATUS_READY then Some (- 1, st)
             else let (sched, st) = queue_enq_update st queue b0 (last bufs) status
                  in if sched then map_option (\<lambda>(_, st). (num, st)) (schedule_queue io st queue)
                     else Some (num, st))"

definition queue_pktout_enq_multi ::
  "(odp_state \<Rightarrow> nat \<Rightarrow> u32 list \<Rightarrow> int \<times> odp_state) \<Rightarrow> odp_state \<Rightarrow> nat \<Rightarrow> u32 list \<Rightarrow> bool \<Rightarrow>
   (int \<times> odp_state) option" where
  "queue_pktout_enq_multi io st queue bufs sustain =
     (let ((origin, order), st) = get_queue_order st (bufs ! 0) in
      if origin = None then Some (io st queue bufs)
      else do {
        let st = chain_bufs bufs st;
        let st = upd_buf (bufs ! 0) (\<lambda>h. h\<lparr>bh_link := bh_next h\<rparr>) st;
        (rc, st) \<leftarrow> queue_enq io st queue (bufs ! 0) sustain;
        Some (if rc = 0 then int (length bufs) else rc, st)
      })"

definition odp_queue_enq_multi ::
  "(odp_state \<Rightarrow> nat \<Rightarrow> u32 list \<Rightarrow> int \<times> odp_state) \<Rightarrow> odp_state \<Rightarrow> nat \<Rightarrow> u32 list \<Rightarrow>
   (int \<times> odp_state) option" where
  "odp_queue_enq_multi io st queue evs =
     (if qe_type (qe st queue) = ODP_QUEUE_TYPE_PKTIN then None
      else if qe_type (qe st queue) = ODP_QUEUE_TYPE_PKTOUT
      then queue_pktout_enq_multi io st queue evs True
      else queue_enq_multi io st queue evs True)"

text \<open>A dequeue from a packet input queue polls the interface, as \<open>pktin_deq_multi\<close> of the packet interfaces does; from an output
  queue it aborts.\<close>

definition odp_queue_deq :: "odp_state \<Rightarrow> nat \<Rightarrow> (u32 \<times> odp_state) option" where
  "odp_queue_deq st queue =
     (if qe_type (qe st queue) = ODP_QUEUE_TYPE_PKTIN \<or> qe_type (qe st queue) = ODP_QUEUE_TYPE_PKTOUT
      then None else Some (queue_deq st queue))"

definition odp_queue_deq_multi :: "odp_state \<Rightarrow> nat \<Rightarrow> nat \<Rightarrow> (u32 list option \<times> odp_state) option" where
  "odp_queue_deq_multi st queue num =
     (if qe_type (qe st queue) = ODP_QUEUE_TYPE_PKTIN \<or> qe_type (qe st queue) = ODP_QUEUE_TYPE_PKTOUT
      then None else Some (queue_deq_multi st queue num))"

section \<open>Releasing the order\<close>

text \<open>The last event of the run of events with the given order, and the one behind it.\<close>

partial_function (option) same_order :: "odp_state \<Rightarrow> u64 \<Rightarrow> u32 \<Rightarrow> u32 \<Rightarrow> u32 option" where
  "same_order st order buf nx =
     (if nx \<noteq> 0 \<and> bh_order (hdr st nx) = order then same_order st order nx (bh_next (hdr st nx))
      else Some buf)"

partial_function (option) upto_order :: "odp_state \<Rightarrow> u64 \<Rightarrow> u32 \<Rightarrow> u32 \<Rightarrow> u32 option" where
  "upto_order st order buf nx =
     (if nx \<noteq> 0 \<and> bh_order (hdr st nx) \<le> order then upto_order st order nx (bh_next (hdr st nx))
      else Some buf)"

definition release_placeholder :: "odp_state \<Rightarrow> nat \<Rightarrow> u64 \<Rightarrow> nat \<Rightarrow> (int \<times> odp_state) option" where
  "release_placeholder st origin order pool =
     do {
       (buf, pools) \<leftarrow> odp_buffer_alloc (os_pools st) pool;
       let st = st\<lparr>os_pools := pools\<rparr>;
       if buf = 0 then Some (- 1, st)
       else map_option (\<lambda>st. (0, st)) (reorder_enq st None order origin buf False)
     }"

definition release_order ::
  "(odp_state \<Rightarrow> nat \<Rightarrow> u32 list \<Rightarrow> int \<times> odp_state) \<Rightarrow> odp_state \<Rightarrow> nat \<Rightarrow> u64 \<Rightarrow> nat \<Rightarrow> bool \<Rightarrow>
   (int \<times> odp_state) option" where
  "release_order io st origin order pool enq_called =
     (let head = qe_reorder_head (qe st origin) in
      if order \<le> qe_order_out (qe st origin)
      then if head \<noteq> 0 \<and> bh_order (hdr st head) = order
        then do {
          buf \<leftarrow> same_order st order head (bh_next (hdr st head));
          let st = upd_qe origin (\<lambda>e. e\<lparr>qe_reorder_head := bh_next (hdr st buf)\<rparr>) st;
          let st = upd_buf buf (\<lambda>h. h\<lparr>bh_next := 0\<rparr>) st;
          let st = upd_buf head (\<lambda>h. h\<lparr>bh_link := bh_next (hdr st buf)\<rparr>) st;
          target \<leftarrow> bh_target_qe (hdr st head);
          ordered_queue_enq io st target head False origin order
        }
        else do {
          (reorder_buf, placeholder, st) \<leftarrow> reorder_complete (order_release origin 1 st) origin 0 False;
          (_, st) \<leftarrow> (if reorder_buf \<noteq> 0
            then do {
              target \<leftarrow> bh_target_qe (hdr st reorder_buf);
              queue_enq io st target reorder_buf (bh_sustain (hdr st reorder_buf))
            }
            else Some (0, st));
          st \<leftarrow> free_placeholders st placeholder;
          Some (0, st)
        }
      else do {
        buf \<leftarrow> (if enq_called then upto_order st order 0 head else Some 0);
        if buf \<noteq> 0 \<and> bh_order (hdr st buf) = order
        then Some (0, upd_buf buf (\<lambda>h. h\<lparr>bh_sustain := False\<rparr>) st)
        else release_placeholder st origin order pool
      })"


section \<open>The events of a queue as a list\<close>

lemma upd_simps [simp]:
  "os_queue (upd_buf b f st) = os_queue st" "os_local (upd_buf b f st) = os_local st"
  "os_sched (upd_buf b f st) = os_sched st" "os_cmd (upd_buf b f st) = os_cmd st"
  "hdr (upd_buf b f st) a = (if a = b then f (hdr st b) else hdr st a)"
  "hdr (upd_qe q g st) a = hdr st a" "os_local (upd_qe q g st) = os_local st"
  "os_sched (upd_qe q g st) = os_sched st" "os_cmd (upd_qe q g st) = os_cmd st"
  "length (os_queue (upd_qe q g st)) = length (os_queue st)"
  "hdr (upd_local l st) a = hdr st a" "os_queue (upd_local l st) = os_queue st"
  by (simp_all add: upd_buf_def upd_qe_def upd_local_def hdr_def upd_hdr_def)

lemma qe_upd_qe [simp]:
  "q < length (os_queue st) \<Longrightarrow> qe (upd_qe p g st) q = (if p = q then g (qe st q) else qe st q)"
  by (simp add: upd_qe_def)

definition nexts :: "odp_state \<Rightarrow> u32 \<Rightarrow> u32 option" where
  "nexts st b = ptr_opt (bh_next (hdr st b))"

lemma nexts_upd [simp]:
  "nexts (upd_qe q g st) = nexts st" "nexts (upd_local l st) = nexts st"
  "nexts (upd_buf b f st) = (nexts st)(b := ptr_opt (bh_next (f (hdr st b))))"
  by (simp_all add: nexts_def fun_eq_iff)

definition queue_rep :: "odp_state \<Rightarrow> nat \<Rightarrow> u32 list \<Rightarrow> bool" where
  "queue_rep st q evs \<longleftrightarrow> q < length (os_queue st) \<and> 0 \<notin> set evs \<and>
     chain (nexts st) (ptr_opt (qe_head (qe st q))) evs None \<and>
     qe_tail (qe st q) = (if evs = [] then Tail_head else Tail_next (last evs))"

lemma ptr_opt_eq: "ptr_opt a = Some b \<longleftrightarrow> a = b \<and> b \<noteq> 0" "ptr_opt a = None \<longleftrightarrow> a = 0"
  by (auto simp: ptr_opt_def)

lemma queue_rep_distinct: "queue_rep st q evs \<Longrightarrow> distinct evs"
  by (auto simp: queue_rep_def dest: chain_distinct)

text \<open>Appending a chain of events.\<close>

lemma queue_enq_update_rep:
  assumes rep: "queue_rep st q evs" and bs: "bs \<noteq> []" "hd bs = b" "last bs = e" "0 \<notin> set bs"
      "chain (nexts st) (Some b) bs None" "set bs \<inter> set evs = {}"
    and res: "queue_enq_update st q b e status = (sched, st')"
  shows "queue_rep st' q (evs @ bs)" "sched = (status = QUEUE_STATUS_NOTSCHED)"
    "qe_status (qe st' q) = (if sched then QUEUE_STATUS_SCHED else qe_status (qe st q))"
    "\<And>a. hdr st' a = (hdr st a)\<lparr>bh_next := bh_next (hdr st' a)\<rparr>"
    "\<And>a. a \<notin> set evs \<union> set bs \<Longrightarrow> hdr st' a = hdr st a"
proof -
  have l: "q < length (os_queue st)" using rep by (simp add: queue_rep_def)
  have dist: "distinct bs" using chain_distinct [OF bs(5)] .
  obtain us where us: "bs = us @ [e]" using bs(1,3) by (metis append_butlast_last_id)
  then have ch1: "chain (nexts st) (Some b) us (Some e)" using bs(5) by auto
  have b0: "b \<noteq> 0" using bs(1,2,4) by (cases bs) auto
  have evs0: "0 \<notin> set evs" using rep by (simp add: queue_rep_def)
  show "sched = (status = QUEUE_STATUS_NOTSCHED)" using res by (auto simp: queue_enq_update_def Let_def split: if_splits)
  have "queue_rep st' q (evs @ bs) \<and> qe_status (qe st' q) = (if sched then QUEUE_STATUS_SCHED else qe_status (qe st q)) \<and>
    (\<forall>a. hdr st' a = (hdr st a)\<lparr>bh_next := bh_next (hdr st' a)\<rparr>) \<and>
    (\<forall>a. a \<notin> set evs \<union> set bs \<longrightarrow> hdr st' a = hdr st a)"
  proof (cases evs rule: rev_cases)
    case Nil
    then have t: "qe_tail (qe st q) = Tail_head" using rep by (simp add: queue_rep_def)
    have "chain ((nexts st)(e := None)) (ptr_opt b) bs None"
      using ch1 dist b0 unfolding us by auto
    then show ?thesis
      using res t l bs(1,3,4) Nil by (auto simp: queue_enq_update_def Let_def queue_rep_def split: if_splits)
  next
    case (snoc vs v)
    then have t: "qe_tail (qe st q) = Tail_next v"
      and c: "chain (nexts st) (ptr_opt (qe_head (qe st q))) vs (Some v)" "nexts st v = None"
      using rep by (auto simp: queue_rep_def)
    have nv: "v \<notin> set bs" "e \<noteq> v" "v \<notin> set vs" "e \<notin> set vs" "e \<notin> set us"
      using bs(6) snoc us dist queue_rep_distinct [OF rep] by auto
    have "chain ((nexts st)(e := None, v := Some b)) (ptr_opt (qe_head (qe st q))) (evs @ bs) None"
      using c ch1 nv dist unfolding us snoc by auto
    then show ?thesis
      using res t l bs(1,3,4) evs0 b0 nv(2) snoc
      by (auto simp: queue_enq_update_def Let_def queue_rep_def split: if_splits)
  qed
  then show "queue_rep st' q (evs @ bs)" "qe_status (qe st' q) = (if sched then QUEUE_STATUS_SCHED else qe_status (qe st q))"
    "\<And>a. hdr st' a = (hdr st a)\<lparr>bh_next := bh_next (hdr st' a)\<rparr>"
    "\<And>a. a \<notin> set evs \<union> set bs \<Longrightarrow> hdr st' a = hdr st a" by blast+
qed


lemma queue_enq_update_frame:
  assumes "queue_enq_update st q b e status = (sched, st')" "q < length (os_queue st)"
  shows "os_local st' = os_local st" "os_sched st' = os_sched st" "os_cmd st' = os_cmd st"
    "length (os_queue st') = length (os_queue st)" "p \<noteq> q \<Longrightarrow> p < length (os_queue st) \<Longrightarrow> qe st' p = qe st p"
    "qe st' q = (qe st q)\<lparr>qe_head := qe_head (qe st' q), qe_tail := qe_tail (qe st' q), qe_status := qe_status (qe st' q)\<rparr>"
  using assms by (auto simp: queue_enq_update_def Let_def split: tail_ptr.splits if_splits)

lemma chain_bufs_frame [simp]:
  "os_queue (chain_bufs bs st) = os_queue st" "os_local (chain_bufs bs st) = os_local st"
  "os_sched (chain_bufs bs st) = os_sched st" "os_cmd (chain_bufs bs st) = os_cmd st"
  "a \<notin> set bs \<Longrightarrow> hdr (chain_bufs bs st) a = hdr st a"
  "bh_origin_qe (hdr (chain_bufs bs st) a) = bh_origin_qe (hdr st a)"
  by (induction bs st rule: chain_bufs.induct) auto

lemma chain_bufs_chain:
  assumes "bs \<noteq> []" "distinct bs" "0 \<notin> set bs"
  shows "chain (nexts (chain_bufs bs st)) (Some (hd bs)) bs None"
  using assms
proof (induction bs st rule: chain_bufs.induct)
  case (3 b c bs st)
  let ?st = "upd_buf b (\<lambda>h. h\<lparr>bh_next := c\<rparr>) st"
  have "hdr (chain_bufs (c # bs) ?st) b = hdr ?st b" using 3(3) by (intro chain_bufs_frame) auto
  then have "nexts (chain_bufs (c # bs) ?st) b = Some c" using 3(4) by (simp add: nexts_def ptr_opt_def)
  with 3 show ?case by simp
qed auto

lemma nexts_chain_bufs: "a \<notin> set bs \<Longrightarrow> nexts (chain_bufs bs st) a = nexts st a"
  by (simp add: nexts_def)

lemma queue_rep_cong:
  assumes "queue_rep st q evs" "\<And>a. a \<in> set evs \<Longrightarrow> nexts st' a = nexts st a" "os_queue st' = os_queue st"
  shows "queue_rep st' q evs"
  using assms chain_cong [of evs "nexts st'" "nexts st"] by (simp add: queue_rep_def)

lemma assign_order_frame [simp]:
  "os_local (queue_assign_order q b st) = os_local st" "nexts (queue_assign_order q b st) = nexts st"
  "length (os_queue (queue_assign_order q b st)) = length (os_queue st)"
  "a \<noteq> b \<Longrightarrow> hdr (queue_assign_order q b st) a = hdr st a"
  "bh_next (hdr (queue_assign_order q b st) b) = bh_next (hdr st b)"
  by (simp_all add: queue_assign_order_def Let_def) (simp_all add: nexts_def fun_eq_iff)

lemma assign_order_qe:
  assumes "p < length (os_queue st)"
  shows "qe_head (qe (queue_assign_order q b st) p) = qe_head (qe st p)"
    "qe_tail (qe (queue_assign_order q b st) p) = qe_tail (qe st p)"
    "qe_status (qe (queue_assign_order q b st) p) = qe_status (qe st p)"
    "qe_type (qe (queue_assign_order q b st) p) = qe_type (qe st p)"
    "qe_param (qe (queue_assign_order q b st) p) = qe_param (qe st p)"
  using assms by (simp_all add: queue_assign_order_def Let_def)

lemma assign_order_unordered:
  "\<not> queue_is_ordered (qe st q) \<Longrightarrow> queue_assign_order q b st = upd_buf b (\<lambda>h. h\<lparr>bh_origin_qe := None\<rparr>) st"
  by (simp add: queue_assign_order_def)

lemma deq_loop_rep:
  assumes "chain (nexts st) (ptr_opt b) evs None" "q < length (os_queue st)" "deq_loop q n b st = (bs, b', st')"
  shows "bs = take n evs \<and> chain (nexts st') (ptr_opt b') (drop n evs) None \<and>
    os_local st' = os_local st \<and> length (os_queue st') = length (os_queue st) \<and>
    qe_head (qe st' q) = qe_head (qe st q) \<and> qe_tail (qe st' q) = qe_tail (qe st q) \<and>
    qe_status (qe st' q) = qe_status (qe st q) \<and> qe_type (qe st' q) = qe_type (qe st q) \<and>
    qe_param (qe st' q) = qe_param (qe st q) \<and> (\<forall>a. a \<notin> set bs \<longrightarrow> hdr st' a = hdr st a) \<and>
    (\<not> queue_is_ordered (qe st q) \<longrightarrow> (\<forall>a \<in> set bs. bh_origin_qe (hdr st' a) = None))"
  using assms
proof (induction n arbitrary: b evs st bs b' st')
  case 0
  then show ?case by simp
next
  case (Suc n)
  show ?case
  proof (cases evs)
    case Nil
    with Suc.prems show ?thesis by (auto simp: ptr_opt_eq)
  next
    case (Cons e es)
    then have b: "b = e" "b \<noteq> 0" and ch: "chain (nexts st) (nexts st e) es None"
      using Suc.prems(1) by (auto simp: ptr_opt_eq)
    let ?st1 = "queue_assign_order q b (upd_buf b (\<lambda>h. h\<lparr>bh_next := 0\<rparr>) st)"
    have "e \<notin> set es" using chain_distinct [OF Suc.prems(1)] Cons by simp
    then have ch1: "chain (nexts ?st1) (ptr_opt (bh_next (hdr st b))) es None"
      using ch b(1) by (simp add: nexts_def)
    obtain bs1 where l: "deq_loop q n (bh_next (hdr st b)) ?st1 = (bs1, b', st')" and bs: "bs = b # bs1"
      using Suc.prems(3) b by (auto simp: Let_def split: prod.splits)
    have l1: "q < length (os_queue ?st1)" using Suc.prems(2) by simp
    note IH = Suc.IH [OF ch1 l1 l]
    have q1: "qe_head (qe ?st1 q) = qe_head (qe st q)" "qe_tail (qe ?st1 q) = qe_tail (qe st q)"
      "qe_status (qe ?st1 q) = qe_status (qe st q)" "qe_type (qe ?st1 q) = qe_type (qe st q)"
      "qe_param (qe ?st1 q) = qe_param (qe st q)"
      using Suc.prems(2) by (simp_all add: assign_order_qe)
    have o: "queue_is_ordered (qe ?st1 q) = queue_is_ordered (qe st q)" using q1 by (simp add: queue_is_ordered_def)
    have nb: "b \<notin> set bs1" using IH \<open>e \<notin> set es\<close> b by (auto dest: in_set_takeD)
    have "bh_origin_qe (hdr st' b) = None" if "\<not> queue_is_ordered (qe st q)"
      using IH nb that by (simp add: assign_order_unordered)
    then show ?thesis using IH q1 o bs Cons b by auto
  qed
qed


lemma queue_deq_multi_rep:
  assumes rep: "queue_rep st q evs" and ready: "QUEUE_STATUS_READY \<le> qe_status (qe st q)"
    and res: "queue_deq_multi st q n = (r, st')"
  shows "r = Some (take n evs) \<and> queue_rep st' q (drop n evs) \<and> os_local st' = os_local st \<and>
    qe_status (qe st' q) =
      (if evs = [] \<and> qe_status (qe st q) = QUEUE_STATUS_SCHED then QUEUE_STATUS_NOTSCHED else qe_status (qe st q)) \<and>
    qe_type (qe st' q) = qe_type (qe st q) \<and> qe_param (qe st' q) = qe_param (qe st q) \<and>
    (\<forall>a. a \<notin> set (take n evs) \<longrightarrow> hdr st' a = hdr st a) \<and>
    (\<not> queue_is_ordered (qe st q) \<longrightarrow> (\<forall>a \<in> set (take n evs). bh_origin_qe (hdr st' a) = None))"
proof -
  have l: "q < length (os_queue st)" and nz: "0 \<notin> set evs"
    and ch: "chain (nexts st) (ptr_opt (qe_head (qe st q))) evs None"
    and tl: "qe_tail (qe st q) = (if evs = [] then Tail_head else Tail_next (last evs))"
    using rep by (simp_all add: queue_rep_def)
  show ?thesis
  proof (cases evs)
    case Nil
    then have "qe_head (qe st q) = 0" using ch by (simp add: ptr_opt_eq)
    with Nil tl l ready res show ?thesis
      by (auto simp: queue_deq_multi_def Let_def queue_rep_def ptr_opt_eq not_less split: if_splits)
  next
    case (Cons e es)
    then have h: "qe_head (qe st q) \<noteq> 0" using ch nz by (auto simp: ptr_opt_eq)
    obtain bs b st1 where dl: "deq_loop q n (qe_head (qe st q)) st = (bs, b, st1)" by (metis prod_cases3)
    note L = deq_loop_rep [OF ch l dl]
    have l1: "q < length (os_queue st1)" using L l by simp
    have b0: "b = 0 \<longleftrightarrow> drop n evs = []"
    proof (cases "drop n evs")
      case Nil
      with L show ?thesis by (simp add: ptr_opt_eq)
    next
      case (Cons y ys)
      then have "y \<in> set evs" by (metis in_set_dropD list.set_intros(1))
      with L Cons nz show ?thesis by (auto simp: ptr_opt_eq)
    qed
    have nz': "0 \<notin> set (drop n evs)" using nz by (auto dest: in_set_dropD)
    have "st' = (if b = 0 then upd_qe q (\<lambda>e. e\<lparr>qe_tail := Tail_head\<rparr>) (upd_qe q (\<lambda>e. e\<lparr>qe_head := b\<rparr>) st1)
        else upd_qe q (\<lambda>e. e\<lparr>qe_head := b\<rparr>) st1)" "r = Some bs"
      using res ready h dl by (auto simp: queue_deq_multi_def Let_def not_less)
    with L l1 b0 tl Cons nz' show ?thesis by (auto simp: queue_rep_def last_drop)
  qed
qed

section \<open>A polled queue as a first-in first-out container\<close>

text \<open>The events owned by the callers are kept with the state: enqueueing gives an event
  away, dequeueing takes it back.\<close>

definition poll_rep :: "nat \<Rightarrow> odp_state \<times> u32 set \<Rightarrow> u32 list \<Rightarrow> bool" where
  "poll_rep q s evs \<longleftrightarrow> queue_rep (fst s) q evs \<and> set evs \<inter> snd s = {} \<and> 0 \<notin> snd s \<and>
     qe_type (qe (fst s) q) = ODP_QUEUE_TYPE_POLL \<and> qe_status (qe (fst s) q) = QUEUE_STATUS_READY \<and>
     \<not> queue_is_ordered (qe (fst s) q) \<and> sl_origin_qe (os_local (fst s)) = None \<and>
     (\<forall>b \<in> snd s. bh_origin_qe (hdr (fst s) b) = None)"

definition poll_fits :: "odp_state \<times> u32 set \<Rightarrow> u32 list \<Rightarrow> bool" where
  "poll_fits s bs \<longleftrightarrow> bs \<noteq> [] \<and> distinct bs \<and> set bs \<subseteq> snd s"

definition poll_put where
  "poll_put io q s bs =
     (case odp_queue_enq_multi io (fst s) q bs of
        Some (n, st) \<Rightarrow> (st, snd s - set bs) | None \<Rightarrow> s)"

definition poll_get :: "nat \<Rightarrow> odp_state \<times> u32 set \<Rightarrow> nat \<Rightarrow> u32 list \<times> odp_state \<times> u32 set" where
  "poll_get q s n =
     (case odp_queue_deq_multi (fst s) q n of
        Some (Some bs, st) \<Rightarrow> (bs, st, snd s \<union> set bs) | _ \<Rightarrow> ([], s))"

lemma get_queue_order_none:
  assumes "bh_origin_qe (hdr st b) = None" "sl_origin_qe (os_local st) = None"
  obtains order st' where "get_queue_order st b = ((None, order), st')" "os_queue st' = os_queue st"
    "os_sched st' = os_sched st" "hdr st' = hdr st" "sl_origin_qe (os_local st') = None" "os_cmd st' = os_cmd st"
proof -
  let ?st = "if sl_ignore_ordered_context (os_local st)
    then upd_local (\<lambda>l. l\<lparr>sl_ignore_ordered_context := False\<rparr>) st else st"
  have "get_queue_order st b = ((None, if sl_ignore_ordered_context (os_local st) then 0 else sl_order (os_local st)), ?st)"
    using assms by (simp add: get_queue_order_def get_sched_order_def)
  moreover have "os_queue ?st = os_queue st" "os_sched ?st = os_sched st" "hdr ?st = hdr st"
    "sl_origin_qe (os_local ?st) = None" "os_cmd ?st = os_cmd st"
    using assms(2) by (simp_all add: upd_local_def fun_eq_iff hdr_def)
  ultimately show thesis by (rule that)
qed

lemma poll_put_rep:
  assumes rep: "poll_rep q s evs" and fits: "poll_fits s bs"
  shows "\<exists>st'. odp_queue_enq_multi io (fst s) q bs = Some (int (length bs), st') \<and>
    poll_rep q (st', snd s - set bs) (evs @ bs)"
proof -
  obtain st own where s: "s = (st, own)" by fastforce
  define c where "c = chain_bufs bs st"
  have R: "queue_rep st q evs" "set evs \<inter> own = {}" "0 \<notin> own" "qe_type (qe st q) = ODP_QUEUE_TYPE_POLL"
    "qe_status (qe st q) = QUEUE_STATUS_READY" "\<not> queue_is_ordered (qe st q)" "sl_origin_qe (os_local st) = None"
    "\<And>b. b \<in> own \<Longrightarrow> bh_origin_qe (hdr st b) = None"
    using rep by (simp_all add: poll_rep_def s)
  have F: "bs \<noteq> []" "distinct bs" "set bs \<subseteq> own" using fits by (simp_all add: poll_fits_def s)
  then have b0: "bs ! 0 = hd bs" "hd bs \<in> own" "0 \<notin> set bs" "set bs \<inter> set evs = {}"
    using R(2,3) by (auto simp: hd_conv_nth)
  have ch: "chain (nexts c) (Some (hd bs)) bs None" using chain_bufs_chain F b0 unfolding c_def by blast
  have "bh_origin_qe (hdr c (bs ! 0)) = None" "sl_origin_qe (os_local c) = None"
    using R(7,8) b0 by (simp_all add: c_def)
  from get_queue_order_none [OF this] obtain order st1 where
    go: "get_queue_order c (bs ! 0) = ((None, order), st1)" "os_queue st1 = os_queue c"
      "hdr st1 = hdr c" "sl_origin_qe (os_local st1) = None" by blast
  have nx: "nexts st1 = nexts c" using go(3) by (simp add: nexts_def fun_eq_iff)
  have q1: "qe st1 q = qe st q" "q < length (os_queue st1)" using go(2) R(1) by (simp_all add: c_def queue_rep_def)
  have rep1: "queue_rep st1 q evs"
    using nexts_chain_bufs [of _ bs st] b0(4) by (intro queue_rep_cong [OF R(1)]) (auto simp: nx go(2) c_def)
  obtain sched st2 where up: "queue_enq_update st1 q (bs ! 0) (last bs) (qe_status (qe st1 q)) = (sched, st2)" by fastforce
  note U = queue_enq_update_rep [OF rep1 F(1) b0(1) [symmetric] refl b0(3) _ b0(4) up]
  have chn: "chain (nexts st1) (Some (bs ! 0)) bs None" using ch nx b0(1) by simp
  note U = U [OF chn] and fr = queue_enq_update_frame [OF up q1(2)]
  have ns: "\<not> sched" using U(2) R(5) q1(1) by (simp add: queue_consts)
  have enq: "odp_queue_enq_multi io st q bs = Some (int (length bs), st2)"
    using go up ns R(4,5) q1(1)
    by (simp add: odp_queue_enq_multi_def queue_enq_multi_def c_def Let_def queue_consts)
  have "bh_origin_qe (hdr st2 b) = None" if "b \<in> own" for b
    using arg_cong [OF U(4) [of b], of bh_origin_qe] go(3) R(8) [OF that] by (simp add: c_def)
  moreover have "qe_param (qe st2 q) = qe_param (qe st q)" "qe_type (qe st2 q) = qe_type (qe st q)"
    using arg_cong [OF fr(6), of qe_param] arg_cong [OF fr(6), of qe_type] q1(1) by simp_all
  moreover have "qe_status (qe st2 q) = QUEUE_STATUS_READY" "sl_origin_qe (os_local st2) = None"
    using U(3) ns R(5) q1(1) fr(1) go(4) by simp_all
  moreover have "set (evs @ bs) \<inter> (own - set bs) = {}" using R(2) by auto
  ultimately have "poll_rep q (st2, own - set bs) (evs @ bs)"
    using U(1) R(3,4,6) by (simp add: poll_rep_def queue_is_ordered_def)
  with enq show ?thesis by (simp add: s)
qed

lemma poll_get_rep:
  assumes rep: "poll_rep q s evs"
  shows "\<exists>st'. odp_queue_deq_multi (fst s) q n = Some (Some (take n evs), st') \<and>
    poll_rep q (st', snd s \<union> set (take n evs)) (drop n evs)"
proof -
  obtain st own where s: "s = (st, own)" by fastforce
  have R: "queue_rep st q evs" "set evs \<inter> own = {}" "0 \<notin> own" "qe_type (qe st q) = ODP_QUEUE_TYPE_POLL"
    "qe_status (qe st q) = QUEUE_STATUS_READY" "\<not> queue_is_ordered (qe st q)" "sl_origin_qe (os_local st) = None"
    "\<And>b. b \<in> own \<Longrightarrow> bh_origin_qe (hdr st b) = None"
    using rep by (simp_all add: poll_rep_def s)
  obtain r st' where dq: "queue_deq_multi st q n = (r, st')" by fastforce
  have rd: "QUEUE_STATUS_READY \<le> qe_status (qe st q)" using R(5) by simp
  note D = queue_deq_multi_rep [OF R(1) rd dq]
  have "set (take n evs) \<inter> set (drop n evs) = {}"
    using queue_rep_distinct [OF R(1)] by (simp add: set_take_disj_set_drop_if_distinct)
  then have dis: "set (drop n evs) \<inter> (own \<union> set (take n evs)) = {}" "0 \<notin> own \<union> set (take n evs)"
    using R(1,2,3) by (auto simp: queue_rep_def dest: in_set_takeD in_set_dropD)
  have "bh_origin_qe (hdr st' b) = None" if "b \<in> own \<union> set (take n evs)" for b
    using D R(6,8) that by (cases "b \<in> set (take n evs)") auto
  moreover have "qe_status (qe st' q) = QUEUE_STATUS_READY" using D R(5) by (simp add: queue_consts)
  ultimately have "poll_rep q (st', own \<union> set (take n evs)) (drop n evs)"
    using D R dis by (simp add: poll_rep_def queue_is_ordered_def)
  with D dq R(4) show ?thesis by (simp add: s odp_queue_deq_multi_def queue_consts)
qed

interpretation pq: fifo_container "poll_rep q" poll_fits "poll_put io q" "poll_get q" for io q
proof unfold_locales
  fix s evs bs
  assume "poll_rep q s evs" "poll_fits s bs"
  then show "poll_rep q (poll_put io q s bs) (evs @ bs)"
    using poll_put_rep [of q s evs bs io] by (auto simp: poll_put_def)
next
  fix s evs n
  assume "poll_rep q s evs"
  then obtain st' where "odp_queue_deq_multi (fst s) q n = Some (Some (take n evs), st')"
    "poll_rep q (st', snd s \<union> set (take n evs)) (drop n evs)" using poll_get_rep by blast
  then have "evs = fst (poll_get q s n) @ drop n evs" "poll_rep q (snd (poll_get q s n)) (drop n evs)"
    by (simp_all add: poll_get_def)
  then show "\<exists>zs. evs = fst (poll_get q s n) @ zs \<and> poll_rep q (snd (poll_get q s n)) zs" by blast
qed


section \<open>Properties\<close>

definition queue_example :: odp_state where
  "queue_example =
     \<lparr>os_pools = pool_example_table, os_queue = replicate ODP_CONFIG_QUEUES queue_zero,
      os_sched = \<lparr>sc_pri_queue = [0], sc_pool = 0, sc_pri_count = [0]\<rparr>,
      os_local = \<lparr>sl_pri_queue = None, sl_cmd_ev = 0, sl_buf_hdr = [], sl_qe = None, sl_origin_qe = None,
        sl_order = 0, sl_sync = [0], sl_pool = None, sl_enq_called = False, sl_num = 0, sl_index = 0,
        sl_pause = False, sl_ignore_ordered_context = False\<rparr>,
      os_cmd = \<lambda>_. Cmd_none\<rparr>"

definition queue_example_polled :: odp_state where
  "queue_example_polled =
     upd_qe 0 (\<lambda>q. (queue_init ''q'' ODP_QUEUE_TYPE_POLL None q)\<lparr>qe_status := QUEUE_STATUS_READY\<rparr>) queue_example"

lemma queue_example_create:
  "odp_queue_create queue_example ''q'' ODP_QUEUE_TYPE_POLL None = Some (Some 0, queue_example_polled)"
  by (simp add: odp_queue_create_def queue_example_polled_def queue_consts Let_def)
    (simp add: queue_example_def ODP_CONFIG_QUEUES_def queue_zero_def queue_consts numeral_eq_Suc)

lemma queue_example_simps [simp]:
  "length (os_queue queue_example_polled) = 128"
  "qe queue_example_polled 0 =
     (queue_init ''q'' ODP_QUEUE_TYPE_POLL None queue_zero)\<lparr>qe_status := QUEUE_STATUS_READY\<rparr>"
  "os_local queue_example_polled = os_local queue_example"
  "sl_origin_qe (os_local queue_example) = None" "sl_ignore_ordered_context (os_local queue_example) = False"
  "hdr queue_example_polled a = hdr_example" "hdr queue_example a = hdr_example"
  by (simp_all add: queue_example_polled_def queue_example_def ODP_CONFIG_QUEUES_def upd_qe_def hdr_def
      pool_example_table_def)

lemma deq_loop_numeral:
  "deq_loop q (numeral k) b st =
     (if b = 0 then ([], b, st)
      else let nx = bh_next (hdr st b);
               st = queue_assign_order q b (upd_buf b (\<lambda>h. h\<lparr>bh_next := 0\<rparr>) st);
               (bs, b', st) = deq_loop q (pred_numeral k) nx st
           in (b # bs, b', st))"
  by (simp add: numeral_eq_Suc)

lemmas queue_eval =
  poll_fits_def poll_put_def poll_get_def odp_queue_enq_multi_def odp_queue_deq_multi_def queue_enq_multi_def
  queue_deq_multi_def queue_enq_update_def get_queue_order_def get_sched_order_def queue_assign_order_def
  queue_is_ordered_def Let_def queue_init_def queue_param_default_def queue_zero_def queue_consts
  hdr_example_def deq_loop_numeral


lemma queue_example_polled_rep: "poll_rep 0 (queue_example_polled, {64, 128, 192}) []"
  by (simp add: poll_rep_def queue_rep_def queue_eval ptr_opt_def)



lemma queue_first_free_spec:
  "queue_first_free qs \<le> length qs"
  "j < queue_first_free qs \<Longrightarrow> qe_status (qs ! j) \<noteq> QUEUE_STATUS_FREE"
  "queue_first_free qs < length qs \<Longrightarrow> qe_status (qs ! queue_first_free qs) = QUEUE_STATUS_FREE"
proof (induction qs arbitrary: j)
  case (Cons q qs)
  { case 2 then show ?case using Cons(2) by (cases j) (auto split: if_splits) }
  { case 3 then show ?case using Cons(3) by (auto split: if_splits) }
  case 1 show ?case using Cons(1) by simp
qed auto

lemma queue_term_global_live:
  "i < length (os_queue st) \<Longrightarrow> qe_status (qe st i) \<noteq> QUEUE_STATUS_FREE \<Longrightarrow> odp_queue_term_global st = - 1"
  by (auto simp: odp_queue_term_global_def list_all_length)

lemma schedule_queue_init_frame:
  assumes "schedule_queue_init st q = Some (r, st')" "q < length (os_queue st)"
  shows "length (os_queue st') = length (os_queue st)" "\<And>j. j < length (os_queue st) \<Longrightarrow> j \<noteq> q \<Longrightarrow> qe st' j = qe st j"
    "qe st' q = (qe st q)\<lparr>qe_cmd_ev := qe_cmd_ev (qe st' q), qe_pri_queue := qe_pri_queue (qe st' q)\<rparr>"
  using assms by (auto simp: schedule_queue_init_def pri_set_def Let_def upd_qe_def bind_eq_Some_conv split: if_splits)

definition sched_type :: "int \<Rightarrow> bool" where
  "sched_type type \<longleftrightarrow> type = ODP_QUEUE_TYPE_SCHED \<or> type = ODP_QUEUE_TYPE_PKTIN"

definition queue_created :: "string \<Rightarrow> int \<Rightarrow> odp_queue_param_t option \<Rightarrow> queue_entry_s \<Rightarrow> queue_entry_s" where
  "queue_created name type param q = (queue_init name type param q)\<lparr>qe_status :=
     (if sched_type type then QUEUE_STATUS_NOTSCHED else QUEUE_STATUS_READY)\<rparr>"

lemma queue_create_alt:
  "odp_queue_create st name type param =
     (let i = queue_first_free (os_queue st); st1 = upd_qe i (queue_created name type param) st in
      if i = length (os_queue st) then Some (None, st)
      else if sched_type type
      then Option.bind (schedule_queue_init st1 i) (\<lambda>(r, st). Some (if r \<noteq> 0 then None else Some i, st))
      else Some (Some i, st1))"
  unfolding odp_queue_create_def queue_created_def sched_type_def Let_def by simp

lemma queue_create_entry:
  assumes "odp_queue_create st name type param = Some (Some i, st')"
  shows "i = queue_first_free (os_queue st)" "i < length (os_queue st)" "length (os_queue st') = length (os_queue st)"
    "\<And>j. j < length (os_queue st) \<Longrightarrow> j \<noteq> i \<Longrightarrow> qe st' j = qe st j"
    "qe st' i = (queue_created name type param (qe st i))
       \<lparr>qe_cmd_ev := qe_cmd_ev (qe st' i), qe_pri_queue := qe_pri_queue (qe st' i)\<rparr>"
proof -
  show i: "i = queue_first_free (os_queue st)" "i < length (os_queue st)"
    using assms queue_first_free_spec(1) [of "os_queue st"]
    by (auto simp: queue_create_alt Let_def bind_eq_Some_conv split: if_splits)
  let ?s1 = "upd_qe i (queue_created name type param) st"
  have "length (os_queue st') = length (os_queue st) \<and> (\<forall>j < length (os_queue st). j \<noteq> i \<longrightarrow> qe st' j = qe st j) \<and>
      qe st' i = (queue_created name type param (qe st i))
        \<lparr>qe_cmd_ev := qe_cmd_ev (qe st' i), qe_pri_queue := qe_pri_queue (qe st' i)\<rparr>"
  proof (cases "sched_type type")
    case True
    then have "schedule_queue_init ?s1 i = Some (0, st')" using assms i
      by (auto simp: queue_create_alt Let_def bind_eq_Some_conv split: if_splits)
    from schedule_queue_init_frame [OF this] i(2) show ?thesis by simp
  next
    case False
    then have "st' = ?s1" using assms i by (simp add: queue_create_alt Let_def)
    then show ?thesis using i(2) False by (simp add: queue_created_def queue_init_def)
  qed
  then show "length (os_queue st') = length (os_queue st)"
    "\<And>j. j < length (os_queue st) \<Longrightarrow> j \<noteq> i \<Longrightarrow> qe st' j = qe st j"
    "qe st' i = (queue_created name type param (qe st i))
       \<lparr>qe_cmd_ev := qe_cmd_ev (qe st' i), qe_pri_queue := qe_pri_queue (qe st' i)\<rparr>" by blast+
qed

text \<open>C30. A successful \<open>odp_queue_create\<close> takes the first free entry of the queue table and no
  other: the entry becomes an empty queue with the given name (cut to 31 characters), type
  and parameters (the defaults for a null pointer), ready, or waiting to be scheduled for the
  types the scheduler serves; \<open>odp_queue_info\<close> returns them, and \<open>odp_queue_lookup\<close> by
  that name returns this queue unless an earlier live queue has the same name.\<close>

theorem queue_create_correct:
  assumes "odp_queue_create st name type param = Some (Some i, st')"
  shows "i < length (os_queue st) \<and> qe_status (qe st i) = QUEUE_STATUS_FREE \<and>
    (\<forall>j < i. qe_status (qe st j) \<noteq> QUEUE_STATUS_FREE) \<and>
    (\<forall>j < length (os_queue st). j \<noteq> i \<longrightarrow> qe st' j = qe st j) \<and>
    queue_rep st' i [] \<and>
    qe_status (qe st' i) = (if type = ODP_QUEUE_TYPE_SCHED \<or> type = ODP_QUEUE_TYPE_PKTIN
      then QUEUE_STATUS_NOTSCHED else QUEUE_STATUS_READY) \<and>
    odp_queue_info st' i =
      Some (take 31 name, type, case param of Some p \<Rightarrow> p | None \<Rightarrow> queue_param_default) \<and>
    ((\<forall>j < i. \<not> queue_named (take 31 name) (qe st j)) \<longrightarrow> odp_queue_lookup st' (take 31 name) = Some i)"
proof -
  note C = queue_create_entry [OF assms]
  note fields = arg_cong [OF C(5), of qe_head] arg_cong [OF C(5), of qe_tail] arg_cong [OF C(5), of qe_status]
    arg_cong [OF C(5), of qe_name] arg_cong [OF C(5), of qe_type] arg_cong [OF C(5), of qe_param]
    queue_created_def queue_init_def queue_consts ODP_QUEUE_NAME_LEN_def
  have st: "qe_status (qe st' i) = (if sched_type type then QUEUE_STATUS_NOTSCHED else QUEUE_STATUS_READY)"
    by (simp add: fields)
  have rep: "queue_rep st' i []" using C(2,3) by (simp add: fields queue_rep_def)
  have info: "odp_queue_info st' i = Some (take 31 name, type, case param of Some p \<Rightarrow> p | None \<Rightarrow> queue_param_default)"
    by (simp add: fields odp_queue_info_def)
  have lk: "odp_queue_lookup st' (take 31 name) = Some i" if n: "\<forall>j < i. \<not> queue_named (take 31 name) (qe st j)"
    unfolding odp_queue_lookup_def C(3)
  proof (rule find_upt_first [OF _ C(2)])
    show "queue_named (take 31 name) (qe st' i)" by (simp add: fields queue_named_def)
    show "\<not> queue_named (take 31 name) (qe st' j)" if "j < i" for j
      using that C(4) [of j] C(2) n by simp
  qed
  have ff: "qe_status (qe st i) = QUEUE_STATUS_FREE" "\<forall>j < i. qe_status (qe st j) \<noteq> QUEUE_STATUS_FREE"
    using queue_first_free_spec(2,3) [where qs = "os_queue st"] C(1,2) by auto
  show ?thesis using C(2,4) ff st rep info lk unfolding sched_type_def by blast
qed

theorem queue_create_correct_witness:
  "odp_queue_create queue_example ''q'' ODP_QUEUE_TYPE_POLL None = Some (Some 0, queue_example_polled) \<and>
   odp_queue_lookup queue_example_polled (take 31 ''q'') = Some 0 \<and> queue_rep queue_example_polled 0 []"
  using queue_create_correct [OF queue_example_create] queue_example_create by simp

text \<open>When the scheduler has no command event left for a new scheduled queue,
  \<open>odp_queue_create\<close> returns the invalid queue but keeps the entry it claimed: the entry is
  no longer free, so it is lost to later calls and the global termination reports an error.\<close>

lemma queue_create_leaks_entry:
  assumes "queue_first_free (os_queue st) = i" and "i < length (os_queue st)"
    and "type = ODP_QUEUE_TYPE_SCHED \<or> type = ODP_QUEUE_TYPE_PKTIN"
    and "odp_buffer_alloc (os_pools st) (sc_pool (os_sched st)) = Some (0, pools)"
  shows "\<exists>st'. odp_queue_create st name type param = Some (None, st') \<and>
    qe_status (qe st i) = QUEUE_STATUS_FREE \<and> qe_status (qe st' i) = QUEUE_STATUS_NOTSCHED \<and>
    i < queue_first_free (os_queue st') \<and> odp_queue_term_global st' = - 1"
proof -
  let ?s1 = "(upd_qe i (queue_created name type param) st)\<lparr>os_pools := pools\<rparr>"
  have "odp_queue_create st name type param = Some (None, ?s1)"
    using assms by (simp add: queue_create_alt schedule_queue_init_def sched_type_def Let_def upd_qe_def)
  moreover have e: "qe_status (qe ?s1 i) = QUEUE_STATUS_NOTSCHED" "i < length (os_queue ?s1)"
    using assms(2,3) by (simp_all add: upd_qe_def queue_created_def sched_type_def)
  moreover have "qe_status (qe st j) \<noteq> QUEUE_STATUS_FREE \<and> qe ?s1 j = qe st j" if "j < i" for j
    using that assms(1,2) queue_first_free_spec(2) [where qs = "os_queue st"] by (auto simp: upd_qe_def)
  then have "j \<le> i \<Longrightarrow> qe_status (qe ?s1 j) \<noteq> QUEUE_STATUS_FREE" for j
    using e(1) by (cases "j = i") (auto simp: queue_consts)
  then have "i < queue_first_free (os_queue ?s1)"
    using queue_first_free_spec(3) [of "os_queue ?s1"] e(2) by (meson le_less_linear order.strict_trans1)
  moreover have "odp_queue_term_global ?s1 = - 1"
    using e by (intro queue_term_global_live [of i]) (simp_all add: queue_consts)
  ultimately show ?thesis
    using assms(1,2) queue_first_free_spec(3) [where qs = "os_queue st"] by blast
qed

subsection \<open>The reorder list\<close>

definition ev_order :: "odp_state \<Rightarrow> u32 \<Rightarrow> u64" where
  "ev_order st b = bh_order (hdr st b)"

text \<open>The events that wait for their turn, in the order of the list.\<close>

definition reorder_rep :: "odp_state \<Rightarrow> nat \<Rightarrow> u32 list \<Rightarrow> bool" where
  "reorder_rep st q evs \<longleftrightarrow> q < length (os_queue st) \<and> 0 \<notin> set evs \<and>
     chain (nexts st) (ptr_opt (qe_reorder_head (qe st q))) evs None \<and> sorted (map (ev_order st) evs)"

lemma reorder_find_chain:
  assumes "chain (nexts st) (ptr_opt b) evs None" "0 \<notin> set evs"
  shows "reorder_find st order prev b =
    Some (last (prev # takeWhile (\<lambda>e. ev_order st e \<le> order) evs),
          case dropWhile (\<lambda>e. ev_order st e \<le> order) evs of [] \<Rightarrow> 0 | e # _ \<Rightarrow> e)"
  using assms
proof (induction evs arbitrary: b prev)
  case Nil
  then show ?case by (simp add: ptr_opt_eq reorder_find.simps)
next
  case (Cons e es)
  then have e: "b = e" "b \<noteq> 0" and ch: "chain (nexts st) (ptr_opt (bh_next (hdr st b))) es None"
    by (simp_all add: ptr_opt_eq) (simp add: nexts_def)
  with Cons show ?case by (subst reorder_find.simps) (simp add: ev_order_def)
qed

lemma reorder_enq_splits:
  assumes q: "origin < length (os_queue st)" and z: "0 \<notin> set (us @ vs)"
    and ch: "chain (nexts st) (ptr_opt (qe_reorder_head (qe st origin))) (us @ vs) None"
    and b: "buf \<noteq> 0" "buf \<notin> set (us @ vs)"
    and le: "us = takeWhile (\<lambda>e. ev_order st e \<le> order) (us @ vs)" "vs = dropWhile (\<lambda>e. ev_order st e \<le> order) (us @ vs)"
  obtains st' where "reorder_enq st queue order origin buf sustain = Some st'"
    "\<And>a. ev_order st' a = (if a = buf then order else ev_order st a)" "bh_target_qe (hdr st' buf) = queue"
    "length (os_queue st') = length (os_queue st)"
    "chain (nexts st') (ptr_opt (qe_reorder_head (qe st' origin))) (us @ buf # vs) None"
proof -
  define prev nx where "prev = last (0 # us)" and "nx = (case vs of [] \<Rightarrow> 0 | e # _ \<Rightarrow> e)"
  have dis: "distinct (us @ vs)" by (rule chain_distinct [OF ch])
  have find: "reorder_find st order 0 (qe_reorder_head (qe st origin)) = Some (prev, nx)"
    using reorder_find_chain [OF ch z, of order 0] unfolding le [symmetric] prev_def nx_def .
  define st1 where "st1 = upd_buf buf (\<lambda>h. h\<lparr>bh_next := nx\<rparr>) st"
  define st2 where "st2 = (if prev \<noteq> 0 then upd_buf prev (\<lambda>h. h\<lparr>bh_next := buf\<rparr>) st1
                 else upd_qe origin (\<lambda>e. e\<lparr>qe_reorder_head := buf\<rparr>) st1)"
  define st3 where "st3 = (if nx = 0 then upd_qe origin (\<lambda>e. e\<lparr>qe_reorder_tail := buf\<rparr>) st2 else st2)"
  define st' where "st' = upd_buf buf (\<lambda>h. h\<lparr>bh_origin_qe := Some origin, bh_target_qe := queue, bh_order := order,
                               bh_sustain := sustain\<rparr>) st3"
  have eq: "reorder_enq st queue order origin buf sustain = Some st'"
    by (simp add: reorder_enq_def find Let_def st'_def st3_def st2_def st1_def)
  have vch: "chain (nexts st) (ptr_opt nx) vs None" using ch z by (cases vs) (auto simp: nx_def)
  have len: "length (os_queue st') = length (os_queue st)" by (simp add: st'_def st3_def st2_def st1_def)
  have nx': "nexts st' = nexts st2" by (auto simp: st'_def st3_def nexts_def fun_eq_iff)
  have hd': "qe_reorder_head (qe st' origin) = qe_reorder_head (qe st2 origin)"
    using q by (simp add: st'_def st3_def st2_def st1_def)
  have "chain (nexts st') (ptr_opt (qe_reorder_head (qe st' origin))) (us @ buf # vs) None"
  proof (cases us rule: rev_cases)
    case Nil
    then have "st2 = upd_qe origin (\<lambda>e. e\<lparr>qe_reorder_head := buf\<rparr>) st1" by (simp add: st2_def prev_def)
    then show ?thesis using Nil vch q b unfolding nx' hd' by (simp add: st1_def)
  next
    case (snoc us' p)
    then have p: "prev = p" "p \<noteq> 0" "p \<noteq> buf" "p \<notin> set us'" "p \<notin> set vs" using z b dis by (auto simp: prev_def)
    then have "st2 = upd_buf p (\<lambda>h. h\<lparr>bh_next := buf\<rparr>) st1" by (simp add: st2_def)
    then show ?thesis using snoc vch q b p ch unfolding nx' hd' by (auto simp: st1_def)
  qed
  moreover have "ev_order st' a = (if a = buf then order else ev_order st a)" for a
    by (simp add: ev_order_def st'_def st3_def st2_def st1_def)
  ultimately show thesis using that eq len by (simp add: st'_def)
qed

text \<open>C29. An event that arrives out of turn is put into the reorder list of its origin queue
  behind every waiting event of the same or a lower order and before those of a higher one:
  the search ends, the list stays sorted by order, no waiting event is lost, and those of the
  same order stay in the order of arrival.\<close>

theorem reorder_enq_sorted:
  assumes "reorder_rep st origin evs" and "buf \<noteq> 0" and "buf \<notin> set evs"
  shows "\<exists>st'. reorder_enq st queue order origin buf sustain = Some st' \<and> ev_order st' buf = order \<and>
    bh_target_qe (hdr st' buf) = queue \<and>
    reorder_rep st' origin (takeWhile (\<lambda>e. ev_order st e \<le> order) evs @ buf #
                            dropWhile (\<lambda>e. ev_order st e \<le> order) evs)"
proof -
  define us vs where "us = takeWhile (\<lambda>e. ev_order st e \<le> order) evs"
    and "vs = dropWhile (\<lambda>e. ev_order st e \<le> order) evs"
  have evs: "evs = us @ vs" by (simp add: us_def vs_def)
  have R: "origin < length (os_queue st)" "0 \<notin> set (us @ vs)"
    "chain (nexts st) (ptr_opt (qe_reorder_head (qe st origin))) (us @ vs) None"
    "sorted (map (ev_order st) (us @ vs))" "buf \<notin> set (us @ vs)"
    using assms(1,3) by (simp_all add: reorder_rep_def evs)
  have le: "us = takeWhile (\<lambda>e. ev_order st e \<le> order) (us @ vs)" "vs = dropWhile (\<lambda>e. ev_order st e \<le> order) (us @ vs)"
    by (simp_all add: us_def vs_def)
  obtain st' where st': "reorder_enq st queue order origin buf sustain = Some st'"
    "\<And>a. ev_order st' a = (if a = buf then order else ev_order st a)" "bh_target_qe (hdr st' buf) = queue"
    "length (os_queue st') = length (os_queue st)"
    "chain (nexts st') (ptr_opt (qe_reorder_head (qe st' origin))) (us @ buf # vs) None"
    by (rule reorder_enq_splits [OF R(1-3) assms(2) R(5) le, of queue sustain]) (rule that, assumption+)
  have "\<forall>u \<in> set us. ev_order st u \<le> order" by (auto simp: us_def dest: set_takeWhileD)
  moreover have "vs \<noteq> [] \<Longrightarrow> order < ev_order st (hd vs)"
    unfolding vs_def using hd_dropWhile [of "\<lambda>e. ev_order st e \<le> order" evs] by (simp add: not_le)
  ultimately have "sorted (map (ev_order st) us @ order # map (ev_order st) vs)"
    by (rule sorted_insert_after [OF R(4)])
  moreover have "map (ev_order st') us = map (ev_order st) us" "map (ev_order st') vs = map (ev_order st) vs"
    using R(5) by (auto simp: st'(2))
  moreover have "ev_order st' buf = order" using st'(2) by simp
  ultimately have "sorted (map (ev_order st') (us @ buf # vs))" by (simp only: map_append list.map)
  then have "reorder_rep st' origin (us @ buf # vs)"
    using R(1,2) st'(4,5) assms(2) by (simp add: reorder_rep_def)
  then show ?thesis using st'(1-3) unfolding us_def vs_def by auto
qed

definition reorder_example :: odp_state where
  "reorder_example =
     upd_qe 0 (\<lambda>e. e\<lparr>qe_status := QUEUE_STATUS_READY, qe_reorder_head := 64, qe_order_out := 2\<rparr>)
       (upd_qe 1 (\<lambda>e. e\<lparr>qe_status := QUEUE_STATUS_READY\<rparr>)
       (upd_buf 64 (\<lambda>h. h\<lparr>bh_order := 5, bh_target_qe := Some 1, bh_origin_qe := Some 0\<rparr>)
         (upd_buf 128 (\<lambda>h. h\<lparr>bh_order := 2\<rparr>) queue_example)))"

lemma reorder_example_simps [simp]:
  "length (os_queue reorder_example) = 128" "qe_reorder_head (qe reorder_example 0) = 64"
  "qe_status (qe reorder_example 0) = QUEUE_STATUS_READY" "qe_status (qe reorder_example 1) = QUEUE_STATUS_READY"
  "qe_status (qe reorder_example (Suc 0)) = QUEUE_STATUS_READY"
  "qe_order_out (qe reorder_example 0) = 2" "qe_param (qe reorder_example 0) = qe_param queue_zero"
  "hdr reorder_example 64 = hdr_example\<lparr>bh_order := 5, bh_target_qe := Some 1, bh_origin_qe := Some 0\<rparr>"
  "hdr reorder_example 128 = hdr_example\<lparr>bh_order := 2\<rparr>"
  by (simp_all add: reorder_example_def) (simp_all add: queue_example_def ODP_CONFIG_QUEUES_def)

lemma reorder_example_rep: "reorder_rep reorder_example 0 [64]"
  by (simp add: reorder_rep_def nexts_def hdr_example_def)

theorem reorder_enq_sorted_witness:
  "\<exists>st'. reorder_enq reorder_example (Some 1) 3 0 128 True = Some st' \<and> reorder_rep st' 0 [128, 64]"
proof -
  have "128 \<noteq> (0 :: u32)" "128 \<notin> set [64 :: u32]" by simp_all
  from reorder_enq_sorted [OF reorder_example_rep this, of "Some 1" 3 True] show ?thesis
    by (auto simp: ev_order_def)
qed


text \<open>A set of pointers closed under the fields the reorder list is linked with.\<close>

definition wait_closed :: "u32 set \<Rightarrow> odp_state \<Rightarrow> bool" where
  "wait_closed T st \<longleftrightarrow> 0 \<in> T \<and>
     (\<forall>a \<in> T. a \<noteq> 0 \<longrightarrow> bh_next (hdr st a) \<in> T \<and> bh_link (hdr st a) \<in> T)"

lemma wait_closed_upd [simp]:
  "wait_closed T (upd_qe q f st) = wait_closed T st" "wait_closed T (upd_local g st) = wait_closed T st"
  by (simp_all add: wait_closed_def)

lemma wait_closed_upd_buf:
  assumes "wait_closed T st" "b \<noteq> 0 \<Longrightarrow> b \<in> T \<Longrightarrow> bh_next (f (hdr st b)) \<in> T"
    "b \<noteq> 0 \<Longrightarrow> b \<in> T \<Longrightarrow> bh_link (f (hdr st b)) \<in> T"
  shows "wait_closed T (upd_buf b f st)"
  using assms by (auto simp: wait_closed_def)

lemma wait_closedD:
  assumes "wait_closed T st" "a \<in> T" "a \<noteq> 0"
  shows "bh_next (hdr st a) \<in> T" "bh_link (hdr st a) \<in> T"
  using assms by (auto simp: wait_closed_def)

lemma wait_closed_0: "wait_closed T st \<Longrightarrow> 0 \<in> T"
  by (simp add: wait_closed_def)

lemma list_end_closed:
  "list_end st b = Some e \<Longrightarrow> wait_closed T st \<and> b \<in> T \<and> b \<noteq> 0 \<longrightarrow> e \<in> T \<and> e \<noteq> 0"
proof (erule list_end.raw_induct [rotated, where P = "\<lambda>st b e. wait_closed T st \<and> b \<in> T \<and> b \<noteq> 0 \<longrightarrow> e \<in> T \<and> e \<noteq> 0"])
  fix rec st b e
  assume "\<And>st b e. rec st b = Some e \<Longrightarrow> wait_closed T st \<and> b \<in> T \<and> b \<noteq> 0 \<longrightarrow> e \<in> T \<and> e \<noteq> 0"
    and "(let nx = bh_next (hdr st b) in if nx = 0 then Some b else rec st nx) = Some e"
  then show "wait_closed T st \<and> b \<in> T \<and> b \<noteq> 0 \<longrightarrow> e \<in> T \<and> e \<noteq> 0"
    using wait_closedD(1) [of T st b] by (auto simp: Let_def split: if_splits)
qed

lemma reorder_find_closed:
  "reorder_find st order prev b = Some r \<Longrightarrow>
   wait_closed T st \<and> prev \<in> T \<and> b \<in> T \<longrightarrow> fst r \<in> T \<and> snd r \<in> T"
proof (erule reorder_find.raw_induct [rotated,
      where P = "\<lambda>st order prev b r. wait_closed T st \<and> prev \<in> T \<and> b \<in> T \<longrightarrow> fst r \<in> T \<and> snd r \<in> T"])
  fix rec st order prev b r
  assume "\<And>st order prev b r. rec st order prev b = Some r \<Longrightarrow>
      wait_closed T st \<and> prev \<in> T \<and> b \<in> T \<longrightarrow> fst r \<in> T \<and> snd r \<in> T"
    and "(if b \<noteq> 0 \<and> bh_order (hdr st b) \<le> order then rec st order b (bh_next (hdr st b)) else Some (prev, b)) = Some r"
  then show "wait_closed T st \<and> prev \<in> T \<and> b \<in> T \<longrightarrow> fst r \<in> T \<and> snd r \<in> T"
    using wait_closedD(1) [of T st b] by (auto split: if_splits)
qed

lemma reorder_enq_closed:
  assumes "reorder_enq st queue order origin buf sustain = Some st'" "wait_closed T st" "buf \<in> T"
    "qe_reorder_head (qe st origin) \<in> T" "origin < length (os_queue st)"
  shows "wait_closed T st'" "qe_reorder_head (qe st' origin) \<in> T"
    "length (os_queue st') = length (os_queue st)" "\<And>q. q < length (os_queue st) \<Longrightarrow> qe_tail (qe st' q) = qe_tail (qe st q)"
proof -
  obtain p n where f: "reorder_find st order 0 (qe_reorder_head (qe st origin)) = Some (p, n)"
    using assms(1) by (auto simp: reorder_enq_def bind_eq_Some_conv)
  have pn: "p \<in> T" "n \<in> T" using reorder_find_closed [OF f, of T] assms(2,4) wait_closed_0 by auto
  define st1 where "st1 = upd_buf buf (\<lambda>h. h\<lparr>bh_next := n\<rparr>) st"
  define st2 where "st2 = (if p \<noteq> 0 then upd_buf p (\<lambda>h. h\<lparr>bh_next := buf\<rparr>) st1
                 else upd_qe origin (\<lambda>e. e\<lparr>qe_reorder_head := buf\<rparr>) st1)"
  have st': "st' = upd_buf buf (\<lambda>h. h\<lparr>bh_origin_qe := Some origin, bh_target_qe := queue, bh_order := order,
      bh_sustain := sustain\<rparr>) (if n = 0 then upd_qe origin (\<lambda>e. e\<lparr>qe_reorder_tail := buf\<rparr>) st2 else st2)"
    using assms(1) f by (auto simp: reorder_enq_def Let_def st1_def st2_def)
  have c1: "wait_closed T st1"
    using assms(2) pn wait_closedD(2) [OF assms(2)] unfolding st1_def by (intro wait_closed_upd_buf) auto
  then have c2: "wait_closed T st2"
    using assms(3) wait_closedD(2) [OF c1] unfolding st2_def by (auto intro!: wait_closed_upd_buf)
  then show "wait_closed T st'"
    using wait_closedD [OF c2] unfolding st' by (auto intro!: wait_closed_upd_buf)
  show "qe_reorder_head (qe st' origin) \<in> T" "length (os_queue st') = length (os_queue st)"
    "\<And>q. q < length (os_queue st) \<Longrightarrow> qe_tail (qe st' q) = qe_tail (qe st q)"
    using assms(3,4,5) by (simp_all add: st' st2_def st1_def)
qed

lemma reorder_take_closed:
  assumes "reorder_take st buf s = Some (s', st')" "wait_closed T st" "buf \<in> T" "buf \<noteq> 0"
  shows "wait_closed T st'" "rs_tail s' \<in> T" "rs_placeholder s' = rs_placeholder s" "os_queue st' = os_queue st"
proof -
  have "wait_closed T st' \<and> rs_tail s' \<in> T \<and> rs_placeholder s' = rs_placeholder s \<and> os_queue st' = os_queue st"
  proof (cases "bh_link (hdr st buf) = 0")
    case True
    then show ?thesis using assms by (auto simp: reorder_take_def Let_def)
  next
    case False
    define st1 where "st1 = upd_buf buf (\<lambda>h. h\<lparr>bh_next := bh_link (hdr st buf), bh_link := 0\<rparr>) st"
    obtain e where e: "list_end st1 (bh_link (hdr st buf)) = Some e"
      and st': "st' = upd_buf e (\<lambda>h. h\<lparr>bh_next := bh_next (hdr st buf)\<rparr>) st1"
      and s': "rs_tail s' = e" "rs_placeholder s' = rs_placeholder s"
      using assms(1) False by (auto simp: reorder_take_def Let_def bind_eq_Some_conv st1_def)
    have c1: "wait_closed T st1" unfolding st1_def
      using assms(2) wait_closedD(2) [OF assms(2,3,4)] wait_closed_0 by (intro wait_closed_upd_buf) auto
    have "e \<in> T" using list_end_closed [OF e, of T] c1 False wait_closedD(2) [OF assms(2,3,4)] by auto
    moreover have "wait_closed T st'" unfolding st'
      using c1 wait_closedD(2) [OF c1] wait_closedD(1) [OF assms(2,3,4)] by (intro wait_closed_upd_buf) auto
    ultimately show ?thesis using s' by (simp add: st' st1_def)
  qed
  then show "wait_closed T st'" "rs_tail s' \<in> T" "rs_placeholder s' = rs_placeholder s" "os_queue st' = os_queue st"
    by blast+
qed

definition scan_ok :: "u32 set \<Rightarrow> nat \<Rightarrow> (nat \<Rightarrow> tail_ptr) \<Rightarrow> nat \<Rightarrow> odp_state \<Rightarrow> u32 \<Rightarrow> reorder_scan \<Rightarrow> bool" where
  "scan_ok T n tails origin st buf s \<longleftrightarrow> wait_closed T st \<and> buf \<in> T \<and> qe_reorder_head (qe st origin) \<in> T \<and>
     rs_tail s \<in> T \<and> rs_placeholder s \<in> T \<and> length (os_queue st) = n \<and> origin < n \<and>
     (\<forall>q < n. qe_tail (qe st q) = tails q)"

lemma scan_ok_take:
  assumes "scan_ok T n tails origin st buf s" "buf \<noteq> 0" "reorder_take st buf s = Some (s', st')"
  shows "scan_ok T n tails origin st' (bh_next (hdr st buf)) s'"
  using assms(1) reorder_take_closed [OF assms(3) _ _ assms(2), of T] wait_closedD(1) [of T st buf] assms(2)
  by (auto simp: scan_ok_def)

lemma scan_ok_placeholder:
  assumes "scan_ok T n tails origin st buf s" "buf \<noteq> 0"
  shows "scan_ok T n tails origin
    (upd_buf buf (\<lambda>h. h\<lparr>bh_next := rs_placeholder s\<rparr>)
      (if rs_tail s \<noteq> 0 then upd_buf (rs_tail s) (\<lambda>h. h\<lparr>bh_next := bh_next (hdr st buf)\<rparr>) st
       else upd_qe origin (\<lambda>e. e\<lparr>qe_reorder_head := bh_next (hdr st buf)\<rparr>) st))
    (bh_next (hdr st buf)) (s\<lparr>rs_placeholder := buf, rs_placeholders := rs_placeholders s + 1\<rparr>)"
proof -
  have S: "wait_closed T st" "buf \<in> T" "qe_reorder_head (qe st origin) \<in> T" "rs_tail s \<in> T" "rs_placeholder s \<in> T"
    "length (os_queue st) = n" "origin < n" "\<forall>q < n. qe_tail (qe st q) = tails q"
    using assms(1) by (simp_all add: scan_ok_def)
  note nx = wait_closedD(1) [OF S(1,2) assms(2)]
  define st1 where "st1 = (if rs_tail s \<noteq> 0 then upd_buf (rs_tail s) (\<lambda>h. h\<lparr>bh_next := bh_next (hdr st buf)\<rparr>) st
       else upd_qe origin (\<lambda>e. e\<lparr>qe_reorder_head := bh_next (hdr st buf)\<rparr>) st)"
  have c1: "wait_closed T st1" using S(1,4) nx wait_closedD(2) [OF S(1)]
    unfolding st1_def by (auto intro!: wait_closed_upd_buf)
  then have "wait_closed T (upd_buf buf (\<lambda>h. h\<lparr>bh_next := rs_placeholder s\<rparr>) st1)"
    using S(5) wait_closedD(2) [OF c1] by (auto intro!: wait_closed_upd_buf)
  moreover have "length (os_queue st1) = n" "\<forall>q < n. qe_tail (qe st1 q) = tails q" "qe_reorder_head (qe st1 origin) \<in> T"
    using S nx by (simp_all add: st1_def)
  ultimately show ?thesis using S nx unfolding st1_def [symmetric] by (simp add: scan_ok_def)
qed


lemma reorder_deq_loop_closed:
  "reorder_deq_loop queue origin st buf s = Some r \<Longrightarrow>
   scan_ok T n tails origin st buf s \<longrightarrow> (\<exists>b. scan_ok T n tails origin (snd r) b (fst r))"
proof (erule reorder_deq_loop.raw_induct [rotated, where P = "\<lambda>queue origin st buf s r.
      scan_ok T n tails origin st buf s \<longrightarrow> (\<exists>b. scan_ok T n tails origin (snd r) b (fst r))"], intro impI)
  fix rec queue origin st buf s r
  let ?nx = "bh_next (hdr st buf)"
  assume IH: "\<And>queue origin st buf s r. rec queue origin st buf s = Some r \<Longrightarrow>
      scan_ok T n tails origin st buf s \<longrightarrow> (\<exists>b. scan_ok T n tails origin (snd r) b (fst r))"
    and ok: "scan_ok T n tails origin st buf s"
    and res: "(if buf \<noteq> 0 \<and> bh_order (hdr st buf) \<le>
           qe_order_out (qe st origin) + of_nat (rs_release s) + of_nat (rs_placeholders s)
      then let nx = bh_next (hdr st buf) in
        if bh_target_qe (hdr st buf) = Some queue
        then Option.bind (reorder_take st buf s) (\<lambda>(s, st). rec queue origin st nx s)
        else if bh_target_qe (hdr st buf) = None
        then let st = (if rs_tail s \<noteq> 0 then upd_buf (rs_tail s) (\<lambda>h. h\<lparr>bh_next := nx\<rparr>) st
                       else upd_qe origin (\<lambda>e. e\<lparr>qe_reorder_head := nx\<rparr>) st);
                 st = upd_buf buf (\<lambda>h. h\<lparr>bh_next := rs_placeholder s\<rparr>) st
             in rec queue origin st nx
                  (s\<lparr>rs_placeholder := buf, rs_placeholders := rs_placeholders s + 1\<rparr>)
        else Some (s, st)
      else Some (s, st)) = Some r"
  show "\<exists>b. scan_ok T n tails origin (snd r) b (fst r)"
  proof (cases "buf \<noteq> 0 \<and> bh_order (hdr st buf) \<le>
           qe_order_out (qe st origin) + of_nat (rs_release s) + of_nat (rs_placeholders s)")
    case True
    note res1 = res [unfolded Let_def if_P [OF True]]
    consider (take) "bh_target_qe (hdr st buf) = Some queue" | (placeholder) "bh_target_qe (hdr st buf) = None"
      | (stop) t where "bh_target_qe (hdr st buf) = Some t" "t \<noteq> queue" by (cases "bh_target_qe (hdr st buf)") auto
    then show ?thesis
    proof cases
      case take
      then obtain s' st' where t: "reorder_take st buf s = Some (s', st')" "rec queue origin st' ?nx s' = Some r"
        using res1 by (auto simp: bind_eq_Some_conv)
      from IH [OF t(2)] scan_ok_take [OF ok _ t(1)] True show ?thesis by blast
    next
      case placeholder
      with scan_ok_placeholder [OF ok] IH True res1 show ?thesis by simp
    next
      case stop
      with ok res1 show ?thesis by auto
    qed
  next
    case False
    with ok res show ?thesis by (metis fst_conv option.inject snd_conv)
  qed
qed

lemma order_release_frame [simp]:
  "length (os_queue (order_release origin n st)) = length (os_queue st)"
  "hdr (order_release origin n st) a = hdr st a"
  "q < length (os_queue st) \<Longrightarrow> qe_reorder_head (qe (order_release origin n st) q) = qe_reorder_head (qe st q)"
  "q < length (os_queue st) \<Longrightarrow> qe_tail (qe (order_release origin n st) q) = qe_tail (qe st q)"
  by (simp_all add: order_release_def Let_def)

lemma wait_closed_cong:
  "(\<And>a. bh_next (hdr st' a) = bh_next (hdr st a) \<and> bh_link (hdr st' a) = bh_link (hdr st a)) \<Longrightarrow>
   wait_closed T st' = wait_closed T st"
  by (simp add: wait_closed_def)

lemma ordered_enq_prep_frame:
  assumes "st1 = ordered_enq_prep (sched_enq_called st) queue buf sustain origin"
  shows "length (os_queue st1) = length (os_queue st)" "wait_closed T st1 = wait_closed T st"
    "q < length (os_queue st) \<Longrightarrow> qe_reorder_head (qe st1 q) = qe_reorder_head (qe st q)"
    "q < length (os_queue st) \<Longrightarrow> qe_tail (qe st1 q) = qe_tail (qe st q)"
  unfolding assms ordered_enq_prep_def sched_enq_called_def sched_order_resolved_def Let_def
  by (simp_all cong: wait_closed_cong) (auto simp: wait_closed_def)

lemma ordered_enq_mergedD:
  assumes "ordered_enq_locked st queue buf sustain origin order = Some (Ord_merged sched ph, st')"
  shows "ordered_enq_merge (ordered_enq_prep (sched_enq_called st) queue buf sustain origin) queue buf origin order
    (qe_status (qe (sched_enq_called st) queue) = QUEUE_STATUS_NOTSCHED) = Some (Ord_merged sched ph, st')"
  using assms unfolding ordered_enq_locked_def Let_def by (auto simp: bind_eq_Some_conv split: if_splits)

lemma queue_enq_update_tail:
  assumes "queue < length (os_queue st)" "qe_tail (qe st queue) \<noteq> Tail_next t"
  shows "bh_next (hdr (snd (queue_enq_update st queue h t status)) t) = 0"
  using assms by (auto simp: queue_enq_update_def Let_def split: tail_ptr.splits)

text \<open>Whatever waits, an event that is in turn and meets a non-empty reorder list leaves it empty: the list head is read from a
  pointer that was cleared just before.\<close>

lemma ordered_merge_empties_reorder:
  assumes "ordered_enq_locked st queue buf sustain origin order = Some (Ord_merged sched ph, st')"
    and "queue < length (os_queue st)" and "origin < length (os_queue st)"
    and "wait_closed T st" and "buf \<in> T" and "qe_reorder_head (qe st origin) \<in> T"
    and "\<forall>a \<in> T. qe_tail (qe st queue) \<noteq> Tail_next a"
  shows "qe_reorder_head (qe st' origin) = 0"
proof -
  define st1 where "st1 = ordered_enq_prep (sched_enq_called st) queue buf sustain origin"
  note P = ordered_enq_prep_frame [OF st1_def]
  obtain st2 s st3 where enq: "reorder_enq st1 (Some queue) order origin buf True = Some st2"
    and deq: "reorder_deq st2 queue origin = Some (s, st3)" and tl: "rs_tail s \<noteq> 0"
    and st': "st' = order_release origin (rs_release s + rs_placeholders s)
      (let st = snd (queue_enq_update st3 queue (qe_reorder_head (qe st3 origin)) (rs_tail s) (qe_status (qe st3 queue)))
       in upd_qe origin (\<lambda>e. e\<lparr>qe_reorder_head := bh_next (hdr st (rs_tail s))\<rparr>) st)"
    using ordered_enq_mergedD [OF assms(1)] unfolding ordered_enq_merge_def st1_def [symmetric] Let_def
    by (auto simp: bind_eq_Some_conv split: if_splits)
  have h1: "wait_closed T st1" "qe_reorder_head (qe st1 origin) \<in> T" "origin < length (os_queue st1)"
    using P assms(3,4,6) by simp_all
  note E = reorder_enq_closed [OF enq h1(1) assms(5) h1(2,3)]
  have "scan_ok T (length (os_queue st)) (\<lambda>q. qe_tail (qe st q)) origin st2 (qe_reorder_head (qe st2 origin))
      \<lparr>rs_tail = 0, rs_placeholder = 0, rs_deq = 0, rs_release = 0, rs_placeholders = 0\<rparr>"
    using E P assms(3) wait_closed_0 [OF E(1)] by (simp add: scan_ok_def)
  then obtain b where S: "scan_ok T (length (os_queue st)) (\<lambda>q. qe_tail (qe st q)) origin st3 b s"
    using reorder_deq_loop_closed [OF deq [unfolded reorder_deq_def], of T "length (os_queue st)" "\<lambda>q. qe_tail (qe st q)"]
    by auto
  then have "rs_tail s \<in> T" "qe_tail (qe st3 queue) = qe_tail (qe st queue)" "length (os_queue st3) = length (os_queue st)"
    using assms(2) by (auto simp: scan_ok_def)
  then have t: "qe_tail (qe st3 queue) \<noteq> Tail_next (rs_tail s)" "queue < length (os_queue st3)"
    "origin < length (os_queue st3)" using assms(2,3,7) by auto
  define st4 where "st4 = snd (queue_enq_update st3 queue (qe_reorder_head (qe st3 origin)) (rs_tail s) (qe_status (qe st3 queue)))"
  have "length (os_queue st4) = length (os_queue st3)"
    unfolding st4_def by (rule queue_enq_update_frame(4) [OF prod.collapse [symmetric] t(2)])
  moreover have "bh_next (hdr st4 (rs_tail s)) = 0" unfolding st4_def by (rule queue_enq_update_tail [OF t(2,1)])
  ultimately show ?thesis using t(3) unfolding st' st4_def [symmetric] Let_def by simp
qed


definition reorder_example_merged :: odp_state where
  "reorder_example_merged = (case ordered_enq_locked reorder_example 1 128 True 0 2 of Some (_, st) \<Rightarrow> st | None \<Rightarrow> reorder_example)"

lemma reorder_example_more [simp]:
  "qe_tail (qe reorder_example (Suc 0)) = Tail_head" "qe_tail (qe reorder_example 0) = Tail_head"
  "qe_head (qe reorder_example (Suc 0)) = 0"
  by (simp_all add: reorder_example_def)
    (simp_all add: queue_example_def ODP_CONFIG_QUEUES_def queue_zero_def)

text \<open>\<open>order_release\<close> adds the count to the order counter of the origin queue as long as
  the sum stays below \<open>2 ^ 31\<close>. The 64-bit counter passes through a signed 32-bit variable:
  when the sum lies between \<open>2 ^ 31\<close> and \<open>2 ^ 32\<close>, the counter jumps by \<open>2 ^ 64 - 2 ^ 32\<close>.\<close>

lemma order_release_bounds:
  assumes "origin < length (os_queue st)" and "unat (qe_order_out (qe st origin)) + n < 2 ^ 32"
  shows "qe_order_out (qe (order_release origin n st) origin) =
    qe_order_out (qe st origin) + of_nat n +
      (if unat (qe_order_out (qe st origin)) + n < 2 ^ 31 then 0 else 0xFFFFFFFF00000000)"
proof -
  define w where "w = qe_order_out (qe st origin)"
  define x where "x = (ucast w + of_nat n :: u32)"
  have "unat x = unat w + n"
  proof -
    have x: "x = of_nat (unat w + n)" by (simp add: x_def)
    show ?thesis unfolding x using assms(2) by (intro unat_of_nat_small) (simp add: w_def)
  qed
  then have "scast x = (of_int (if unat w + n < 2 ^ 31 then int (unat w + n) else int (unat w + n) - 2 ^ 32) :: u64)"
    unfolding scast_eq sint_u32 by simp
  also have "\<dots> = w + of_nat n + (if unat w + n < 2 ^ 31 then 0 else 0xFFFFFFFF00000000)"
    by simp
  finally show ?thesis using assms(1) by (simp add: order_release_def Let_def x_def w_def)
qed

subsection \<open>Merging with the reorder list\<close>

text \<open>The events of a reorder list that an enqueue to a queue releases: the longest prefix of events that are in turn and have this
  queue as their target, where each event that does not sustain its order lets the next order go.\<close>

fun released :: "(u32 \<Rightarrow> u64) \<Rightarrow> (u32 \<Rightarrow> nat option) \<Rightarrow> (u32 \<Rightarrow> bool) \<Rightarrow> nat \<Rightarrow> u64 \<Rightarrow> u32 list \<Rightarrow> u32 list" where
  "released ord tgt sus queue out [] = []"
| "released ord tgt sus queue out (b # bs) =
     (if ord b \<le> out \<and> tgt b = Some queue
      then b # released ord tgt sus queue (if sus b then out else out + 1) bs else [])"

lemma released_prefix: "\<exists>lost. bs = released ord tgt sus queue out bs @ lost"
proof (induction bs arbitrary: out)
  case (Cons b bs)
  then show ?case using Cons [of "if sus b then out else out + 1"] by auto
qed simp

lemma reorder_deq_chain:
  assumes "chain (nexts st) (ptr_opt b) bs None" "0 \<notin> set bs"
    and "\<And>a. a \<in> set bs \<Longrightarrow> bh_link (hdr st a) = 0 \<and> bh_target_qe (hdr st a) \<noteq> None"
  shows "\<exists>s'. reorder_deq_loop queue origin st b s = Some (s', st) \<and> rs_placeholder s' = rs_placeholder s \<and>
    rs_tail s' = last (rs_tail s # released (ev_order st) (\<lambda>a. bh_target_qe (hdr st a)) (\<lambda>a. bh_sustain (hdr st a)) queue
      (qe_order_out (qe st origin) + of_nat (rs_release s) + of_nat (rs_placeholders s)) bs)"
  using assms
proof (induction bs arbitrary: b s)
  case Nil
  then show ?case by (simp add: ptr_opt_eq reorder_deq_loop.simps)
next
  case (Cons a as)
  then have a: "b = a" "b \<noteq> 0" and ch: "chain (nexts st) (ptr_opt (bh_next (hdr st b))) as None"
    by (simp_all add: ptr_opt_eq) (simp add: nexts_def)
  have l: "bh_link (hdr st b) = 0" "bh_target_qe (hdr st b) \<noteq> None" using Cons.prems(3) a by simp_all
  define s1 where "s1 = s\<lparr>rs_tail := b, rs_deq := rs_deq s + 1, rs_release := rs_release s + (if bh_sustain (hdr st b) then 0 else 1)\<rparr>"
  have take: "reorder_take st b s = Some (s1, st)" by (simp add: reorder_take_def s1_def l)
  let ?out = "qe_order_out (qe st origin) + of_nat (rs_release s) + of_nat (rs_placeholders s)"
  have out: "qe_order_out (qe st origin) + of_nat (rs_release s1) + of_nat (rs_placeholders s1) = (if bh_sustain (hdr st b) then ?out else ?out + 1)"
    by (simp add: s1_def)
  have IH: "\<exists>s'. reorder_deq_loop queue origin st (bh_next (hdr st b)) s1 = Some (s', st) \<and> rs_placeholder s' = rs_placeholder s1 \<and>
    rs_tail s' = last (rs_tail s1 # released (ev_order st) (\<lambda>a. bh_target_qe (hdr st a)) (\<lambda>a. bh_sustain (hdr st a)) queue
      (qe_order_out (qe st origin) + of_nat (rs_release s1) + of_nat (rs_placeholders s1)) as)"
    using Cons.prems by (intro Cons.IH ch) simp_all
  show ?case
  proof (cases "ev_order st b \<le> ?out \<and> bh_target_qe (hdr st b) = Some queue")
    case True
    then have "reorder_deq_loop queue origin st b s = reorder_deq_loop queue origin st (bh_next (hdr st b)) s1"
      using a(2) by (subst reorder_deq_loop.simps) (simp add: take ev_order_def Let_def)
    then show ?thesis using IH True unfolding out a(1) by (simp add: s1_def a)
  next
    case False
    then have "reorder_deq_loop queue origin st b s = Some (s, st)"
      using a(2) l(2) by (subst reorder_deq_loop.simps) (auto simp: ev_order_def Let_def)
    then show ?thesis using False a(1) by auto
  qed
qed

lemma reorder_enq_frame:
  assumes "reorder_enq st queue order origin buf sustain = Some st'" "origin < length (os_queue st)"
  shows "hdr st' a = (if a = buf then (hdr st a)\<lparr>bh_next := bh_next (hdr st' a), bh_origin_qe := Some origin, bh_target_qe := queue,
      bh_order := order, bh_sustain := sustain\<rparr> else (hdr st a)\<lparr>bh_next := bh_next (hdr st' a)\<rparr>)"
    "q < length (os_queue st) \<Longrightarrow> qe st' q = (if q = origin then (qe st q)\<lparr>qe_reorder_head := qe_reorder_head (qe st' q), qe_reorder_tail := qe_reorder_tail (qe st' q)\<rparr> else qe st q)"
  using assms by (auto simp: reorder_enq_def Let_def bind_eq_Some_conv split: if_splits)

lemma queue_enq_update_cut:
  "queue_enq_update st q b e status = queue_enq_update (upd_buf e (\<lambda>h. h\<lparr>bh_next := 0\<rparr>) st) q b e status"
proof -
  have "upd_buf e (\<lambda>h. h\<lparr>bh_next := 0\<rparr>) (upd_buf e (\<lambda>h. h\<lparr>bh_next := 0\<rparr>) st) = upd_buf e (\<lambda>h. h\<lparr>bh_next := 0\<rparr>) st"
    by (simp add: upd_buf_def upd_hdr_def)
  then show ?thesis by (simp add: queue_enq_update_def Let_def)
qed

text \<open>The lists of the other queues, as long as they have no event in common with a set.\<close>

definition lists_kept :: "odp_state \<Rightarrow> odp_state \<Rightarrow> nat \<Rightarrow> nat \<Rightarrow> u32 set \<Rightarrow> bool" where
  "lists_kept st st' queue origin S \<longleftrightarrow>
     (\<forall>q evs. q \<noteq> queue \<and> queue_rep st q evs \<and> set evs \<inter> S = {} \<longrightarrow> queue_rep st' q evs) \<and>
     (\<forall>q evs. q \<noteq> origin \<and> reorder_rep st q evs \<and> set evs \<inter> S = {} \<longrightarrow> reorder_rep st' q evs)"

lemma lists_keptI:
  assumes "length (os_queue st') = length (os_queue st)"
    and "\<And>a. a \<notin> S \<Longrightarrow> bh_next (hdr st' a) = bh_next (hdr st a) \<and> bh_order (hdr st' a) = bh_order (hdr st a)"
    and "\<And>q. q < length (os_queue st) \<Longrightarrow> q \<noteq> queue \<Longrightarrow> qe_head (qe st' q) = qe_head (qe st q) \<and> qe_tail (qe st' q) = qe_tail (qe st q)"
    and "\<And>q. q < length (os_queue st) \<Longrightarrow> q \<noteq> origin \<Longrightarrow> qe_reorder_head (qe st' q) = qe_reorder_head (qe st q)"
  shows "lists_kept st st' queue origin S"
proof -
  have nx: "chain (nexts st') p evs None = chain (nexts st) p evs None" if "set evs \<inter> S = {}" for p evs
    using that assms(2) by (intro chain_cong) (fastforce simp: nexts_def disjoint_iff)
  have ord: "map (ev_order st') evs = map (ev_order st) evs" if "set evs \<inter> S = {}" for evs
    using that assms(2) by (fastforce simp: ev_order_def disjoint_iff)
  show ?thesis unfolding lists_kept_def
    by (auto simp: queue_rep_def reorder_rep_def assms(1,3,4) nx ord)
qed

lemma reorder_enq_outside:
  assumes "reorder_enq st queue order origin buf sustain = Some st'" "origin < length (os_queue st)"
    and "chain (nexts st) (ptr_opt (qe_reorder_head (qe st origin))) evs None" "0 \<notin> set evs" "a \<notin> set (buf # evs)"
  shows "hdr st' a = hdr st a"
proof -
  define us where "us = takeWhile (\<lambda>e. ev_order st e \<le> order) evs"
  have "last (0 # us) \<noteq> 0 \<Longrightarrow> last (0 # us) \<in> set us" by (cases us) auto
  then have "last (0 # us) \<noteq> 0 \<Longrightarrow> last (0 # us) \<in> set evs" using set_takeWhileD unfolding us_def by fast
  then have p: "a \<noteq> last (0 # us)" if "last (0 # us) \<noteq> 0" using that assms(5) by auto
  have b: "a \<noteq> buf" using assms(5) by simp
  obtain nx where f: "reorder_find st order 0 (qe_reorder_head (qe st origin)) = Some (last (0 # us), nx)"
    using reorder_find_chain [OF assms(3,4), of order 0] unfolding us_def by blast
  define p where "p = last (0 # us)"
  show ?thesis using assms(1) p b f unfolding reorder_enq_def p_def [symmetric] by (auto simp: Let_def)
qed

lemma reorder_enq_deq:
  assumes rr: "reorder_rep st origin ws" and b: "buf \<noteq> 0" "buf \<notin> set ws"
    and single: "\<And>a. a \<in> set (buf # ws) \<Longrightarrow> bh_link (hdr st a) = 0" "\<And>a. a \<in> set ws \<Longrightarrow> bh_target_qe (hdr st a) \<noteq> None"
    and xs: "xs = takeWhile (\<lambda>e. ev_order st e \<le> order) ws @ buf # dropWhile (\<lambda>e. ev_order st e \<le> order) ws"
    and r: "r = released ((ev_order st)(buf := order)) ((\<lambda>a. bh_target_qe (hdr st a))(buf := Some queue))
      ((\<lambda>a. bh_sustain (hdr st a))(buf := True)) queue (qe_order_out (qe st origin)) xs"
  obtains st' s where "reorder_enq st (Some queue) order origin buf True = Some st'" "reorder_deq st' queue origin = Some (s, st')"
    "rs_placeholder s = 0" "rs_tail s = last (0 # r)" "length (os_queue st') = length (os_queue st)"
    "chain (nexts st') (ptr_opt (qe_reorder_head (qe st' origin))) xs None" "\<And>a. ev_order st' a = (if a = buf then order else ev_order st a)"
proof -
  define us vs where "us = takeWhile (\<lambda>e. ev_order st e \<le> order) ws" and "vs = dropWhile (\<lambda>e. ev_order st e \<le> order) ws"
  have ws: "ws = us @ vs" by (simp add: us_def vs_def)
  have le: "us = takeWhile (\<lambda>e. ev_order st e \<le> order) (us @ vs)" "vs = dropWhile (\<lambda>e. ev_order st e \<le> order) (us @ vs)"
    by (simp_all add: us_def vs_def)
  have xs': "xs = us @ buf # vs" unfolding xs us_def vs_def ..
  have R: "origin < length (os_queue st)" "0 \<notin> set (us @ vs)"
    "chain (nexts st) (ptr_opt (qe_reorder_head (qe st origin))) (us @ vs) None" "buf \<notin> set (us @ vs)" using rr b(2) by (simp_all add: reorder_rep_def ws)
  obtain st2 where st2: "reorder_enq st (Some queue) order origin buf True = Some st2"
    "\<And>a. ev_order st2 a = (if a = buf then order else ev_order st a)" "length (os_queue st2) = length (os_queue st)"
    "chain (nexts st2) (ptr_opt (qe_reorder_head (qe st2 origin))) (us @ buf # vs) None"
    by (rule reorder_enq_splits [OF R(1-3) b(1) R(4) le, of "Some queue" True]) (rule that, assumption+)
  note F = reorder_enq_frame [OF st2(1) R(1)]
  have link: "bh_link (hdr st2 a) = bh_link (hdr st a)" for a by (subst F(1)) simp
  have tgt: "bh_target_qe (hdr st2 a) = (if a = buf then Some queue else bh_target_qe (hdr st a))" for a by (subst F(1)) simp
  have sus: "bh_sustain (hdr st2 a) = (if a = buf then True else bh_sustain (hdr st a))" for a by (subst F(1)) simp
  have hd2: "ev_order st2 = (ev_order st)(buf := order)" "(\<lambda>a. bh_target_qe (hdr st2 a)) = (\<lambda>a. bh_target_qe (hdr st a))(buf := Some queue)"
    "(\<lambda>a. bh_sustain (hdr st2 a)) = (\<lambda>a. bh_sustain (hdr st a))(buf := True)"
    by (simp_all only: fun_eq_iff st2(2) tgt sus fun_upd_apply) simp_all
  have out: "qe_order_out (qe st2 origin) = qe_order_out (qe st origin)" by (subst F(2) [OF R(1)]) simp
  have z: "0 \<notin> set xs" using R(2) b(1) by (simp add: xs')
  have "bh_link (hdr st2 a) = 0 \<and> bh_target_qe (hdr st2 a) \<noteq> None" if "a \<in> set xs" for a
    using that single [of a] unfolding link tgt xs' ws by auto
  from reorder_deq_chain [OF st2(4) [folded xs'] z this, of queue origin "\<lparr>rs_tail = 0, rs_placeholder = 0, rs_deq = 0, rs_release = 0, rs_placeholders = 0\<rparr>"]
  obtain s where "reorder_deq st2 queue origin = Some (s, st2)" "rs_placeholder s = 0" "rs_tail s = last (0 # r)"
    unfolding reorder_deq_def hd2 out r by (auto simp del: last.simps)
  then show thesis using that [OF st2(1)] st2(2-4) unfolding xs' by blast
qed

lemma queue_enq_prefix:
  assumes qr: "queue_rep st queue evs" and ch: "chain (nexts st) (ptr_opt h) (r @ lost) None" "0 \<notin> set (r @ lost)" "r \<noteq> []"
    and dis: "set (r @ lost) \<inter> set evs = {}" and res: "queue_enq_update st queue h (last r) status = (sched, st')"
  shows "queue_rep st' queue (evs @ r)" "bh_next (hdr st' (last r)) = 0"
    "\<And>a. a \<notin> set (r @ evs) \<Longrightarrow> hdr st' a = hdr st a" "\<And>a. bh_order (hdr st' a) = bh_order (hdr st a)"
proof -
  define st1 where "st1 = upd_buf (last r) (\<lambda>b. b\<lparr>bh_next := 0\<rparr>) st"
  have l: "last r \<in> set r" "0 \<notin> set r" "set r \<inter> set evs = {}" using ch(2,3) dis by auto
  then have le: "last r \<notin> set evs" by blast
  have h: "hd r = h" "h \<noteq> 0" using ch by (auto simp: ptr_opt_eq neq_Nil_conv)
  have q1: "queue_rep st1 queue evs" using qr le by (simp add: queue_rep_def st1_def)
  have "chain ((nexts st)(last r := None)) (ptr_opt h) r None" by (rule chain_cut [OF ch(1,3)])
  moreover have "nexts st1 = (nexts st)(last r := None)" by (simp add: st1_def)
  moreover have "ptr_opt h = Some h" using h(2) by (simp add: ptr_opt_eq)
  ultimately have c1: "chain (nexts st1) (Some h) r None" by simp
  have res1: "queue_enq_update st1 queue h (last r) status = (sched, st')"
    using res unfolding st1_def by (subst queue_enq_update_cut [symmetric])
  note E = queue_enq_update_rep [OF q1 ch(3) h(1) refl l(2) c1 l(3) res1]
  show "queue_rep st' queue (evs @ r)" by (rule E(1))
  have "qe_tail (qe st queue) \<noteq> Tail_next (last r)" "queue < length (os_queue st)"
    using qr le last_in_set [of evs] by (auto simp: queue_rep_def simp del: last_in_set)
  from queue_enq_update_tail [OF this(2,1), of h status] show "bh_next (hdr st' (last r)) = 0" using res by simp
  show "hdr st' a = hdr st a" if "a \<notin> set (r @ evs)" for a using E(5) [of a] that l(1) by (auto simp: st1_def)
  have "bh_order (hdr st' a) = bh_order (hdr st1 a)" for a by (subst E(4)) simp
  then show "bh_order (hdr st' a) = bh_order (hdr st a)" for a by (simp add: st1_def)
qed

lemma lists_kept_trans:
  assumes "lists_kept st st' queue origin S" "lists_kept st' st'' queue origin T"
  shows "lists_kept st st'' queue origin (S \<union> T)"
  using assms unfolding lists_kept_def by (simp add: Int_Un_distrib)

lemma reorder_enq_lists:
  assumes M: "reorder_enq st queue order origin buf sustain = Some st'" "length (os_queue st') = length (os_queue st)"
    and rr: "reorder_rep st origin ws"
  shows "lists_kept st st' queue' origin (set (buf # ws))" "queue_rep st q evs \<Longrightarrow> set (buf # ws) \<inter> set evs = {} \<Longrightarrow> queue_rep st' q evs"
proof -
  have R: "origin < length (os_queue st)" "chain (nexts st) (ptr_opt (qe_reorder_head (qe st origin))) ws None" "0 \<notin> set ws"
    using rr by (auto simp: reorder_rep_def)
  note F = reorder_enq_frame [OF M(1) R(1)] and O = reorder_enq_outside [OF M(1) R]
  have qe: "qe_head (qe st' p) = qe_head (qe st p)" "qe_tail (qe st' p) = qe_tail (qe st p)"
    "p \<noteq> origin \<Longrightarrow> qe_reorder_head (qe st' p) = qe_reorder_head (qe st p)" if "p < length (os_queue st)" for p
    by (subst F(2) [OF that], simp)+
  show "lists_kept st st' queue' origin (set (buf # ws))" using O qe by (intro lists_keptI M(2)) simp_all
  show "queue_rep st' q evs" if "queue_rep st q evs" "set (buf # ws) \<inter> set evs = {}"
  proof -
    have "nexts st' a = nexts st a" if "a \<in> set evs" for a
      using O [of a] that \<open>set (buf # ws) \<inter> set evs = {}\<close> unfolding nexts_def by (metis disjoint_iff)
    then show ?thesis using that(1) qe [of q] chain_cong [of evs "nexts st'" "nexts st"] M(2) by (simp add: queue_rep_def)
  qed
qed

lemma merge_done:
  assumes qr: "queue_rep st queue evs" and ch: "chain (nexts st) (ptr_opt h) (r @ lost) None" "0 \<notin> set (r @ lost)" "r \<noteq> []"
    and dis: "set (r @ lost) \<inter> set evs = {}" and u: "queue_enq_update st queue h (last r) status = (sched, st1)"
    and o: "origin < length (os_queue st)"
    and st': "st' = order_release origin n (upd_qe origin (\<lambda>e. e\<lparr>qe_reorder_head := bh_next (hdr st1 (last r))\<rparr>) st1)"
  shows "queue_rep st' queue (evs @ r)" "qe_reorder_head (qe st' origin) = 0" "lists_kept st st' queue origin (set (r @ evs))"
proof -
  note P = queue_enq_prefix [OF qr ch dis u]
  have q: "queue < length (os_queue st)" using qr by (simp add: queue_rep_def)
  note E = queue_enq_update_frame [OF u q]
  have qe': "qe_head (qe st' p) = qe_head (qe st1 p)" "qe_tail (qe st' p) = qe_tail (qe st1 p)"
    "qe_reorder_head (qe st' p) = (if p = origin then 0 else qe_reorder_head (qe st1 p))" if "p < length (os_queue st)" for p
    using that E(4) P(2) unfolding st' by (simp_all add: order_release_def Let_def)
  have hd': "hdr st' a = hdr st1 a" for a by (simp add: st')
  have len: "length (os_queue st') = length (os_queue st)" using E(4) by (simp add: st')
  have nx: "nexts st' = nexts st1" by (simp add: nexts_def fun_eq_iff hd')
  show "queue_rep st' queue (evs @ r)" using P(1) qe' [OF q] unfolding queue_rep_def nx len E(4) by simp
  show "qe_reorder_head (qe st' origin) = 0" using qe'(3) [OF o] by simp
  have "qe_reorder_head (qe st1 queue) = qe_reorder_head (qe st queue)" by (subst E(6)) simp
  then have "qe_reorder_head (qe st1 p) = qe_reorder_head (qe st p)" if "p < length (os_queue st)" for p
    using E(5) [of p] that by (cases "p = queue") simp_all
  then show "lists_kept st st' queue origin (set (r @ evs))"
    using qe' P(3,4) E(5) by (intro lists_keptI len) (simp_all add: hd')
qed

lemma ordered_merge_lists:
  assumes rr: "reorder_rep st origin ws" and qr: "queue_rep st queue evs"
    and b: "buf \<noteq> 0" "buf \<notin> set ws" and dis: "set (buf # ws) \<inter> set evs = {}"
    and single: "\<forall>a \<in> set (buf # ws). bh_link (hdr st a) = 0" "\<forall>a \<in> set ws. bh_target_qe (hdr st a) \<noteq> None"
    and xs: "xs = takeWhile (\<lambda>e. ev_order st e \<le> order) ws @ buf # dropWhile (\<lambda>e. ev_order st e \<le> order) ws"
    and r: "r = released ((ev_order st)(buf := order)) ((\<lambda>a. bh_target_qe (hdr st a))(buf := Some queue))
      ((\<lambda>a. bh_sustain (hdr st a))(buf := True)) queue (qe_order_out (qe st origin)) xs"
  shows "r = [] \<Longrightarrow> ordered_enq_merge st queue buf origin order sched = None"
    "r \<noteq> [] \<Longrightarrow> \<exists>st'. ordered_enq_merge st queue buf origin order sched = Some (Ord_merged sched 0, st') \<and>
      queue_rep st' queue (evs @ r) \<and> qe_reorder_head (qe st' origin) = 0 \<and> lists_kept st st' queue origin (set (buf # ws @ evs))"
proof -
  obtain st2 s where M: "reorder_enq st (Some queue) order origin buf True = Some st2" "reorder_deq st2 queue origin = Some (s, st2)"
    "rs_placeholder s = 0" "rs_tail s = last (0 # r)" "length (os_queue st2) = length (os_queue st)"
    "chain (nexts st2) (ptr_opt (qe_reorder_head (qe st2 origin))) xs None" "\<And>a. ev_order st2 a = (if a = buf then order else ev_order st a)"
    by (rule reorder_enq_deq [OF rr b bspec [OF single(1)] bspec [OF single(2)] xs r], assumption, assumption) (rule that, assumption+)
  have o: "origin < length (os_queue st)" "0 \<notin> set ws" using rr by (auto simp: reorder_rep_def)
  have xset: "set xs = set (buf # ws)" unfolding xs by (rule insert_between)
  obtain lost where lost: "xs = r @ lost" using released_prefix [of xs] unfolding r by blast
  show "ordered_enq_merge st queue buf origin order sched = None" if "r = []"
    using that by (simp add: ordered_enq_merge_def M(1-4))
  assume ne: "r \<noteq> []"
  have x2: "0 \<notin> set (r @ lost)" "set (r @ lost) \<inter> set evs = {}" "set r \<subseteq> set (buf # ws)"
    using xset b(1) o(2) dis unfolding lost by auto
  have "last r \<noteq> 0" using x2(1) last_in_set [OF ne] by (metis Un_iff set_append)
  then have tl: "rs_tail s = last r" "rs_tail s \<noteq> 0" using M(4) ne by simp_all
  obtain sc st3 where u: "queue_enq_update st2 queue (qe_reorder_head (qe st2 origin)) (last r) (qe_status (qe st2 queue)) = (sc, st3)" by fastforce
  define st' where "st' = order_release origin (rs_release s + rs_placeholders s) (upd_qe origin (\<lambda>e. e\<lparr>qe_reorder_head := bh_next (hdr st3 (last r))\<rparr>) st3)"
  note L = reorder_enq_lists [OF M(1,5) rr]
  note D = merge_done [OF L(2) [OF qr dis] M(6) [unfolded lost] x2(1) ne x2(2) u _ st'_def]
  have "set (buf # ws) \<union> set (r @ evs) = set (buf # ws @ evs)" using x2(3) by auto
  then have "lists_kept st st' queue origin (set (buf # ws @ evs))" using lists_kept_trans [OF L(1) D(3)] o(1) M(5) by simp
  moreover have "ordered_enq_merge st queue buf origin order sched = Some (Ord_merged sched 0, st')"
    using tl u by (simp add: ordered_enq_merge_def M(1-3) st'_def Let_def)
  ultimately show "\<exists>st'. ordered_enq_merge st queue buf origin order sched = Some (Ord_merged sched 0, st') \<and>
      queue_rep st' queue (evs @ r) \<and> qe_reorder_head (qe st' origin) = 0 \<and> lists_kept st st' queue origin (set (buf # ws @ evs))"
    using D(1,2) o(1) M(5) by auto
qed

lemma prep_hdr:
  assumes "st1 = ordered_enq_prep (sched_enq_called st) queue buf sustain origin"
  shows "hdr st1 a = (hdr st a)\<lparr>bh_origin_qe := bh_origin_qe (hdr st1 a)\<rparr>"
  unfolding assms ordered_enq_prep_def sched_enq_called_def sched_order_resolved_def Let_def by simp

lemma prep_qe:
  assumes "st1 = ordered_enq_prep (sched_enq_called st) queue buf sustain origin" "q < length (os_queue st)"
  shows "qe_head (qe st1 q) = qe_head (qe st q)" "qe_tail (qe st1 q) = qe_tail (qe st q)" "qe_reorder_head (qe st1 q) = qe_reorder_head (qe st q)"
  using assms(2) unfolding assms(1) ordered_enq_prep_def sched_enq_called_def sched_order_resolved_def Let_def
  by (simp_all add: order_release_def Let_def)

lemma prep_out:
  assumes "st1 = ordered_enq_prep (sched_enq_called st) queue buf sustain origin"
    and "origin < length (os_queue st)" "unat (qe_order_out (qe st origin)) + 1 < 2 ^ 31"
  shows "qe_order_out (qe st1 origin) = qe_order_out (qe st origin) + (if sustain then 0 else 1)"
  using order_release_bounds [of origin "sched_enq_called st" 1] assms(2,3)
  unfolding assms(1) ordered_enq_prep_def sched_enq_called_def sched_order_resolved_def Let_def
  by simp

lemma prep_lists:
  assumes "st1 = ordered_enq_prep (sched_enq_called st) queue buf sustain origin"
  shows "queue_rep st1 q evs = queue_rep st q evs" "reorder_rep st1 q evs = reorder_rep st q evs" "ev_order st1 = ev_order st"
    "bh_link (hdr st1 a) = bh_link (hdr st a)" "bh_target_qe (hdr st1 a) = bh_target_qe (hdr st a)" "bh_sustain (hdr st1 a) = bh_sustain (hdr st a)"
proof -
  note H = prep_hdr [OF assms] and Q = prep_qe [OF assms]
  have nx: "nexts st1 = nexts st" unfolding nexts_def fun_eq_iff by (subst H) simp
  show ord: "ev_order st1 = ev_order st" unfolding ev_order_def fun_eq_iff by (subst H) simp
  have len: "length (os_queue st1) = length (os_queue st)" by (rule ordered_enq_prep_frame(1) [OF assms])
  show "queue_rep st1 q evs = queue_rep st q evs" "reorder_rep st1 q evs = reorder_rep st q evs"
    unfolding queue_rep_def reorder_rep_def nx ord len using Q [of q] by auto
qed (subst prep_hdr [OF assms], simp)+

text \<open>C40. What happens to the waiting events when an event that is in turn meets a non-empty reorder list, for single
  events (none with a list of its own linked to it) and no placeholder among those that wait, an order counter below \<open>2 ^ 31 - 1\<close>
  and lists without a common event. The event is
  entered into the list; the longest prefix of events in turn for the target queue is moved to the end of
  that queue, in order. The rest of the list is dropped: the reorder list is empty afterwards, the dropped events are not in the
  target queue, and the lists of all other queues are as before. When the prefix is empty, the null pointer is dereferenced.\<close>

theorem ordered_merge_drops_waiting:
  assumes "reorder_rep st origin ws" "ws \<noteq> []" "queue_rep st queue evs" "buf \<noteq> 0" "buf \<notin> set ws" "set (buf # ws) \<inter> set evs = {}"
    and "\<forall>a \<in> set (buf # ws). bh_link (hdr st a) = 0" "\<forall>a \<in> set ws. bh_target_qe (hdr st a) \<noteq> None"
    and "qe_status (qe st origin) \<ge> QUEUE_STATUS_READY" "qe_status (qe st queue) \<ge> QUEUE_STATUS_READY"
    and "order \<le> qe_order_out (qe st origin)" "unat (qe_order_out (qe st origin)) + 1 < 2 ^ 31"
    and "xs = takeWhile (\<lambda>e. ev_order st e \<le> order) ws @ buf # dropWhile (\<lambda>e. ev_order st e \<le> order) ws"
    and "r = released ((ev_order st)(buf := order)) ((\<lambda>a. bh_target_qe (hdr st a))(buf := Some queue))
      ((\<lambda>a. bh_sustain (hdr st a))(buf := True)) queue (qe_order_out (qe st origin) + (if sustain then 0 else 1)) xs"
  shows "if r = [] then ordered_enq_locked st queue buf sustain origin order = None
    else \<exists>lost st'. xs = r @ lost \<and>
      ordered_enq_locked st queue buf sustain origin order = Some (Ord_merged (qe_status (qe st queue) = QUEUE_STATUS_NOTSCHED) 0, st') \<and>
      queue_rep st' queue (evs @ r) \<and> qe_reorder_head (qe st' origin) = 0 \<and> set lost \<inter> set (evs @ r) = {} \<and>
      lists_kept st st' queue origin (set (buf # ws @ evs))"
proof -
  define st1 where "st1 = ordered_enq_prep (sched_enq_called st) queue buf sustain origin"
  note P = prep_lists [OF st1_def]
  have o: "origin < length (os_queue st)" "qe_reorder_head (qe st origin) \<noteq> 0"
    using assms(1,2) by (auto simp: reorder_rep_def neq_Nil_conv ptr_opt_eq)
  have "qe_reorder_head (qe st1 origin) \<noteq> 0" using o prep_qe(3) [OF st1_def o(1)] by simp
  moreover have "qe (sched_enq_called st) = qe st" by (simp add: sched_enq_called_def upd_local_def)
  ultimately have locked: "ordered_enq_locked st queue buf sustain origin order =
      ordered_enq_merge st1 queue buf origin order (qe_status (qe st queue) = QUEUE_STATUS_NOTSCHED)"
    using leD [OF assms(9)] leD [OF assms(10)] leD [OF assms(11)] unfolding ordered_enq_locked_def st1_def by (simp add: Let_def)
  have "r = released ((ev_order st1)(buf := order)) ((\<lambda>a. bh_target_qe (hdr st1 a))(buf := Some queue))
      ((\<lambda>a. bh_sustain (hdr st1 a))(buf := True)) queue (qe_order_out (qe st1 origin)) xs"
    unfolding assms(14) P(3,5,6) prep_out [OF st1_def o(1) assms(12)] ..
  note M = ordered_merge_lists [OF assms(1) [folded P(2)] assms(3) [folded P(1)] assms(4-6) assms(7) [folded P(4)] assms(8) [folded P(5)] assms(13) [folded P(3)] this]
  obtain lost where lost: "xs = r @ lost" using released_prefix [of xs] unfolding assms(14) by blast
  have "distinct (buf # ws)" using assms(1,5) by (auto simp: reorder_rep_def dest: chain_distinct)
  then have "distinct xs" unfolding assms(13) by (rule insert_between(2))
  moreover have "set xs = set (buf # ws)" unfolding assms(13) by (rule insert_between(1))
  ultimately have dl: "set lost \<inter> set (evs @ r) = {}" using assms(6) unfolding lost set_append distinct_append by blast
  have "lists_kept st1 st' queue origin S = lists_kept st st' queue origin S" for st' S unfolding lists_kept_def P(1,2) ..
  note M = M [unfolded this, of "qe_status (qe st queue) = QUEUE_STATUS_NOTSCHED"]
  show ?thesis
  proof (cases "r = []")
    case True
    then show ?thesis using M(1) [OF True] unfolding locked by simp
  next
    case False
    then show ?thesis using M(2) [OF False] lost dl unfolding locked by (simp only: if_False) blast
  qed
qed

theorem ordered_merge_drops_waiting_witness:
  "reorder_rep reorder_example 0 [64] \<and> ordered_enq_locked reorder_example 1 128 True 0 2 = Some (Ord_merged False 0, reorder_example_merged) \<and>
   queue_rep reorder_example_merged 1 [128] \<and> qe_reorder_head (qe reorder_example_merged 0) = 0"
proof -
  have q: "queue_rep reorder_example 1 []" by (simp add: queue_rep_def)
  have r: "released ((ev_order reorder_example)(128 := 2)) ((\<lambda>a. bh_target_qe (hdr reorder_example a))(128 := Some 1))
      ((\<lambda>a. bh_sustain (hdr reorder_example a))(128 := True)) 1 (qe_order_out (qe reorder_example 0) + (if True then 0 else 1))
      (takeWhile (\<lambda>e. ev_order reorder_example e \<le> 2) [64] @ 128 # dropWhile (\<lambda>e. ev_order reorder_example e \<le> 2) [64]) = [128]"
    by (simp add: ev_order_def)
  have ne: "[128] \<noteq> ([] :: u32 list)" by simp
  have l: "bh_link hdr_example = 0" by (simp add: hdr_example_def)
  have a: "[64] \<noteq> ([] :: u32 list)" "(128 :: u32) \<noteq> 0" "(128 :: u32) \<notin> set [64]" "set [128 :: u32, 64] \<inter> set [] = {}"
    "\<forall>a \<in> set [128, 64]. bh_link (hdr reorder_example a) = 0" "\<forall>a \<in> set [64]. bh_target_qe (hdr reorder_example a) \<noteq> None"
    "QUEUE_STATUS_READY \<le> qe_status (qe reorder_example 0)" "QUEUE_STATUS_READY \<le> qe_status (qe reorder_example 1)"
    "2 \<le> qe_order_out (qe reorder_example 0)" "unat (qe_order_out (qe reorder_example 0)) + 1 < 2 ^ 31"
    using l by simp_all
  note T = ordered_merge_drops_waiting [OF reorder_example_rep a(1) q a(2-10) refl r [symmetric], unfolded if_not_P [OF ne]]
  obtain st' where "ordered_enq_locked reorder_example 1 128 True 0 2 =
      Some (Ord_merged (qe_status (qe reorder_example 1) = QUEUE_STATUS_NOTSCHED) 0, st')"
    "queue_rep st' 1 ([] @ [128])" "qe_reorder_head (qe st' 0) = 0" using T by blast
  moreover have "qe_status (qe reorder_example 1) \<noteq> QUEUE_STATUS_NOTSCHED" by (simp add: QUEUE_STATUS_READY_def QUEUE_STATUS_NOTSCHED_def)
  ultimately show ?thesis using reorder_example_rep by (simp add: reorder_example_merged_def)
qed

section \<open>Packet output of several events\<close>

lemma link_bufs_chain:
  assumes "chain (nexts st) (ptr_opt b) bs None" "0 \<notin> set bs"
  shows "link_bufs st b = Some bs"
  using assms
proof (induction bs arbitrary: b)
  case Nil
  then show ?case by (simp add: link_bufs.simps ptr_opt_eq)
next
  case (Cons c bs)
  have "nexts st c = ptr_opt (bh_next (hdr st c))" by (simp add: nexts_def)
  then have "b = c" "b \<noteq> 0" "chain (nexts st) (ptr_opt (bh_next (hdr st b))) bs None"
    using Cons.prems by (auto simp: ptr_opt_eq)
  then show ?case using Cons by (subst link_bufs.simps) simp
qed

lemma chain_bufs_order [simp]:
  "bh_order (hdr (chain_bufs bs st) a) = bh_order (hdr st a)"
  by (induction bs st rule: chain_bufs.induct) auto

text \<open>When several packets of an ordered context are sent to an output queue in turn, the first of them is never given to the
  interface, and yet the call reports that all have been sent: whatever the interface does with batches that
  contain the first packet, the call succeeds.\<close>

lemma pktout_multi_skips_first:
  assumes q: "qe_type (qe st q) = ODP_QUEUE_TYPE_PKTOUT"
    and o: "bh_origin_qe (hdr st b0) = Some orig" "bh_order (hdr st b0) \<le> qe_order_out (qe st orig)" "qe_status (qe st orig) = QUEUE_STATUS_READY"
      "qe_reorder_head (qe st orig) = 0" "orig < length (os_queue st)"
    and b: "distinct (b0 # b1 # bs)" "0 \<notin> set (b0 # b1 # bs)" "length (b1 # bs) \<le> QUEUE_MULTI_MAX"
    and io: "\<And>st ps. b0 \<notin> set ps \<Longrightarrow> io st q ps = (int (length ps), st)"
  shows "\<exists>st'. odp_queue_enq_multi io st q (b0 # b1 # bs) = Some (int (length (b0 # b1 # bs)), st')"
proof -
  let ?bs = "b0 # b1 # bs"
  define c where "c = chain_bufs ?bs st"
  define d where "d = upd_buf b0 (\<lambda>h. h\<lparr>bh_link := bh_next h\<rparr>) c"
  have ch: "chain (nexts c) (Some b0) ?bs None" using chain_bufs_chain [of ?bs st] b by (simp add: c_def)
  then have n0: "bh_next (hdr c b0) = b1" by (simp add: nexts_def ptr_opt_eq)
  have g: "get_queue_order st b0 = ((Some orig, bh_order (hdr st b0)), st)" "get_queue_order d b0 = ((Some orig, bh_order (hdr st b0)), d)"
    using o(1) b(2) by (simp_all add: get_queue_order_def d_def c_def del: chain_bufs.simps)
  have dq: "os_queue d = os_queue st" "bh_link (hdr d b0) = b1" using n0 by (simp_all add: d_def c_def del: chain_bufs.simps)
  define e where "e = upd_buf b0 (\<lambda>h. h\<lparr>bh_link := 0\<rparr>) (sched_enq_called d)"
  have "nexts e = nexts c" by (auto simp: e_def d_def sched_enq_called_def fun_eq_iff nexts_def)
  then have "chain (nexts e) (ptr_opt b1) (b1 # bs) None" using ch n0 by (simp add: nexts_def [of c b0])
  then have l: "link_bufs e b1 = Some (b1 # bs)" using link_bufs_chain b(2) by simp
  have s: "pktout_send io (sched_enq_called d) q b0 = Some (0, e)"
    using l io [of "b1 # bs"] b dq(2) by (simp add: pktout_send_def e_def sched_enq_called_def Let_def)
  have eq: "os_queue e = os_queue st" by (simp add: e_def sched_enq_called_def dq)
  define f where "f = order_release orig 0 e"
  have f: "qe_reorder_head (qe f orig) = 0" using o(4,5) eq by (simp add: f_def order_release_def Let_def)
  have "queue_pktout_ordered io d q b0 True orig (bh_order (hdr st b0)) = Some (Out_next 0 0, f)"
    using s o dq(1) eq f
    by (simp add: queue_pktout_ordered_def reorder_deq_def reorder_deq_loop.simps pktout_released_def reorder_complete_def
        reorder_complete_loop.simps f_def sched_enq_called_def Let_def not_less)
  then have "queue_enq io d q b0 True = Some (0, f)"
    using g(2) q dq(1) unfolding queue_enq_def
    by (subst queue_do.simps) (simp add: queue_consts free_placeholders.simps)
  then show ?thesis using g(1) q by (simp add: odp_queue_enq_multi_def queue_pktout_enq_multi_def c_def [symmetric] d_def [symmetric] queue_consts del: chain_bufs.simps)
qed

end
