(* ===== verification/Odp_Packet_Parse.thy ===== *)
theory Odp_Packet_Parse
  imports Odp_Packet_Hdr
begin

text \<open>
  The packet parser (\<open>platform/mppa/odp_packet.c\<close>, from \<open>parse_ipv4\<close> on) with the header
  layouts of \<open>helper/include/odp/helper\<close>: Ethernet, VLAN, SNAP, IPv4, IPv6 with its
  extension headers, TCP and UDP. The frame is read from the byte memory; fields on
  the wire are big-endian.
\<close>

section \<open>Constants and wire fields\<close>

definition ODPH_ETH_LEN_MAX :: u16 where "ODPH_ETH_LEN_MAX = 1514"
definition ODPH_ETHTYPE_IPV4 :: u16 where "ODPH_ETHTYPE_IPV4 = 0x0800"
definition ODPH_ETHTYPE_ARP :: u16 where "ODPH_ETHTYPE_ARP = 0x0806"
definition ODPH_ETHTYPE_VLAN :: u16 where "ODPH_ETHTYPE_VLAN = 0x8100"
definition ODPH_ETHTYPE_VLAN_OUTER :: u16 where "ODPH_ETHTYPE_VLAN_OUTER = 0x88A8"
definition ODPH_ETHTYPE_IPV6 :: u16 where "ODPH_ETHTYPE_IPV6 = 0x86dd"
definition ODPH_IPPROTO_HOPOPTS :: u8 where "ODPH_IPPROTO_HOPOPTS = 0"
definition ODPH_IPPROTO_ICMP :: u8 where "ODPH_IPPROTO_ICMP = 1"
definition ODPH_IPPROTO_TCP :: u8 where "ODPH_IPPROTO_TCP = 6"
definition ODPH_IPPROTO_UDP :: u8 where "ODPH_IPPROTO_UDP = 0x11"
definition ODPH_IPPROTO_ROUTE :: u8 where "ODPH_IPPROTO_ROUTE = 0x2B"
definition ODPH_IPPROTO_FRAG :: u8 where "ODPH_IPPROTO_FRAG = 0x2C"
definition ODPH_IPPROTO_ESP :: u8 where "ODPH_IPPROTO_ESP = 0x32"
definition ODPH_IPPROTO_AH :: u8 where "ODPH_IPPROTO_AH = 0x33"

lemmas parse_consts =
  ODPH_ETH_LEN_MAX_def ODPH_ETHTYPE_IPV4_def ODPH_ETHTYPE_ARP_def ODPH_ETHTYPE_VLAN_def
  ODPH_ETHTYPE_VLAN_OUTER_def ODPH_ETHTYPE_IPV6_def ODPH_IPPROTO_HOPOPTS_def ODPH_IPPROTO_ICMP_def
  ODPH_IPPROTO_TCP_def ODPH_IPPROTO_UDP_def ODPH_IPPROTO_ROUTE_def ODPH_IPPROTO_FRAG_def
  ODPH_IPPROTO_ESP_def ODPH_IPPROTO_AH_def

definition be16 :: "(u32 \<Rightarrow> u8) \<Rightarrow> u32 \<Rightarrow> u16" where
  "be16 mem a = push_bit 8 (ucast (mem a)) OR ucast (mem (a + 1))"

definition ODPH_IPV4HDR_VER :: "u8 \<Rightarrow> u8" where
  "ODPH_IPV4HDR_VER ver_ihl = drop_bit 4 (ver_ihl AND 0xf0)"

definition ODPH_IPV4HDR_IHL :: "u8 \<Rightarrow> u8" where
  "ODPH_IPV4HDR_IHL ver_ihl = ver_ihl AND 0x0f"

definition ODPH_IPV4HDR_IS_FRAGMENT :: "u16 \<Rightarrow> bool" where
  "ODPH_IPV4HDR_IS_FRAGMENT frag_offset \<longleftrightarrow> frag_offset AND 0x3fff \<noteq> 0"

record odp_packet_parsing_ctx_t =
  cx_parseptr :: u32
  cx_offset :: u32
  cx_l3_len :: u16
  cx_l4_len :: u16

abbreviation set_if :: "(input_flags_t \<Rightarrow> input_flags_t) \<Rightarrow> odp_packet_hdr_t \<Rightarrow> odp_packet_hdr_t" where
  "set_if f h \<equiv> h\<lparr>ph_input_flags := f (ph_input_flags h)\<rparr>"

abbreviation set_ef :: "(error_flags_t \<Rightarrow> error_flags_t) \<Rightarrow> odp_packet_hdr_t \<Rightarrow> odp_packet_hdr_t" where
  "set_ef f h \<equiv> h\<lparr>ph_error_flags := f (ph_error_flags h)\<rparr>"

abbreviation cx_skip :: "odp_packet_parsing_ctx_t \<Rightarrow> u32 \<Rightarrow> odp_packet_parsing_ctx_t" where
  "cx_skip ctx n \<equiv> ctx\<lparr>cx_offset := cx_offset ctx + n, cx_parseptr := cx_parseptr ctx + n\<rparr>"

section \<open>Layer 3\<close>

type_synonym parse_result = "u8 \<times> odp_packet_hdr_t \<times> odp_packet_parsing_ctx_t"

text \<open>The remaining length \<open>frame_len - offset\<close> is an unsigned 32-bit difference.\<close>

definition parse_ipv4 ::
  "(u32 \<Rightarrow> u8) \<Rightarrow> odp_packet_hdr_t \<Rightarrow> odp_packet_parsing_ctx_t \<Rightarrow> parse_result" where
  "parse_ipv4 mem h ctx =
     (let ipv4 = cx_parseptr ctx;
          ver = ODPH_IPV4HDR_VER (mem ipv4);
          ihl = ODPH_IPV4HDR_IHL (mem ipv4);
          ctx = ctx\<lparr>cx_l3_len := be16 mem (ipv4 + 2)\<rparr>
      in if ihl < 5 \<or> ver \<noteq> 4 \<or> ucast (cx_l3_len ctx) > ucast (ph_frame_len h) - cx_offset ctx
         then (0, set_ef (\<lambda>e. e\<lparr>ef_ip_err := True\<rparr>) h, ctx)
         else let ctx = cx_skip ctx (ucast ihl * 4);
                  h = (if ihl > 5 then set_if (\<lambda>f. f\<lparr>if_ipopt := True\<rparr>) h else h);
                  h = (if ODPH_IPV4HDR_IS_FRAGMENT (be16 mem (ipv4 + 6))
                       then set_if (\<lambda>f. f\<lparr>if_ipfrag := True\<rparr>) h else h)
              in (mem (ipv4 + 9), h, ctx))"

text \<open>The loop over the extension headers: the next header of the last one, and the
  parse pointer and offset behind it.\<close>

definition is_ext_hdr :: "u8 \<Rightarrow> bool" where
  "is_ext_hdr next_hdr \<longleftrightarrow> next_hdr = ODPH_IPPROTO_HOPOPTS \<or> next_hdr = ODPH_IPPROTO_ROUTE"

definition ext_len_bytes :: "u8 \<Rightarrow> u32" where
  "ext_len_bytes ext_len = 8 + ucast ext_len * 8"

definition ext_measure :: "u32 \<Rightarrow> nat" where
  "ext_measure offset = (if unat offset < 65536 then 65536 - unat offset else 70000)"

lemma unat_ext_len: "unat (ext_len_bytes e) = 8 + unat e * 8" "unat (ext_len_bytes e) \<le> 2048"
proof -
  have e: "unat e < 256" using unsigned_less [of e, where ?'a = nat] by simp
  then have u: "unat (ucast e :: u32) = unat e"
    by (simp add: unsigned_ucast_eq take_bit_nat_eq_self)
  have "unat (ucast e * 8 :: u32) = unat e * 8"
    using e u by (simp add: unat_word_ariths)
  then show "unat (ext_len_bytes e) = 8 + unat e * 8"
    unfolding ext_len_bytes_def using e by (subst unat_add_small) simp_all
  then show "unat (ext_len_bytes e) \<le> 2048" using e by simp
qed

lemma ext_measure_less:
  fixes frame_len :: u16
  assumes "offset + ext_len_bytes e < ucast frame_len"
  shows "ext_measure (offset + ext_len_bytes e) < ext_measure offset"
proof -
  have f: "unat (offset + ext_len_bytes e) < 65536"
    using assms u16_bound [of frame_len] by (simp add: u32_less)
  show ?thesis
  proof (cases "unat offset < 65536")
    case True
    then have "unat (offset + ext_len_bytes e) = unat offset + unat (ext_len_bytes e)"
      using unat_ext_len(2) [of e] by (subst unat_add_small) simp_all
    with True f show ?thesis by (simp add: ext_measure_def unat_ext_len(1))
  qed (use f in \<open>simp add: ext_measure_def\<close>)
qed

function parse_ipv6_ext :: "(u32 \<Rightarrow> u8) \<Rightarrow> u16 \<Rightarrow> u32 \<Rightarrow> u32 \<Rightarrow> u8 \<times> u32 \<times> u32" where
  "parse_ipv6_ext mem frame_len parseptr offset =
     (let next_hdr = mem parseptr;
          extlen = ext_len_bytes (mem (parseptr + 1));
          offset' = offset + extlen;
          parseptr' = parseptr + extlen
      in if is_ext_hdr next_hdr \<and> offset' < ucast frame_len
         then parse_ipv6_ext mem frame_len parseptr' offset'
         else (next_hdr, parseptr', offset'))"
  by pat_completeness auto

termination
  by (relation "measure (\<lambda>(mem, frame_len, parseptr, offset). ext_measure offset)")
    (auto intro: ext_measure_less)

declare parse_ipv6_ext.simps [simp del]

definition parse_ipv6 ::
  "(u32 \<Rightarrow> u8) \<Rightarrow> odp_packet_hdr_t \<Rightarrow> odp_packet_parsing_ctx_t \<Rightarrow> parse_result" where
  "parse_ipv6 mem h ctx =
     (let ipv6 = cx_parseptr ctx;
          payload_len = be16 mem (ipv6 + 4);
          next_hdr = mem (ipv6 + 6);
          ctx = ctx\<lparr>cx_l3_len := payload_len\<rparr>
      in if drop_bit 4 (mem ipv6) \<noteq> 6 \<or>
            ucast (cx_l3_len ctx) > ucast (ph_frame_len h) - cx_offset ctx
         then (0, set_ef (\<lambda>e. e\<lparr>ef_ip_err := True\<rparr>) h, ctx)
         else let ctx = cx_skip ctx 40 in
           if is_ext_hdr next_hdr
           then let h = set_if (\<lambda>f. f\<lparr>if_ipopt := True\<rparr>) h;
                    (ext_next, parseptr, offset) =
                      parse_ipv6_ext mem (ph_frame_len h) (cx_parseptr ctx) (cx_offset ctx);
                    ctx = ctx\<lparr>cx_offset := offset, cx_parseptr := parseptr\<rparr>
                in if cx_offset ctx \<ge> ucast (ph_l3_offset h) + ucast payload_len
                   then (0, set_ef (\<lambda>e. e\<lparr>ef_ip_err := True\<rparr>) h, ctx)
                   else (ext_next,
                         if ext_next = ODPH_IPPROTO_FRAG then set_if (\<lambda>f. f\<lparr>if_ipfrag := True\<rparr>) h
                         else h, ctx)
           else (next_hdr,
                 if next_hdr = ODPH_IPPROTO_FRAG
                 then set_if (\<lambda>f. f\<lparr>if_ipopt := True, if_ipfrag := True\<rparr>) h else h, ctx))"

section \<open>Layer 4\<close>

definition tcp_hl :: "(u32 \<Rightarrow> u8) \<Rightarrow> u32 \<Rightarrow> u8" where
  "tcp_hl mem tcp = drop_bit 4 (mem (tcp + 12))"

definition parse_tcp ::
  "(u32 \<Rightarrow> u8) \<Rightarrow> odp_packet_hdr_t \<Rightarrow> odp_packet_parsing_ctx_t \<Rightarrow>
   odp_packet_hdr_t \<times> odp_packet_parsing_ctx_t" where
  "parse_tcp mem h ctx =
     (let hl = tcp_hl mem (cx_parseptr ctx);
          h = (if hl < 5 then set_ef (\<lambda>e. e\<lparr>ef_tcp_err := True\<rparr>) h
               else if (ucast hl :: u32) * 4 > 20 then set_if (\<lambda>f. f\<lparr>if_tcpopt := True\<rparr>) h
               else h);
          ctx = ctx\<lparr>cx_l4_len := cx_l3_len ctx + ph_l3_offset h - ph_l4_offset h\<rparr>
      in (h, cx_skip ctx (ucast hl * 4)))"

definition parse_udp ::
  "(u32 \<Rightarrow> u8) \<Rightarrow> odp_packet_hdr_t \<Rightarrow> odp_packet_parsing_ctx_t \<Rightarrow>
   odp_packet_hdr_t \<times> odp_packet_parsing_ctx_t" where
  "parse_udp mem h ctx =
     (let udplen = (ucast (be16 mem (cx_parseptr ctx + 4)) :: u32);
          h = (if udplen < 8 \<or>
                  udplen > ucast (cx_l3_len ctx) + ucast (ph_l3_offset h) - ucast (ph_l4_offset h)
               then set_ef (\<lambda>e. e\<lparr>ef_udp_err := True\<rparr>) h else h);
          ctx = ctx\<lparr>cx_l4_len := ucast udplen\<rparr>
      in (h, cx_skip ctx 8))"

section \<open>Layer 2 and the whole parser\<close>

definition packet_parse_l2 :: "odp_packet_hdr_t \<Rightarrow> odp_packet_hdr_t" where
  "packet_parse_l2 h =
     (let h = set_if (\<lambda>f. f\<lparr>if_eth := True\<rparr>) h;
          h = (if ph_frame_len h > ODPH_ETH_LEN_MAX then set_if (\<lambda>f. f\<lparr>if_jumbo := True\<rparr>) h else h)
      in set_if (\<lambda>f. f\<lparr>if_l2 := True, if_parsed_l2 := True\<rparr>) h)"

type_synonym l2_state = "u16 \<times> odp_packet_hdr_t \<times> odp_packet_parsing_ctx_t"

text \<open>The VLAN tags are 16 bits wide, so the Ethernet type shifted above them is lost.\<close>

definition parse_vlan_outer :: "(u32 \<Rightarrow> u8) \<Rightarrow> l2_state \<Rightarrow> l2_state" where
  "parse_vlan_outer mem = (\<lambda>(ethtype, h, ctx).
     if ethtype = ODPH_ETHTYPE_VLAN_OUTER
     then let h = set_if (\<lambda>f. f\<lparr>if_vlan_qinq := True, if_vlan := True\<rparr>) h;
              h = h\<lparr>ph_vlan_s_tag := ucast (push_bit 16 (ucast ethtype :: u32) OR
                      ucast (be16 mem (cx_parseptr ctx + 2)))\<rparr>;
              ctx = cx_skip ctx 4
          in (be16 mem (cx_parseptr ctx), h, ctx)
     else (ethtype, h, ctx))"

definition parse_vlan_inner :: "(u32 \<Rightarrow> u8) \<Rightarrow> l2_state \<Rightarrow> l2_state" where
  "parse_vlan_inner mem = (\<lambda>(ethtype, h, ctx).
     if ethtype = ODPH_ETHTYPE_VLAN
     then let h = set_if (\<lambda>f. f\<lparr>if_vlan := True\<rparr>) h;
              h = h\<lparr>ph_vlan_c_tag := ucast (push_bit 16 (ucast ethtype :: u32) OR
                      ucast (be16 mem (cx_parseptr ctx + 2)))\<rparr>;
              ctx = cx_skip ctx 4
          in (be16 mem (cx_parseptr ctx), h, ctx)
     else (ethtype, h, ctx))"

text \<open>\<open>None\<close>: a SNAP length error, which ends the parse; the header carries the error.\<close>

definition parse_snap :: "(u32 \<Rightarrow> u8) \<Rightarrow> l2_state \<Rightarrow> odp_packet_hdr_t \<times> l2_state option" where
  "parse_snap mem = (\<lambda>(ethtype, h, ctx).
     if ethtype < ODPH_ETH_LEN_MAX
     then let h = set_if (\<lambda>f. f\<lparr>if_snap := True\<rparr>) h in
       if ucast ethtype > ucast (ph_frame_len h) - cx_offset ctx
       then (set_ef (\<lambda>e. e\<lparr>ef_snap_len := True\<rparr>) h, None)
       else let ctx = cx_skip ctx 8 in (h, Some (be16 mem (cx_parseptr ctx), h, ctx))
     else (h, Some (ethtype, h, ctx)))"

definition parse_l3 :: "(u32 \<Rightarrow> u8) \<Rightarrow> l2_state \<Rightarrow> parse_result" where
  "parse_l3 mem = (\<lambda>(ethtype, h, ctx).
     let ctx = ctx\<lparr>cx_parseptr := cx_parseptr ctx + 2\<rparr>;
         h = set_if (\<lambda>f. f\<lparr>if_l3 := True\<rparr>) h;
         h = h\<lparr>ph_l3_offset := ucast (cx_offset ctx), ph_l3_protocol := ethtype\<rparr>
     in if ethtype = ODPH_ETHTYPE_IPV4
        then parse_ipv4 mem (set_if (\<lambda>f. f\<lparr>if_ipv4 := True\<rparr>) h) ctx
        else if ethtype = ODPH_ETHTYPE_IPV6
        then parse_ipv6 mem (set_if (\<lambda>f. f\<lparr>if_ipv6 := True\<rparr>) h) ctx
        else if ethtype = ODPH_ETHTYPE_ARP
        then (255, set_if (\<lambda>f. f\<lparr>if_arp := True\<rparr>) h, ctx)
        else (255, set_if (\<lambda>f. f\<lparr>if_l3 := False\<rparr>) h\<lparr>ph_l3_offset := ODP_PACKET_OFFSET_INVALID\<rparr>, ctx))"

definition parse_l4 :: "(u32 \<Rightarrow> u8) \<Rightarrow> parse_result \<Rightarrow> odp_packet_hdr_t \<times> odp_packet_parsing_ctx_t" where
  "parse_l4 mem = (\<lambda>(ip_proto, h, ctx).
     let h = set_if (\<lambda>f. f\<lparr>if_l4 := True\<rparr>) h;
         h = h\<lparr>ph_l4_offset := ucast (cx_offset ctx), ph_l4_protocol := ucast ip_proto\<rparr>
     in if ip_proto = ODPH_IPPROTO_ICMP
        then (set_if (\<lambda>f. f\<lparr>if_icmp := True\<rparr>) h, ctx)
        else if ip_proto = ODPH_IPPROTO_TCP
        then parse_tcp mem (set_if (\<lambda>f. f\<lparr>if_tcp := True\<rparr>) h) ctx
        else if ip_proto = ODPH_IPPROTO_UDP
        then parse_udp mem (set_if (\<lambda>f. f\<lparr>if_udp := True\<rparr>) h) ctx
        else if ip_proto = ODPH_IPPROTO_AH \<or> ip_proto = ODPH_IPPROTO_ESP
        then (set_if (\<lambda>f. f\<lparr>if_ipsec := True\<rparr>) h, ctx)
        else (set_if (\<lambda>f. f\<lparr>if_l4 := False\<rparr>) h\<lparr>ph_l4_offset := ODP_PACKET_OFFSET_INVALID\<rparr>, ctx))"

definition parse_frame :: "(u32 \<Rightarrow> u8) \<Rightarrow> odp_packet_hdr_t \<Rightarrow> u32 \<Rightarrow> odp_packet_hdr_t" where
  "parse_frame mem h eth =
     (let ctx = \<lparr>cx_parseptr = eth + 12, cx_offset = 14, cx_l3_len = 0, cx_l4_len = 0\<rparr>;
          l2 = parse_vlan_inner mem (parse_vlan_outer mem (be16 mem (cx_parseptr ctx), h, ctx));
          h = (case parse_snap mem l2 of
                 (h, None) \<Rightarrow> h
               | (h, Some st) \<Rightarrow>
                   let (h, ctx) = parse_l4 mem (parse_l3 mem st)
                   in h\<lparr>ph_payload_offset := ucast (cx_offset ctx)\<rparr>)
      in set_if (\<lambda>f. f\<lparr>if_parsed_all := True\<rparr>) h)"

text \<open>The argument \<open>ptr\<close> is the frame to parse, or null for the packet's own data.\<close>

definition odp_parse_common ::
  "(u32 \<Rightarrow> u8) \<Rightarrow> odp_packet_hdr_t \<Rightarrow> u32 \<Rightarrow> bool \<times> odp_packet_hdr_t" where
  "odp_parse_common mem h ptr =
     (let h = (if \<not> if_parsed_l2 (ph_input_flags h) then packet_parse_l2 h else h);
          eth = (if ptr = 0 then fst (packet_map h 0) else ptr);
          h = parse_frame mem h eth
      in (ph_error_flags h \<noteq> error_flags_zero, h))"

definition packet_parse_full :: "(u32 \<Rightarrow> u8) \<Rightarrow> odp_packet_hdr_t \<Rightarrow> bool \<times> odp_packet_hdr_t" where
  "packet_parse_full mem h = odp_parse_common mem h 0"

section \<open>Accessors that parse on demand\<close>

definition packet_parse_lazy :: "(u32 \<Rightarrow> u8) \<Rightarrow> odp_packet_hdr_t \<Rightarrow> odp_packet_hdr_t" where
  "packet_parse_lazy mem h =
     (if \<not> if_parsed_all (ph_input_flags h) then snd (packet_parse_full mem h) else h)"

definition odp_packet_l3_offset :: "(u32 \<Rightarrow> u8) \<Rightarrow> odp_packet_hdr_t \<Rightarrow> u32 \<times> odp_packet_hdr_t" where
  "odp_packet_l3_offset mem h =
     (let h = packet_parse_lazy mem h in (ucast (ph_l3_offset h), h))"

definition odp_packet_l3_ptr ::
  "(u32 \<Rightarrow> u8) \<Rightarrow> odp_packet_hdr_t \<Rightarrow> (u32 \<times> u32 option) \<times> odp_packet_hdr_t" where
  "odp_packet_l3_ptr mem h =
     (let h = packet_parse_lazy mem h in (packet_map h (ucast (ph_l3_offset h)), h))"

definition odp_packet_l3_offset_set ::
  "(u32 \<Rightarrow> u8) \<Rightarrow> odp_packet_hdr_t \<Rightarrow> u32 \<Rightarrow> int \<times> odp_packet_hdr_t" where
  "odp_packet_l3_offset_set mem h offset =
     (if offset \<ge> ucast (ph_frame_len h) then (- 1, h)
      else let h = packet_parse_lazy mem h in (0, h\<lparr>ph_l3_offset := ucast offset\<rparr>))"

definition odp_packet_l4_offset :: "(u32 \<Rightarrow> u8) \<Rightarrow> odp_packet_hdr_t \<Rightarrow> u32 \<times> odp_packet_hdr_t" where
  "odp_packet_l4_offset mem h =
     (let h = packet_parse_lazy mem h in (ucast (ph_l4_offset h), h))"

definition odp_packet_l4_ptr ::
  "(u32 \<Rightarrow> u8) \<Rightarrow> odp_packet_hdr_t \<Rightarrow> (u32 \<times> u32 option) \<times> odp_packet_hdr_t" where
  "odp_packet_l4_ptr mem h =
     (let h = packet_parse_lazy mem h in (packet_map h (ucast (ph_l4_offset h)), h))"

definition odp_packet_l4_offset_set ::
  "(u32 \<Rightarrow> u8) \<Rightarrow> odp_packet_hdr_t \<Rightarrow> u32 \<Rightarrow> int \<times> odp_packet_hdr_t" where
  "odp_packet_l4_offset_set mem h offset =
     (if offset \<ge> ucast (ph_frame_len h) then (- 1, h)
      else let h = packet_parse_lazy mem h in (0, h\<lparr>ph_l4_offset := ucast offset\<rparr>))"

definition odp_packet_l2_ptr :: "odp_packet_hdr_t \<Rightarrow> u32 \<times> u32 option" where
  "odp_packet_l2_ptr h = packet_map h (ucast (ph_l2_offset h))"

section \<open>What each layer leaves unchanged\<close>

definition l34_flags :: "input_flags_t \<Rightarrow> bool list" where
  "l34_flags f = [if_l3 f, if_l4 f, if_ipv4 f, if_ipv6 f, if_arp f, if_icmp f, if_tcp f, if_udp f,
                  if_ipsec f]"

lemma parse_ipv4_keeps:
  assumes "parse_ipv4 mem h ctx = (p, h', ctx')"
  shows "l34_flags (ph_input_flags h') = l34_flags (ph_input_flags h)"
    "ph_l3_offset h' = ph_l3_offset h" "ph_l4_offset h' = ph_l4_offset h"
  using assms by (auto simp: parse_ipv4_def Let_def l34_flags_def split: if_splits)

lemma parse_ipv6_keeps:
  assumes "parse_ipv6 mem h ctx = (p, h', ctx')"
  shows "l34_flags (ph_input_flags h') = l34_flags (ph_input_flags h)"
    "ph_l3_offset h' = ph_l3_offset h" "ph_l4_offset h' = ph_l4_offset h"
  using assms
  by (auto simp: parse_ipv6_def Let_def l34_flags_def split: if_splits prod.splits)

lemma parse_tcp_keeps:
  assumes "parse_tcp mem h ctx = (h', ctx')"
  shows "l34_flags (ph_input_flags h') = l34_flags (ph_input_flags h)"
    "ph_l3_offset h' = ph_l3_offset h" "ph_l4_offset h' = ph_l4_offset h"
    "ph_l4_protocol h' = ph_l4_protocol h"
  using assms by (auto simp: parse_tcp_def Let_def l34_flags_def split: if_splits)

lemma parse_udp_keeps:
  assumes "parse_udp mem h ctx = (h', ctx')"
  shows "l34_flags (ph_input_flags h') = l34_flags (ph_input_flags h)"
    "ph_l3_offset h' = ph_l3_offset h" "ph_l4_offset h' = ph_l4_offset h"
    "ph_l4_protocol h' = ph_l4_protocol h"
  using assms by (auto simp: parse_udp_def Let_def l34_flags_def split: if_splits)

text \<open>A header before layer 3: nothing is known above layer 2.\<close>

definition l2_only :: "odp_packet_hdr_t \<Rightarrow> bool" where
  "l2_only h \<longleftrightarrow> (\<forall>b \<in> set (l34_flags (ph_input_flags h)). \<not> b) \<and>
     ph_l3_offset h = ODP_PACKET_OFFSET_INVALID \<and> ph_l4_offset h = ODP_PACKET_OFFSET_INVALID"

lemma packet_parse_l2_only: "l2_only h \<Longrightarrow> l2_only (packet_parse_l2 h)"
  by (simp add: l2_only_def packet_parse_l2_def Let_def l34_flags_def)

lemma parse_vlan_outer_only:
  "parse_vlan_outer mem (e, h, c) = (e', h', c') \<Longrightarrow> l2_only h \<Longrightarrow> l2_only h'"
  by (auto simp: l2_only_def parse_vlan_outer_def Let_def l34_flags_def split: if_splits)

lemma parse_vlan_inner_only:
  "parse_vlan_inner mem (e, h, c) = (e', h', c') \<Longrightarrow> l2_only h \<Longrightarrow> l2_only h'"
  by (auto simp: l2_only_def parse_vlan_inner_def Let_def l34_flags_def split: if_splits)

lemma parse_snap_only:
  "parse_snap mem (e, h, c) = (h', r) \<Longrightarrow> l2_only h \<Longrightarrow>
     l2_only h' \<and> (\<forall>e' h2 c'. r = Some (e', h2, c') \<longrightarrow> l2_only h2)"
  by (auto simp: l2_only_def parse_snap_def Let_def l34_flags_def split: if_splits)

text \<open>The coherence of layers 3 and 4 in a parsed header.\<close>

definition l3_coherent :: "u8 \<Rightarrow> odp_packet_hdr_t \<Rightarrow> bool" where
  "l3_coherent p h \<longleftrightarrow> (let f = ph_input_flags h in
     (if_l3 f \<longleftrightarrow> if_ipv4 f \<or> if_ipv6 f \<or> if_arp f) \<and>
     \<not> (if_ipv4 f \<and> if_ipv6 f) \<and> \<not> (if_arp f \<and> (if_ipv4 f \<or> if_ipv6 f)) \<and>
     (\<not> if_l3 f \<longrightarrow> ph_l3_offset h = ODP_PACKET_OFFSET_INVALID) \<and>
     (\<not> (if_ipv4 f \<or> if_ipv6 f) \<longrightarrow> p = 255) \<and>
     \<not> if_l4 f \<and> \<not> if_icmp f \<and> \<not> if_tcp f \<and> \<not> if_udp f \<and> \<not> if_ipsec f)"

lemma parse_l3_coherent:
  assumes "l2_only h" "parse_l3 mem (e, h, c) = (p, h', c')"
  shows "l3_coherent p h'"
proof -
  note simps = parse_l3_def l2_only_def l3_coherent_def Let_def l34_flags_def parse_consts
  consider "e = ODPH_ETHTYPE_IPV4" | "e = ODPH_ETHTYPE_IPV6"
    | "e \<noteq> ODPH_ETHTYPE_IPV4" "e \<noteq> ODPH_ETHTYPE_IPV6" by blast
  then show ?thesis
  proof cases
    case 1
    with assms parse_ipv4_keeps show ?thesis by (auto simp: simps)
  next
    case 2
    with assms parse_ipv6_keeps show ?thesis by (auto simp: simps)
  next
    case 3
    with assms show ?thesis by (auto simp: simps split: if_splits)
  qed
qed

definition l4_coherent :: "odp_packet_hdr_t \<Rightarrow> bool" where
  "l4_coherent h \<longleftrightarrow> (let f = ph_input_flags h in
     (if_l4 f \<longleftrightarrow> if_icmp f \<or> if_tcp f \<or> if_udp f \<or> if_ipsec f) \<and>
     (if_icmp f \<longrightarrow> ph_l4_protocol h = 1) \<and> (if_tcp f \<longrightarrow> ph_l4_protocol h = 6) \<and>
     (if_udp f \<longrightarrow> ph_l4_protocol h = 17) \<and>
     (if_ipsec f \<longrightarrow> ph_l4_protocol h = 50 \<or> ph_l4_protocol h = 51) \<and>
     (\<not> if_l4 f \<longrightarrow> ph_l4_offset h = ODP_PACKET_OFFSET_INVALID) \<and>
     (if_l4 f \<longrightarrow> if_ipv4 f \<or> if_ipv6 f))"

definition l3_part :: "odp_packet_hdr_t \<Rightarrow> bool list \<times> u16" where
  "l3_part h = (let f = ph_input_flags h in
     ([if_l3 f, if_ipv4 f, if_ipv6 f, if_arp f], ph_l3_offset h))"

lemma parse_l4_coherent:
  assumes "l3_coherent p h" "parse_l4 mem (p, h, c) = (h', c')"
  shows "l3_part h' = l3_part h \<and> l4_coherent h'"
proof -
  let ?h = "set_if (\<lambda>f. f\<lparr>if_l4 := True\<rparr>) h\<lparr>ph_l4_offset := ucast (cx_offset c), ph_l4_protocol := ucast p\<rparr>"
  note simps = l3_coherent_def l4_coherent_def l3_part_def Let_def l34_flags_def parse_consts
  consider "p = 6" | "p = 17" | "p = 1" | "p = 50 \<or> p = 51" | "p \<notin> {1, 6, 17, 50, 51}" by auto
  then show ?thesis
  proof cases
    case 1
    then have "parse_tcp mem (set_if (\<lambda>f. f\<lparr>if_tcp := True\<rparr>) ?h) c = (h', c')"
      using assms(2) by (simp add: parse_l4_def parse_consts)
    from parse_tcp_keeps [OF this] 1 assms(1) show ?thesis by (simp add: simps)
  next
    case 2
    then have "parse_udp mem (set_if (\<lambda>f. f\<lparr>if_udp := True\<rparr>) ?h) c = (h', c')"
      using assms(2) by (simp add: parse_l4_def parse_consts)
    from parse_udp_keeps [OF this] 2 assms(1) show ?thesis by (simp add: simps)
  next
    case 3
    then have "h' = set_if (\<lambda>f. f\<lparr>if_icmp := True\<rparr>) ?h"
      using assms(2) by (auto simp: parse_l4_def parse_consts)
    with 3 assms(1) show ?thesis by (simp add: simps)
  next
    case 4
    then have "h' = set_if (\<lambda>f. f\<lparr>if_ipsec := True\<rparr>) ?h"
      using assms(2) by (auto simp: parse_l4_def parse_consts)
    with 4 assms(1) show ?thesis by (auto simp: simps)
  next
    case 5
    then have "h' = set_if (\<lambda>f. f\<lparr>if_l4 := False\<rparr>) ?h\<lparr>ph_l4_offset := ODP_PACKET_OFFSET_INVALID\<rparr>"
      using assms(2) by (simp add: parse_l4_def parse_consts)
    with assms(1) show ?thesis by (simp add: simps)
  qed
qed

definition parse_coherent :: "odp_packet_hdr_t \<Rightarrow> bool" where
  "parse_coherent h \<longleftrightarrow> (let f = ph_input_flags h in
     if_parsed_all f \<and>
     (if_l3 f \<longleftrightarrow> if_ipv4 f \<or> if_ipv6 f \<or> if_arp f) \<and>
     \<not> (if_ipv4 f \<and> if_ipv6 f) \<and> \<not> (if_arp f \<and> (if_ipv4 f \<or> if_ipv6 f)) \<and>
     (\<not> if_l3 f \<longrightarrow> ph_l3_offset h = ODP_PACKET_OFFSET_INVALID) \<and>
     l4_coherent h)"

lemma parse_frame_coherent:
  assumes "l2_only h"
  shows "parse_coherent (parse_frame mem h eth)"
proof -
  define c1 where "c1 = \<lparr>cx_parseptr = eth + 12, cx_offset = 14, cx_l3_len = 0, cx_l4_len = 0\<rparr>"
  obtain e2 h2 c2 where o: "parse_vlan_outer mem (be16 mem (cx_parseptr c1), h, c1) = (e2, h2, c2)"
    by (rule prod_cases3)
  obtain e3 h3 c3 where i: "parse_vlan_inner mem (e2, h2, c2) = (e3, h3, c3)" by (rule prod_cases3)
  obtain h4 r where s: "parse_snap mem (e3, h3, c3) = (h4, r)" by (rule prod.exhaust)
  have "l2_only h3"
    by (rule parse_vlan_inner_only [OF i parse_vlan_outer_only [OF o assms]])
  from parse_snap_only [OF s this]
  have l2: "l2_only h4" "\<And>e h c. r = Some (e, h, c) \<Longrightarrow> l2_only h" by simp_all
  have eq: "parse_frame mem h eth =
    set_if (\<lambda>f. f\<lparr>if_parsed_all := True\<rparr>)
      (case r of None \<Rightarrow> h4
       | Some st \<Rightarrow> let (h, ctx) = parse_l4 mem (parse_l3 mem st)
                  in h\<lparr>ph_payload_offset := ucast (cx_offset ctx)\<rparr>)"
    unfolding parse_frame_def Let_def c1_def [symmetric] o i s by simp
  show ?thesis
  proof (cases r)
    case None
    with l2(1) eq show ?thesis
      by (simp add: parse_coherent_def l4_coherent_def Let_def l2_only_def l34_flags_def)
  next
    case (Some st)
    obtain e h5 c5 where st: "st = (e, h5, c5)" by (rule prod_cases3)
    obtain p h6 c6 where l3: "parse_l3 mem st = (p, h6, c6)" by (rule prod_cases3)
    obtain h7 c7 where l4: "parse_l4 mem (p, h6, c6) = (h7, c7)" by (rule prod.exhaust)
    have c3: "l3_coherent p h6"
      using parse_l3_coherent [OF l2(2) l3 [unfolded st]] Some st by simp
    have fr: "parse_frame mem h eth = set_if (\<lambda>f. f\<lparr>if_parsed_all := True\<rparr>)
        (h7\<lparr>ph_payload_offset := ucast (cx_offset c7)\<rparr>)"
      using eq Some l3 l4 by simp
    have "l4_coherent (parse_frame mem h eth)" and part: "l3_part h7 = l3_part h6"
      using parse_l4_coherent [OF c3 l4] by (simp_all add: fr l4_coherent_def Let_def)
    moreover have "l3_part (parse_frame mem h eth) = l3_part h6"
      unfolding fr part [symmetric] by (simp add: l3_part_def Let_def)
    moreover have "if_parsed_all (ph_input_flags (parse_frame mem h eth))" by (simp add: fr)
    ultimately show ?thesis
      using c3 unfolding parse_coherent_def l3_coherent_def l3_part_def Let_def by simp
  qed
qed

section \<open>Valid UDP frames over IPv4 and IPv6\<close>

text \<open>An untagged frame whose IPv4 header, length fields and UDP header are valid;
  \<open>d\<close> is the address of the Ethernet header.\<close>

definition valid_ipv4_udp :: "(u32 \<Rightarrow> u8) \<Rightarrow> u32 \<Rightarrow> nat \<Rightarrow> bool" where
  "valid_ipv4_udp mem d frame_len \<longleftrightarrow>
     (let ip = d + 14; ihl = ODPH_IPV4HDR_IHL (mem ip); udp = ip + ucast ihl * 4;
          tot_len = unat (be16 mem (ip + 2)); udplen = unat (be16 mem (udp + 4))
      in be16 mem (d + 12) = ODPH_ETHTYPE_IPV4 \<and> ODPH_IPV4HDR_VER (mem ip) = 4 \<and>
         5 \<le> unat ihl \<and> mem (ip + 9) = ODPH_IPPROTO_UDP \<and> 14 + tot_len \<le> frame_len \<and>
         8 \<le> udplen \<and> unat ihl * 4 + udplen \<le> tot_len)"

lemma ihl_bound: "unat (ODPH_IPV4HDR_IHL v) < 16"
proof -
  have "v AND 0x0f = take_bit 4 v" by (simp add: take_bit_eq_mask mask_numeral)
  then have "unat (ODPH_IPV4HDR_IHL v) = unat v mod 16"
    by (simp add: ODPH_IPV4HDR_IHL_def unsigned_take_bit_eq take_bit_eq_mod unat_mod)
  then show ?thesis by simp
qed

lemma u8_less: "(a :: u8) < b \<longleftrightarrow> unat a < unat b"
  by (rule word_less_nat_alt)

lemma unat_ucast_8_32 [simp]: "unat (ucast (x :: u8) :: u32) = unat x"
  using unsigned_less [of x, where ?'a = nat] by (simp add: unsigned_ucast_eq take_bit_nat_eq_self)

lemma parse_frame_untagged:
  assumes "be16 mem (eth + 12) = e" "e = ODPH_ETHTYPE_IPV4 \<or> e = ODPH_ETHTYPE_IPV6"
    and "parse_l4 mem (parse_l3 mem
           (e, h, \<lparr>cx_parseptr = eth + 12, cx_offset = 14, cx_l3_len = 0, cx_l4_len = 0\<rparr>)) = (h', c')"
  shows "parse_frame mem h eth = set_if (\<lambda>f. f\<lparr>if_parsed_all := True\<rparr>)
           (h'\<lparr>ph_payload_offset := ucast (cx_offset c')\<rparr>)"
proof -
  have e: "e \<noteq> ODPH_ETHTYPE_VLAN_OUTER" "e \<noteq> ODPH_ETHTYPE_VLAN" "\<not> e < ODPH_ETH_LEN_MAX"
    using assms(2) by (auto simp: parse_consts)
  then have "parse_vlan_outer mem (e, h, c) = (e, h, c)" "parse_vlan_inner mem (e, h, c) = (e, h, c)"
    "parse_snap mem (e, h, c) = (h, Some (e, h, c))" for h c
    by (simp_all add: parse_vlan_outer_def parse_vlan_inner_def parse_snap_def)
  then show ?thesis
    unfolding parse_frame_def Let_def using assms(1,3) by simp
qed

text \<open>The checks of \<open>parse_ipv4\<close> pass on a header whose lengths are inside the frame.\<close>

lemma parse_ipv4_ok:
  assumes ctx: "ctx = \<lparr>cx_parseptr = ip, cx_offset = 14, cx_l3_len = 0, cx_l4_len = 0\<rparr>"
    and v: "ODPH_IPV4HDR_VER (mem ip) = 4" "5 \<le> unat (ODPH_IPV4HDR_IHL (mem ip))"
    and tot: "14 + unat (be16 mem (ip + 2)) \<le> unat (ph_frame_len h)"
  obtains h' where
    "parse_ipv4 mem h ctx = (mem (ip + 9), h',
       \<lparr>cx_parseptr = ip + ucast (ODPH_IPV4HDR_IHL (mem ip)) * 4,
        cx_offset = 14 + ucast (ODPH_IPV4HDR_IHL (mem ip)) * 4,
        cx_l3_len = be16 mem (ip + 2), cx_l4_len = 0\<rparr>)"
    "l34_flags (ph_input_flags h') = l34_flags (ph_input_flags h)"
    "ph_error_flags h' = ph_error_flags h"
    "ph_l3_offset h' = ph_l3_offset h"
proof -
  let ?i = "ODPH_IPV4HDR_IHL (mem ip)"
  have "unat (ucast (ph_frame_len h) - 14 :: u32) = unat (ph_frame_len h) - 14"
    using tot by (subst unat_sub_small) simp_all
  then have nlen: "\<not> ucast (be16 mem (ip + 2)) > (ucast (ph_frame_len h) - 14 :: u32)"
    using tot by (simp add: u32_less)
  have nihl: "\<not> ?i < 5" using v by (simp add: u8_less)
  define h1 where "h1 = (if ?i > 5 then set_if (\<lambda>f. f\<lparr>if_ipopt := True\<rparr>) h else h)"
  define h2 where "h2 = (if ODPH_IPV4HDR_IS_FRAGMENT (be16 mem (ip + 6))
                       then set_if (\<lambda>f. f\<lparr>if_ipfrag := True\<rparr>) h1 else h1)"
  have "parse_ipv4 mem h ctx = (mem (ip + 9), h2,
       \<lparr>cx_parseptr = ip + ucast ?i * 4, cx_offset = 14 + ucast ?i * 4,
        cx_l3_len = be16 mem (ip + 2), cx_l4_len = 0\<rparr>)"
    using nlen nihl v(1) by (simp add: ctx parse_ipv4_def Let_def h1_def h2_def)
  then show ?thesis by (rule that) (simp_all add: h1_def h2_def l34_flags_def)
qed

text \<open>The checks of \<open>parse_udp\<close> pass when the datagram fits behind the IP header.\<close>

lemma parse_udp_ok:
  assumes "8 \<le> unat (be16 mem (cx_parseptr ctx + 4))"
    and "unat (ph_l4_offset h) + unat (be16 mem (cx_parseptr ctx + 4)) \<le>
         unat (cx_l3_len ctx) + unat (ph_l3_offset h)"
  shows "fst (parse_udp mem h ctx) = h" "cx_offset (snd (parse_udp mem h ctx)) = cx_offset ctx + 8"
proof -
  have "unat (ucast (cx_l3_len ctx) + ucast (ph_l3_offset h) :: u32) =
        unat (cx_l3_len ctx) + unat (ph_l3_offset h)"
    using u16_bound [of "cx_l3_len ctx"] u16_bound [of "ph_l3_offset h"]
    by (subst unat_add_small) simp_all
  then have "unat (ucast (cx_l3_len ctx) + ucast (ph_l3_offset h) - ucast (ph_l4_offset h) :: u32) =
        unat (cx_l3_len ctx) + unat (ph_l3_offset h) - unat (ph_l4_offset h)"
    using assms(2) by (subst unat_sub_small) simp_all
  with assms show "fst (parse_udp mem h ctx) = h"
    "cx_offset (snd (parse_udp mem h ctx)) = cx_offset ctx + 8"
    by (simp_all add: parse_udp_def Let_def u32_less)
qed

lemma udp_offset:
  fixes i :: u8
  assumes "unat i < 16"
  shows "unat (14 + ucast i * 4 :: u32) = 14 + unat i * 4"
    "unat (ucast (14 + ucast i * 4 :: u32) :: u16) = 14 + unat i * 4"
    "unat (ucast (14 + ucast i * 4 + 8 :: u32) :: u16) = 22 + unat i * 4"
proof -
  have m: "unat (ucast i * 4 :: u32) = unat i * 4" using assms by (simp add: unat_word_ariths)
  then show a: "unat (14 + ucast i * 4 :: u32) = 14 + unat i * 4"
    using assms by (subst unat_add_small) simp_all
  then have b: "unat (14 + ucast i * 4 + 8 :: u32) = 22 + unat i * 4"
    using assms by (subst unat_add_small) simp_all
  show "unat (ucast (14 + ucast i * 4 :: u32) :: u16) = 14 + unat i * 4"
    "unat (ucast (14 + ucast i * 4 + 8 :: u32) :: u16) = 22 + unat i * 4"
    using a b assms by (simp_all add: unat_ucast_32_16)
qed

lemma parse_frame_ipv4_udp:
  assumes v: "valid_ipv4_udp mem eth (unat (ph_frame_len h))"
    and e: "ph_error_flags h = error_flags_zero"
  defines "h' \<equiv> parse_frame mem h eth" and "ihl \<equiv> unat (ODPH_IPV4HDR_IHL (mem (eth + 14)))"
  shows "ph_error_flags h' = error_flags_zero \<and> ph_l3_offset h' = 14 \<and>
    unat (ph_l4_offset h') = 14 + ihl * 4 \<and> unat (ph_payload_offset h') = 14 + ihl * 4 + 8 \<and>
    if_ipv4 (ph_input_flags h') \<and> if_udp (ph_input_flags h') \<and> ph_l4_protocol h' = 17"
proof -
  define ip where "ip = eth + 14"
  then have ip2: "14 + eth = ip" by simp
  let ?i = "ODPH_IPV4HDR_IHL (mem ip)"
  define udp where "udp = ip + ucast ?i * 4"
  let ?c = "\<lparr>cx_parseptr = ip, cx_offset = 14, cx_l3_len = 0, cx_l4_len = 0\<rparr>"
  let ?h = "set_if (\<lambda>f. f\<lparr>if_ipv4 := True\<rparr>) (set_if (\<lambda>f. f\<lparr>if_l3 := True\<rparr>) h
      \<lparr>ph_l3_offset := 14, ph_l3_protocol := ODPH_ETHTYPE_IPV4\<rparr>)"
  from v have w: "be16 mem (eth + 12) = ODPH_ETHTYPE_IPV4" "ODPH_IPV4HDR_VER (mem ip) = 4"
    "5 \<le> unat ?i" "mem (ip + 9) = ODPH_IPPROTO_UDP" "14 + unat (be16 mem (ip + 2)) \<le> unat (ph_frame_len ?h)"
    "8 \<le> unat (be16 mem (udp + 4))"
    "unat ?i * 4 + unat (be16 mem (udp + 4)) \<le> unat (be16 mem (ip + 2))"
    unfolding valid_ipv4_udp_def Let_def ip_def [symmetric] udp_def by simp_all
  obtain h1 where p4: "parse_ipv4 mem ?h ?c = (mem (ip + 9), h1,
       \<lparr>cx_parseptr = udp, cx_offset = 14 + ucast ?i * 4, cx_l3_len = be16 mem (ip + 2), cx_l4_len = 0\<rparr>)"
    and k: "l34_flags (ph_input_flags h1) = l34_flags (ph_input_flags ?h)"
      "ph_error_flags h1 = ph_error_flags ?h" "ph_l3_offset h1 = ph_l3_offset ?h"
    using parse_ipv4_ok [OF refl w(2,3,5)] unfolding udp_def by blast
  define c1 where "c1 = \<lparr>cx_parseptr = udp, cx_offset = 14 + ucast ?i * 4,
      cx_l3_len = be16 mem (ip + 2), cx_l4_len = 0\<rparr>"
  define h2 where "h2 = set_if (\<lambda>f. f\<lparr>if_udp := True\<rparr>) (set_if (\<lambda>f. f\<lparr>if_l4 := True\<rparr>) h1
      \<lparr>ph_l4_offset := ucast (14 + ucast ?i * 4 :: u32), ph_l4_protocol := ucast ODPH_IPPROTO_UDP\<rparr>)"
  note o4 = udp_offset [OF ihl_bound [of "mem ip"]]
  have u: "fst (parse_udp mem h2 c1) = h2" "cx_offset (snd (parse_udp mem h2 c1)) = 14 + ucast ?i * 4 + 8"
    using parse_udp_ok [of mem c1 h2] w(6,7) o4(2) k(3) by (simp_all add: c1_def h2_def)
  have l3: "parse_l3 mem (ODPH_ETHTYPE_IPV4, h,
      \<lparr>cx_parseptr = eth + 12, cx_offset = 14, cx_l3_len = 0, cx_l4_len = 0\<rparr>) = (mem (ip + 9), h1, c1)"
    using p4 by (simp add: parse_l3_def Let_def ip2 c1_def)
  have l4: "parse_l4 mem (mem (ip + 9), h1, c1) = parse_udp mem h2 c1"
    by (simp add: parse_l4_def Let_def w(4) h2_def c1_def parse_consts)
  have "h' = set_if (\<lambda>f. f\<lparr>if_parsed_all := True\<rparr>) (fst (parse_udp mem h2 c1)
      \<lparr>ph_payload_offset := ucast (cx_offset (snd (parse_udp mem h2 c1)))\<rparr>)"
    unfolding h'_def
    by (rule parse_frame_untagged [OF w(1)]) (simp_all add: l3 l4)
  then have h': "h' = set_if (\<lambda>f. f\<lparr>if_parsed_all := True\<rparr>)
      (h2\<lparr>ph_payload_offset := ucast (14 + ucast ?i * 4 + 8 :: u32)\<rparr>)"
    by (simp only: u)
  have "if_ipv4 (ph_input_flags h1)" using k(1) by (simp add: l34_flags_def)
  then show ?thesis
    using o4 k e unfolding h' ihl_def ip_def [symmetric] by (simp add: h2_def parse_consts)
qed

text \<open>An untagged IPv6 frame with a UDP datagram directly behind the IPv6 header, whose
  lengths are right: the UDP length is the payload length.\<close>

definition valid_ipv6_udp :: "(u32 \<Rightarrow> u8) \<Rightarrow> u32 \<Rightarrow> nat \<Rightarrow> bool" where
  "valid_ipv6_udp mem d frame_len \<longleftrightarrow>
     (let ip = d + 14; udp = ip + 40; payload_len = unat (be16 mem (ip + 4))
      in be16 mem (d + 12) = ODPH_ETHTYPE_IPV6 \<and> drop_bit 4 (mem ip) = 6 \<and>
         mem (ip + 6) = ODPH_IPPROTO_UDP \<and> be16 mem (udp + 4) = be16 mem (ip + 4) \<and>
         8 \<le> payload_len \<and> 14 + 40 + payload_len \<le> frame_len)"

lemma parse_frame_ipv6_udp:
  assumes v: "valid_ipv6_udp mem eth (unat (ph_frame_len h))" and big: "40 \<le> unat (be16 mem (eth + 18))"
  shows "ef_udp_err (ph_error_flags (parse_frame mem h eth))"
proof -
  define ip where "ip = eth + 14"
  then have ip2: "14 + eth = ip" by simp
  let ?c = "\<lparr>cx_parseptr = eth + 12, cx_offset = 14, cx_l3_len = 0, cx_l4_len = 0\<rparr>"
  let ?len = "be16 mem (ip + 4)"
  define h1 where "h1 = set_if (\<lambda>f. f\<lparr>if_ipv6 := True\<rparr>) (set_if (\<lambda>f. f\<lparr>if_l3 := True\<rparr>) h
      \<lparr>ph_l3_offset := 14, ph_l3_protocol := ODPH_ETHTYPE_IPV6\<rparr>)"
  from v have w: "be16 mem (eth + 12) = ODPH_ETHTYPE_IPV6" "drop_bit 4 (mem ip) = 6"
    "mem (ip + 6) = ODPH_IPPROTO_UDP" "be16 mem (ip + 40 + 4) = ?len"
    "54 + unat ?len \<le> unat (ph_frame_len h)"
    unfolding valid_ipv6_udp_def Let_def ip_def [symmetric] by simp_all
  have big': "40 \<le> unat ?len" using big by (simp add: ip_def ac_simps)
  have "unat (ucast (ph_frame_len h) - 14 :: u32) = unat (ph_frame_len h) - 14"
    using w(5) by (subst unat_sub_small) simp_all
  then have nlen: "\<not> ucast ?len > (ucast (ph_frame_len h) - 14 :: u32)"
    using w(5) by (simp add: u32_less)
  define c1 where "c1 = \<lparr>cx_parseptr = ip + 40, cx_offset = 54, cx_l3_len = ?len, cx_l4_len = 0\<rparr>"
  have "parse_l3 mem (ODPH_ETHTYPE_IPV6, h, ?c) =
      parse_ipv6 mem h1 \<lparr>cx_parseptr = ip, cx_offset = 14, cx_l3_len = 0, cx_l4_len = 0\<rparr>"
    by (simp add: parse_l3_def Let_def ip2 h1_def parse_consts)
  also have "\<dots> = (ODPH_IPPROTO_UDP, h1, c1)"
    using nlen w by (simp add: parse_ipv6_def Let_def c1_def h1_def is_ext_hdr_def parse_consts)
  finally have l3: "parse_l3 mem (ODPH_ETHTYPE_IPV6, h, ?c) = (ODPH_IPPROTO_UDP, h1, c1)" .
  define h2 where "h2 = set_if (\<lambda>f. f\<lparr>if_udp := True\<rparr>) (set_if (\<lambda>f. f\<lparr>if_l4 := True\<rparr>) h1
      \<lparr>ph_l4_offset := 54, ph_l4_protocol := ucast ODPH_IPPROTO_UDP\<rparr>)"
  have l4: "parse_l4 mem (ODPH_IPPROTO_UDP, h1, c1) = parse_udp mem h2 c1"
    by (simp add: parse_l4_def Let_def h2_def c1_def parse_consts)
  have "unat (ucast ?len + 14 - 54 :: u32) = unat ?len - 40"
    using big' u16_bound [of ?len] by (subst unat_sub_small; subst unat_add_small; simp)
  then have bad: "ucast ?len > (ucast ?len + 14 - 54 :: u32)"
    using big' by (simp add: u32_less)
  have "ef_udp_err (ph_error_flags (fst (parse_udp mem h2 c1)))"
    using bad w(4) by (simp add: parse_udp_def Let_def c1_def h2_def h1_def)
  moreover have "parse_frame mem h eth = set_if (\<lambda>f. f\<lparr>if_parsed_all := True\<rparr>) (fst (parse_udp mem h2 c1)
      \<lparr>ph_payload_offset := ucast (cx_offset (snd (parse_udp mem h2 c1)))\<rparr>)"
    by (rule parse_frame_untagged [OF w(1)]) (simp_all add: l3 l4)
  ultimately show ?thesis by simp
qed

lemma packet_parse_l2_fields [simp]:
  "ph_frame_len (packet_parse_l2 h) = ph_frame_len h" "ph_headroom (packet_parse_l2 h) = ph_headroom h"
  "ph_tailroom (packet_parse_l2 h) = ph_tailroom h" "ph_error_flags (packet_parse_l2 h) = ph_error_flags h"
  "bh_addr (packet_parse_l2 h) = bh_addr h" "bh_size (packet_parse_l2 h) = bh_size h"
  by (simp_all add: packet_parse_l2_def Let_def)

text \<open>A full parse reads the frame at the packet's data.\<close>

lemma packet_parse_full_frame:
  assumes "pkt_wf h"
  obtains h1 where "snd (packet_parse_full mem h) = parse_frame mem h1 (bh_addr h + ucast (ph_headroom h))"
    "ph_frame_len h1 = ph_frame_len h" "ph_error_flags h1 = ph_error_flags h"
proof -
  let ?h1 = "if \<not> if_parsed_l2 (ph_input_flags h) then packet_parse_l2 h else h"
  have wf: "pkt_wf ?h1" using assms by (simp add: pkt_wf_def)
  have "packet_map ?h1 0 = (bh_addr h + ucast (ph_headroom h), Some (ucast (ph_frame_len h)))"
    using packet_map_in [OF wf, of 0] by (simp add: u32_eq)
  then show ?thesis
    using that [of ?h1] by (simp add: packet_parse_full_def odp_parse_common_def Let_def)
qed

section \<open>Properties\<close>

text \<open>C13. Whatever the bytes of the frame, parsing a packet on which nothing is known
  above layer 2 gives coherent metadata: the parse is marked complete; a layer 3
  protocol is reported exactly when one of IPv4, IPv6 and ARP is, and only one of them;
  a layer 4 protocol is reported exactly when ICMP, TCP, UDP or IPsec is, together with
  IPv4 or IPv6 and the matching protocol number; offsets of absent layers are invalid;
  and the result says whether an error flag is set.\<close>

theorem packet_parse_coherent:
  assumes "l2_only h"
  shows "parse_coherent (snd (odp_parse_common mem h ptr)) \<and>
    (fst (odp_parse_common mem h ptr) \<longleftrightarrow>
       ph_error_flags (snd (odp_parse_common mem h ptr)) \<noteq> error_flags_zero)"
  using assms parse_frame_coherent packet_parse_l2_only by (simp add: odp_parse_common_def Let_def)

definition ipv4_udp_mem :: "u32 \<Rightarrow> u8" where
  "ipv4_udp_mem = (\<lambda>_. 0)(4172 := 8, 4174 := 0x45, 4177 := 40, 4183 := 17, 4199 := 20)"

lemma pkt_example_flags:
  "l2_only pkt_example" "ph_error_flags pkt_example = error_flags_zero"
  by (simp_all add: pkt_example_def packet_init_hdr_def packet_meta_clear_def packet_parse_disable_def
      l2_only_def l34_flags_def input_flags_zero_def Let_def)

theorem packet_parse_coherent_witness:
  "parse_coherent (snd (odp_parse_common ipv4_udp_mem pkt_example 0))"
  using packet_parse_coherent [OF pkt_example_flags(1)] by blast

text \<open>C36. A packet that holds a valid UDP datagram over IPv4 is parsed without error: the
  IPv4 header is found at offset 14, the UDP header behind the IPv4 header and its
  options, and the payload behind the UDP header.\<close>

theorem packet_parse_accepts_ipv4_udp:
  assumes "pkt_wf h" and "ph_error_flags h = error_flags_zero"
    and "valid_ipv4_udp mem (bh_addr h + ucast (ph_headroom h)) (unat (ph_frame_len h))"
  shows "let h' = snd (packet_parse_full mem h);
             ihl = unat (ODPH_IPV4HDR_IHL (mem (bh_addr h + ucast (ph_headroom h) + 14)))
         in ph_error_flags h' = error_flags_zero \<and> ph_l3_offset h' = 14 \<and>
            unat (ph_l4_offset h') = 14 + ihl * 4 \<and> unat (ph_payload_offset h') = 14 + ihl * 4 + 8 \<and>
            if_ipv4 (ph_input_flags h') \<and> if_udp (ph_input_flags h') \<and> ph_l4_protocol h' = 17"
proof -
  obtain h1 where h1: "snd (packet_parse_full mem h) =
      parse_frame mem h1 (bh_addr h + ucast (ph_headroom h))"
    "ph_frame_len h1 = ph_frame_len h" "ph_error_flags h1 = ph_error_flags h"
    by (rule packet_parse_full_frame [OF assms(1)])
  show ?thesis
    unfolding Let_def h1(1) by (rule parse_frame_ipv4_udp) (use assms h1 in simp_all)
qed

theorem packet_parse_accepts_ipv4_udp_witness:
  "let h' = snd (packet_parse_full ipv4_udp_mem pkt_example)
   in ph_error_flags h' = error_flags_zero \<and> unat (ph_l4_offset h') = 34 \<and>
      unat (ph_payload_offset h') = 42"
proof -
  have "valid_ipv4_udp ipv4_udp_mem (bh_addr pkt_example + ucast (ph_headroom pkt_example))
          (unat (ph_frame_len pkt_example))"
    by (simp add: valid_ipv4_udp_def Let_def pkt_example_ok be16_def ipv4_udp_mem_def parse_consts
        ODPH_IPV4HDR_IHL_def ODPH_IPV4HDR_VER_def)
  from packet_parse_accepts_ipv4_udp [OF pkt_example_ok(1) pkt_example_flags(2) this]
  show ?thesis
    by (simp add: Let_def pkt_example_ok ipv4_udp_mem_def ODPH_IPV4HDR_IHL_def)
qed

text \<open>Every valid UDP datagram of at least 40 bytes carried directly by IPv6 is
  reported as a UDP error: the parser takes the payload length of IPv6, which does not
  count the 40-byte header, for the length of the whole IP packet.\<close>

lemma packet_parse_rejects_ipv6_udp:
  assumes "pkt_wf h"
    and "valid_ipv6_udp mem (bh_addr h + ucast (ph_headroom h)) (unat (ph_frame_len h))"
    and "40 \<le> unat (be16 mem (bh_addr h + ucast (ph_headroom h) + 18))"
  shows "ef_udp_err (ph_error_flags (snd (packet_parse_full mem h)))"
proof -
  obtain h1 where h1: "snd (packet_parse_full mem h) =
      parse_frame mem h1 (bh_addr h + ucast (ph_headroom h))"
    "ph_frame_len h1 = ph_frame_len h"
    by (rule packet_parse_full_frame [OF assms(1)])
  show ?thesis
    unfolding h1(1) by (rule parse_frame_ipv6_udp) (use assms h1 in simp_all)
qed

end
