(* ===== verification/Odp_Packet_Flags.thy ===== *)
theory Odp_Packet_Flags
  imports Odp_Packet_Parse
begin

text \<open>
  The packet flag accessors (\<open>platform/linux-generic/odp_packet_flags.c\<close>). Most of them
  parse the packet on demand: the model returns the header the call leaves behind
  beside the value. A flag argument is a C integer of which the lowest bit counts.
\<close>

section \<open>Accessors\<close>

definition retflag ::
  "(u32 \<Rightarrow> u8) \<Rightarrow> odp_packet_hdr_t \<Rightarrow> (input_flags_t \<Rightarrow> bool) \<Rightarrow> bool \<times> odp_packet_hdr_t" where
  "retflag mem h x = (let h = packet_parse_lazy mem h in (x (ph_input_flags h), h))"

definition setflag ::
  "(u32 \<Rightarrow> u8) \<Rightarrow> odp_packet_hdr_t \<Rightarrow> ((bool \<Rightarrow> bool) \<Rightarrow> input_flags_t \<Rightarrow> input_flags_t) \<Rightarrow> int \<Rightarrow>
   odp_packet_hdr_t" where
  "setflag mem h upd v =
     (let h = packet_parse_lazy mem h in h\<lparr>ph_input_flags := upd (\<lambda>_. odd v) (ph_input_flags h)\<rparr>)"

definition odp_packet_has_error ::
  "(u32 \<Rightarrow> u8) \<Rightarrow> odp_packet_hdr_t \<Rightarrow> bool \<times> odp_packet_hdr_t" where
  "odp_packet_has_error mem h =
     (let h = packet_parse_lazy mem h in (ph_error_flags h \<noteq> error_flags_zero, h))"

definition odp_packet_has_l2 :: "odp_packet_hdr_t \<Rightarrow> bool" where
  "odp_packet_has_l2 h = if_l2 (ph_input_flags h)"

definition odp_packet_has_l3 :: "(u32 \<Rightarrow> u8) \<Rightarrow> odp_packet_hdr_t \<Rightarrow> bool \<times> odp_packet_hdr_t" where
  "odp_packet_has_l3 mem h = retflag mem h if_l3"

definition odp_packet_has_l4 :: "(u32 \<Rightarrow> u8) \<Rightarrow> odp_packet_hdr_t \<Rightarrow> bool \<times> odp_packet_hdr_t" where
  "odp_packet_has_l4 mem h = retflag mem h if_l4"

definition odp_packet_has_eth :: "odp_packet_hdr_t \<Rightarrow> bool" where
  "odp_packet_has_eth h = if_eth (ph_input_flags h)"

definition odp_packet_has_jumbo :: "odp_packet_hdr_t \<Rightarrow> bool" where
  "odp_packet_has_jumbo h = if_jumbo (ph_input_flags h)"

definition odp_packet_has_vlan :: "(u32 \<Rightarrow> u8) \<Rightarrow> odp_packet_hdr_t \<Rightarrow> bool \<times> odp_packet_hdr_t" where
  "odp_packet_has_vlan mem h = retflag mem h if_vlan"

definition odp_packet_has_vlan_qinq :: "(u32 \<Rightarrow> u8) \<Rightarrow> odp_packet_hdr_t \<Rightarrow> bool \<times> odp_packet_hdr_t" where
  "odp_packet_has_vlan_qinq mem h = retflag mem h if_vlan_qinq"

definition odp_packet_has_arp :: "(u32 \<Rightarrow> u8) \<Rightarrow> odp_packet_hdr_t \<Rightarrow> bool \<times> odp_packet_hdr_t" where
  "odp_packet_has_arp mem h = retflag mem h if_arp"

definition odp_packet_has_ipv4 :: "(u32 \<Rightarrow> u8) \<Rightarrow> odp_packet_hdr_t \<Rightarrow> bool \<times> odp_packet_hdr_t" where
  "odp_packet_has_ipv4 mem h = retflag mem h if_ipv4"

definition odp_packet_has_ipv6 :: "(u32 \<Rightarrow> u8) \<Rightarrow> odp_packet_hdr_t \<Rightarrow> bool \<times> odp_packet_hdr_t" where
  "odp_packet_has_ipv6 mem h = retflag mem h if_ipv6"

definition odp_packet_has_ipfrag :: "(u32 \<Rightarrow> u8) \<Rightarrow> odp_packet_hdr_t \<Rightarrow> bool \<times> odp_packet_hdr_t" where
  "odp_packet_has_ipfrag mem h = retflag mem h if_ipfrag"

definition odp_packet_has_ipopt :: "(u32 \<Rightarrow> u8) \<Rightarrow> odp_packet_hdr_t \<Rightarrow> bool \<times> odp_packet_hdr_t" where
  "odp_packet_has_ipopt mem h = retflag mem h if_ipopt"

definition odp_packet_has_ipsec :: "(u32 \<Rightarrow> u8) \<Rightarrow> odp_packet_hdr_t \<Rightarrow> bool \<times> odp_packet_hdr_t" where
  "odp_packet_has_ipsec mem h = retflag mem h if_ipsec"

definition odp_packet_has_udp :: "(u32 \<Rightarrow> u8) \<Rightarrow> odp_packet_hdr_t \<Rightarrow> bool \<times> odp_packet_hdr_t" where
  "odp_packet_has_udp mem h = retflag mem h if_udp"

definition odp_packet_has_tcp :: "(u32 \<Rightarrow> u8) \<Rightarrow> odp_packet_hdr_t \<Rightarrow> bool \<times> odp_packet_hdr_t" where
  "odp_packet_has_tcp mem h = retflag mem h if_tcp"

definition odp_packet_has_sctp :: "(u32 \<Rightarrow> u8) \<Rightarrow> odp_packet_hdr_t \<Rightarrow> bool \<times> odp_packet_hdr_t" where
  "odp_packet_has_sctp mem h = retflag mem h if_sctp"

definition odp_packet_has_icmp :: "(u32 \<Rightarrow> u8) \<Rightarrow> odp_packet_hdr_t \<Rightarrow> bool \<times> odp_packet_hdr_t" where
  "odp_packet_has_icmp mem h = retflag mem h if_icmp"

definition odp_packet_has_flow_hash :: "odp_packet_hdr_t \<Rightarrow> bool" where
  "odp_packet_has_flow_hash h = ph_has_hash h"

definition odp_packet_has_l2_set :: "(u32 \<Rightarrow> u8) \<Rightarrow> odp_packet_hdr_t \<Rightarrow> int \<Rightarrow> odp_packet_hdr_t" where
  "odp_packet_has_l2_set mem h val = setflag mem h if_l2_update val"

definition odp_packet_has_l3_set :: "(u32 \<Rightarrow> u8) \<Rightarrow> odp_packet_hdr_t \<Rightarrow> int \<Rightarrow> odp_packet_hdr_t" where
  "odp_packet_has_l3_set mem h val = setflag mem h if_l3_update val"

definition odp_packet_has_l4_set :: "(u32 \<Rightarrow> u8) \<Rightarrow> odp_packet_hdr_t \<Rightarrow> int \<Rightarrow> odp_packet_hdr_t" where
  "odp_packet_has_l4_set mem h val = setflag mem h if_l4_update val"

definition odp_packet_has_eth_set :: "(u32 \<Rightarrow> u8) \<Rightarrow> odp_packet_hdr_t \<Rightarrow> int \<Rightarrow> odp_packet_hdr_t" where
  "odp_packet_has_eth_set mem h val = setflag mem h if_eth_update val"

definition odp_packet_has_jumbo_set :: "(u32 \<Rightarrow> u8) \<Rightarrow> odp_packet_hdr_t \<Rightarrow> int \<Rightarrow> odp_packet_hdr_t" where
  "odp_packet_has_jumbo_set mem h val = setflag mem h if_jumbo_update val"

definition odp_packet_has_vlan_set :: "(u32 \<Rightarrow> u8) \<Rightarrow> odp_packet_hdr_t \<Rightarrow> int \<Rightarrow> odp_packet_hdr_t" where
  "odp_packet_has_vlan_set mem h val = setflag mem h if_vlan_update val"

definition odp_packet_has_vlan_qinq_set :: "(u32 \<Rightarrow> u8) \<Rightarrow> odp_packet_hdr_t \<Rightarrow> int \<Rightarrow> odp_packet_hdr_t" where
  "odp_packet_has_vlan_qinq_set mem h val = setflag mem h if_vlan_qinq_update val"

definition odp_packet_has_arp_set :: "(u32 \<Rightarrow> u8) \<Rightarrow> odp_packet_hdr_t \<Rightarrow> int \<Rightarrow> odp_packet_hdr_t" where
  "odp_packet_has_arp_set mem h val = setflag mem h if_arp_update val"

definition odp_packet_has_ipv4_set :: "(u32 \<Rightarrow> u8) \<Rightarrow> odp_packet_hdr_t \<Rightarrow> int \<Rightarrow> odp_packet_hdr_t" where
  "odp_packet_has_ipv4_set mem h val = setflag mem h if_ipv4_update val"

definition odp_packet_has_ipv6_set :: "(u32 \<Rightarrow> u8) \<Rightarrow> odp_packet_hdr_t \<Rightarrow> int \<Rightarrow> odp_packet_hdr_t" where
  "odp_packet_has_ipv6_set mem h val = setflag mem h if_ipv6_update val"

definition odp_packet_has_ipfrag_set :: "(u32 \<Rightarrow> u8) \<Rightarrow> odp_packet_hdr_t \<Rightarrow> int \<Rightarrow> odp_packet_hdr_t" where
  "odp_packet_has_ipfrag_set mem h val = setflag mem h if_ipfrag_update val"

definition odp_packet_has_ipopt_set :: "(u32 \<Rightarrow> u8) \<Rightarrow> odp_packet_hdr_t \<Rightarrow> int \<Rightarrow> odp_packet_hdr_t" where
  "odp_packet_has_ipopt_set mem h val = setflag mem h if_ipopt_update val"

definition odp_packet_has_ipsec_set :: "(u32 \<Rightarrow> u8) \<Rightarrow> odp_packet_hdr_t \<Rightarrow> int \<Rightarrow> odp_packet_hdr_t" where
  "odp_packet_has_ipsec_set mem h val = setflag mem h if_ipsec_update val"

definition odp_packet_has_udp_set :: "(u32 \<Rightarrow> u8) \<Rightarrow> odp_packet_hdr_t \<Rightarrow> int \<Rightarrow> odp_packet_hdr_t" where
  "odp_packet_has_udp_set mem h val = setflag mem h if_udp_update val"

definition odp_packet_has_tcp_set :: "(u32 \<Rightarrow> u8) \<Rightarrow> odp_packet_hdr_t \<Rightarrow> int \<Rightarrow> odp_packet_hdr_t" where
  "odp_packet_has_tcp_set mem h val = setflag mem h if_tcp_update val"

definition odp_packet_has_sctp_set :: "(u32 \<Rightarrow> u8) \<Rightarrow> odp_packet_hdr_t \<Rightarrow> int \<Rightarrow> odp_packet_hdr_t" where
  "odp_packet_has_sctp_set mem h val = setflag mem h if_sctp_update val"

definition odp_packet_has_icmp_set :: "(u32 \<Rightarrow> u8) \<Rightarrow> odp_packet_hdr_t \<Rightarrow> int \<Rightarrow> odp_packet_hdr_t" where
  "odp_packet_has_icmp_set mem h val = setflag mem h if_icmp_update val"

definition odp_packet_has_flow_hash_clr :: "odp_packet_hdr_t \<Rightarrow> odp_packet_hdr_t" where
  "odp_packet_has_flow_hash_clr h = h\<lparr>ph_has_hash := False\<rparr>"

section \<open>The accessors by flag\<close>

datatype pkt_flag = F_l2 | F_l3 | F_l4 | F_eth | F_jumbo | F_vlan | F_vlan_qinq | F_arp | F_ipv4 | F_ipv6 | F_ipfrag | F_ipopt | F_ipsec | F_udp | F_tcp | F_sctp | F_icmp

fun flag_of :: "pkt_flag \<Rightarrow> input_flags_t \<Rightarrow> bool" where
  "flag_of F_l2 = if_l2"
| "flag_of F_l3 = if_l3"
| "flag_of F_l4 = if_l4"
| "flag_of F_eth = if_eth"
| "flag_of F_jumbo = if_jumbo"
| "flag_of F_vlan = if_vlan"
| "flag_of F_vlan_qinq = if_vlan_qinq"
| "flag_of F_arp = if_arp"
| "flag_of F_ipv4 = if_ipv4"
| "flag_of F_ipv6 = if_ipv6"
| "flag_of F_ipfrag = if_ipfrag"
| "flag_of F_ipopt = if_ipopt"
| "flag_of F_ipsec = if_ipsec"
| "flag_of F_udp = if_udp"
| "flag_of F_tcp = if_tcp"
| "flag_of F_sctp = if_sctp"
| "flag_of F_icmp = if_icmp"

fun flag_has :: "(u32 \<Rightarrow> u8) \<Rightarrow> pkt_flag \<Rightarrow> odp_packet_hdr_t \<Rightarrow> bool \<times> odp_packet_hdr_t" where
  "flag_has mem F_l2 h = (odp_packet_has_l2 h, h)"
| "flag_has mem F_l3 h = odp_packet_has_l3 mem h"
| "flag_has mem F_l4 h = odp_packet_has_l4 mem h"
| "flag_has mem F_eth h = (odp_packet_has_eth h, h)"
| "flag_has mem F_jumbo h = (odp_packet_has_jumbo h, h)"
| "flag_has mem F_vlan h = odp_packet_has_vlan mem h"
| "flag_has mem F_vlan_qinq h = odp_packet_has_vlan_qinq mem h"
| "flag_has mem F_arp h = odp_packet_has_arp mem h"
| "flag_has mem F_ipv4 h = odp_packet_has_ipv4 mem h"
| "flag_has mem F_ipv6 h = odp_packet_has_ipv6 mem h"
| "flag_has mem F_ipfrag h = odp_packet_has_ipfrag mem h"
| "flag_has mem F_ipopt h = odp_packet_has_ipopt mem h"
| "flag_has mem F_ipsec h = odp_packet_has_ipsec mem h"
| "flag_has mem F_udp h = odp_packet_has_udp mem h"
| "flag_has mem F_tcp h = odp_packet_has_tcp mem h"
| "flag_has mem F_sctp h = odp_packet_has_sctp mem h"
| "flag_has mem F_icmp h = odp_packet_has_icmp mem h"

fun flag_set :: "(u32 \<Rightarrow> u8) \<Rightarrow> pkt_flag \<Rightarrow> int \<Rightarrow> odp_packet_hdr_t \<Rightarrow> odp_packet_hdr_t" where
  "flag_set mem F_l2 v h = odp_packet_has_l2_set mem h v"
| "flag_set mem F_l3 v h = odp_packet_has_l3_set mem h v"
| "flag_set mem F_l4 v h = odp_packet_has_l4_set mem h v"
| "flag_set mem F_eth v h = odp_packet_has_eth_set mem h v"
| "flag_set mem F_jumbo v h = odp_packet_has_jumbo_set mem h v"
| "flag_set mem F_vlan v h = odp_packet_has_vlan_set mem h v"
| "flag_set mem F_vlan_qinq v h = odp_packet_has_vlan_qinq_set mem h v"
| "flag_set mem F_arp v h = odp_packet_has_arp_set mem h v"
| "flag_set mem F_ipv4 v h = odp_packet_has_ipv4_set mem h v"
| "flag_set mem F_ipv6 v h = odp_packet_has_ipv6_set mem h v"
| "flag_set mem F_ipfrag v h = odp_packet_has_ipfrag_set mem h v"
| "flag_set mem F_ipopt v h = odp_packet_has_ipopt_set mem h v"
| "flag_set mem F_ipsec v h = odp_packet_has_ipsec_set mem h v"
| "flag_set mem F_udp v h = odp_packet_has_udp_set mem h v"
| "flag_set mem F_tcp v h = odp_packet_has_tcp_set mem h v"
| "flag_set mem F_sctp v h = odp_packet_has_sctp_set mem h v"
| "flag_set mem F_icmp v h = odp_packet_has_icmp_set mem h v"

lemmas has_defs =
  odp_packet_has_l2_def odp_packet_has_l3_def odp_packet_has_l4_def
  odp_packet_has_eth_def odp_packet_has_jumbo_def odp_packet_has_vlan_def
  odp_packet_has_vlan_qinq_def odp_packet_has_arp_def odp_packet_has_ipv4_def
  odp_packet_has_ipv6_def odp_packet_has_ipfrag_def odp_packet_has_ipopt_def
  odp_packet_has_ipsec_def odp_packet_has_udp_def odp_packet_has_tcp_def
  odp_packet_has_sctp_def odp_packet_has_icmp_def

lemmas set_defs =
  odp_packet_has_l2_set_def odp_packet_has_l3_set_def odp_packet_has_l4_set_def
  odp_packet_has_eth_set_def odp_packet_has_jumbo_set_def odp_packet_has_vlan_set_def
  odp_packet_has_vlan_qinq_set_def odp_packet_has_arp_set_def odp_packet_has_ipv4_set_def
  odp_packet_has_ipv6_set_def odp_packet_has_ipfrag_set_def odp_packet_has_ipopt_set_def
  odp_packet_has_ipsec_set_def odp_packet_has_udp_set_def odp_packet_has_tcp_set_def
  odp_packet_has_sctp_set_def odp_packet_has_icmp_set_def

section \<open>The parser keeps the layer 2 flags\<close>

definition l2_flags :: "odp_packet_hdr_t \<Rightarrow> bool list" where
  "l2_flags h = [if_parsed_l2 (ph_input_flags h), if_l2 (ph_input_flags h), if_eth (ph_input_flags h),
     if_jumbo (ph_input_flags h)]"

lemma l2_flags_upd [simp]:
  "l2_flags (h\<lparr>ph_error_flags := e\<rparr>) = l2_flags h" "l2_flags (h\<lparr>ph_l3_offset := a\<rparr>) = l2_flags h"
  "l2_flags (h\<lparr>ph_l3_protocol := a\<rparr>) = l2_flags h" "l2_flags (h\<lparr>ph_l4_offset := a\<rparr>) = l2_flags h"
  "l2_flags (h\<lparr>ph_l4_protocol := a\<rparr>) = l2_flags h" "l2_flags (h\<lparr>ph_payload_offset := a\<rparr>) = l2_flags h"
  "l2_flags (h\<lparr>ph_vlan_s_tag := a\<rparr>) = l2_flags h" "l2_flags (h\<lparr>ph_vlan_c_tag := a\<rparr>) = l2_flags h"
  by (simp_all add: l2_flags_def)

lemma parse_l2_flags:
  "l2_flags (fst (snd (parse_vlan_outer mem (e, h, c)))) = l2_flags h"
  "l2_flags (fst (snd (parse_vlan_inner mem (e, h, c)))) = l2_flags h"
  "l2_flags (fst (parse_snap mem (e, h, c))) = l2_flags h"
  "snd (parse_snap mem (e, h, c)) = Some (e', h', c') \<Longrightarrow> l2_flags h' = l2_flags h"
  by (auto simp: parse_vlan_outer_def parse_vlan_inner_def parse_snap_def Let_def l2_flags_def
      split: if_splits)

lemma parse_ipv4_l2_flags: "l2_flags (fst (snd (parse_ipv4 mem h c))) = l2_flags h"
  by (simp add: parse_ipv4_def Let_def l2_flags_def)

lemma parse_ipv6_l2_flags: "l2_flags (fst (snd (parse_ipv6 mem h c))) = l2_flags h"
  by (simp add: parse_ipv6_def Let_def l2_flags_def split: prod.split)

lemma parse_l3_l2_flags: "l2_flags (fst (snd (parse_l3 mem (e, h, c)))) = l2_flags h"
  by (simp add: parse_l3_def Let_def parse_ipv4_l2_flags parse_ipv6_l2_flags) (simp add: l2_flags_def)

lemma parse_l4_l2_flags: "l2_flags (fst (parse_l4 mem (p, h, c))) = l2_flags h"
  by (simp add: parse_l4_def parse_tcp_def parse_udp_def Let_def l2_flags_def)

lemma parse_frame_keeps:
  assumes "\<And>e h c. g (fst (snd (parse_vlan_outer mem (e, h, c)))) = g h"
    and "\<And>e h c. g (fst (snd (parse_vlan_inner mem (e, h, c)))) = g h"
    and "\<And>e h c. g (fst (parse_snap mem (e, h, c))) = g h"
    and "\<And>e h c e' h' c'. snd (parse_snap mem (e, h, c)) = Some (e', h', c') \<Longrightarrow> g h' = g h"
    and "\<And>e h c. g (fst (snd (parse_l3 mem (e, h, c)))) = g h" and "\<And>p h c. g (fst (parse_l4 mem (p, h, c))) = g h"
    and "\<And>h. g (set_if (\<lambda>f. f\<lparr>if_parsed_all := True\<rparr>) h) = g h" and "\<And>h a. g (h\<lparr>ph_payload_offset := a\<rparr>) = g h"
  shows "g (parse_frame mem h eth) = g h"
proof -
  define c1 where "c1 = \<lparr>cx_parseptr = eth + 12, cx_offset = 14, cx_l3_len = 0, cx_l4_len = 0\<rparr>"
  obtain e2 h2 c2 where o: "parse_vlan_outer mem (be16 mem (cx_parseptr c1), h, c1) = (e2, h2, c2)"
    by (rule prod_cases3)
  obtain e3 h3 c3 where i: "parse_vlan_inner mem (e2, h2, c2) = (e3, h3, c3)" by (rule prod_cases3)
  obtain h4 r where s: "parse_snap mem (e3, h3, c3) = (h4, r)" by (rule prod.exhaust)
  have keep: "g h4 = g h" "\<And>e h' c. r = Some (e, h', c) \<Longrightarrow> g h' = g h"
    using assms(1) [of "be16 mem (cx_parseptr c1)" h c1] assms(2) [of e2 h2 c2]
      assms(3) [of e3 h3 c3] assms(4) [of e3 h3 c3] o i s by auto
  have eq: "parse_frame mem h eth =
    set_if (\<lambda>f. f\<lparr>if_parsed_all := True\<rparr>)
      (case r of None \<Rightarrow> h4
       | Some st \<Rightarrow> let (h, ctx) = parse_l4 mem (parse_l3 mem st)
                  in h\<lparr>ph_payload_offset := ucast (cx_offset ctx)\<rparr>)"
    unfolding parse_frame_def Let_def c1_def [symmetric] o i s by simp
  show ?thesis
  proof (cases r)
    case None
    with keep(1) show ?thesis using assms(7) [of h4] unfolding eq by simp
  next
    case (Some st)
    obtain e h5 c5 where st: "st = (e, h5, c5)" by (rule prod_cases3)
    obtain p h6 c6 where l3: "parse_l3 mem st = (p, h6, c6)" by (rule prod_cases3)
    obtain h7 c7 where l4: "parse_l4 mem (p, h6, c6) = (h7, c7)" by (rule prod.exhaust)
    have "g h7 = g h"
      using assms(6) [of p h6 c6] assms(5) [of e h5 c5] l3 l4 st keep(2) Some by simp
    then show ?thesis using assms(7) [of "h7\<lparr>ph_payload_offset := ucast (cx_offset c7)\<rparr>"] assms(8) [of "ucast (cx_offset c7)" h7]
      unfolding eq Some by (simp add: l3 l4)
  qed
qed

lemma parse_frame_l2_flags: "l2_flags (parse_frame mem h eth) = l2_flags h"
proof (rule parse_frame_keeps)
  show "l2_flags h' = l2_flags h" if "snd (parse_snap mem (e, h, c)) = Some (e', h', c')" for e h c e' h' c'
    by (rule parse_l2_flags(4) [OF that])
  show "l2_flags (set_if (\<lambda>f. f\<lparr>if_parsed_all := True\<rparr>) h) = l2_flags h" for h by (simp add: l2_flags_def)
qed (simp_all add: parse_l2_flags parse_l3_l2_flags parse_l4_l2_flags)

text \<open>The parser keeps the buffer part of the header and what the pool and the free calls look at.\<close>

definition buf_part :: "odp_packet_hdr_t \<Rightarrow> odp_buffer_hdr_t \<times> u16 \<times> u16 \<times> u16 \<times> u32 \<times> u32" where
  "buf_part h = (odp_buffer_hdr_t.truncate h, ph_frame_len h, ph_headroom h, ph_tailroom h, ph_input h, ph_nofree h)"

lemma buf_part_upd [simp]:
  "buf_part (h\<lparr>ph_input_flags := f\<rparr>) = buf_part h" "buf_part (h\<lparr>ph_error_flags := e\<rparr>) = buf_part h"
  "buf_part (h\<lparr>ph_l3_offset := a\<rparr>) = buf_part h" "buf_part (h\<lparr>ph_l3_protocol := a\<rparr>) = buf_part h"
  "buf_part (h\<lparr>ph_l4_offset := a\<rparr>) = buf_part h" "buf_part (h\<lparr>ph_l4_protocol := a\<rparr>) = buf_part h"
  "buf_part (h\<lparr>ph_payload_offset := a\<rparr>) = buf_part h" "buf_part (h\<lparr>ph_vlan_s_tag := a\<rparr>) = buf_part h"
  "buf_part (h\<lparr>ph_vlan_c_tag := a\<rparr>) = buf_part h" "buf_part (h\<lparr>ph_l2_offset := a\<rparr>) = buf_part h"
  "buf_part (h\<lparr>ph_output_flags := g\<rparr>) = buf_part h"
  by (simp_all add: buf_part_def odp_buffer_hdr_t.truncate_def)

lemma parse_ip_buf_part:
  "buf_part (fst (snd (parse_ipv4 mem h c))) = buf_part h" "buf_part (fst (snd (parse_ipv6 mem h c))) = buf_part h"
  by (simp_all add: parse_ipv4_def parse_ipv6_def Let_def split: prod.split)

lemma parse_frame_buf_part: "buf_part (parse_frame mem h eth) = buf_part h"
proof (rule parse_frame_keeps)
  show "buf_part (fst (snd (parse_l3 mem (e, h, c)))) = buf_part h" for e h c
    by (simp add: parse_l3_def Let_def parse_ip_buf_part)
  show "buf_part h' = buf_part h" if "snd (parse_snap mem (e, h, c)) = Some (e', h', c')" for e h c e' h' c'
    using that by (auto simp: parse_snap_def Let_def split: if_splits)
qed (simp_all add: parse_vlan_outer_def parse_vlan_inner_def parse_snap_def parse_l4_def parse_tcp_def parse_udp_def Let_def)

lemma parse_lazy_buf_part [simp]: "buf_part (packet_parse_lazy mem h) = buf_part h"
  by (simp add: packet_parse_lazy_def packet_parse_full_def odp_parse_common_def Let_def parse_frame_buf_part)
    (simp add: packet_parse_l2_def Let_def)

lemma parse_lazy_l2_flags:
  assumes "if_parsed_l2 (ph_input_flags h)"
  shows "l2_flags (packet_parse_lazy mem h) = l2_flags h"
  using assms by (simp add: packet_parse_lazy_def packet_parse_full_def odp_parse_common_def Let_def
      parse_frame_l2_flags)

lemma parse_lazy_complete: "if_parsed_all (ph_input_flags (packet_parse_lazy mem h))"
  by (simp add: packet_parse_lazy_def packet_parse_full_def odp_parse_common_def parse_frame_def Let_def)

lemma parse_lazy_idem [simp]: "packet_parse_lazy mem (packet_parse_lazy mem h) = packet_parse_lazy mem h"
  by (subst packet_parse_lazy_def) (simp add: parse_lazy_complete)

lemma flag_has_value:
  assumes "if_parsed_l2 (ph_input_flags h)"
  shows "fst (flag_has mem f h) = flag_of f (ph_input_flags (packet_parse_lazy mem h))"
proof -
  note l2 = parse_lazy_l2_flags [OF assms, of mem, unfolded l2_flags_def, simplified]
  show ?thesis by (cases f) (simp_all add: has_defs retflag_def Let_def l2)
qed

lemma flag_has_state: "snd (flag_has mem f h) = h \<or> snd (flag_has mem f h) = packet_parse_lazy mem h"
  by (cases f) (simp_all add: has_defs retflag_def Let_def)

lemma flag_set_flag:
  "flag_of g (ph_input_flags (flag_set mem f v h)) =
   (if g = f then odd v else flag_of g (ph_input_flags (packet_parse_lazy mem h)))"
  by (cases f) (cases g; simp add: set_defs setflag_def Let_def)+

lemma flag_set_parsed:
  "if_parsed_all (ph_input_flags (flag_set mem f v h))"
  "if_parsed_l2 (ph_input_flags (flag_set mem f v h)) =
     if_parsed_l2 (ph_input_flags (packet_parse_lazy mem h))"
  by (cases f; simp add: set_defs setflag_def Let_def parse_lazy_complete)+

section \<open>Properties\<close>

text \<open>C32. On a packet whose layer 2 has been parsed, the order in which the flags are
  queried does not matter and parsing on demand cannot be observed: any sequence of
  queries answers with the flags of the completely parsed packet.\<close>

theorem packet_flags_lazy:
  assumes "if_parsed_l2 (ph_input_flags h)"
  shows "fst (steps (flag_has mem) fs h) =
    map (\<lambda>f. flag_of f (ph_input_flags (packet_parse_lazy mem h))) fs"
  using assms
proof (induction fs arbitrary: h)
  case (Cons f fs)
  let ?h = "snd (flag_has mem f h)"
  have l2: "if_parsed_l2 (ph_input_flags (packet_parse_lazy mem h))"
    using parse_lazy_l2_flags [OF Cons.prems, of mem] Cons.prems by (simp add: l2_flags_def)
  have "packet_parse_lazy mem ?h = packet_parse_lazy mem h" "if_parsed_l2 (ph_input_flags ?h)"
    using flag_has_state [of mem f h] Cons.prems l2 by auto
  with Cons.IH [of ?h] flag_has_value [OF Cons.prems, of mem f] show ?case
    by (cases "flag_has mem f h"; cases "steps (flag_has mem) fs ?h") simp
qed simp

theorem packet_flags_lazy_witness:
  "fst (steps (flag_has ipv4_udp_mem) [F_l2, F_udp, F_arp] (packet_parse_l2 pkt_example)) =
   map (\<lambda>f. flag_of f (ph_input_flags (packet_parse_lazy ipv4_udp_mem (packet_parse_l2 pkt_example))))
     [F_l2, F_udp, F_arp]"
  by (rule packet_flags_lazy) (simp add: packet_parse_l2_def Let_def)

text \<open>Setting a flag of a packet whose layer 2 has been parsed makes later queries of
  that flag answer the value set, and leaves the answer to every other query as it was.\<close>

lemma packet_flag_set_get:
  assumes "if_parsed_l2 (ph_input_flags h)"
  shows "fst (flag_has mem g (flag_set mem f v h)) = (if g = f then odd v else fst (flag_has mem g h))"
proof -
  have l2: "if_parsed_l2 (ph_input_flags (flag_set mem f v h))"
    using parse_lazy_l2_flags [OF assms, of mem] assms by (simp add: flag_set_parsed l2_flags_def)
  have "packet_parse_lazy mem (flag_set mem f v h) = flag_set mem f v h"
    by (simp add: packet_parse_lazy_def flag_set_parsed)
  then show ?thesis
    using flag_has_value [OF l2, of mem g] flag_has_value [OF assms, of mem g] by (simp add: flag_set_flag)
qed

end
