(* ===== verification/Odp_Packet.thy ===== *)
theory Odp_Packet
  imports Odp_Pool Odp_Packet_Flags
begin

text \<open>
  Packets over pools (\<open>platform/mppa/odp_packet.c\<close>): allocation, release, insertion and
  removal of data, copies. The state is the pool table; a packet is the address of its
  header. The parameter \<open>nofree\<close> is \<open>odp_global_data.enable_pkt_nofree\<close>.
\<close>

section \<open>Allocation and release\<close>

definition ODP_PKTIO_INVALID :: u32 where "ODP_PKTIO_INVALID = 0"

definition alloc_pkt_init :: "pool_entry_s \<Rightarrow> u32 \<Rightarrow> u32 \<Rightarrow> u32 \<Rightarrow> odp_mem \<Rightarrow> odp_mem" where
  "alloc_pkt_init pool len pkt_size pkt m =
     (let m = packet_init pool m pkt pkt_size False
      in if len = 0 then upd_hdr pkt (\<lambda>h. pull_tail h pkt_size) m else m)"

definition odp_packet_alloc :: "pool_table \<Rightarrow> nat \<Rightarrow> u32 \<Rightarrow> (u32 \<times> pool_table) option" where
  "odp_packet_alloc t i len =
     (let pool = pt_pool t ! i;
          pkt_size = (if len \<noteq> 0 then len else pp_size (pl_params pool))
      in if pp_type (pl_params pool) \<noteq> ODP_POOL_PACKET then Some (0, t)
         else do {
           (r, t) \<leftarrow> pool_alloc t i pkt_size 1;
           case r of
             Some [pkt] \<Rightarrow> Some (pkt, t\<lparr>pt_mem := alloc_pkt_init (pt_pool t ! i) len pkt_size pkt (pt_mem t)\<rparr>)
           | _ \<Rightarrow> Some (0, t)
         })"

text \<open>\<open>None\<close> in the list position is the return value \<open>-1\<close>.\<close>

definition odp_packet_alloc_multi ::
  "pool_table \<Rightarrow> nat \<Rightarrow> u32 \<Rightarrow> nat \<Rightarrow> (u32 list option \<times> pool_table) option" where
  "odp_packet_alloc_multi t i len num =
     (let pool = pt_pool t ! i;
          pkt_size = (if len \<noteq> 0 then len else pp_size (pl_params pool))
      in if pp_type (pl_params pool) \<noteq> ODP_POOL_PACKET then Some (None, t)
         else do {
           (r, t) \<leftarrow> pool_alloc t i pkt_size num;
           Some (r, t\<lparr>pt_mem := fold (alloc_pkt_init (pt_pool t ! i) len pkt_size)
                                    (case r of Some pkts \<Rightarrow> pkts | None \<Rightarrow> []) (pt_mem t)\<rparr>)
         })"

text \<open>The decrement of the \<open>nofree\<close> counter: its old value.\<close>

definition nofree_dec :: "pool_table \<Rightarrow> u32 \<Rightarrow> u32 \<times> pool_table" where
  "nofree_dec t pkt =
     (ph_nofree (om_hdr (pt_mem t) pkt),
      t\<lparr>pt_mem := upd_hdr pkt (\<lambda>h. h\<lparr>ph_nofree := ph_nofree h - 1\<rparr>) (pt_mem t)\<rparr>)"

definition packet_release :: "pool_table \<Rightarrow> u32 \<Rightarrow> pool_table option" where
  "packet_release t pkt =
     (if ph_input (om_hdr (pt_mem t) pkt) \<noteq> ODP_PKTIO_INVALID
      then do { i \<leftarrow> buf_pool t pkt; pool_ret t i [pkt] }
      else odp_buffer_free t pkt)"

definition odp_packet_free :: "bool \<Rightarrow> pool_table \<Rightarrow> u32 \<Rightarrow> pool_table option" where
  "odp_packet_free nofree t pkt =
     (if nofree
      then let (old, t) = nofree_dec t pkt in if old \<noteq> 0 then Some t else packet_release t pkt
      else packet_release t pkt)"

text \<open>The loop over the packets, with those collected since the last release.\<close>

fun packet_free_loop :: "pool_table \<Rightarrow> u32 list \<Rightarrow> u32 list \<Rightarrow> pool_table option" where
  "packet_free_loop t acc [] = (if acc \<noteq> [] then odp_buffer_free_multi t acc else Some t)"
| "packet_free_loop t acc (pkt # pkts) =
     (let (old, t) = nofree_dec t pkt in
      if old = 0 then packet_free_loop t (acc @ [pkt]) pkts
      else do { t \<leftarrow> odp_buffer_free_multi t acc; packet_free_loop t [] pkts })"

definition odp_packet_free_multi :: "bool \<Rightarrow> pool_table \<Rightarrow> u32 list \<Rightarrow> pool_table option" where
  "odp_packet_free_multi nofree t pkts =
     (if nofree then packet_free_loop t [] pkts
      else if pkts \<noteq> [] then odp_buffer_free_multi t pkts else Some t)"

definition odp_packet_alloc_raw :: "pool_table \<Rightarrow> nat \<Rightarrow> (u32 \<times> pool_table) option" where
  "odp_packet_alloc_raw t i =
     (let pool = pt_pool t ! i in
      if pp_type (pl_params pool) \<noteq> ODP_POOL_PACKET then Some (0, t)
      else do {
        (r, t) \<leftarrow> pool_alloc t i (pp_size (pl_params pool)) 1;
        Some (case r of Some (b # _) \<Rightarrow> b | _ \<Rightarrow> 0, t)
      })"

section \<open>Insertion, removal, copy\<close>

definition pkt_copy_range ::
  "pool_table \<Rightarrow> u32 \<Rightarrow> u32 \<Rightarrow> u32 \<Rightarrow> u32 \<Rightarrow> u32 \<Rightarrow> (int \<times> pool_table) option" where
  "pkt_copy_range t src srcoff dst dstoff len =
     map_option (\<lambda>(r, mem). (r, t\<lparr>pt_mem := (pt_mem t)\<lparr>om_byte := mem\<rparr>\<rparr>))
       (odp_packet_copy_to_packet (om_byte (pt_mem t)) (om_hdr (pt_mem t) src) srcoff
          (om_hdr (pt_mem t) dst) dstoff len)"

definition pkt_copy_md :: "pool_table \<Rightarrow> u32 \<Rightarrow> u32 \<Rightarrow> pool_table option" where
  "pkt_copy_md t src dst =
     do {
       i \<leftarrow> buf_pool t src;
       j \<leftarrow> buf_pool t dst;
       Some (t\<lparr>pt_mem := odp_packet_copy_md_to_packet (pt_mem t) (pl_udata_size (pt_pool t ! i))
                           (pl_udata_size (pt_pool t ! j)) src dst\<rparr>)
     }"

text \<open>
  What insertion and removal do with the new packet: two ranges of the old packet are
  copied to it; the second copy is not tried when the first one fails.
\<close>

definition packet_replace ::
  "bool \<Rightarrow> pool_table \<Rightarrow> u32 \<Rightarrow> u32 \<Rightarrow> u32 \<Rightarrow> u32 \<Rightarrow> u32 \<Rightarrow> u32 \<Rightarrow> (u32 \<times> pool_table) option" where
  "packet_replace nofree t pkt newpkt offset srcoff dstoff n =
     do {
       (r1, t) \<leftarrow> pkt_copy_range t pkt 0 newpkt 0 offset;
       (r2, t) \<leftarrow> (if r1 \<noteq> 0 then Some (r1, t) else pkt_copy_range t pkt srcoff newpkt dstoff n);
       if r2 \<noteq> 0 then do { t \<leftarrow> odp_packet_free nofree t newpkt; Some (0, t) }
       else do {
         t \<leftarrow> pkt_copy_md t pkt newpkt;
         t \<leftarrow> odp_packet_free nofree t pkt;
         Some (newpkt, t)
       }
     }"

definition odp_packet_add_data ::
  "bool \<Rightarrow> pool_table \<Rightarrow> u32 \<Rightarrow> u32 \<Rightarrow> u32 \<Rightarrow> (u32 \<times> pool_table) option" where
  "odp_packet_add_data nofree t pkt offset len =
     (let pktlen = ucast (ph_frame_len (om_hdr (pt_mem t) pkt)) in
      if offset > pktlen then Some (0, t)
      else do {
        i \<leftarrow> buf_pool t pkt;
        (newpkt, t) \<leftarrow> odp_packet_alloc t i (pktlen + len);
        if newpkt \<noteq> 0
        then packet_replace nofree t pkt newpkt offset offset (offset + len) (pktlen - offset)
        else Some (newpkt, t)
      })"

definition odp_packet_rem_data ::
  "bool \<Rightarrow> pool_table \<Rightarrow> u32 \<Rightarrow> u32 \<Rightarrow> u32 \<Rightarrow> (u32 \<times> pool_table) option" where
  "odp_packet_rem_data nofree t pkt offset len =
     (let pktlen = ucast (ph_frame_len (om_hdr (pt_mem t) pkt)) in
      if offset > pktlen \<or> offset + len > pktlen then Some (0, t)
      else do {
        i \<leftarrow> buf_pool t pkt;
        (newpkt, t) \<leftarrow> odp_packet_alloc t i (pktlen - len);
        if newpkt \<noteq> 0
        then packet_replace nofree t pkt newpkt offset (offset + len) offset (pktlen - offset - len)
        else Some (newpkt, t)
      })"

text \<open>The copy takes over everything behind the buffer header.\<close>

definition hdr_copy_meta :: "odp_packet_hdr_t \<Rightarrow> odp_packet_hdr_t \<Rightarrow> odp_packet_hdr_t" where
  "hdr_copy_meta s d =
     d\<lparr>ph_input_flags := ph_input_flags s, ph_error_flags := ph_error_flags s,
       ph_output_flags := ph_output_flags s, ph_l2_offset := ph_l2_offset s,
       ph_vlan_s_tag := ph_vlan_s_tag s, ph_vlan_c_tag := ph_vlan_c_tag s,
       ph_l3_offset := ph_l3_offset s, ph_l3_protocol := ph_l3_protocol s,
       ph_l4_offset := ph_l4_offset s, ph_l4_protocol := ph_l4_protocol s,
       ph_payload_offset := ph_payload_offset s, ph_frame_len := ph_frame_len s,
       ph_headroom := ph_headroom s, ph_tailroom := ph_tailroom s, ph_input := ph_input s,
       ph_has_hash := ph_has_hash s, ph_nofree := ph_nofree s, ph_flow_hash := ph_flow_hash s\<rparr>"

definition odp_packet_copy ::
  "bool \<Rightarrow> pool_table \<Rightarrow> u32 \<Rightarrow> nat \<Rightarrow> (u32 \<times> pool_table) option" where
  "odp_packet_copy nofree t pkt pool =
     (let pktlen = ucast (ph_frame_len (om_hdr (pt_mem t) pkt)) in
      do {
        (newpkt, t) \<leftarrow> odp_packet_alloc t pool pktlen;
        if newpkt \<noteq> 0
        then do {
          let t = t\<lparr>pt_mem := upd_hdr newpkt (hdr_copy_meta (om_hdr (pt_mem t) pkt)) (pt_mem t)\<rparr>;
          (r, t) \<leftarrow> pkt_copy_range t pkt 0 newpkt 0 pktlen;
          if r \<noteq> 0 then do { t \<leftarrow> odp_packet_free nofree t newpkt; Some (0, t) }
          else Some (newpkt, t)
        }
        else Some (newpkt, t)
      })"


section \<open>The data of a packet\<close>

abbreviation pkt_start :: "odp_packet_hdr_t \<Rightarrow> u32" where
  "pkt_start h \<equiv> bh_addr h + of_nat (unat (ph_headroom h))"

definition pkt_data :: "odp_mem \<Rightarrow> u32 \<Rightarrow> u8 list" where
  "pkt_data m pkt = read_bytes (om_byte m) (pkt_start (om_hdr m pkt)) (unat (ph_frame_len (om_hdr m pkt)))"

text \<open>Memory that is laid out without overlaps: the data of the buffers are disjoint, and
  the user areas lie outside all data.\<close>

definition pool_mem_ok :: "u32 set \<Rightarrow> pool_entry_s \<Rightarrow> odp_mem \<Rightarrow> bool" where
  "pool_mem_ok A p m \<longleftrightarrow>
     (\<forall>a \<in> A. unat (bh_addr (om_hdr m a)) + unat (pl_seg_size p) < 2 ^ 32) \<and>
     (\<forall>a \<in> A. \<forall>b \<in> A. a \<noteq> b \<longrightarrow> data_range p m a \<inter> data_range p m b = {}) \<and>
     (\<forall>a \<in> A. \<forall>b \<in> A. let u = bh_uarea_addr (om_hdr m a) in u \<noteq> 0 \<longrightarrow>
        unat u + unat (pl_udata_size p) \<le> 2 ^ 32 \<and>
        {unat u ..< unat u + unat (pl_udata_size p)} \<inter> data_range p m b = {})"

definition pkt_pool_ok :: "u32 set \<Rightarrow> nat \<Rightarrow> pool_table \<Rightarrow> u32 set \<Rightarrow> bool" where
  "pkt_pool_ok A i t owned \<longleftrightarrow> pool_ok A i t owned \<and>
     pp_type (pl_params (pt_pool t ! i)) = ODP_POOL_PACKET \<and> 16 \<le> unat (pl_headroom (pt_pool t ! i)) \<and>
     pool_mem_ok A (pt_pool t ! i) (pt_mem t)"

lemma data_range_same: "mem_same m m' \<Longrightarrow> same_pool p p' \<Longrightarrow> data_range p' m' b = data_range p m b"
  by (simp add: data_range_def mem_same_def same_pool_def)

lemma pool_mem_ok_same:
  "pool_mem_ok A p m \<Longrightarrow> mem_same m m' \<Longrightarrow> same_pool p p' \<Longrightarrow> pool_mem_ok A p' m'"
  by (simp add: pool_mem_ok_def data_range_same [of m m' p p'] Let_def mem_same_def same_pool_def)

text \<open>The bytes outside a set of addresses are unchanged.\<close>

definition byte_frame :: "nat set \<Rightarrow> odp_mem \<Rightarrow> odp_mem \<Rightarrow> bool" where
  "byte_frame S m m' \<longleftrightarrow> (\<forall>x. unat x \<notin> S \<longrightarrow> om_byte m' x = om_byte m x)"

lemma byte_frame_trans:
  "byte_frame S m m1 \<Longrightarrow> byte_frame T m1 m2 \<Longrightarrow> byte_frame (S \<union> T) m m2"
  by (simp add: byte_frame_def)

lemma byte_frame_mono: "byte_frame S m m' \<Longrightarrow> S \<subseteq> T \<Longrightarrow> byte_frame T m m'"
  by (auto simp: byte_frame_def)

lemma byte_frame_read:
  assumes "byte_frame S m m'" "unat a + n \<le> 2 ^ 32" "{unat a ..< unat a + n} \<subseteq> R" "S \<inter> R = {}"
  shows "read_bytes (om_byte m') a n = read_bytes (om_byte m) a n"
proof (rule read_bytes_cong [OF assms(2)])
  fix x :: u32 assume "unat x \<in> {unat a ..< unat a + n}"
  then have "unat x \<notin> S" using assms(3,4) by blast
  then show "om_byte m' x = om_byte m x" using assms(1) by (simp add: byte_frame_def)
qed

lemma pkt_wf_range:
  assumes "hdr_ok i p (om_hdr m b)" "unat (pl_seg_size p) < 2 ^ 16"
    and "unat (bh_addr (om_hdr m b)) + unat (pl_seg_size p) < 2 ^ 32"
    and "pkt_wf (om_hdr m b)" "off + n \<le> unat (ph_frame_len (om_hdr m b))"
  shows "unat (pkt_start (om_hdr m b) + of_nat off) =
      unat (bh_addr (om_hdr m b)) + unat (ph_headroom (om_hdr m b)) + off"
    "unat (pkt_start (om_hdr m b) + of_nat off) + n \<le> 2 ^ 32"
    "{unat (pkt_start (om_hdr m b) + of_nat off) ..< unat (pkt_start (om_hdr m b) + of_nat off) + n}
       \<subseteq> data_range p m b"
proof -
  let ?h = "om_hdr m b"
  have s: "unat (bh_size ?h) = unat (pl_seg_size p)"
    using assms(1,2) by (simp add: hdr_ok_def unat_ucast_32_16)
  with assms(4,5) have w: "unat (ph_headroom ?h) + off + n \<le> unat (pl_seg_size p)" by (simp add: pkt_wf_def)
  have "unat (of_nat (unat (ph_headroom ?h)) :: u32) = unat (ph_headroom ?h)"
    "unat (of_nat off :: u32) = off"
    using w assms(2) by (simp_all add: unat_of_nat_small)
  then show *: "unat (pkt_start ?h + of_nat off) = unat (bh_addr ?h) + unat (ph_headroom ?h) + off"
    using w assms(3) by (subst unat_add_small; subst unat_add_small) simp_all
  show "unat (pkt_start ?h + of_nat off) + n \<le> 2 ^ 32"
    "{unat (pkt_start ?h + of_nat off) ..< unat (pkt_start ?h + of_nat off) + n} \<subseteq> data_range p m b"
    using w assms(3) unfolding * by (auto simp: data_range_def)
qed

lemma copy_to_packet_eq:
  assumes "pkt_wf s" "pkt_wf d" "unat so + unat len \<le> unat (ph_frame_len s)"
    "unat d0 + unat len \<le> unat (ph_frame_len d)"
  shows "odp_packet_copy_to_packet mem s so d d0 len =
    Some (0, write_bytes mem (pkt_start d + of_nat (unat d0))
               (read_bytes mem (pkt_start s + of_nat (unat so)) (unat len)))"
proof (cases "len = 0")
  case True
  then show ?thesis
    using pkt_range [OF assms(3)] pkt_range [OF assms(4)]
    by (simp add: odp_packet_copy_to_packet_def copy_to_packet_loop.simps read_bytes_def)
next
  case False
  have "packet_map s so = (bh_addr s + of_nat (unat (ph_headroom s) + unat so), Some (ucast (ph_frame_len s) - so))"
    "packet_map d d0 = (bh_addr d + of_nat (unat (ph_headroom d) + unat d0), Some (ucast (ph_frame_len d) - d0))"
    using packet_map_in [OF assms(1), of so] packet_map_in [OF assms(2), of d0] assms(3,4) by simp_all
  then show ?thesis
    using pkt_range [OF assms(3)] pkt_range [OF assms(4)] False
    by (simp add: odp_packet_copy_to_packet_def copy_to_packet_loop.simps [of mem s so d d0 len]
        copy_to_packet_loop.simps [of _ s "so + len" d "d0 + len" 0] Let_def add.assoc)
qed

lemma packet_init_frame:
  assumes "unat (bh_addr (om_hdr m b)) + unat (pl_seg_size p) < 2 ^ 32" "unat (pl_seg_size p) < 2 ^ 16"
    and "16 \<le> unat (pl_headroom p)" "unat (pl_headroom p) \<le> unat (pl_seg_size p)"
  shows "byte_frame (data_range p m b) m (packet_init p m b sz parse)"
proof -
  let ?a = "bh_addr (om_hdr m b)" and ?h = "ucast (ucast (pl_headroom p) :: u16) :: u32"
  have h: "unat ?h = unat (pl_headroom p)" using assms(2,4) by (simp add: unat_ucast_32_16)
  then have "unat (?a + ?h) = unat ?a + unat (pl_headroom p)"
    using assms(1,4) by (subst unat_add_small) simp_all
  then have a: "unat (?a + ?h - 16) = unat ?a + unat (pl_headroom p) - 16"
    using assms(3) by (subst unat_sub_small) simp_all
  have "write_bytes (om_byte m) (?a + ?h - 16) (replicate 16 0) x = om_byte m x"
    if "unat x \<notin> data_range p m b" for x
    by (rule write_bytes_frame) (use that assms a in \<open>auto simp: data_range_def\<close>)
  then show ?thesis by (simp add: byte_frame_def packet_init_def upd_hdr_def Let_def)
qed

lemma pkt_pool_ok_mem:
  assumes "pkt_pool_ok A i t owned" and "mem_same (pt_mem t) m'"
  shows "pkt_pool_ok A i (t\<lparr>pt_mem := m'\<rparr>) owned"
  using assms pool_parts_mem_same [OF _ assms(2)] pool_mem_ok_same [OF _ assms(2) same_pool_refl]
  by (simp add: pkt_pool_ok_def pool_ok_def) blast

lemma alloc_pkt_init_hdr:
  "om_hdr (alloc_pkt_init p len sz b m) =
     (om_hdr m)(b := (let h = packet_init_hdr p (om_hdr m b) sz False
                      in if len = 0 then pull_tail h sz else h))"
  by (simp add: alloc_pkt_init_def upd_hdr_def Let_def)

lemma alloc_pkt_init_byte: "om_byte (alloc_pkt_init p len sz b m) = om_byte (packet_init p m b sz False)"
  by (simp add: alloc_pkt_init_def upd_hdr_def Let_def)

lemma alloc_pkt_init_same: "mem_same m (alloc_pkt_init p len sz b m)"
  by (simp add: mem_same_def alloc_pkt_init_hdr Let_def pull_tail_def)

text \<open>The header of a packet that has just been allocated.\<close>

lemma alloc_pkt_wf:
  assumes "unat (pl_headroom p) + unat sz \<le> unat (pl_seg_size p)" "unat (pl_seg_size p) < 2 ^ 16"
    and "bh_size (om_hdr m b) = ucast (pl_seg_size p)" "len \<noteq> 0 \<longrightarrow> sz = len"
  shows "pkt_wf (om_hdr (alloc_pkt_init p len sz b m) b)"
    and "unat (ph_frame_len (om_hdr (alloc_pkt_init p len sz b m) b)) = unat len"
proof -
  let ?h = "packet_init_hdr p (om_hdr m b) sz False"
  have wf: "pkt_wf ?h" by (rule packet_init_wf [OF assms(1,3,2)])
  have f: "unat (ph_frame_len ?h) = unat sz" using assms(1,2) by (simp add: unat_ucast_32_16)
  then have z: "pkt_wf (pull_tail ?h sz)" "ph_frame_len (pull_tail ?h sz) = 0"
    using wf pkt_move_fields(2) [OF wf, of sz] by (simp_all add: pkt_wf_def pull_tail_def)
  show "pkt_wf (om_hdr (alloc_pkt_init p len sz b m) b)"
    using wf z by (simp add: alloc_pkt_init_hdr Let_def)
  show "unat (ph_frame_len (om_hdr (alloc_pkt_init p len sz b m) b)) = unat len"
    using f z assms(4) by (cases "len = 0") (simp_all add: alloc_pkt_init_hdr Let_def)
qed

lemma packet_alloc_ok:
  assumes ok: "pkt_pool_ok A i t owned"
    and sz: "unat (pl_headroom (pt_pool t ! i)) + unat len + unat (pl_tailroom (pt_pool t ! i)) \<le>
        unat (pl_seg_size (pt_pool t ! i))"
  obtains
    (full) t' where "odp_packet_alloc t i len = Some (0, t')" "owned = A" "pkt_pool_ok A i t' owned"
      "pt_mem t' = pt_mem t"
  | (new) b t' where "odp_packet_alloc t i len = Some (b, t')" "owned \<noteq> A" "b \<in> A - owned" "b \<noteq> 0"
      "pkt_pool_ok A i t' (insert b owned)" "same_pool (pt_pool t ! i) (pt_pool t' ! i)"
      "mem_same (pt_mem t) (pt_mem t')"
      "byte_frame (data_range (pt_pool t ! i) (pt_mem t) b) (pt_mem t) (pt_mem t')"
      "\<And>a. a \<noteq> b \<Longrightarrow> om_hdr (pt_mem t') a = om_hdr (pt_mem t) a"
      "pkt_wf (om_hdr (pt_mem t') b)" "unat (ph_frame_len (om_hdr (pt_mem t') b)) = unat len"
proof -
  let ?p = "pt_pool t ! i" and ?m = "pt_mem t"
  define s where "s = (if len \<noteq> 0 then len else pp_size (pl_params ?p))"
  from ok obtain cs where parts: "pool_parts A i ?p ?m (pt_cache t ! i) cs owned"
    and l: "i < length (pt_pool t)" "length (pt_cache t) = length (pt_pool t)" and szok: "pool_sizes_ok ?p"
    and ty: "pp_type (pl_params ?p) = ODP_POOL_PACKET" "16 \<le> unat (pl_headroom ?p)" and mok: "pool_mem_ok A ?p ?m"
    by (auto simp: pkt_pool_ok_def pool_ok_def)
  have ssz: "unat (pl_headroom ?p) + unat s + unat (pl_tailroom ?p) \<le> unat (pl_seg_size ?p)"
    "unat (pl_seg_size ?p) < 2 ^ 16"
    using sz szok by (auto simp: s_def pool_sizes_ok_def)
  obtain bs p' cache' cs' m' where
    a: "buffer_alloc ?p (pt_cache t ! i) ?m s 1 = Some (Some bs, p', cache', m')"
    and p': "same_pool ?p p'" "mem_same ?m m'" "distinct bs" "set bs \<inter> owned = {}" "set bs \<subseteq> A"
      "pool_parts A i p' m' cache' cs' (set bs \<union> owned)"
      "bs = (if cs \<noteq> [] \<and> (1::nat) \<noteq> 0 then take 1 cs else take (min 1 16) (ring_list (pl_ring ?p)))"
      "om_byte m' = om_byte ?m" "\<And>a. a \<notin> set bs \<Longrightarrow> om_hdr m' a = om_hdr ?m a"
    by (rule buffer_alloc_parts [OF parts ssz, of 1]) auto
  define t1 where "t1 = t\<lparr>pt_pool := (pt_pool t)[i := p'], pt_cache := (pt_cache t)[i := cache'], pt_mem := m'\<rparr>"
  have t1: "pool_alloc t i s 1 = Some (Some bs, t1)" using a by (simp add: pool_alloc_def t1_def)
  have nth: "pt_pool t1 ! i = p'" "pt_mem t1 = m'" "pt_cache t1 ! i = cache'" using l by (simp_all add: t1_def)
  have ok1: "pkt_pool_ok A i t1 (set bs \<union> owned)"
    using p' l ty szok pool_sizes_same [OF p'(1)] pool_mem_ok_same [OF mok p'(2,1)]
    by (auto simp: pkt_pool_ok_def pool_ok_def nth) (auto simp: t1_def same_pool_def)
  have def: "odp_packet_alloc t i len =
      (case bs of [pkt] \<Rightarrow> Some (pkt, t1\<lparr>pt_mem := alloc_pkt_init p' len s pkt m'\<rparr>) | _ \<Rightarrow> Some (0, t1))"
    using t1 ty(1) unfolding odp_packet_alloc_def Let_def s_def [symmetric] by (simp add: nth split: list.split)
  show ?thesis
  proof (cases bs)
    case Nil
    then have "owned = A" using p'(7) parts by (auto simp: pool_parts_def split: if_splits)
    moreover have "pt_mem t1 = ?m"
      using Nil p'(8,9) nth by (auto intro!: odp_mem.equality)
    ultimately show ?thesis using full [of t1] ok1 def Nil by simp
  next
    case (Cons b bs')
    then have bs: "bs = [b]" using p'(7) by (cases cs; cases "ring_list (pl_ring ?p)") (auto split: if_splits)
    let ?m2 = "alloc_pkt_init p' len s b m'"
    have ms: "mem_same m' ?m2" by (rule alloc_pkt_init_same)
    have b: "b \<in> A - owned" "b \<noteq> 0" using p'(4,5) bs parts by (auto simp: pool_parts_def)
    have bsz: "bh_size (om_hdr m' b) = ucast (pl_seg_size p')" using p'(6) b by (auto simp: pool_parts_def hdr_ok_def)
    have addr: "unat (bh_addr (om_hdr m' b)) + unat (pl_seg_size p') < 2 ^ 32"
      using pool_mem_ok_same [OF mok p'(2,1)] b by (simp add: pool_mem_ok_def)
    have p's: "unat (pl_headroom p') + unat s \<le> unat (pl_seg_size p')" "unat (pl_seg_size p') < 2 ^ 16"
      "16 \<le> unat (pl_headroom p')" "unat (pl_headroom p') \<le> unat (pl_seg_size p')"
      using ssz ty(2) p'(1) by (auto simp: same_pool_def)
    have "byte_frame (data_range p' m' b) m' ?m2"
      using packet_init_frame [OF addr p's(2-4), of s False]
      by (simp add: byte_frame_def alloc_pkt_init_byte)
    then have fr: "byte_frame (data_range ?p ?m b) ?m ?m2"
      using data_range_same [OF p'(2,1)] p'(8) by (simp add: byte_frame_def)
    have "odp_packet_alloc t i len = Some (b, t1\<lparr>pt_mem := ?m2\<rparr>)"
      using def bs by simp
    moreover have "pkt_pool_ok A i (t1\<lparr>pt_mem := ?m2\<rparr>) (insert b owned)"
      using pkt_pool_ok_mem [OF ok1, of ?m2] ms nth bs by simp
    moreover have "owned \<noteq> A" using b by auto
    moreover note alloc_pkt_wf [OF p's(1,2) bsz, of len]
    ultimately show ?thesis
      using new [of b "t1\<lparr>pt_mem := ?m2\<rparr>"] b nth p'(1,9) bs fr mem_same_trans [OF p'(2) ms]
      by (simp add: alloc_pkt_init_hdr s_def)
  qed
qed


section \<open>Release\<close>

lemma ret_buf_mem:
  "ret_buf p m bs = Some (p', m') \<Longrightarrow>
   m' = (if pp_type (pl_params p) = ODP_POOL_PACKET then ret_buf_init p bs m else m)"
  by (auto simp: ret_buf_def Let_def split: bind_splits)

lemma pool_mem_ok_next:
  "pool_mem_ok A p (upd_hdr b (\<lambda>h. h\<lparr>bh_next := c\<rparr>) m) = pool_mem_ok A p m"
proof -
  have "bh_addr (om_hdr (upd_hdr b (\<lambda>h. h\<lparr>bh_next := c\<rparr>) m) a) = bh_addr (om_hdr m a)"
    "bh_uarea_addr (om_hdr (upd_hdr b (\<lambda>h. h\<lparr>bh_next := c\<rparr>) m) a) = bh_uarea_addr (om_hdr m a)" for a
    by (simp_all add: upd_hdr_def)
  then show ?thesis by (simp add: pool_mem_ok_def data_range_def)
qed

lemma pkt_pool_okD:
  assumes "pkt_pool_ok A i t owned"
  shows "pool_ok A i t owned" "pp_type (pl_params (pt_pool t ! i)) = ODP_POOL_PACKET"
    "16 \<le> unat (pl_headroom (pt_pool t ! i))" "unat (pl_headroom (pt_pool t ! i)) \<le> unat (pl_seg_size (pt_pool t ! i))"
    "unat (pl_seg_size (pt_pool t ! i)) < 2 ^ 16" "pool_mem_ok A (pt_pool t ! i) (pt_mem t)"
    "owned \<subseteq> A" "i < length (pt_pool t)" "length (pt_cache t) = length (pt_pool t)"
    "b \<in> A \<Longrightarrow> unat (bh_addr (om_hdr (pt_mem t) b)) + unat (pl_seg_size (pt_pool t ! i)) < 2 ^ 32"
    "b \<in> A \<Longrightarrow> hdr_ok i (pt_pool t ! i) (om_hdr (pt_mem t) b)"
    "b \<in> A \<Longrightarrow> buf_pool t b = Some i"
  using assms by (auto simp: pkt_pool_ok_def pool_ok_def pool_sizes_ok_def pool_mem_ok_def pool_parts_def
      buf_pool_def hdr_ok_def)

lemma pool_ret_pkt_ok:
  assumes ok: "pkt_pool_ok A i t owned" and b: "b \<in> owned"
  obtains t' where "pool_ret t i [b] = Some t'" "pkt_pool_ok A i t' (owned - {b})"
    "byte_frame (data_range (pt_pool t ! i) (pt_mem t) b) (pt_mem t) (pt_mem t')"
    "\<And>a. a \<noteq> b \<Longrightarrow> om_hdr (pt_mem t') a = om_hdr (pt_mem t) a"
proof -
  let ?p = "pt_pool t ! i" and ?m = "pt_mem t"
  note D = pkt_pool_okD [OF ok]
  from D(1) obtain cs where parts: "pool_parts A i ?p ?m (pt_cache t ! i) cs owned" and sz: "pool_sizes_ok ?p"
    by (auto simp: pool_ok_def)
  obtain p' m' where r: "ret_buf ?p ?m [b] = Some (p', m')" "same_pool ?p p'" "mem_same ?m m'"
    "pool_parts A i p' m' (pt_cache t ! i) cs (owned - set [b])"
    by (rule ret_buf_parts [OF parts, of "[b]"]) (use b in auto)
  have m': "m' = packet_init ?p ?m b (pp_size (pl_params ?p)) True" using ret_buf_mem [OF r(1)] D(2) by simp
  have bA: "b \<in> A" using b D(7) by auto
  let ?t = "t\<lparr>pt_pool := (pt_pool t)[i := p'], pt_mem := m'\<rparr>"
  have "pool_ret t i [b] = Some ?t" using r(1) by (simp add: pool_ret_def)
  moreover have "pkt_pool_ok A i ?t (owned - {b})"
    using r D sz pool_sizes_same [OF r(2)] pool_mem_ok_same [OF D(6) r(3,2)]
    by (auto simp: pkt_pool_ok_def pool_ok_def same_pool_def)
  moreover have "byte_frame (data_range ?p ?m b) ?m m'"
    unfolding m' by (rule packet_init_frame [OF D(10) [OF bA] D(5,3,4)])
  ultimately show ?thesis using that [of ?t] by (simp add: m')
qed

lemma packet_release_ok:
  assumes ok: "pkt_pool_ok A i t owned" and b: "b \<in> owned"
  obtains t' where "packet_release t b = Some t'" "pkt_pool_ok A i t' (owned - {b})"
    "byte_frame (data_range (pt_pool t ! i) (pt_mem t) b) (pt_mem t) (pt_mem t')"
    "\<And>a. a \<noteq> b \<Longrightarrow> om_hdr (pt_mem t') a = om_hdr (pt_mem t) a"
proof -
  note D = pkt_pool_okD [OF ok]
  have bp: "buf_pool t b = Some i" using D(7,12) b by auto
  obtain t1 where t1: "pool_ret t i [b] = Some t1" "pkt_pool_ok A i t1 (owned - {b})"
    "byte_frame (data_range (pt_pool t ! i) (pt_mem t) b) (pt_mem t) (pt_mem t1)"
    "\<And>a. a \<noteq> b \<Longrightarrow> om_hdr (pt_mem t1) a = om_hdr (pt_mem t) a"
    by (rule pool_ret_pkt_ok [OF ok b]) blast
  show ?thesis
  proof (cases "ph_input (om_hdr (pt_mem t) b) = ODP_PKTIO_INVALID \<and> pl_low_wm_assert (pt_pool t ! i) = 0")
    case False
    with bp t1(1) have "packet_release t b = Some t1" by (auto simp: packet_release_def odp_buffer_free_def)
    with that t1 show ?thesis by blast
  next
    case True
    let ?m = "upd_hdr b (\<lambda>h. h\<lparr>bh_next := pt_cache t ! i\<rparr>) (pt_mem t)"
    let ?t = "t\<lparr>pt_cache := (pt_cache t)[i := b], pt_mem := ?m\<rparr>"
    have f: "odp_buffer_free t b = Some ?t"
      using True bp by (simp add: odp_buffer_free_def ret_local_buf_def)
    obtain t2 where "odp_buffer_free t b = Some t2" "pool_ok A i t2 (owned - {b})"
      by (rule pool_free_ok [OF D(1) b])
    then have "pool_ok A i ?t (owned - {b})" using f by simp
    then have "pkt_pool_ok A i ?t (owned - {b})" using D by (simp add: pkt_pool_ok_def pool_mem_ok_next)
    moreover have "packet_release t b = Some ?t" using True f by (simp add: packet_release_def)
    ultimately show ?thesis using that [of ?t] by (simp add: byte_frame_def upd_hdr_def)
  qed
qed

text \<open>A packet whose counter keeps it from being released stays with its owner.\<close>

definition pkt_kept :: "bool \<Rightarrow> pool_table \<Rightarrow> u32 \<Rightarrow> bool" where
  "pkt_kept nofree t pkt \<longleftrightarrow> nofree \<and> ph_nofree (om_hdr (pt_mem t) pkt) \<noteq> 0"

lemma packet_free_ok:
  assumes ok: "pkt_pool_ok A i t owned" and b: "b \<in> owned"
  obtains t' where "odp_packet_free nofree t b = Some t'"
    "pkt_pool_ok A i t' (if pkt_kept nofree t b then owned else owned - {b})"
    "byte_frame (data_range (pt_pool t ! i) (pt_mem t) b) (pt_mem t) (pt_mem t')"
    "\<And>a. a \<noteq> b \<Longrightarrow> om_hdr (pt_mem t') a = om_hdr (pt_mem t) a"
proof (cases nofree)
  case False
  then show ?thesis
    using that by (auto intro: packet_release_ok [OF ok b] simp: odp_packet_free_def pkt_kept_def)
next
  case True
  let ?m = "upd_hdr b (\<lambda>h. h\<lparr>ph_nofree := ph_nofree h - 1\<rparr>) (pt_mem t)"
  have ms: "mem_same (pt_mem t) ?m" by (simp add: mem_same_def upd_hdr_def)
  have ok1: "pkt_pool_ok A i (t\<lparr>pt_mem := ?m\<rparr>) owned" by (rule pkt_pool_ok_mem [OF ok ms])
  have dr: "data_range p ?m b = data_range p (pt_mem t) b" for p by (rule data_range_same [OF ms]) simp
  show ?thesis
  proof (cases "ph_nofree (om_hdr (pt_mem t) b) = 0")
    case False
    with True that [of "t\<lparr>pt_mem := ?m\<rparr>"] ok1 show ?thesis
      by (simp add: odp_packet_free_def nofree_dec_def pkt_kept_def byte_frame_def upd_hdr_def)
  next
    case z: True
    obtain t' where t': "packet_release (t\<lparr>pt_mem := ?m\<rparr>) b = Some t'" "pkt_pool_ok A i t' (owned - {b})"
      "byte_frame (data_range (pt_pool t ! i) ?m b) ?m (pt_mem t')"
      "\<And>a. a \<noteq> b \<Longrightarrow> om_hdr (pt_mem t') a = om_hdr ?m a"
      by (rule packet_release_ok [OF ok1 b]) auto
    show ?thesis
      by (rule that [of t'])
        (use t' True z dr in \<open>simp_all add: odp_packet_free_def nofree_dec_def pkt_kept_def byte_frame_def upd_hdr_def\<close>)
  qed
qed

section \<open>Replacing a packet\<close>

lemma read_bytes_slice:
  assumes "k + n \<le> N"
  shows "read_bytes mem (a + of_nat k) n = take n (drop k (read_bytes mem a N))"
proof -
  have "read_bytes mem a N = read_bytes mem a k @ read_bytes mem (a + of_nat k) n @
      read_bytes mem (a + of_nat k + of_nat n) (N - k - n)"
    using read_bytes_append [of mem a k "N - k"] read_bytes_append [of mem "a + of_nat k" n "N - k - n"] assms
    by simp
  then show ?thesis by simp
qed

lemma copy_md_same: "mem_same m (odp_packet_copy_md_to_packet m su du s d)"
  by (simp add: mem_same_def odp_packet_copy_md_to_packet_def copy_packet_parser_metadata_def upd_hdr_def Let_def)

lemma copy_md_hdr:
  "a \<noteq> d \<Longrightarrow> om_hdr (odp_packet_copy_md_to_packet m su du s d) a = om_hdr m a"
  "ph_frame_len (om_hdr (odp_packet_copy_md_to_packet m su du s d) d) = ph_frame_len (om_hdr m d)"
  "ph_headroom (om_hdr (odp_packet_copy_md_to_packet m su du s d) d) = ph_headroom (om_hdr m d)"
  "ph_tailroom (om_hdr (odp_packet_copy_md_to_packet m su du s d) d) = ph_tailroom (om_hdr m d)"
  "bh_size (om_hdr (odp_packet_copy_md_to_packet m su du s d) d) = bh_size (om_hdr m d)"
  "bh_addr (om_hdr (odp_packet_copy_md_to_packet m su du s d) d) = bh_addr (om_hdr m d)"
  by (simp_all add: odp_packet_copy_md_to_packet_def copy_packet_parser_metadata_def upd_hdr_def Let_def)

definition uarea_range :: "pool_entry_s \<Rightarrow> odp_mem \<Rightarrow> u32 \<Rightarrow> nat set" where
  "uarea_range p m b = (let u = bh_uarea_addr (om_hdr m b)
     in if u = 0 then {} else {unat u ..< unat u + unat (pl_udata_size p)})"

lemma uarea_disjoint: "pool_mem_ok A p m \<Longrightarrow> a \<in> A \<Longrightarrow> b \<in> A \<Longrightarrow> uarea_range p m a \<inter> data_range p m b = {}"
  by (auto simp: pool_mem_ok_def uarea_range_def Let_def)

lemma copy_md_frame:
  assumes "pool_mem_ok A p m" "d \<in> A"
  shows "byte_frame (uarea_range p m d) m
    (odp_packet_copy_md_to_packet m (pl_udata_size p) (pl_udata_size p) s d)"
proof -
  let ?n = "unat (ucast (pl_udata_size p) :: u16)" and ?u = "bh_uarea_addr (om_hdr m d)"
  have n: "?n \<le> unat (pl_udata_size p)"
    by (simp add: unsigned_ucast_eq take_bit_nat_less_eq_self)
  have "write_bytes (om_byte m) ?u bs x = om_byte m x"
    if "?u \<noteq> 0" "length bs = ?n" "unat x \<notin> uarea_range p m d" for bs x
  proof (rule write_bytes_frame)
    show "unat ?u + length bs \<le> 2 ^ 32"
      using assms that n by (auto simp: pool_mem_ok_def Let_def intro: order_trans add_left_mono)
    show "unat x \<notin> {unat ?u ..< unat ?u + length bs}"
      using that n by (auto simp: uarea_range_def Let_def)
  qed
  then show ?thesis by (simp add: byte_frame_def odp_packet_copy_md_to_packet_def upd_hdr_def Let_def)
qed


definition pkt_at :: "odp_packet_hdr_t \<Rightarrow> nat" where
  "pkt_at h = unat (bh_addr h) + unat (ph_headroom h)"

lemma pkt_range_ok:
  assumes "pkt_pool_ok A i t owned" "b \<in> A" "pkt_wf (om_hdr (pt_mem t) b)"
    and "off + n \<le> unat (ph_frame_len (om_hdr (pt_mem t) b))"
  shows "unat (pkt_start (om_hdr (pt_mem t) b) + of_nat off) = pkt_at (om_hdr (pt_mem t) b) + off"
    "pkt_at (om_hdr (pt_mem t) b) + off + n \<le> 2 ^ 32"
    "{pkt_at (om_hdr (pt_mem t) b) + off ..< pkt_at (om_hdr (pt_mem t) b) + off + n}
       \<subseteq> data_range (pt_pool t ! i) (pt_mem t) b"
  using pkt_wf_range [OF pkt_pool_okD(11) [OF assms(1,2)] pkt_pool_okD(5) [OF assms(1)]
      pkt_pool_okD(10) [OF assms(1,2)] assms(3,4)]
  by (simp_all add: pkt_at_def)

text \<open>The data of a packet are the same when its header and the bytes of its buffer are.\<close>

lemma pkt_data_frame:
  assumes "pkt_pool_ok A i t owned" "b \<in> A" "pkt_wf (om_hdr (pt_mem t) b)"
    and "byte_frame S (pt_mem t) m'" "S \<inter> data_range (pt_pool t ! i) (pt_mem t) b = {}"
    and "ph_frame_len (om_hdr m' b) = ph_frame_len (om_hdr (pt_mem t) b)"
      "ph_headroom (om_hdr m' b) = ph_headroom (om_hdr (pt_mem t) b)"
      "bh_addr (om_hdr m' b) = bh_addr (om_hdr (pt_mem t) b)"
  shows "pkt_data m' b = pkt_data (pt_mem t) b"
proof -
  let ?h = "om_hdr (pt_mem t) b"
  note r = pkt_range_ok [OF assms(1-3), of 0 "unat (ph_frame_len ?h)", simplified]
  have "read_bytes (om_byte m') (pkt_start ?h) (unat (ph_frame_len ?h)) =
      read_bytes (om_byte (pt_mem t)) (pkt_start ?h) (unat (ph_frame_len ?h))"
    using r by (intro byte_frame_read [OF assms(4) _ _ assms(5)]) simp_all
  then show ?thesis using assms(6-8) by (simp add: pkt_data_def)
qed

lemma data_disjoint:
  "pkt_pool_ok A i t owned \<Longrightarrow> a \<in> A \<Longrightarrow> b \<in> A \<Longrightarrow> a \<noteq> b \<Longrightarrow>
   data_range (pt_pool t ! i) (pt_mem t) a \<inter> data_range (pt_pool t ! i) (pt_mem t) b = {}"
  by (simp add: pkt_pool_ok_def pool_mem_ok_def)

lemma pkt_copy_range_ok:
  assumes ok: "pkt_pool_ok A i t owned" and sd: "s \<in> A" "d \<in> A" "s \<noteq> d"
    and wf: "pkt_wf (om_hdr (pt_mem t) s)" "pkt_wf (om_hdr (pt_mem t) d)"
    and len: "unat so + unat n \<le> unat (ph_frame_len (om_hdr (pt_mem t) s))"
      "unat d0 + unat n \<le> unat (ph_frame_len (om_hdr (pt_mem t) d))"
  obtains mem' where
    "pkt_copy_range t s so d d0 n = Some (0, t\<lparr>pt_mem := (pt_mem t)\<lparr>om_byte := mem'\<rparr>\<rparr>)"
    "byte_frame {pkt_at (om_hdr (pt_mem t) d) + unat d0 ..< pkt_at (om_hdr (pt_mem t) d) + unat d0 + unat n}
       (pt_mem t) ((pt_mem t)\<lparr>om_byte := mem'\<rparr>)"
    "byte_frame (data_range (pt_pool t ! i) (pt_mem t) d) (pt_mem t) ((pt_mem t)\<lparr>om_byte := mem'\<rparr>)"
    "read_bytes mem' (pkt_start (om_hdr (pt_mem t) d) + of_nat (unat d0)) (unat n) =
       take (unat n) (drop (unat so) (pkt_data (pt_mem t) s))"
proof -
  let ?m = "pt_mem t" and ?s = "om_hdr (pt_mem t) s" and ?d = "om_hdr (pt_mem t) d"
  define bs where "bs = read_bytes (om_byte ?m) (pkt_start ?s + of_nat (unat so)) (unat n)"
  define mem' where "mem' = write_bytes (om_byte ?m) (pkt_start ?d + of_nat (unat d0)) bs"
  note r = pkt_range_ok [OF ok sd(2) wf(2) len(2)]
  have lb: "length bs = unat n" by (simp add: bs_def)
  have "pkt_copy_range t s so d d0 n = Some (0, t\<lparr>pt_mem := ?m\<lparr>om_byte := mem'\<rparr>\<rparr>)"
    using copy_to_packet_eq [OF wf len] by (simp add: pkt_copy_range_def mem'_def bs_def)
  moreover have fr: "byte_frame {pkt_at ?d + unat d0 ..< pkt_at ?d + unat d0 + unat n} ?m (?m\<lparr>om_byte := mem'\<rparr>)"
    unfolding byte_frame_def mem'_def using r lb by (auto intro!: write_bytes_frame)
  moreover have "byte_frame (data_range (pt_pool t ! i) ?m d) ?m (?m\<lparr>om_byte := mem'\<rparr>)"
    by (rule byte_frame_mono [OF fr r(3)])
  moreover have "read_bytes mem' (pkt_start ?d + of_nat (unat d0)) (unat n) = bs"
    using read_write_bytes [of bs] lb r(2) by (simp add: mem'_def)
  moreover have "bs = take (unat n) (drop (unat so) (pkt_data ?m s))"
    unfolding bs_def pkt_data_def by (rule read_bytes_slice [OF len(1)])
  ultimately show ?thesis using that by simp
qed

text \<open>The two copies, with the first range in front of the second one.\<close>

lemma two_copies_ok:
  assumes ok: "pkt_pool_ok A i t owned" and pn: "pkt \<in> A" "new \<in> A" "pkt \<noteq> new"
    and wf: "pkt_wf (om_hdr (pt_mem t) pkt)" "pkt_wf (om_hdr (pt_mem t) new)"
    and len: "unat off \<le> unat (ph_frame_len (om_hdr (pt_mem t) pkt))"
      "unat so + unat n \<le> unat (ph_frame_len (om_hdr (pt_mem t) pkt))" "unat off \<le> unat d0"
      "unat d0 + unat n = unat (ph_frame_len (om_hdr (pt_mem t) new))"
  obtains t1 m2 X where "pkt_copy_range t pkt 0 new 0 off = Some (0, t1)"
    "pkt_copy_range t1 pkt so new d0 n = Some (0, t\<lparr>pt_mem := (pt_mem t)\<lparr>om_byte := m2\<rparr>\<rparr>)"
    "byte_frame (data_range (pt_pool t ! i) (pt_mem t) new) (pt_mem t) ((pt_mem t)\<lparr>om_byte := m2\<rparr>)"
    "length X = unat d0 - unat off"
    "pkt_data ((pt_mem t)\<lparr>om_byte := m2\<rparr>) new = take (unat off) (pkt_data (pt_mem t) pkt) @ X @
       take (unat n) (drop (unat so) (pkt_data (pt_mem t) pkt))"
proof -
  let ?m = "pt_mem t" and ?p = "pt_pool t ! i"
  let ?hn = "om_hdr ?m new" and ?D = "pkt_data ?m pkt"
  obtain m1 where c1: "pkt_copy_range t pkt 0 new 0 off = Some (0, t\<lparr>pt_mem := ?m\<lparr>om_byte := m1\<rparr>\<rparr>)"
    "byte_frame (data_range ?p ?m new) ?m (?m\<lparr>om_byte := m1\<rparr>)"
    "read_bytes m1 (pkt_start ?hn + of_nat (unat (0::u32))) (unat off) = take (unat off) (drop (unat (0::u32)) ?D)"
    by (rule pkt_copy_range_ok [OF ok pn wf, of 0 off 0]) (use len in auto)
  define t1 where "t1 = t\<lparr>pt_mem := ?m\<lparr>om_byte := m1\<rparr>\<rparr>"
  have h1: "om_hdr (pt_mem t1) = om_hdr ?m" "pt_pool t1 = pt_pool t" "om_byte (pt_mem t1) = m1"
    by (simp_all add: t1_def)
  have ok1: "pkt_pool_ok A i t1 owned"
    unfolding t1_def by (rule pkt_pool_ok_mem [OF ok]) (simp add: mem_same_def)
  have dr: "data_range p (pt_mem t1) b = data_range p ?m b" for p b by (simp add: data_range_def h1)
  have D1: "pkt_data (pt_mem t1) pkt = ?D"
    using data_disjoint [OF ok pn(2,1)] pn(3) h1 c1(2)
    by (intro pkt_data_frame [OF ok pn(1) wf(1), of "data_range ?p ?m new"]) (auto simp: t1_def)
  obtain m2 where c2: "pkt_copy_range t1 pkt so new d0 n = Some (0, t1\<lparr>pt_mem := (pt_mem t1)\<lparr>om_byte := m2\<rparr>\<rparr>)"
    "byte_frame {pkt_at ?hn + unat d0 ..< pkt_at ?hn + unat d0 + unat n} (pt_mem t1) ((pt_mem t1)\<lparr>om_byte := m2\<rparr>)"
    "byte_frame (data_range ?p ?m new) (pt_mem t1) ((pt_mem t1)\<lparr>om_byte := m2\<rparr>)"
    "read_bytes m2 (pkt_start ?hn + of_nat (unat d0)) (unat n) = take (unat n) (drop (unat so) ?D)"
    by (rule pkt_copy_range_ok [OF ok1 pn, unfolded h1 dr D1, OF wf, of so n d0]) (use len in auto)
  define X where "X = read_bytes m2 (pkt_start ?hn + of_nat (unat off)) (unat d0 - unat off)"
  note r = pkt_range_ok [OF ok pn(2) wf(2), of 0 "unat off", simplified]
  have "read_bytes m2 (pkt_start ?hn) (unat off) = read_bytes m1 (pkt_start ?hn) (unat off)"
    using byte_frame_read [OF c2(2), of "pkt_start ?hn" "unat off" "{pkt_at ?hn ..< pkt_at ?hn + unat off}"]
      r len h1 by auto
  with c1(3) have p1: "read_bytes m2 (pkt_start ?hn) (unat off) = take (unat off) ?D" by simp
  have "unat (ph_frame_len ?hn) = unat off + ((unat d0 - unat off) + unat n)" using len by simp
  moreover have "pkt_start ?hn + of_nat (unat off) + of_nat (unat d0 - unat off) = pkt_start ?hn + of_nat (unat d0)"
    using len(3) by (simp only: add.assoc of_nat_add [symmetric]) simp
  ultimately have "read_bytes m2 (pkt_start ?hn) (unat (ph_frame_len ?hn)) =
      take (unat off) ?D @ X @ take (unat n) (drop (unat so) ?D)"
    by (simp only: read_bytes_append p1 X_def c2(4))
  then show ?thesis
    using that [OF c1(1), of m2 X] c2(1,3) c1(2) by (simp add: t1_def X_def pkt_data_def byte_frame_def)
qed

text \<open>Handing over the metadata and releasing the old packet keep the data of the new one.\<close>

lemma md_free_ok:
  assumes ok: "pkt_pool_ok A i t (insert new owned)" and pn: "pkt \<in> owned" "new \<notin> owned"
    and wf: "pkt_wf (om_hdr (pt_mem t) new)"
  obtains t3 t4 where "pkt_copy_md t pkt new = Some t3" "odp_packet_free nofree t3 pkt = Some t4"
    "pkt_pool_ok A i t4 (insert new (if pkt_kept nofree t pkt then owned else owned - {pkt}))"
    "pkt_wf (om_hdr (pt_mem t4) new)" "pkt_data (pt_mem t4) new = pkt_data (pt_mem t) new"
    "byte_frame (uarea_range (pt_pool t ! i) (pt_mem t) new \<union> data_range (pt_pool t ! i) (pt_mem t) pkt)
       (pt_mem t) (pt_mem t4)"
    "\<And>a. a \<noteq> pkt \<Longrightarrow> a \<noteq> new \<Longrightarrow> om_hdr (pt_mem t4) a = om_hdr (pt_mem t) a"
proof -
  let ?m = "pt_mem t" and ?p = "pt_pool t ! i"
  note D = pkt_pool_okD [OF ok]
  have A: "pkt \<in> A" "new \<in> A" "pkt \<noteq> new" using D(7) pn by auto
  define m3 where "m3 = odp_packet_copy_md_to_packet ?m (pl_udata_size ?p) (pl_udata_size ?p) pkt new"
  have ms3: "mem_same ?m m3" unfolding m3_def by (rule copy_md_same)
  have h3: "\<And>a. a \<noteq> new \<Longrightarrow> om_hdr m3 a = om_hdr ?m a" "ph_frame_len (om_hdr m3 new) = ph_frame_len (om_hdr ?m new)"
    "ph_headroom (om_hdr m3 new) = ph_headroom (om_hdr ?m new)" "ph_tailroom (om_hdr m3 new) = ph_tailroom (om_hdr ?m new)"
    "bh_size (om_hdr m3 new) = bh_size (om_hdr ?m new)" "bh_addr (om_hdr m3 new) = bh_addr (om_hdr ?m new)"
    by (simp_all add: m3_def copy_md_hdr)
  have md: "pkt_copy_md t pkt new = Some (t\<lparr>pt_mem := m3\<rparr>)"
    using D(12) [OF A(1)] D(12) [OF A(2)] by (simp add: pkt_copy_md_def m3_def)
  have fr3: "byte_frame (uarea_range ?p ?m new) ?m m3"
    unfolding m3_def by (rule copy_md_frame [OF D(6) A(2)])
  have ok3: "pkt_pool_ok A i (t\<lparr>pt_mem := m3\<rparr>) (insert new owned)" by (rule pkt_pool_ok_mem [OF ok ms3])
  have k3: "pkt_kept nofree (t\<lparr>pt_mem := m3\<rparr>) pkt = pkt_kept nofree t pkt"
    using A(3) h3(1) by (simp add: pkt_kept_def)
  obtain t4 where f: "odp_packet_free nofree (t\<lparr>pt_mem := m3\<rparr>) pkt = Some t4"
    "pkt_pool_ok A i t4 (if pkt_kept nofree t pkt then insert new owned else insert new owned - {pkt})"
    "byte_frame (data_range ?p m3 pkt) m3 (pt_mem t4)" "\<And>a. a \<noteq> pkt \<Longrightarrow> om_hdr (pt_mem t4) a = om_hdr m3 a"
    by (rule packet_free_ok [OF ok3, of pkt nofree]) (use pn k3 in auto)
  have fr: "byte_frame (uarea_range ?p ?m new \<union> data_range ?p ?m pkt) ?m (pt_mem t4)"
    using byte_frame_trans [OF fr3 f(3)] data_range_same [OF ms3 same_pool_refl] by simp
  have h4: "om_hdr (pt_mem t4) new = om_hdr m3 new" using f(4) A(3) by auto
  have own: "(if pkt_kept nofree t pkt then insert new owned else insert new owned - {pkt}) =
      insert new (if pkt_kept nofree t pkt then owned else owned - {pkt})" using A(3) by auto
  have "pkt_data (pt_mem t4) new = pkt_data ?m new"
    using uarea_disjoint [OF D(6) A(2,2)] data_disjoint [OF ok A] h3 h4
    by (intro pkt_data_frame [OF ok A(2) wf fr]) auto
  moreover have "pkt_wf (om_hdr (pt_mem t4) new)" using wf h3 h4 by (simp add: pkt_wf_def)
  ultimately show ?thesis
    using that [OF md f(1)] f(2) [unfolded own] fr f(4) h3(1) by simp
qed

lemma packet_replace_ok:
  assumes ok: "pkt_pool_ok A i t (insert new owned)" and pn: "pkt \<in> owned" "new \<notin> owned" "new \<noteq> 0"
    and wf: "pkt_wf (om_hdr (pt_mem t) pkt)" "pkt_wf (om_hdr (pt_mem t) new)"
    and len: "unat off \<le> unat (ph_frame_len (om_hdr (pt_mem t) pkt))"
      "unat so + unat n \<le> unat (ph_frame_len (om_hdr (pt_mem t) pkt))" "unat off \<le> unat d0"
      "unat d0 + unat n = unat (ph_frame_len (om_hdr (pt_mem t) new))"
  obtains t' X where "packet_replace nofree t pkt new off so d0 n = Some (new, t')"
    "pkt_pool_ok A i t' (insert new (if pkt_kept nofree t pkt then owned else owned - {pkt}))"
    "pkt_wf (om_hdr (pt_mem t') new)" "length X = unat d0 - unat off"
    "pkt_data (pt_mem t') new = take (unat off) (pkt_data (pt_mem t) pkt) @ X @
       take (unat n) (drop (unat so) (pkt_data (pt_mem t) pkt))"
    "byte_frame (data_range (pt_pool t ! i) (pt_mem t) new \<union> uarea_range (pt_pool t ! i) (pt_mem t) new \<union>
       data_range (pt_pool t ! i) (pt_mem t) pkt) (pt_mem t) (pt_mem t')"
    "\<And>a. a \<noteq> pkt \<Longrightarrow> a \<noteq> new \<Longrightarrow> om_hdr (pt_mem t') a = om_hdr (pt_mem t) a"
proof -
  let ?m = "pt_mem t" and ?p = "pt_pool t ! i"
  note D = pkt_pool_okD [OF ok]
  have A: "pkt \<in> A" "new \<in> A" "pkt \<noteq> new" using D(7) pn by auto
  obtain t1 m2 X where c: "pkt_copy_range t pkt 0 new 0 off = Some (0, t1)"
    "pkt_copy_range t1 pkt so new d0 n = Some (0, t\<lparr>pt_mem := ?m\<lparr>om_byte := m2\<rparr>\<rparr>)"
    "byte_frame (data_range ?p ?m new) ?m (?m\<lparr>om_byte := m2\<rparr>)" "length X = unat d0 - unat off"
    "pkt_data (?m\<lparr>om_byte := m2\<rparr>) new = take (unat off) (pkt_data ?m pkt) @ X @
       take (unat n) (drop (unat so) (pkt_data ?m pkt))"
    by (rule two_copies_ok [OF ok A wf len])
  define t2 where "t2 = t\<lparr>pt_mem := ?m\<lparr>om_byte := m2\<rparr>\<rparr>"
  have h2: "om_hdr (pt_mem t2) = om_hdr ?m" "pt_pool t2 = pt_pool t" by (simp_all add: t2_def)
  have ok2: "pkt_pool_ok A i t2 (insert new owned)"
    unfolding t2_def by (rule pkt_pool_ok_mem [OF ok]) (simp add: mem_same_def)
  have k2: "pkt_kept nofree t2 pkt = pkt_kept nofree t pkt" by (simp add: pkt_kept_def h2)
  obtain t3 t4 where r: "pkt_copy_md t2 pkt new = Some t3" "odp_packet_free nofree t3 pkt = Some t4"
    "pkt_pool_ok A i t4 (insert new (if pkt_kept nofree t2 pkt then owned else owned - {pkt}))"
    "pkt_wf (om_hdr (pt_mem t4) new)" "pkt_data (pt_mem t4) new = pkt_data (pt_mem t2) new"
    "byte_frame (uarea_range ?p (pt_mem t2) new \<union> data_range ?p (pt_mem t2) pkt) (pt_mem t2) (pt_mem t4)"
    "\<And>a. a \<noteq> pkt \<Longrightarrow> a \<noteq> new \<Longrightarrow> om_hdr (pt_mem t4) a = om_hdr (pt_mem t2) a"
    by (rule md_free_ok [OF ok2 pn(1,2), of nofree]) (use wf h2 in auto)
  have "data_range ?p (pt_mem t2) pkt = data_range ?p ?m pkt" "uarea_range ?p (pt_mem t2) new = uarea_range ?p ?m new"
    by (simp_all add: data_range_def uarea_range_def h2)
  with r(6) c(3) have "byte_frame (data_range ?p ?m new \<union> uarea_range ?p ?m new \<union> data_range ?p ?m pkt) ?m (pt_mem t4)"
    by (simp add: byte_frame_def t2_def)
  moreover have "packet_replace nofree t pkt new off so d0 n = Some (new, t4)"
    using c(1,2) r(1,2) by (simp add: packet_replace_def t2_def)
  ultimately show ?thesis
    using that [of t4 X] r(3,4,5,7) c(4,5) k2 h2 by (simp add: t2_def)
qed


section \<open>Insertion and removal\<close>

lemma packet_alloc_big:
  assumes ok: "pkt_pool_ok A i t owned"
    and big: "unat (pl_seg_size (pt_pool t ! i)) <
        unat (pl_headroom (pt_pool t ! i)) + unat len + unat (pl_tailroom (pt_pool t ! i))"
    and "unat (pl_headroom (pt_pool t ! i)) + unat len + unat (pl_tailroom (pt_pool t ! i)) < 2 ^ 32"
  shows "odp_packet_alloc t i len = Some (0, t)"
proof -
  let ?p = "pt_pool t ! i"
  have sz: "pool_sizes_ok ?p" using ok by (simp add: pkt_pool_ok_def pool_ok_def)
  then have "len \<noteq> 0" using big by (auto simp: pool_sizes_ok_def)
  have "unat (pl_headroom ?p + len + pl_tailroom ?p) = unat (pl_headroom ?p) + unat len + unat (pl_tailroom ?p)"
    using assms(3) by (subst unat_add_small; subst unat_add_small) simp_all
  then have "pl_headroom ?p + len + pl_tailroom ?p > pl_seg_size ?p" using big by (simp add: u32_less)
  then have "buffer_alloc ?p (pt_cache t ! i) (pt_mem t) len 1 = Some (None, ?p, pt_cache t ! i, pt_mem t)"
    by (auto simp: buffer_alloc_def ODP_BUFFER_MAX_SEG_def Let_def)
  then show ?thesis using \<open>len \<noteq> 0\<close> by (simp add: odp_packet_alloc_def pool_alloc_def Let_def)
qed

text \<open>The common part: a new packet of length \<open>newlen\<close>, filled from two ranges of the old
  one; \<open>X\<close> is what lies between them.\<close>

definition packet_resized ::
  "u32 set \<Rightarrow> nat \<Rightarrow> pool_table \<Rightarrow> u32 set \<Rightarrow> bool \<Rightarrow> u32 \<Rightarrow> nat \<Rightarrow> (u8 list \<Rightarrow> u8 list \<Rightarrow> bool) \<Rightarrow>
   u32 \<Rightarrow> pool_table \<Rightarrow> bool" where
  "packet_resized A i t owned nofree pkt newlen R r t' \<longleftrightarrow>
     (r = 0 \<longleftrightarrow> owned = A \<or> unat (pl_seg_size (pt_pool t ! i)) <
        unat (pl_headroom (pt_pool t ! i)) + newlen + unat (pl_tailroom (pt_pool t ! i))) \<and>
     (r = 0 \<longrightarrow> pkt_pool_ok A i t' owned \<and> pt_mem t' = pt_mem t) \<and>
     (r \<noteq> 0 \<longrightarrow> r \<notin> owned \<and>
        pkt_pool_ok A i t' (insert r (if pkt_kept nofree t pkt then owned else owned - {pkt})) \<and>
        pkt_wf (om_hdr (pt_mem t') r) \<and> R (pkt_data (pt_mem t) pkt) (pkt_data (pt_mem t') r) \<and>
        (\<forall>b \<in> owned - {pkt}. pkt_wf (om_hdr (pt_mem t) b) \<longrightarrow>
           om_hdr (pt_mem t') b = om_hdr (pt_mem t) b \<and> pkt_data (pt_mem t') b = pkt_data (pt_mem t) b))"

lemma packet_resize_ok:
  assumes ok: "pkt_pool_ok A i t owned" and pkt: "pkt \<in> owned" and wf: "pkt_wf (om_hdr (pt_mem t) pkt)"
    and len: "unat off \<le> unat (ph_frame_len (om_hdr (pt_mem t) pkt))"
      "unat so + unat n \<le> unat (ph_frame_len (om_hdr (pt_mem t) pkt))" "unat off \<le> unat d0"
      "unat d0 + unat n = unat newlen"
    and nowrap: "unat (pl_headroom (pt_pool t ! i)) + unat newlen + unat (pl_tailroom (pt_pool t ! i)) < 2 ^ 32"
  shows "\<exists>r t'. Option.bind (odp_packet_alloc t i newlen)
      (\<lambda>(new, t). if new \<noteq> 0 then packet_replace nofree t pkt new off so d0 n else Some (new, t)) = Some (r, t') \<and>
    packet_resized A i t owned nofree pkt (unat newlen) (\<lambda>D E. \<exists>X. length X = unat d0 - unat off \<and>
        E = take (unat off) D @ X @ take (unat n) (drop (unat so) D)) r t'"
proof (cases "unat (pl_seg_size (pt_pool t ! i)) <
    unat (pl_headroom (pt_pool t ! i)) + unat newlen + unat (pl_tailroom (pt_pool t ! i))")
  case True
  from packet_alloc_big [OF ok True nowrap] ok True show ?thesis by (auto simp: packet_resized_def)
next
  case False
  note D = pkt_pool_okD [OF ok]
  have pA: "pkt \<in> A" using pkt D(7) by auto
  from False have sz: "unat (pl_headroom (pt_pool t ! i)) + unat newlen + unat (pl_tailroom (pt_pool t ! i)) \<le>
      unat (pl_seg_size (pt_pool t ! i))" by simp
  show ?thesis
  proof (rule packet_alloc_ok [OF ok sz])
    fix t' assume "odp_packet_alloc t i newlen = Some (0, t')" "owned = A" "pkt_pool_ok A i t' owned" "pt_mem t' = pt_mem t"
    then show ?thesis by (auto simp: packet_resized_def)
  next
    fix b and t1 :: pool_table
    let ?m = "pt_mem t" and ?m1 = "pt_mem t1" and ?p = "pt_pool t ! i"
    assume a: "odp_packet_alloc t i newlen = Some (b, t1)" "owned \<noteq> A" "b \<in> A - owned" "b \<noteq> 0"
      "pkt_pool_ok A i t1 (insert b owned)" "same_pool ?p (pt_pool t1 ! i)" "mem_same ?m ?m1"
      "byte_frame (data_range ?p ?m b) ?m ?m1" "\<And>a. a \<noteq> b \<Longrightarrow> om_hdr ?m1 a = om_hdr ?m a"
      "pkt_wf (om_hdr ?m1 b)" "unat (ph_frame_len (om_hdr ?m1 b)) = unat newlen"
    have nb: "pkt \<noteq> b" "b \<notin> owned" "b \<in> A" using a(3) pkt by auto
    have h1: "om_hdr ?m1 pkt = om_hdr ?m pkt" using a(9) nb(1) by auto
    have D1: "pkt_data ?m1 pkt = pkt_data ?m pkt"
      using data_disjoint [OF ok nb(3) pA] nb(1) h1 by (intro pkt_data_frame [OF ok pA wf a(8)]) auto
    have dr: "data_range (pt_pool t1 ! i) ?m1 c = data_range ?p ?m c" for c by (rule data_range_same [OF a(7,6)])
    obtain t' X where r: "packet_replace nofree t1 pkt b off so d0 n = Some (b, t')"
      "pkt_pool_ok A i t' (insert b (if pkt_kept nofree t1 pkt then owned else owned - {pkt}))"
      "pkt_wf (om_hdr (pt_mem t') b)" "length X = unat d0 - unat off"
      "pkt_data (pt_mem t') b = take (unat off) (pkt_data ?m1 pkt) @ X @ take (unat n) (drop (unat so) (pkt_data ?m1 pkt))"
      "byte_frame (data_range (pt_pool t1 ! i) ?m1 b \<union> uarea_range (pt_pool t1 ! i) ?m1 b \<union>
         data_range (pt_pool t1 ! i) ?m1 pkt) ?m1 (pt_mem t')"
      "\<And>a. a \<noteq> pkt \<Longrightarrow> a \<noteq> b \<Longrightarrow> om_hdr (pt_mem t') a = om_hdr ?m1 a"
      by (rule packet_replace_ok [OF a(5) pkt nb(2) a(4), of off so n d0 nofree])
        (use wf a(10,11) h1 len in auto)
    have other: "om_hdr (pt_mem t') c = om_hdr ?m c \<and> pkt_data (pt_mem t') c = pkt_data ?m c"
      if c: "c \<in> owned - {pkt}" and cw: "pkt_wf (om_hdr ?m c)" for c
    proof -
      have cA: "c \<in> A" "c \<noteq> b" "c \<noteq> pkt" using c D(7) nb by auto
      have hc: "om_hdr (pt_mem t') c = om_hdr ?m1 c" "om_hdr ?m1 c = om_hdr ?m c" using r(7) a(9) cA by auto
      have "pkt_data ?m1 c = pkt_data ?m c"
        using data_disjoint [OF ok nb(3) cA(1)] cA hc by (intro pkt_data_frame [OF ok cA(1) cw a(8)]) auto
      moreover have "pkt_data (pt_mem t') c = pkt_data ?m1 c"
        using data_disjoint [OF a(5) nb(3) cA(1)] data_disjoint [OF a(5) pA cA(1)] cA cw hc
          uarea_disjoint [OF pkt_pool_okD(6) [OF a(5)] nb(3) cA(1)]
        by (intro pkt_data_frame [OF a(5) cA(1) _ r(6)]) auto
      ultimately show ?thesis using hc by simp
    qed
    have k: "pkt_kept nofree t1 pkt = pkt_kept nofree t pkt" by (simp add: pkt_kept_def h1)
    show ?thesis
      by (rule exI [of _ b], rule exI [of _ t'])
        (use a(1-4) r other False nb D1 k in \<open>auto simp: packet_resized_def\<close>)
  qed
qed

lemma pkt_data_length [simp]: "length (pkt_data m b) = unat (ph_frame_len (om_hdr m b))"
  by (simp add: pkt_data_def)

lemma pkt_pool_nowrap:
  assumes "pkt_pool_ok A i t owned" "n < 2 ^ 31 + 2 ^ 16"
  shows "unat (pl_headroom (pt_pool t ! i)) + n + unat (pl_tailroom (pt_pool t ! i)) < 2 ^ 32"
  using assms by (simp add: pkt_pool_ok_def pool_ok_def pool_sizes_ok_def)

section \<open>Packet pools that have just been created\<close>

lemma udat_addr_unat:
  assumes "ly_ok ly base" "j < unat (ly_buf_num ly)" "ly_udata_stride ly \<noteq> 0"
  shows "unat (udat_addr ly base j) = udata_at ly base + j * unat (ly_udata_stride ly)"
    "udata_at ly base + j * unat (ly_udata_stride ly) + unat (ly_udata_stride ly) < 2 ^ 32"
proof -
  let ?n = "unat (ly_buf_num ly)" and ?s = "unat (ly_udata_stride ly)"
  have j: "unat (of_nat j :: u32) = j"
    using assms(2) u32_bound [of "ly_buf_num ly"] by (simp add: unat_of_nat_small)
  have "Suc j * ?s \<le> ?n * ?s" using assms(2) by (intro mult_le_mono1) simp
  then show b: "udata_at ly base + j * ?s + ?s < 2 ^ 32"
    using assms(1) by (simp add: ly_ok_def Let_def udata_at_def mdata_at_def block_at_def)
  then have "unat (of_nat j * ly_udata_stride ly) = j * ?s" using j by (simp add: unat_mult_small)
  then show "unat (udat_addr ly base j) = udata_at ly base + j * ?s"
    unfolding udat_addr_def using assms(3) b ly_bases(3) [OF assms(1)] by (simp add: unat_add_small)
qed

lemma pool_mem_ok_created:
  assumes ly: "ly_ok ly base" and hc: "\<forall>k < unat (ly_buf_num ly). hdr_created pid ly base m k"
    and p: "pl_seg_size p = ly_seg_size ly" "pl_buf_stride p = ly_buf_stride ly"
      "pl_udata_size p = ly_udata_size ly" "unat (ly_udata_size ly) \<le> unat (ly_udata_stride ly)"
  shows "pool_mem_ok (pool_hdrs ly base) p m"
  unfolding pool_mem_ok_def
proof (intro conjI ballI impI)
  let ?n = "unat (ly_buf_num ly)" and ?s = "unat (ly_blk_size ly)"
  have seg: "ly_seg_size ly = ly_blk_size ly" using ly by (simp add: ly_ok_def Let_def)
  have end_le: "block_at ly base + j * ?s + ?s \<le> mdata_at ly base" if "j < ?n" for j
    using mult_le_mono1 [of "Suc j" ?n ?s] rup64_bounds(1) [of "?n * ?s"] that by (simp add: mdata_at_def)
  have mu: "mdata_at ly base \<le> udata_at ly base" "udata_at ly base < 2 ^ 32"
    using ly by (simp_all add: udata_at_def mdata_at_def block_at_def ly_ok_def Let_def)
  have addr: "unat (bh_addr (om_hdr m (hdr_addr ly base j))) = block_at ly base + j * ?s" if "j < ?n" for j
    using hc that hdr_addr_unat(2) [OF ly, of j] by (simp add: hdr_created_def Let_def)
  fix a b assume a: "a \<in> pool_hdrs ly base" and b: "b \<in> pool_hdrs ly base"
  from b obtain k where k: "b = hdr_addr ly base k" "k < ?n" by (auto simp: pool_hdrs_def)
  show "a \<noteq> b \<Longrightarrow> data_range p m a \<inter> data_range p m b = {}" by (rule pool_data_disjoint(1) [OF ly hc p(1,2) a b])
  show "unat (bh_addr (om_hdr m b)) + unat (pl_seg_size p) < 2 ^ 32"
    using addr [OF k(2)] end_le [OF k(2)] mu k(1) p(1) seg by simp
  from a obtain j where j: "a = hdr_addr ly base j" "j < ?n" by (auto simp: pool_hdrs_def)
  show "let u = bh_uarea_addr (om_hdr m a) in u \<noteq> 0 \<longrightarrow>
        unat u + unat (pl_udata_size p) \<le> 2 ^ 32 \<and>
        {unat u ..< unat u + unat (pl_udata_size p)} \<inter> data_range p m b = {}"
  proof (cases "ly_udata_stride ly = 0")
    case True
    then show ?thesis using hc j by (simp add: hdr_created_def Let_def udat_addr_def)
  next
    case False
    note u = udat_addr_unat [OF ly j(2) False]
    have ua: "bh_uarea_addr (om_hdr m a) = udat_addr ly base j" using hc j by (simp add: hdr_created_def Let_def)
    have "data_range p m b \<subseteq> {..< mdata_at ly base}"
      using addr [OF k(2)] end_le [OF k(2)] k(1) p(1) seg by (auto simp: data_range_def)
    then show ?thesis using u mu p(3,4) unfolding ua Let_def by auto
  qed
qed

definition pkt_pool_params :: odp_pool_param_t where
  "pkt_pool_params = \<lparr>pp_type = ODP_POOL_PACKET, pp_num = 2, pp_size = 64, pp_align = 0, pp_uarea_size = 8\<rparr>"

definition pkt_pool_layout :: pool_layout where
  "pkt_pool_layout = \<lparr>ly_unseg = False, ly_headroom = 64, ly_tailroom = 0, ly_buf_num = 2,
     ly_blk_size = 128, ly_seg_len = 128, ly_udata_size = 8, ly_udata_stride = 8, ly_buf_stride = 192,
     ly_buf_align = 64\<rparr>"

lemma pkt_example_layout:
  "pool_create_layout (\<lambda>_. 192) (pool_params_norm pkt_pool_params) = Some pkt_pool_layout"
  by (simp add: pool_create_layout_def pool_params_norm_def pkt_pool_params_def pool_buf_align_def
      pool_packet_layout_def pool_seg_len_def event_types pool_consts ODP_ALIGN_ROUNDDOWN_POWER_2_def
      ODP_ALIGN_ROUNDUP_def pkt_pool_layout_def Let_def)

lemma pkt_example_ly_ok: "ly_ok pkt_pool_layout (odp_shm_addr pool_example_shm 1)"
  by (simp add: pool_example_addr ly_ok_def pkt_pool_layout_def Let_def rup64_def ly_seg_size_def)

lemma pkt_example_pool_ok:
  obtains A t where "pkt_pool_ok A 0 t {}" "card A = 2" "pl_seg_size (pt_pool t ! 0) = 128"
    "pl_headroom (pt_pool t ! 0) = 64" "pl_tailroom (pt_pool t ! 0) = 0"
proof -
  let ?ly = pkt_pool_layout and ?t = pool_example_table and ?base = "odp_shm_addr pool_example_shm 1"
  have res: "odp_shm_reserve (\<lambda>_. 65536) (pt_shm ?t) (take 31 ''p'') (ucast (ly_pool_size ?ly)) 4096 0 =
      Some (1, pool_example_shm)"
  proof -
    have "ly_pool_size ?ly = 4096" by (simp add: ly_size_defs pkt_pool_layout_def)
    with pool_example_reserve_page show ?thesis by simp
  qed
  obtain p' m' where p': "pl_seg_size p' = ly_seg_size ?ly" "pl_headroom p' = ly_headroom ?ly"
      "pl_tailroom p' = ly_tailroom ?ly" "pl_params p' = pool_params_norm pkt_pool_params"
      "pl_buf_stride p' = ly_buf_stride ?ly" "pl_udata_size p' = ly_udata_size ?ly"
      "pool_parts (pool_hdrs ?ly ?base) 0 p' m' 0 [] {}"
      "\<forall>k < unat (ly_buf_num ?ly). hdr_created 0 ?ly ?base m' k"
    by (rule pool_create_eq [OF pkt_example_layout pool_example_first res _ pkt_example_ly_ok])
      (simp_all add: ODP_SHM_INVALID_def)
  let ?t' = "?t\<lparr>pt_pool := (pt_pool ?t)[0 := p'], pt_mem := m'\<rparr>"
  have z: "pt_cache ?t ! 0 = 0" "length (pt_cache ?t) = length (pt_pool ?t)"
    by (simp_all add: pool_example_table_def ODP_CONFIG_POOLS_def)
  have n: "pt_pool ?t' ! 0 = p'" using pool_example_first(2) by simp
  have f: "pl_seg_size p' = 128" "pl_headroom p' = 64" "pl_tailroom p' = 0" "pp_size (pl_params p') = 64"
    "pp_type (pl_params p') = ODP_POOL_PACKET"
    using p'(1-4) by (simp_all add: pkt_pool_layout_def pkt_pool_params_def pool_params_norm_def
        event_types ly_seg_size_def)
  have mok: "pool_mem_ok (pool_hdrs ?ly ?base) p' m'"
    by (rule pool_mem_ok_created [OF pkt_example_ly_ok p'(8,1,5,6)]) (simp add: pkt_pool_layout_def)
  have "pool_ok (pool_hdrs ?ly ?base) 0 ?t' {}"
    using p'(7) z f n pool_example_first(2) by (auto simp: pool_ok_def pool_sizes_ok_def)
  then have "pkt_pool_ok (pool_hdrs ?ly ?base) 0 ?t' {}"
    using mok f n by (simp add: pkt_pool_ok_def)
  moreover have "card (pool_hdrs ?ly ?base) = 2"
    using p'(7) pool_hdrs_card [OF pkt_example_ly_ok] by (simp add: pkt_pool_layout_def)
  ultimately show ?thesis using that [of "pool_hdrs ?ly ?base" ?t'] f n by simp
qed

text \<open>A pool of two buffers in which one packet of 20 bytes is in use.\<close>

lemma pkt_example_owned:
  obtains A t b where "pkt_pool_ok A 0 t {b}" "{b} \<noteq> A" "pkt_wf (om_hdr (pt_mem t) b)"
    "unat (ph_frame_len (om_hdr (pt_mem t) b)) = 20" "pl_seg_size (pt_pool t ! 0) = 128"
    "pl_headroom (pt_pool t ! 0) = 64" "pl_tailroom (pt_pool t ! 0) = 0"
proof -
  obtain A t where t: "pkt_pool_ok A 0 t {}" "card A = 2" "pl_seg_size (pt_pool t ! 0) = 128"
    "pl_headroom (pt_pool t ! 0) = 64" "pl_tailroom (pt_pool t ! 0) = 0"
    by (rule pkt_example_pool_ok)
  show ?thesis
  proof (rule packet_alloc_ok [OF t(1), of 20])
    show "unat (pl_headroom (pt_pool t ! 0)) + unat (20 :: u32) + unat (pl_tailroom (pt_pool t ! 0)) \<le>
        unat (pl_seg_size (pt_pool t ! 0))" using t by simp
  next
    fix t' :: pool_table assume "{} = A"
    then have "card A = 0" by (metis card.empty)
    with t(2) show ?thesis by simp
  next
    fix b and t' :: pool_table
    assume a: "pkt_pool_ok A 0 t' {b}" "same_pool (pt_pool t ! 0) (pt_pool t' ! 0)"
      "pkt_wf (om_hdr (pt_mem t') b)" "unat (ph_frame_len (om_hdr (pt_mem t') b)) = unat (20 :: u32)"
    have "{b} \<noteq> A" using t(2) by (metis card_1_singleton_iff numeral_eq_one_iff semiring_norm(85) One_nat_def)
    with that a t show ?thesis by (simp add: same_pool_def)
  qed
qed

section \<open>Copies\<close>

lemma packet_copy_new:
  assumes ok: "pkt_pool_ok A i t owned" and pkt: "pkt \<in> owned" and wf: "pkt_wf (om_hdr (pt_mem t) pkt)"
    and al: "odp_packet_alloc t i (ucast (ph_frame_len (om_hdr (pt_mem t) pkt))) = Some (b, t1)" "b \<in> A - owned" "b \<noteq> 0"
      "pkt_pool_ok A i t1 (insert b owned)" "\<And>a. a \<noteq> b \<Longrightarrow> om_hdr (pt_mem t1) a = om_hdr (pt_mem t) a"
      "byte_frame (data_range (pt_pool t ! i) (pt_mem t) b) (pt_mem t) (pt_mem t1)"
  shows "\<exists>t'. odp_packet_copy nofree t pkt i = Some (b, t') \<and> pkt_pool_ok A i t' (insert b owned) \<and>
    pkt_wf (om_hdr (pt_mem t') b) \<and> pkt_data (pt_mem t') b = pkt_data (pt_mem t) pkt \<and>
    om_hdr (pt_mem t') b = hdr_copy_meta (om_hdr (pt_mem t) pkt) (om_hdr (pt_mem t') b) \<and>
    om_hdr (pt_mem t') pkt = om_hdr (pt_mem t) pkt \<and> pkt_data (pt_mem t') pkt = pkt_data (pt_mem t) pkt"
proof -
  let ?h = "om_hdr (pt_mem t) pkt" and ?f = "ucast (ph_frame_len (om_hdr (pt_mem t) pkt)) :: u32"
  have A: "pkt \<in> A" "b \<in> A" "pkt \<noteq> b" using pkt_pool_okD(7) [OF ok] pkt al(2) by auto
  have h1: "om_hdr (pt_mem t1) pkt = ?h" using al(5) A(3) by auto
  have D1: "pkt_data (pt_mem t1) pkt = pkt_data (pt_mem t) pkt"
    using data_disjoint [OF ok A(2,1)] A(3) h1 by (intro pkt_data_frame [OF ok A(1) wf al(6)]) auto
  define t2 where "t2 = t1\<lparr>pt_mem := upd_hdr b (hdr_copy_meta ?h) (pt_mem t1)\<rparr>"
  have ms: "mem_same (pt_mem t1) (pt_mem t2)" by (simp add: t2_def mem_same_def upd_hdr_def hdr_copy_meta_def)
  have ok2: "pkt_pool_ok A i t2 (insert b owned)"
    using pkt_pool_ok_mem [OF al(4), of "pt_mem t2"] ms by (simp add: t2_def)
  have h2: "om_hdr (pt_mem t2) pkt = ?h" "om_hdr (pt_mem t2) b = hdr_copy_meta ?h (om_hdr (pt_mem t1) b)"
    using A(3) h1 by (simp_all add: t2_def upd_hdr_def)
  have "bh_size (om_hdr (pt_mem t2) b) = bh_size ?h"
    using pkt_pool_okD(11) [OF ok2 A(2)] pkt_pool_okD(11) [OF ok2 A(1)] h2(1) by (simp add: hdr_ok_def)
  then have wf2: "pkt_wf (om_hdr (pt_mem t2) b)" "ph_frame_len (om_hdr (pt_mem t2) b) = ph_frame_len ?h"
    using wf h2 by (simp_all add: pkt_wf_def hdr_copy_meta_def)
  have D2: "pkt_data (pt_mem t2) pkt = pkt_data (pt_mem t) pkt"
    using D1 h1 h2(1) by (simp add: pkt_data_def t2_def upd_hdr_def)
  obtain mem' where c: "pkt_copy_range t2 pkt 0 b 0 ?f = Some (0, t2\<lparr>pt_mem := (pt_mem t2)\<lparr>om_byte := mem'\<rparr>\<rparr>)"
    "byte_frame (data_range (pt_pool t2 ! i) (pt_mem t2) b) (pt_mem t2) ((pt_mem t2)\<lparr>om_byte := mem'\<rparr>)"
    "read_bytes mem' (pkt_start (om_hdr (pt_mem t2) b) + of_nat (unat (0 :: u32))) (unat ?f) =
       take (unat ?f) (drop (unat (0 :: u32)) (pkt_data (pt_mem t2) pkt))"
    by (rule pkt_copy_range_ok [OF ok2 A, of 0 ?f 0]) (use wf wf2 h2 in auto)
  define t3 where "t3 = t2\<lparr>pt_mem := (pt_mem t2)\<lparr>om_byte := mem'\<rparr>\<rparr>"
  have h3: "om_hdr (pt_mem t3) = om_hdr (pt_mem t2)" by (simp add: t3_def)
  have ok3: "pkt_pool_ok A i t3 (insert b owned)"
    unfolding t3_def by (rule pkt_pool_ok_mem [OF ok2]) (simp add: mem_same_def)
  have "pkt_data (pt_mem t3) b = pkt_data (pt_mem t) pkt"
    using c(3) wf2(2) D2 by (simp add: pkt_data_def t3_def)
  moreover have "pkt_data (pt_mem t3) pkt = pkt_data (pt_mem t2) pkt"
    using data_disjoint [OF ok2 A(2,1)] A(3) wf h2(1)
    by (intro pkt_data_frame [OF ok2 A(1)]) (use c(2) in \<open>auto simp: t3_def\<close>)
  moreover have "odp_packet_copy nofree t pkt i = Some (b, t3)"
    using al(1,3) c(1) h1 by (simp add: odp_packet_copy_def Let_def t2_def t3_def)
  moreover have "hdr_copy_meta ?h (om_hdr (pt_mem t3) b) = om_hdr (pt_mem t3) b"
    using h2(2) h3 by (simp add: hdr_copy_meta_def)
  ultimately show ?thesis using ok3 wf2(1) h2(1) h3 D2 by auto
qed

section \<open>Properties\<close>

text \<open>C25. For a length below two gigabytes (beyond, the sum of the lengths can wrap in 32 bits) and an offset inside the packet,
  \<open>odp_packet_add_data\<close> fails exactly when no
  buffer of the pool is free or the longer packet does not fit a buffer, and then changes
  no packet. Otherwise the new packet has the old data with \<open>len\<close> bytes inserted at the
  offset, the old packet goes back to the pool (unless its \<open>nofree\<close> counter keeps it), and
  no other packet changes.\<close>

theorem packet_add_data_correct:
  assumes "pkt_pool_ok A i t owned" and "pkt \<in> owned" and "pkt_wf (om_hdr (pt_mem t) pkt)"
    and "unat off \<le> unat (ph_frame_len (om_hdr (pt_mem t) pkt))" and "unat len < 2 ^ 31"
  shows "\<exists>r t'. odp_packet_add_data nofree t pkt off len = Some (r, t') \<and>
    packet_resized A i t owned nofree pkt (unat (ph_frame_len (om_hdr (pt_mem t) pkt)) + unat len)
      (\<lambda>D E. \<exists>X. length X = unat len \<and> E = take (unat off) D @ X @ drop (unat off) D) r t'"
proof -
  define f where "f = ph_frame_len (om_hdr (pt_mem t) pkt)"
  have l: "unat off \<le> unat f" "unat f < 2 ^ 16" using assms(4) u16_bound [of f] by (simp_all add: f_def)
  have nl: "unat (ucast f + len) = unat f + unat len" using l assms(5) by (subst unat_add_small) simp_all
  have d: "unat (off + len) = unat off + unat len" using l assms(5) by (subst unat_add_small) simp_all
  have n: "unat (ucast f - off) = unat f - unat off" using l by (subst unat_sub_small) simp_all
  have nw: "unat (pl_headroom (pt_pool t ! i)) + unat (ucast f + len) + unat (pl_tailroom (pt_pool t ! i)) < 2 ^ 32"
    using nl l assms(5) by (intro pkt_pool_nowrap [OF assms(1)]) simp
  have bp: "buf_pool t pkt = Some i" using pkt_pool_okD(7,12) [OF assms(1)] assms(2) by auto
  have "\<not> off > ucast f" using l by (simp add: u32_less)
  then have eq: "odp_packet_add_data nofree t pkt off len =
      Option.bind (odp_packet_alloc t i (ucast f + len))
        (\<lambda>(new, t). if new \<noteq> 0 then packet_replace nofree t pkt new off off (off + len) (ucast f - off)
                   else Some (new, t))"
    using bp by (simp add: odp_packet_add_data_def f_def [symmetric] Let_def)
  from packet_resize_ok [OF assms(1-3), of off off "ucast f - off" "off + len" "ucast f + len" nofree]
  show ?thesis
    unfolding eq using l nl d n nw by (simp add: packet_resized_def f_def [symmetric])
qed

theorem packet_add_data_correct_witness:
  "\<exists>t pkt r t' X. odp_packet_add_data False t pkt 4 6 = Some (r, t') \<and> r \<noteq> 0 \<and> length X = 6 \<and>
     length (pkt_data (pt_mem t) pkt) = 20 \<and>
     pkt_data (pt_mem t') r = take 4 (pkt_data (pt_mem t) pkt) @ X @ drop 4 (pkt_data (pt_mem t) pkt)"
proof -
  obtain A t b where t: "pkt_pool_ok A 0 t {b}" "{b} \<noteq> A" "pkt_wf (om_hdr (pt_mem t) b)"
    "unat (ph_frame_len (om_hdr (pt_mem t) b)) = 20" "pl_seg_size (pt_pool t ! 0) = 128"
    "pl_headroom (pt_pool t ! 0) = 64" "pl_tailroom (pt_pool t ! 0) = 0"
    by (rule pkt_example_owned)
  from packet_add_data_correct [OF t(1) _ t(3), of 4 6 False] t(2,4-7) obtain r t' where
    r: "odp_packet_add_data False t b 4 6 = Some (r, t')" "r \<noteq> 0"
      "\<exists>X. length X = 6 \<and> pkt_data (pt_mem t') r = take 4 (pkt_data (pt_mem t) b) @ X @ drop 4 (pkt_data (pt_mem t) b)"
    by (auto simp: packet_resized_def)
  with t(4) show ?thesis
    by (intro exI [of _ t] exI [of _ b] exI [of _ r] exI [of _ t']) auto
qed

text \<open>\<open>odp_packet_rem_data\<close> of a range inside the packet fails exactly when no buffer of
  the pool is free or the shorter packet with the head room of the pool in front of it
  does not fit a buffer, and then changes no packet. Otherwise the new packet has the old data without that range, the old packet goes
  back to the pool, and no other packet changes.\<close>

lemma packet_rem_data_correct:
  assumes "pkt_pool_ok A i t owned" and "pkt \<in> owned" and "pkt_wf (om_hdr (pt_mem t) pkt)"
    and "unat off + unat len \<le> unat (ph_frame_len (om_hdr (pt_mem t) pkt))"
  shows "\<exists>r t'. odp_packet_rem_data nofree t pkt off len = Some (r, t') \<and>
    packet_resized A i t owned nofree pkt (unat (ph_frame_len (om_hdr (pt_mem t) pkt)) - unat len)
      (\<lambda>D E. E = take (unat off) D @ drop (unat off + unat len) D) r t'"
proof -
  define f where "f = ph_frame_len (om_hdr (pt_mem t) pkt)"
  have l: "unat off + unat len \<le> unat f" "unat f < 2 ^ 16" using assms(4) u16_bound [of f] by (simp_all add: f_def)
  have nl: "unat (ucast f - len) = unat f - unat len" using l by (subst unat_sub_small) simp_all
  have d: "unat (off + len) = unat off + unat len" using l by (subst unat_add_small) simp_all
  have "unat (ucast f - off) = unat f - unat off" using l by (subst unat_sub_small) simp_all
  then have n: "unat (ucast f - off - len) = unat f - unat off - unat len" using l by (subst unat_sub_small) simp_all
  have nw: "unat (pl_headroom (pt_pool t ! i)) + unat (ucast f - len) + unat (pl_tailroom (pt_pool t ! i)) < 2 ^ 32"
    using nl l by (intro pkt_pool_nowrap [OF assms(1)]) simp
  have bp: "buf_pool t pkt = Some i" using pkt_pool_okD(7,12) [OF assms(1)] assms(2) by auto
  have "\<not> off > ucast f" "\<not> off + len > ucast f" using l d by (simp_all add: u32_less)
  then have eq: "odp_packet_rem_data nofree t pkt off len =
      Option.bind (odp_packet_alloc t i (ucast f - len))
        (\<lambda>(new, t). if new \<noteq> 0 then packet_replace nofree t pkt new off (off + len) off (ucast f - off - len)
                   else Some (new, t))"
    using bp by (simp add: odp_packet_rem_data_def f_def [symmetric] Let_def)
  from packet_resize_ok [OF assms(1-3), of off "off + len" "ucast f - off - len" off "ucast f - len" nofree]
  show ?thesis
    unfolding eq using l nl d n nw by (simp add: packet_resized_def f_def [symmetric])
qed

text \<open>C26. \<open>odp_packet_copy\<close> into the packet's own pool fails exactly when no buffer is free or
  the packet does not fit behind the head room of a new buffer; otherwise the copy has
  the same data and the same packet header behind the embedded buffer header (flags, offsets, lengths, protocols, tags, input
  interface and flow hash), the original keeps both, and the copy is not in use yet. What the documentation counts as metadata beyond that, the user pointer, the user area and
  the reference count of the buffer header, is not copied: \<open>hdr_copy_meta\<close> leaves them as they are in the new buffer.\<close>

theorem packet_copy_correct:
  assumes "pkt_pool_ok A i t owned" and "pkt \<in> owned" and "pkt_wf (om_hdr (pt_mem t) pkt)"
  shows "\<exists>r t'. odp_packet_copy nofree t pkt i = Some (r, t') \<and>
    (r = 0 \<longleftrightarrow> owned = A \<or> unat (pl_seg_size (pt_pool t ! i)) < unat (pl_headroom (pt_pool t ! i)) +
        unat (ph_frame_len (om_hdr (pt_mem t) pkt)) + unat (pl_tailroom (pt_pool t ! i))) \<and>
    (r \<noteq> 0 \<longrightarrow> r \<notin> owned \<and> pkt_pool_ok A i t' (insert r owned) \<and> pkt_wf (om_hdr (pt_mem t') r) \<and>
       pkt_data (pt_mem t') r = pkt_data (pt_mem t) pkt \<and>
       om_hdr (pt_mem t') r = hdr_copy_meta (om_hdr (pt_mem t) pkt) (om_hdr (pt_mem t') r) \<and>
       om_hdr (pt_mem t') pkt = om_hdr (pt_mem t) pkt \<and> pkt_data (pt_mem t') pkt = pkt_data (pt_mem t) pkt)"
proof -
  define f :: u32 where "f = ucast (ph_frame_len (om_hdr (pt_mem t) pkt))"
  have f: "unat f = unat (ph_frame_len (om_hdr (pt_mem t) pkt))" "unat f < 2 ^ 16"
    using u16_bound [of "ph_frame_len (om_hdr (pt_mem t) pkt)"] by (simp_all add: f_def)
  have nw: "unat (pl_headroom (pt_pool t ! i)) + unat f + unat (pl_tailroom (pt_pool t ! i)) < 2 ^ 32"
    using f by (intro pkt_pool_nowrap [OF assms(1)]) simp
  show ?thesis
  proof (cases "unat (pl_seg_size (pt_pool t ! i)) <
      unat (pl_headroom (pt_pool t ! i)) + unat f + unat (pl_tailroom (pt_pool t ! i))")
    case True
    from packet_alloc_big [OF assms(1) True nw] True show ?thesis
      unfolding f(1) [symmetric] by (simp add: odp_packet_copy_def f_def Let_def)
  next
    case False
    then have sz: "unat (pl_headroom (pt_pool t ! i)) + unat f + unat (pl_tailroom (pt_pool t ! i)) \<le>
        unat (pl_seg_size (pt_pool t ! i))" by simp
    show ?thesis
    proof (rule packet_alloc_ok [OF assms(1) sz])
      fix t' assume "odp_packet_alloc t i f = Some (0, t')" "owned = A"
      then show ?thesis by (simp add: odp_packet_copy_def f_def Let_def)
    next
      fix b and t1 :: pool_table
      assume a: "odp_packet_alloc t i f = Some (b, t1)" "owned \<noteq> A" "b \<in> A - owned" "b \<noteq> 0"
        "pkt_pool_ok A i t1 (insert b owned)" "\<And>a. a \<noteq> b \<Longrightarrow> om_hdr (pt_mem t1) a = om_hdr (pt_mem t) a"
        "byte_frame (data_range (pt_pool t ! i) (pt_mem t) b) (pt_mem t) (pt_mem t1)"
      from packet_copy_new [OF assms a(1) [unfolded f_def] a(3-7), of nofree]
      show ?thesis unfolding f(1) [symmetric] using a(2-4) False by blast
    qed
  qed
qed

theorem packet_copy_correct_witness:
  "\<exists>t pkt r t'. odp_packet_copy False t pkt 0 = Some (r, t') \<and> r \<noteq> 0 \<and> r \<noteq> pkt \<and>
     length (pkt_data (pt_mem t) pkt) = 20 \<and> pkt_data (pt_mem t') r = pkt_data (pt_mem t) pkt"
proof -
  obtain A t b where t: "pkt_pool_ok A 0 t {b}" "{b} \<noteq> A" "pkt_wf (om_hdr (pt_mem t) b)"
    "unat (ph_frame_len (om_hdr (pt_mem t) b)) = 20" "pl_seg_size (pt_pool t ! 0) = 128"
    "pl_headroom (pt_pool t ! 0) = 64" "pl_tailroom (pt_pool t ! 0) = 0"
    by (rule pkt_example_owned)
  from packet_copy_correct [OF t(1) _ t(3), of False] t(2,4-7) obtain r t' where
    r: "odp_packet_copy False t b 0 = Some (r, t')" "r \<noteq> 0" "r \<noteq> b"
      "pkt_data (pt_mem t') r = pkt_data (pt_mem t) b"
    by auto
  with t(4) show ?thesis
    by (intro exI [of _ t] exI [of _ b] exI [of _ r] exI [of _ t']) auto
qed

text \<open>C27. For a length below two gigabytes, \<open>odp_packet_alloc\<close> fails exactly when every buffer
  of the pool is in use or the packet does not fit a buffer; otherwise it returns a buffer
  that was not in use, with a well-formed header and a frame of that length, and changes
  no other header.\<close>

theorem packet_alloc_correct:
  assumes "pkt_pool_ok A i t owned" and "unat len < 2 ^ 31"
  shows "\<exists>b t'. odp_packet_alloc t i len = Some (b, t') \<and>
    (b = 0 \<longleftrightarrow> owned = A \<or> unat (pl_seg_size (pt_pool t ! i)) <
        unat (pl_headroom (pt_pool t ! i)) + unat len + unat (pl_tailroom (pt_pool t ! i))) \<and>
    (b \<noteq> 0 \<longrightarrow> b \<in> A - owned \<and> pkt_pool_ok A i t' (insert b owned) \<and> pkt_wf (om_hdr (pt_mem t') b) \<and>
       length (pkt_data (pt_mem t') b) = unat len \<and> (\<forall>c. c \<noteq> b \<longrightarrow> om_hdr (pt_mem t') c = om_hdr (pt_mem t) c))"
proof (cases "unat (pl_seg_size (pt_pool t ! i)) <
    unat (pl_headroom (pt_pool t ! i)) + unat len + unat (pl_tailroom (pt_pool t ! i))")
  case True
  have "unat (pl_headroom (pt_pool t ! i)) + unat len + unat (pl_tailroom (pt_pool t ! i)) < 2 ^ 32"
    by (rule pkt_pool_nowrap [OF assms(1)]) (use assms(2) in simp)
  from packet_alloc_big [OF assms(1) True this] True show ?thesis by auto
next
  case False
  then have sz: "unat (pl_headroom (pt_pool t ! i)) + unat len + unat (pl_tailroom (pt_pool t ! i)) \<le>
      unat (pl_seg_size (pt_pool t ! i))" by simp
  show ?thesis by (rule packet_alloc_ok [OF assms(1) sz]) (use False in auto)
qed

theorem packet_alloc_correct_witness:
  "\<exists>t b t'. odp_packet_alloc t 0 20 = Some (b, t') \<and> b \<noteq> 0 \<and> length (pkt_data (pt_mem t') b) = 20"
proof -
  obtain A t where t: "pkt_pool_ok A 0 t {}" "card A = 2" "pl_seg_size (pt_pool t ! 0) = 128"
    "pl_headroom (pt_pool t ! 0) = 64" "pl_tailroom (pt_pool t ! 0) = 0"
    by (rule pkt_example_pool_ok)
  have "{} \<noteq> A" using t(2) by auto
  with packet_alloc_correct [OF t(1), of 20] t(3-5) show ?thesis by auto
qed

text \<open>The size check of an allocation is a 32-bit sum. A length within the head room of
  the end of the 32-bit range passes it, and the packet returned claims more data than
  its buffer holds.\<close>

lemma packet_alloc_wraps:
  assumes "pkt_pool_ok A i t owned" and "owned \<noteq> A" and "pl_tailroom (pt_pool t ! i) = 0"
    and "2 ^ 32 \<le> unat (pl_headroom (pt_pool t ! i)) + unat len"
  shows "\<exists>b t'. odp_packet_alloc t i len = Some (b, t') \<and> b \<noteq> 0 \<and>
    unat (bh_size (om_hdr (pt_mem t') b)) <
      unat (ph_headroom (om_hdr (pt_mem t') b)) + length (pkt_data (pt_mem t') b)"
proof -
  let ?p = "pt_pool t ! i"
  note D = pkt_pool_okD [OF assms(1)]
  from D(1) obtain cs where parts: "pool_parts A i ?p (pt_mem t) (pt_cache t ! i) cs owned"
    by (auto simp: pool_ok_def)
  have nz: "len \<noteq> 0" using assms(4) u32_bound [of "pl_headroom ?p"] by auto
  have sum: "unat (pl_headroom ?p + len) = unat (pl_headroom ?p) + unat len - 2 ^ 32"
    using assms(4) u32_bound [of "pl_headroom ?p"] u32_bound [of len] by (simp add: unat_plus_if_size word_size)
  have "unat (pl_headroom ?p + len + pl_tailroom ?p) \<le> unat (pl_seg_size ?p)"
    using sum assms(3) D(4) u32_bound [of len] by simp
  then obtain bs p' cache' m' cs' where al: "buffer_alloc ?p (pt_cache t ! i) (pt_mem t) len 1 = Some (Some bs, p', cache', m')"
    and p': "same_pool ?p p'" "pool_parts A i p' m' cache' cs' (set bs \<union> owned)"
      "bs = (if cs \<noteq> [] \<and> (1::nat) \<noteq> 0 then take 1 cs else take (min 1 16) (ring_list (pl_ring ?p)))"
    by (rule buffer_alloc_parts_mod [OF parts _ D(5), of len 1]) auto
  have "cs \<noteq> [] \<or> ring_list (pl_ring ?p) \<noteq> []" using parts assms(2) by (auto simp: pool_parts_def)
  then obtain b where bs: "bs = [b]" using p'(3) by (cases cs; cases "ring_list (pl_ring ?p)") auto
  then have b: "b \<in> A" "b \<noteq> 0" "bh_size (om_hdr m' b) = ucast (pl_seg_size p')"
    using p'(2) by (auto simp: pool_parts_def hdr_ok_def)
  let ?h = "packet_init_hdr p' (om_hdr m' b) len False"
  have "odp_packet_alloc t i len = Some (b, t\<lparr>pt_pool := (pt_pool t)[i := p'], pt_cache := (pt_cache t)[i := cache'],
      pt_mem := alloc_pkt_init p' len len b m'\<rparr>)"
    using al bs nz D(2,8) by (simp add: odp_packet_alloc_def pool_alloc_def Let_def)
  moreover have "2 ^ 16 \<le> unat (pl_headroom p') + unat (ucast len :: u16)"
  proof -
    have "unat (ucast len :: u16) = unat len mod 2 ^ 16"
      by (simp add: unsigned_ucast_eq take_bit_eq_mod)
    moreover have "unat (pl_headroom ?p) < 2 ^ 16" using D(4,5) by simp
    then have "unat len div 2 ^ 16 = 2 ^ 16 - 1"
      using assms(4) u32_bound [of len] by (intro div_nat_eqI) auto
    ultimately show ?thesis
      using assms(4) div_mult_mod_eq [of "unat len" "2 ^ 16"] p'(1) by (simp add: same_pool_def)
  qed
  moreover have "unat (ucast (pl_headroom p') :: u16) = unat (pl_headroom p')" "unat (ucast (pl_seg_size p') :: u16) < 2 ^ 16"
    using D(4,5) p'(1) by (simp_all add: unat_ucast_32_16 same_pool_def)
  ultimately show ?thesis using b nz by (simp add: alloc_pkt_init_hdr Let_def)
qed

end
