(* ===== verification/Odp_Pktio.thy ===== *)
theory Odp_Pktio
  imports Odp_Queue Odp_Packet
begin

text \<open>
  Packet interfaces (\<open>platform/mppa/odp_packet_io.c\<close>) and the loop interface
  (\<open>platform/mppa/pktio/loop.c\<close>). An interface is identified by its index in the table; \<open>ptr\<close>
  gives the address of its entry, which is the handle stored in packets. The drivers are records of
  operations, as in the source, and an argument of the functions that call them; the loop
  interface is one of them. An operation that the source may leave out is an option. The fields
  \<open>pktin\<close> and \<open>pktout\<close> of the queue entries are kept beside the queues. A locked section is one step;
  \<open>None\<close> is a call that aborts, does not return or reads through a null pointer.
\<close>

section \<open>State\<close>

definition ODP_CONFIG_PKTIO_ENTRIES :: nat where "ODP_CONFIG_PKTIO_ENTRIES = 32"
definition PKTIO_NAME_LEN :: nat where "PKTIO_NAME_LEN = 256"
definition QUEUE_MULTI_MAX :: nat where "QUEUE_MULTI_MAX = 8"
definition ODP_PKTIN_MODE_DISABLED :: int where "ODP_PKTIN_MODE_DISABLED = 3"
definition ODP_PKTOUT_MODE_DISABLED :: int where "ODP_PKTOUT_MODE_DISABLED = 2"
definition ETH_ALEN :: int where "ETH_ALEN = 6"

lemmas pktio_consts = ODP_CONFIG_PKTIO_ENTRIES_def PKTIO_NAME_LEN_def QUEUE_MULTI_MAX_def
  ODP_PKTIN_MODE_DISABLED_def ODP_PKTOUT_MODE_DISABLED_def ETH_ALEN_def

datatype pktio_run = STATE_START | STATE_STOP

record odp_pktio_param_t =
  iop_in_mode :: int
  iop_out_mode :: int

record pktio_entry =
  pe_ops :: "nat option"
  pe_taken :: bool
  pe_cls_enabled :: bool
  pe_handle :: "nat option"
  pe_inq_default :: "nat option"
  pe_outq_default :: "nat option"
  pe_name :: string
  pe_loopq :: "nat option"
  pe_promisc :: bool
  pe_state :: pktio_run
  pe_param :: odp_pktio_param_t

record io_state =
  io_st :: odp_state
  io_tbl :: "pktio_entry list"
  io_pktin :: "nat \<Rightarrow> nat option"
  io_pktout :: "nat \<Rightarrow> nat option"

text \<open>The results of the operations are the return value and the new state; \<open>recv\<close> also gives the packets.\<close>

record pktio_if_ops_t =
  op_init :: "(io_state \<Rightarrow> int \<times> io_state) option"
  op_term :: "(io_state \<Rightarrow> int \<times> io_state) option"
  op_open :: "nat \<Rightarrow> string \<Rightarrow> nat option \<Rightarrow> io_state \<Rightarrow> (int \<times> io_state) option"
  op_close :: "nat \<Rightarrow> io_state \<Rightarrow> (int \<times> io_state) option"
  op_start :: "(nat \<Rightarrow> io_state \<Rightarrow> (int \<times> io_state) option) option"
  op_stop :: "(nat \<Rightarrow> io_state \<Rightarrow> (int \<times> io_state) option) option"
  op_recv :: "nat \<Rightarrow> nat \<Rightarrow> io_state \<Rightarrow> (int \<times> u32 list \<times> io_state) option"
  op_send :: "nat \<Rightarrow> u32 list \<Rightarrow> io_state \<Rightarrow> (int \<times> io_state) option"
  op_mtu_get :: "nat \<Rightarrow> io_state \<Rightarrow> int"
  op_promisc_mode_set :: "nat \<Rightarrow> bool \<Rightarrow> io_state \<Rightarrow> int \<times> io_state"
  op_promisc_mode_get :: "nat \<Rightarrow> io_state \<Rightarrow> int"
  op_mac_get :: "nat \<Rightarrow> io_state \<Rightarrow> int \<times> u8 list"

abbreviation pe :: "io_state \<Rightarrow> nat \<Rightarrow> pktio_entry" where "pe s i \<equiv> io_tbl s ! i"

definition upd_pe :: "nat \<Rightarrow> (pktio_entry \<Rightarrow> pktio_entry) \<Rightarrow> io_state \<Rightarrow> io_state" where
  "upd_pe i f s = s\<lparr>io_tbl := (io_tbl s)[i := f (io_tbl s ! i)]\<rparr>"

text \<open>The driver of an open interface; \<open>None\<close> when the entry has none.\<close>

definition entry_ops :: "pktio_if_ops_t list \<Rightarrow> io_state \<Rightarrow> nat \<Rightarrow> pktio_if_ops_t option" where
  "entry_ops drv s i = map_option (\<lambda>k. drv ! k) (pe_ops (pe s i))"

section \<open>Opening and closing\<close>

definition pktio_zero :: pktio_entry where
  "pktio_zero = \<lparr>pe_ops = None, pe_taken = False, pe_cls_enabled = False, pe_handle = None,
     pe_inq_default = None, pe_outq_default = None, pe_name = [], pe_loopq = None, pe_promisc = False,
     pe_state = STATE_START, pe_param = \<lparr>iop_in_mode = 0, iop_out_mode = 0\<rparr>\<rparr>"

fun dec_digits :: "nat \<Rightarrow> string" where
  "dec_digits n = (if n < 10 then [char_of (48 + n)] else dec_digits (n div 10) @ [char_of (48 + n mod 10)])"

declare dec_digits.simps [simp del]

text \<open>The default output queue of each entry.\<close>

fun init_outqs :: "nat list \<Rightarrow> io_state \<Rightarrow> (int \<times> io_state) option" where
  "init_outqs [] s = Some (0, s)"
| "init_outqs (i # is) s =
     do {
       (qid, st) \<leftarrow> odp_queue_create (io_st s) (dec_digits i @ ''-pktio_outq_default'') ODP_QUEUE_TYPE_PKTOUT None;
       let s = s\<lparr>io_st := st\<rparr>;
       case qid of
         None \<Rightarrow> Some (- 1, s)
       | Some q \<Rightarrow> init_outqs is ((upd_pe i (\<lambda>e. e\<lparr>pe_outq_default := qid\<rparr>) s)\<lparr>io_pktout := (io_pktout s)(q := Some i)\<rparr>)
     }"

definition init_drivers :: "pktio_if_ops_t list \<Rightarrow> io_state \<Rightarrow> io_state" where
  "init_drivers drv s = fold (\<lambda>d s. case op_init d of None \<Rightarrow> s | Some f \<Rightarrow> snd (f s)) drv s"

definition odp_pktio_init_global :: "pktio_if_ops_t list \<Rightarrow> io_state \<Rightarrow> (int \<times> io_state) option" where
  "odp_pktio_init_global drv s =
     do {
       (rc, s) \<leftarrow> init_outqs [0..<ODP_CONFIG_PKTIO_ENTRIES]
         (s\<lparr>io_tbl := replicate ODP_CONFIG_PKTIO_ENTRIES pktio_zero\<rparr>);
       if rc \<noteq> 0 then Some (- 1, s) else Some (0, init_drivers drv s)
     }"

definition is_free :: "pktio_entry \<Rightarrow> bool" where "is_free e \<longleftrightarrow> \<not> pe_taken e"
definition set_free :: "pktio_entry \<Rightarrow> pktio_entry" where "set_free e = e\<lparr>pe_taken := False\<rparr>"
definition set_taken :: "pktio_entry \<Rightarrow> pktio_entry" where "set_taken e = e\<lparr>pe_taken := True\<rparr>"

definition init_pktio_entry :: "pktio_entry \<Rightarrow> pktio_entry" where
  "init_pktio_entry e = (set_taken e)\<lparr>pe_cls_enabled := False, pe_inq_default := None\<rparr>"

definition alloc_lock_pktio_entry :: "io_state \<Rightarrow> nat option \<times> io_state" where
  "alloc_lock_pktio_entry s =
     (case find (\<lambda>i. is_free (pe s i)) [0..<ODP_CONFIG_PKTIO_ENTRIES] of
        Some i \<Rightarrow> (Some i, upd_pe i init_pktio_entry s)
      | None \<Rightarrow> (None, s))"

definition free_pktio_entry :: "nat \<Rightarrow> io_state \<Rightarrow> io_state" where
  "free_pktio_entry i s = upd_pe i set_free s"

text \<open>The drivers are tried in their order; \<open>k\<close> is the position of the next one.\<close>

fun open_drivers :: "pktio_if_ops_t list \<Rightarrow> nat \<Rightarrow> nat \<Rightarrow> string \<Rightarrow> nat option \<Rightarrow> io_state \<Rightarrow> (int \<times> io_state) option" where
  "open_drivers [] k i dev pool s = Some (- 1, s)"
| "open_drivers (d # ds) k i dev pool s =
     do {
       (ret, s) \<leftarrow> op_open d i dev pool s;
       if ret = 0 then Some (0, upd_pe i (\<lambda>e. e\<lparr>pe_ops := Some k\<rparr>) s)
       else open_drivers ds (Suc k) i dev pool s
     }"

definition setup_pktio_entry ::
  "pktio_if_ops_t list \<Rightarrow> string \<Rightarrow> nat option \<Rightarrow> odp_pktio_param_t \<Rightarrow> io_state \<Rightarrow> (nat option \<times> io_state) option" where
  "setup_pktio_entry drv dev pool param s =
     (if length dev \<ge> PKTIO_NAME_LEN - 1 then Some (None, s)
      else case alloc_lock_pktio_entry s of
             (None, s) \<Rightarrow> Some (None, s)
           | (Some i, s) \<Rightarrow> do {
               (ret, s) \<leftarrow> open_drivers drv 0 i dev pool (upd_pe i (\<lambda>e. e\<lparr>pe_param := param\<rparr>) s);
               if ret \<noteq> 0
               then Some (None, upd_pe i (\<lambda>e. e\<lparr>pe_handle := None\<rparr>) (free_pktio_entry i s))
               else Some (Some i, upd_pe i (\<lambda>e. e\<lparr>pe_name := dev, pe_state := STATE_STOP, pe_handle := Some i\<rparr>) s)
             })"

definition odp_pktio_lookup :: "string \<Rightarrow> io_state \<Rightarrow> nat option" where
  "odp_pktio_lookup dev s =
     find (\<lambda>i. \<not> is_free (pe s i) \<and> pe_name (pe s i) = dev) [0..<ODP_CONFIG_PKTIO_ENTRIES]"

definition pool_type_is_packet :: "pool_table \<Rightarrow> nat option \<Rightarrow> bool" where
  "pool_type_is_packet t pool =
     (case odp_pool_info t pool of None \<Rightarrow> False | Some (_, params) \<Rightarrow> pp_type params = ODP_POOL_PACKET)"

definition odp_pktio_open ::
  "pktio_if_ops_t list \<Rightarrow> string \<Rightarrow> nat option \<Rightarrow> odp_pktio_param_t \<Rightarrow> io_state \<Rightarrow> (nat option \<times> io_state) option" where
  "odp_pktio_open drv dev pool param s =
     (if \<not> pool_type_is_packet (os_pools (io_st s)) pool then None
      else if odp_pktio_lookup dev s \<noteq> None then Some (None, s)
      else setup_pktio_entry drv dev pool param s)"

definition pktio_close :: "pktio_if_ops_t list \<Rightarrow> nat \<Rightarrow> io_state \<Rightarrow> (int \<times> io_state) option" where
  "pktio_close drv i s =
     do {
       d \<leftarrow> entry_ops drv s i;
       (ret, s) \<leftarrow> op_close d i s;
       if ret \<noteq> 0 then Some (- 1, s) else Some (0, upd_pe i set_free s)
     }"

text \<open>The result for a free entry is the uninitialised variable \<open>res\<close>, here the argument \<open>junk\<close>.\<close>

definition odp_pktio_close :: "int \<Rightarrow> pktio_if_ops_t list \<Rightarrow> nat option \<Rightarrow> io_state \<Rightarrow> (int \<times> io_state) option" where
  "odp_pktio_close junk drv pktio s =
     (case pktio of
        None \<Rightarrow> Some (- 1, s)
      | Some i \<Rightarrow> do {
          (res, s) \<leftarrow> (if \<not> is_free (pe s i)
            then do { (res, s) \<leftarrow> pktio_close drv i s; if res \<noteq> 0 then None else Some (res, s) }
            else Some (junk, s));
          Some (if res \<noteq> 0 then - 1 else 0, s)
        })"

section \<open>Starting and stopping\<close>

definition odp_pktio_start :: "pktio_if_ops_t list \<Rightarrow> nat option \<Rightarrow> io_state \<Rightarrow> (int \<times> io_state) option" where
  "odp_pktio_start drv pktio s =
     (case pktio of
        None \<Rightarrow> Some (- 1, s)
      | Some i \<Rightarrow>
          if pe_state (pe s i) = STATE_START then Some (- 1, s)
          else do {
            d \<leftarrow> entry_ops drv s i;
            (res, s) \<leftarrow> (case op_start d of None \<Rightarrow> Some (0, s) | Some f \<Rightarrow> f i s);
            Some (res, if res = 0 then upd_pe i (\<lambda>e. e\<lparr>pe_state := STATE_START\<rparr>) s else s)
          })"

definition pktio_stop :: "pktio_if_ops_t list \<Rightarrow> nat \<Rightarrow> io_state \<Rightarrow> (int \<times> io_state) option" where
  "pktio_stop drv i s =
     (if pe_state (pe s i) = STATE_STOP then Some (- 1, s)
      else do {
        d \<leftarrow> entry_ops drv s i;
        (res, s) \<leftarrow> (case op_stop d of None \<Rightarrow> Some (0, s) | Some f \<Rightarrow> f i s);
        Some (res, if res = 0 then upd_pe i (\<lambda>e. e\<lparr>pe_state := STATE_STOP\<rparr>) s else s)
      })"

definition odp_pktio_stop :: "pktio_if_ops_t list \<Rightarrow> nat option \<Rightarrow> io_state \<Rightarrow> (int \<times> io_state) option" where
  "odp_pktio_stop drv pktio s = (case pktio of None \<Rightarrow> Some (- 1, s) | Some i \<Rightarrow> pktio_stop drv i s)"

section \<open>Receiving and sending\<close>

fun set_input :: "u32 \<Rightarrow> u32 list \<Rightarrow> odp_state \<Rightarrow> odp_state" where
  "set_input hdl [] st = st"
| "set_input hdl (p # ps) st = set_input hdl ps (upd_buf p (\<lambda>h. h\<lparr>ph_input := hdl\<rparr>) st)"

definition odp_pktio_recv ::
  "(nat \<Rightarrow> u32) \<Rightarrow> pktio_if_ops_t list \<Rightarrow> nat option \<Rightarrow> nat \<Rightarrow> io_state \<Rightarrow> (int \<times> u32 list \<times> io_state) option" where
  "odp_pktio_recv ptr drv pktio len s =
     (case pktio of
        None \<Rightarrow> Some (- 1, [], s)
      | Some i \<Rightarrow>
          if pe_state (pe s i) = STATE_STOP \<or> iop_in_mode (pe_param (pe s i)) = ODP_PKTIN_MODE_DISABLED
          then Some (- 1, [], s)
          else do {
            d \<leftarrow> entry_ops drv s i;
            (pkts, tbl, s) \<leftarrow> op_recv d i len s;
            if pkts < 0 then Some (pkts, tbl, s)
            else Some (pkts, tbl, s\<lparr>io_st := set_input (ptr i) (take (nat pkts) tbl) (io_st s)\<rparr>)
          })"

definition odp_pktio_send ::
  "pktio_if_ops_t list \<Rightarrow> nat option \<Rightarrow> u32 list \<Rightarrow> io_state \<Rightarrow> (int \<times> io_state) option" where
  "odp_pktio_send drv pktio pkts s =
     (case pktio of
        None \<Rightarrow> Some (- 1, s)
      | Some i \<Rightarrow>
          if pe_state (pe s i) = STATE_STOP \<or> iop_out_mode (pe_param (pe s i)) = ODP_PKTOUT_MODE_DISABLED
          then Some (- 1, s)
          else do { d \<leftarrow> entry_ops drv s i; op_send d i pkts s })"

definition pktout_enqueue :: "pktio_if_ops_t list \<Rightarrow> nat \<Rightarrow> u32 \<Rightarrow> io_state \<Rightarrow> (int \<times> io_state) option" where
  "pktout_enqueue drv queue pkt s =
     do {
       (nbr, s) \<leftarrow> odp_pktio_send drv (io_pktout s queue) [pkt] s;
       Some (if nbr = 1 then 0 else - 1, s)
     }"

definition pktout_enq_multi :: "pktio_if_ops_t list \<Rightarrow> nat \<Rightarrow> u32 list \<Rightarrow> io_state \<Rightarrow> (int \<times> io_state) option" where
  "pktout_enq_multi drv queue pkts s = odp_pktio_send drv (io_pktout s queue) pkts s"

section \<open>Input queues\<close>

definition schedule_pktio_start ::
  "(odp_state \<Rightarrow> nat \<Rightarrow> u32 list \<Rightarrow> int \<times> odp_state) \<Rightarrow> nat \<Rightarrow> nat \<Rightarrow> odp_state \<Rightarrow> (int \<times> odp_state) option" where
  "schedule_pktio_start io pktio prio st =
     do {
       (buf, pools) \<leftarrow> odp_buffer_alloc (os_pools st) (sc_pool (os_sched st));
       let st = st\<lparr>os_pools := pools\<rparr>;
       if buf = 0 then Some (- 1, st)
       else do {
         let st = st\<lparr>os_cmd := (os_cmd st)(buf := Cmd_poll_pktin pktio prio)\<rparr>;
         let (pri, st) = pri_set prio st;
         (rc, st) \<leftarrow> odp_queue_enq io st pri buf;
         if rc \<noteq> 0 then None else Some (0, st)
       }
     }"

definition odp_pktio_inq_setdef ::
  "(odp_state \<Rightarrow> nat \<Rightarrow> u32 list \<Rightarrow> int \<times> odp_state) \<Rightarrow> nat option \<Rightarrow> nat option \<Rightarrow> io_state \<Rightarrow> (int \<times> io_state) option" where
  "odp_pktio_inq_setdef io pktio queue s =
     (case (pktio, queue) of
        (Some i, Some q) \<Rightarrow>
          if qe_type (qe (io_st s) q) \<noteq> ODP_QUEUE_TYPE_PKTIN then Some (- 1, s)
          else if pe_state (pe s i) \<noteq> STATE_STOP then Some (- 1, s)
          else do {
            let s = (upd_pe i (\<lambda>e. e\<lparr>pe_inq_default := queue\<rparr>) s)\<lparr>io_pktin := (io_pktin s)(q := pktio)\<rparr>;
            (rc, st) \<leftarrow> schedule_pktio_start io i (ODP_CONFIG_SCHED_PRIOS - 1) (io_st s);
            let s = s\<lparr>io_st := st\<rparr>;
            Some (if rc \<noteq> 0 then - 1 else 0, s)
          }
      | _ \<Rightarrow> Some (- 1, s))"

definition odp_pktio_inq_remdef :: "nat option \<Rightarrow> io_state \<Rightarrow> (int \<times> io_state) option" where
  "odp_pktio_inq_remdef pktio s =
     (case pktio of
        None \<Rightarrow> Some (- 1, s)
      | Some i \<Rightarrow>
          if pe_state (pe s i) \<noteq> STATE_STOP then Some (- 1, s)
          else do {
            q \<leftarrow> pe_inq_default (pe s i);
            Some (0, (upd_pe i (\<lambda>e. e\<lparr>pe_inq_default := None\<rparr>) s)\<lparr>io_pktin := (io_pktin s)(q := None)\<rparr>)
          })"

definition odp_pktio_inq_getdef :: "nat option \<Rightarrow> io_state \<Rightarrow> nat option" where
  "odp_pktio_inq_getdef pktio s = (case pktio of None \<Rightarrow> None | Some i \<Rightarrow> pe_inq_default (pe s i))"

definition odp_pktio_outq_getdef :: "nat option \<Rightarrow> io_state \<Rightarrow> nat option" where
  "odp_pktio_outq_getdef pktio s = (case pktio of None \<Rightarrow> None | Some i \<Rightarrow> pe_outq_default (pe s i))"

text \<open>The packets beyond the request are enqueued. When the queue has been destroyed the source
  uses the return value \<open>-1\<close> as a position (\<open>None\<close>), unless nothing is received.\<close>

definition pktin_deq_multi ::
  "(odp_state \<Rightarrow> nat \<Rightarrow> u32 list \<Rightarrow> int \<times> odp_state) \<Rightarrow> (nat \<Rightarrow> u32) \<Rightarrow> pktio_if_ops_t list \<Rightarrow> nat \<Rightarrow> nat \<Rightarrow> io_state \<Rightarrow>
   (u32 list option \<times> io_state) option" where
  "pktin_deq_multi io ptr drv queue num s =
     (let (bufs, st) = queue_deq_multi (io_st s) queue num; s = s\<lparr>io_st := st\<rparr> in
      if (case bufs of None \<Rightarrow> False | Some bs \<Rightarrow> length bs = num) then Some (bufs, s)
      else do {
        (pkts, tbl, s) \<leftarrow> odp_pktio_recv ptr drv (io_pktin s queue) QUEUE_MULTI_MAX s;
        if pkts \<le> 0 then Some (bufs, s)
        else do {
          bs \<leftarrow> bufs;
          let tbl = take (nat pkts) tbl;
          if length bs + nat pkts \<le> num then Some (Some (bs @ tbl), s)
          else do {
            (_, st) \<leftarrow> queue_enq_multi io (io_st s) queue (drop (num - length bs) tbl) False;
            Some (Some (bs @ take (num - length bs) tbl), s\<lparr>io_st := st\<rparr>)
          }
        }
      })"

text \<open>The packet, or the null pointer.\<close>

definition pktin_dequeue ::
  "(odp_state \<Rightarrow> nat \<Rightarrow> u32 list \<Rightarrow> int \<times> odp_state) \<Rightarrow> (nat \<Rightarrow> u32) \<Rightarrow> pktio_if_ops_t list \<Rightarrow> nat \<Rightarrow> io_state \<Rightarrow>
   (u32 \<times> io_state) option" where
  "pktin_dequeue io ptr drv queue s =
     map_option (\<lambda>(bufs, s). (case bufs of Some (b # _) \<Rightarrow> b | _ \<Rightarrow> 0, s)) (pktin_deq_multi io ptr drv queue 1 s)"

definition pktin_poll ::
  "(odp_state \<Rightarrow> nat \<Rightarrow> u32 list \<Rightarrow> int \<times> odp_state) \<Rightarrow> (nat \<Rightarrow> u32) \<Rightarrow> pktio_if_ops_t list \<Rightarrow> nat \<Rightarrow> io_state \<Rightarrow>
   (int \<times> io_state) option" where
  "pktin_poll io ptr drv i s =
     (if is_free (pe s i) then Some (- 1, s)
      else case pe_inq_default (pe s i) of
        None \<Rightarrow> Some (- 1, s)
      | Some _ \<Rightarrow>
          if pe_state (pe s i) = STATE_STOP then Some (0, s)
          else do {
            (num, tbl, s) \<leftarrow> odp_pktio_recv ptr drv (pe_handle (pe s i)) QUEUE_MULTI_MAX s;
            if num = 0 then Some (0, s)
            else if num < 0 then Some (- 1, s)
            else do {
              q \<leftarrow> pe_inq_default (pe s i);
              (_, st) \<leftarrow> queue_enq_multi io (io_st s) q (take (nat num) tbl) False;
              Some (0, s\<lparr>io_st := st\<rparr>)
            }
          })"

section \<open>Attributes and shut-down\<close>

definition odp_pktio_mtu :: "pktio_if_ops_t list \<Rightarrow> nat option \<Rightarrow> io_state \<Rightarrow> int option" where
  "odp_pktio_mtu drv pktio s =
     (case pktio of
        None \<Rightarrow> Some (- 1)
      | Some i \<Rightarrow> if is_free (pe s i) then Some (- 1) else map_option (\<lambda>d. op_mtu_get d i s) (entry_ops drv s i))"

definition odp_pktio_promisc_mode_set ::
  "pktio_if_ops_t list \<Rightarrow> nat option \<Rightarrow> bool \<Rightarrow> io_state \<Rightarrow> (int \<times> io_state) option" where
  "odp_pktio_promisc_mode_set drv pktio enable s =
     (case pktio of
        None \<Rightarrow> Some (- 1, s)
      | Some i \<Rightarrow>
          if is_free (pe s i) then Some (- 1, s)
          else if pe_state (pe s i) \<noteq> STATE_STOP then Some (- 1, s)
          else map_option (\<lambda>d. op_promisc_mode_set d i enable s) (entry_ops drv s i))"

definition odp_pktio_promisc_mode :: "pktio_if_ops_t list \<Rightarrow> nat option \<Rightarrow> io_state \<Rightarrow> int option" where
  "odp_pktio_promisc_mode drv pktio s =
     (case pktio of
        None \<Rightarrow> Some (- 1)
      | Some i \<Rightarrow> if is_free (pe s i) then Some (- 1) else map_option (\<lambda>d. op_promisc_mode_get d i s) (entry_ops drv s i))"

text \<open>The return value and the bytes written.\<close>

definition odp_pktio_mac_addr ::
  "pktio_if_ops_t list \<Rightarrow> nat option \<Rightarrow> int \<Rightarrow> io_state \<Rightarrow> (int \<times> u8 list) option" where
  "odp_pktio_mac_addr drv pktio addr_size s =
     (if addr_size < ETH_ALEN then Some (- 1, [])
      else case pktio of
        None \<Rightarrow> Some (- 1, [])
      | Some i \<Rightarrow> if is_free (pe s i) then Some (- 1, []) else map_option (\<lambda>d. op_mac_get d i s) (entry_ops drv s i))"

definition odp_pktio_param_init :: odp_pktio_param_t where
  "odp_pktio_param_init = \<lparr>iop_in_mode = 0, iop_out_mode = 0\<rparr>"

fun term_entries :: "pktio_if_ops_t list \<Rightarrow> nat list \<Rightarrow> io_state \<Rightarrow> io_state option" where
  "term_entries drv [] s = Some s"
| "term_entries drv (i # is) s =
     do {
       outq \<leftarrow> pe_outq_default (pe s i);
       (ret, st) \<leftarrow> odp_queue_destroy (io_st s) outq;
       let s = s\<lparr>io_st := st\<rparr>;
       if ret \<noteq> 0 then None
       else if is_free (pe s i) then term_entries drv is s
       else do {
         s \<leftarrow> (if pe_state (pe s i) \<noteq> STATE_STOP
           then do { (ret, s) \<leftarrow> pktio_stop drv i s; if ret \<noteq> 0 then None else Some s }
           else Some s);
         (ret, s) \<leftarrow> pktio_close drv i s;
         if ret \<noteq> 0 then None else term_entries drv is s
       }
     }"

definition odp_pktio_term_global :: "pktio_if_ops_t list \<Rightarrow> io_state \<Rightarrow> (int \<times> io_state) option" where
  "odp_pktio_term_global drv s =
     map_option (\<lambda>s. (0, fold (\<lambda>d s. case op_term d of None \<Rightarrow> s | Some f \<Rightarrow> snd (f s)) drv s))
       (term_entries drv [0..<ODP_CONFIG_PKTIO_ENTRIES] s)"

section \<open>The loop interface\<close>

definition pktio_loop_mac :: "u8 list" where "pktio_loop_mac = [0x02, 0xe9, 0x34, 0x80, 0x73, 0x01]"

definition loopback_open :: "(nat \<Rightarrow> u32) \<Rightarrow> nat \<Rightarrow> string \<Rightarrow> nat option \<Rightarrow> io_state \<Rightarrow> (int \<times> io_state) option" where
  "loopback_open ptr i devname pool s =
     (if devname \<noteq> ''loop'' then Some (- 1, s)
      else do {
        (loopq, st) \<leftarrow> odp_queue_create (io_st s) (dec_digits (unat (ptr i)) @ ''-pktio_loopq'') ODP_QUEUE_TYPE_POLL None;
        let s = upd_pe i (\<lambda>e. e\<lparr>pe_loopq := loopq\<rparr>) (s\<lparr>io_st := st\<rparr>);
        Some (if loopq = None then - 1 else 0, s)
      })"

definition loopback_close :: "nat \<Rightarrow> io_state \<Rightarrow> (int \<times> io_state) option" where
  "loopback_close i s =
     do {
       q \<leftarrow> pe_loopq (pe s i);
       (rc, st) \<leftarrow> odp_queue_destroy (io_st s) q;
       Some (rc, s\<lparr>io_st := st\<rparr>)
     }"

definition parse_input :: "u32 \<Rightarrow> odp_state \<Rightarrow> odp_state" where
  "parse_input p st = upd_buf p (\<lambda>h. packet_parse_l2 (packet_parse_reset h)) st"

text \<open>With the classifier enabled, the packets it dispatches to a queue are not received; the
  classifier is the argument \<open>cls\<close>.\<close>

fun classify_input ::
  "(nat \<Rightarrow> u32 \<Rightarrow> odp_state \<Rightarrow> int \<times> odp_state) \<Rightarrow> nat \<Rightarrow> u32 list \<Rightarrow> odp_state \<Rightarrow> u32 list \<times> odp_state" where
  "classify_input cls i [] st = ([], st)"
| "classify_input cls i (p # ps) st =
     (let (rc, st) = cls i p (parse_input p st);
          (qs, st) = classify_input cls i ps st
      in (if 0 > rc then p # qs else qs, st))"

definition loopback_recv ::
  "(nat \<Rightarrow> u32 \<Rightarrow> odp_state \<Rightarrow> int \<times> odp_state) \<Rightarrow> nat \<Rightarrow> nat \<Rightarrow> io_state \<Rightarrow> (int \<times> u32 list \<times> io_state) option" where
  "loopback_recv cls i len s =
     do {
       q \<leftarrow> pe_loopq (pe s i);
       let (bufs, st) = queue_deq_multi (io_st s) q len;
       if pe_cls_enabled (pe s i)
       then let (pkts, st) = (case bufs of None \<Rightarrow> ([], st) | Some bs \<Rightarrow> classify_input cls i bs st)
            in Some (int (length pkts), pkts, s\<lparr>io_st := st\<rparr>)
       else case bufs of
              None \<Rightarrow> Some (- 1, [], s\<lparr>io_st := st\<rparr>)
            | Some bs \<Rightarrow> Some (int (length bs), bs, s\<lparr>io_st := fold parse_input bs st\<rparr>)
     }"

definition loopback_send ::
  "(odp_state \<Rightarrow> nat \<Rightarrow> u32 list \<Rightarrow> int \<times> odp_state) \<Rightarrow> nat \<Rightarrow> u32 list \<Rightarrow> io_state \<Rightarrow> (int \<times> io_state) option" where
  "loopback_send io i pkts s =
     do {
       q \<leftarrow> pe_loopq (pe s i);
       (rc, st) \<leftarrow> queue_enq_multi io (io_st s) q pkts False;
       Some (rc, s\<lparr>io_st := st\<rparr>)
     }"

definition loopback_promisc_mode_set :: "nat \<Rightarrow> bool \<Rightarrow> io_state \<Rightarrow> int \<times> io_state" where
  "loopback_promisc_mode_set i enable s = (0, upd_pe i (\<lambda>e. e\<lparr>pe_promisc := enable\<rparr>) s)"

definition loopback_pktio_ops ::
  "(odp_state \<Rightarrow> nat \<Rightarrow> u32 list \<Rightarrow> int \<times> odp_state) \<Rightarrow> (nat \<Rightarrow> u32) \<Rightarrow> (nat \<Rightarrow> u32 \<Rightarrow> odp_state \<Rightarrow> int \<times> odp_state) \<Rightarrow>
   pktio_if_ops_t" where
  "loopback_pktio_ops io ptr cls =
     \<lparr>op_init = None, op_term = None, op_open = loopback_open ptr, op_close = loopback_close,
      op_start = None, op_stop = None, op_recv = loopback_recv cls, op_send = loopback_send io,
      op_mtu_get = \<lambda>_ _. 2147483647, op_promisc_mode_set = loopback_promisc_mode_set,
      op_promisc_mode_get = \<lambda>i s. if pe_promisc (pe s i) then 1 else 0,
      op_mac_get = \<lambda>_ _. (ETH_ALEN, pktio_loop_mac)\<rparr>"

section \<open>The loop interface as a first-in first-out container\<close>

lemma upd_buf_keep:
  assumes "\<And>h. bh_next (f h) = bh_next h" "\<And>h. bh_origin_qe (f h) = bh_origin_qe h"
  shows "nexts (upd_buf b f st) = nexts st" "bh_origin_qe (hdr (upd_buf b f st) a) = bh_origin_qe (hdr st a)"
  using assms by (auto simp: nexts_def fun_eq_iff)

lemma parse_l2_keep [simp]:
  "bh_next (packet_parse_l2 (packet_parse_reset h)) = bh_next h"
  "bh_origin_qe (packet_parse_l2 (packet_parse_reset h)) = bh_origin_qe h"
  by (simp_all add: packet_parse_l2_def packet_parse_reset_def Let_def)

definition same_queues :: "odp_state \<Rightarrow> odp_state \<Rightarrow> bool" where
  "same_queues st st' \<longleftrightarrow> nexts st' = nexts st \<and> os_queue st' = os_queue st \<and> os_local st' = os_local st \<and>
     (\<forall>a. bh_origin_qe (hdr st' a) = bh_origin_qe (hdr st a))"

lemma same_queues_rep: "same_queues st st' \<Longrightarrow> poll_rep q (st, own) evs \<Longrightarrow> poll_rep q (st', own) evs"
  by (simp add: same_queues_def poll_rep_def queue_rep_def)

lemma same_queues_trans: "same_queues a b \<Longrightarrow> same_queues b c \<Longrightarrow> same_queues a c"
  by (simp add: same_queues_def)

lemma parse_input_same: "same_queues st (parse_input p st)"
  by (simp add: same_queues_def parse_input_def upd_buf_keep del: nexts_upd)

lemma parse_inputs_same: "same_queues st (fold parse_input ps st)"
proof (induction ps arbitrary: st)
  case (Cons p ps)
  show ?case using same_queues_trans [OF parse_input_same Cons] by simp
qed (simp add: same_queues_def)

lemma set_input_same: "same_queues st (set_input hdl ps st)"
proof (induction ps arbitrary: st)
  case (Cons p ps)
  have "same_queues st (upd_buf p (\<lambda>h. h\<lparr>ph_input := hdl\<rparr>) st)"
    by (simp add: same_queues_def upd_buf_keep del: nexts_upd)
  then show ?case using same_queues_trans [OF _ Cons] by simp
qed (simp add: same_queues_def)

lemma set_input_hdr:
  "hdr (set_input hdl ps st) a = (if a \<in> set ps then (hdr st a)\<lparr>ph_input := hdl\<rparr> else hdr st a)"
  by (induction ps arbitrary: st) auto

lemma parse_inputs_hdr:
  "distinct ps \<Longrightarrow> hdr (fold parse_input ps st) a =
     (if a \<in> set ps then packet_parse_l2 (packet_parse_reset (hdr st a)) else hdr st a)"
  by (induction ps arbitrary: st) (auto simp: parse_input_def)

definition loop_rep where
  "loop_rep io ptr cls drv i s evs \<longleftrightarrow>
     entry_ops drv (fst s) i = Some (loopback_pktio_ops io ptr cls) \<and> pe_state (pe (fst s) i) = STATE_START \<and>
     iop_in_mode (pe_param (pe (fst s) i)) \<noteq> ODP_PKTIN_MODE_DISABLED \<and>
     iop_out_mode (pe_param (pe (fst s) i)) \<noteq> ODP_PKTOUT_MODE_DISABLED \<and> \<not> pe_cls_enabled (pe (fst s) i) \<and>
     (\<exists>q. pe_loopq (pe (fst s) i) = Some q \<and> poll_rep q (io_st (fst s), snd s) evs)"

definition loop_fits :: "io_state \<times> u32 set \<Rightarrow> u32 list \<Rightarrow> bool" where
  "loop_fits s pkts \<longleftrightarrow> poll_fits (io_st (fst s), snd s) pkts"

lemma queue_enq_multi_sustain:
  assumes "poll_rep q (st, own) evs" "poll_fits (st, own) bs"
  shows "queue_enq_multi io st q bs False = odp_queue_enq_multi io st q bs"
proof -
  have b: "bs ! 0 \<in> own" using assms(2) by (auto simp: poll_fits_def)
  have "bh_origin_qe (hdr (chain_bufs bs st) (bs ! 0)) = None" "sl_origin_qe (os_local (chain_bufs bs st)) = None"
    using assms(1) b by (simp_all add: poll_rep_def)
  then obtain order st' where "get_queue_order (chain_bufs bs st) (bs ! 0) = ((None, order), st')"
    using get_queue_order_none by blast
  then show ?thesis using assms(1)
    by (simp add: odp_queue_enq_multi_def queue_enq_multi_def poll_rep_def queue_consts Let_def)
qed

lemma loop_send_rep:
  assumes rep: "loop_rep io ptr cls drv i (x, own) evs" and fits: "loop_fits (x, own) pkts"
  shows "\<exists>x'. odp_pktio_send drv (Some i) pkts x = Some (int (length pkts), x') \<and>
    loop_rep io ptr cls drv i (x', own - set pkts) (evs @ pkts)"
proof -
  obtain q where q: "pe_loopq (pe x i) = Some q" "poll_rep q (io_st x, own) evs" using rep by (auto simp: loop_rep_def)
  have f: "poll_fits (io_st x, own) pkts" using fits by (simp add: loop_fits_def)
  obtain st' where st': "odp_queue_enq_multi io (io_st x) q pkts = Some (int (length pkts), st')"
    "poll_rep q (st', own - set pkts) (evs @ pkts)" using poll_put_rep [OF q(2) f, of io] by auto
  have "odp_pktio_send drv (Some i) pkts x = Some (int (length pkts), x\<lparr>io_st := st'\<rparr>)"
    using rep q(1) st'(1) queue_enq_multi_sustain [OF q(2) f, of io]
    by (simp add: odp_pktio_send_def loop_rep_def loopback_pktio_ops_def loopback_send_def)
  moreover have "loop_rep io ptr cls drv i (x\<lparr>io_st := st'\<rparr>, own - set pkts) (evs @ pkts)"
    using rep q(1) st'(2) by (simp add: loop_rep_def entry_ops_def)
  ultimately show ?thesis by blast
qed

lemma loop_recv_rep:
  assumes rep: "loop_rep io ptr cls drv i (x, own) evs"
  shows "\<exists>x'. odp_pktio_recv ptr drv (Some i) n x = Some (int (length (take n evs)), take n evs, x') \<and>
    loop_rep io ptr cls drv i (x', own \<union> set (take n evs)) (drop n evs) \<and>
    (\<forall>p \<in> set (take n evs). ph_input (hdr (io_st x') p) = ptr i \<and>
       if_parsed_l2 (ph_input_flags (hdr (io_st x') p)) \<and> \<not> if_parsed_all (ph_input_flags (hdr (io_st x') p)))"
proof -
  obtain q where q: "pe_loopq (pe x i) = Some q" "poll_rep q (io_st x, own) evs" using rep by (auto simp: loop_rep_def)
  let ?bs = "take n evs"
  obtain st1 where st1: "queue_deq_multi (io_st x) q n = (Some ?bs, st1)"
    "poll_rep q (st1, own \<union> set ?bs) (drop n evs)"
    using poll_get_rep [OF q(2), of n] q(2) by (auto simp: odp_queue_deq_multi_def poll_rep_def queue_consts split: if_splits)
  have d: "distinct ?bs" using q(2) queue_rep_distinct by (auto simp: poll_rep_def)
  define st2 where "st2 = fold parse_input ?bs st1"
  define st3 where "st3 = set_input (ptr i) ?bs st2"
  have "same_queues st1 st3" unfolding st3_def st2_def by (rule same_queues_trans [OF parse_inputs_same set_input_same])
  then have rep3: "poll_rep q (st3, own \<union> set ?bs) (drop n evs)" using st1(2) same_queues_rep by blast
  have "take (min (length evs) n) evs = ?bs" by (simp add: min_def)
  then have "odp_pktio_recv ptr drv (Some i) n x = Some (int (length ?bs), ?bs, x\<lparr>io_st := st3\<rparr>)"
    using rep q(1) st1(1)
    by (simp add: odp_pktio_recv_def loop_rep_def loopback_pktio_ops_def loopback_recv_def st3_def st2_def)
  moreover have "loop_rep io ptr cls drv i (x\<lparr>io_st := st3\<rparr>, own \<union> set ?bs) (drop n evs)"
    using rep q(1) rep3 by (simp add: loop_rep_def entry_ops_def)
  moreover have "hdr st3 p = (packet_parse_l2 (packet_parse_reset (hdr st1 p)))\<lparr>ph_input := ptr i\<rparr>" if "p \<in> set ?bs" for p
    unfolding st3_def st2_def set_input_hdr using that d by (simp add: parse_inputs_hdr)
  ultimately show ?thesis
    by (intro exI [of _ "x\<lparr>io_st := st3\<rparr>"])
      (simp add: packet_parse_l2_def packet_parse_reset_def Let_def input_flags_zero_def)
qed

definition loop_put where
  "loop_put drv i s pkts =
     (case odp_pktio_send drv (Some i) pkts (fst s) of Some (n, x) \<Rightarrow> (x, snd s - set pkts) | None \<Rightarrow> s)"

definition loop_get where
  "loop_get ptr drv i s n =
     (case odp_pktio_recv ptr drv (Some i) n (fst s) of
        Some (k, pkts, x) \<Rightarrow> (pkts, x, snd s \<union> set pkts) | None \<Rightarrow> ([], s))"

interpretation lp: fifo_container "loop_rep io ptr cls drv i" loop_fits "loop_put drv i" "loop_get ptr drv i"
  for io ptr cls drv i
proof unfold_locales
  fix s evs pkts
  assume "loop_rep io ptr cls drv i s evs" "loop_fits s pkts"
  then show "loop_rep io ptr cls drv i (loop_put drv i s pkts) (evs @ pkts)"
    using loop_send_rep [of io ptr cls drv i "fst s" "snd s" evs pkts] by (auto simp: loop_put_def)
next
  fix s evs n
  assume "loop_rep io ptr cls drv i s evs"
  then obtain x where "odp_pktio_recv ptr drv (Some i) n (fst s) = Some (int (length (take n evs)), take n evs, x)"
    "loop_rep io ptr cls drv i (x, snd s \<union> set (take n evs)) (drop n evs)"
    using loop_recv_rep [of io ptr cls drv i "fst s" "snd s" evs n] by auto
  then show "\<exists>zs. evs = fst (loop_get ptr drv i s n) @ zs \<and> loop_rep io ptr cls drv i (snd (loop_get ptr drv i s n)) zs"
    by (intro exI [of _ "drop n evs"]) (simp add: loop_get_def)
qed

text \<open>A dequeue from a destroyed input queue that receives packets writes in front of the caller's array.\<close>

lemma pktin_deq_multi_destroyed:
  assumes "qe_status (qe (io_st s) queue) < QUEUE_STATUS_READY"
    and "odp_pktio_recv ptr drv (io_pktin s queue) QUEUE_MULTI_MAX s = Some (pkts, tbl, s')" "0 < pkts"
  shows "pktin_deq_multi io ptr drv queue num s = None"
  using assms by (simp add: pktin_deq_multi_def queue_deq_multi_def)

section \<open>Properties\<close>

text \<open>C24. Packets sent on the loop interface come back from it, when the interface is started, its input and output modes are not
  disabled, the classifier is not enabled for it (otherwise the packets go to the queues of their classes) and the thread is not
  inside an ordered context: a send of one or more distinct packets that the caller holds takes them all, and a
  receive of up to \<open>n\<close> packets gives the oldest \<open>n\<close> of those in the loop, in the order they were
  sent, marked with the interface they came from, with the metadata of layer 2 only. Packets are
  owned either by the loop or by the caller.\<close>

theorem loop_interface_roundtrip:
  assumes "loop_rep io ptr cls drv i (x, own) evs" and "loop_fits (x, own) pkts"
  shows "\<exists>x1 x2. odp_pktio_send drv (Some i) pkts x = Some (int (length pkts), x1) \<and>
    odp_pktio_recv ptr drv (Some i) n x1 =
      Some (int (length (take n (evs @ pkts))), take n (evs @ pkts), x2) \<and>
    loop_rep io ptr cls drv i (x2, (own - set pkts) \<union> set (take n (evs @ pkts))) (drop n (evs @ pkts)) \<and>
    (\<forall>p \<in> set (take n (evs @ pkts)). ph_input (hdr (io_st x2) p) = ptr i \<and>
       if_parsed_l2 (ph_input_flags (hdr (io_st x2) p)) \<and> \<not> if_parsed_all (ph_input_flags (hdr (io_st x2) p)))"
proof -
  obtain x1 where x1: "odp_pktio_send drv (Some i) pkts x = Some (int (length pkts), x1)"
    "loop_rep io ptr cls drv i (x1, own - set pkts) (evs @ pkts)"
    using loop_send_rep [OF assms] by blast
  then show ?thesis using loop_recv_rep [OF x1(2), of n] by blast
qed

definition loop_example :: io_state where
  "loop_example =
     \<lparr>io_st = queue_example_polled,
      io_tbl = [pktio_zero\<lparr>pe_ops := Some 0, pe_taken := True, pe_handle := Some 0, pe_loopq := Some 0\<rparr>],
      io_pktin = \<lambda>_. None, io_pktout = \<lambda>_. None\<rparr>"

abbreviation "no_output \<equiv> \<lambda>(st :: odp_state) (q :: nat) (bs :: u32 list). (- 1 :: int, st)"
abbreviation "no_classes \<equiv> \<lambda>(i :: nat) (p :: u32) (st :: odp_state). (- 1 :: int, st)"
abbreviation "loop_drivers \<equiv> [loopback_pktio_ops no_output (\<lambda>i. 4096) no_classes]"

lemma loop_example_rep:
  "loop_rep no_output (\<lambda>i. 4096) no_classes loop_drivers 0 (loop_example, {64, 128, 192}) []"
  using queue_example_polled_rep by (simp add: loop_rep_def loop_example_def entry_ops_def pktio_zero_def pktio_consts)

theorem loop_interface_roundtrip_witness:
  "\<exists>x1 x2. odp_pktio_send loop_drivers (Some 0) [64, 128, 192] loop_example = Some (3, x1) \<and>
    odp_pktio_recv (\<lambda>i. 4096) loop_drivers (Some 0) 2 x1 = Some (2, [64, 128], x2) \<and>
    ph_input (hdr (io_st x2) 128) = 4096"
proof -
  have "loop_fits (loop_example, {64, 128, 192}) [64, 128, 192]" by (simp add: loop_fits_def poll_fits_def)
  from loop_interface_roundtrip [OF loop_example_rep this, of 2] show ?thesis by simp blast
qed

end
