(* ===== verification/Odp_Cpumask.thy ===== *)
theory Odp_Cpumask
  imports Odp_Prelude
begin

text \<open>
  CPU masks (\<open>platform/mppa/odp_cpumask.c\<close>, \<open>odp_cpumask_task.c\<close>) and thread masks
  (\<open>platform/linux-generic/odp_thrmask.c\<close>, the same operations on threads). A mask is a word of
  32 bits. The number of CPUs a mask can hold, \<open>CPU_SETSIZE\<close>, comes from the operating system
  and is the parameter \<open>setsize\<close>; a string is the list of its characters without the final
  null character.
\<close>

unbundle bit_operations_syntax

section \<open>Definitions\<close>

type_synonym odp_cpumask_t = u32

definition cpu_bit :: "nat \<Rightarrow> u32" where "cpu_bit cpu = push_bit cpu 1"

definition odp_cpumask_zero :: odp_cpumask_t where "odp_cpumask_zero = 0"

definition odp_cpumask_set :: "odp_cpumask_t \<Rightarrow> nat \<Rightarrow> odp_cpumask_t" where
  "odp_cpumask_set m cpu = m OR cpu_bit cpu"

fun odp_cpumask_setall :: "nat \<Rightarrow> odp_cpumask_t \<Rightarrow> odp_cpumask_t" where
  "odp_cpumask_setall 0 m = m"
| "odp_cpumask_setall (Suc n) m = odp_cpumask_setall n m OR cpu_bit n"

definition odp_cpumask_clr :: "odp_cpumask_t \<Rightarrow> nat \<Rightarrow> odp_cpumask_t" where
  "odp_cpumask_clr m cpu = m AND NOT (cpu_bit cpu)"

definition odp_cpumask_isset :: "odp_cpumask_t \<Rightarrow> nat \<Rightarrow> bool" where
  "odp_cpumask_isset m cpu \<longleftrightarrow> m AND cpu_bit cpu \<noteq> 0"

text \<open>\<open>__builtin_popcount\<close>: the number of bits set.\<close>

definition odp_cpumask_count :: "odp_cpumask_t \<Rightarrow> nat" where
  "odp_cpumask_count m = length (filter (bit m) [0..<32])"

definition odp_cpumask_and :: "odp_cpumask_t \<Rightarrow> odp_cpumask_t \<Rightarrow> odp_cpumask_t" where
  "odp_cpumask_and a b = a AND b"
definition odp_cpumask_or :: "odp_cpumask_t \<Rightarrow> odp_cpumask_t \<Rightarrow> odp_cpumask_t" where
  "odp_cpumask_or a b = a OR b"
definition odp_cpumask_xor :: "odp_cpumask_t \<Rightarrow> odp_cpumask_t \<Rightarrow> odp_cpumask_t" where
  "odp_cpumask_xor a b = a XOR b"
definition odp_cpumask_equal :: "odp_cpumask_t \<Rightarrow> odp_cpumask_t \<Rightarrow> bool" where
  "odp_cpumask_equal a b \<longleftrightarrow> a = b"

text \<open>The searches; \<open>None\<close> is the return value \<open>-1\<close>.\<close>

definition odp_cpumask_first :: "nat \<Rightarrow> odp_cpumask_t \<Rightarrow> nat option" where
  "odp_cpumask_first setsize m = find (odp_cpumask_isset m) [0..<setsize]"

fun odp_cpumask_last :: "nat \<Rightarrow> odp_cpumask_t \<Rightarrow> nat option" where
  "odp_cpumask_last 0 m = None"
| "odp_cpumask_last (Suc cpu) m = (if odp_cpumask_isset m cpu then Some cpu else odp_cpumask_last cpu m)"

definition odp_cpumask_next :: "nat \<Rightarrow> odp_cpumask_t \<Rightarrow> int \<Rightarrow> nat option" where
  "odp_cpumask_next setsize m cpu = find (odp_cpumask_isset m) [nat (cpu + 1)..<setsize]"

definition hex_value :: "char \<Rightarrow> nat option" where
  "hex_value c = (let n = of_char c :: nat in
     if 48 \<le> n \<and> n \<le> 57 then Some (n - 48)
     else if 65 \<le> n \<and> n \<le> 70 then Some (n - 65 + 10)
     else if 97 \<le> n \<and> n \<le> 102 then Some (n - 97 + 10)
     else None)"

text \<open>The bits of one digit: the number of rounds left, the digit, the bit in it and the CPU.\<close>

fun nibble_bits :: "nat \<Rightarrow> nat \<Rightarrow> nat \<Rightarrow> nat \<Rightarrow> u32 \<Rightarrow> u32" where
  "nibble_bits 0 value idx cpu cpuset = cpuset"
| "nibble_bits (Suc n) value idx cpu cpuset =
     nibble_bits n value (Suc idx) (Suc cpu) (if bit value idx then cpuset OR cpu_bit cpu else cpuset)"

text \<open>The digits from the last one; \<open>None\<close> for a character that is not a digit.\<close>

fun from_digits :: "nat \<Rightarrow> string \<Rightarrow> nat \<Rightarrow> u32 \<Rightarrow> u32 option" where
  "from_digits setsize [] cpu cpuset = Some cpuset"
| "from_digits setsize (c # cs) cpu cpuset =
     (if cpu < setsize
      then case hex_value c of
             None \<Rightarrow> None
           | Some v \<Rightarrow> from_digits setsize cs (cpu + 4) (nibble_bits 4 v 0 cpu cpuset)
      else Some cpuset)"

definition odp_cpumask_from_str :: "nat \<Rightarrow> string \<Rightarrow> odp_cpumask_t" where
  "odp_cpumask_from_str setsize str =
     (let str = (if length str \<ge> 2 \<and> (str ! 1 = CHR ''x'' \<or> str ! 1 = CHR ''X'') then drop 2 str else str)
      in if str = [] then 0
         else case from_digits setsize (rev str) 0 0 of Some m \<Rightarrow> m | None \<Rightarrow> 0)"

definition hex_digit :: "nat \<Rightarrow> char" where
  "hex_digit value = (if value < 10 then char_of (48 + value) else char_of (65 + value - 10))"

fun to_digits :: "odp_cpumask_t \<Rightarrow> nat \<Rightarrow> nat \<Rightarrow> string" where
  "to_digits m cpu value =
     (let value = (if m AND cpu_bit cpu \<noteq> 0 then value OR push_bit (cpu mod 4) 1 else value);
          (out, value) = (if cpu mod 4 = 0 then ([hex_digit value], 0) else ([], value))
      in out @ (case cpu of 0 \<Rightarrow> [] | Suc cpu \<Rightarrow> to_digits m cpu value))"

declare to_digits.simps [simp del]

text \<open>\<open>None\<close> is the return value \<open>-1\<close>; otherwise the length with the null character is returned.\<close>

definition odp_cpumask_to_str :: "nat \<Rightarrow> odp_cpumask_t \<Rightarrow> int \<Rightarrow> (string \<times> int) option" where
  "odp_cpumask_to_str setsize m len =
     (if len < 4 then None
      else case odp_cpumask_last setsize m of
             None \<Rightarrow> Some (''0x0'', 4)
           | Some cpu \<Rightarrow>
               if len < int (3 + (cpu div 4 + 1)) then None
               else let str = ''0x'' @ to_digits m cpu 0 in Some (str, int (length str) + 1))"

text \<open>The default masks; \<open>cpus\<close> is the number of CPUs and \<open>n_rx_thr\<close> that of the receive threads.\<close>

fun worker_bits :: "int \<Rightarrow> nat \<Rightarrow> nat \<Rightarrow> nat \<Rightarrow> int \<Rightarrow> int \<Rightarrow> odp_cpumask_t \<Rightarrow> odp_cpumask_t" where
  "worker_bits cpus n_rx_thr 0 i count num m = m"
| "worker_bits cpus n_rx_thr (Suc k) i count num m =
     (if int i < cpus \<and> count < num
      then if i mod 2 = 1 \<and> nat ((cpus - 1 - int i) div 2) < n_rx_thr
           then worker_bits cpus n_rx_thr k (Suc i) count num m
           else worker_bits cpus n_rx_thr k (Suc i) (count + 1) num (odp_cpumask_set m i)
      else m)"

definition odp_cpumask_default_worker :: "int \<Rightarrow> nat \<Rightarrow> int \<Rightarrow> int \<times> odp_cpumask_t" where
  "odp_cpumask_default_worker cpus n_rx_thr num_in =
     (let cpu_count = cpus - 1 - int n_rx_thr;
          num = (if num_in = 0 then cpu_count else num_in);
          num = (if cpu_count < num then cpu_count else num)
      in (num, worker_bits cpus n_rx_thr (nat cpus) 1 0 num odp_cpumask_zero))"

definition odp_cpumask_default_control :: "int \<times> odp_cpumask_t" where
  "odp_cpumask_default_control = (1, odp_cpumask_set odp_cpumask_zero 0)"


section \<open>Masks as sets of bits\<close>

named_theorems cpubits

lemma bit_cpu_bit [cpubits]: "bit (cpu_bit c) j \<longleftrightarrow> j = c \<and> j < 32"
  unfolding cpu_bit_def bit_push_bit_iff bit_1_iff by auto

lemma odp_cpumask_isset_bit [cpubits]: "odp_cpumask_isset m c \<longleftrightarrow> bit m c"
  by (simp add: odp_cpumask_isset_def cpu_bit_def bit_iff_and_push_bit_not_eq_0)

lemma bit_cpumask_set [cpubits]: "bit (odp_cpumask_set m c) j \<longleftrightarrow> bit m j \<or> j = c \<and> j < 32"
  by (simp add: odp_cpumask_set_def bit_or_iff bit_cpu_bit)

lemma bit_cpumask_clr [cpubits]: "bit (odp_cpumask_clr m c) j \<longleftrightarrow> bit m j \<and> j \<noteq> c"
  using bit_imp_le_length [of m j] by (auto simp: odp_cpumask_clr_def bit_and_iff bit_not_iff bit_cpu_bit)

lemma bit_cpumask_setall [cpubits]: "bit (odp_cpumask_setall n m) j \<longleftrightarrow> bit m j \<or> j < n \<and> j < 32"
  by (induction n) (auto simp: bit_or_iff bit_cpu_bit)

lemma odp_cpumask_last_spec:
  "odp_cpumask_last n m = None \<Longrightarrow> j < n \<Longrightarrow> \<not> bit m j"
  "odp_cpumask_last n m = Some c \<Longrightarrow> c < n \<and> bit m c \<and> (\<forall>j < n. c < j \<longrightarrow> \<not> bit m j)"
  by (induction n) (auto simp: odp_cpumask_isset_bit less_Suc_eq split: if_splits)

section \<open>Strings\<close>

lemma hex_value_digit: "v < 16 \<Longrightarrow> hex_value (hex_digit v) = Some v"
  by (cases "v < 10") (simp_all add: hex_value_def hex_digit_def Let_def)

lemma bit_nibble_bits:
  "bit (nibble_bits n v idx cpu cs) j \<longleftrightarrow>
     bit cs j \<or> cpu \<le> j \<and> j < cpu + n \<and> j < 32 \<and> bit v (idx + (j - cpu))"
proof (induction n arbitrary: idx cpu cs)
  case (Suc n)
  have "cpu \<le> j \<Longrightarrow> j = cpu \<or> Suc cpu \<le> j" by auto
  then show ?case unfolding nibble_bits.simps Suc.IH by (auto simp: bit_or_iff bit_cpu_bit Suc_diff_Suc)
qed auto

lemma from_digits_bits:
  assumes "\<And>v. v \<in> set vs \<Longrightarrow> v < 16" "cpu + 4 * length vs \<le> setsize" "setsize \<le> 32"
  shows "\<exists>r. from_digits setsize (map hex_digit vs) cpu cs = Some r \<and>
    (\<forall>j. bit r j \<longleftrightarrow> bit cs j \<or> cpu \<le> j \<and> j < cpu + 4 * length vs \<and> bit (vs ! ((j - cpu) div 4)) ((j - cpu) mod 4))"
  using assms
proof (induction vs arbitrary: cpu cs)
  case (Cons v vs)
  let ?cs = "nibble_bits 4 v 0 cpu cs"
  have "cpu + 4 + 4 * length vs \<le> setsize" using Cons.prems(2) by simp
  with Cons.IH [of "cpu + 4" ?cs] Cons.prems obtain r where r:
    "from_digits setsize (map hex_digit vs) (cpu + 4) ?cs = Some r"
    "\<And>j. bit r j \<longleftrightarrow> bit ?cs j \<or> cpu + 4 \<le> j \<and> j < cpu + 4 + 4 * length vs \<and>
      bit (vs ! ((j - (cpu + 4)) div 4)) ((j - (cpu + 4)) mod 4)" by auto
  have "from_digits setsize (map hex_digit (v # vs)) cpu cs = Some r"
    using r(1) Cons.prems by (simp add: hex_value_digit)
  moreover have "bit r j \<longleftrightarrow> bit cs j \<or> cpu \<le> j \<and> j < cpu + 4 * length (v # vs) \<and>
      bit ((v # vs) ! ((j - cpu) div 4)) ((j - cpu) mod 4)" for j
  proof (cases "cpu + 4 \<le> j")
    case True
    then obtain d where d: "j = cpu + 4 + d" using le_Suc_ex by blast
    have "(d + 4) div 4 = Suc (d div 4)" "(d + 4) mod 4 = d mod 4" by simp_all
    then show ?thesis unfolding r(2) bit_nibble_bits d by (simp add: add.commute)
  next
    case False
    then show ?thesis unfolding r(2) bit_nibble_bits using Cons.prems(2,3) by (cases "cpu \<le> j") auto
  qed
  ultimately show ?case by blast
qed auto

definition nibble :: "u32 \<Rightarrow> nat \<Rightarrow> nat" where
  "nibble m i = take_bit 4 (drop_bit (4 * i) (unat m))"

lemma nibble_less: "nibble m i < 16"
  using take_bit_nat_less_exp [of 4 "drop_bit (4 * i) (unat m)"] by (simp add: nibble_def)

lemma bit_nibble: "bit (nibble m i) k \<longleftrightarrow> k < 4 \<and> bit m (4 * i + k)"
  by (auto simp: nibble_def bit_take_bit_iff bit_drop_bit_eq bit_unsigned_iff dest: bit_imp_le_length)


lemma take_bit_top: "take_bit (Suc k) (x :: nat) = (if bit x k then push_bit k 1 else 0) OR take_bit k x"
  by (rule bit_eqI) (auto simp: bit_or_iff bit_take_bit_iff bit_exp_iff less_Suc_eq)

text \<open>The digit in progress, followed by the digits below it.\<close>

lemma to_digits_eq:
  assumes "cpu < 32"
  shows "to_digits m cpu w =
    map hex_digit ((w OR take_bit (Suc (cpu mod 4)) (drop_bit (4 * (cpu div 4)) (unat m))) #
                   map (nibble m) (rev [0..<cpu div 4]))"
  using assms
proof (induction cpu arbitrary: w)
  case 0
  have "bit m 0 \<longleftrightarrow> m AND 1 \<noteq> 0" by (simp add: bit_iff_and_push_bit_not_eq_0)
  moreover have "take_bit (Suc 0) (unat m) = (if bit m 0 then 1 else 0)"
    unfolding take_bit_top by (simp add: bit_unsigned_iff)
  ultimately show ?case by (simp add: to_digits.simps cpu_bit_def Let_def)
next
  case (Suc cpu)
  let ?c = "Suc cpu" and ?x = "\<lambda>i. drop_bit (4 * i) (unat m)"
  define v where "v = (if bit m ?c then w OR push_bit (?c mod 4) 1 else w)"
  have b: "m AND cpu_bit ?c \<noteq> 0 \<longleftrightarrow> bit m ?c" by (simp add: cpu_bit_def bit_iff_and_push_bit_not_eq_0)
  have bx: "bit (?x (?c div 4)) (?c mod 4) \<longleftrightarrow> bit m ?c"
    using Suc.prems by (simp add: bit_drop_bit_eq bit_unsigned_iff mult_div_mod_eq)
  have v: "w OR take_bit (Suc (?c mod 4)) (?x (?c div 4)) = v OR take_bit (?c mod 4) (?x (?c div 4))"
    unfolding take_bit_top bx v_def by (simp add: or.assoc)
  have step: "to_digits m ?c w = (if ?c mod 4 = 0 then [hex_digit v] else []) @
      to_digits m cpu (if ?c mod 4 = 0 then 0 else v)"
    unfolding to_digits.simps [of m ?c] b v_def by (simp add: Let_def)
  show ?case
  proof (cases "?c mod 4 = 0")
    case True
    then have "Suc (cpu mod 4) = 4" "?c div 4 = Suc (cpu div 4)" by (auto simp: mod_Suc div_Suc split: if_splits)
    then show ?thesis unfolding step v using True Suc.IH [of 0] Suc.prems by (simp add: nibble_def)
  next
    case False
    then have "?c mod 4 = Suc (cpu mod 4)" "?c div 4 = cpu div 4" by (auto simp: mod_Suc div_Suc split: if_splits)
    then show ?thesis unfolding step v using False Suc.IH [of v] Suc.prems by simp
  qed
qed

lemma to_digits_last:
  assumes "odp_cpumask_last setsize m = Some cpu" "setsize \<le> 32" "\<And>j. setsize \<le> j \<Longrightarrow> \<not> bit m j"
  shows "to_digits m cpu 0 = map hex_digit (rev (map (nibble m) [0..<Suc (cpu div 4)]))"
proof -
  have c: "cpu < setsize" "\<And>j. cpu < j \<Longrightarrow> \<not> bit m j"
    using odp_cpumask_last_spec(2) [OF assms(1)] assms(3) by (auto simp: not_less [symmetric])
  have "take_bit (Suc (cpu mod 4)) (drop_bit (4 * (cpu div 4)) (unat m)) = nibble m (cpu div 4)"
  proof (rule bit_eqI)
    fix k
    have "cpu < 4 * (cpu div 4) + k \<longleftrightarrow> \<not> k < Suc (cpu mod 4)" by presburger
    then show "bit (take_bit (Suc (cpu mod 4)) (drop_bit (4 * (cpu div 4)) (unat m))) k \<longleftrightarrow> bit (nibble m (cpu div 4)) k"
      using c(2) [of "4 * (cpu div 4) + k"]
      by (auto simp: bit_nibble bit_take_bit_iff bit_drop_bit_eq bit_unsigned_iff not_less_eq dest: bit_imp_le_length)
  qed
  then show ?thesis using c(1) assms(2) by (simp add: to_digits_eq rev_map)
qed

section \<open>Properties\<close>

text \<open>C33. The string \<open>odp_cpumask_to_str\<close> prints is read back by \<open>odp_cpumask_from_str\<close> as the same
  mask, for every mask within the supported CPUs and every buffer that is long enough;
  the returned length counts the prefix, the digits and the null character.\<close>

theorem cpumask_str_roundtrip:
  assumes "4 dvd setsize" and "setsize \<le> 32" and "\<forall>j \<ge> setsize. \<not> bit m j"
    and "odp_cpumask_to_str setsize m len = Some (str, n)"
  shows "odp_cpumask_from_str setsize str = m \<and> n = int (length str) + 1 \<and> n \<le> len"
proof (cases "odp_cpumask_last setsize m")
  case None
  have "m = 0" by (rule bit_eqI) (use odp_cpumask_last_spec(1) [OF None] assms(3) in \<open>auto simp: not_less [symmetric]\<close>)
  moreover have "str = ''0x0''" "n = 4" "\<not> len < 4" using assms(4) None by (auto simp: odp_cpumask_to_str_def split: if_splits)
  moreover have "odp_cpumask_from_str setsize ''0x0'' = 0"
    by (simp add: odp_cpumask_from_str_def hex_value_def eval_nat_numeral)
  ultimately show ?thesis by simp
next
  case (Some cpu)
  define vs where "vs = map (nibble m) [0..<Suc (cpu div 4)]"
  have str: "str = ''0x'' @ map hex_digit (rev vs)" "n = int (length str) + 1" "\<not> len < int (3 + (cpu div 4 + 1))"
    using assms(4) Some to_digits_last [OF Some assms(2)] assms(3)
    by (auto simp: odp_cpumask_to_str_def Let_def vs_def split: if_splits)
  have c: "cpu < setsize" "\<forall>j < setsize. cpu < j \<longrightarrow> \<not> bit m j" using odp_cpumask_last_spec(2) [OF Some] by auto
  have vs: "length vs = Suc (cpu div 4)" "\<And>v. v \<in> set vs \<Longrightarrow> v < 16" by (auto simp: vs_def nibble_less)
  have "4 * Suc (cpu div 4) \<le> setsize" using c(1) assms(1) by presburger
  then obtain r where r: "from_digits setsize (map hex_digit vs) 0 0 = Some r"
    "\<And>j. bit r j \<longleftrightarrow> j < 4 * length vs \<and> bit (vs ! (j div 4)) (j mod 4)"
    using from_digits_bits [of vs 0 setsize 0] vs assms(2) by auto
  have "r = m"
  proof (rule bit_eqI)
    fix j
    have "\<not> j < 4 * length vs \<Longrightarrow> \<not> bit m j"
    proof -
      assume "\<not> j < 4 * length vs"
      then have "cpu < j" unfolding vs(1) by simp
      then show "\<not> bit m j" using c(2) assms(3) by (cases "j < setsize") auto
    qed
    then show "bit r j \<longleftrightarrow> bit m j" unfolding r(2)
      using less_mult_imp_div_less [of j "Suc (cpu div 4)" 4]
      by (cases "j < 4 * length vs") (simp_all add: vs_def bit_nibble mult_div_mod_eq mult.commute del: upt_Suc)
  qed
  moreover have "odp_cpumask_from_str setsize str = r"
    using r(1) vs(1) by (auto simp: odp_cpumask_from_str_def str(1) rev_map [symmetric])
  ultimately show ?thesis using str vs(1) by simp
qed

theorem cpumask_str_roundtrip_witness:
  "odp_cpumask_from_str 16 ''0xB2'' = 178 \<and> (5 :: int) = int (length ''0xB2'') + 1 \<and> (5 :: int) \<le> 8"
proof -
  have "odp_cpumask_to_str 16 178 8 = Some (''0xB2'', 5)" by code_simp
  moreover have "take_bit 16 (178 :: u32) = 178" by simp
  then have "\<forall>j \<ge> 16. \<not> bit (178 :: u32) j" by (metis bit_take_bit_iff not_le)
  ultimately show ?thesis using cpumask_str_roundtrip [of 16 178 8 "''0xB2''" 5] by simp
qed

end
