(* ===== verification/Odp_Thread.thy ===== *)
theory Odp_Thread
  imports Odp_Cpumask
begin

text \<open>
  Threads (\<open>platform/mppa/odp_thread.c\<close>), thread masks (\<open>platform/linux-generic/odp_thrmask.c\<close>)
  and scheduling groups (the grp functions of \<open>platform/mppa/odp_schedule.c\<close>). The masks of all
  threads, of the workers and of the control threads are the first three masks of the grp
  array, as in the union of the source. A locked section is one step.
\<close>

unbundle bit_operations_syntax

section \<open>Definitions: thread masks\<close>

type_synonym odp_thrmask_t = odp_cpumask_t

definition odp_thrmask_from_str :: "nat \<Rightarrow> string \<Rightarrow> odp_thrmask_t" where
  "odp_thrmask_from_str setsize str = odp_cpumask_from_str setsize str"
definition odp_thrmask_to_str :: "nat \<Rightarrow> odp_thrmask_t \<Rightarrow> int \<Rightarrow> (string \<times> int) option" where
  "odp_thrmask_to_str setsize m len = odp_cpumask_to_str setsize m len"
definition odp_thrmask_zero :: odp_thrmask_t where "odp_thrmask_zero = odp_cpumask_zero"
definition odp_thrmask_set :: "odp_thrmask_t \<Rightarrow> nat \<Rightarrow> odp_thrmask_t" where
  "odp_thrmask_set m thr = odp_cpumask_set m thr"
definition odp_thrmask_setall :: "nat \<Rightarrow> odp_thrmask_t \<Rightarrow> odp_thrmask_t" where
  "odp_thrmask_setall setsize m = odp_cpumask_setall setsize m"
definition odp_thrmask_clr :: "odp_thrmask_t \<Rightarrow> nat \<Rightarrow> odp_thrmask_t" where
  "odp_thrmask_clr m thr = odp_cpumask_clr m thr"
definition odp_thrmask_isset :: "odp_thrmask_t \<Rightarrow> nat \<Rightarrow> bool" where
  "odp_thrmask_isset m thr = odp_cpumask_isset m thr"
definition odp_thrmask_count :: "odp_thrmask_t \<Rightarrow> nat" where
  "odp_thrmask_count m = odp_cpumask_count m"
definition odp_thrmask_and :: "odp_thrmask_t \<Rightarrow> odp_thrmask_t \<Rightarrow> odp_thrmask_t" where
  "odp_thrmask_and a b = odp_cpumask_and a b"
definition odp_thrmask_or :: "odp_thrmask_t \<Rightarrow> odp_thrmask_t \<Rightarrow> odp_thrmask_t" where
  "odp_thrmask_or a b = odp_cpumask_or a b"
definition odp_thrmask_xor :: "odp_thrmask_t \<Rightarrow> odp_thrmask_t \<Rightarrow> odp_thrmask_t" where
  "odp_thrmask_xor a b = odp_cpumask_xor a b"
definition odp_thrmask_equal :: "odp_thrmask_t \<Rightarrow> odp_thrmask_t \<Rightarrow> bool" where
  "odp_thrmask_equal a b = odp_cpumask_equal a b"
definition odp_thrmask_first :: "nat \<Rightarrow> odp_thrmask_t \<Rightarrow> nat option" where
  "odp_thrmask_first setsize m = odp_cpumask_first setsize m"
definition odp_thrmask_last :: "nat \<Rightarrow> odp_thrmask_t \<Rightarrow> nat option" where
  "odp_thrmask_last setsize m = odp_cpumask_last setsize m"
definition odp_thrmask_next :: "nat \<Rightarrow> odp_thrmask_t \<Rightarrow> int \<Rightarrow> nat option" where
  "odp_thrmask_next setsize m thr = odp_cpumask_next setsize m thr"

section \<open>Definitions: threads\<close>

definition ODP_THREAD_COUNT_MAX :: nat where "ODP_THREAD_COUNT_MAX = 16"
definition ODP_CONFIG_SCHED_GRPS :: nat where "ODP_CONFIG_SCHED_GRPS = 16"
definition ODP_SCHED_GROUP_NAMED :: nat where "ODP_SCHED_GROUP_NAMED = 3"
definition ODP_SCHED_GROUP_NAME_LEN :: nat where "ODP_SCHED_GROUP_NAME_LEN = 32"

lemmas thread_consts = ODP_THREAD_COUNT_MAX_def ODP_CONFIG_SCHED_GRPS_def ODP_SCHED_GROUP_NAMED_def
  ODP_SCHED_GROUP_NAME_LEN_def

datatype odp_thread_type_t = ODP_THREAD_WORKER | ODP_THREAD_CONTROL

record thread_state_t =
  ts_thr :: int
  ts_cpu :: int
  ts_type :: odp_thread_type_t

record thread_globals_t =
  tg_thr :: "thread_state_t list"
  tg_grp :: "odp_thrmask_t list"
  tg_num :: u32
  tg_num_worker :: u32
  tg_num_control :: u32

abbreviation tg_all :: "thread_globals_t \<Rightarrow> odp_thrmask_t" where "tg_all g \<equiv> tg_grp g ! 0"
abbreviation tg_worker :: "thread_globals_t \<Rightarrow> odp_thrmask_t" where "tg_worker g \<equiv> tg_grp g ! Suc 0"
abbreviation tg_control :: "thread_globals_t \<Rightarrow> odp_thrmask_t" where "tg_control g \<equiv> tg_grp g ! 2"

definition thread_globals_init :: thread_globals_t where
  "thread_globals_init =
     \<lparr>tg_thr = replicate ODP_THREAD_COUNT_MAX \<lparr>ts_thr = 0, ts_cpu = 0, ts_type = ODP_THREAD_WORKER\<rparr>,
      tg_grp = replicate ODP_CONFIG_SCHED_GRPS odp_thrmask_zero,
      tg_num = 0, tg_num_worker = 0, tg_num_control = 0\<rparr>"

definition thread_sched_grp_mask :: "thread_globals_t \<Rightarrow> nat \<Rightarrow> odp_thrmask_t" where
  "thread_sched_grp_mask g index = tg_grp g ! index"

definition set_grp_mask :: "nat \<Rightarrow> odp_thrmask_t \<Rightarrow> thread_globals_t \<Rightarrow> thread_globals_t" where
  "set_grp_mask index m g = g\<lparr>tg_grp := (tg_grp g)[index := m]\<rparr>"

text \<open>The identifier found by the loop is entered in the masks and counted.\<close>

definition alloc_take :: "odp_thread_type_t \<Rightarrow> nat \<Rightarrow> thread_globals_t \<Rightarrow> thread_globals_t" where
  "alloc_take ty thr g =
     (let g = set_grp_mask 0 (odp_thrmask_set (tg_all g) thr) g;
          g = (if ty = ODP_THREAD_WORKER
               then (set_grp_mask 1 (odp_thrmask_set (tg_worker g) thr) g)\<lparr>tg_num_worker := tg_num_worker g + 1\<rparr>
               else (set_grp_mask 2 (odp_thrmask_set (tg_control g) thr) g)\<lparr>tg_num_control := tg_num_control g + 1\<rparr>)
      in g\<lparr>tg_num := tg_num g + 1\<rparr>)"

definition alloc_id :: "odp_thread_type_t \<Rightarrow> thread_globals_t \<Rightarrow> int \<times> thread_globals_t" where
  "alloc_id ty g =
     (if tg_num g \<ge> of_nat ODP_THREAD_COUNT_MAX then (-1, g)
      else case find (\<lambda>thr. \<not> odp_thrmask_isset (tg_all g) thr) [0..<ODP_THREAD_COUNT_MAX] of
             Some thr \<Rightarrow> (int thr, alloc_take ty thr g)
           | None \<Rightarrow> (-2, g))"

definition free_id :: "int \<Rightarrow> thread_globals_t \<Rightarrow> int \<times> thread_globals_t" where
  "free_id tid g =
     (if tid < 0 \<or> tid \<ge> int ODP_THREAD_COUNT_MAX then (-1, g)
      else let thr = nat tid in
        if \<not> odp_thrmask_isset (tg_all g) thr then (-1, g)
        else let g = set_grp_mask 0 (odp_thrmask_clr (tg_all g) thr) g;
                 g = (if ts_type (tg_thr g ! thr) = ODP_THREAD_WORKER
                      then (set_grp_mask 1 (odp_thrmask_clr (tg_worker g) thr) g)\<lparr>tg_num_worker := tg_num_worker g - 1\<rparr>
                      else (set_grp_mask 2 (odp_thrmask_clr (tg_control g) thr) g)\<lparr>tg_num_control := tg_num_control g - 1\<rparr>);
                 g = g\<lparr>tg_num := tg_num g - 1\<rparr>
             in (sint (tg_num g), g))"

text \<open>The entry of a new thread; \<open>cpu\<close> is the number of the CPU it runs on, negative when the system
  call fails.\<close>

definition thread_publish :: "nat \<Rightarrow> int \<Rightarrow> odp_thread_type_t \<Rightarrow> thread_globals_t \<Rightarrow> thread_globals_t" where
  "thread_publish tid cpu ty g = g\<lparr>tg_thr := (tg_thr g)[tid := \<lparr>ts_thr = int tid, ts_cpu = cpu, ts_type = ty\<rparr>]\<rparr>"

text \<open>The results are the return value, the entry \<open>this_thread\<close> points to, and the globals.\<close>

definition odp_thread_init_local ::
  "odp_thread_type_t \<Rightarrow> int \<Rightarrow> nat option \<Rightarrow> thread_globals_t \<Rightarrow> int \<times> nat option \<times> thread_globals_t" where
  "odp_thread_init_local ty cpu this_thread g =
     (let (tid, g) = alloc_id ty g in
      if tid < 0 then (-1, this_thread, g)
      else if cpu < 0 then (-1, this_thread, g)
      else (0, Some (nat tid), thread_publish (nat tid) cpu ty g))"

definition odp_thread_id :: "thread_globals_t \<Rightarrow> nat \<Rightarrow> int" where
  "odp_thread_id g this_thread = ts_thr (tg_thr g ! this_thread)"

definition odp_thread_term_local :: "nat \<Rightarrow> thread_globals_t \<Rightarrow> int \<times> thread_globals_t" where
  "odp_thread_term_local this_thread g =
     (let (num, g) = free_id (odp_thread_id g this_thread) g in if num < 0 then (-1, g) else (num, g))"

definition odp_thread_count :: "thread_globals_t \<Rightarrow> int" where "odp_thread_count g = sint (tg_num g)"
definition odp_thread_count_max :: int where "odp_thread_count_max = int ODP_THREAD_COUNT_MAX"
definition odp_thread_type :: "thread_globals_t \<Rightarrow> nat \<Rightarrow> odp_thread_type_t" where
  "odp_thread_type g this_thread = ts_type (tg_thr g ! this_thread)"
definition odp_thrmask_worker :: "thread_globals_t \<Rightarrow> int \<times> odp_thrmask_t" where
  "odp_thrmask_worker g = (sint (tg_num_worker g), tg_worker g)"
definition odp_thrmask_control :: "thread_globals_t \<Rightarrow> int \<times> odp_thrmask_t" where
  "odp_thrmask_control g = (sint (tg_num_control g), tg_control g)"

section \<open>Definitions: scheduling groups\<close>

text \<open>\<open>names\<close>: the names of the groups, empty for a grp that does not exist.\<close>

definition group_valid :: "string list \<Rightarrow> int \<Rightarrow> bool" where
  "group_valid names grp \<longleftrightarrow>
     grp < int ODP_CONFIG_SCHED_GRPS \<and> grp \<ge> int ODP_SCHED_GROUP_NAMED \<and> names ! nat grp \<noteq> ''''"

definition odp_schedule_group_create ::
  "string \<Rightarrow> odp_thrmask_t \<Rightarrow> string list \<Rightarrow> thread_globals_t \<Rightarrow> int \<times> string list \<times> thread_globals_t" where
  "odp_schedule_group_create name m names g =
     (case find (\<lambda>i. names ! i = '''') [ODP_SCHED_GROUP_NAMED..<ODP_CONFIG_SCHED_GRPS] of
        Some i \<Rightarrow> (int i, names[i := take (ODP_SCHED_GROUP_NAME_LEN - 1) name], set_grp_mask i m g)
      | None \<Rightarrow> (-1, names, g))"

definition odp_schedule_group_destroy ::
  "int \<Rightarrow> string list \<Rightarrow> thread_globals_t \<Rightarrow> int \<times> string list \<times> thread_globals_t" where
  "odp_schedule_group_destroy grp names g =
     (if group_valid names grp
      then (0, names[nat grp := ''''], set_grp_mask (nat grp) odp_thrmask_zero g)
      else (-1, names, g))"

definition odp_schedule_group_lookup :: "string \<Rightarrow> string list \<Rightarrow> int" where
  "odp_schedule_group_lookup name names =
     (case find (\<lambda>i. name = names ! i) [ODP_SCHED_GROUP_NAMED..<ODP_CONFIG_SCHED_GRPS] of
        Some i \<Rightarrow> int i | None \<Rightarrow> -1)"

definition odp_schedule_group_join ::
  "int \<Rightarrow> odp_thrmask_t \<Rightarrow> string list \<Rightarrow> thread_globals_t \<Rightarrow> int \<times> thread_globals_t" where
  "odp_schedule_group_join grp m names g =
     (if group_valid names grp
      then (0, set_grp_mask (nat grp) (odp_thrmask_or (thread_sched_grp_mask g (nat grp)) m) g)
      else (-1, g))"

text \<open>\<open>sched_mask_all\<close>: the mask of every thread below \<open>CPU_SETSIZE\<close>, filled in when the scheduler is initialised
  and not changed afterwards.\<close>

definition sched_mask_all :: "nat \<Rightarrow> odp_thrmask_t" where
  "sched_mask_all setsize = odp_thrmask_setall setsize odp_thrmask_zero"

definition odp_schedule_group_leave ::
  "nat \<Rightarrow> int \<Rightarrow> odp_thrmask_t \<Rightarrow> string list \<Rightarrow> thread_globals_t \<Rightarrow> int \<times> thread_globals_t" where
  "odp_schedule_group_leave setsize grp m names g =
     (if group_valid names grp
      then let leavemask = odp_thrmask_xor m (sched_mask_all setsize) in
           (0, set_grp_mask (nat grp) (odp_thrmask_and (thread_sched_grp_mask g (nat grp)) leavemask) g)
      else (-1, g))"

definition odp_schedule_group_thrmask ::
  "int \<Rightarrow> string list \<Rightarrow> thread_globals_t \<Rightarrow> int \<times> odp_thrmask_t option" where
  "odp_schedule_group_thrmask grp names g =
     (if group_valid names grp then (0, Some (thread_sched_grp_mask g (nat grp))) else (-1, None))"

section \<open>Definitions: the system of threads\<close>

text \<open>The position of a thread of the operating system: outside, between the locked section of
  \<open>odp_thread_init_local\<close> and the write of its entry, and initialised.\<close>

datatype thr_pc = Th_out | Th_got nat odp_thread_type_t | Th_run nat

record thr_sys =
  th_glob :: thread_globals_t
  th_names :: "string list"
  th_pc :: "nat \<Rightarrow> thr_pc"

definition thr_start :: "thr_sys \<Rightarrow> bool" where
  "thr_start s \<longleftrightarrow> th_glob s = thread_globals_init \<and> th_names s = replicate ODP_CONFIG_SCHED_GRPS '''' \<and>
     (\<forall>t. th_pc s t = Th_out)"

inductive thr_step :: "thr_sys \<Rightarrow> thr_sys \<Rightarrow> bool" where
  init_alloc: "th_pc s t = Th_out \<Longrightarrow> alloc_id ty (th_glob s) = (tid, g) \<Longrightarrow>
    thr_step s (s\<lparr>th_glob := g, th_pc := (th_pc s)(t := if tid < 0 then Th_out else Th_got (nat tid) ty)\<rparr>)"
| init_publish: "th_pc s t = Th_got tid ty \<Longrightarrow> 0 \<le> cpu \<Longrightarrow>
    thr_step s (s\<lparr>th_glob := thread_publish tid cpu ty (th_glob s), th_pc := (th_pc s)(t := Th_run tid)\<rparr>)"
| init_no_cpu: "th_pc s t = Th_got tid ty \<Longrightarrow> thr_step s (s\<lparr>th_pc := (th_pc s)(t := Th_out)\<rparr>)"
| term_local: "th_pc s t = Th_run tid \<Longrightarrow> odp_thread_term_local tid (th_glob s) = (rc, g) \<Longrightarrow>
    thr_step s (s\<lparr>th_glob := g, th_pc := (th_pc s)(t := Th_out)\<rparr>)"
| group_create: "odp_schedule_group_create name m (th_names s) (th_glob s) = (rc, names, g) \<Longrightarrow>
    thr_step s (s\<lparr>th_names := names, th_glob := g\<rparr>)"
| group_destroy: "odp_schedule_group_destroy grp (th_names s) (th_glob s) = (rc, names, g) \<Longrightarrow>
    thr_step s (s\<lparr>th_names := names, th_glob := g\<rparr>)"
| group_join: "odp_schedule_group_join grp m (th_names s) (th_glob s) = (rc, g) \<Longrightarrow>
    thr_step s (s\<lparr>th_glob := g\<rparr>)"
| group_leave: "odp_schedule_group_leave setsize grp m (th_names s) (th_glob s) = (rc, g) \<Longrightarrow>
    thr_step s (s\<lparr>th_glob := g\<rparr>)"

section \<open>The invariant\<close>

definition mask_set :: "odp_thrmask_t \<Rightarrow> nat set" where "mask_set m = {j. bit m j}"

lemma finite_mask_set [simp]: "finite (mask_set m)"
  by (rule finite_subset [of _ "{..<32}"]) (auto simp: mask_set_def dest: bit_imp_le_length)

lemma mask_set_zero [simp]: "mask_set odp_thrmask_zero = {}"
  by (simp add: mask_set_def odp_thrmask_zero_def odp_cpumask_zero_def)

lemma mask_set_set [simp]: "j < 32 \<Longrightarrow> mask_set (odp_thrmask_set m j) = insert j (mask_set m)"
  by (auto simp: mask_set_def odp_thrmask_set_def bit_cpumask_set)

lemma mask_set_clr [simp]: "mask_set (odp_thrmask_clr m j) = mask_set m - {j}"
  by (auto simp: mask_set_def odp_thrmask_clr_def bit_cpumask_clr)

lemma odp_thrmask_isset_mem [simp]: "odp_thrmask_isset m j \<longleftrightarrow> j \<in> mask_set m"
  by (simp add: mask_set_def odp_thrmask_isset_def odp_cpumask_isset_bit)

text \<open>The masks and counters of the globals agree.\<close>

definition glob_inv :: "thread_globals_t \<Rightarrow> bool" where
  "glob_inv g \<longleftrightarrow> length (tg_thr g) = 16 \<and> length (tg_grp g) = 16 \<and>
     mask_set (tg_all g) \<subseteq> {..<16} \<and>
     mask_set (tg_all g) = mask_set (tg_worker g) \<union> mask_set (tg_control g) \<and>
     mask_set (tg_worker g) \<inter> mask_set (tg_control g) = {} \<and>
     unat (tg_num g) = card (mask_set (tg_all g)) \<and>
     unat (tg_num_worker g) = card (mask_set (tg_worker g)) \<and>
     unat (tg_num_control g) = card (mask_set (tg_control g))"

lemma unat_inc: "unat (n :: u32) < 100 \<Longrightarrow> unat (n + 1) = Suc (unat n)"
  by (subst unat_plus_simple [THEN iffD1]) (auto simp: word_le_nat_alt unat_word_ariths)

lemma unat_dec: "0 < unat (n :: u32) \<Longrightarrow> unat (n - 1) = unat n - 1"
  by (subst unat_sub) (auto simp: word_le_nat_alt)

lemma glob_inv_card:
  assumes "glob_inv g"
  shows "card (mask_set (tg_all g)) \<le> 16" "card (mask_set (tg_worker g)) \<le> 16" "card (mask_set (tg_control g)) \<le> 16"
proof -
  have "\<And>A. A \<subseteq> {..<16::nat} \<Longrightarrow> card A \<le> 16" by (metis card_lessThan card_mono finite_lessThan)
  moreover have "mask_set (tg_worker g) \<subseteq> {..<16}" "mask_set (tg_control g) \<subseteq> {..<16}" "mask_set (tg_all g) \<subseteq> {..<16}"
    using assms by (auto simp: glob_inv_def)
  ultimately show "card (mask_set (tg_all g)) \<le> 16" "card (mask_set (tg_worker g)) \<le> 16" "card (mask_set (tg_control g)) \<le> 16"
    by blast+
qed

lemma alloc_take_sets:
  assumes "glob_inv g" "i < 16"
  shows "mask_set (tg_all (alloc_take ty i g)) = insert i (mask_set (tg_all g))"
    "mask_set (tg_worker (alloc_take ty i g)) =
      (if ty = ODP_THREAD_WORKER then insert i (mask_set (tg_worker g)) else mask_set (tg_worker g))"
    "mask_set (tg_control (alloc_take ty i g)) =
      (if ty = ODP_THREAD_WORKER then mask_set (tg_control g) else insert i (mask_set (tg_control g)))"
    "tg_thr (alloc_take ty i g) = tg_thr g" "length (tg_grp (alloc_take ty i g)) = 16"
  using assms by (auto simp: alloc_take_def set_grp_mask_def Let_def glob_inv_def)

lemma alloc_take_inv:
  assumes g: "glob_inv g" and i: "i < 16" "i \<notin> mask_set (tg_all g)"
  shows "glob_inv (alloc_take ty i g)"
proof -
  note s = alloc_take_sets [OF g i(1), of ty]
  note c = glob_inv_card [OF g]
  have n: "tg_num (alloc_take ty i g) = tg_num g + 1"
    "tg_num_worker (alloc_take ty i g) = (if ty = ODP_THREAD_WORKER then tg_num_worker g + 1 else tg_num_worker g)"
    "tg_num_control (alloc_take ty i g) = (if ty = ODP_THREAD_WORKER then tg_num_control g else tg_num_control g + 1)"
    by (auto simp: alloc_take_def set_grp_mask_def Let_def)
  have "i \<notin> mask_set (tg_worker g)" "i \<notin> mask_set (tg_control g)" using g i(2) by (auto simp: glob_inv_def)
  then show ?thesis using g i c unfolding glob_inv_def s n by (auto simp: unat_inc)
qed

lemma alloc_id_cases:
  assumes g: "glob_inv g" and a: "alloc_id ty g = (tid, g')"
  obtains (full) "card (mask_set (tg_all g)) = 16" "tid = -1" "g' = g"
  | (got) i where "card (mask_set (tg_all g)) < 16" "tid = int i" "i < 16" "i \<notin> mask_set (tg_all g)" "g' = alloc_take ty i g"
proof -
  have n: "tg_num g \<ge> 16 \<longleftrightarrow> card (mask_set (tg_all g)) \<ge> 16" using g by (simp add: glob_inv_def word_le_nat_alt)
  show thesis
  proof (cases "card (mask_set (tg_all g)) \<ge> 16")
    case True
    then show thesis using n a glob_inv_card(1) [OF g] by (intro full) (auto simp: alloc_id_def thread_consts)
  next
    case False
    have "find (\<lambda>thr. thr \<notin> mask_set (tg_all g)) [0..<16] \<noteq> None"
    proof
      assume "find (\<lambda>thr. thr \<notin> mask_set (tg_all g)) [0..<16] = None"
      then have "{..<16} \<subseteq> mask_set (tg_all g)" by (auto simp: find_None_iff)
      then have "card {..<16::nat} \<le> card (mask_set (tg_all g))" by (rule card_mono [OF finite_mask_set])
      then show False using False by simp
    qed
    then obtain i where i: "find (\<lambda>thr. thr \<notin> mask_set (tg_all g)) [0..<16] = Some i" by blast
    then have "i < 16" "i \<notin> mask_set (tg_all g)" by (auto simp: find_Some_iff)
    then show thesis using n a False i by (intro got [of i]) (auto simp: alloc_id_def thread_consts)
  qed
qed

lemma free_id_spec:
  assumes g: "glob_inv g" and i: "i \<in> mask_set (tg_all g)"
    and ty: "i \<in> mask_set (tg_worker g) \<longleftrightarrow> ts_type (tg_thr g ! i) = ODP_THREAD_WORKER"
  obtains g' where "free_id (int i) g = (int (card (mask_set (tg_all g)) - 1), g')" "glob_inv g'"
    "mask_set (tg_all g') = mask_set (tg_all g) - {i}" "mask_set (tg_worker g') = mask_set (tg_worker g) - {i}"
    "tg_thr g' = tg_thr g"
proof -
  have i16: "i < 16" using g i by (auto simp: glob_inv_def)
  define g' where "g' = snd (free_id (int i) g)"
  have c: "0 < card (mask_set (tg_all g))" "i \<in> mask_set (tg_worker g) \<Longrightarrow> 0 < card (mask_set (tg_worker g))"
    "i \<in> mask_set (tg_control g) \<Longrightarrow> 0 < card (mask_set (tg_control g))"
    using i by (auto simp: card_gt_0_iff)
  have w: "i \<in> mask_set (tg_control g) \<longleftrightarrow> i \<notin> mask_set (tg_worker g)" using g i by (auto simp: glob_inv_def)
  have l: "length (tg_grp g) = 16" using g by (simp add: glob_inv_def)
  have s: "mask_set (tg_all g') = mask_set (tg_all g) - {i}" "mask_set (tg_worker g') = mask_set (tg_worker g) - {i}"
    "mask_set (tg_control g') = mask_set (tg_control g) - {i}" "tg_thr g' = tg_thr g" "length (tg_grp g') = 16"
    using ty w l i i16 by (auto simp: g'_def free_id_def set_grp_mask_def Let_def thread_consts)
  have n: "tg_num g' = tg_num g - 1" "tg_num_worker g' = (if i \<in> mask_set (tg_worker g) then tg_num_worker g - 1 else tg_num_worker g)"
    "tg_num_control g' = (if i \<in> mask_set (tg_worker g) then tg_num_control g else tg_num_control g - 1)"
    using ty l i i16 by (auto simp: g'_def free_id_def set_grp_mask_def Let_def thread_consts)
  have inv: "glob_inv g'" using g i w c unfolding glob_inv_def s n by (auto simp: unat_dec card_Diff_singleton)
  have u: "unat (tg_num g') = card (mask_set (tg_all g)) - 1" using inv i by (simp add: glob_inv_def s card_Diff_singleton)
  have "sint (tg_num g') = int (card (mask_set (tg_all g)) - 1)"
    using u glob_inv_card(1) [OF g] by (simp add: sint_u32)
  moreover have "fst (free_id (int i) g) = sint (tg_num g')"
    using i i16 by (simp add: g'_def free_id_def Let_def thread_consts)
  ultimately show thesis using that [of g'] inv s by (metis g'_def prod.collapse)
qed

fun thr_id :: "thr_pc \<Rightarrow> nat option" where
  "thr_id Th_out = None"
| "thr_id (Th_got tid ty) = Some tid"
| "thr_id (Th_run tid) = Some tid"

text \<open>What a thread knows of its identifier.\<close>

fun pc_inv :: "thread_globals_t \<Rightarrow> thr_pc \<Rightarrow> bool" where
  "pc_inv g Th_out \<longleftrightarrow> True"
| "pc_inv g (Th_got i ty) \<longleftrightarrow> i \<in> mask_set (tg_all g) \<and> (i \<in> mask_set (tg_worker g) \<longleftrightarrow> ty = ODP_THREAD_WORKER)"
| "pc_inv g (Th_run i) \<longleftrightarrow> i \<in> mask_set (tg_all g) \<and> odp_thread_id g i = int i \<and>
     (i \<in> mask_set (tg_worker g) \<longleftrightarrow> odp_thread_type g i = ODP_THREAD_WORKER)"

definition thr_inv :: "thr_sys \<Rightarrow> bool" where
  "thr_inv s \<longleftrightarrow> glob_inv (th_glob s) \<and> length (th_names s) = 16 \<and>
     (\<forall>t. pc_inv (th_glob s) (th_pc s t)) \<and>
     (\<forall>t t' i. thr_id (th_pc s t) = Some i \<longrightarrow> thr_id (th_pc s t') = Some i \<longrightarrow> t = t')"

lemma pc_inv_id: "pc_inv g pc \<Longrightarrow> thr_id pc = Some i \<Longrightarrow> i \<in> mask_set (tg_all g)"
  by (cases pc) auto

lemma pc_inv_cong:
  assumes "pc_inv g pc"
    and "\<And>i. thr_id pc = Some i \<Longrightarrow> i \<in> mask_set (tg_all g') \<and>
      (i \<in> mask_set (tg_worker g') \<longleftrightarrow> i \<in> mask_set (tg_worker g)) \<and> tg_thr g' ! i = tg_thr g ! i"
  shows "pc_inv g' pc"
  using assms by (cases pc) (auto simp: odp_thread_id_def odp_thread_type_def)

text \<open>A step of thread \<open>t\<close> keeps the invariant when it keeps what the others know.\<close>

lemma thr_invI:
  assumes s: "thr_inv s" and g': "glob_inv g'" and new: "pc_inv g' pc"
    and old: "\<And>i. i \<in> mask_set (tg_all (th_glob s)) \<Longrightarrow> thr_id (th_pc s t) \<noteq> Some i \<Longrightarrow>
      i \<in> mask_set (tg_all g') \<and> (i \<in> mask_set (tg_worker g') \<longleftrightarrow> i \<in> mask_set (tg_worker (th_glob s))) \<and>
      tg_thr g' ! i = tg_thr (th_glob s) ! i \<and> thr_id pc \<noteq> Some i"
  shows "thr_inv (s\<lparr>th_glob := g', th_pc := (th_pc s)(t := pc)\<rparr>)"
proof -
  have other: "thr_id (th_pc s t') = Some i \<Longrightarrow> t' \<noteq> t \<Longrightarrow>
      i \<in> mask_set (tg_all (th_glob s)) \<and> thr_id (th_pc s t) \<noteq> Some i" for t' i
    using s pc_inv_id unfolding thr_inv_def by blast
  have "pc_inv g' (th_pc s t')" if t': "t' \<noteq> t" for t'
  proof (rule pc_inv_cong)
    show "pc_inv (th_glob s) (th_pc s t')" using s by (simp add: thr_inv_def)
  qed (use other [OF _ t'] old in blast)
  then have pc: "pc_inv g' (((th_pc s)(t := pc)) t')" for t' using new by simp
  have inj: "thr_id (th_pc s t1) = Some i \<Longrightarrow> thr_id (th_pc s t2) = Some i \<Longrightarrow> t1 = t2" for t1 t2 i
    using s by (simp add: thr_inv_def)
  have fresh: "thr_id (th_pc s t') = Some i \<Longrightarrow> t' \<noteq> t \<Longrightarrow> thr_id pc \<noteq> Some i" for t' i
    using other old by blast
  have new_inj: "t1 = t2" if i: "thr_id (((th_pc s)(t := pc)) t1) = Some i" "thr_id (((th_pc s)(t := pc)) t2) = Some i" for t1 t2 i
    using i fresh [of t1 i] fresh [of t2 i] inj [of t1 i t2] by (cases "t1 = t"; cases "t2 = t") auto
  have names: "length (th_names s) = 16" using s by (simp add: thr_inv_def)
  have e: "th_glob (s\<lparr>th_glob := g', th_pc := (th_pc s)(t := pc)\<rparr>) = g'"
    "th_names (s\<lparr>th_glob := g', th_pc := (th_pc s)(t := pc)\<rparr>) = th_names s"
    "th_pc (s\<lparr>th_glob := g', th_pc := (th_pc s)(t := pc)\<rparr>) = (th_pc s)(t := pc)" by simp_all
  show ?thesis unfolding thr_inv_def e using new_inj by (intro conjI allI impI g' names pc) blast
qed

text \<open>Writing a named group changes none of the masks of the threads.\<close>

lemma glob_inv_named:
  assumes "glob_inv g" "3 \<le> i"
  shows "glob_inv (set_grp_mask i m g)" "pc_inv g pc \<Longrightarrow> pc_inv (set_grp_mask i m g) pc"
    "mask_set (tg_all (set_grp_mask i m g)) = mask_set (tg_all g)"
proof -
  have k: "tg_all (set_grp_mask i m g) = tg_all g" "tg_worker (set_grp_mask i m g) = tg_worker g"
    "tg_control (set_grp_mask i m g) = tg_control g" "tg_thr (set_grp_mask i m g) = tg_thr g"
    using assms(2) by (simp_all add: set_grp_mask_def)
  show "glob_inv (set_grp_mask i m g)" using assms(1) unfolding glob_inv_def k by (auto simp: set_grp_mask_def)
  show "pc_inv (set_grp_mask i m g) pc" if "pc_inv g pc"
    using that by (rule pc_inv_cong) (simp add: k pc_inv_id [OF that])
  show "mask_set (tg_all (set_grp_mask i m g)) = mask_set (tg_all g)" by (simp only: k)
qed

definition named_change :: "string list \<Rightarrow> thread_globals_t \<Rightarrow> string list \<Rightarrow> thread_globals_t \<Rightarrow> bool" where
  "named_change names g names' g' \<longleftrightarrow> names' = names \<and> g' = g \<or>
     length names' = length names \<and> (\<exists>i m. 3 \<le> i \<and> g' = set_grp_mask i m g)"

lemma named_changeI:
  "ODP_SCHED_GROUP_NAMED \<le> i \<Longrightarrow> length names' = length names \<Longrightarrow> named_change names g names' (set_grp_mask i m g)"
  "named_change names g names g"
  by (auto simp: named_change_def thread_consts)

lemma group_create_change: "odp_schedule_group_create name m names g = (rc, names', g') \<Longrightarrow> named_change names g names' g'"
  by (auto simp: odp_schedule_group_create_def find_Some_iff intro!: named_changeI split: option.splits)

lemma group_valid_named: "group_valid names grp \<Longrightarrow> ODP_SCHED_GROUP_NAMED \<le> nat grp"
  by (auto simp: group_valid_def)

lemma group_destroy_change: "odp_schedule_group_destroy grp names g = (rc, names', g') \<Longrightarrow> named_change names g names' g'"
  by (auto simp: odp_schedule_group_destroy_def intro!: named_changeI group_valid_named split: if_splits)

lemma group_join_change: "odp_schedule_group_join grp m names g = (rc, g') \<Longrightarrow> named_change names g names g'"
  by (auto simp: odp_schedule_group_join_def intro!: named_changeI group_valid_named split: if_splits)

lemma group_leave_change: "odp_schedule_group_leave setsize grp m names g = (rc, g') \<Longrightarrow> named_change names g names g'"
  by (auto simp: odp_schedule_group_leave_def Let_def intro!: named_changeI group_valid_named split: if_splits)

lemma thr_inv_named:
  assumes s: "thr_inv s" and "named_change (th_names s) (th_glob s) names g"
  shows "thr_inv (s\<lparr>th_names := names, th_glob := g\<rparr>)"
proof -
  have "glob_inv g" "length names = 16" "pc_inv (th_glob s) pc \<Longrightarrow> pc_inv g pc" for pc
    using assms glob_inv_named by (auto simp: named_change_def thr_inv_def)
  then show ?thesis using s by (simp add: thr_inv_def)
qed

lemma thr_inv_step:
  assumes s: "thr_inv s" and "thr_step s s'"
  shows "thr_inv s'"
proof -
  have g: "glob_inv (th_glob s)" and pc: "\<And>t. pc_inv (th_glob s) (th_pc s t)" using s by (simp_all add: thr_inv_def)
  show ?thesis
  using assms(2)
proof cases
  case (init_alloc t ty tid g')
  from g init_alloc(3) show ?thesis
  proof (cases rule: alloc_id_cases)
    case full
    then show ?thesis unfolding init_alloc(1) using g by (intro thr_invI [OF s]) (auto simp: full)
  next
    case (got i)
    have "i \<notin> mask_set (tg_worker (th_glob s))" using g got(4) by (auto simp: glob_inv_def)
    then show ?thesis unfolding init_alloc(1) got(5) using got(2,4)
      by (intro thr_invI [OF s alloc_take_inv [OF g got(3,4)]]) (auto simp: alloc_take_sets [OF g got(3)])
  qed
next
  case (init_publish t tid ty cpu)
  have p: "pc_inv (th_glob s) (Th_got tid ty)" using pc [of t] init_publish(2) by simp
  have g': "tg_grp (thread_publish tid cpu ty (th_glob s)) = tg_grp (th_glob s)"
    "tid < length (tg_thr (th_glob s))" "glob_inv (thread_publish tid cpu ty (th_glob s))"
    using p g by (auto simp: thread_publish_def glob_inv_def)
  show ?thesis unfolding init_publish(1)
    by (rule thr_invI [OF s g'(3)])
      (use p g'(2) init_publish(2) in \<open>auto simp: g'(1) thread_publish_def odp_thread_id_def odp_thread_type_def\<close>)
next
  case (init_no_cpu t tid ty)
  have "thr_inv (s\<lparr>th_glob := th_glob s, th_pc := (th_pc s)(t := Th_out)\<rparr>)"
    by (rule thr_invI [OF s g]) auto
  then show ?thesis unfolding init_no_cpu(1) by simp
next
  case (term_local t tid rc g1)
  have p: "pc_inv (th_glob s) (Th_run tid)" using pc [of t] term_local(2) by simp
  obtain g' where g': "free_id (int tid) (th_glob s) = (int (card (mask_set (tg_all (th_glob s))) - 1), g')" "glob_inv g'"
    "mask_set (tg_all g') = mask_set (tg_all (th_glob s)) - {tid}"
    "mask_set (tg_worker g') = mask_set (tg_worker (th_glob s)) - {tid}" "tg_thr g' = tg_thr (th_glob s)"
    by (rule free_id_spec [OF g, of tid]) (use p in \<open>auto simp: odp_thread_type_def\<close>)
  have "g1 = g'" using term_local(3) p g'(1) by (simp add: odp_thread_term_local_def)
  then show ?thesis unfolding term_local(1) using term_local(2) g'(3,4,5) by (intro thr_invI [OF s]) (auto simp: g'(2))
next
  case (group_create name m rc names g)
  then show ?thesis using thr_inv_named [OF s group_create_change] by simp
next
  case (group_destroy grp rc names g)
  then show ?thesis using thr_inv_named [OF s group_destroy_change] by simp
next
  case (group_join grp m rc g)
  then show ?thesis using thr_inv_named [OF s group_join_change] by simp
next
  case (group_leave mall grp m rc g)
  then show ?thesis using thr_inv_named [OF s group_leave_change] by simp
qed
qed

lemma thr_inv_start: "thr_start s \<Longrightarrow> thr_inv s"
  by (auto simp: thr_start_def thr_inv_def glob_inv_def thread_globals_init_def thread_consts)

interpretation th: invariant_system thr_start thr_step thr_inv
  by unfold_locales (rule thr_inv_start, assumption, rule thr_inv_step, assumption+)

section \<open>Properties\<close>

text \<open>C16. Whatever the order in which threads are initialised and terminated and groups are created,
  joined, left and destroyed: no two threads have the same identifier, an initialised thread reads
  its own identifier and is in the mask of its type only, the three counters are the numbers of
  threads in the three masks, and a new identifier is found, fresh, exactly when fewer than sixteen
  are in use.\<close>

theorem thread_ids_unique:
  assumes "thr_start s0" and "rtranclp thr_step s0 s"
  shows "(thr_id (th_pc s t) = Some i \<longrightarrow> thr_id (th_pc s t') = Some i \<longrightarrow> t = t') \<and>
    (th_pc s t = Th_run i \<longrightarrow> odp_thread_id (th_glob s) i = int i \<and>
       (odp_thrmask_isset (tg_worker (th_glob s)) i \<longleftrightarrow> odp_thread_type (th_glob s) i = ODP_THREAD_WORKER) \<and>
       (odp_thrmask_isset (tg_control (th_glob s)) i \<longleftrightarrow> odp_thread_type (th_glob s) i = ODP_THREAD_CONTROL)) \<and>
    odp_thread_count (th_glob s) = int (odp_thrmask_count (tg_all (th_glob s))) \<and>
    fst (odp_thrmask_worker (th_glob s)) = int (odp_thrmask_count (tg_worker (th_glob s))) \<and>
    fst (odp_thrmask_control (th_glob s)) = int (odp_thrmask_count (tg_control (th_glob s))) \<and>
    (if odp_thread_count (th_glob s) < 16
     then \<exists>j<16. fst (alloc_id ty (th_glob s)) = int j \<and> (\<forall>u. thr_id (th_pc s u) \<noteq> Some j)
     else alloc_id ty (th_glob s) = (-1, th_glob s))"
  (is "?inj \<and> ?run \<and> ?n \<and> ?w \<and> ?c \<and> ?new")
proof -
  let ?g = "th_glob s"
  have inv: "thr_inv s" by (rule th.reachable_inv [OF assms(2,1)])
  then have g: "glob_inv ?g" and pc: "\<And>t. pc_inv ?g (th_pc s t)" by (auto simp: thr_inv_def)
  have cnt: "odp_thrmask_count m = card (mask_set m)" for m
  proof -
    have "mask_set m = set (filter (bit m) [0..<32])" by (auto simp: mask_set_def dest: bit_imp_le_length)
    then show ?thesis unfolding odp_thrmask_count_def odp_cpumask_count_def
      by (metis distinct_card distinct_filter distinct_upt)
  qed
  have n: ?n ?w ?c using g glob_inv_card [OF g]
    by (simp_all add: odp_thread_count_def odp_thrmask_worker_def odp_thrmask_control_def cnt sint_u32 glob_inv_def)
  have run: ?run
  proof
    assume "th_pc s t = Th_run i"
    then have "pc_inv ?g (Th_run i)" using pc [of t] by simp
    then show "odp_thread_id ?g i = int i \<and>
       (odp_thrmask_isset (tg_worker ?g) i \<longleftrightarrow> odp_thread_type ?g i = ODP_THREAD_WORKER) \<and>
       (odp_thrmask_isset (tg_control ?g) i \<longleftrightarrow> odp_thread_type ?g i = ODP_THREAD_CONTROL)"
      using g by (cases "odp_thread_type ?g i") (auto simp: glob_inv_def)
  qed
  obtain tid g' where a: "alloc_id ty ?g = (tid, g')" by force
  from g a have new: ?new
  proof (cases rule: alloc_id_cases)
    case full
    then show ?thesis using n(1) by (simp add: cnt a)
  next
    case (got j)
    then have "\<forall>u. thr_id (th_pc s u) \<noteq> Some j" using pc pc_inv_id by blast
    then show ?thesis using got(1,2,3) n(1) by (auto simp: cnt a)
  qed
  show ?thesis using inv n run new by (simp add: thr_inv_def)
qed

definition thr_example :: thr_sys where
  "thr_example = \<lparr>th_glob = thread_globals_init, th_names = replicate ODP_CONFIG_SCHED_GRPS '''', th_pc = \<lambda>_. Th_out\<rparr>"

theorem thread_ids_unique_witness:
  "\<exists>s :: thr_sys. th_pc s 0 = Th_run 0 \<and> th_pc s 7 = Th_got 1 ODP_THREAD_CONTROL \<and> odp_thread_id (th_glob s) 0 = 0 \<and>
     odp_thread_count (th_glob s) = int (odp_thrmask_count (tg_all (th_glob s)))"
proof -
  define g1 where "g1 = snd (alloc_id ODP_THREAD_WORKER thread_globals_init)"
  define g2 where "g2 = thread_publish 0 3 ODP_THREAD_WORKER g1"
  define g3 where "g3 = snd (alloc_id ODP_THREAD_CONTROL g2)"
  have a: "alloc_id ODP_THREAD_WORKER thread_globals_init = (0, g1)" "alloc_id ODP_THREAD_CONTROL g2 = (1, g3)"
    unfolding g1_def g2_def g3_def by (simp_all add: prod_eq_iff, code_simp+)
  let ?s1 = "thr_example\<lparr>th_glob := g1, th_pc := (th_pc thr_example)(0 := Th_got 0 ODP_THREAD_WORKER)\<rparr>"
  let ?s2 = "?s1\<lparr>th_glob := g2, th_pc := (th_pc ?s1)(0 := Th_run 0)\<rparr>"
  let ?s3 = "?s2\<lparr>th_glob := g3, th_pc := (th_pc ?s2)(7 := Th_got 1 ODP_THREAD_CONTROL)\<rparr>"
  have "thr_step thr_example ?s1"
    using init_alloc [of thr_example 0 ODP_THREAD_WORKER 0 g1] a(1) by (simp add: thr_example_def)
  moreover have "thr_step ?s1 ?s2" using init_publish [of ?s1 0 0 ODP_THREAD_WORKER 3] by (simp add: g2_def)
  moreover have "thr_step ?s2 ?s3"
    using init_alloc [of ?s2 7 ODP_THREAD_CONTROL 1 g3] a(2) by (simp add: thr_example_def)
  ultimately have run: "rtranclp thr_step thr_example ?s3" by (rule three_steps)
  have start: "thr_start thr_example" by (simp add: thr_start_def thr_example_def)
  have "\<exists>s. rtranclp thr_step thr_example s \<and> th_pc s 0 = Th_run 0 \<and> th_pc s 7 = Th_got 1 ODP_THREAD_CONTROL"
    by (rule exI [of _ ?s3], intro conjI, rule run, simp_all)
  then obtain s where s: "rtranclp thr_step thr_example s" "th_pc s 0 = Th_run 0" "th_pc s 7 = Th_got 1 ODP_THREAD_CONTROL"
    by blast
  have "odp_thread_id (th_glob s) 0 = 0 \<and> odp_thread_count (th_glob s) = int (odp_thrmask_count (tg_all (th_glob s)))"
    using thread_ids_unique [OF start s(1), of 0 0 7 ODP_THREAD_WORKER] s(2) by simp
  then show ?thesis using s(2,3) by blast
qed

section \<open>Scheduling groups\<close>

text \<open>A mask of threads below the size of a mask, without those of another mask.\<close>

lemma leave_mask:
  assumes "\<And>j. bit m j \<Longrightarrow> j < setsize"
  shows "odp_thrmask_and m (odp_thrmask_xor m' (sched_mask_all setsize)) = m AND NOT m'"
proof (rule bit_word_eqI)
  fix j assume j: "j < LENGTH(32)"
  have "bit (sched_mask_all setsize) j \<longleftrightarrow> j < setsize"
    using j by (simp add: sched_mask_all_def odp_thrmask_setall_def odp_thrmask_zero_def odp_cpumask_zero_def bit_cpumask_setall)
  then show "bit (odp_thrmask_and m (odp_thrmask_xor m' (sched_mask_all setsize))) j \<longleftrightarrow> bit (m AND NOT m') j"
    using assms [of j] j
    by (auto simp: odp_thrmask_and_def odp_cpumask_and_def odp_thrmask_xor_def odp_cpumask_xor_def bit_and_iff bit_xor_iff bit_not_iff)
qed

text \<open>The masks of all groups but one.\<close>

definition other_masks_same :: "nat \<Rightarrow> thread_globals_t \<Rightarrow> thread_globals_t \<Rightarrow> bool" where
  "other_masks_same i g g' \<longleftrightarrow> (\<forall>j. j \<noteq> i \<longrightarrow> thread_sched_grp_mask g' j = thread_sched_grp_mask g j)"

lemma other_masks_set: "other_masks_same i g g' \<Longrightarrow> other_masks_same i g (set_grp_mask i k g')" "other_masks_same i g g"
  by (simp_all add: other_masks_same_def thread_sched_grp_mask_def set_grp_mask_def)

lemma group_create_cases:
  assumes "length name < 32" "odp_schedule_group_create name m names g = (grp, names', g')"
  obtains (full) "\<forall>i. 3 \<le> i \<and> i < 16 \<longrightarrow> names ! i \<noteq> ''''" "grp = -1" "names' = names" "g' = g"
  | (new) i where "3 \<le> i" "i < 16" "names ! i = ''''" "grp = int i" "names' = names[i := name]" "g' = set_grp_mask i m g"
proof (cases "find (\<lambda>i. names ! i = '''') [3..<16]")
  case None
  then have "grp = -1" "names' = names" "g' = g"
    using assms(2) by (auto simp: odp_schedule_group_create_def thread_consts simp del: upt_rec_numeral)
  moreover have "\<forall>i. 3 \<le> i \<and> i < 16 \<longrightarrow> names ! i \<noteq> ''''" using None unfolding find_upt_None .
  ultimately show ?thesis using full by blast
next
  case (Some i)
  then have "3 \<le> i" "i < 16" "names ! i = ''''" by (auto simp: find_upt_Some simp del: upt_rec_numeral)
  then show ?thesis using new [of i] assms Some by (auto simp: odp_schedule_group_create_def thread_consts simp del: upt_rec_numeral)
qed

lemma group_created_ops:
  assumes "length names = 16" "length (tg_grp g) = 16" "name \<noteq> ''''" "\<forall>i. 3 \<le> i \<and> i < 16 \<longrightarrow> names ! i \<noteq> name"
    and i: "3 \<le> i" "i < 16" "names ! i = ''''"
    and n: "names' = names[i := name]" and g: "g' = set_grp_mask i m g"
  shows "odp_schedule_group_lookup name names' = int i"
    "odp_schedule_group_thrmask (int i) names' g' = (0, Some m)"
    "odp_schedule_group_join (int i) m' names' g' = (0, set_grp_mask i (m OR m') g')"
    "odp_schedule_group_leave setsize (int i) m' names' g' =
       (0, set_grp_mask i (odp_thrmask_and m (odp_thrmask_xor m' (sched_mask_all setsize))) g')"
    "odp_schedule_group_thrmask (int i) names' (set_grp_mask i k g') = (0, Some k)"
    "odp_schedule_group_destroy (int i) names' g' = (0, names, set_grp_mask i odp_thrmask_zero g')"
    "odp_schedule_group_lookup name names = -1"
proof -
  have v: "group_valid names' (int i)" using i assms(1,3) by (simp add: n group_valid_def thread_consts)
  have k: "thread_sched_grp_mask (set_grp_mask i k g'') i = k" if "length (tg_grp g'') = 16" for k g''
    using that i by (simp add: thread_sched_grp_mask_def set_grp_mask_def)
  have l: "length (tg_grp g') = 16" using assms(2) by (simp add: g set_grp_mask_def)
  have "find (\<lambda>j. name = names' ! j) [3..<16] = Some i"
    using i assms(1,4) by (auto simp: find_upt_Some n nth_list_update simp del: upt_rec_numeral)
  then show "odp_schedule_group_lookup name names' = int i"
    by (simp add: odp_schedule_group_lookup_def thread_consts del: upt_rec_numeral)
  have "find (\<lambda>j. name = names ! j) [3..<16] = None" using assms(4) by (auto simp: find_upt_None simp del: upt_rec_numeral)
  then show "odp_schedule_group_lookup name names = -1"
    by (simp add: odp_schedule_group_lookup_def thread_consts del: upt_rec_numeral)
  show "odp_schedule_group_thrmask (int i) names' g' = (0, Some m)"
    using v k [OF assms(2)] by (simp add: odp_schedule_group_thrmask_def g)
  show "odp_schedule_group_thrmask (int i) names' (set_grp_mask i k g') = (0, Some k)" for k
    using v k [OF l] by (simp add: odp_schedule_group_thrmask_def)
  show "odp_schedule_group_join (int i) m' names' g' = (0, set_grp_mask i (m OR m') g')"
    using v k [OF assms(2)] by (simp add: odp_schedule_group_join_def odp_thrmask_or_def odp_cpumask_or_def g)
  show "odp_schedule_group_leave setsize (int i) m' names' g' =
       (0, set_grp_mask i (odp_thrmask_and m (odp_thrmask_xor m' (sched_mask_all setsize))) g')"
    using v k [OF assms(2)] by (simp add: odp_schedule_group_leave_def g Let_def)
  have "names'[i := ''''] = names" using i(3) by (metis n list_update_id list_update_overwrite)
  then show "odp_schedule_group_destroy (int i) names' g' = (0, names, set_grp_mask i odp_thrmask_zero g')"
    using v by (simp add: odp_schedule_group_destroy_def)
qed

text \<open>C35. Named scheduling groups, for a name that is neither empty nor in use and has fewer than 32 characters, and a mask
  of threads below \<open>CPU_SETSIZE\<close>. Creating a group fails exactly when thirteen named groups exist, and then changes nothing.
  Otherwise it takes a free slot, keeps the names and masks of all other groups, and the lookup of the name finds the new group
  with the given mask; joining adds threads to it, leaving removes them, and destroying it frees the slot again,
  so that the name is not found. None of these calls changes the mask of another group.\<close>

theorem schedule_group_lifecycle:
  assumes "length names = 16" "length (tg_grp g) = 16" "name \<noteq> ''''" "length name < 32"
    and "\<forall>i. 3 \<le> i \<and> i < 16 \<longrightarrow> names ! i \<noteq> name" "\<forall>j. bit m j \<longrightarrow> j < setsize"
    and "odp_schedule_group_create name m names g = (grp, names', g')"
  shows "(grp = -1 \<longleftrightarrow> (\<forall>i. 3 \<le> i \<and> i < 16 \<longrightarrow> names ! i \<noteq> '''')) \<and>
    (if grp = -1 then names' = names \<and> g' = g
     else 3 \<le> grp \<and> grp < 16 \<and> names ! nat grp = '''' \<and> names' = names[nat grp := name] \<and> other_masks_same (nat grp) g g' \<and>
      odp_schedule_group_lookup name names' = grp \<and> odp_schedule_group_thrmask grp names' g' = (0, Some m) \<and>
      (\<exists>g2. odp_schedule_group_join grp m' names' g' = (0, g2) \<and> other_masks_same (nat grp) g g2 \<and>
        odp_schedule_group_thrmask grp names' g2 = (0, Some (m OR m'))) \<and>
      (\<exists>g2. odp_schedule_group_leave setsize grp m' names' g' = (0, g2) \<and> other_masks_same (nat grp) g g2 \<and>
        odp_schedule_group_thrmask grp names' g2 = (0, Some (m AND NOT m'))) \<and>
      (\<exists>g2. odp_schedule_group_destroy grp names' g' = (0, names, g2) \<and> other_masks_same (nat grp) g g2 \<and>
        odp_schedule_group_lookup name names = -1))"
  using assms(4,7)
proof (cases rule: group_create_cases)
  case (new i)
  note O = group_created_ops [OF assms(1,2,3,5) new(1-3,5,6)]
  have "other_masks_same i g g'" unfolding new(6) by (intro other_masks_set)
  moreover from this have "other_masks_same i g (set_grp_mask i k g')" for k by (rule other_masks_set)
  moreover have "odp_thrmask_and m (odp_thrmask_xor m' (sched_mask_all setsize)) = m AND NOT m'" using assms(6) by (intro leave_mask) blast
  moreover have "\<not> (\<forall>i. 3 \<le> i \<and> i < 16 \<longrightarrow> names ! i \<noteq> '''')" using new(1-3) by blast
  ultimately show ?thesis unfolding new(4) using O new(1-3,5) by simp
qed simp

theorem schedule_group_lifecycle_witness:
  "let (grp, names, g) = odp_schedule_group_create ''io'' 5 (replicate 16 '''') thread_globals_init in
     grp = 3 \<and> odp_schedule_group_lookup ''io'' names = 3 \<and>
     odp_schedule_group_thrmask 3 names (snd (odp_schedule_group_join 3 2 names g)) = (0, Some (5 OR 2)) \<and>
     odp_schedule_group_thrmask 3 names (snd (odp_schedule_group_leave 32 3 2 names g)) = (0, Some (5 AND NOT 2))"
proof -
  let ?r = "odp_schedule_group_create ''io'' 5 (replicate 16 '''') thread_globals_init"
  obtain grp names g where r: "?r = (grp, names, g)" by (cases ?r)
  have "fst ?r = 3" by code_simp
  then have g: "grp = 3" using r by simp
  have l: "length (tg_grp thread_globals_init) = 16" by (simp add: thread_globals_init_def thread_consts)
  have b: "\<forall>j. bit (5 :: odp_thrmask_t) j \<longrightarrow> j < 32" using bit_imp_le_length [of "5 :: odp_thrmask_t"] by auto
  show ?thesis
    using schedule_group_lifecycle [OF _ l _ _ _ b r, of 2] r g by fastforce
qed

end
