(* ===== verification/Odp_Time.thy ===== *)
theory Odp_Time
  imports Odp_Prelude
begin

text \<open>
  Time (\<open>platform/mppa/odp_time.c\<close>). A time is a number of cycles, a signed number of 64 bits: two
  times are compared as signed numbers, and divided by the frequency, which is unsigned, as unsigned ones. The frequency of the
  core is the parameter \<open>freq\<close>; the cycle counter is read through \<open>clock\<close>, the value of the \<open>k\<close>-th
  reading.
\<close>

type_synonym odp_time_t = u64

definition ODP_TIME_SEC_IN_NS :: u64 where "ODP_TIME_SEC_IN_NS = 1000000000"

definition time_to_ns :: "u64 \<Rightarrow> odp_time_t \<Rightarrow> u64" where
  "time_to_ns freq cycles =
     (cycles div freq) * ODP_TIME_SEC_IN_NS + (cycles mod freq) * ODP_TIME_SEC_IN_NS div freq"

definition time_diff :: "odp_time_t \<Rightarrow> odp_time_t \<Rightarrow> odp_time_t" where "time_diff t2 t1 = t2 - t1"

definition time_local :: "(nat \<Rightarrow> u64) \<Rightarrow> odp_time_t \<Rightarrow> nat \<Rightarrow> odp_time_t" where
  "time_local clock start_time k = time_diff (clock k) start_time"

definition time_cmp :: "odp_time_t \<Rightarrow> odp_time_t \<Rightarrow> int" where
  "time_cmp t2 t1 = (if sint t2 < sint t1 then - 1 else if sint t2 > sint t1 then 1 else 0)"

definition time_sum :: "odp_time_t \<Rightarrow> odp_time_t \<Rightarrow> odp_time_t" where "time_sum t1 t2 = t1 + t2"

definition time_local_from_ns :: "u64 \<Rightarrow> u64 \<Rightarrow> odp_time_t" where
  "time_local_from_ns freq ns =
     (ns div ODP_TIME_SEC_IN_NS) * freq + ((ns mod ODP_TIME_SEC_IN_NS) * freq) div ODP_TIME_SEC_IN_NS"

text \<open>The number of the next reading when the loop has ended.\<close>

partial_function (option) time_wait_until :: "(nat \<Rightarrow> u64) \<Rightarrow> odp_time_t \<Rightarrow> odp_time_t \<Rightarrow> nat \<Rightarrow> nat option" where
  "time_wait_until clock start_time t k =
     (let cur = time_local clock start_time k in
      if time_cmp t cur > 0 then time_wait_until clock start_time t (Suc k) else Some (Suc k))"

definition time_local_res :: "u64 \<Rightarrow> u64" where "time_local_res freq = freq"

definition odp_time_wait_ns :: "u64 \<Rightarrow> (nat \<Rightarrow> u64) \<Rightarrow> odp_time_t \<Rightarrow> u64 \<Rightarrow> nat \<Rightarrow> nat option" where
  "odp_time_wait_ns freq clock start_time ns k =
     (let cur = time_local clock start_time k;
          wait = time_local_from_ns freq ns;
          end_time = time_sum cur wait
      in time_wait_until clock start_time end_time (Suc k))"

section \<open>The conversions are exact\<close>

lemma div_split: "(a div f) * n + (a mod f) * n div f = a * n div (f :: nat)"
proof (cases "f = 0")
  case False
  have "a * n = (a mod f) * n + f * ((a div f) * n)"
    by (metis add.commute add_mult_distrib mult.assoc mult_div_mod_eq)
  then show ?thesis using False by (simp add: div_mult_self1 add.commute)
qed simp

lemma unat_add_exact: "unat (a :: u64) + unat b < 2 ^ 64 \<Longrightarrow> unat (a + b) = unat a + unat b"
  by (simp add: unat_word_ariths)

lemma unat_mult_exact: "unat (a :: u64) * unat b < 2 ^ 64 \<Longrightarrow> unat (a * b) = unat a * unat b"
  by (simp add: unat_word_ariths)

text \<open>The quotient of a product, computed in two parts.\<close>

lemma scale_exact:
  fixes a f n :: u64
  assumes f: "0 < f" and small: "(unat f - 1) * unat n < 2 ^ 64" and fits: "unat a * unat n div unat f < 2 ^ 64"
  shows "unat ((a div f) * n + (a mod f) * n div f) = unat a * unat n div unat f"
proof -
  have f0: "0 < unat f" using f by (simp add: word_less_nat_alt)
  have "unat a mod unat f \<le> unat f - 1" using f0 by (simp add: less_imp_le_nat Suc_leI le_diff_conv2 less_Suc_eq_le)
  then have m: "unat a mod unat f * unat n < 2 ^ 64" using small by (meson le_less_trans mult_le_mono1)
  have p: "unat (a mod f * n div f) = unat a mod unat f * unat n div unat f"
    using m by (simp add: unat_div unat_mod unat_mult_exact)
  have s: "unat a div unat f * unat n + unat a mod unat f * unat n div unat f = unat a * unat n div unat f"
    by (rule div_split)
  have q: "unat (a div f * n) = unat a div unat f * unat n"
    using s fits by (subst unat_mult_exact) (simp_all add: unat_div)
  show ?thesis using p q s fits by (subst unat_add_exact) simp_all
qed

lemma time_wait_until_returns:
  assumes "k \<le> j" "sint t \<le> sint (time_local clock start_time j)"
  shows "\<exists>i. time_wait_until clock start_time t k = Some (Suc i) \<and> k \<le> i \<and> i \<le> j \<and> sint t \<le> sint (time_local clock start_time i)"
  using assms(1)
proof (induction k rule: inc_induct)
  case base
  then show ?case using assms(2) by (subst time_wait_until.simps) (auto simp: time_cmp_def Let_def)
next
  case (step k)
  then obtain i where "time_wait_until clock start_time t (Suc k) = Some (Suc i)" "Suc k \<le> i" "i \<le> j"
    "sint t \<le> sint (time_local clock start_time i)" by blast
  moreover have "\<exists>i. time_wait_until clock start_time t k = Some (Suc i) \<and> k \<le> i \<and> i \<le> j \<and> sint t \<le> sint (time_local clock start_time i)"
    if "\<not> sint t > sint (time_local clock start_time k)"
    using that step(1,2) by (intro exI [of _ k], subst time_wait_until.simps) (auto simp: time_cmp_def Let_def)
  ultimately show ?case
    using step(1) by (cases "sint t > sint (time_local clock start_time k)")
      (force simp: time_wait_until.simps [of clock start_time t k] time_cmp_def Let_def)+
qed

lemma floor_roundtrip:
  fixes x f n :: nat
  assumes "0 < f" "0 < n"
  shows "(x * f div n) * n div f \<le> x" "x \<le> (x * f div n) * n div f + n div f + 1"
proof -
  define c where "c = x * f div n"
  define t where "t = c * n div f"
  have c: "c * n \<le> x * f" "x * f < c * n + n"
    using dividend_less_div_times [OF assms(2), of "x * f"] unfolding c_def by (simp_all add: add.commute)
  have t: "t * f \<le> c * n" "c * n < t * f + f"
    using dividend_less_div_times [OF assms(1), of "c * n"] unfolding t_def by (simp_all add: add.commute)
  have d: "n < (n div f + 1) * f" using dividend_less_div_times [OF assms(1), of n] by (simp add: add.commute)
  have "t * f \<le> x * f" using c(1) t(1) by linarith
  then show "(x * f div n) * n div f \<le> x" using assms(1) by (simp add: t_def c_def)
  have "x * f < (t + n div f + 2) * f" using c(2) t(2) d by (simp add: algebra_simps)
  then have "x < t + n div f + 2" using assms(1) by (simp only: mult_less_cancel2)
  then show "x \<le> (x * f div n) * n div f + n div f + 1" by (simp add: t_def c_def)
qed

section \<open>Properties\<close>

text \<open>C34. The conversions between cycles and nanoseconds split the product so that it does not
  overflow: for every frequency up to 18 GHz they compute the exact quotient whenever it fits in 64
  bits. Converting a duration to cycles and back never gives more than the duration, and loses at
  most one nanosecond more than a cycle takes.\<close>

theorem time_conversions_exact:
  assumes f: "0 < freq" "unat freq \<le> 18000000000"
    and c: "unat c * 1000000000 div unat freq < 2 ^ 64" and ns: "unat ns * unat freq div 1000000000 < 2 ^ 64"
  shows "unat (time_to_ns freq c) = unat c * 1000000000 div unat freq \<and>
    unat (time_local_from_ns freq ns) = unat ns * unat freq div 1000000000 \<and>
    unat (time_to_ns freq (time_local_from_ns freq ns)) \<le> unat ns \<and>
    unat ns \<le> unat (time_to_ns freq (time_local_from_ns freq ns)) + 1000000000 div unat freq + 1"
proof -
  have n: "unat ODP_TIME_SEC_IN_NS = 1000000000" by (simp add: ODP_TIME_SEC_IN_NS_def)
  have f0: "0 < unat freq" using f(1) by (simp add: word_less_nat_alt)
  have to: "unat (time_to_ns freq c) = unat c * 1000000000 div unat freq"
    if "unat c * 1000000000 div unat freq < 2 ^ 64" for c
    unfolding time_to_ns_def using f that by (subst scale_exact) (simp_all add: n)
  have of: "unat (time_local_from_ns freq ns) = unat ns * unat freq div 1000000000"
    unfolding time_local_from_ns_def using f ns by (subst scale_exact) (simp_all add: n ODP_TIME_SEC_IN_NS_def)
  note r = floor_roundtrip [OF f0, of 1000000000 "unat ns"]
  have "unat ns < 2 ^ 64" using unsigned_less [of ns] by simp
  then have "unat (time_local_from_ns freq ns) * 1000000000 div unat freq < 2 ^ 64" using r(1) of by simp
  then show ?thesis using to [OF c] to of r by simp
qed

theorem time_conversions_exact_witness:
  "unat (time_to_ns 4000000000 18446744073709551615) = 4611686018427387903 \<and>
   unat (time_local_from_ns 4000000000 2500) = 10000"
proof -
  have "unat (18446744073709551615 :: u64) * 1000000000 div unat (4000000000 :: u64) < 2 ^ 64" by simp
  then show ?thesis using time_conversions_exact [of 4000000000 18446744073709551615 2500] by simp
qed

end
