(* ===== verification/Odp_Sched.thy ===== *)
theory Odp_Sched
  imports Odp_Pktio Odp_Thread Odp_Time
begin

text \<open>
  The scheduler (\<open>platform/mppa/odp_schedule.c\<close>) and the ordered locks of \<open>odp_queue.c\<close>. The functions
  below run for one thread, whose context is \<open>os_local\<close>; the step relation further down lets any
  number of threads run, one locked section at a time. The arguments shared by the functions are
  packet output \<open>io\<close>, the addresses \<open>ptr\<close> of the interfaces, their drivers \<open>drv\<close>, the thread
  table \<open>g\<close> with the group masks and the identifier \<open>thr\<close> of the thread.
\<close>

section \<open>Definitions: the context of a thread\<close>

definition MAX_DEQ :: nat where "MAX_DEQ = 4"
definition ODP_SCHED_WAIT :: u64 where "ODP_SCHED_WAIT = - 1"
definition ODP_SCHED_NO_WAIT :: u64 where "ODP_SCHED_NO_WAIT = 0"

definition sched_local_zero :: sched_local_t where
  "sched_local_zero = \<lparr>sl_pri_queue = None, sl_cmd_ev = 0, sl_buf_hdr = replicate MAX_DEQ 0, sl_qe = None,
     sl_origin_qe = None, sl_order = 0, sl_sync = [0], sl_pool = None, sl_enq_called = False, sl_num = 0,
     sl_index = 0, sl_pause = False, sl_ignore_ordered_context = False\<rparr>"

definition sched_local_init :: "odp_state \<Rightarrow> odp_state" where
  "sched_local_init st = upd_local (\<lambda>_. sched_local_zero) st"

definition odp_schedule_init_local :: "odp_state \<Rightarrow> int \<times> odp_state" where
  "odp_schedule_init_local st = (0, sched_local_init st)"

text \<open>The queue of a priority is named after it.\<close>

fun init_pri_queues :: "nat list \<Rightarrow> odp_state \<Rightarrow> (int \<times> odp_state) option" where
  "init_pri_queues [] st = Some (0, st)"
| "init_pri_queues (i # is) st =
     do {
       (queue, st) \<leftarrow> odp_queue_create st (''odp_pri'' @ [char_of (48 + i div 10), char_of (48 + i - 10 * (i div 10))])
         ODP_QUEUE_TYPE_POLL None;
       case queue of
         None \<Rightarrow> Some (- 1, st)
       | Some q \<Rightarrow> init_pri_queues is
           (st\<lparr>os_sched := (os_sched st)\<lparr>sc_pri_queue := (sc_pri_queue (os_sched st))[i := q],
                                       sc_pri_count := (sc_pri_count (os_sched st))[i := 0]\<rparr>\<rparr>)
     }"

text \<open>\<open>odp_schedule_init_global\<close> after the pool of the command events has been created.\<close>

definition schedule_init_queues :: "nat \<Rightarrow> odp_state \<Rightarrow> (int \<times> odp_state) option" where
  "schedule_init_queues pool st =
     init_pri_queues [0..<ODP_CONFIG_SCHED_PRIOS]
       (st\<lparr>os_sched := \<lparr>sc_pri_queue = replicate ODP_CONFIG_SCHED_PRIOS 0, sc_pool = pool,
                        sc_pri_count = replicate ODP_CONFIG_SCHED_PRIOS 0\<rparr>\<rparr>)"

definition odp_schedule_release_atomic ::
  "(odp_state \<Rightarrow> nat \<Rightarrow> u32 list \<Rightarrow> int \<times> odp_state) \<Rightarrow> odp_state \<Rightarrow> odp_state option" where
  "odp_schedule_release_atomic io st =
     (case sl_pri_queue (os_local st) of
        None \<Rightarrow> Some st
      | Some pri \<Rightarrow>
          if sl_num (os_local st) = 0
          then do {
            (rc, st) \<leftarrow> odp_queue_enq io st pri (sl_cmd_ev (os_local st));
            if rc \<noteq> 0 then None else Some (upd_local (\<lambda>l. l\<lparr>sl_pri_queue := None\<rparr>) st)
          }
          else Some st)"

definition odp_schedule_release_ordered ::
  "(odp_state \<Rightarrow> nat \<Rightarrow> u32 list \<Rightarrow> int \<times> odp_state) \<Rightarrow> odp_state \<Rightarrow> odp_state option" where
  "odp_schedule_release_ordered io st =
     (case sl_origin_qe (os_local st) of
        None \<Rightarrow> Some st
      | Some origin \<Rightarrow> do {
          pool \<leftarrow> sl_pool (os_local st);
          (rc, st) \<leftarrow> release_order io st origin (sl_order (os_local st)) pool (sl_enq_called (os_local st));
          Some (if rc = 0 then upd_local (\<lambda>l. l\<lparr>sl_origin_qe := None\<rparr>) st else st)
        })"

definition odp_schedule_release_context ::
  "(odp_state \<Rightarrow> nat \<Rightarrow> u32 list \<Rightarrow> int \<times> odp_state) \<Rightarrow> odp_state \<Rightarrow> odp_state option" where
  "odp_schedule_release_context io st =
     (case sl_origin_qe (os_local st) of
        Some origin \<Rightarrow> do {
          pool \<leftarrow> sl_pool (os_local st);
          (rc, st) \<leftarrow> release_order io st origin (sl_order (os_local st)) pool (sl_enq_called (os_local st));
          Some (upd_local (\<lambda>l. l\<lparr>sl_origin_qe := None\<rparr>) st)
        }
      | None \<Rightarrow> odp_schedule_release_atomic io st)"

definition odp_schedule_term_local ::
  "(odp_state \<Rightarrow> nat \<Rightarrow> u32 list \<Rightarrow> int \<times> odp_state) \<Rightarrow> odp_state \<Rightarrow> (int \<times> odp_state) option" where
  "odp_schedule_term_local io st =
     (if sl_num (os_local st) \<noteq> 0 then Some (- 1, st)
      else do { st \<leftarrow> odp_schedule_release_context io st; Some (0, sched_local_init st) })"

definition copy_events :: "nat \<Rightarrow> odp_state \<Rightarrow> u32 list \<times> odp_state" where
  "copy_events mx st =
     (let l = os_local st; num = (if mx > sl_num l then sl_num l else mx) in
      (take num (drop (sl_index l) (sl_buf_hdr l)),
       upd_local (\<lambda>l. l\<lparr>sl_index := sl_index l + num, sl_num := sl_num l - num\<rparr>) st))"

section \<open>Definitions: scheduling\<close>

text \<open>A thread may serve a queue of the group of all threads, or of a group it is in.\<close>

definition group_eligible :: "thread_globals_t \<Rightarrow> nat \<Rightarrow> int \<Rightarrow> bool" where
  "group_eligible g thr qe_grp \<longleftrightarrow>
     \<not> (qe_grp > ODP_SCHED_GROUP_ALL \<and> \<not> odp_thrmask_isset (thread_sched_grp_mask g (nat qe_grp)) thr)"

definition requeue ::
  "(odp_state \<Rightarrow> nat \<Rightarrow> u32 list \<Rightarrow> int \<times> odp_state) \<Rightarrow> nat \<Rightarrow> u32 \<Rightarrow> io_state \<Rightarrow> io_state option" where
  "requeue io pri_q ev s =
     do { (rc, st) \<leftarrow> odp_queue_enq io (io_st s) pri_q ev; if rc \<noteq> 0 then None else Some (s\<lparr>io_st := st\<rparr>) }"

text \<open>The events of a queue are kept for the calls to come and the first of them are given out; the
  counters of the ordered locks are those the dequeue has just assigned.\<close>

definition dispatch ::
  "(odp_state \<Rightarrow> nat \<Rightarrow> u32 list \<Rightarrow> int \<times> odp_state) \<Rightarrow> nat \<Rightarrow> nat \<Rightarrow> u32 \<Rightarrow> nat \<Rightarrow> u32 list \<Rightarrow> io_state \<Rightarrow>
   (u32 list \<times> nat option \<times> io_state) option" where
  "dispatch io max_num pri_q ev q bs s =
     (let st = upd_local (\<lambda>l. l\<lparr>sl_buf_hdr := bs @ drop (length bs) (sl_buf_hdr l), sl_num := length bs,
                              sl_index := 0, sl_qe := Some q\<rparr>) (io_st s);
          (out, st) = copy_events max_num st;
          s = s\<lparr>io_st := st\<rparr>;
          sync = map (\<lambda>k. qe_sync_in (qe st q) ! k - 1) [0..<sp_lock_count (qe_param (qe st q))]
      in if queue_is_ordered (qe st q)
         then do {
           s \<leftarrow> requeue io pri_q ev s;
           let h = hdr (io_st s) (bs ! 0);
           Some (out, Some q, s\<lparr>io_st := upd_local (\<lambda>l. l\<lparr>sl_origin_qe := Some q, sl_order := bh_order h,
             sl_pool := bh_pool_hdl h, sl_sync := sync @ drop (length sync) (sl_sync l), sl_enq_called := False\<rparr>) (io_st s)\<rparr>)
         }
         else if queue_is_atomic (qe st q)
         then Some (out, Some q, s\<lparr>io_st := upd_local (\<lambda>l. l\<lparr>sl_pri_queue := Some pri_q, sl_cmd_ev := ev\<rparr>) st\<rparr>)
         else do { s \<leftarrow> requeue io pri_q ev s; Some (out, Some q, s) })"

fun schedule_prios ::
  "(odp_state \<Rightarrow> nat \<Rightarrow> u32 list \<Rightarrow> int \<times> odp_state) \<Rightarrow> (nat \<Rightarrow> u32) \<Rightarrow> pktio_if_ops_t list \<Rightarrow> thread_globals_t \<Rightarrow> nat \<Rightarrow>
   nat \<Rightarrow> nat \<Rightarrow> nat list \<Rightarrow> io_state \<Rightarrow> (u32 list \<times> nat option \<times> io_state) option" where
  "schedule_prios io ptr drv g thr max_num max_deq [] s = Some ([], None, s)"
| "schedule_prios io ptr drv g thr max_num max_deq (i # is) s =
     (if sc_pri_count (os_sched (io_st s)) ! i = 0 then schedule_prios io ptr drv g thr max_num max_deq is s
      else do {
        let pri_q = sc_pri_queue (os_sched (io_st s)) ! i;
        (ev, st) \<leftarrow> odp_queue_deq (io_st s) pri_q;
        let s = s\<lparr>io_st := st\<rparr>;
        if ev = 0 then schedule_prios io ptr drv g thr max_num max_deq is s
        else case os_cmd st ev of
          Cmd_none \<Rightarrow> None
        | Cmd_poll_pktin p prio \<Rightarrow> do {
            (rc, s) \<leftarrow> pktin_poll io ptr drv p s;
            s \<leftarrow> (if rc \<noteq> 0
              then do {
                let st = pri_clr prio (io_st s);
                pools \<leftarrow> odp_buffer_free (os_pools st) ev;
                Some (s\<lparr>io_st := st\<lparr>os_pools := pools\<rparr>\<rparr>)
              }
              else requeue io pri_q ev s);
            schedule_prios io ptr drv g thr max_num max_deq is s
          }
        | Cmd_dequeue q \<Rightarrow>
            if \<not> group_eligible g thr (sp_group (qe_param (qe st q)))
            then do { s \<leftarrow> requeue io pri_q ev s; schedule_prios io ptr drv g thr max_num max_deq is s }
            else let max_deq = (if queue_is_ordered (qe st q) then 1 else max_deq);
                     (bufs, st) = queue_deq_multi st q max_deq
                 in case bufs of
                      None \<Rightarrow> do {
                        st \<leftarrow> queue_destroy_finalize st q;
                        schedule_prios io ptr drv g thr max_num max_deq is (s\<lparr>io_st := st\<rparr>)
                      }
                    | Some [] \<Rightarrow> schedule_prios io ptr drv g thr max_num max_deq is (s\<lparr>io_st := st\<rparr>)
                    | Some bs \<Rightarrow> dispatch io max_num pri_q ev q bs (s\<lparr>io_st := st\<rparr>)
      })"

text \<open>The result is the list of events, the queue they come from and the state.\<close>

definition schedule ::
  "(odp_state \<Rightarrow> nat \<Rightarrow> u32 list \<Rightarrow> int \<times> odp_state) \<Rightarrow> (nat \<Rightarrow> u32) \<Rightarrow> pktio_if_ops_t list \<Rightarrow> thread_globals_t \<Rightarrow> nat \<Rightarrow>
   nat \<Rightarrow> nat \<Rightarrow> io_state \<Rightarrow> (u32 list \<times> nat option \<times> io_state) option" where
  "schedule io ptr drv g thr max_num max_deq s =
     (if sl_num (os_local (io_st s)) \<noteq> 0
      then let (out, st) = copy_events max_num (io_st s) in Some (out, sl_qe (os_local st), s\<lparr>io_st := st\<rparr>)
      else do {
        st \<leftarrow> odp_schedule_release_context io (io_st s);
        let s = s\<lparr>io_st := st\<rparr>;
        if sl_pause (os_local st) then Some ([], None, s)
        else schedule_prios io ptr drv g thr max_num max_deq [0..<ODP_CONFIG_SCHED_PRIOS] s
      })"

text \<open>
  The loop around \<open>schedule\<close>, which is the argument \<open>sched\<close>. The other threads change the state before
  the \<open>k\<close>-th round as \<open>env k\<close> says; \<open>until\<close> is the end of the waiting time once it has been
  computed. The clock shows \<open>now k\<close> in round \<open>k\<close>.
\<close>

partial_function (option) schedule_loop ::
  "(io_state \<Rightarrow> (u32 list \<times> nat option \<times> io_state) option) \<Rightarrow> (nat \<Rightarrow> io_state \<Rightarrow> io_state) \<Rightarrow> u64 \<Rightarrow>
   (nat \<Rightarrow> odp_time_t) \<Rightarrow> u64 \<Rightarrow> odp_time_t option \<Rightarrow> nat \<Rightarrow> io_state \<Rightarrow> (u32 list \<times> nat option \<times> io_state) option" where
  "schedule_loop sched env freq now wait until k s =
     Option.bind (sched (env k s)) (\<lambda>(out, q, s).
       if out \<noteq> [] then Some (out, q, s)
       else if wait = ODP_SCHED_WAIT then schedule_loop sched env freq now wait until (Suc k) s
       else if wait = ODP_SCHED_NO_WAIT then Some (out, q, s)
       else case until of
              None \<Rightarrow> schedule_loop sched env freq now wait
                        (Some (time_sum (now k) (time_local_from_ns freq wait))) (Suc k) s
            | Some t \<Rightarrow>
                if time_cmp t (now k) < 0 then Some (out, q, s)
                else schedule_loop sched env freq now wait until (Suc k) s)"

text \<open>The event, or the null pointer.\<close>

definition odp_schedule where
  "odp_schedule io ptr drv g thr env freq now wait s =
     map_option (\<lambda>(out, q, s). (case out of [] \<Rightarrow> 0 | ev # _ \<Rightarrow> ev, q, s))
       (schedule_loop (schedule io ptr drv g thr 1 MAX_DEQ) env freq now wait None 0 s)"

definition odp_schedule_multi where
  "odp_schedule_multi io ptr drv g thr env freq now wait num s =
     schedule_loop (schedule io ptr drv g thr num MAX_DEQ) env freq now wait None 0 s"

definition odp_schedule_pause :: "odp_state \<Rightarrow> odp_state" where
  "odp_schedule_pause st = upd_local (\<lambda>l. l\<lparr>sl_pause := True\<rparr>) st"
definition odp_schedule_resume :: "odp_state \<Rightarrow> odp_state" where
  "odp_schedule_resume st = upd_local (\<lambda>l. l\<lparr>sl_pause := False\<rparr>) st"
definition odp_schedule_wait_time :: "u64 \<Rightarrow> u64" where "odp_schedule_wait_time ns = ns"
definition odp_schedule_num_prio :: int where "odp_schedule_num_prio = int ODP_CONFIG_SCHED_PRIOS"

section \<open>Definitions: shut-down and ordered locks\<close>

text \<open>The commands left in a priority queue.\<close>

partial_function (option) drain_pri_queue :: "nat \<Rightarrow> odp_state \<Rightarrow> odp_state option" where
  "drain_pri_queue pri_q st =
     Option.bind (odp_queue_deq st pri_q) (\<lambda>(ev, st).
       if ev = 0 then Some st
       else Option.bind
         (case os_cmd st ev of
            Cmd_dequeue q \<Rightarrow>
              (let (bufs, st) = queue_deq_multi st q 1
               in if bufs = None then queue_destroy_finalize st q else Some st)
          | _ \<Rightarrow> map_option (\<lambda>pools. st\<lparr>os_pools := pools\<rparr>) (odp_buffer_free (os_pools st) ev))
         (\<lambda>st. drain_pri_queue pri_q st))"

fun term_pri_queues :: "nat list \<Rightarrow> odp_state \<Rightarrow> (int \<times> odp_state) option" where
  "term_pri_queues [] st = Some (0, st)"
| "term_pri_queues (pri_q # qs) st =
     do {
       st \<leftarrow> drain_pri_queue pri_q st;
       (r, st) \<leftarrow> odp_queue_destroy st pri_q;
       (rc, st) \<leftarrow> term_pri_queues qs st;
       Some (if r \<noteq> 0 then - 1 else rc, st)
     }"

text \<open>\<open>odp_schedule_term_global\<close> up to the release of the shared memory of the scheduler.\<close>

definition schedule_term_queues :: "odp_state \<Rightarrow> (int \<times> odp_state) option" where
  "schedule_term_queues st =
     do {
       (rc, st) \<leftarrow> term_pri_queues (sc_pri_queue (os_sched st)) st;
       (r, pools) \<leftarrow> odp_pool_destroy (os_pools st) (Some (sc_pool (os_sched st)));
       Some (if r \<noteq> 0 then - 1 else rc, st\<lparr>os_pools := pools\<rparr>)
     }"

definition get_sched_sync :: "nat \<Rightarrow> odp_state \<Rightarrow> nat option \<times> u64" where
  "get_sched_sync ndx st = (sl_origin_qe (os_local st), sl_sync (os_local st) ! ndx)"

text \<open>The \<open>k\<close>-th value of the released counter that the waiting loop reads is \<open>out k\<close>.\<close>

partial_function (option) order_lock_wait :: "u64 \<Rightarrow> (nat \<Rightarrow> u64) \<Rightarrow> nat \<Rightarrow> nat option" where
  "order_lock_wait sync out k = (if sync > out k then order_lock_wait sync out (Suc k) else Some k)"

definition odp_schedule_order_lock :: "nat \<Rightarrow> (nat \<Rightarrow> u64) \<Rightarrow> odp_state \<Rightarrow> nat option" where
  "odp_schedule_order_lock lock_index out st =
     (let (origin, sync) = get_sched_sync lock_index st in
      case origin of
        None \<Rightarrow> Some 0
      | Some q \<Rightarrow> if lock_index \<ge> sp_lock_count (qe_param (qe st q)) then Some 0 else order_lock_wait sync out 0)"

definition odp_schedule_order_unlock :: "nat \<Rightarrow> odp_state \<Rightarrow> odp_state" where
  "odp_schedule_order_unlock lock_index st =
     (let (origin, sync) = get_sched_sync lock_index st in
      case origin of
        None \<Rightarrow> st
      | Some q \<Rightarrow>
          if lock_index \<ge> sp_lock_count (qe_param (qe st q)) then st
          else upd_qe q (\<lambda>e. e\<lparr>qe_sync_out := (qe_sync_out e)[lock_index := qe_sync_out e ! lock_index + 1]\<rparr>) st)"

section \<open>Definitions: threads and the scheduler\<close>

text \<open>
  The position of a thread between two locked sections: outside; it has marked a queue as scheduled
  and will put its command into the priority queue; it has taken a command from a priority queue;
  it will put the command back. The locals are those of the source: the priority queue and the command
  event. Beside it, the atomic context (\<open>sl_pri_queue\<close> and \<open>sl_cmd_ev\<close>) of each thread and the
  events in the hands of the threads. The queues are parallel or atomic.
\<close>

datatype sch_act = Sa_idle | Sa_pend nat | Sa_got nat u32 | Sa_back nat u32

record sch_sys =
  ss_st :: odp_state
  ss_own :: "u32 set"
  ss_act :: "nat \<Rightarrow> sch_act"
  ss_held :: "nat \<Rightarrow> (nat \<times> u32) option"

inductive sch_step :: "sch_sys \<Rightarrow> sch_sys \<Rightarrow> bool" where
  enqueue: "ss_act s t = Sa_idle \<Longrightarrow> b \<in> ss_own s \<Longrightarrow> q < length (os_queue (ss_st s)) \<Longrightarrow>
    qe_type (qe (ss_st s) q) = ODP_QUEUE_TYPE_SCHED \<Longrightarrow> QUEUE_STATUS_READY \<le> qe_status (qe (ss_st s) q) \<Longrightarrow>
    queue_enq_update (ss_st s) q b b (qe_status (qe (ss_st s) q)) = (sched, st) \<Longrightarrow>
    sch_step s (s\<lparr>ss_st := st, ss_own := ss_own s - {b},
                 ss_act := (ss_act s)(t := if sched then Sa_pend q else Sa_idle)\<rparr>)"
| publish: "ss_act s t = Sa_pend q \<Longrightarrow> qe_pri_queue (qe (ss_st s) q) = Some p \<Longrightarrow>
    queue_enq_update (ss_st s) p (qe_cmd_ev (qe (ss_st s) q)) (qe_cmd_ev (qe (ss_st s) q)) (qe_status (qe (ss_st s) p)) = (sched, st) \<Longrightarrow>
    sch_step s (s\<lparr>ss_st := st, ss_act := (ss_act s)(t := Sa_idle)\<rparr>)"
| take_cmd: "ss_act s t = Sa_idle \<Longrightarrow> ss_held s t = None \<Longrightarrow> p \<in> set (sc_pri_queue (os_sched (ss_st s))) \<Longrightarrow>
    queue_deq (ss_st s) p = (ev, st) \<Longrightarrow>
    sch_step s (s\<lparr>ss_st := st, ss_act := (ss_act s)(t := if ev = 0 then Sa_idle else Sa_got p ev)\<rparr>)"
| skip: "ss_act s t = Sa_got p ev \<Longrightarrow> sch_step s (s\<lparr>ss_act := (ss_act s)(t := Sa_back p ev)\<rparr>)"
| serve_empty: "ss_act s t = Sa_got p ev \<Longrightarrow> os_cmd (ss_st s) ev = Cmd_dequeue q \<Longrightarrow>
    queue_deq_multi (ss_st s) q n = (Some [], st) \<Longrightarrow> 0 < n \<Longrightarrow>
    sch_step s (s\<lparr>ss_st := st, ss_act := (ss_act s)(t := Sa_idle)\<rparr>)"
| serve: "ss_act s t = Sa_got p ev \<Longrightarrow> os_cmd (ss_st s) ev = Cmd_dequeue q \<Longrightarrow>
    queue_deq_multi (ss_st s) q n = (Some bs, st) \<Longrightarrow> 0 < n \<Longrightarrow> bs \<noteq> [] \<Longrightarrow>
    sch_step s (if queue_is_atomic (qe (ss_st s) q)
      then s\<lparr>ss_st := st, ss_own := ss_own s \<union> set bs, ss_act := (ss_act s)(t := Sa_idle),
             ss_held := (ss_held s)(t := Some (p, ev))\<rparr>
      else s\<lparr>ss_st := st, ss_own := ss_own s \<union> set bs, ss_act := (ss_act s)(t := Sa_back p ev)\<rparr>)"
| put_back: "ss_act s t = Sa_back p ev \<Longrightarrow> queue_enq_update (ss_st s) p ev ev (qe_status (qe (ss_st s) p)) = (sched, st) \<Longrightarrow>
    sch_step s (s\<lparr>ss_st := st, ss_act := (ss_act s)(t := Sa_idle)\<rparr>)"
| release: "ss_act s t = Sa_idle \<Longrightarrow> ss_held s t = Some (p, ev) \<Longrightarrow>
    queue_enq_update (ss_st s) p ev ev (qe_status (qe (ss_st s) p)) = (sched, st) \<Longrightarrow>
    sch_step s (s\<lparr>ss_st := st, ss_held := (ss_held s)(t := None)\<rparr>)"

section \<open>All queues as lists\<close>

text \<open>What no step changes: everything but the events of the queues and the status of scheduled queues.\<close>

definition same_config :: "odp_state \<Rightarrow> odp_state \<Rightarrow> bool" where
  "same_config st st' \<longleftrightarrow> length (os_queue st') = length (os_queue st) \<and> os_sched st' = os_sched st \<and>
     os_cmd st' = os_cmd st \<and>
     (\<forall>p < length (os_queue st). qe_type (qe st' p) = qe_type (qe st p) \<and> qe_param (qe st' p) = qe_param (qe st p) \<and>
        qe_cmd_ev (qe st' p) = qe_cmd_ev (qe st p) \<and> qe_pri_queue (qe st' p) = qe_pri_queue (qe st p))"

definition queues_rep :: "odp_state \<Rightarrow> (nat \<Rightarrow> u32 list) \<Rightarrow> bool" where
  "queues_rep st E \<longleftrightarrow> (\<forall>q < length (os_queue st). queue_rep st q (E q)) \<and>
     (\<forall>p q. p < length (os_queue st) \<longrightarrow> q < length (os_queue st) \<longrightarrow> p \<noteq> q \<longrightarrow> set (E p) \<inter> set (E q) = {})"

lemma queue_rep_frame:
  assumes "queue_rep st p evs" "qe st' p = qe st p" "length (os_queue st') = length (os_queue st)"
    "\<And>a. a \<in> set evs \<Longrightarrow> hdr st' a = hdr st a"
  shows "queue_rep st' p evs"
proof -
  have "chain (nexts st') h evs None = chain (nexts st) h evs None" for h
    using assms(4) by (intro chain_cong) (simp add: nexts_def)
  then show ?thesis using assms(1-3) by (simp add: queue_rep_def)
qed

lemma enq_update_clear:
  "queue_enq_update (upd_buf b (\<lambda>h. h\<lparr>bh_next := 0\<rparr>) st) q b b status = queue_enq_update st q b b status"
proof -
  have "upd_buf b f (upd_buf b g st) = upd_buf b (f \<circ> g) st" for f g :: "odp_packet_hdr_t \<Rightarrow> odp_packet_hdr_t"
    by (simp add: upd_buf_def upd_hdr_def comp_def)
  then show ?thesis by (simp add: queue_enq_update_def comp_def)
qed

lemma queues_rep_enq:
  assumes rep: "queues_rep st E" and q: "q < length (os_queue st)" and b: "b \<noteq> 0"
    and fresh: "\<And>p. p < length (os_queue st) \<Longrightarrow> b \<notin> set (E p)"
    and res: "queue_enq_update st q b b (qe_status (qe st q)) = (sched, st')"
  shows "queues_rep st' (E(q := E q @ [b]))" "same_config st st'"
    "sched = (qe_status (qe st q) = QUEUE_STATUS_NOTSCHED)"
    "\<And>p. p < length (os_queue st) \<Longrightarrow> qe_status (qe st' p) = (if p = q \<and> sched then QUEUE_STATUS_SCHED else qe_status (qe st p))"
proof -
  let ?st = "upd_buf b (\<lambda>h. h\<lparr>bh_next := 0\<rparr>) st"
  have rq: "queue_rep st q (E q)" using rep q by (simp add: queues_rep_def)
  have r0: "queue_rep ?st q (E q)"
    by (rule queue_rep_frame [OF rq]) (use fresh [OF q] in auto)
  have res0: "queue_enq_update ?st q b b (qe_status (qe st q)) = (sched, st')" using res by (simp add: enq_update_clear)
  have ch: "chain (nexts ?st) (Some b) [b] None" by (simp add: ptr_opt_def)
  note U = queue_enq_update_rep [OF r0 _ _ _ _ ch _ res0, simplified]
  have U1: "queue_rep st' q (E q @ [b])" and U3: "qe_status (qe st' q) = (if sched then QUEUE_STATUS_SCHED else qe_status (qe st q))"
    and U5: "\<And>a. a \<notin> insert b (set (E q)) \<Longrightarrow> hdr st' a = hdr ?st a"
    using U(1,3,5) b fresh [OF q] by auto
  show s: "sched = (qe_status (qe st q) = QUEUE_STATUS_NOTSCHED)" using U(2) b fresh [OF q] by simp
  note F = queue_enq_update_frame [OF res q]
  have other: "queue_rep st' p (E p)" if p: "p < length (os_queue st)" "p \<noteq> q" for p
  proof (rule queue_rep_frame)
    show "queue_rep st p (E p)" using rep p(1) by (simp add: queues_rep_def)
    show "qe st' p = qe st p" "length (os_queue st') = length (os_queue st)" using F(4,5) p by auto
    show "hdr st' a = hdr st a" if a: "a \<in> set (E p)" for a
    proof -
      have "a \<noteq> b" "a \<notin> set (E q)" using a fresh [OF p(1)] rep p q by (auto simp: queues_rep_def)
      then show ?thesis using U5 [of a] by simp
    qed
  qed
  show "queues_rep st' (E(q := E q @ [b]))"
    using U1 other F(4) rep fresh by (auto simp: queues_rep_def)
  have "qe_type (qe st' q) = qe_type (qe st q)" "qe_param (qe st' q) = qe_param (qe st q)"
    "qe_cmd_ev (qe st' q) = qe_cmd_ev (qe st q)" "qe_pri_queue (qe st' q) = qe_pri_queue (qe st q)"
    using arg_cong [OF F(6), of qe_type] arg_cong [OF F(6), of qe_param] arg_cong [OF F(6), of qe_cmd_ev]
      arg_cong [OF F(6), of qe_pri_queue] by simp_all
  then show "same_config st st'" unfolding same_config_def using F(2,3,4,5) by metis
  show "qe_status (qe st' p) = (if p = q \<and> sched then QUEUE_STATUS_SCHED else qe_status (qe st p))"
    if "p < length (os_queue st)" for p using U3 F(5) that by (cases "p = q") auto
qed

lemma assign_order_unordered_frame:
  assumes "\<not> queue_is_ordered (qe st q)"
  shows "os_queue (queue_assign_order q b st) = os_queue st" "os_sched (queue_assign_order q b st) = os_sched st"
    "os_cmd (queue_assign_order q b st) = os_cmd st"
  using assms by (simp_all add: assign_order_unordered)

lemma deq_loop_unordered:
  assumes "\<not> queue_is_ordered (qe st q)" "deq_loop q n b st = (bs, b', st')"
  shows "os_queue st' = os_queue st \<and> os_sched st' = os_sched st \<and> os_cmd st' = os_cmd st"
  using assms
proof (induction n arbitrary: b st bs b' st')
  case (Suc n)
  let ?st = "queue_assign_order q b (upd_buf b (\<lambda>h. h\<lparr>bh_next := 0\<rparr>) st)"
  have o: "\<not> queue_is_ordered (qe (upd_buf b (\<lambda>h. h\<lparr>bh_next := 0\<rparr>) st) q)" using Suc.prems(1) by simp
  show ?case
  proof (cases "b = 0")
    case False
    then obtain bs1 where l: "deq_loop q n (bh_next (hdr st b)) ?st = (bs1, b', st')"
      using Suc.prems(2) by (auto simp: Let_def split: prod.splits)
    have o2: "\<not> queue_is_ordered (qe ?st q)" using o by (simp add: assign_order_unordered_frame)
    show ?thesis using Suc.IH [OF o2 l] assign_order_unordered_frame [OF o, of b] by simp
  qed (use Suc.prems(2) in simp)
qed simp

lemma queue_rep_others:
  assumes rep: "queues_rep st E" and q: "q < length (os_queue st)" and set: "set bs \<subseteq> set (E q)"
    and rest: "queue_rep st' q (E' q)" "set (E' q) \<subseteq> set (E q)" "\<And>p. p \<noteq> q \<Longrightarrow> E' p = E p"
    and fr: "length (os_queue st') = length (os_queue st)" "\<And>p. p < length (os_queue st) \<Longrightarrow> p \<noteq> q \<Longrightarrow> qe st' p = qe st p"
      "\<And>a. a \<notin> set bs \<Longrightarrow> hdr st' a = hdr st a"
  shows "queues_rep st' E'"
proof -
  have dis: "set (E p) \<inter> set (E q') = {}" if "p < length (os_queue st)" "q' < length (os_queue st)" "p \<noteq> q'" for p q'
    using rep that by (simp add: queues_rep_def)
  have "queue_rep st' p (E' p)" if p: "p < length (os_queue st)" for p
  proof (cases "p = q")
    case False
    have "queue_rep st p (E p)" using rep p by (simp add: queues_rep_def)
    then show ?thesis unfolding rest(3) [OF False]
      by (rule queue_rep_frame) (use fr p False dis [OF p q False] set in auto)
  qed (use rest in simp)
  moreover have "set (E' p) \<inter> set (E' q') = {}" if "p < length (os_queue st)" "q' < length (os_queue st)" "p \<noteq> q'" for p q'
    using dis [OF that] rest(2,3) by (cases "p = q"; cases "q' = q") auto
  ultimately show ?thesis unfolding queues_rep_def fr(1) by blast
qed

lemma queues_rep_deq_multi:
  assumes rep: "queues_rep st E" and q: "q < length (os_queue st)" "\<not> queue_is_ordered (qe st q)"
      "QUEUE_STATUS_READY \<le> qe_status (qe st q)" and res: "queue_deq_multi st q n = (r, st')"
  shows "r = Some (take n (E q))" "queues_rep st' (E(q := drop n (E q)))" "same_config st st'"
    "\<And>p. p < length (os_queue st) \<Longrightarrow> qe_status (qe st' p) =
      (if p = q \<and> E q = [] \<and> qe_status (qe st q) = QUEUE_STATUS_SCHED then QUEUE_STATUS_NOTSCHED else qe_status (qe st p))"
proof -
  have rq: "queue_rep st q (E q)" using rep q(1) by (simp add: queues_rep_def)
  note D = queue_deq_multi_rep [OF rq q(3) res]
  show "r = Some (take n (E q))" using D by simp
  obtain bs b st1 where dl: "deq_loop q n (qe_head (qe st q)) st = (bs, b, st1)" by (metis prod_cases3)
  have st': "\<exists>f. (\<forall>e. qe_cmd_ev (f e) = qe_cmd_ev e \<and> qe_pri_queue (f e) = qe_pri_queue e) \<and> (st' = upd_qe q f st \<or> st' = upd_qe q f st1)"
  proof -
    have "upd_qe q f (upd_qe q g x) = upd_qe q (f \<circ> g) x" if "q < length (os_queue x)" for f g x
      using that by (simp add: upd_qe_def comp_def)
    moreover have "q < length (os_queue st1)" using deq_loop_unordered [OF q(2) dl] q(1) by simp
    moreover have "st = upd_qe q (\<lambda>e. e) st" by (simp add: upd_qe_def)
    ultimately show ?thesis
      using res q(3) dl
      by (auto simp: queue_deq_multi_def Let_def not_less comp_def split: if_splits
          intro: exI [of _ "\<lambda>e. e\<lparr>qe_status := QUEUE_STATUS_NOTSCHED\<rparr>"] exI [of _ "\<lambda>e. e\<lparr>qe_head := b\<rparr>"]
            exI [of _ "\<lambda>e. e\<lparr>qe_head := b, qe_tail := Tail_head\<rparr>"])
  qed
  then obtain f where f: "\<And>e. qe_cmd_ev (f e) = qe_cmd_ev e" "\<And>e. qe_pri_queue (f e) = qe_pri_queue e"
    "st' = upd_qe q f st \<or> st' = upd_qe q f st1" by blast
  have base: "os_queue st' = (os_queue st)[q := f (qe st q)]" "os_sched st' = os_sched st" "os_cmd st' = os_cmd st"
    using f(3) deq_loop_unordered [OF q(2) dl] by (auto simp: upd_qe_def)
  then have fr: "length (os_queue st') = length (os_queue st)" "\<And>p. p \<noteq> q \<Longrightarrow> qe st' p = qe st p" "qe st' q = f (qe st q)"
    using q(1) by simp_all
  show "queues_rep st' (E(q := drop n (E q)))"
    by (rule queue_rep_others [OF rep q(1), of "take n (E q)"]) (use D fr in \<open>auto dest: in_set_takeD in_set_dropD\<close>)
  show "same_config st st'" unfolding same_config_def
  proof (intro conjI allI impI fr(1) base(2,3))
    fix p assume "p < length (os_queue st)"
    show "qe_type (qe st' p) = qe_type (qe st p)" "qe_param (qe st' p) = qe_param (qe st p)"
      "qe_cmd_ev (qe st' p) = qe_cmd_ev (qe st p)" "qe_pri_queue (qe st' p) = qe_pri_queue (qe st p)"
      using D fr f by (cases "p = q"; simp)+
  qed
  show "qe_status (qe st' p) = (if p = q \<and> E q = [] \<and> qe_status (qe st q) = QUEUE_STATUS_SCHED
      then QUEUE_STATUS_NOTSCHED else qe_status (qe st p))" if "p < length (os_queue st)" for p
    using D fr(2) by (cases "p = q") auto
qed

lemma queues_rep_deq:
  assumes rep: "queues_rep st E" and q: "q < length (os_queue st)" "\<not> queue_is_ordered (qe st q)"
    and res: "queue_deq st q = (ev, st')"
  shows "ev = (if E q = [] then 0 else hd (E q))" "queues_rep st' (E(q := tl (E q)))" "same_config st st'"
    "\<And>p. p < length (os_queue st) \<Longrightarrow> qe_status (qe st' p) = qe_status (qe st p)"
proof -
  have rq: "queue_rep st q (E q)" using rep q(1) by (simp add: queues_rep_def)
  have "ev = (if E q = [] then 0 else hd (E q)) \<and> queues_rep st' (E(q := tl (E q))) \<and> same_config st st' \<and>
    (\<forall>p < length (os_queue st). qe_status (qe st' p) = qe_status (qe st p))"
  proof (cases "E q")
    case Nil
    then have "qe_head (qe st q) = 0" using rq by (simp add: queue_rep_def ptr_opt_eq)
    then have "ev = 0" "st' = st" using res by (auto simp: queue_deq_def)
    moreover have "E(q := []) = E" using Nil by (simp add: fun_upd_idem)
    ultimately show ?thesis using Nil rep by (simp add: same_config_def)
  next
    case (Cons e es)
    then have h: "qe_head (qe st q) = e" "e \<noteq> 0" and ch: "chain (nexts st) (nexts st e) es None" and z: "0 \<notin> set es"
      using rq by (auto simp: queue_rep_def ptr_opt_eq)
    have ne: "e \<notin> set es" using queue_rep_distinct [OF rq] Cons by simp
    define nx where "nx = bh_next (hdr st e)"
    define st1 where "st1 = upd_buf e (\<lambda>h. h\<lparr>bh_origin_qe := None\<rparr>) st"
    have r: "ev = e" "st' = upd_buf e (\<lambda>h. h\<lparr>bh_next := 0\<rparr>)
        (if nx = 0 then upd_qe q (\<lambda>e. e\<lparr>qe_tail := Tail_head\<rparr>) (upd_qe q (\<lambda>e. e\<lparr>qe_head := nx\<rparr>) st1)
         else upd_qe q (\<lambda>e. e\<lparr>qe_head := nx\<rparr>) st1)"
      using res h q(2) by (auto simp: queue_deq_def Let_def assign_order_unordered st1_def nx_def)
    have nx0: "nx = 0 \<longleftrightarrow> es = []" using ch z by (cases es) (auto simp: nexts_def nx_def ptr_opt_eq)
    have fr: "length (os_queue st') = length (os_queue st)" "os_sched st' = os_sched st" "os_cmd st' = os_cmd st"
      "\<And>p. p < length (os_queue st) \<Longrightarrow> p \<noteq> q \<Longrightarrow> qe st' p = qe st p"
      "\<And>a. a \<noteq> e \<Longrightarrow> hdr st' a = hdr st a"
      "qe st' q = (if nx = 0 then (qe st q)\<lparr>qe_head := nx, qe_tail := Tail_head\<rparr> else (qe st q)\<lparr>qe_head := nx\<rparr>)"
      using q(1) unfolding r(2) st1_def by auto
    have "chain (nexts st') (ptr_opt nx) es None = chain (nexts st) (ptr_opt nx) es None"
      by (rule chain_cong) (metis fr(5) ne nexts_def)
    then have "queue_rep st' q es"
      using ch z q(1) fr(1,6) nx0 rq Cons by (auto simp: queue_rep_def nexts_def nx_def split: if_splits)
    then have "queues_rep st' (E(q := tl (E q)))"
      by (intro queue_rep_others [OF rep q(1), of "[e]"]) (use fr Cons in auto)
    moreover have "same_config st st'" unfolding same_config_def
    proof (intro conjI allI impI fr(1,2,3))
      fix p assume "p < length (os_queue st)"
      then show "qe_type (qe st' p) = qe_type (qe st p)" "qe_param (qe st' p) = qe_param (qe st p)"
        "qe_cmd_ev (qe st' p) = qe_cmd_ev (qe st p)" "qe_pri_queue (qe st' p) = qe_pri_queue (qe st p)"
        using fr(4,6) by (cases "p = q"; simp)+
    qed
    moreover have "qe_status (qe st' p) = qe_status (qe st p)" if "p < length (os_queue st)" for p
      using fr(4,6) that by (cases "p = q") auto
    ultimately show ?thesis using r(1) Cons by simp
  qed
  then show "ev = (if E q = [] then 0 else hd (E q))" "queues_rep st' (E(q := tl (E q)))" "same_config st st'"
    "\<And>p. p < length (os_queue st) \<Longrightarrow> qe_status (qe st' p) = qe_status (qe st p)" by blast+
qed

section \<open>The command of a scheduled queue is a token\<close>

definition scheduled :: "odp_state \<Rightarrow> nat \<Rightarrow> bool" where
  "scheduled st q \<longleftrightarrow> q < length (os_queue st) \<and>
     (qe_status (qe st q) = QUEUE_STATUS_NOTSCHED \<or> qe_status (qe st q) = QUEUE_STATUS_SCHED)"

abbreviation cmd_of :: "odp_state \<Rightarrow> nat \<Rightarrow> u32" where "cmd_of st q \<equiv> qe_cmd_ev (qe st q)"
abbreviation pri_of :: "odp_state \<Rightarrow> nat \<Rightarrow> nat" where "pri_of st q \<equiv> the (qe_pri_queue (qe st q))"
abbreviation pri_queues :: "odp_state \<Rightarrow> nat set" where "pri_queues st \<equiv> set (sc_pri_queue (os_sched st))"

definition sched_config :: "odp_state \<Rightarrow> bool" where
  "sched_config st \<longleftrightarrow>
     (\<forall>q < length (os_queue st). \<not> queue_is_ordered (qe st q) \<and>
        (qe_type (qe st q) = ODP_QUEUE_TYPE_SCHED \<longrightarrow> QUEUE_STATUS_READY \<le> qe_status (qe st q) \<longrightarrow> scheduled st q)) \<and>
     (\<forall>q. scheduled st q \<longrightarrow> cmd_of st q \<noteq> 0 \<and> os_cmd st (cmd_of st q) = Cmd_dequeue q \<and>
        (\<exists>p \<in> pri_queues st. qe_pri_queue (qe st q) = Some p)) \<and>
     (\<forall>p \<in> pri_queues st. p < length (os_queue st) \<and> qe_status (qe st p) = QUEUE_STATUS_READY)"

lemma same_config_simps:
  assumes "same_config st st'"
  shows "length (os_queue st') = length (os_queue st)" "pri_queues st' = pri_queues st" "os_cmd st' = os_cmd st"
    "p < length (os_queue st) \<Longrightarrow> cmd_of st' p = cmd_of st p"
    "p < length (os_queue st) \<Longrightarrow> qe_pri_queue (qe st' p) = qe_pri_queue (qe st p)"
    "p < length (os_queue st) \<Longrightarrow> qe_type (qe st' p) = qe_type (qe st p)"
    "p < length (os_queue st) \<Longrightarrow> queue_is_ordered (qe st' p) = queue_is_ordered (qe st p)"
    "p < length (os_queue st) \<Longrightarrow> queue_is_atomic (qe st' p) = queue_is_atomic (qe st p)"
  using assms by (auto simp: same_config_def queue_is_ordered_def queue_is_atomic_def)

text \<open>A step may turn one scheduled queue from one of the two states to the other.\<close>

lemma scheduled_step:
  assumes "same_config st st'"
    and "\<And>p. p < length (os_queue st) \<Longrightarrow> qe_status (qe st' p) \<noteq> qe_status (qe st p) \<Longrightarrow> scheduled st p \<and> scheduled st' p"
  shows "scheduled st' q = scheduled st q"
proof (cases "q < length (os_queue st) \<and> qe_status (qe st' q) \<noteq> qe_status (qe st q)")
  case False
  then show ?thesis using same_config_simps(1) [OF assms(1)] by (auto simp: scheduled_def)
qed (use assms(2) in blast)

lemma scheduled_not_ready: "scheduled st q \<Longrightarrow> qe_status (qe st q) \<noteq> QUEUE_STATUS_READY"
  by (auto simp: scheduled_def queue_consts)

lemma sched_config_step:
  assumes c: "same_config st st'" and cfg: "sched_config st"
    and ch: "\<And>p. p < length (os_queue st) \<Longrightarrow> qe_status (qe st' p) \<noteq> qe_status (qe st p) \<Longrightarrow> scheduled st p \<and> scheduled st' p"
  shows "sched_config st'"
proof -
  note [simp] = same_config_simps [OF c]
  have sc: "scheduled st' q = scheduled st q" for q by (rule scheduled_step [OF c]) (rule ch)
  have lt: "scheduled st q \<Longrightarrow> q < length (os_queue st)" for q by (simp add: scheduled_def)
  have st: "qe_status (qe st' q) = qe_status (qe st q) \<or> scheduled st q" if "q < length (os_queue st)" for q
    using ch that by blast
  have cq: "\<not> queue_is_ordered (qe st q)"
    "qe_type (qe st q) = ODP_QUEUE_TYPE_SCHED \<Longrightarrow> QUEUE_STATUS_READY \<le> qe_status (qe st q) \<Longrightarrow> scheduled st q"
    if "q < length (os_queue st)" for q
    using cfg that by (simp_all add: sched_config_def)
  have cp: "p < length (os_queue st)" "qe_status (qe st p) = QUEUE_STATUS_READY" if "p \<in> pri_queues st" for p
    using cfg that by (simp_all add: sched_config_def)
  have cs: "cmd_of st q \<noteq> 0 \<and> os_cmd st (cmd_of st q) = Cmd_dequeue q \<and> (\<exists>p \<in> pri_queues st. qe_pri_queue (qe st q) = Some p)"
    if "scheduled st q" for q
    using cfg that by (simp add: sched_config_def)
  have 1: "\<not> queue_is_ordered (qe st' q) \<and>
      (qe_type (qe st' q) = ODP_QUEUE_TYPE_SCHED \<longrightarrow> QUEUE_STATUS_READY \<le> qe_status (qe st' q) \<longrightarrow> scheduled st' q)"
    if "q < length (os_queue st)" for q
    using cq [OF that] st [OF that] that unfolding sc by auto
  have 2: "cmd_of st' q \<noteq> 0 \<and> os_cmd st (cmd_of st' q) = Cmd_dequeue q \<and> (\<exists>p \<in> pri_queues st. qe_pri_queue (qe st' q) = Some p)"
    if "scheduled st q" for q
    using cs [OF that] lt [OF that] by simp
  have 3: "qe_status (qe st' p) = QUEUE_STATUS_READY" if "p \<in> pri_queues st" for p
    using st [OF cp(1) [OF that]] cp [OF that] scheduled_not_ready [of st p] by auto
  show ?thesis unfolding sched_config_def same_config_simps(1,2,3) [OF c]
    using 1 2 3 cp(1) sc by blast
qed

datatype token_place = In_pri | In_act nat | In_held nat

fun token :: "u32 \<Rightarrow> nat \<Rightarrow> nat \<Rightarrow> (nat \<Rightarrow> u32 list) \<Rightarrow> (nat \<Rightarrow> sch_act) \<Rightarrow> (nat \<Rightarrow> (nat \<times> u32) option) \<Rightarrow> token_place \<Rightarrow> bool" where
  "token c p q E act held In_pri \<longleftrightarrow> c \<in> set (E p)"
| "token c p q E act held (In_act t) \<longleftrightarrow> act t = Sa_pend q \<or> act t = Sa_got p c \<or> act t = Sa_back p c"
| "token c p q E act held (In_held t) \<longleftrightarrow> held t = Some (p, c)"

definition tokens :: "odp_state \<Rightarrow> (nat \<Rightarrow> u32 list) \<Rightarrow> (nat \<Rightarrow> sch_act) \<Rightarrow> (nat \<Rightarrow> (nat \<times> u32) option) \<Rightarrow> nat \<Rightarrow> token_place set" where
  "tokens st E act held q = {pl. token (cmd_of st q) (pri_of st q) q E act held pl}"

text \<open>\<open>is_cmd st p ev\<close>: the event is the command of a scheduled queue with priority queue \<open>p\<close>.\<close>

definition is_cmd :: "odp_state \<Rightarrow> nat \<Rightarrow> u32 \<Rightarrow> bool" where
  "is_cmd st p ev \<longleftrightarrow> (\<exists>q. scheduled st q \<and> ev = cmd_of st q \<and> qe_pri_queue (qe st q) = Some p)"

fun act_ok :: "odp_state \<Rightarrow> sch_act \<Rightarrow> bool" where
  "act_ok st Sa_idle \<longleftrightarrow> True"
| "act_ok st (Sa_pend q) \<longleftrightarrow> scheduled st q"
| "act_ok st (Sa_got p ev) \<longleftrightarrow> is_cmd st p ev"
| "act_ok st (Sa_back p ev) \<longleftrightarrow> is_cmd st p ev"

definition places_ok :: "odp_state \<Rightarrow> u32 set \<Rightarrow> (nat \<Rightarrow> u32 list) \<Rightarrow> (nat \<Rightarrow> sch_act) \<Rightarrow> (nat \<Rightarrow> (nat \<times> u32) option) \<Rightarrow> bool" where
  "places_ok st own E act held \<longleftrightarrow> 0 \<notin> own \<and>
     (\<forall>q < length (os_queue st). own \<inter> set (E q) = {}) \<and>
     (\<forall>t. act_ok st (act t)) \<and> (\<forall>t p ev. held t = Some (p, ev) \<longrightarrow> is_cmd st p ev) \<and>
     (\<forall>p \<in> pri_queues st. \<forall>ev \<in> set (E p). is_cmd st p ev) \<and>
     (\<forall>q. scheduled st q \<longrightarrow> cmd_of st q \<notin> own \<and>
        (\<forall>p < length (os_queue st). p \<noteq> pri_of st q \<longrightarrow> cmd_of st q \<notin> set (E p)))"

definition token_ok :: "odp_state \<Rightarrow> (nat \<Rightarrow> u32 list) \<Rightarrow> (nat \<Rightarrow> sch_act) \<Rightarrow> (nat \<Rightarrow> (nat \<times> u32) option) \<Rightarrow> nat \<Rightarrow> bool" where
  "token_ok st E act held q \<longleftrightarrow>
     (if qe_status (qe st q) = QUEUE_STATUS_SCHED then \<exists>pl. tokens st E act held q = {pl}
      else tokens st E act held q = {} \<and> E q = [])"

definition sch_inv_on :: "(nat \<Rightarrow> u32 list) \<Rightarrow> sch_sys \<Rightarrow> bool" where
  "sch_inv_on E s \<longleftrightarrow> sched_config (ss_st s) \<and> queues_rep (ss_st s) E \<and>
     places_ok (ss_st s) (ss_own s) E (ss_act s) (ss_held s) \<and>
     (\<forall>q. scheduled (ss_st s) q \<longrightarrow> token_ok (ss_st s) E (ss_act s) (ss_held s) q)"

definition events_of :: "(nat \<Rightarrow> u32 list) \<Rightarrow> sch_sys \<Rightarrow> u32 set" where
  "events_of E s = ss_own s \<union> (\<Union>q \<in> {q. scheduled (ss_st s) q}. set (E q))"


lemma sch_invD:
  assumes "sch_inv_on E s"
  shows "sched_config (ss_st s)" "queues_rep (ss_st s) E" "places_ok (ss_st s) (ss_own s) E (ss_act s) (ss_held s)"
    "scheduled (ss_st s) q \<Longrightarrow> token_ok (ss_st s) E (ss_act s) (ss_held s) q"
  using assms by (simp_all add: sch_inv_on_def)

lemma sched_configD:
  assumes "sched_config st"
  shows "q < length (os_queue st) \<Longrightarrow> \<not> queue_is_ordered (qe st q)"
    "q < length (os_queue st) \<Longrightarrow> qe_type (qe st q) = ODP_QUEUE_TYPE_SCHED \<Longrightarrow> QUEUE_STATUS_READY \<le> qe_status (qe st q) \<Longrightarrow>
      scheduled st q"
    "scheduled st q \<Longrightarrow> cmd_of st q \<noteq> 0" "scheduled st q \<Longrightarrow> os_cmd st (cmd_of st q) = Cmd_dequeue q"
    "scheduled st q \<Longrightarrow> qe_pri_queue (qe st q) = Some (pri_of st q)" "scheduled st q \<Longrightarrow> pri_of st q \<in> pri_queues st"
    "p \<in> pri_queues st \<Longrightarrow> p < length (os_queue st)" "p \<in> pri_queues st \<Longrightarrow> qe_status (qe st p) = QUEUE_STATUS_READY"
    "p \<in> pri_queues st \<Longrightarrow> \<not> scheduled st p"
proof -
  show "p \<in> pri_queues st \<Longrightarrow> \<not> scheduled st p"
    using assms scheduled_not_ready [of st p] by (auto simp: sched_config_def)
qed (use assms in \<open>auto simp: sched_config_def\<close>)

text \<open>The commands of two queues differ, and a command determines its queue.\<close>

lemma cmd_inj:
  assumes "sched_config st" "scheduled st q" "scheduled st q'" "cmd_of st q = cmd_of st q'"
  shows "q = q'"
  using sched_configD(4) [OF assms(1,2)] sched_configD(4) [OF assms(1,3)] unfolding assms(4) by simp

lemma is_cmdD:
  assumes "sched_config st" "is_cmd st p ev" "os_cmd st ev = Cmd_dequeue q"
  shows "scheduled st q" "ev = cmd_of st q" "p = pri_of st q"
proof -
  obtain q' where q': "scheduled st q'" "ev = cmd_of st q'" "qe_pri_queue (qe st q') = Some p"
    using assms(2) by (auto simp: is_cmd_def)
  moreover have "q' = q" using sched_configD(4) [OF assms(1) q'(1)] q'(2) assms(3) by simp
  ultimately show "scheduled st q" "ev = cmd_of st q" "p = pri_of st q" by simp_all
qed

lemma is_cmd_obtain:
  assumes "sched_config st" "is_cmd st p ev"
  obtains q where "scheduled st q" "ev = cmd_of st q" "p = pri_of st q" "os_cmd st ev = Cmd_dequeue q"
proof -
  obtain q where q: "scheduled st q" "ev = cmd_of st q" "qe_pri_queue (qe st q) = Some p"
    using assms(2) by (auto simp: is_cmd_def)
  then show thesis using sched_configD(4) [OF assms(1) q(1)] by (intro that) simp_all
qed

lemma config_cong:
  assumes c: "same_config st st'" and sc: "\<And>q. scheduled st' q = scheduled st q"
  shows "is_cmd st' = is_cmd st" "act_ok st' a = act_ok st a"
    "places_ok st' own E act held = places_ok st own E act held"
    "scheduled st q \<Longrightarrow> tokens st' E act held q = tokens st E act held q"
proof -
  note k = same_config_simps [OF c]
  have lt: "scheduled st q \<Longrightarrow> q < length (os_queue st)" for q by (simp add: scheduled_def)
  show ic: "is_cmd st' = is_cmd st" unfolding is_cmd_def sc fun_eq_iff using k(4,5) lt by metis
  have ao: "act_ok st' a = act_ok st a" for a by (cases a) (simp_all add: ic sc)
  show "act_ok st' a = act_ok st a" by (rule ao)
  have "(\<forall>q. scheduled st q \<longrightarrow> cmd_of st' q \<notin> own \<and> (\<forall>p < length (os_queue st). p \<noteq> pri_of st' q \<longrightarrow> cmd_of st' q \<notin> set (E p))) \<longleftrightarrow>
    (\<forall>q. scheduled st q \<longrightarrow> cmd_of st q \<notin> own \<and> (\<forall>p < length (os_queue st). p \<noteq> pri_of st q \<longrightarrow> cmd_of st q \<notin> set (E p)))"
    using k(4,5) lt by metis
  then show "places_ok st' own E act held = places_ok st own E act held"
    unfolding places_ok_def k(1,2) ic ao sc by simp
  show "tokens st' E act held q = tokens st E act held q" if "scheduled st q"
    using k(4,5) lt [OF that] by (simp add: tokens_def)
qed

text \<open>A step of the system: the configuration is kept, and with it the invariant if the token of each
  queue is.\<close>

lemma sch_inv_onI:
  assumes inv: "sch_inv_on E s" and c: "same_config (ss_st s) st'" and rep: "queues_rep st' E'"
    and ch: "\<And>p. p < length (os_queue (ss_st s)) \<Longrightarrow> qe_status (qe st' p) \<noteq> qe_status (qe (ss_st s) p) \<Longrightarrow>
      scheduled (ss_st s) p \<and> scheduled st' p"
    and places: "places_ok (ss_st s) own' E' act' held'"
    and tok: "\<And>q. scheduled (ss_st s) q \<Longrightarrow>
      (if qe_status (qe st' q) = QUEUE_STATUS_SCHED then \<exists>pl. tokens (ss_st s) E' act' held' q = {pl}
       else tokens (ss_st s) E' act' held' q = {} \<and> E' q = [])"
  shows "sch_inv_on E' \<lparr>ss_st = st', ss_own = own', ss_act = act', ss_held = held'\<rparr>"
    "scheduled st' q = scheduled (ss_st s) q"
proof -
  have sc: "scheduled st' q = scheduled (ss_st s) q" for q by (rule scheduled_step [OF c]) (rule ch)
  note cc = config_cong [OF c sc]
  have cfg: "sched_config st'" by (rule sched_config_step [OF c sch_invD(1) [OF inv]]) (rule ch)
  have "token_ok st' E' act' held' q" if "scheduled st' q" for q
    using tok [of q] that unfolding token_ok_def sc by (simp add: cc(4))
  then show "sch_inv_on E' \<lparr>ss_st = st', ss_own = own', ss_act = act', ss_held = held'\<rparr>"
    unfolding sch_inv_on_def using cfg rep places by (simp add: cc(3))
  show "scheduled st' q = scheduled (ss_st s) q" by (rule sc)
qed

lemma tokens_cong:
  assumes "cmd_of st q \<in> set (E' (pri_of st q)) \<longleftrightarrow> cmd_of st q \<in> set (E (pri_of st q))"
    and "\<And>t. token (cmd_of st q) (pri_of st q) q E' act' held' (In_act t) = token (cmd_of st q) (pri_of st q) q E act held (In_act t)"
    and "\<And>t. held' t = Some (pri_of st q, cmd_of st q) \<longleftrightarrow> held t = Some (pri_of st q, cmd_of st q)"
  shows "tokens st E' act' held' q = tokens st E act held q"
proof -
  have "token (cmd_of st q) (pri_of st q) q E' act' held' pl = token (cmd_of st q) (pri_of st q) q E act held pl" for pl
    using assms by (cases pl) auto
  then show ?thesis by (simp add: tokens_def)
qed

lemma places_okD:
  assumes "places_ok st own E act held"
  shows "0 \<notin> own" "q < length (os_queue st) \<Longrightarrow> own \<inter> set (E q) = {}" "act_ok st (act t)"
    "held t = Some (p, ev) \<Longrightarrow> is_cmd st p ev" "p \<in> pri_queues st \<Longrightarrow> ev \<in> set (E p) \<Longrightarrow> is_cmd st p ev"
    "scheduled st q \<Longrightarrow> cmd_of st q \<notin> own"
    "scheduled st q \<Longrightarrow> p < length (os_queue st) \<Longrightarrow> p \<noteq> pri_of st q \<Longrightarrow> cmd_of st q \<notin> set (E p)"
  using assms unfolding places_ok_def by blast+

lemma places_okI:
  assumes "0 \<notin> own" "\<And>q. q < length (os_queue st) \<Longrightarrow> own \<inter> set (E q) = {}" "\<And>t. act_ok st (act t)"
    "\<And>t p ev. held t = Some (p, ev) \<Longrightarrow> is_cmd st p ev" "\<And>p ev. p \<in> pri_queues st \<Longrightarrow> ev \<in> set (E p) \<Longrightarrow> is_cmd st p ev"
    "\<And>q. scheduled st q \<Longrightarrow> cmd_of st q \<notin> own"
    "\<And>q p. scheduled st q \<Longrightarrow> p < length (os_queue st) \<Longrightarrow> p \<noteq> pri_of st q \<Longrightarrow> cmd_of st q \<notin> set (E p)"
  shows "places_ok st own E act held"
  unfolding places_ok_def using assms by blast

text \<open>A thread puts the command of a queue into its priority queue.\<close>

lemma put_cmd:
  assumes inv: "sch_inv_on E s" and q: "scheduled (ss_st s) q" "qe_status (qe (ss_st s) q) = QUEUE_STATUS_SCHED"
    and gone: "tokens (ss_st s) E act' held' q = {}"
    and other: "\<And>q'. scheduled (ss_st s) q' \<Longrightarrow> q' \<noteq> q \<Longrightarrow>
      tokens (ss_st s) E act' held' q' = tokens (ss_st s) E (ss_act s) (ss_held s) q'"
    and pl: "places_ok (ss_st s) (ss_own s) E act' held'"
    and p: "p = pri_of (ss_st s) q" and ev: "ev = cmd_of (ss_st s) q"
    and res: "queue_enq_update (ss_st s) p ev ev (qe_status (qe (ss_st s) p)) = (sched, st')"
  shows "sch_inv_on (E(p := E p @ [ev])) \<lparr>ss_st = st', ss_own = ss_own s, ss_act = act', ss_held = held'\<rparr>"
    "\<And>q'. scheduled st' q' = scheduled (ss_st s) q'" "\<And>q'. scheduled (ss_st s) q' \<Longrightarrow> (E(p := E p @ [ev])) q' = E q'"
proof -
  let ?st = "ss_st s" and ?E = "E(p := E p @ [ev])"
  note cfg = sched_configD [OF sch_invD(1) [OF inv]] and P = places_okD [OF pl]
  have pp: "p \<in> pri_queues ?st" "p < length (os_queue ?st)" using cfg(6,7) q(1) p by auto
  have np: "ev \<notin> set (E p)" using gone p ev by (auto simp: tokens_def dest: spec [of _ In_pri])
  have fresh: "ev \<notin> set (E p')" if "p' < length (os_queue ?st)" for p'
    using np P(7) [OF q(1) that] p ev by (cases "p' = p") auto
  note R = queues_rep_enq [OF sch_invD(2) [OF inv] pp(2) _ fresh res]
  have e0: "ev \<noteq> 0" using cfg(3) q(1) ev by simp
  have ns: "\<not> sched" using R(3) [OF e0] cfg(8) [OF pp(1)] by (simp add: queue_consts)
  have st: "qe_status (qe st' p') = qe_status (qe ?st p')" if "p' < length (os_queue ?st)" for p'
    using R(4) [OF e0 _ that] ns fresh by simp
  have Eq: "?E q' = E q'" if "scheduled ?st q'" for q' using cfg(9) [OF pp(1)] that by auto
  have ic: "is_cmd ?st p ev" using q(1) cfg(5) p ev by (auto simp: is_cmd_def)
  have ne: "cmd_of ?st q' \<noteq> ev" if "scheduled ?st q'" "q' \<noteq> q" for q'
    using cmd_inj [OF sch_invD(1) [OF inv] that(1) q(1)] that(2) ev by auto
  have pl': "places_ok ?st (ss_own s) ?E act' held'"
  proof (rule places_okI)
    show "ss_own s \<inter> set (?E p') = {}" if "p' < length (os_queue ?st)" for p'
      using P(2) [OF that] P(6) [OF q(1)] ev by auto
    show "is_cmd ?st p' ev'" if "p' \<in> pri_queues ?st" "ev' \<in> set (?E p')" for p' ev'
      using P(5) [OF that(1)] that(2) ic by (auto split: if_splits)
    show "cmd_of ?st q' \<notin> set (?E p')" if "scheduled ?st q'" "p' < length (os_queue ?st)" "p' \<noteq> pri_of ?st q'" for q' p'
      using P(7) [OF that] ne [OF that(1)] that(3) p by auto
  qed (use P(1,3,4,6) in blast)+
  have tok: "if qe_status (qe st' q') = QUEUE_STATUS_SCHED then \<exists>pl. tokens ?st ?E act' held' q' = {pl}
      else tokens ?st ?E act' held' q' = {} \<and> ?E q' = []" if q': "scheduled ?st q'" for q'
  proof (cases "q' = q")
    case True
    have g: "\<not> token (cmd_of ?st q) (pri_of ?st q) q E act' held' pl" for pl using gone by (auto simp: tokens_def)
    have "token (cmd_of ?st q) (pri_of ?st q) q ?E act' held' pl \<longleftrightarrow> pl = In_pri" for pl
      using g [of pl] p ev by (cases pl) auto
    then have "tokens ?st ?E act' held' q = {In_pri}" by (simp add: tokens_def)
    moreover have "q < length (os_queue ?st)" using q(1) by (simp add: scheduled_def)
    ultimately show ?thesis using True st q(2) by simp
  next
    case False
    have "tokens ?st ?E act' held' q' = tokens ?st E act' held' q'"
      by (rule tokens_cong) (use ne [OF q' False] in auto)
    then have "tokens ?st ?E act' held' q' = tokens ?st E (ss_act s) (ss_held s) q'" using other [OF q' False] by simp
    moreover have "q' < length (os_queue ?st)" using q' by (simp add: scheduled_def)
    ultimately show ?thesis using sch_invD(4) [OF inv q'] st Eq [OF q'] by (simp add: token_ok_def)
  qed
  have rep: "queues_rep st' ?E" and sc: "same_config ?st st'" using R(1,2) e0 fresh by blast+
  show "sch_inv_on ?E \<lparr>ss_st = st', ss_own = ss_own s, ss_act = act', ss_held = held'\<rparr>"
    by (rule sch_inv_onI(1) [OF inv sc rep _ pl' tok]) (use st in auto)
  show "\<And>q'. scheduled st' q' = scheduled ?st q'" by (rule sch_inv_onI(2) [OF inv sc rep _ pl' tok]) (use st in auto)
  show "\<And>q'. scheduled ?st q' \<Longrightarrow> ?E q' = E q'" by (rule Eq)
qed

text \<open>The token of a queue is in one place only.\<close>

lemma token_unique:
  assumes inv: "sch_inv_on E s" and q: "scheduled (ss_st s) q"
    and pl: "pl \<in> tokens (ss_st s) E (ss_act s) (ss_held s) q"
  shows "tokens (ss_st s) E (ss_act s) (ss_held s) q = {pl}" "qe_status (qe (ss_st s) q) = QUEUE_STATUS_SCHED"
  using sch_invD(4) [OF inv q] pl by (auto simp: token_ok_def split: if_splits)

lemma token_at:
  "In_pri \<in> tokens st E act held q \<longleftrightarrow> cmd_of st q \<in> set (E (pri_of st q))"
  "In_act t \<in> tokens st E act held q \<longleftrightarrow>
     act t = Sa_pend q \<or> act t = Sa_got (pri_of st q) (cmd_of st q) \<or> act t = Sa_back (pri_of st q) (cmd_of st q)"
  "In_held t \<in> tokens st E act held q \<longleftrightarrow> held t = Some (pri_of st q, cmd_of st q)"
  by (simp_all add: tokens_def)

text \<open>What a thread does in its own position changes the tokens in this position only.\<close>

lemma tokens_act_upd:
  "tokens st E (act(t := a)) held q =
     (tokens st E act held q - {In_act t}) \<union>
     (if a = Sa_pend q \<or> a = Sa_got (pri_of st q) (cmd_of st q) \<or> a = Sa_back (pri_of st q) (cmd_of st q) then {In_act t} else {})"
proof (rule set_eqI)
  fix pl
  show "pl \<in> tokens st E (act(t := a)) held q \<longleftrightarrow> pl \<in> (tokens st E act held q - {In_act t}) \<union>
     (if a = Sa_pend q \<or> a = Sa_got (pri_of st q) (cmd_of st q) \<or> a = Sa_back (pri_of st q) (cmd_of st q) then {In_act t} else {})"
    by (cases pl) (auto simp: token_at)
qed

lemma tokens_held_upd:
  "tokens st E act (held(t := h)) q =
     (tokens st E act held q - {In_held t}) \<union> (if h = Some (pri_of st q, cmd_of st q) then {In_held t} else {})"
proof (rule set_eqI)
  fix pl
  show "pl \<in> tokens st E act (held(t := h)) q \<longleftrightarrow>
      pl \<in> (tokens st E act held q - {In_held t}) \<union> (if h = Some (pri_of st q, cmd_of st q) then {In_held t} else {})"
    by (cases pl) (auto simp: token_at)
qed

lemma places_act_upd:
  "places_ok st own E act held \<Longrightarrow> act_ok st a \<Longrightarrow> places_ok st own E (act(t := a)) held"
  by (auto simp: places_ok_def)

lemma places_held_upd:
  "places_ok st own E act held \<Longrightarrow> (\<And>p ev. h = Some (p, ev) \<Longrightarrow> is_cmd st p ev) \<Longrightarrow> places_ok st own E act (held(t := h))"
  by (auto simp: places_ok_def)

text \<open>The position of a thread that is not idle belongs to one queue.\<close>

lemma act_queue:
  assumes inv: "sch_inv_on E s" and q: "In_act t \<in> tokens (ss_st s) E (ss_act s) (ss_held s) q" "scheduled (ss_st s) q"
    "scheduled (ss_st s) q'" "q' \<noteq> q"
  shows "In_act t \<notin> tokens (ss_st s) E (ss_act s) (ss_held s) q'"
  using cmd_inj [OF sch_invD(1) [OF inv] q(3) q(2)] q(1,4) by (auto simp: token_at)

lemma put_cmd_act:
  assumes inv: "sch_inv_on E s" and q: "scheduled (ss_st s) q"
    and t: "In_act t \<in> tokens (ss_st s) E (ss_act s) (ss_held s) q"
    and p: "p = pri_of (ss_st s) q" and ev: "ev = cmd_of (ss_st s) q"
    and res: "queue_enq_update (ss_st s) p ev ev (qe_status (qe (ss_st s) p)) = (sched, st')"
  shows "sch_inv_on (E(p := E p @ [ev])) \<lparr>ss_st = st', ss_own = ss_own s, ss_act = (ss_act s)(t := Sa_idle), ss_held = ss_held s\<rparr>"
    "\<And>q'. scheduled st' q' = scheduled (ss_st s) q'" "\<And>q'. scheduled (ss_st s) q' \<Longrightarrow> (E(p := E p @ [ev])) q' = E q'"
proof -
  note U = token_unique [OF inv q t]
  have gone: "tokens (ss_st s) E ((ss_act s)(t := Sa_idle)) (ss_held s) q = {}" unfolding tokens_act_upd U(1) by simp
  have other: "tokens (ss_st s) E ((ss_act s)(t := Sa_idle)) (ss_held s) q' = tokens (ss_st s) E (ss_act s) (ss_held s) q'"
    if "scheduled (ss_st s) q'" "q' \<noteq> q" for q'
    unfolding tokens_act_upd using act_queue [OF inv t q that] by simp
  have pl: "places_ok (ss_st s) (ss_own s) E ((ss_act s)(t := Sa_idle)) (ss_held s)"
    by (rule places_act_upd [OF sch_invD(3) [OF inv]]) simp
  note C = put_cmd [where act' = "(ss_act s)(t := Sa_idle)" and held' = "ss_held s", OF inv q U(2) gone other pl p ev res]
  show "sch_inv_on (E(p := E p @ [ev])) \<lparr>ss_st = st', ss_own = ss_own s, ss_act = (ss_act s)(t := Sa_idle), ss_held = ss_held s\<rparr>"
    "\<And>q'. scheduled st' q' = scheduled (ss_st s) q'" "\<And>q'. scheduled (ss_st s) q' \<Longrightarrow> (E(p := E p @ [ev])) q' = E q'"
    using C by blast+
qed

lemma put_cmd_held:
  assumes inv: "sch_inv_on E s" and h: "ss_held s t = Some (p, ev)"
    and res: "queue_enq_update (ss_st s) p ev ev (qe_status (qe (ss_st s) p)) = (sched, st')"
  shows "sch_inv_on (E(p := E p @ [ev])) \<lparr>ss_st = st', ss_own = ss_own s, ss_act = ss_act s, ss_held = (ss_held s)(t := None)\<rparr>"
    "\<And>q'. scheduled st' q' = scheduled (ss_st s) q'" "\<And>q'. scheduled (ss_st s) q' \<Longrightarrow> (E(p := E p @ [ev])) q' = E q'"
proof -
  note cfg = sch_invD(1) [OF inv]
  obtain q where q: "scheduled (ss_st s) q" "ev = cmd_of (ss_st s) q" "p = pri_of (ss_st s) q"
    using is_cmd_obtain [OF cfg places_okD(4) [OF sch_invD(3) [OF inv] h]] by blast
  have t: "In_held t \<in> tokens (ss_st s) E (ss_act s) (ss_held s) q" using h q(2,3) by (simp add: token_at)
  note U = token_unique [OF inv q(1) t]
  have gone: "tokens (ss_st s) E (ss_act s) ((ss_held s)(t := None)) q = {}" unfolding tokens_held_upd U(1) by simp
  have other: "tokens (ss_st s) E (ss_act s) ((ss_held s)(t := None)) q' = tokens (ss_st s) E (ss_act s) (ss_held s) q'"
    if "scheduled (ss_st s) q'" "q' \<noteq> q" for q'
  proof -
    have "In_held t \<notin> tokens (ss_st s) E (ss_act s) (ss_held s) q'"
      using cmd_inj [OF cfg that(1) q(1)] that(2) h q(2) by (auto simp: token_at)
    then show ?thesis unfolding tokens_held_upd by simp
  qed
  have pl: "places_ok (ss_st s) (ss_own s) E (ss_act s) ((ss_held s)(t := None))"
    by (rule places_held_upd [OF sch_invD(3) [OF inv]]) simp
  note C = put_cmd [OF inv q(1) U(2) gone other pl q(3) q(2) res]
  show "sch_inv_on (E(p := E p @ [ev])) \<lparr>ss_st = st', ss_own = ss_own s, ss_act = ss_act s, ss_held = (ss_held s)(t := None)\<rparr>"
    "\<And>q'. scheduled st' q' = scheduled (ss_st s) q'" "\<And>q'. scheduled (ss_st s) q' \<Longrightarrow> (E(p := E p @ [ev])) q' = E q'"
    using C by blast+
qed

text \<open>A thread gets a command only when it has no atomic context.\<close>

definition sch_seq :: "sch_sys \<Rightarrow> bool" where
  "sch_seq s \<longleftrightarrow> (\<forall>t p ev. ss_act s t = Sa_got p ev \<longrightarrow> ss_held s t = None)"

lemma sch_seq_step: "sch_step s s' \<Longrightarrow> sch_seq s \<Longrightarrow> sch_seq s'"
  by (induction rule: sch_step.induct) (auto simp: sch_seq_def)

lemma scheduled_lt: "scheduled st q \<Longrightarrow> q < length (os_queue st)"
  by (simp add: scheduled_def)

lemma pri_ne: "sched_config st \<Longrightarrow> scheduled st q \<Longrightarrow> scheduled st q' \<Longrightarrow> pri_of st q \<noteq> q'"
  using sched_configD(6,9) by metis

text \<open>A step that keeps the commands in the priority queues changes the tokens of threads only.\<close>

lemma tokens_queue_upd:
  assumes "sched_config st" "scheduled st q" "scheduled st q'"
  shows "tokens st (E(q := es)) act held q' = tokens st E act held q'"
  by (rule tokens_cong) (use pri_ne [OF assms(1,3,2)] in auto)

lemma places_queue_upd:
  assumes cfg: "sched_config st" and q: "scheduled st q" and pl: "places_ok st own E act held"
    and own: "0 \<notin> own'" "own' \<inter> set es = {}" "own' \<union> set es = own \<union> set (E q)"
    and dis: "\<And>p. p < length (os_queue st) \<Longrightarrow> p \<noteq> q \<Longrightarrow> (own \<union> set (E q)) \<inter> set (E p) = {}"
  shows "places_ok st own' (E(q := es)) act held"
proof -
  note P = places_okD [OF pl]
  have cm: "cmd_of st q' \<notin> own \<union> set (E q)" if "scheduled st q'" for q'
    using P(6,7) [OF that] pri_ne [OF cfg that q] scheduled_lt [OF q] by auto
  show ?thesis
  proof (rule places_okI)
    show "own' \<inter> set ((E(q := es)) p) = {}" if "p < length (os_queue st)" for p
      using own dis [OF that] by (cases "p = q") auto
    show "is_cmd st p ev" if "p \<in> pri_queues st" "ev \<in> set ((E(q := es)) p)" for p ev
      using P(5) [OF that(1)] that sched_configD(9) [OF cfg that(1)] q by (cases "p = q") auto
    show "cmd_of st q' \<notin> own'" if "scheduled st q'" for q' using cm [OF that] own(3) by blast
    show "cmd_of st q' \<notin> set ((E(q := es)) p)" if "scheduled st q'" "p < length (os_queue st)" "p \<noteq> pri_of st q'" for q' p
      using cm [OF that(1)] P(7) [OF that] own(3) by (cases "p = q") auto
  qed (use own(1) P(3,4) in blast)+
qed

lemma events_same:
  assumes sc: "\<And>q'. scheduled st' q' = scheduled (ss_st s) q'" and q: "scheduled (ss_st s) q"
    and own: "own' \<union> set es = ss_own s \<union> set (E q)"
  shows "events_of (E(q := es)) \<lparr>ss_st = st', ss_own = own', ss_act = a, ss_held = h\<rparr> = events_of E s"
proof -
  have u: "own \<union> (\<Union>q' \<in> {q. scheduled (ss_st s) q}. set (F q')) =
      (own \<union> set (F q)) \<union> (\<Union>q' \<in> {q'. scheduled (ss_st s) q' \<and> q' \<noteq> q}. set (F q'))" for own F
    using q by auto
  have c: "scheduled st' = scheduled (ss_st s)" using sc by blast
  have v: "(\<Union>q' \<in> {q'. scheduled (ss_st s) q' \<and> q' \<noteq> q}. set ((E(q := es)) q')) =
      (\<Union>q' \<in> {q'. scheduled (ss_st s) q' \<and> q' \<noteq> q}. set (E q'))" by auto
  show ?thesis unfolding events_of_def sch_sys.simps c u [of own' "E(q := es)"] u [of "ss_own s" E] v using own by simp
qed

lemma queues_rep_enq_fresh:
  assumes "queues_rep st E" "q < length (os_queue st)" "b \<noteq> 0" "\<forall>p < length (os_queue st). b \<notin> set (E p)"
    "queue_enq_update st q b b (qe_status (qe st q)) = (sched, st')"
  shows "queues_rep st' (E(q := E q @ [b]))" "same_config st st'"
    "sched = (qe_status (qe st q) = QUEUE_STATUS_NOTSCHED)"
    "p < length (os_queue st) \<Longrightarrow> qe_status (qe st' p) = (if p = q \<and> sched then QUEUE_STATUS_SCHED else qe_status (qe st p))"
  using queues_rep_enq [OF assms(1-3) _ assms(5)] assms(4) by blast+

lemma queues_rep_disjoint:
  "queues_rep st E \<Longrightarrow> p < length (os_queue st) \<Longrightarrow> q < length (os_queue st) \<Longrightarrow> p \<noteq> q \<Longrightarrow> set (E p) \<inter> set (E q) = {}"
  by (simp add: queues_rep_def)

lemma step_enqueue:
  assumes inv: "sch_inv_on E s" and t: "ss_act s t = Sa_idle" and b: "b \<in> ss_own s" and q: "scheduled (ss_st s) q"
    and res: "queue_enq_update (ss_st s) q b b (qe_status (qe (ss_st s) q)) = (sched, st')"
    and s': "s' = \<lparr>ss_st = st', ss_own = ss_own s - {b}, ss_act = (ss_act s)(t := if sched then Sa_pend q else Sa_idle), ss_held = ss_held s\<rparr>"
  shows "\<exists>E'. sch_inv_on E' s' \<and> events_of E' s' = events_of E s"
proof -
  let ?st = "ss_st s" and ?E = "E(q := E q @ [b])" and ?act = "(ss_act s)(t := if sched then Sa_pend q else Sa_idle)"
  note cfg = sch_invD(1) [OF inv] and P = places_okD [OF sch_invD(3) [OF inv]] and ql = scheduled_lt [OF q]
  have b0: "b \<noteq> 0" and fresh: "\<forall>p < length (os_queue ?st). b \<notin> set (E p)" using P(1,2) b by auto
  note R = queues_rep_enq_fresh [OF sch_invD(2) [OF inv] ql b0 fresh res]
  have ch: "scheduled ?st p \<and> scheduled st' p"
    if "p < length (os_queue ?st)" "qe_status (qe st' p) \<noteq> qe_status (qe ?st p)" for p
    using R(4) [OF that(1)] that q same_config_simps(1) [OF R(2)] by (auto simp: scheduled_def split: if_splits)
  have dis: "(ss_own s \<union> set (E q)) \<inter> set (E p) = {}" if "p < length (os_queue ?st)" "p \<noteq> q" for p
    using P(2) [OF that(1)] queues_rep_disjoint [OF sch_invD(2) [OF inv] that(1) ql that(2)] by blast
  have own: "(ss_own s - {b}) \<union> set (E q @ [b]) = ss_own s \<union> set (E q)" using b by auto
  have pl: "places_ok ?st (ss_own s - {b}) ?E ?act (ss_held s)"
    by (rule places_act_upd, rule places_queue_upd [OF cfg q sch_invD(3) [OF inv]])
      (use P(1) P(2) [OF ql] own dis q in \<open>auto\<close>)
  have tk: "tokens ?st ?E ?act (ss_held s) q' =
      tokens ?st E (ss_act s) (ss_held s) q' \<union> (if sched \<and> q' = q then {In_act t} else {})" if "scheduled ?st q'" for q'
  proof -
    have "In_act t \<notin> tokens ?st E (ss_act s) (ss_held s) q'" using t by (simp add: token_at)
    then show ?thesis unfolding tokens_act_upd tokens_queue_upd [OF cfg q that] by auto
  qed
  have tok: "if qe_status (qe st' q') = QUEUE_STATUS_SCHED then \<exists>pl. tokens ?st ?E ?act (ss_held s) q' = {pl}
      else tokens ?st ?E ?act (ss_held s) q' = {} \<and> ?E q' = []" if q': "scheduled ?st q'" for q'
    using sch_invD(4) [OF inv q'] R(3) R(4) [OF scheduled_lt [OF q']] q q' unfolding tk [OF q'] token_ok_def
    by (auto simp: scheduled_def queue_consts split: if_splits)
  have "sch_inv_on ?E s'" unfolding s' by (rule sch_inv_onI(1) [OF inv R(2) R(1) _ pl], rule ch, assumption+, rule tok)
  moreover have "scheduled st' q' = scheduled ?st q'" for q' by (rule scheduled_step [OF R(2)], rule ch)
  then have "events_of ?E s' = events_of E s" unfolding s' by (rule events_same) (use q own in auto)
  ultimately show ?thesis by blast
qed

lemma places_mono:
  assumes "places_ok st own E act held" "\<And>p. set (E' p) \<subseteq> set (E p)"
  shows "places_ok st own E' act held"
  using assms unfolding places_ok_def by (intro conjI allI ballI impI) blast+

lemma tokens_back:
  "act t = Sa_got p ev \<Longrightarrow> tokens st E (act(t := Sa_back p ev)) held q = tokens st E act held q"
  unfolding tokens_act_upd by (auto simp: token_at)

lemma token_ok_iff:
  "sch_inv_on E s \<Longrightarrow> scheduled (ss_st s) q \<Longrightarrow>
   (if qe_status (qe (ss_st s) q) = QUEUE_STATUS_SCHED then \<exists>pl. tokens (ss_st s) E (ss_act s) (ss_held s) q = {pl}
    else tokens (ss_st s) E (ss_act s) (ss_held s) q = {} \<and> E q = [])"
  using sch_invD(4) by (simp add: token_ok_def)

lemma step_skip:
  assumes inv: "sch_inv_on E s" and t: "ss_act s t = Sa_got p ev"
  shows "\<exists>E'. sch_inv_on E' (s\<lparr>ss_act := (ss_act s)(t := Sa_back p ev)\<rparr>) \<and>
    events_of E' (s\<lparr>ss_act := (ss_act s)(t := Sa_back p ev)\<rparr>) = events_of E s"
proof -
  have ok: "act_ok (ss_st s) (Sa_back p ev)" using places_okD(3) [OF sch_invD(3) [OF inv], of t] t by simp
  have "sch_inv_on E (s\<lparr>ss_act := (ss_act s)(t := Sa_back p ev)\<rparr>)"
    using inv places_act_upd [OF sch_invD(3) [OF inv] ok, of t] tokens_back [of "ss_act s", OF t]
    by (simp add: sch_inv_on_def token_ok_def)
  then show ?thesis by (intro exI [of _ E]) (simp add: events_of_def)
qed

text \<open>A thread takes the first command of a priority queue.\<close>

lemma tokens_take:
  assumes inv: "sch_inv_on E s" and q: "scheduled (ss_st s) q" and e: "E (pri_of (ss_st s) q) = cmd_of (ss_st s) q # rest"
    and t: "ss_act s t = Sa_idle" and q': "scheduled (ss_st s) q'"
  shows "tokens (ss_st s) (E(pri_of (ss_st s) q := rest)) ((ss_act s)(t := Sa_got (pri_of (ss_st s) q) (cmd_of (ss_st s) q))) (ss_held s) q' =
    (if q' = q then {In_act t} else tokens (ss_st s) E (ss_act s) (ss_held s) q')"
proof -
  let ?st = "ss_st s"
  have pl: "pri_of ?st q < length (os_queue ?st)" using sched_configD(6,7) [OF sch_invD(1) [OF inv]] q by blast
  have "queue_rep ?st (pri_of ?st q) (E (pri_of ?st q))" using sch_invD(2) [OF inv] pl by (simp add: queues_rep_def)
  then have d: "cmd_of ?st q \<notin> set rest" using queue_rep_distinct e by fastforce
  have "In_pri \<in> tokens ?st E (ss_act s) (ss_held s) q" using e by (simp add: token_at)
  note U = token_unique(1) [OF inv q this]
  have ni: "In_act t \<notin> tokens ?st E (ss_act s) (ss_held s) q'" using t by (simp add: token_at)
  show ?thesis
  proof (cases "q' = q")
    case True
    have "tokens ?st (E(pri_of ?st q := rest)) (ss_act s) (ss_held s) q = tokens ?st E (ss_act s) (ss_held s) q - {In_pri}"
    proof (rule set_eqI)
      show "x \<in> tokens ?st (E(pri_of ?st q := rest)) (ss_act s) (ss_held s) q \<longleftrightarrow>
          x \<in> tokens ?st E (ss_act s) (ss_held s) q - {In_pri}" for x
        using d by (cases x) (auto simp: token_at)
    qed
    then show ?thesis using True U by (simp add: tokens_act_upd)
  next
    case False
    then have ne: "cmd_of ?st q' \<noteq> cmd_of ?st q" using cmd_inj [OF sch_invD(1) [OF inv] q' q] by blast
    have "tokens ?st (E(pri_of ?st q := rest)) (ss_act s) (ss_held s) q' = tokens ?st E (ss_act s) (ss_held s) q'"
      by (rule tokens_cong) (use ne e in \<open>auto\<close>)
    then show ?thesis using False ne ni by (simp add: tokens_act_upd)
  qed
qed

lemma take_places:
  assumes inv: "sch_inv_on E s" and t: "ss_act s t = Sa_idle" and p: "p \<in> pri_queues (ss_st s)"
    and ev: "ev = (if E p = [] then 0 else hd (E p))"
    and E': "E' = E(p := tl (E p))" and act': "act' = (ss_act s)(t := if ev = 0 then Sa_idle else Sa_got p ev)"
  shows "act_ok (ss_st s) (act' t) \<and> (\<forall>q. scheduled (ss_st s) q \<longrightarrow>
    tokens (ss_st s) E' act' (ss_held s) q = tokens (ss_st s) E (ss_act s) (ss_held s) q \<or>
    (\<exists>a b. tokens (ss_st s) E' act' (ss_held s) q = {a} \<and> tokens (ss_st s) E (ss_act s) (ss_held s) q = {b}))"
proof (cases "E p")
  case Nil
  moreover have "(ss_act s)(t := Sa_idle) = ss_act s" using t by (auto simp: fun_eq_iff)
  moreover have "E(p := []) = E" using Nil by (auto simp: fun_eq_iff)
  ultimately show ?thesis using ev E' act' t by simp
next
  case (Cons c rest)
  let ?st = "ss_st s"
  note cfg = sch_invD(1) [OF inv]
  have ic: "is_cmd ?st p c" using places_okD(5) [OF sch_invD(3) [OF inv] p] Cons by simp
  then obtain q where q: "scheduled ?st q" "c = cmd_of ?st q" "p = pri_of ?st q" using is_cmd_obtain [OF cfg] by metis
  have c0: "ev = c" "ev \<noteq> 0" using ev Cons q(2) sched_configD(3) [OF cfg q(1)] by auto
  have e: "E (pri_of ?st q) = cmd_of ?st q # rest" using Cons q by simp
  have "In_pri \<in> tokens ?st E (ss_act s) (ss_held s) q" using e by (simp add: token_at)
  note U = token_unique(1) [OF inv q(1) this]
  have tk: "tokens ?st E' act' (ss_held s) q' = (if q' = q then {In_act t} else tokens ?st E (ss_act s) (ss_held s) q')"
    if "scheduled ?st q'" for q'
    using tokens_take [OF inv q(1) e t that] c0 q(2,3) Cons E' act' by simp
  show ?thesis using c0 ic tk U act' by auto
qed

lemma step_take:
  assumes inv: "sch_inv_on E s" and t: "ss_act s t = Sa_idle" and p: "p \<in> pri_queues (ss_st s)"
    and res: "queue_deq (ss_st s) p = (ev, st')"
    and s': "s' = \<lparr>ss_st = st', ss_own = ss_own s, ss_act = (ss_act s)(t := if ev = 0 then Sa_idle else Sa_got p ev), ss_held = ss_held s\<rparr>"
  shows "\<exists>E'. sch_inv_on E' s' \<and> events_of E' s' = events_of E s"
proof -
  let ?st = "ss_st s" and ?E = "E(p := tl (E p))" and ?act = "(ss_act s)(t := if ev = 0 then Sa_idle else Sa_got p ev)"
  note cfg = sch_invD(1) [OF inv]
  note pl = sched_configD(7) [OF cfg p]
  note R = queues_rep_deq [OF sch_invD(2) [OF inv] pl sched_configD(1) [OF cfg pl] res]
  note T = take_places [OF inv t p R(1) refl refl]
  have np: "q' \<noteq> p" if "scheduled ?st q'" for q' using sched_configD(9) [OF cfg p] that by blast
  have sub: "set (?E p') \<subseteq> set (E p')" for p' by (cases "E p") auto
  have pl': "places_ok ?st (ss_own s) ?E ?act (ss_held s)"
    by (rule places_act_upd [OF places_mono [OF sch_invD(3) [OF inv] sub]]) (use T in simp)
  have "sch_inv_on ?E s'" unfolding s'
  proof (rule sch_inv_onI(1) [OF inv R(3) R(2) _ pl'])
    fix q assume q: "scheduled ?st q"
    show "if qe_status (qe st' q) = QUEUE_STATUS_SCHED then \<exists>pl. tokens ?st ?E ?act (ss_held s) q = {pl}
       else tokens ?st ?E ?act (ss_held s) q = {} \<and> ?E q = []"
      using token_ok_iff [OF inv q] T q R(4) [OF scheduled_lt [OF q]] np [OF q] by (auto split: if_splits)
  qed (use R(4) in blast)
  moreover have "scheduled st' = scheduled ?st"
    using same_config_simps(1) [OF R(3)] R(4) by (auto simp: fun_eq_iff scheduled_def)
  then have "events_of ?E s' = events_of E s" unfolding s' events_of_def using np by auto
  ultimately show ?thesis by blast
qed

text \<open>A thread serves a queue whose command it has taken.\<close>

lemma serve_facts:
  assumes inv: "sch_inv_on E s" and t: "ss_act s t = Sa_got p ev" and cmd: "os_cmd (ss_st s) ev = Cmd_dequeue q"
  shows "scheduled (ss_st s) q" "ev = cmd_of (ss_st s) q" "p = pri_of (ss_st s) q"
    "tokens (ss_st s) E (ss_act s) (ss_held s) q = {In_act t}" "qe_status (qe (ss_st s) q) = QUEUE_STATUS_SCHED"
    "scheduled (ss_st s) q' \<Longrightarrow> q' \<noteq> q \<Longrightarrow> In_act t \<notin> tokens (ss_st s) E (ss_act s) (ss_held s) q'"
proof -
  have ic: "is_cmd (ss_st s) p ev" using places_okD(3) [OF sch_invD(3) [OF inv], of t] t by simp
  note Q = is_cmdD [OF sch_invD(1) [OF inv] ic cmd]
  show "scheduled (ss_st s) q" "ev = cmd_of (ss_st s) q" "p = pri_of (ss_st s) q" using Q by simp_all
  have T: "In_act t \<in> tokens (ss_st s) E (ss_act s) (ss_held s) q" using t Q by (simp add: token_at)
  show "tokens (ss_st s) E (ss_act s) (ss_held s) q = {In_act t}" "qe_status (qe (ss_st s) q) = QUEUE_STATUS_SCHED"
    using token_unique [OF inv Q(1) T] by simp_all
  show "scheduled (ss_st s) q' \<Longrightarrow> q' \<noteq> q \<Longrightarrow> In_act t \<notin> tokens (ss_st s) E (ss_act s) (ss_held s) q'"
    using act_queue [OF inv T Q(1)] by blast
qed

lemma serve_deq:
  assumes inv: "sch_inv_on E s" and q: "scheduled (ss_st s) q" "qe_status (qe (ss_st s) q) = QUEUE_STATUS_SCHED"
    and res: "queue_deq_multi (ss_st s) q n = (Some bs, st')"
  shows "bs = take n (E q)" "queues_rep st' (E(q := drop n (E q)))" "same_config (ss_st s) st'"
    "p < length (os_queue (ss_st s)) \<Longrightarrow> qe_status (qe st' p) = (if p = q \<and> E q = [] then QUEUE_STATUS_NOTSCHED else qe_status (qe (ss_st s) p))"
    "p < length (os_queue (ss_st s)) \<Longrightarrow> qe_status (qe st' p) \<noteq> qe_status (qe (ss_st s) p) \<Longrightarrow> scheduled (ss_st s) p \<and> scheduled st' p"
proof -
  have r: "QUEUE_STATUS_READY \<le> qe_status (qe (ss_st s) q)" using q(2) by (simp add: queue_consts)
  note ql = scheduled_lt [OF q(1)]
  note R = queues_rep_deq_multi [OF sch_invD(2) [OF inv] ql sched_configD(1) [OF sch_invD(1) [OF inv] ql] r res]
  show "bs = take n (E q)" "queues_rep st' (E(q := drop n (E q)))" "same_config (ss_st s) st'" using R(1-3) by simp_all
  show st: "p < length (os_queue (ss_st s)) \<Longrightarrow> qe_status (qe st' p) =
      (if p = q \<and> E q = [] then QUEUE_STATUS_NOTSCHED else qe_status (qe (ss_st s) p))" for p
    using R(4) q(2) by auto
  show "scheduled (ss_st s) p \<and> scheduled st' p"
    if "p < length (os_queue (ss_st s))" "qe_status (qe st' p) \<noteq> qe_status (qe (ss_st s) p)"
    using st [OF that(1)] that q(1) same_config_simps(1) [OF R(3)] by (auto simp: scheduled_def split: if_splits)
qed

lemma step_serve_empty:
  assumes inv: "sch_inv_on E s" and t: "ss_act s t = Sa_got p ev" and cmd: "os_cmd (ss_st s) ev = Cmd_dequeue q"
    and res: "queue_deq_multi (ss_st s) q n = (Some [], st')" and n: "0 < n"
    and s': "s' = \<lparr>ss_st = st', ss_own = ss_own s, ss_act = (ss_act s)(t := Sa_idle), ss_held = ss_held s\<rparr>"
  shows "\<exists>E'. sch_inv_on E' s' \<and> events_of E' s' = events_of E s"
proof -
  let ?st = "ss_st s" and ?act = "(ss_act s)(t := Sa_idle)"
  note F = serve_facts [OF inv t cmd]
  note D = serve_deq [OF inv F(1,5) res]
  have e: "E q = []" using D(1) n by simp
  then have Eq: "E(q := drop n (E q)) = E" by (auto simp: fun_eq_iff)
  have pl: "places_ok ?st (ss_own s) E ?act (ss_held s)" by (rule places_act_upd [OF sch_invD(3) [OF inv]]) simp
  have tok: "if qe_status (qe st' q') = QUEUE_STATUS_SCHED then \<exists>pl. tokens ?st E ?act (ss_held s) q' = {pl}
       else tokens ?st E ?act (ss_held s) q' = {} \<and> E q' = []" if q': "scheduled ?st q'" for q'
    using token_ok_iff [OF inv q'] D(4) [OF scheduled_lt [OF q']] e F(4) F(6) [OF q']
    by (cases "q' = q") (simp_all add: tokens_act_upd queue_consts)
  have "sch_inv_on E s'" unfolding s'
    by (rule sch_inv_onI(1) [OF inv D(3) D(2) [unfolded Eq] _ pl], rule D(5), assumption+, rule tok)
  moreover have "scheduled st' q' = scheduled ?st q'" for q' by (rule scheduled_step [OF D(3)], rule D(5))
  then have "scheduled st' = scheduled ?st" by blast
  then have "events_of E s' = events_of E s" unfolding s' events_of_def by simp
  ultimately show ?thesis by blast
qed

lemma step_serve:
  assumes inv: "sch_inv_on E s" and t: "ss_act s t = Sa_got p ev" and cmd: "os_cmd (ss_st s) ev = Cmd_dequeue q"
    and res: "queue_deq_multi (ss_st s) q n = (Some bs, st')" and n: "bs \<noteq> []"
    and h: "ss_held s t = None"
    and ah: "act' = (ss_act s)(t := Sa_idle) \<and> held' = (ss_held s)(t := Some (p, ev)) \<or>
      act' = (ss_act s)(t := Sa_back p ev) \<and> held' = ss_held s"
    and s': "s' = \<lparr>ss_st = st', ss_own = ss_own s \<union> set bs, ss_act = act', ss_held = held'\<rparr>"
  shows "\<exists>E'. sch_inv_on E' s' \<and> events_of E' s' = events_of E s"
proof -
  let ?st = "ss_st s" and ?E = "E(q := drop n (E q))"
  note F = serve_facts [OF inv t cmd] and P = places_okD [OF sch_invD(3) [OF inv]] and cfg = sch_invD(1) [OF inv]
  note D = serve_deq [OF inv F(1,5) res] and ql = scheduled_lt [OF F(1)]
  have e: "E q \<noteq> []" using D(1) n by auto
  have rq: "queue_rep ?st q (E q)" using sch_invD(2) [OF inv] ql by (simp add: queues_rep_def)
  have own: "(ss_own s \<union> set bs) \<union> set (drop n (E q)) = ss_own s \<union> set (E q)"
    unfolding D(1) Un_assoc set_append [symmetric] append_take_drop_id ..
  have own2: "0 \<notin> ss_own s \<union> set bs" using P(1) rq set_take_subset [of n "E q"] by (auto simp: D(1) queue_rep_def)
  have own3: "(ss_own s \<union> set bs) \<inter> set (drop n (E q)) = {}"
    using P(2) [OF ql] set_drop_subset [of n "E q"] set_take_disj_set_drop_if_distinct [OF queue_rep_distinct [OF rq], of n n]
    by (auto simp: D(1))
  have dis: "(ss_own s \<union> set (E q)) \<inter> set (E p) = {}" if "p < length (os_queue ?st)" "p \<noteq> q" for p
    using P(2) [OF that(1)] queues_rep_disjoint [OF sch_invD(2) [OF inv] that(1) ql that(2)] by blast
  have ic: "is_cmd ?st p ev" using P(3) [of t] t by simp
  have "places_ok ?st (ss_own s \<union> set bs) ?E (ss_act s) (ss_held s)"
    by (rule places_queue_upd [OF cfg F(1) sch_invD(3) [OF inv] own2 own3 own]) (rule dis)
  then have pl: "places_ok ?st (ss_own s \<union> set bs) ?E act' held'"
    using ah by (elim disjE conjE) (auto intro!: places_act_upd places_held_upd simp: ic)
  have tk: "if q' = q then \<exists>pl. tokens ?st ?E act' held' q' = {pl}
      else tokens ?st ?E act' held' q' = tokens ?st E (ss_act s) (ss_held s) q'" if q': "scheduled ?st q'" for q'
    using ah
  proof (elim disjE conjE)
    assume a: "act' = (ss_act s)(t := Sa_idle)" "held' = (ss_held s)(t := Some (p, ev))"
    have "In_held t \<notin> tokens ?st E (ss_act s) (ss_held s) q'" using h by (simp add: token_at)
    moreover have "q' \<noteq> q \<Longrightarrow> ev \<noteq> cmd_of ?st q'" using cmd_inj [OF cfg q' F(1)] F(2) by auto
    ultimately show ?thesis unfolding a tokens_held_upd tokens_act_upd tokens_queue_upd [OF cfg F(1) q']
      using F(2,3,4) F(6) [OF q'] by auto
  next
    assume a: "act' = (ss_act s)(t := Sa_back p ev)" "held' = ss_held s"
    show ?thesis unfolding a tokens_back [of "ss_act s", OF t] tokens_queue_upd [OF cfg F(1) q'] using F(4) by auto
  qed
  have tok: "if qe_status (qe st' q') = QUEUE_STATUS_SCHED then \<exists>pl. tokens ?st ?E act' held' q' = {pl}
       else tokens ?st ?E act' held' q' = {} \<and> ?E q' = []" if q': "scheduled ?st q'" for q'
    using token_ok_iff [OF inv q'] D(4) [OF scheduled_lt [OF q']] e F(5) tk [OF q'] by (cases "q' = q") simp_all
  have "sch_inv_on ?E s'" unfolding s'
    by (rule sch_inv_onI(1) [OF inv D(3) D(2) _ pl], rule D(5), assumption+, rule tok)
  moreover have "scheduled st' q' = scheduled ?st q'" for q' by (rule scheduled_step [OF D(3)], rule D(5))
  then have "events_of ?E s' = events_of E s" unfolding s' by (rule events_same) (use F(1) own in auto)
  ultimately show ?thesis by blast
qed

section \<open>Every schedule of the threads\<close>

lemma step_put_act:
  assumes inv: "sch_inv_on E s" and q: "scheduled (ss_st s) q"
    and t: "In_act t \<in> tokens (ss_st s) E (ss_act s) (ss_held s) q"
    and p: "p = pri_of (ss_st s) q" and ev: "ev = cmd_of (ss_st s) q"
    and res: "queue_enq_update (ss_st s) p ev ev (qe_status (qe (ss_st s) p)) = (sched, st')"
    and s': "s' = \<lparr>ss_st = st', ss_own = ss_own s, ss_act = (ss_act s)(t := Sa_idle), ss_held = ss_held s\<rparr>"
  shows "\<exists>E'. sch_inv_on E' s' \<and> events_of E' s' = events_of E s"
proof -
  note C = put_cmd_act [OF inv q t p ev res]
  have "scheduled st' = scheduled (ss_st s)" using C(2) by blast
  then have "events_of (E(p := E p @ [ev])) s' = events_of E s" unfolding s' events_of_def using C(3) by auto
  then show ?thesis using C(1) s' by blast
qed

lemma step_release:
  assumes inv: "sch_inv_on E s" and h: "ss_held s t = Some (p, ev)"
    and res: "queue_enq_update (ss_st s) p ev ev (qe_status (qe (ss_st s) p)) = (sched, st')"
    and s': "s' = \<lparr>ss_st = st', ss_own = ss_own s, ss_act = ss_act s, ss_held = (ss_held s)(t := None)\<rparr>"
  shows "\<exists>E'. sch_inv_on E' s' \<and> events_of E' s' = events_of E s"
proof -
  note C = put_cmd_held [OF inv h res]
  have "scheduled st' = scheduled (ss_st s)" using C(2) by blast
  then have "events_of (E(p := E p @ [ev])) s' = events_of E s" unfolding s' events_of_def using C(3) by auto
  then show ?thesis using C(1) s' by blast
qed

lemma sch_inv_step:
  assumes "sch_step s s'" "sch_inv_on E s" "sch_seq s"
  shows "\<exists>E'. sch_inv_on E' s' \<and> events_of E' s' = events_of E s"
  using assms
proof (induction rule: sch_step.induct)
  case (enqueue s t b q sched st)
  show ?case
    by (rule step_enqueue [OF enqueue.prems(1) enqueue.hyps(1,2)
          sched_configD(2) [OF sch_invD(1) [OF enqueue.prems(1)] enqueue.hyps(3-5)] enqueue.hyps(6)]) simp
next
  case (publish s t q p sched st)
  have q: "scheduled (ss_st s) q" using places_okD(3) [OF sch_invD(3) [OF publish.prems(1)], of t] publish.hyps(1) by simp
  have t: "In_act t \<in> tokens (ss_st s) E (ss_act s) (ss_held s) q" using publish.hyps(1) by (simp add: token_at)
  show ?case by (rule step_put_act [OF publish.prems(1) q t _ refl publish.hyps(3)]) (simp_all add: publish.hyps(2))
next
  case (take_cmd s t p ev st)
  show ?case by (rule step_take [OF take_cmd.prems(1) take_cmd.hyps(1,3,4)]) simp
next
  case (skip s t p ev)
  show ?case by (rule step_skip [OF skip.prems(1) skip.hyps(1)])
next
  case (serve_empty s t p ev q n st)
  show ?case by (rule step_serve_empty [OF serve_empty.prems(1) serve_empty.hyps]) simp
next
  case (serve s t p ev q n bs st)
  have h: "ss_held s t = None" using serve.prems(2) serve.hyps(1) by (auto simp: sch_seq_def)
  show ?case by (cases "queue_is_atomic (qe (ss_st s) q)";
      rule step_serve [OF serve.prems(1) serve.hyps(1-3,5) h, where act' = "if queue_is_atomic (qe (ss_st s) q)
        then (ss_act s)(t := Sa_idle) else (ss_act s)(t := Sa_back p ev)" and held' = "if queue_is_atomic (qe (ss_st s) q)
        then (ss_held s)(t := Some (p, ev)) else ss_held s"]) simp_all
next
  case (put_back s t p ev sched st)
  note cfg = sch_invD(1) [OF put_back.prems(1)]
  have "is_cmd (ss_st s) p ev" using places_okD(3) [OF sch_invD(3) [OF put_back.prems(1)], of t] put_back.hyps(1) by simp
  then obtain q where q: "scheduled (ss_st s) q" "ev = cmd_of (ss_st s) q" "p = pri_of (ss_st s) q"
    using is_cmd_obtain [OF cfg] by metis
  have t: "In_act t \<in> tokens (ss_st s) E (ss_act s) (ss_held s) q" using put_back.hyps(1) q by (simp add: token_at)
  show ?case by (rule step_put_act [OF put_back.prems(1) q(1) t q(3,2) put_back.hyps(2)]) simp
next
  case (release s t p ev sched st)
  show ?case by (rule step_release [OF release.prems(1) release.hyps(2,3)]) simp
qed

text \<open>At the start the queues are empty and no thread is in a call.\<close>

definition sch_start :: "sch_sys \<Rightarrow> bool" where
  "sch_start s \<longleftrightarrow> sched_config (ss_st s) \<and>
     (\<forall>q < length (os_queue (ss_st s)). qe_head (qe (ss_st s) q) = 0 \<and> qe_tail (qe (ss_st s) q) = Tail_head) \<and>
     (\<forall>q. scheduled (ss_st s) q \<longrightarrow> qe_status (qe (ss_st s) q) = QUEUE_STATUS_NOTSCHED \<and> cmd_of (ss_st s) q \<notin> ss_own s) \<and>
     0 \<notin> ss_own s \<and> (\<forall>t. ss_act s t = Sa_idle \<and> ss_held s t = None)"

lemma sch_start_inv:
  assumes "sch_start s"
  shows "sch_inv_on (\<lambda>_. []) s" "events_of (\<lambda>_. []) s = ss_own s" "sch_seq s"
proof -
  have k: "sched_config (ss_st s)" "\<forall>q < length (os_queue (ss_st s)). queue_rep (ss_st s) q []"
    using assms by (auto simp: sch_start_def queue_rep_def ptr_opt_def)
  have a: "ss_act s t = Sa_idle" "ss_held s t = None" for t using assms by (auto simp: sch_start_def)
  have tk: "tokens (ss_st s) (\<lambda>_. []) (ss_act s) (ss_held s) q = {}" for q
  proof (rule set_eqI)
    show "x \<in> tokens (ss_st s) (\<lambda>_. []) (ss_act s) (ss_held s) q \<longleftrightarrow> x \<in> {}" for x by (cases x) (simp_all add: token_at a)
  qed
  have "places_ok (ss_st s) (ss_own s) (\<lambda>_. []) (ss_act s) (ss_held s)"
    using assms by (auto simp: sch_start_def places_ok_def)
  then show "sch_inv_on (\<lambda>_. []) s"
    using assms k unfolding sch_inv_on_def token_ok_def queues_rep_def tk by (auto simp: sch_start_def queue_consts)
  show "events_of (\<lambda>_. []) s = ss_own s" "sch_seq s" by (simp_all add: events_of_def sch_seq_def a)
qed

text \<open>The events are the application's at the start: the set is a parameter of the contract.\<close>

interpretation sch: invariant_system "\<lambda>s. sch_start s \<and> ss_own s = evs" sch_step
  "\<lambda>s. sch_seq s \<and> (\<exists>E. sch_inv_on E s \<and> events_of E s = evs)" for evs
proof
  show "sch_seq s \<and> (\<exists>E. sch_inv_on E s \<and> events_of E s = evs)" if "sch_start s \<and> ss_own s = evs" for s
    using sch_start_inv that by blast
  show "sch_seq s' \<and> (\<exists>E. sch_inv_on E s' \<and> events_of E s' = evs)"
    if "sch_seq s \<and> (\<exists>E. sch_inv_on E s \<and> events_of E s = evs)" "sch_step s s'" for s s'
    using that sch_inv_step [OF that(2)] sch_seq_step [OF that(2)] by metis
qed

lemma serving_exclusive:
  assumes inv: "sch_inv_on E s" and h: "ss_held s t = Some (p, ev)"
  shows "ev \<notin> set (E p)" "u \<noteq> t \<Longrightarrow> ss_held s u \<noteq> Some (p, ev)" "ss_act s u \<noteq> Sa_got p ev"
proof -
  obtain q where q: "scheduled (ss_st s) q" "ev = cmd_of (ss_st s) q" "p = pri_of (ss_st s) q"
    using is_cmd_obtain [OF sch_invD(1) [OF inv] places_okD(4) [OF sch_invD(3) [OF inv] h]] by blast
  have "In_held t \<in> tokens (ss_st s) E (ss_act s) (ss_held s) q" using h q by (simp add: token_at)
  note U = token_unique(1) [OF inv q(1) this]
  have "In_pri \<notin> tokens (ss_st s) E (ss_act s) (ss_held s) q" "In_act u \<notin> tokens (ss_st s) E (ss_act s) (ss_held s) q"
    "u \<noteq> t \<Longrightarrow> In_held u \<notin> tokens (ss_st s) E (ss_act s) (ss_held s) q" unfolding U by auto
  then show "ev \<notin> set (E p)" "u \<noteq> t \<Longrightarrow> ss_held s u \<noteq> Some (p, ev)" "ss_act s u \<noteq> Sa_got p ev"
    unfolding token_at using q by auto
qed

text \<open>C4. Scheduling of parallel and atomic queues, for any number of threads and any interleaving of the
  locked sections: there are lists of the events in the queues such that no event is lost or
  duplicated (each is in one queue, or with the application); a queue that has events has its
  command in one place exactly, its priority queue or the hands of one thread (no queue is
  forgotten); and while a thread has the atomic context of a queue, the command is not in the
  priority queue, and no other thread has the context or has taken the command.\<close>

theorem scheduler_safe:
  assumes "sch_start s0" "rtranclp sch_step s0 s"
  shows "\<exists>E. queues_rep (ss_st s) E \<and> events_of E s = ss_own s0 \<and>
    (\<forall>q. scheduled (ss_st s) q \<longrightarrow> ss_own s \<inter> set (E q) = {} \<and>
       (E q \<noteq> [] \<longrightarrow> (\<exists>pl. tokens (ss_st s) E (ss_act s) (ss_held s) q = {pl}))) \<and>
    (\<forall>t p ev. ss_held s t = Some (p, ev) \<longrightarrow> ev \<notin> set (E p) \<and>
       (\<forall>u. (u \<noteq> t \<longrightarrow> ss_held s u \<noteq> Some (p, ev)) \<and> ss_act s u \<noteq> Sa_got p ev))"
proof -
  obtain E where E: "sch_inv_on E s" "events_of E s = ss_own s0" using sch.reachable_inv [OF assms(2)] assms(1) by blast
  have "E q \<noteq> [] \<Longrightarrow> \<exists>pl. tokens (ss_st s) E (ss_act s) (ss_held s) q = {pl}" if "scheduled (ss_st s) q" for q
    using token_ok_iff [OF E(1) that] by (auto split: if_splits)
  moreover have "ss_own s \<inter> set (E q) = {}" if "scheduled (ss_st s) q" for q
    using places_okD(2) [OF sch_invD(3) [OF E(1)] scheduled_lt [OF that]] .
  moreover note serving_exclusive [OF E(1)]
  ultimately show ?thesis using sch_invD(2) [OF E(1)] E(2) by blast
qed

text \<open>One priority queue (entry 0) and one atomic queue (entry 1) with the command event 320; the
  application has two events. Thread 0 enqueues event 64, thread 1 takes the command and serves the queue.\<close>

definition sched_example :: sch_sys where
  "sched_example =
     \<lparr>ss_st = queue_example\<lparr>os_queue :=
         [(queue_init ''pri'' ODP_QUEUE_TYPE_POLL None queue_zero)\<lparr>qe_status := QUEUE_STATUS_READY\<rparr>,
          (queue_init ''q'' ODP_QUEUE_TYPE_SCHED None queue_zero)\<lparr>qe_status := QUEUE_STATUS_NOTSCHED,
            qe_param := queue_param_default\<lparr>sp_sync := ODP_SCHED_SYNC_ATOMIC\<rparr>, qe_cmd_ev := 320, qe_pri_queue := Some 0\<rparr>],
         os_cmd := (\<lambda>_. Cmd_none)(320 := Cmd_dequeue 1)\<rparr>,
      ss_own = {64, 128}, ss_act = \<lambda>_. Sa_idle, ss_held = \<lambda>_. None\<rparr>"

lemma sched_example_start: "sch_start sched_example"
  by (auto simp: sch_start_def sched_config_def scheduled_def sched_example_def queue_example_def queue_eval less_Suc_eq nth_Cons')

lemma sched_example_run:
  "\<exists>s. rtranclp sch_step sched_example s \<and> ss_held s 1 = Some (0, 320) \<and> ss_own s = {64, 128}"
proof -
  let ?s = sched_example
  let ?st = "ss_st ?s"
  have q: "length (os_queue ?st) = 2" "qe_status (qe ?st 1) = QUEUE_STATUS_NOTSCHED" "qe_status (qe ?st 0) = QUEUE_STATUS_READY"
    "qe_type (qe ?st 1) = ODP_QUEUE_TYPE_SCHED" "qe_pri_queue (qe ?st 1) = Some 0" "cmd_of ?st 1 = 320"
    "os_cmd ?st 320 = Cmd_dequeue 1" "pri_queues ?st = {0}" "queue_is_atomic (qe ?st 1)" "ss_own ?s = {64, 128}"
    "\<not> queue_is_ordered (qe ?st 0)" "\<not> queue_is_ordered (qe ?st 1)"
    by (simp_all add: sched_example_def queue_example_def queue_eval queue_is_atomic_def)
  have a: "ss_act ?s t = Sa_idle" "ss_held ?s t = None" for t by (simp_all add: sched_example_def)
  have rep: "queues_rep ?st (\<lambda>_. [])" using sch_invD(2) [OF sch_start_inv(1) [OF sched_example_start]] .
  obtain b1 st1 where e1: "queue_enq_update ?st 1 64 64 (qe_status (qe ?st 1)) = (b1, st1)" by fastforce
  note R1 = queues_rep_enq_fresh [OF rep _ _ _ e1, simplified q, simplified] and C1 = same_config_simps [OF R1(2), simplified q]
  obtain b2 st2 where e2: "queue_enq_update st1 0 320 320 (qe_status (qe st1 0)) = (b2, st2)" by fastforce
  note R2 = queues_rep_enq_fresh [OF R1(1) _ _ _ e2, simplified C1, simplified] and C2 = same_config_simps [OF R2(2), simplified C1]
  obtain ev st3 where e3: "queue_deq st2 0 = (ev, st3)" by fastforce
  note R3 = queues_rep_deq [OF R2(1) _ _ e3, simplified C2, simplified q, simplified] and C3 = same_config_simps [OF R3(3), simplified C2]
  obtain r st4 where e4: "queue_deq_multi st3 1 4 = (r, st4)" by fastforce
  note R4 = queues_rep_deq_multi [OF R3(2) _ _ _ e4, simplified C3, simplified q, simplified]
  have ev: "ev = 320" using R3(1) C1(7) [of 0] q by simp
  have "qe_status (qe st3 1) = QUEUE_STATUS_SCHED"
    using R1(3) R1(4) [of 1] R2(4) [of 1] R3(4) [of 1] C1 C2 q by simp
  then have r: "r = Some [64]" using R4(1) C1 C2 C3 q by (simp add: queue_consts)
  let ?s1 = "?s\<lparr>ss_st := st1, ss_own := {128}, ss_act := (ss_act ?s)(0 := Sa_pend 1)\<rparr>"
  let ?s2 = "?s1\<lparr>ss_st := st2, ss_act := (ss_act ?s1)(0 := Sa_idle)\<rparr>"
  let ?s3 = "?s2\<lparr>ss_st := st3, ss_act := (ss_act ?s2)(1 := Sa_got 0 320)\<rparr>"
  let ?s4 = "?s3\<lparr>ss_st := st4, ss_own := ss_own ?s3 \<union> set [64], ss_act := (ss_act ?s3)(1 := Sa_idle),
             ss_held := (ss_held ?s3)(1 := Some (0, 320))\<rparr>"
  have "sch_step ?s ?s1"
    using sch_step.enqueue [where s = ?s and t = 0 and q = 1, OF a(1) _ _ _ _ e1] R1(3) q by (simp add: queue_consts insert_commute)
  moreover have "sch_step ?s1 ?s2"
    using sch_step.publish [where s = ?s1 and t = 0 and q = 1 and p = 0] e2 C1 q by simp
  moreover have "sch_step ?s2 ?s3"
    using sch_step.take_cmd [where s = ?s2 and t = 1 and p = 0] e3 [unfolded ev] a C2 q by simp
  moreover have "sch_step ?s3 ?s4"
    using sch_step.serve [where s = ?s3 and t = 1 and q = 1 and n = 4 and bs = "[64]"] e4 [unfolded r] C1 C2 C3 q by simp
  ultimately have "rtranclp sch_step ?s ?s4" by (meson converse_rtranclp_into_rtranclp rtranclp.rtrancl_refl)
  then show ?thesis by (intro exI [of _ ?s4]) simp
qed

theorem scheduler_safe_witness:
  "\<exists>s E. sch_start sched_example \<and> rtranclp sch_step sched_example s \<and> ss_held s 1 = Some (0, 320) \<and>
     queues_rep (ss_st s) E \<and> events_of E s = {64, 128} \<and> 320 \<notin> set (E 0) \<and>
     ss_held s 0 \<noteq> Some (0, 320) \<and> ss_act s 0 \<noteq> Sa_got 0 320"
proof -
  obtain s where s: "rtranclp sch_step sched_example s" "ss_held s 1 = Some (0, 320)" using sched_example_run by blast
  from scheduler_safe [OF sched_example_start s(1)] obtain E where E: "queues_rep (ss_st s) E" "events_of E s = ss_own sched_example"
    "\<And>t p ev. ss_held s t = Some (p, ev) \<Longrightarrow> ev \<notin> set (E p) \<and>
       (\<forall>u. (u \<noteq> t \<longrightarrow> ss_held s u \<noteq> Some (p, ev)) \<and> ss_act s u \<noteq> Sa_got p ev)" by blast
  have "ss_own sched_example = {64, 128}" by (simp add: sched_example_def)
  with sched_example_start s E(1,2) E(3) [OF s(2)] show ?thesis by (metis zero_neq_one)
qed

end
