(* ===== verification/Odp_Timer.thy ===== *)
theory Odp_Timer
  imports Odp_Sched
begin

unbundle bit_operations_syntax

text \<open>
  Timer pools and timers (\<open>platform/mppa/odp_timer.c\<close> and the tick of
  \<open>platform/mppa/os/nodeos/timer.c\<close>). A pool is known by its index in the table; a queue handle is
  the address of an entry, and \<open>qent\<close> is the entry at an address. A failed assertion or a call of
  \<open>ODP_ABORT\<close> is \<open>None\<close>. The locks make each of the operations on one timer, and on the free list,
  one step.
\<close>

section \<open>Definitions: types\<close>

definition TMO_UNUSED :: u64 where "TMO_UNUSED = 0x7FFFFFFFFFFFFFFF"
definition TMO_INACTIVE :: u64 where "TMO_INACTIVE = 0x4000000000000000"
definition MAX_TIMER_POOLS :: nat where "MAX_TIMER_POOLS = 255"
definition INDEX_BITS :: nat where "INDEX_BITS = 24"
definition ODP_TIMER_INVALID :: u32 where "ODP_TIMER_INVALID = - 1"
definition ODP_TIMER_SUCCESS :: int where "ODP_TIMER_SUCCESS = 0"
definition ODP_TIMER_TOOEARLY :: int where "ODP_TIMER_TOOEARLY = - 1"
definition ODP_TIMER_TOOLATE :: int where "ODP_TIMER_TOOLATE = - 2"
definition ODP_TIMER_NOEVENT :: int where "ODP_TIMER_NOEVENT = - 3"
definition ODP_TIMER_POOL_NAME_LEN :: nat where "ODP_TIMER_POOL_NAME_LEN = 32"
definition ODP_CLOCK_CPU :: int where "ODP_CLOCK_CPU = 0"
definition ODP_SHM_SW_ONLY :: u32 where "ODP_SHM_SW_ONLY = 1"

lemmas timer_consts =
  TMO_UNUSED_def TMO_INACTIVE_def MAX_TIMER_POOLS_def INDEX_BITS_def ODP_TIMER_INVALID_def ODP_TIMER_SUCCESS_def
  ODP_TIMER_TOOEARLY_def ODP_TIMER_TOOLATE_def ODP_TIMER_NOEVENT_def

record tick_buf_t =
  tb_exp_tck :: u64
  tb_tmo_buf :: u32

record odp_timer_s =
  tm_user_ptr :: u32
  tm_queue :: u32

record odp_timer_pool_param_t =
  tpp_res_ns :: u64
  tpp_min_tmo :: u64
  tpp_max_tmo :: u64
  tpp_num_timers :: u32
  tpp_priv :: int
  tpp_clk_src :: int

record odp_timer_pool_s =
  tp_cur_tick :: u64
  tp_min_rel_tck :: u64
  tp_max_rel_tck :: u64
  tp_tick_buf :: "tick_buf_t list"
  tp_timers :: "odp_timer_s list"
  tp_high_wm :: u32
  tp_num_alloc :: u32
  tp_first_free :: u32
  tp_tp_idx :: u32
  tp_param :: odp_timer_pool_param_t
  tp_name :: string
  tp_shm :: u32

text \<open>The fields of a timeout after its buffer header.\<close>

record odp_timeout_hdr_t =
  to_expiration :: u64
  to_user_ptr :: u32
  to_timer :: u32

text \<open>The pool whose clock is the signal of the operating system is \<open>ts_global\<close>.\<close>

record timer_state =
  ts_num_pools :: u32
  ts_pool :: "odp_timer_pool_s option list"
  ts_tmo :: "u32 \<Rightarrow> odp_timeout_hdr_t"
  ts_global :: "nat option"
  ts_st :: odp_state

section \<open>Definitions: timers and handles\<close>

definition timer_init :: "nat \<Rightarrow> u32 \<Rightarrow> u32 \<Rightarrow> odp_timer_pool_s \<Rightarrow> odp_timer_pool_s" where
  "timer_init idx q up tp =
     tp\<lparr>tp_timers := (tp_timers tp)[idx := \<lparr>tm_user_ptr = up, tm_queue = q\<rparr>],
        tp_tick_buf := (tp_tick_buf tp)[idx := \<lparr>tb_exp_tck = TMO_INACTIVE, tb_tmo_buf = 0\<rparr>]\<rparr>"

definition timer_fini :: "nat \<Rightarrow> odp_timer_pool_s \<Rightarrow> odp_timer_pool_s option" where
  "timer_fini idx tp =
     (let tb = tp_tick_buf tp ! idx in
      if tb_exp_tck tb \<noteq> TMO_UNUSED \<or> tb_tmo_buf tb \<noteq> 0 then None
      else Some (tp\<lparr>tp_timers := (tp_timers tp)[idx := \<lparr>tm_user_ptr = 0, tm_queue = 0\<rparr>]\<rparr>))"

definition get_next_free :: "odp_timer_s \<Rightarrow> u32" where "get_next_free tim = tm_queue tim"

definition set_next_free :: "nat \<Rightarrow> u32 \<Rightarrow> odp_timer_pool_s \<Rightarrow> odp_timer_pool_s option" where
  "set_next_free idx nf tp =
     (let tim = tp_timers tp ! idx in
      if tm_queue tim \<noteq> 0 then None
      else Some (tp\<lparr>tp_timers := (tp_timers tp)[idx := tim\<lparr>tm_queue := nf\<rparr>]\<rparr>))"

definition handle_to_tp :: "timer_state \<Rightarrow> u32 \<Rightarrow> (nat \<times> odp_timer_pool_s) option" where
  "handle_to_tp ts hdl =
     (let tp_idx = unat (drop_bit INDEX_BITS hdl) in
      if tp_idx < MAX_TIMER_POOLS then map_option (\<lambda>tp. (tp_idx, tp)) (ts_pool ts ! tp_idx) else None)"

definition handle_to_idx :: "u32 \<Rightarrow> odp_timer_pool_s \<Rightarrow> nat option" where
  "handle_to_idx hdl tp =
     (let idx = hdl AND (push_bit INDEX_BITS 1 - 1) in if idx < tp_high_wm tp then Some (unat idx) else None)"

definition tp_idx_to_handle :: "odp_timer_pool_s \<Rightarrow> nat \<Rightarrow> u32 option" where
  "tp_idx_to_handle tp idx =
     (if idx < 2 ^ INDEX_BITS then Some (push_bit INDEX_BITS (tp_tp_idx tp) OR of_nat idx) else None)"

definition odp_timer_tick_to_ns :: "odp_timer_pool_s \<Rightarrow> u64 \<Rightarrow> u64" where
  "odp_timer_tick_to_ns tp ticks = ticks * tpp_res_ns (tp_param tp)"

definition odp_timer_ns_to_tick :: "odp_timer_pool_s \<Rightarrow> u64 \<Rightarrow> u64" where
  "odp_timer_ns_to_tick tp ns = ns div tpp_res_ns (tp_param tp)"

section \<open>Definitions: pools\<close>

definition upd_pool :: "nat \<Rightarrow> odp_timer_pool_s \<Rightarrow> timer_state \<Rightarrow> timer_state" where
  "upd_pool p tp ts = ts\<lparr>ts_pool := (ts_pool ts)[p := Some tp]\<rparr>"

definition upd_shm :: "odp_shm_table_t \<Rightarrow> timer_state \<Rightarrow> timer_state" where
  "upd_shm tbl ts = ts\<lparr>ts_st := (ts_st ts)\<lparr>os_pools := (os_pools (ts_st ts))\<lparr>pt_shm := tbl\<rparr>\<rparr>\<rparr>"

text \<open>The sizes of the three structures are arguments. The clock of the operating system serves one
  pool; a second one is refused with an abort.\<close>

definition odp_timer_pool_new ::
  "(u32 \<Rightarrow> u32) \<Rightarrow> u32 \<times> u32 \<times> u32 \<Rightarrow> string \<Rightarrow> odp_timer_pool_param_t \<Rightarrow> timer_state \<Rightarrow> (nat option \<times> timer_state) option" where
  "odp_timer_pool_new malloc sizes name param ts =
     (let tp_idx = ts_num_pools ts; (s_pool, s_tick, s_timer) = sizes in
      if unat tp_idx \<ge> MAX_TIMER_POOLS then Some (None, ts)
      else do {
        let sz0 = ODP_ALIGN_ROUNDUP s_pool ODP_CACHE_LINE_SIZE;
        let sz1 = ODP_ALIGN_ROUNDUP (s_tick * tpp_num_timers param) ODP_CACHE_LINE_SIZE;
        let sz2 = ODP_ALIGN_ROUNDUP (s_timer * tpp_num_timers param) ODP_CACHE_LINE_SIZE;
        (shm, tbl) \<leftarrow> odp_shm_reserve malloc (pt_shm (os_pools (ts_st ts))) name (ucast (sz0 + sz1 + sz2)) 64 ODP_SHM_SW_ONLY;
        if shm = ODP_SHM_INVALID then None
        else let n = unat (tpp_num_timers param);
                 tp = \<lparr>tp_cur_tick = 0, tp_min_rel_tck = tpp_min_tmo param div tpp_res_ns param,
                       tp_max_rel_tck = tpp_max_tmo param div tpp_res_ns param,
                       tp_tick_buf = replicate n \<lparr>tb_exp_tck = TMO_UNUSED, tb_tmo_buf = 0\<rparr>,
                       tp_timers = map (\<lambda>i. \<lparr>tm_user_ptr = 0, tm_queue = of_nat (i + 1)\<rparr>) [0..<n],
                       tp_high_wm = 0, tp_num_alloc = 0, tp_first_free = 0, tp_tp_idx = tp_idx, tp_param = param,
                       tp_name = take (ODP_TIMER_POOL_NAME_LEN - 1) name, tp_shm = shm\<rparr>;
                 ts = (upd_shm tbl ts)\<lparr>ts_num_pools := tp_idx + 1, ts_pool := (ts_pool ts)[unat tp_idx := Some tp]\<rparr>
             in if tpp_clk_src param = ODP_CLOCK_CPU
                then (if ts_global ts \<noteq> None then None
                      else Some (Some (unat tp_idx), ts\<lparr>ts_global := Some (unat tp_idx)\<rparr>))
                else Some (Some (unat tp_idx), ts)
      })"

definition odp_timer_pool_create ::
  "(u32 \<Rightarrow> u32) \<Rightarrow> u32 \<times> u32 \<times> u32 \<Rightarrow> string \<Rightarrow> odp_timer_pool_param_t \<Rightarrow> timer_state \<Rightarrow> (nat option \<times> timer_state) option" where
  "odp_timer_pool_create malloc sizes name param ts =
     (if tpp_res_ns param = 0 then Some (None, ts) else odp_timer_pool_new malloc sizes name param ts)"

text \<open>\<open>odp_timer_pool_del\<close>, which is \<open>odp_timer_pool_destroy\<close>; the counter of pools stays.\<close>

definition odp_timer_pool_del :: "nat \<Rightarrow> timer_state \<Rightarrow> timer_state option" where
  "odp_timer_pool_del p ts =
     do {
       tp \<leftarrow> ts_pool ts ! p;
       if tp_num_alloc tp \<noteq> 0 then None
       else do {
         (rc, _, tbl) \<leftarrow> odp_shm_free (pt_shm (os_pools (ts_st ts))) (tp_shm tp);
         if rc \<noteq> 0 then None
         else Some ((upd_shm tbl ts)\<lparr>ts_pool := (ts_pool ts)[p := None],
                       ts_global := (if tpp_clk_src (tp_param tp) = ODP_CLOCK_CPU \<and> ts_global ts = Some p
                                     then None else ts_global ts)\<rparr>)
       }
     }"

definition timer_alloc :: "odp_timer_pool_s \<Rightarrow> u32 \<Rightarrow> u32 \<Rightarrow> (u32 \<times> odp_timer_pool_s) option" where
  "timer_alloc tp queue user_ptr =
     (if tp_num_alloc tp < tpp_num_timers (tp_param tp)
      then let num = tp_num_alloc tp + 1; idx = tp_first_free tp in
        if idx = tpp_num_timers (tp_param tp) then None
        else let tp = tp\<lparr>tp_num_alloc := num, tp_first_free := get_next_free (tp_timers tp ! unat idx)\<rparr>;
                 tp = timer_init (unat idx) queue user_ptr tp;
                 tp = (if num > tp_high_wm tp then tp\<lparr>tp_high_wm := num\<rparr> else tp)
             in map_option (\<lambda>hdl. (hdl, tp)) (tp_idx_to_handle tp (unat idx))
      else Some (ODP_TIMER_INVALID, tp))"

section \<open>Definitions: operations on a timer\<close>

definition timer_cancel :: "odp_timer_pool_s \<Rightarrow> nat \<Rightarrow> u64 \<Rightarrow> u32 \<times> odp_timer_pool_s" where
  "timer_cancel tp idx new_state =
     (tb_tmo_buf (tp_tick_buf tp ! idx),
      tp\<lparr>tp_tick_buf := (tp_tick_buf tp)[idx := \<lparr>tb_exp_tck = new_state, tb_tmo_buf = 0\<rparr>]\<rparr>)"

definition timer_free :: "odp_timer_pool_s \<Rightarrow> nat \<Rightarrow> (u32 \<times> odp_timer_pool_s) option" where
  "timer_free tp idx =
     (let (old_buf, tp) = timer_cancel tp idx TMO_UNUSED in
      do {
        tp \<leftarrow> timer_fini idx tp;
        tp \<leftarrow> set_next_free idx (tp_first_free tp) tp;
        if tp_num_alloc tp = 0 then None
        else Some (old_buf, tp\<lparr>tp_first_free := of_nat idx, tp_num_alloc := tp_num_alloc tp - 1\<rparr>)
      })"

text \<open>The argument \<open>tmo_buf\<close> is \<open>None\<close> for a null pointer, and the result has what the pointer refers
  to afterwards. \<open>ty\<close> is the type of an event.\<close>

definition timer_reset ::
  "(u32 \<Rightarrow> int) \<Rightarrow> nat \<Rightarrow> u64 \<Rightarrow> u32 option \<Rightarrow> odp_timer_pool_s \<Rightarrow> (u32 \<Rightarrow> odp_timeout_hdr_t) \<Rightarrow>
   (bool \<times> u32 option \<times> odp_timer_pool_s \<times> (u32 \<Rightarrow> odp_timeout_hdr_t)) option" where
  "timer_reset ty idx abs_tck tmo_buf tp tmo =
     (let tb = tp_tick_buf tp ! idx in
      if tmo_buf = None \<or> tmo_buf = Some 0
      then if tb_tmo_buf tb \<noteq> 0
           then Some (True, tmo_buf, tp\<lparr>tp_tick_buf := (tp_tick_buf tp)[idx := tb\<lparr>tb_exp_tck := abs_tck\<rparr>]\<rparr>, tmo)
           else Some (False, tmo_buf, tp, tmo)
      else do {
        let b = the tmo_buf;
        tmo \<leftarrow> (if ty b = ODP_EVENT_TIMEOUT
          then map_option (\<lambda>hdl. tmo(b := (tmo b)\<lparr>to_timer := hdl, to_user_ptr := tm_user_ptr (tp_timers tp ! idx)\<rparr>))
                 (tp_idx_to_handle tp idx)
          else Some tmo);
        Some (True, Some (tb_tmo_buf tb),
              tp\<lparr>tp_tick_buf := (tp_tick_buf tp)[idx := \<lparr>tb_exp_tck = abs_tck, tb_tmo_buf = b\<rparr>]\<rparr>, tmo)
      })"

text \<open>The section of \<open>timer_expire\<close> under the lock: the buffer to post, or the null pointer.\<close>

definition timer_grab :: "odp_timer_pool_s \<Rightarrow> nat \<Rightarrow> u64 \<Rightarrow> u32 \<times> odp_timer_pool_s" where
  "timer_grab tp idx tick =
     (let tb = tp_tick_buf tp ! idx in
      if tb_exp_tck tb \<le> tick \<and> tb_tmo_buf tb \<noteq> 0
      then (tb_tmo_buf tb, tp\<lparr>tp_tick_buf := (tp_tick_buf tp)[idx :=
              \<lparr>tb_exp_tck = tb_exp_tck tb OR TMO_INACTIVE, tb_tmo_buf = 0\<rparr>]\<rparr>)
      else (0, tp))"

definition timer_expire ::
  "(odp_state \<Rightarrow> nat \<Rightarrow> u32 list \<Rightarrow> int \<times> odp_state) \<Rightarrow> (u32 \<Rightarrow> nat) \<Rightarrow> nat \<Rightarrow> nat \<Rightarrow> u64 \<Rightarrow> timer_state \<Rightarrow> (nat \<times> timer_state) option" where
  "timer_expire io qent p idx tick ts =
     do {
       tp \<leftarrow> ts_pool ts ! p;
       let exp_tck = tb_exp_tck (tp_tick_buf tp ! idx);
       let (tmo_buf, tp) = timer_grab tp idx tick;
       let ts = upd_pool p tp ts;
       if tmo_buf = 0 then Some (0, ts)
       else do {
         let ts = (if bh_event_type (hdr (ts_st ts) tmo_buf) = ODP_EVENT_TIMEOUT
                   then ts\<lparr>ts_tmo := (ts_tmo ts)(tmo_buf := (ts_tmo ts tmo_buf)\<lparr>to_expiration := exp_tck\<rparr>)\<rparr> else ts);
         (rc, st) \<leftarrow> odp_queue_enq io (ts_st ts) (qent (tm_queue (tp_timers tp ! idx))) tmo_buf;
         if rc \<noteq> 0 then None else Some (1, ts\<lparr>ts_st := st\<rparr>)
       }
     }"

fun expire_scan ::
  "(odp_state \<Rightarrow> nat \<Rightarrow> u32 list \<Rightarrow> int \<times> odp_state) \<Rightarrow> (u32 \<Rightarrow> nat) \<Rightarrow> nat \<Rightarrow> u64 \<Rightarrow> nat list \<Rightarrow> timer_state \<Rightarrow> (nat \<times> timer_state) option" where
  "expire_scan io qent p tick [] ts = Some (0, ts)"
| "expire_scan io qent p tick (i # is) ts =
     do {
       tp \<leftarrow> ts_pool ts ! p;
       (n, ts) \<leftarrow> (if tb_exp_tck (tp_tick_buf tp ! i) \<le> tick then timer_expire io qent p i tick ts else Some (0, ts));
       (nexp, ts) \<leftarrow> expire_scan io qent p tick is ts;
       Some (n + nexp, ts)
     }"

definition odp_timer_pool_expire ::
  "(odp_state \<Rightarrow> nat \<Rightarrow> u32 list \<Rightarrow> int \<times> odp_state) \<Rightarrow> (u32 \<Rightarrow> nat) \<Rightarrow> nat \<Rightarrow> u64 \<Rightarrow> timer_state \<Rightarrow> (nat \<times> timer_state) option" where
  "odp_timer_pool_expire io qent p tick ts =
     do {
       tp \<leftarrow> ts_pool ts ! p;
       if tp_high_wm tp > tpp_num_timers (tp_param tp) then None
       else expire_scan io qent p tick [0..<unat (tp_high_wm tp)] ts
     }"

text \<open>The tick. The argument \<open>got\<close> is the result of the attempt to take the lock that keeps two scans apart: when another scan is
  running, the tick is only counted.\<close>

definition timer_notify ::
  "(odp_state \<Rightarrow> nat \<Rightarrow> u32 list \<Rightarrow> int \<times> odp_state) \<Rightarrow> (u32 \<Rightarrow> nat) \<Rightarrow> bool \<Rightarrow> timer_state \<Rightarrow> timer_state option" where
  "timer_notify io qent got ts =
     do {
       p \<leftarrow> ts_global ts;
       tp \<leftarrow> ts_pool ts ! p;
       let prev_tick = tp_cur_tick tp;
       let ts = upd_pool p (tp\<lparr>tp_cur_tick := prev_tick + 1\<rparr>) ts;
       if got then map_option snd (odp_timer_pool_expire io qent p prev_tick ts) else Some ts
     }"

section \<open>Definitions: the interface\<close>

definition odp_timer_current_tick :: "odp_timer_pool_s \<Rightarrow> u64" where "odp_timer_current_tick tp = tp_cur_tick tp"

definition odp_timer_pool_info :: "odp_timer_pool_s \<Rightarrow> odp_timer_pool_param_t \<times> u32 \<times> u32 \<times> string" where
  "odp_timer_pool_info tp = (tp_param tp, tp_num_alloc tp, tp_high_wm tp, tp_name tp)"

definition odp_timer_alloc :: "nat \<Rightarrow> u32 \<Rightarrow> u32 \<Rightarrow> timer_state \<Rightarrow> (u32 \<times> timer_state) option" where
  "odp_timer_alloc p queue user_ptr ts =
     (if queue = 0 then None
      else do {
        tp \<leftarrow> ts_pool ts ! p;
        (hdl, tp) \<leftarrow> timer_alloc tp queue user_ptr;
        Some (hdl, upd_pool p tp ts)
      })"

definition odp_timer_free :: "u32 \<Rightarrow> timer_state \<Rightarrow> (u32 \<times> timer_state) option" where
  "odp_timer_free hdl ts =
     do {
       (p, tp) \<leftarrow> handle_to_tp ts hdl;
       idx \<leftarrow> handle_to_idx hdl tp;
       (old_buf, tp) \<leftarrow> timer_free tp idx;
       Some (old_buf, upd_pool p tp ts)
     }"

definition timer_set :: "nat \<Rightarrow> nat \<Rightarrow> u64 \<Rightarrow> u32 option \<Rightarrow> odp_timer_pool_s \<Rightarrow> timer_state \<Rightarrow> (int \<times> u32 option \<times> timer_state) option" where
  "timer_set p idx abs_tck tmo_ev tp ts =
     do {
       (ok, ev, tp, tmo) \<leftarrow> timer_reset (\<lambda>b. bh_event_type (hdr (ts_st ts) b)) idx abs_tck tmo_ev tp (ts_tmo ts);
       Some (if ok then ODP_TIMER_SUCCESS else ODP_TIMER_NOEVENT, ev, (upd_pool p tp ts)\<lparr>ts_tmo := tmo\<rparr>)
     }"

definition odp_timer_set_abs :: "u32 \<Rightarrow> u64 \<Rightarrow> u32 option \<Rightarrow> timer_state \<Rightarrow> (int \<times> u32 option \<times> timer_state) option" where
  "odp_timer_set_abs hdl abs_tck tmo_ev ts =
     do {
       (p, tp) \<leftarrow> handle_to_tp ts hdl;
       idx \<leftarrow> handle_to_idx hdl tp;
       let cur_tick = tp_cur_tick tp;
       if abs_tck < cur_tick + tp_min_rel_tck tp then Some (ODP_TIMER_TOOEARLY, tmo_ev, ts)
       else if abs_tck > cur_tick + tp_max_rel_tck tp then Some (ODP_TIMER_TOOLATE, tmo_ev, ts)
       else timer_set p idx abs_tck tmo_ev tp ts
     }"

definition odp_timer_set_rel :: "u32 \<Rightarrow> u64 \<Rightarrow> u32 option \<Rightarrow> timer_state \<Rightarrow> (int \<times> u32 option \<times> timer_state) option" where
  "odp_timer_set_rel hdl rel_tck tmo_ev ts =
     do {
       (p, tp) \<leftarrow> handle_to_tp ts hdl;
       idx \<leftarrow> handle_to_idx hdl tp;
       let abs_tck = tp_cur_tick tp + rel_tck;
       if rel_tck < tp_min_rel_tck tp then Some (ODP_TIMER_TOOEARLY, tmo_ev, ts)
       else if rel_tck > tp_max_rel_tck tp then Some (ODP_TIMER_TOOLATE, tmo_ev, ts)
       else timer_set p idx abs_tck tmo_ev tp ts
     }"

text \<open>The event is \<open>None\<close> when the timer has expired already.\<close>

definition odp_timer_cancel :: "u32 \<Rightarrow> timer_state \<Rightarrow> (int \<times> u32 option \<times> timer_state) option" where
  "odp_timer_cancel hdl ts =
     do {
       (p, tp) \<leftarrow> handle_to_tp ts hdl;
       idx \<leftarrow> handle_to_idx hdl tp;
       let (old_buf, tp) = timer_cancel tp idx TMO_INACTIVE;
       Some (if old_buf \<noteq> 0 then (0, Some old_buf, upd_pool p tp ts) else (- 1, None, upd_pool p tp ts))
     }"

definition odp_timeout_from_event :: "timer_state \<Rightarrow> u32 \<Rightarrow> u32 option" where
  "odp_timeout_from_event ts ev = (if bh_event_type (hdr (ts_st ts) ev) \<noteq> ODP_EVENT_TIMEOUT then None else Some ev)"

definition odp_timeout_fresh :: "u32 \<Rightarrow> timer_state \<Rightarrow> bool option" where
  "odp_timeout_fresh tmo ts =
     do {
       let h = ts_tmo ts tmo;
       (p, tp) \<leftarrow> handle_to_tp ts (to_timer h);
       idx \<leftarrow> handle_to_idx (to_timer h) tp;
       Some (to_expiration h = tb_exp_tck (tp_tick_buf tp ! idx) AND NOT TMO_INACTIVE)
     }"

definition odp_timeout_timer :: "u32 \<Rightarrow> timer_state \<Rightarrow> u32" where "odp_timeout_timer tmo ts = to_timer (ts_tmo ts tmo)"
definition odp_timeout_tick :: "u32 \<Rightarrow> timer_state \<Rightarrow> u64" where "odp_timeout_tick tmo ts = to_expiration (ts_tmo ts tmo)"
definition odp_timeout_user_ptr :: "u32 \<Rightarrow> timer_state \<Rightarrow> u32" where "odp_timeout_user_ptr tmo ts = to_user_ptr (ts_tmo ts tmo)"

definition odp_timeout_alloc :: "nat \<Rightarrow> timer_state \<Rightarrow> (u32 \<times> timer_state) option" where
  "odp_timeout_alloc pool ts =
     do {
       (buf, t) \<leftarrow> odp_buffer_alloc (os_pools (ts_st ts)) pool;
       let ts = ts\<lparr>ts_st := (ts_st ts)\<lparr>os_pools := t\<rparr>\<rparr>;
       if buf = 0 then Some (0, ts) else map_option (\<lambda>tmo. (tmo, ts)) (odp_timeout_from_event ts buf)
     }"

definition odp_timeout_free :: "u32 \<Rightarrow> timer_state \<Rightarrow> timer_state option" where
  "odp_timeout_free tmo ts =
     map_option (\<lambda>t. ts\<lparr>ts_st := (ts_st ts)\<lparr>os_pools := t\<rparr>\<rparr>) (odp_buffer_free (os_pools (ts_st ts)) tmo)"

definition odp_timer_init_global :: "timer_state \<Rightarrow> timer_state" where
  "odp_timer_init_global ts = ts\<lparr>ts_num_pools := 0\<rparr>"

section \<open>Well-formed pools\<close>

text \<open>
  The free timers form a list: those that have been used and freed, followed by those that have never been used,
  in order; \<open>A\<close> is the set of the timers in use. The first \<open>tp_high_wm\<close> timers have been used.
\<close>

definition tp_next :: "odp_timer_s list \<Rightarrow> nat \<Rightarrow> nat option" where
  "tp_next tms i = Some (unat (tm_queue (tms ! i)))"

abbreviation tp_num :: "odp_timer_pool_s \<Rightarrow> nat" where "tp_num tp \<equiv> unat (tpp_num_timers (tp_param tp))"

definition tp_free_list :: "odp_timer_pool_s \<Rightarrow> nat set \<Rightarrow> nat list \<Rightarrow> bool" where
  "tp_free_list tp A xs \<longleftrightarrow> distinct xs \<and> A \<union> set xs = {..<unat (tp_high_wm tp)} \<and> A \<inter> set xs = {} \<and>
     chain (tp_next (tp_timers tp)) (Some (unat (tp_first_free tp))) (xs @ [unat (tp_high_wm tp)..<tp_num tp]) (Some (tp_num tp))"

definition tp_rep :: "odp_timer_pool_s \<Rightarrow> nat set \<Rightarrow> bool" where
  "tp_rep tp A \<longleftrightarrow> length (tp_timers tp) = tp_num tp \<and> length (tp_tick_buf tp) = tp_num tp \<and> tp_num tp \<le> 2 ^ INDEX_BITS \<and>
     unat (tp_tp_idx tp) < MAX_TIMER_POOLS \<and> unat (tp_high_wm tp) \<le> tp_num tp \<and> unat (tp_num_alloc tp) = card A \<and>
     (\<exists>xs. tp_free_list tp A xs) \<and>
     (\<forall>i < tp_num tp. i \<notin> A \<longrightarrow> tp_tick_buf tp ! i = \<lparr>tb_exp_tck = TMO_UNUSED, tb_tmo_buf = 0\<rparr>)"

lemma tp_repD:
  assumes "tp_rep tp A"
  shows "length (tp_timers tp) = tp_num tp" "length (tp_tick_buf tp) = tp_num tp" "tp_num tp \<le> 2 ^ INDEX_BITS"
    "unat (tp_tp_idx tp) < MAX_TIMER_POOLS" "unat (tp_high_wm tp) \<le> tp_num tp" "unat (tp_num_alloc tp) = card A"
    "i < tp_num tp \<Longrightarrow> i \<notin> A \<Longrightarrow> tp_tick_buf tp ! i = \<lparr>tb_exp_tck = TMO_UNUSED, tb_tmo_buf = 0\<rparr>"
    "i \<in> A \<Longrightarrow> i < unat (tp_high_wm tp)" "finite A" "i \<in> A \<Longrightarrow> i < tp_num tp"
proof -
  obtain xs where "A \<union> set xs = {..<unat (tp_high_wm tp)}" using assms by (auto simp: tp_rep_def tp_free_list_def)
  then have hw: "A \<subseteq> {..<unat (tp_high_wm tp)}" by blast
  then show "finite A" "i \<in> A \<Longrightarrow> i < unat (tp_high_wm tp)" by (auto intro: finite_subset)
  show "i \<in> A \<Longrightarrow> i < tp_num tp" using hw assms by (auto simp: tp_rep_def)
qed (use assms in \<open>auto simp: tp_rep_def\<close>)

lemma tp_repI:
  assumes "length (tp_timers tp) = tp_num tp" "length (tp_tick_buf tp) = tp_num tp" "tp_num tp \<le> 2 ^ INDEX_BITS"
    "unat (tp_tp_idx tp) < MAX_TIMER_POOLS" "unat (tp_high_wm tp) \<le> tp_num tp" "unat (tp_num_alloc tp) = card A"
    "tp_free_list tp A xs"
    "\<And>i. i < tp_num tp \<Longrightarrow> i \<notin> A \<Longrightarrow> tp_tick_buf tp ! i = \<lparr>tb_exp_tck = TMO_UNUSED, tb_tmo_buf = 0\<rparr>"
  shows "tp_rep tp A"
  using assms unfolding tp_rep_def by blast

lemma chain_upt: "a \<le> n \<Longrightarrow> (\<And>i. a \<le> i \<Longrightarrow> i < n \<Longrightarrow> nx i = Some (Suc i)) \<Longrightarrow> chain nx (Some a) [a..<n] (Some n)"
proof (induction "n - a" arbitrary: a)
  case (Suc m)
  then have "[a..<n] = a # [Suc a..<n]" by (simp add: upt_rec)
  then show ?case using Suc by simp
qed simp

lemma card_free: "tp_free_list tp A xs \<Longrightarrow> card A + length xs = unat (tp_high_wm tp)"
  unfolding tp_free_list_def by (metis card_Un_disjoint card_lessThan distinct_card finite_Un finite_lessThan)

text \<open>A new pool.\<close>

lemma tp_rep_new:
  assumes "unat n \<le> 2 ^ INDEX_BITS" "unat tp_idx < MAX_TIMER_POOLS" "tpp_num_timers param = n"
  shows "tp_rep \<lparr>tp_cur_tick = c, tp_min_rel_tck = mn, tp_max_rel_tck = mx,
     tp_tick_buf = replicate (unat n) \<lparr>tb_exp_tck = TMO_UNUSED, tb_tmo_buf = 0\<rparr>,
     tp_timers = map (\<lambda>i. \<lparr>tm_user_ptr = 0, tm_queue = of_nat (i + 1)\<rparr>) [0..<unat n],
     tp_high_wm = 0, tp_num_alloc = 0, tp_first_free = 0, tp_tp_idx = tp_idx, tp_param = param, tp_name = nm, tp_shm = shm\<rparr> {}"
proof -
  have "chain (tp_next (map (\<lambda>i. \<lparr>tm_user_ptr = 0, tm_queue = of_nat (i + 1)\<rparr>) [0..<unat n])) (Some 0) [0..<unat n] (Some (unat n))"
  proof (rule chain_upt)
    fix i assume "i < unat n"
    moreover have "unat (of_nat (i + 1) :: u32) = i + 1" using calculation assms(1)
      by (intro unat_of_nat_small) (simp add: INDEX_BITS_def)
    ultimately show "tp_next (map (\<lambda>i. \<lparr>tm_user_ptr = 0, tm_queue = of_nat (i + 1)\<rparr>) [0..<unat n]) i = Some (Suc i)"
      by (simp add: tp_next_def)
  qed simp
  then have "tp_free_list \<lparr>tp_cur_tick = c, tp_min_rel_tck = mn, tp_max_rel_tck = mx,
     tp_tick_buf = replicate (unat n) \<lparr>tb_exp_tck = TMO_UNUSED, tb_tmo_buf = 0\<rparr>,
     tp_timers = map (\<lambda>i. \<lparr>tm_user_ptr = 0, tm_queue = of_nat (i + 1)\<rparr>) [0..<unat n],
     tp_high_wm = 0, tp_num_alloc = 0, tp_first_free = 0, tp_tp_idx = tp_idx, tp_param = param, tp_name = nm, tp_shm = shm\<rparr> {} []"
    using assms(3) by (simp add: tp_free_list_def)
  then show ?thesis using assms unfolding tp_rep_def by (auto intro: exI [of _ "[]"])
qed

text \<open>A change of the tick buffer of a timer in use.\<close>

lemma tp_rep_tick:
  assumes "tp_rep tp A" "i \<in> A"
  shows "tp_rep (tp\<lparr>tp_tick_buf := (tp_tick_buf tp)[i := tb]\<rparr>) A"
proof -
  have "(tp_tick_buf tp)[i := tb] ! j = tp_tick_buf tp ! j" if "j \<notin> A" for j using that assms(2) by (metis nth_list_update_neq)
  then show ?thesis using assms unfolding tp_rep_def tp_free_list_def by simp
qed

lemma tp_rep_cur [simp]: "tp_rep (tp\<lparr>tp_cur_tick := c\<rparr>) A = tp_rep tp A"
  by (simp add: tp_rep_def tp_free_list_def)

text \<open>Handles of timers.\<close>

lemma bit_less:
  fixes w :: u32
  assumes "unat w < 2 ^ n" "bit w k"
  shows "k < n"
proof (rule ccontr)
  assume "\<not> k < n"
  then have "unat w < 2 ^ k" using assms(1) by (meson le_less_trans less_le_trans linorder_not_less one_le_numeral power_increasing)
  moreover have "bit (unat w) k" using assms(2) by (simp add: bit_unsigned_iff bit_imp_le_length)
  ultimately show False by (simp add: bit_iff_odd)
qed

lemma handle_word:
  fixes p i :: u32
  assumes "unat p < 256" "unat i < 2 ^ 24"
  shows "drop_bit 24 (push_bit 24 p OR i) = p" "(push_bit 24 p OR i) AND (push_bit 24 1 - 1) = i"
proof -
  have bp: "bit p k \<Longrightarrow> k < 8" for k using bit_less [of p 8 k] assms(1) by simp
  have bi: "bit i k \<Longrightarrow> k < 24" for k using bit_less [of i 24 k] assms(2) by simp
  have m: "push_bit 24 1 - 1 = (Bit_Operations.mask 24 :: u32)" by (simp add: mask_eq_exp_minus_1 push_bit_eq_mult)
  show "drop_bit 24 (push_bit 24 p OR i) = p" "(push_bit 24 p OR i) AND (push_bit 24 1 - 1) = i"
    unfolding m using bp bi by (auto simp: bit_eq_iff bit_simps dest: bp bi)
qed

definition tp_hdl :: "odp_timer_pool_s \<Rightarrow> nat \<Rightarrow> u32" where
  "tp_hdl tp i = push_bit INDEX_BITS (tp_tp_idx tp) OR of_nat i"

lemma timer_handle:
  assumes "tp_rep tp A" "i < tp_num tp"
  shows "tp_idx_to_handle tp i = Some (tp_hdl tp i)" "i \<in> A \<Longrightarrow> handle_to_idx (tp_hdl tp i) tp = Some i"
    "drop_bit INDEX_BITS (tp_hdl tp i) = tp_tp_idx tp" "tp_hdl tp i \<noteq> ODP_TIMER_INVALID"
proof -
  note R = tp_repD [OF assms(1)]
  have i: "i < 2 ^ 24" using R(3) assms(2) by (simp add: INDEX_BITS_def)
  then show "tp_idx_to_handle tp i = Some (tp_hdl tp i)" by (simp add: tp_idx_to_handle_def tp_hdl_def INDEX_BITS_def)
  have u: "unat (of_nat i :: u32) = i" using i by (intro unat_of_nat_small) simp
  have p: "unat (tp_tp_idx tp) < 255" using R(4) by (simp add: MAX_TIMER_POOLS_def)
  have W: "drop_bit 24 (push_bit 24 (tp_tp_idx tp) OR of_nat i) = tp_tp_idx tp"
    "(push_bit 24 (tp_tp_idx tp) OR of_nat i) AND (push_bit 24 1 - 1) = (of_nat i :: u32)"
    using handle_word [of "tp_tp_idx tp" "of_nat i"] p i u by simp_all
  show d: "drop_bit INDEX_BITS (tp_hdl tp i) = tp_tp_idx tp" using W(1) by (simp add: tp_hdl_def INDEX_BITS_def)
  show "handle_to_idx (tp_hdl tp i) tp = Some i" if "i \<in> A"
    using W(2) R(8) [OF that] u unfolding handle_to_idx_def tp_hdl_def INDEX_BITS_def by (simp add: word_less_nat_alt)
  show "tp_hdl tp i \<noteq> ODP_TIMER_INVALID"
  proof
    assume "tp_hdl tp i = ODP_TIMER_INVALID"
    then have "unat (tp_tp_idx tp) = unat (drop_bit 24 (- 1 :: u32))" using d by (simp add: ODP_TIMER_INVALID_def INDEX_BITS_def)
    then show False using p by (simp add: mask_eq_exp_minus_1)
  qed
qed

lemma tp_hdl_inj:
  assumes "tp_rep tp A" "i \<in> A" "j \<in> A" "tp_hdl tp i = tp_hdl tp j"
  shows "i = j"
  using timer_handle(2) [OF assms(1)] tp_repD(10) [OF assms(1)] assms(2-4) by (metis option.inject)

text \<open>A timer is taken from the front of the free list.\<close>

lemma timer_alloc_rep:
  assumes rep: "tp_rep tp A" and more: "card A < tp_num tp"
  shows "\<exists>i tp'. i < tp_num tp \<and> i \<notin> A \<and> timer_alloc tp q up = Some (tp_hdl tp' i, tp') \<and> tp_rep tp' (insert i A) \<and>
    tp_tp_idx tp' = tp_tp_idx tp \<and> tp_param tp' = tp_param tp \<and> tp_cur_tick tp' = tp_cur_tick tp \<and>
    tp_min_rel_tck tp' = tp_min_rel_tck tp \<and> tp_max_rel_tck tp' = tp_max_rel_tck tp \<and>
    tp_timers tp' = (tp_timers tp)[i := \<lparr>tm_user_ptr = up, tm_queue = q\<rparr>] \<and>
    tp_tick_buf tp' = (tp_tick_buf tp)[i := \<lparr>tb_exp_tck = TMO_INACTIVE, tb_tmo_buf = 0\<rparr>]"
proof -
  note R = tp_repD [OF rep]
  let ?hw = "unat (tp_high_wm tp)" and ?n = "tp_num tp" and ?i = "unat (tp_first_free tp)"
  obtain xs where xs: "tp_free_list tp A xs" using rep by (auto simp: tp_rep_def)
  then have X: "distinct xs" "A \<union> set xs = {..<?hw}" "A \<inter> set xs = {}"
    and ch: "chain (tp_next (tp_timers tp)) (Some ?i) (xs @ [?hw..<?n]) (Some ?n)" by (simp_all add: tp_free_list_def)
  note cd = card_free [OF xs]
  have na: "unat (tp_num_alloc tp + 1) = card A + 1"
    using unat_Suc_small [of "tp_num_alloc tp"] R(3,6) more by (simp add: INDEX_BITS_def)
  define hw' where "hw' = (if xs = [] then Suc ?hw else ?hw)"
  have ne: "xs @ [?hw..<?n] \<noteq> []" using cd R(5) more by auto
  have hw': "unat (if tp_num_alloc tp + 1 > tp_high_wm tp then tp_num_alloc tp + 1 else tp_high_wm tp) = hw'" "hw' \<le> ?n"
    using cd na R(5) more by (cases xs; simp add: hw'_def word_less_nat_alt)+
  have L: "xs @ [?hw..<?n] = ?i # tl xs @ [hw'..<?n]"
  proof (cases xs)
    case Nil
    then have "?hw < ?n" using ne by simp
    then have "[?hw..<?n] = ?hw # [Suc ?hw..<?n]" by (rule upt_conv_Cons)
    then show ?thesis using ch Nil by (simp add: hw'_def)
  qed (use ch in \<open>auto simp: hw'_def\<close>)
  have dL: "distinct (?i # tl xs @ [hw'..<?n])" using X L unfolding L [symmetric] by auto
  have iL: "?i \<in> set (xs @ [?hw..<?n])" unfolding L by simp
  then have i: "?i < ?n" "?i \<notin> A" using X R(5) R(8) [of ?i] by auto
  have st: "insert ?i A \<union> set (tl xs) = {..<hw'}" "insert ?i A \<inter> set (tl xs) = {}"
  proof -
    have "?i = (case xs of [] \<Rightarrow> ?hw | x # _ \<Rightarrow> x)" using arg_cong [OF L, of hd] ne by (cases xs) auto
    then show "insert ?i A \<union> set (tl xs) = {..<hw'}" "insert ?i A \<inter> set (tl xs) = {}"
      using X by (cases xs; auto simp: hw'_def)+
  qed
  let ?tms = "(tp_timers tp)[?i := \<lparr>tm_user_ptr = up, tm_queue = q\<rparr>]"
  have "chain (tp_next (tp_timers tp)) (tp_next (tp_timers tp) ?i) (tl xs @ [hw'..<?n]) (Some ?n)" using ch unfolding L by simp
  moreover have "chain (tp_next ?tms) (tp_next (tp_timers tp) ?i) (tl xs @ [hw'..<?n]) (Some ?n) =
    chain (tp_next (tp_timers tp)) (tp_next (tp_timers tp) ?i) (tl xs @ [hw'..<?n]) (Some ?n)"
  proof (rule chain_cong)
    fix a assume "a \<in> set (tl xs @ [hw'..<?n])"
    then have "a \<noteq> ?i" using dL by (metis distinct.simps(2))
    then show "tp_next ?tms a = tp_next (tp_timers tp) a" by (simp add: tp_next_def)
  qed
  ultimately have ch': "chain (tp_next ?tms) (Some (unat (tm_queue (tp_timers tp ! ?i)))) (tl xs @ [hw'..<?n]) (Some ?n)"
    by (simp add: tp_next_def)
  define tp0 where "tp0 = timer_init ?i q up
    (tp\<lparr>tp_num_alloc := tp_num_alloc tp + 1, tp_first_free := get_next_free (tp_timers tp ! ?i)\<rparr>)"
  define tp' where "tp' = (if tp_num_alloc tp + 1 > tp_high_wm tp0 then tp0\<lparr>tp_high_wm := tp_num_alloc tp + 1\<rparr> else tp0)"
  have tp': "tp_timers tp' = ?tms" "tp_tick_buf tp' = (tp_tick_buf tp)[?i := \<lparr>tb_exp_tck = TMO_INACTIVE, tb_tmo_buf = 0\<rparr>]"
    "tp_param tp' = tp_param tp" "tp_tp_idx tp' = tp_tp_idx tp" "tp_num_alloc tp' = tp_num_alloc tp + 1"
    "tp_first_free tp' = tm_queue (tp_timers tp ! ?i)" "unat (tp_high_wm tp') = hw'" "tp_cur_tick tp' = tp_cur_tick tp"
    "tp_min_rel_tck tp' = tp_min_rel_tck tp" "tp_max_rel_tck tp' = tp_max_rel_tck tp"
    using hw'(1) by (simp_all add: tp'_def tp0_def timer_init_def get_next_free_def split: if_splits)
  have "tp_free_list tp' (insert ?i A) (tl xs)"
    unfolding tp_free_list_def tp' using X(1) st ch' by (intro conjI) (simp_all only: distinct_tl)
  then have "tp_rep tp' (insert ?i A)"
  proof (rule tp_repI [rotated 6])
    show "tp_tick_buf tp' ! j = \<lparr>tb_exp_tck = TMO_UNUSED, tb_tmo_buf = 0\<rparr>" if "j < tp_num tp'" "j \<notin> insert ?i A" for j
      using R(7) [of j] that unfolding tp' by simp
  qed (use R(1-6) R(9) i na hw'(2) in \<open>simp_all add: tp'\<close>)
  moreover have "timer_alloc tp q up = Some (tp_hdl tp' ?i, tp')"
  proof -
    have c: "tp_num_alloc tp < tpp_num_timers (tp_param tp)" "tp_first_free tp \<noteq> tpp_num_timers (tp_param tp)" "?i < 2 ^ INDEX_BITS"
      using more i(1) R(3,6) by (auto simp: word_less_nat_alt)
    show ?thesis unfolding timer_alloc_def if_P [OF c(1)] Let_def if_not_P [OF c(2)] tp0_def [symmetric] tp'_def [symmetric]
      by (simp add: tp_idx_to_handle_def tp_hdl_def c(3))
  qed
  ultimately show ?thesis using i tp' by blast
qed

lemma timer_alloc_full: "tp_rep tp A \<Longrightarrow> \<not> card A < tp_num tp \<Longrightarrow> timer_alloc tp q up = Some (ODP_TIMER_INVALID, tp)"
  using tp_repD(6) by (simp add: timer_alloc_def word_less_nat_alt)

text \<open>A timer that is freed becomes the front of the free list.\<close>

lemma timer_free_eq:
  assumes "tp_rep tp A" "i \<in> A"
  shows "timer_free tp i = Some (tb_tmo_buf (tp_tick_buf tp ! i),
    tp\<lparr>tp_tick_buf := (tp_tick_buf tp)[i := \<lparr>tb_exp_tck = TMO_UNUSED, tb_tmo_buf = 0\<rparr>],
       tp_timers := (tp_timers tp)[i := \<lparr>tm_user_ptr = 0, tm_queue = tp_first_free tp\<rparr>],
       tp_first_free := of_nat i, tp_num_alloc := tp_num_alloc tp - 1\<rparr>)"
proof -
  note R = tp_repD [OF assms(1)]
  have "i < length (tp_timers tp)" "i < length (tp_tick_buf tp)" using R(1,2) R(10) [OF assms(2)] by simp_all
  moreover have "tp_num_alloc tp \<noteq> 0" using R(6,9) assms(2) by (auto simp: card_eq_0_iff)
  ultimately show ?thesis by (simp add: timer_free_def timer_cancel_def timer_fini_def set_next_free_def)
qed

lemma timer_free_rep:
  assumes rep: "tp_rep tp A" and i: "i \<in> A" and res: "timer_free tp i = Some (b, tp')"
  shows "tp_rep tp' (A - {i})"
proof -
  note R = tp_repD [OF rep]
  let ?hw = "unat (tp_high_wm tp)" and ?n = "tp_num tp"
  let ?tms = "(tp_timers tp)[i := \<lparr>tm_user_ptr = 0, tm_queue = tp_first_free tp\<rparr>]"
  have tp': "tp_timers tp' = ?tms" "tp_tick_buf tp' = (tp_tick_buf tp)[i := \<lparr>tb_exp_tck = TMO_UNUSED, tb_tmo_buf = 0\<rparr>]"
    "tp_param tp' = tp_param tp" "tp_tp_idx tp' = tp_tp_idx tp" "tp_num_alloc tp' = tp_num_alloc tp - 1"
    "tp_first_free tp' = of_nat i" "tp_high_wm tp' = tp_high_wm tp"
    using res unfolding timer_free_eq [OF rep i] by auto
  obtain xs where X: "distinct xs" "A \<union> set xs = {..<?hw}" "A \<inter> set xs = {}"
    "chain (tp_next (tp_timers tp)) (Some (unat (tp_first_free tp))) (xs @ [?hw..<?n]) (Some ?n)"
    using rep by (auto simp only: tp_rep_def tp_free_list_def)
  have il: "i < ?n" "i < ?hw" using R(8,10) i by auto
  have u: "unat (of_nat i :: u32) = i" using R(3) il by (intro unat_of_nat_small) (simp add: INDEX_BITS_def)
  have ni: "i \<notin> set (xs @ [?hw..<?n])" using X(3) i il by auto
  have "chain (tp_next ?tms) (Some (unat (tp_first_free tp))) (xs @ [?hw..<?n]) (Some ?n) =
    chain (tp_next (tp_timers tp)) (Some (unat (tp_first_free tp))) (xs @ [?hw..<?n]) (Some ?n)"
  proof (rule chain_cong)
    fix a assume "a \<in> set (xs @ [?hw..<?n])"
    then have "a \<noteq> i" using ni by metis
    then show "tp_next ?tms a = tp_next (tp_timers tp) a" by (simp add: tp_next_def)
  qed
  then have "chain (tp_next ?tms) (Some i) (i # xs @ [?hw..<?n]) (Some ?n)"
    using X(4) il R(1) by (simp only: chain.simps) (simp add: tp_next_def)
  then have fl: "tp_free_list tp' (A - {i}) (i # xs)"
    unfolding tp_free_list_def tp' u using X(1-3) i ni by auto
  have na: "unat (tp_num_alloc tp - 1) = card A - 1"
  proof -
    have "0 < card A" using R(9) i by (auto simp: card_gt_0_iff)
    then show ?thesis using R(6) by (subst unat_sub_small) simp_all
  qed
  show ?thesis
  proof (rule tp_repI [OF _ _ _ _ _ _ fl])
    show "tp_tick_buf tp' ! j = \<lparr>tb_exp_tck = TMO_UNUSED, tb_tmo_buf = 0\<rparr>" if "j < tp_num tp'" "j \<notin> A - {i}" for j
      using R(7) [of j] R(2) that unfolding tp' by (cases "j = i") auto
  qed (use R(1-6) na i in \<open>simp_all add: tp'\<close>)
qed

section \<open>Calls on live handles\<close>

definition ts_ok :: "nat \<Rightarrow> timer_state \<Rightarrow> nat set \<Rightarrow> bool" where
  "ts_ok p ts A \<longleftrightarrow> length (ts_pool ts) = MAX_TIMER_POOLS \<and> p < MAX_TIMER_POOLS \<and>
     (\<exists>tp. ts_pool ts ! p = Some tp \<and> unat (tp_tp_idx tp) = p \<and> tp_rep tp A)"

definition timer_hdl :: "nat \<Rightarrow> nat \<Rightarrow> u32" where
  "timer_hdl p i = push_bit INDEX_BITS (of_nat p) OR of_nat i"

lemma tp_hdl_eq: "unat (tp_tp_idx tp) = p \<Longrightarrow> tp_hdl tp i = timer_hdl p i"
  by (auto simp: tp_hdl_def timer_hdl_def)

lemma ts_okE:
  assumes "ts_ok p ts A"
  obtains tp where "ts_pool ts ! p = Some tp" "unat (tp_tp_idx tp) = p" "tp_rep tp A" "p < length (ts_pool ts)"
  using assms by (auto simp: ts_ok_def)

lemma ts_okI:
  assumes "ts_ok p ts A" "tp_rep tp' A'" "unat (tp_tp_idx tp') = p"
  shows "ts_ok p (upd_pool p tp' ts) A'" "ts_ok p ((upd_pool p tp' ts)\<lparr>ts_tmo := tmo\<rparr>) A'"
  using assms by (auto simp: ts_ok_def upd_pool_def)

lemma live_handle:
  assumes ok: "ts_ok p ts A" and i: "i \<in> A"
  obtains tp where "ts_pool ts ! p = Some tp" "unat (tp_tp_idx tp) = p" "tp_rep tp A"
    "handle_to_tp ts (timer_hdl p i) = Some (p, tp)" "handle_to_idx (timer_hdl p i) tp = Some i"
    "tp_idx_to_handle tp i = Some (timer_hdl p i)"
proof -
  obtain tp where tp: "ts_pool ts ! p = Some tp" "unat (tp_tp_idx tp) = p" "tp_rep tp A" "p < length (ts_pool ts)"
    using ts_okE [OF ok] .
  note H = timer_handle [OF tp(3) tp_repD(10) [OF tp(3) i], unfolded tp_hdl_eq [OF tp(2)]]
  have "handle_to_tp ts (timer_hdl p i) = Some (p, tp)"
    using ok tp(1,2) H(3) by (simp add: handle_to_tp_def ts_ok_def)
  then show thesis using that tp(1-3) H(1) H(2) [OF i] by blast
qed

lemma timer_hdl_inj:
  assumes "ts_ok p ts A" "i \<in> A" "j \<in> A" "timer_hdl p i = timer_hdl p j"
  shows "i = j"
  using ts_okE [OF assms(1)] tp_hdl_inj tp_hdl_eq assms(2-4) by metis

lemma timer_alloc_ok:
  assumes ok: "ts_ok p ts A" and q: "q \<noteq> 0" and tp: "ts_pool ts ! p = Some tp"
  shows "if card A < tp_num tp
    then \<exists>i ts'. i \<notin> A \<and> odp_timer_alloc p q up ts = Some (timer_hdl p i, ts') \<and> timer_hdl p i \<noteq> ODP_TIMER_INVALID \<and>
      timer_hdl p i \<notin> timer_hdl p ` A \<and> ts_ok p ts' (insert i A) \<and> map_option tp_num (ts_pool ts' ! p) = Some (tp_num tp)
    else odp_timer_alloc p q up ts = Some (ODP_TIMER_INVALID, ts)"
proof -
  have R: "unat (tp_tp_idx tp) = p" "tp_rep tp A" "p < length (ts_pool ts)" using ts_okE [OF ok] tp by (metis option.inject)+
  show ?thesis
  proof (cases "card A < tp_num tp")
    case True
    obtain i tp' where i: "i < tp_num tp" "i \<notin> A" "timer_alloc tp q up = Some (tp_hdl tp' i, tp')" "tp_rep tp' (insert i A)"
      "tp_tp_idx tp' = tp_tp_idx tp" "tp_param tp' = tp_param tp" using timer_alloc_rep [OF R(2) True, of q up] by blast
    have idx: "unat (tp_tp_idx tp') = p" using i(5) R(1) by simp
    have ok': "ts_ok p (upd_pool p tp' ts) (insert i A)" by (rule ts_okI(1) [OF ok i(4) idx])
    have "timer_hdl p i \<noteq> ODP_TIMER_INVALID"
      using timer_handle(4) [OF i(4), of i] i(1,6) tp_hdl_eq [OF idx] by simp
    moreover have "timer_hdl p i \<notin> timer_hdl p ` A" using timer_hdl_inj [OF ok', of i] i(2) by blast
    moreover have "odp_timer_alloc p q up ts = Some (timer_hdl p i, upd_pool p tp' ts)"
      using q tp i(3) tp_hdl_eq [OF idx] by (simp add: odp_timer_alloc_def)
    moreover have "map_option tp_num (ts_pool (upd_pool p tp' ts) ! p) = Some (tp_num tp)" using R(3) i(6) by (simp add: upd_pool_def)
    ultimately show ?thesis using True i(2) ok' by auto
  next
    case False
    have "upd_pool p tp ts = ts" using tp by (simp add: upd_pool_def list_update_same_conv [OF R(3)] )
    then show ?thesis using False timer_alloc_full [OF R(2) False] q tp by (simp add: odp_timer_alloc_def)
  qed
qed

lemma timer_free_ok:
  assumes ok: "ts_ok p ts A" and i: "i \<in> A"
  shows "\<exists>b ts'. odp_timer_free (timer_hdl p i) ts = Some (b, ts') \<and> ts_ok p ts' (A - {i}) \<and>
    map_option tp_num (ts_pool ts' ! p) = map_option tp_num (ts_pool ts ! p)"
proof -
  obtain tp where tp: "ts_pool ts ! p = Some tp" "unat (tp_tp_idx tp) = p" "tp_rep tp A"
    "handle_to_tp ts (timer_hdl p i) = Some (p, tp)" "handle_to_idx (timer_hdl p i) tp = Some i" using live_handle [OF ok i] by metis
  obtain b tp' where f: "timer_free tp i = Some (b, tp')" "tp_tp_idx tp' = tp_tp_idx tp" "tp_param tp' = tp_param tp"
    using timer_free_eq [OF tp(3) i] by simp
  have "p < length (ts_pool ts)" using ok by (simp add: ts_ok_def)
  then show ?thesis using f tp ts_okI(1) [OF ok timer_free_rep [OF tp(3) i f(1)]] by (simp add: odp_timer_free_def) (simp add: upd_pool_def)
qed

abbreviation pool_num :: "timer_state \<Rightarrow> nat \<Rightarrow> nat option" where "pool_num ts p \<equiv> map_option tp_num (ts_pool ts ! p)"

lemma timer_set_ok:
  assumes ok: "ts_ok p ts A" and i: "i \<in> A" and tp: "ts_pool ts ! p = Some tp"
  shows "\<exists>r ev' ts'. timer_set p i tck ev tp ts = Some (r, ev', ts') \<and> ts_ok p ts' A \<and> pool_num ts' p = pool_num ts p"
proof -
  obtain tp0 where "ts_pool ts ! p = Some tp0" "unat (tp_tp_idx tp0) = p" "tp_rep tp0 A" "tp_idx_to_handle tp0 i = Some (timer_hdl p i)"
    using live_handle [OF ok i] by metis
  then have R: "unat (tp_tp_idx tp) = p" "tp_rep tp A" "tp_idx_to_handle tp i = Some (timer_hdl p i)" using tp by simp_all
  let ?tb = "tp_tick_buf tp ! i"
  have k: "ts_ok p ((upd_pool p (tp\<lparr>tp_tick_buf := (tp_tick_buf tp)[i := tb]\<rparr>) ts)\<lparr>ts_tmo := tmo\<rparr>) A" for tb tmo
    by (rule ts_okI(2) [OF ok tp_rep_tick [OF R(2) i]]) (simp add: R(1))
  have k1: "pool_num ((upd_pool p (tp\<lparr>tp_tick_buf := (tp_tick_buf tp)[i := tb]\<rparr>) ts)\<lparr>ts_tmo := tmo\<rparr>) p = pool_num ts p" for tb tmo
    using ok tp by (simp add: upd_pool_def ts_ok_def)
  have k0: "ts_ok p ((upd_pool p tp ts)\<lparr>ts_tmo := tmo\<rparr>) A" "pool_num ((upd_pool p tp ts)\<lparr>ts_tmo := tmo\<rparr>) p = pool_num ts p" for tmo
    using ts_okI(2) [OF ok R(2,1)] ok tp by (simp_all add: upd_pool_def ts_ok_def)
  show ?thesis using k k1 k0 R(3) by (simp add: timer_set_def timer_reset_def Let_def)
qed

lemma timer_calls_ok:
  assumes ok: "ts_ok p ts A" and i: "i \<in> A"
  shows "\<exists>r ev' ts'. odp_timer_set_abs (timer_hdl p i) tck ev ts = Some (r, ev', ts') \<and> ts_ok p ts' A \<and> pool_num ts' p = pool_num ts p"
    "\<exists>r ev' ts'. odp_timer_set_rel (timer_hdl p i) tck ev ts = Some (r, ev', ts') \<and> ts_ok p ts' A \<and> pool_num ts' p = pool_num ts p"
    "\<exists>r ev' ts'. odp_timer_cancel (timer_hdl p i) ts = Some (r, ev', ts') \<and> ts_ok p ts' A \<and> pool_num ts' p = pool_num ts p"
proof -
  obtain tp where tp: "ts_pool ts ! p = Some tp" "unat (tp_tp_idx tp) = p" "tp_rep tp A"
    "handle_to_tp ts (timer_hdl p i) = Some (p, tp)" "handle_to_idx (timer_hdl p i) tp = Some i" using live_handle [OF ok i] by metis
  show "\<exists>r ev' ts'. odp_timer_set_abs (timer_hdl p i) tck ev ts = Some (r, ev', ts') \<and> ts_ok p ts' A \<and> pool_num ts' p = pool_num ts p"
    using timer_set_ok [OF ok i tp(1), of tck ev] ok by (simp add: odp_timer_set_abs_def tp(4,5) Let_def)
  show "\<exists>r ev' ts'. odp_timer_set_rel (timer_hdl p i) tck ev ts = Some (r, ev', ts') \<and> ts_ok p ts' A \<and> pool_num ts' p = pool_num ts p"
    using timer_set_ok [OF ok i tp(1), of "tp_cur_tick tp + tck" ev] ok by (simp add: odp_timer_set_rel_def tp(4,5) Let_def)
  have "ts_ok p (upd_pool p (snd (timer_cancel tp i TMO_INACTIVE)) ts) A"
    "pool_num (upd_pool p (snd (timer_cancel tp i TMO_INACTIVE)) ts) p = pool_num ts p"
    using ts_okI(1) [OF ok tp_rep_tick [OF tp(3) i]] tp(1,2) ok by (simp_all add: timer_cancel_def) (simp_all add: upd_pool_def ts_ok_def)
  then show "\<exists>r ev' ts'. odp_timer_cancel (timer_hdl p i) ts = Some (r, ev', ts') \<and> ts_ok p ts' A \<and> pool_num ts' p = pool_num ts p"
    by (simp add: odp_timer_cancel_def tp(4,5) split_beta)
qed

text \<open>The tick changes timers in use only.\<close>

lemma timer_grab_rep:
  assumes "tp_rep tp A" "i < tp_num tp"
  shows "tp_rep (snd (timer_grab tp i tick)) A" "tp_high_wm (snd (timer_grab tp i tick)) = tp_high_wm tp"
    "tp_param (snd (timer_grab tp i tick)) = tp_param tp" "tp_tp_idx (snd (timer_grab tp i tick)) = tp_tp_idx tp"
proof -
  show "tp_rep (snd (timer_grab tp i tick)) A"
    using tp_rep_tick [OF assms(1)] tp_repD(7) [OF assms] assms(1) by (cases "i \<in> A") (auto simp: timer_grab_def Let_def)
qed (auto simp: timer_grab_def Let_def)

lemma timer_expire_pool:
  assumes "timer_expire io qent p i tick ts = Some (n, ts')"
  shows "\<exists>tp. ts_pool ts ! p = Some tp \<and> ts_pool ts' = (ts_pool ts)[p := Some (snd (timer_grab tp i tick))] \<and> ts_global ts' = ts_global ts"
proof -
  obtain tp where tp: "ts_pool ts ! p = Some tp" using assms by (auto simp: timer_expire_def bind_eq_Some_conv)
  obtain b tp' where g: "timer_grab tp i tick = (b, tp')" by fastforce
  show ?thesis using assms by (auto simp: timer_expire_def tp g bind_eq_Some_conv upd_pool_def Let_def split: if_splits)
qed

lemma expire_scan_ok:
  assumes "expire_scan io qent p' tick is ts = Some (n, ts')" "ts_ok p ts A" "\<And>i tp. i \<in> set is \<Longrightarrow> ts_pool ts ! p = Some tp \<Longrightarrow> p' = p \<Longrightarrow> i < tp_num tp"
  shows "ts_ok p ts' A \<and> pool_num ts' p = pool_num ts p"
  using assms
proof (induction "is" arbitrary: ts n ts')
  case (Cons i "is")
  obtain tp' n1 ts1 n2 where s: "ts_pool ts ! p' = Some tp'"
    "(if tb_exp_tck (tp_tick_buf tp' ! i) \<le> tick then timer_expire io qent p' i tick ts else Some (0, ts)) = Some (n1, ts1)"
    "expire_scan io qent p' tick is ts1 = Some (n2, ts')"
    using Cons.prems(1) by (auto simp: bind_eq_Some_conv)
  have k: "ts_ok p ts1 A \<and> pool_num ts1 p = pool_num ts p"
  proof (cases "ts1 = ts")
    case False
    then have e: "ts_pool ts1 = (ts_pool ts)[p' := Some (snd (timer_grab tp' i tick))]"
      using s(1,2) timer_expire_pool [of io qent p' i tick ts n1 ts1] by (auto split: if_splits)
    obtain tp where tp: "ts_pool ts ! p = Some tp" "unat (tp_tp_idx tp) = p" "tp_rep tp A" "p < length (ts_pool ts)"
      using ts_okE [OF Cons.prems(2)] .
    show ?thesis
    proof (cases "p' = p")
      case True
      then have "tp' = tp" using s(1) tp(1) by simp
      moreover have "i < tp_num tp" using Cons.prems(3) [OF _ tp(1) True] by simp
      ultimately show ?thesis using timer_grab_rep [OF tp(3)] tp e True Cons.prems(2) by (simp add: ts_ok_def)
    qed (use e tp Cons.prems(2) in \<open>simp add: ts_ok_def\<close>)
  qed (use Cons.prems(2) in simp)
  have "ts_ok p ts' A \<and> pool_num ts' p = pool_num ts1 p"
  proof (rule Cons.IH [OF s(3)])
    show "j < tp_num tp" if "j \<in> set is" "ts_pool ts1 ! p = Some tp" "p' = p" for j tp
      using k that Cons.prems(3) [of j] by (cases "ts_pool ts ! p") auto
  qed (use k in simp)
  then show ?case using k by simp
qed simp

lemma timer_notify_ok:
  assumes res: "timer_notify io qent got ts = Some ts'" and ok: "ts_ok p ts A"
  shows "ts_ok p ts' A \<and> pool_num ts' p = pool_num ts p"
proof -
  obtain p' tp' where s: "ts_pool ts ! p' = Some tp'"
    "(if got then map_option snd (odp_timer_pool_expire io qent p' (tp_cur_tick tp') (upd_pool p' (tp'\<lparr>tp_cur_tick := tp_cur_tick tp' + 1\<rparr>) ts))
      else Some (upd_pool p' (tp'\<lparr>tp_cur_tick := tp_cur_tick tp' + 1\<rparr>) ts)) = Some ts'"
    using res by (auto simp: timer_notify_def bind_eq_Some_conv Let_def)
  let ?ts = "upd_pool p' (tp'\<lparr>tp_cur_tick := tp_cur_tick tp' + 1\<rparr>) ts"
  have k: "ts_ok p ?ts A" "pool_num ?ts p = pool_num ts p"
    using s(1) ok by (cases "p' = p"; simp add: ts_ok_def upd_pool_def)+
  show ?thesis
  proof (cases got)
    case True
    then obtain n where e: "odp_timer_pool_expire io qent p' (tp_cur_tick tp') ?ts = Some (n, ts')" using s(2) by auto
    obtain tp where tp: "ts_pool ?ts ! p' = Some tp" "\<not> tp_high_wm tp > tpp_num_timers (tp_param tp)"
      "expire_scan io qent p' (tp_cur_tick tp') [0..<unat (tp_high_wm tp)] ?ts = Some (n, ts')"
      using e by (auto simp: odp_timer_pool_expire_def bind_eq_Some_conv split: if_splits)
    have "ts_ok p ts' A \<and> pool_num ts' p = pool_num ?ts p"
      by (rule expire_scan_ok [OF tp(3) k(1)]) (use tp(1,2) in \<open>auto simp: word_less_nat_alt\<close>)
    then show ?thesis using k(2) by simp
  qed (use s(2) k in simp)
qed

text \<open>The calls an application makes on a pool, and the ticks: \<open>H\<close> is the set of the handles it
  has. It calls the functions with handles it has got and not freed.\<close>

inductive tim_step ::
  "(odp_state \<Rightarrow> nat \<Rightarrow> u32 list \<Rightarrow> int \<times> odp_state) \<Rightarrow> (u32 \<Rightarrow> nat) \<Rightarrow> nat \<Rightarrow> timer_state \<times> u32 set \<Rightarrow> timer_state \<times> u32 set \<Rightarrow> bool"
  for io qent p where
  alloc: "odp_timer_alloc p q up ts = Some (h, ts') \<Longrightarrow>
    tim_step io qent p (ts, H) (ts', if h = ODP_TIMER_INVALID then H else insert h H)"
| free: "h \<in> H \<Longrightarrow> odp_timer_free h ts = Some (b, ts') \<Longrightarrow> tim_step io qent p (ts, H) (ts', H - {h})"
| set_abs: "h \<in> H \<Longrightarrow> odp_timer_set_abs h tck ev ts = Some (r, ev', ts') \<Longrightarrow> tim_step io qent p (ts, H) (ts', H)"
| set_rel: "h \<in> H \<Longrightarrow> odp_timer_set_rel h tck ev ts = Some (r, ev', ts') \<Longrightarrow> tim_step io qent p (ts, H) (ts', H)"
| cancel: "h \<in> H \<Longrightarrow> odp_timer_cancel h ts = Some (r, ev', ts') \<Longrightarrow> tim_step io qent p (ts, H) (ts', H)"
| tick: "timer_notify io qent got ts = Some ts' \<Longrightarrow> tim_step io qent p (ts, H) (ts', H)"

definition tim_inv :: "nat \<Rightarrow> nat \<Rightarrow> timer_state \<times> u32 set \<Rightarrow> bool" where
  "tim_inv p n s \<longleftrightarrow> (\<exists>A. ts_ok p (fst s) A \<and> snd s = timer_hdl p ` A) \<and> pool_num (fst s) p = Some n"

lemma tim_inv_step:
  assumes inv: "tim_inv p n s" and st: "tim_step io qent p s s'"
  shows "tim_inv p n s'"
proof -
  obtain ts H where s: "s = (ts, H)" by fastforce
  obtain A where A: "ts_ok p ts A" "H = timer_hdl p ` A" "pool_num ts p = Some n" using inv by (auto simp: tim_inv_def s)
  have live: "\<exists>i \<in> A. h = timer_hdl p i" if "h \<in> H" for h using that A(2) by blast
  from st show ?thesis
  proof (cases rule: tim_step.cases)
    case (alloc q up ts0 h ts' H0)
    obtain tp where tp: "ts_pool ts ! p = Some tp" using ts_okE [OF A(1)] by metis
    have "q \<noteq> 0" using alloc by (auto simp: odp_timer_alloc_def split: if_splits)
    note K = timer_alloc_ok [OF A(1) this tp, of up]
    show ?thesis
    proof (cases "card A < tp_num tp")
      case True
      then obtain i where "i \<notin> A" "h = timer_hdl p i" "h \<noteq> ODP_TIMER_INVALID" "ts_ok p ts' (insert i A)" "pool_num ts' p = Some (tp_num tp)"
        using K alloc s by auto
      then show ?thesis using alloc(1,2) s A tp by (auto simp: tim_inv_def)
    next
      case False
      then show ?thesis using K alloc s A by (auto simp: tim_inv_def)
    qed
  next
    case (free h H0 ts0 b ts')
    then obtain i where i: "i \<in> A" "h = timer_hdl p i" using live s by auto
    have "timer_hdl p ` A - {timer_hdl p i} = timer_hdl p ` (A - {i})"
      using timer_hdl_inj [OF A(1) _ i(1)] by auto
    then show ?thesis using timer_free_ok [OF A(1) i(1)] free s A i by (auto simp: tim_inv_def)
  next
    case (set_abs h H0 tck ev ts0 r ev' ts')
    then obtain i where i: "i \<in> A" "h = timer_hdl p i" using live s by auto
    then show ?thesis using timer_calls_ok(1) [OF A(1) i(1), of tck ev] set_abs s A by (auto simp: tim_inv_def)
  next
    case (set_rel h H0 tck ev ts0 r ev' ts')
    then obtain i where i: "i \<in> A" "h = timer_hdl p i" using live s by auto
    then show ?thesis using timer_calls_ok(2) [OF A(1) i(1), of tck ev] set_rel s A by (auto simp: tim_inv_def)
  next
    case (cancel h H0 ts0 r ev' ts')
    then obtain i where i: "i \<in> A" "h = timer_hdl p i" using live s by auto
    then show ?thesis using timer_calls_ok(3) [OF A(1) i(1)] cancel s A by (auto simp: tim_inv_def)
  next
    case (tick got ts0 ts' H0)
    then show ?thesis using timer_notify_ok [of io qent got ts ts' p A] s A by (auto simp: tim_inv_def)
  qed
qed

text \<open>A pool that has just been created.\<close>

lemma timer_pool_create_ok:
  assumes res: "odp_timer_pool_create malloc sizes name param ts0 = Some (Some p, ts)"
    and len: "length (ts_pool ts0) = MAX_TIMER_POOLS" and num: "unat (tpp_num_timers param) \<le> 2 ^ INDEX_BITS"
  shows "tim_inv p (unat (tpp_num_timers param)) (ts, {})"
proof -
  define tp where "tp shm = \<lparr>tp_cur_tick = 0, tp_min_rel_tck = tpp_min_tmo param div tpp_res_ns param,
     tp_max_rel_tck = tpp_max_tmo param div tpp_res_ns param,
     tp_tick_buf = replicate (unat (tpp_num_timers param)) \<lparr>tb_exp_tck = TMO_UNUSED, tb_tmo_buf = 0\<rparr>,
     tp_timers = map (\<lambda>i. \<lparr>tm_user_ptr = 0, tm_queue = of_nat (i + 1)\<rparr>) [0..<unat (tpp_num_timers param)],
     tp_high_wm = 0, tp_num_alloc = 0, tp_first_free = 0, tp_tp_idx = ts_num_pools ts0, tp_param = param,
     tp_name = take (ODP_TIMER_POOL_NAME_LEN - 1) name, tp_shm = shm\<rparr>" for shm
  have p: "p = unat (ts_num_pools ts0)" "p < MAX_TIMER_POOLS" "\<exists>shm. ts_pool ts = (ts_pool ts0)[p := Some (tp shm)]"
    using res unfolding odp_timer_pool_create_def odp_timer_pool_new_def tp_def
    by (auto simp: bind_eq_Some_conv Let_def upd_shm_def split: if_splits prod.splits)
  then obtain shm where e: "ts_pool ts = (ts_pool ts0)[p := Some (tp shm)]" by blast
  have "tp_rep (tp shm) {}" unfolding tp_def by (rule tp_rep_new [OF num _ refl]) (use p in simp)
  then have "ts_ok p ts {}" using e p(1,2) len by (simp add: ts_ok_def) (simp add: tp_def)
  moreover have "pool_num ts p = Some (unat (tpp_num_timers param))" using e p(2) len by (simp add: tp_def)
  ultimately show ?thesis by (auto simp: tim_inv_def)
qed

section \<open>What a tick delivers\<close>

text \<open>An event is enqueued to a polled queue.\<close>

lemma queue_enq_poll:
  assumes rep: "queues_rep st E" and q: "q < length (os_queue st)" "qe_type (qe st q) = ODP_QUEUE_TYPE_POLL"
      "qe_status (qe st q) = QUEUE_STATUS_READY"
    and b: "b \<noteq> 0" "\<forall>p < length (os_queue st). b \<notin> set (E p)" "bh_origin_qe (hdr st b) = None" "sl_origin_qe (os_local st) = None"
  shows "\<exists>st'. odp_queue_enq io st q b = Some (0, st') \<and> queues_rep st' (E(q := E q @ [b])) \<and> same_config st st' \<and>
    (\<forall>p < length (os_queue st). qe_status (qe st' p) = qe_status (qe st p)) \<and> sl_origin_qe (os_local st') = None \<and>
    (\<forall>a. bh_origin_qe (hdr st' a) = bh_origin_qe (hdr st a) \<and> bh_event_type (hdr st' a) = bh_event_type (hdr st a))"
proof -
  obtain order st1 where o: "get_queue_order st b = ((None, order), st1)" "os_queue st1 = os_queue st"
    "os_sched st1 = os_sched st" "hdr st1 = hdr st" "sl_origin_qe (os_local st1) = None" "os_cmd st1 = os_cmd st"
    using get_queue_order_none [OF b(3,4)] .
  have rep1: "queues_rep st1 E" unfolding queues_rep_def o(2)
  proof (intro conjI allI impI)
    show "queue_rep st1 p (E p)" if "p < length (os_queue st)" for p
      by (rule queue_rep_cong) (use rep that o(2,4) in \<open>auto simp: queues_rep_def nexts_def\<close>)
    show "set (E p) \<inter> set (E r) = {}" if "p < length (os_queue st)" "r < length (os_queue st)" "p \<noteq> r" for p r
      by (rule queues_rep_disjoint [OF rep that])
  qed
  obtain sched st' where u: "queue_enq_update st1 q b b (qe_status (qe st1 q)) = (sched, st')" by fastforce
  note U = queues_rep_enq_fresh [OF rep1 _ b(1) _ u, unfolded o(2), OF q(1) b(2)]
  have sc: "\<not> sched" using U(3) q(3) by (simp add: queue_consts)
  have c: "same_config st st'" using U(2) unfolding same_config_def o(2,3,6) .
  have "odp_queue_enq io st q b = Some (0, st')"
    using q(2,3) u sc o(1,2) unfolding odp_queue_enq_def queue_enq_def by (subst queue_do.simps) (simp add: queue_consts)
  moreover have "bh_origin_qe (hdr st' a) = bh_origin_qe (hdr st1 a)" "bh_event_type (hdr st' a) = bh_event_type (hdr st1 a)" for a
    using u by (auto simp: queue_enq_update_def Let_def hdr_def upd_buf_def upd_hdr_def upd_qe_def split: tail_ptr.splits if_splits)
  moreover have "os_local st' = os_local st1" using queue_enq_update_frame(1) [OF u] q(1) o(2) by simp
  ultimately show ?thesis using U(1,4) sc c o(4,5) by auto
qed

definition due :: "odp_timer_pool_s \<Rightarrow> u64 \<Rightarrow> nat \<Rightarrow> bool" where
  "due tp tick i \<longleftrightarrow> tb_exp_tck (tp_tick_buf tp ! i) \<le> tick \<and> tb_tmo_buf (tp_tick_buf tp ! i) \<noteq> 0"

abbreviation tmo_of :: "odp_timer_pool_s \<Rightarrow> nat \<Rightarrow> u32" where "tmo_of tp i \<equiv> tb_tmo_buf (tp_tick_buf tp ! i)"

text \<open>The destination of the timers \<open>is\<close> are polled queues, and their timeouts are in no queue.\<close>

definition targets_ok :: "(u32 \<Rightarrow> nat) \<Rightarrow> odp_timer_pool_s \<Rightarrow> u64 \<Rightarrow> nat list \<Rightarrow> odp_state \<Rightarrow> (nat \<Rightarrow> u32 list) \<Rightarrow> bool" where
  "targets_ok qent tp tick is st E \<longleftrightarrow> sl_origin_qe (os_local st) = None \<and>
     distinct (map (tmo_of tp) (filter (due tp tick) is)) \<and>
     (\<forall>i \<in> set is. due tp tick i \<longrightarrow>
        (let q = qent (tm_queue (tp_timers tp ! i)) in q < length (os_queue st) \<and> qe_type (qe st q) = ODP_QUEUE_TYPE_POLL \<and>
           qe_status (qe st q) = QUEUE_STATUS_READY) \<and>
        (\<forall>p < length (os_queue st). tmo_of tp i \<notin> set (E p)) \<and> bh_origin_qe (hdr st (tmo_of tp i)) = None)"

definition expired :: "odp_timer_pool_s \<Rightarrow> u64 \<Rightarrow> nat list \<Rightarrow> odp_timer_pool_s" where
  "expired tp tick is = tp\<lparr>tp_tick_buf := map (\<lambda>i. let tb = tp_tick_buf tp ! i in
     if i \<in> set is \<and> due tp tick i then \<lparr>tb_exp_tck = tb_exp_tck tb OR TMO_INACTIVE, tb_tmo_buf = 0\<rparr> else tb) [0..<length (tp_tick_buf tp)]\<rparr>"

lemma expired_nil [simp]: "expired tp tick [] = tp"
  by (simp add: expired_def map_nth)

lemma expired_cons:
  assumes "i < length (tp_tick_buf tp)" "i \<notin> set is"
  shows "expired (snd (timer_grab tp i tick)) tick is = expired tp tick (i # is)"
    "j \<in> set is \<Longrightarrow> tp_tick_buf (snd (timer_grab tp i tick)) ! j = tp_tick_buf tp ! j"
    "j \<in> set is \<Longrightarrow> due (snd (timer_grab tp i tick)) tick j = due tp tick j"
    "tp_timers (snd (timer_grab tp i tick)) = tp_timers tp"
proof -
  show o: "tp_tick_buf (snd (timer_grab tp i tick)) ! j = tp_tick_buf tp ! j" if "j \<in> set is" for j
    using assms that by (auto simp: timer_grab_def Let_def nth_list_update)
  then show d: "due (snd (timer_grab tp i tick)) tick j = due tp tick j" if "j \<in> set is" for j using that by (simp add: due_def)
  show "tp_timers (snd (timer_grab tp i tick)) = tp_timers tp" by (simp add: timer_grab_def Let_def)
  have len: "length (tp_tick_buf (snd (timer_grab tp i tick))) = length (tp_tick_buf tp)" by (simp add: timer_grab_def Let_def)
  have "tp_tick_buf (expired (snd (timer_grab tp i tick)) tick is) = tp_tick_buf (expired tp tick (i # is))"
  proof (rule nth_equalityI)
    fix j assume j: "j < length (tp_tick_buf (expired (snd (timer_grab tp i tick)) tick is))"
    then have jl: "j < length (tp_tick_buf tp)" by (simp add: expired_def len)
    show "tp_tick_buf (expired (snd (timer_grab tp i tick)) tick is) ! j = tp_tick_buf (expired tp tick (i # is)) ! j"
    proof (cases "j \<in> set is")
      case True
      then show ?thesis using jl d o assms(2) by (simp add: expired_def len Let_def)
    next
      case False
      then show ?thesis using jl assms by (auto simp: expired_def len Let_def timer_grab_def due_def nth_list_update)
    qed
  qed (simp add: expired_def len)
  moreover have "expired tp' tick xs = tp'\<lparr>tp_tick_buf := tp_tick_buf (expired tp' tick xs)\<rparr>" for tp' xs by (simp add: expired_def)
  moreover have "(snd (timer_grab tp i tick))\<lparr>tp_tick_buf := x\<rparr> = tp\<lparr>tp_tick_buf := x\<rparr>" for x by (simp add: timer_grab_def Let_def)
  ultimately show "expired (snd (timer_grab tp i tick)) tick is = expired tp tick (i # is)" by metis
qed

text \<open>Bit 62 marks an expired timer, so that a timeout is found fresh if its tick has 62 bits only.\<close>

lemma fresh_mask: "(e OR TMO_INACTIVE) AND NOT TMO_INACTIVE = e \<longleftrightarrow> \<not> bit e 62"
proof -
  have p: "TMO_INACTIVE = 2 ^ 62" by (simp add: TMO_INACTIVE_def)
  have b: "bit TMO_INACTIVE n \<longleftrightarrow> n = 62" for n unfolding p by (subst bit_exp_iff) auto
  have "bit ((e OR TMO_INACTIVE) AND NOT TMO_INACTIVE) 62 = False" by (simp add: bit_simps b)
  moreover have "(e OR TMO_INACTIVE) AND NOT TMO_INACTIVE = e" if "\<not> bit e 62"
    using that by (intro bit_word_eqI) (auto simp: bit_and_iff bit_or_iff bit_not_iff b)
  ultimately show ?thesis by auto
qed

abbreviation target :: "(u32 \<Rightarrow> nat) \<Rightarrow> odp_timer_pool_s \<Rightarrow> nat \<Rightarrow> nat" where
  "target qent tp i \<equiv> qent (tm_queue (tp_timers tp ! i))"

definition delivered :: "(u32 \<Rightarrow> nat) \<Rightarrow> odp_timer_pool_s \<Rightarrow> u64 \<Rightarrow> nat list \<Rightarrow> (nat \<Rightarrow> u32 list) \<Rightarrow> nat \<Rightarrow> u32 list" where
  "delivered qent tp tick is E q = E q @ map (tmo_of tp) (filter (\<lambda>i. due tp tick i \<and> target qent tp i = q) is)"

definition stamped :: "odp_timer_pool_s \<Rightarrow> u64 \<Rightarrow> nat list \<Rightarrow> timer_state \<Rightarrow> timer_state \<Rightarrow> bool" where
  "stamped tp tick is ts ts' \<longleftrightarrow> ts_global ts' = ts_global ts \<and>
     (\<forall>a. bh_event_type (hdr (ts_st ts') a) = bh_event_type (hdr (ts_st ts) a)) \<and>
     (\<forall>i \<in> set is. due tp tick i \<longrightarrow> bh_event_type (hdr (ts_st ts) (tmo_of tp i)) = ODP_EVENT_TIMEOUT \<longrightarrow>
        ts_tmo ts' (tmo_of tp i) = (ts_tmo ts (tmo_of tp i))\<lparr>to_expiration := tb_exp_tck (tp_tick_buf tp ! i)\<rparr>) \<and>
     (\<forall>b. b \<notin> tmo_of tp ` {i \<in> set is. due tp tick i} \<longrightarrow> ts_tmo ts' b = ts_tmo ts b)"

lemma targets_okD:
  assumes "targets_ok qent tp tick is st E" "i \<in> set is" "due tp tick i"
  shows "target qent tp i < length (os_queue st)" "qe_type (qe st (target qent tp i)) = ODP_QUEUE_TYPE_POLL"
    "qe_status (qe st (target qent tp i)) = QUEUE_STATUS_READY" "\<forall>p < length (os_queue st). tmo_of tp i \<notin> set (E p)"
    "bh_origin_qe (hdr st (tmo_of tp i)) = None" "sl_origin_qe (os_local st) = None"
  using assms by (auto simp: targets_ok_def Let_def)

lemma timer_expire_due:
  assumes tp: "ts_pool ts ! p = Some tp" and rep: "queues_rep (ts_st ts) E"
    and ok: "targets_ok qent tp tick (i # is) (ts_st ts) E" and d: "due tp tick i" and i: "i \<notin> set is" "i < length (tp_tick_buf tp)"
  shows "\<exists>ts'. timer_expire io qent p i tick ts = Some (1, ts') \<and> ts_pool ts' = (ts_pool ts)[p := Some (snd (timer_grab tp i tick))] \<and>
    queues_rep (ts_st ts') (delivered qent tp tick [i] E) \<and> stamped tp tick [i] ts ts' \<and>
    targets_ok qent (snd (timer_grab tp i tick)) tick is (ts_st ts') (delivered qent tp tick [i] E)"
proof -
  let ?q = "target qent tp i" and ?b = "tmo_of tp i" and ?st = "ts_st ts"
  define tp1 where "tp1 = snd (timer_grab tp i tick)"
  note T = targets_okD [OF ok list.set_intros(1) d] and X = expired_cons [where tick = tick, OF i(2,1), folded tp1_def]
  have b: "?b \<noteq> 0" using d by (simp add: due_def)
  obtain st' where e: "odp_queue_enq io ?st ?q ?b = Some (0, st')" "queues_rep st' (E(?q := E ?q @ [?b]))" "same_config ?st st'"
    "\<forall>p < length (os_queue ?st). qe_status (qe st' p) = qe_status (qe ?st p)" "sl_origin_qe (os_local st') = None"
    "\<forall>a. bh_origin_qe (hdr st' a) = bh_origin_qe (hdr ?st a) \<and> bh_event_type (hdr st' a) = bh_event_type (hdr ?st a)"
    using queue_enq_poll [OF rep T(1-3) b T(4-6), of io] by blast
  have E': "delivered qent tp tick [i] E = E(?q := E ?q @ [?b])" using d by (auto simp: delivered_def)
  define ts' where "ts' = (if bh_event_type (hdr ?st ?b) = ODP_EVENT_TIMEOUT
     then (upd_pool p tp1 ts)\<lparr>ts_tmo := (ts_tmo ts)(?b := (ts_tmo ts ?b)\<lparr>to_expiration := tb_exp_tck (tp_tick_buf tp ! i)\<rparr>)\<rparr>
     else upd_pool p tp1 ts)\<lparr>ts_st := st'\<rparr>"
  have g: "timer_grab tp i tick = (?b, tp1)" using d by (simp add: tp1_def timer_grab_def due_def Let_def)
  have t': "tp_timers tp1 = tp_timers tp" by (rule X(4))
  have "timer_expire io qent p i tick ts = Some (1, ts')"
    using e(1) b by (simp add: timer_expire_def tp ts'_def g t' upd_pool_def)
  moreover have "ts_pool ts' = (ts_pool ts)[p := Some tp1]" by (simp add: ts'_def upd_pool_def)
  moreover have st': "ts_st ts' = st'" by (simp add: ts'_def)
  moreover have "stamped tp tick [i] ts ts'" using d e(6) by (auto simp: stamped_def ts'_def upd_pool_def)
  moreover have "targets_ok qent tp1 tick is st' (E(?q := E ?q @ [?b]))"
  proof -
    have f: "filter (due tp1 tick) is = filter (due tp tick) is" by (rule filter_cong) (simp_all add: X(3))
    have m: "map (tmo_of tp1) (filter (due tp tick) is) = map (tmo_of tp) (filter (due tp tick) is)" using X(2) by simp
    have dis: "distinct (?b # map (tmo_of tp) (filter (due tp tick) is))" using ok d by (simp add: targets_ok_def)
    have "(let q = target qent tp1 j in q < length (os_queue st') \<and> qe_type (qe st' q) = ODP_QUEUE_TYPE_POLL \<and> qe_status (qe st' q) = QUEUE_STATUS_READY) \<and>
        (\<forall>p < length (os_queue st'). tmo_of tp1 j \<notin> set ((E(?q := E ?q @ [?b])) p)) \<and> bh_origin_qe (hdr st' (tmo_of tp1 j)) = None"
      if j: "j \<in> set is" "due tp1 tick j" for j
    proof -
      have dj: "due tp tick j" using j X(3) by simp
      have "j \<in> set (i # is)" using j(1) by simp
      note Tj = targets_okD [OF ok this dj]
      have "tmo_of tp j \<in> set (map (tmo_of tp) (filter (due tp tick) is))" using j(1) dj by simp
      then have "tmo_of tp j \<noteq> ?b" using dis by (metis distinct.simps(2))
      then show ?thesis using Tj e(4,6) same_config_simps(1,6) [OF e(3)] X(2) [OF j(1)] by (simp add: t' Let_def)
    qed
    then show ?thesis using e(5) dis by (simp add: targets_ok_def f m)
  qed
  ultimately show ?thesis using e(2) unfolding E' tp1_def by (intro exI [of _ ts']) simp
qed

lemma stamped_cons:
  assumes 1: "stamped tp tick [i] ts ts1" and 2: "stamped tp1 tick is ts1 ts'"
    and X: "\<And>j. j \<in> set is \<Longrightarrow> tp_tick_buf tp1 ! j = tp_tick_buf tp ! j" "\<And>j. j \<in> set is \<Longrightarrow> due tp1 tick j = due tp tick j"
    and dis: "tmo_of tp i \<notin> tmo_of tp ` {j \<in> set is. due tp tick j}"
    and im: "tmo_of tp1 ` {j \<in> set is. due tp1 tick j} = tmo_of tp ` {j \<in> set is. due tp tick j}" and d: "due tp tick i"
  shows "stamped tp tick (i # is) ts ts'"
proof -
  have s1: "ts_global ts1 = ts_global ts" "\<And>a. bh_event_type (hdr (ts_st ts1) a) = bh_event_type (hdr (ts_st ts) a)"
    "bh_event_type (hdr (ts_st ts) (tmo_of tp i)) = ODP_EVENT_TIMEOUT \<Longrightarrow>
       ts_tmo ts1 (tmo_of tp i) = (ts_tmo ts (tmo_of tp i))\<lparr>to_expiration := tb_exp_tck (tp_tick_buf tp ! i)\<rparr>"
    "\<And>b. b \<noteq> tmo_of tp i \<Longrightarrow> ts_tmo ts1 b = ts_tmo ts b"
    using 1 d by (auto simp: stamped_def)
  note 2 [unfolded stamped_def im]
  then have s2: "ts_global ts' = ts_global ts1" "\<And>a. bh_event_type (hdr (ts_st ts') a) = bh_event_type (hdr (ts_st ts1) a)"
    "\<And>b. b \<notin> tmo_of tp ` {j \<in> set is. due tp tick j} \<Longrightarrow> ts_tmo ts' b = ts_tmo ts1 b"
    and s3: "\<And>j. j \<in> set is \<Longrightarrow> due tp1 tick j \<Longrightarrow> bh_event_type (hdr (ts_st ts1) (tmo_of tp1 j)) = ODP_EVENT_TIMEOUT \<Longrightarrow>
       ts_tmo ts' (tmo_of tp1 j) = (ts_tmo ts1 (tmo_of tp1 j))\<lparr>to_expiration := tb_exp_tck (tp_tick_buf tp1 ! j)\<rparr>"
    by blast+
  show ?thesis unfolding stamped_def
  proof (intro conjI ballI allI impI)
    fix j assume j: "j \<in> set (i # is)" "due tp tick j" "bh_event_type (hdr (ts_st ts) (tmo_of tp j)) = ODP_EVENT_TIMEOUT"
    show "ts_tmo ts' (tmo_of tp j) = (ts_tmo ts (tmo_of tp j))\<lparr>to_expiration := tb_exp_tck (tp_tick_buf tp ! j)\<rparr>"
    proof (cases "j = i")
      case True
      then show ?thesis using s2(3) [OF dis] s1(3) j(3) by simp
    next
      case False
      then have ji: "j \<in> set is" using j(1) by simp
      then have "tmo_of tp j \<in> tmo_of tp ` {j \<in> set is. due tp tick j}" using j(2) by (intro imageI) simp
      then have "tmo_of tp j \<noteq> tmo_of tp i" using dis by metis
      then show ?thesis using s3 [OF ji] X [OF ji] j(2) s1(2,4) j(3) by simp
    qed
  next
    fix b assume "b \<notin> tmo_of tp ` {j \<in> set (i # is). due tp tick j}"
    then have "b \<notin> tmo_of tp ` {j \<in> set is. due tp tick j}" "b \<noteq> tmo_of tp i" using d by auto
    then show "ts_tmo ts' b = ts_tmo ts b" using s2(3) s1(4) by simp
  qed (use s1(1,2) s2(1,2) in auto)
qed

lemma expire_scan_delivers:
  assumes "ts_pool ts ! p = Some tp" "p < length (ts_pool ts)" "distinct is" "\<forall>i \<in> set is. i < length (tp_tick_buf tp)"
    "queues_rep (ts_st ts) E" "targets_ok qent tp tick is (ts_st ts) E"
  shows "\<exists>ts'. expire_scan io qent p tick is ts = Some (length (filter (due tp tick) is), ts') \<and>
    ts_pool ts' = (ts_pool ts)[p := Some (expired tp tick is)] \<and> queues_rep (ts_st ts') (delivered qent tp tick is E) \<and>
    stamped tp tick is ts ts'"
  using assms
proof (induction "is" arbitrary: ts tp E)
  case Nil
  then have "(ts_pool ts)[p := Some tp] = ts_pool ts" by (simp add: list_update_same_conv)
  then show ?case using Nil by (auto simp: delivered_def [abs_def] stamped_def)
next
  case (Cons i "is")
  let ?tp = "snd (timer_grab tp i tick)"
  have i: "i \<notin> set is" "i < length (tp_tick_buf tp)" "distinct is" using Cons.prems by auto
  note X = expired_cons [where tick = tick, OF i(2,1)]
  have len: "length (tp_tick_buf ?tp) = length (tp_tick_buf tp)" by (simp add: timer_grab_def Let_def)
  have f: "filter (due ?tp tick) is = filter (due tp tick) is" by (rule filter_cong) (simp_all add: X(3))
  show ?case
  proof (cases "due tp tick i")
    case True
    obtain ts1 where t1: "timer_expire io qent p i tick ts = Some (1, ts1)" "ts_pool ts1 = (ts_pool ts)[p := Some ?tp]"
      "queues_rep (ts_st ts1) (delivered qent tp tick [i] E)" "stamped tp tick [i] ts ts1"
      "targets_ok qent ?tp tick is (ts_st ts1) (delivered qent tp tick [i] E)"
      using timer_expire_due [OF Cons.prems(1,5,6) True i(1,2), of io] by blast
    have p: "ts_pool ts1 ! p = Some ?tp" "p < length (ts_pool ts1)" using t1(2) Cons.prems(2) by simp_all
    have il: "\<forall>i \<in> set is. i < length (tp_tick_buf ?tp)" using Cons.prems(4) len by simp
    obtain ts' where t': "expire_scan io qent p tick is ts1 = Some (length (filter (due ?tp tick) is), ts')"
      "ts_pool ts' = (ts_pool ts1)[p := Some (expired ?tp tick is)]"
      "queues_rep (ts_st ts') (delivered qent ?tp tick is (delivered qent tp tick [i] E))" "stamped ?tp tick is ts1 ts'"
      using Cons.IH [OF p i(3) il t1(3,5)] by blast
    have D: "delivered qent ?tp tick is (delivered qent tp tick [i] E) = delivered qent tp tick (i # is) E"
    proof
      fix q
      have "filter (\<lambda>i. due ?tp tick i \<and> target qent ?tp i = q) is = filter (\<lambda>i. due tp tick i \<and> target qent tp i = q) is"
        by (rule filter_cong) (simp_all add: X(3,4))
      then show "delivered qent ?tp tick is (delivered qent tp tick [i] E) q = delivered qent tp tick (i # is) E q"
        using X(2) by (simp add: delivered_def)
    qed
    have dis: "tmo_of tp i \<notin> tmo_of tp ` {j \<in> set is. due tp tick j}"
      using Cons.prems(6) True by (simp add: targets_ok_def)
    have im: "tmo_of ?tp ` {j \<in> set is. due ?tp tick j} = tmo_of tp ` {j \<in> set is. due tp tick j}" using X(2,3) by (auto simp: image_iff)
    have "stamped tp tick (i # is) ts ts'"
      by (rule stamped_cons [OF t1(4) t'(4) _ _ dis im True]) (simp_all add: X(2,3))
    moreover have "expire_scan io qent p tick (i # is) ts = Some (length (filter (due tp tick) (i # is)), ts')"
      using Cons.prems(1) t1(1) t'(1) True f by (simp add: due_def)
    moreover have "ts_pool ts' = (ts_pool ts)[p := Some (expired tp tick (i # is))]" using t'(2) t1(2) X(1) by simp
    ultimately show ?thesis using t'(3) D by auto
  next
    case False
    then have g: "timer_grab tp i tick = (0, tp)" by (auto simp: timer_grab_def due_def Let_def)
    have u: "upd_pool p tp ts = ts" using Cons.prems(1,2) by (simp add: upd_pool_def list_update_same_conv)
    have e: "timer_expire io qent p i tick ts = Some (0, ts)" using Cons.prems(1) by (simp add: timer_expire_def g u)
    have ok: "targets_ok qent tp tick is (ts_st ts) E" using Cons.prems(6) False by (simp add: targets_ok_def)
    have il: "\<forall>i \<in> set is. i < length (tp_tick_buf tp)" using Cons.prems(4) by simp
    obtain ts' where t': "expire_scan io qent p tick is ts = Some (length (filter (due tp tick) is), ts')"
      "ts_pool ts' = (ts_pool ts)[p := Some (expired tp tick is)]"
      "queues_rep (ts_st ts') (delivered qent tp tick is E)" "stamped tp tick is ts ts'"
      using Cons.IH [OF Cons.prems(1,2) i(3) il Cons.prems(5) ok] by blast
    have D: "delivered qent tp tick (i # is) E = delivered qent tp tick is E" using False by (auto simp: delivered_def)
    have "stamped tp tick (i # is) ts ts'" using t'(4) False by (auto simp: stamped_def)
    moreover have "expired tp tick (i # is) = expired tp tick is" using X(1) g by simp
    ultimately show ?thesis using t' False Cons.prems(1) e D by simp
  qed
qed

lemma timer_tick_eq:
  assumes ok: "ts_ok p ts A" and g: "ts_global ts = Some p" and tp: "ts_pool ts ! p = Some tp"
    and rep: "queues_rep (ts_st ts) E" and tg: "targets_ok qent tp (tp_cur_tick tp) [0..<unat (tp_high_wm tp)] (ts_st ts) E"
  shows "\<exists>ts'. timer_notify io qent True ts = Some ts' \<and>
    ts_pool ts' = (ts_pool ts)[p := Some ((expired tp (tp_cur_tick tp) [0..<unat (tp_high_wm tp)])\<lparr>tp_cur_tick := tp_cur_tick tp + 1\<rparr>)] \<and>
    queues_rep (ts_st ts') (delivered qent tp (tp_cur_tick tp) [0..<unat (tp_high_wm tp)] E) \<and>
    stamped tp (tp_cur_tick tp) [0..<unat (tp_high_wm tp)] ts ts'"
proof -
  have R: "tp_rep tp A" "p < length (ts_pool ts)" using ts_okE [OF ok] tp by (metis option.inject)+
  let ?is = "[0..<unat (tp_high_wm tp)]" and ?t = "tp_cur_tick tp"
  define tp1 where "tp1 = tp\<lparr>tp_cur_tick := ?t + 1\<rparr>"
  have same: "tp_tick_buf tp1 = tp_tick_buf tp" "tp_timers tp1 = tp_timers tp" "tp_high_wm tp1 = tp_high_wm tp" "tp_param tp1 = tp_param tp"
    by (simp_all add: tp1_def)
  have due1: "due tp1 = due tp" by (simp add: fun_eq_iff due_def same)
  have T: "targets_ok qent tp1 = targets_ok qent tp" "delivered qent tp1 = delivered qent tp" "stamped tp1 = stamped tp"
    by (simp_all add: fun_eq_iff targets_ok_def delivered_def stamped_def same due1)
  have il: "\<forall>i \<in> set ?is. i < length (tp_tick_buf tp1)" using tp_repD(2,5) [OF R(1)] same by simp
  have p1: "ts_pool (upd_pool p tp1 ts) ! p = Some tp1" "p < length (ts_pool (upd_pool p tp1 ts))" using R(2) by (simp_all add: upd_pool_def)
  have st: "ts_st (upd_pool p tp1 ts) = ts_st ts" by (simp add: upd_pool_def)
  obtain ts' where t': "expire_scan io qent p ?t ?is (upd_pool p tp1 ts) = Some (length (filter (due tp1 ?t) ?is), ts')"
    "ts_pool ts' = (ts_pool (upd_pool p tp1 ts))[p := Some (expired tp1 ?t ?is)]"
    "queues_rep (ts_st ts') (delivered qent tp ?t ?is E)" "stamped tp ?t ?is (upd_pool p tp1 ts) ts'"
    using expire_scan_delivers [OF p1 distinct_upt il, of E qent ?t io] rep tg unfolding st T by blast
  have "\<not> tp_high_wm tp > tpp_num_timers (tp_param tp)" using tp_repD(5) [OF R(1)] by (simp add: word_less_nat_alt)
  then have "timer_notify io qent True ts = Some ts'"
    using g tp t'(1) p1(1) unfolding timer_notify_def odp_timer_pool_expire_def by (simp add: tp1_def [symmetric] same Let_def)
  moreover have "expired tp1 ?t ?is = (expired tp ?t ?is)\<lparr>tp_cur_tick := ?t + 1\<rparr>" unfolding expired_def due1 same by (simp add: tp1_def)
  moreover have "stamped tp ?t ?is ts ts'" using t'(4) by (simp add: stamped_def upd_pool_def)
  ultimately show ?thesis using t'(2,3) by (simp add: upd_pool_def)
qed

section \<open>Properties\<close>

definition tim_start :: "nat \<Rightarrow> nat \<Rightarrow> timer_state \<times> u32 set \<Rightarrow> bool" where
  "tim_start p n s \<longleftrightarrow> snd s = {} \<and> n \<le> 2 ^ INDEX_BITS \<and>
     (\<exists>malloc sizes name param ts0. odp_timer_pool_create malloc sizes name param ts0 = Some (Some p, fst s) \<and>
        length (ts_pool ts0) = MAX_TIMER_POOLS \<and> unat (tpp_num_timers param) = n)"

interpretation tim: invariant_system "tim_start p n" "tim_step io qent p" "tim_inv p n" for p n io qent
proof
  show "tim_inv p n s" if "tim_start p n s" for s
    using that timer_pool_create_ok [where p = p] by (cases s) (auto simp: tim_start_def)
  show "tim_inv p n s'" if "tim_inv p n s" "tim_step io qent p s s'" for s s' by (rule tim_inv_step [OF that])
qed

text \<open>C31. Calls on timers do not fail: after any sequence of calls and ticks on a pool that has been created
  for \<open>n\<close> timers, with \<open>H\<close> the handles the application has, \<open>odp_timer_alloc\<close> gives a new
  handle if there are fewer than \<open>n\<close> and \<open>ODP_TIMER_INVALID\<close> if not, and setting, cancelling or freeing
  a timer by any of the handles returns: no assertion fails, and no call aborts on the handle.\<close>

theorem timer_calls_return:
  assumes "odp_timer_pool_create malloc sizes name param ts0 = Some (Some p, ts1)"
    and "length (ts_pool ts0) = MAX_TIMER_POOLS" "unat (tpp_num_timers param) = n" "n \<le> 2 ^ INDEX_BITS"
    and "rtranclp (tim_step io qent p) (ts1, {}) (ts, H)"
  shows "card H \<le> n \<and>
    (\<forall>q up. q \<noteq> 0 \<longrightarrow> (if card H < n
      then \<exists>h ts'. odp_timer_alloc p q up ts = Some (h, ts') \<and> h \<noteq> ODP_TIMER_INVALID \<and> h \<notin> H
      else odp_timer_alloc p q up ts = Some (ODP_TIMER_INVALID, ts))) \<and>
    (\<forall>h \<in> H. \<forall>tck ev. odp_timer_set_abs h tck ev ts \<noteq> None \<and> odp_timer_set_rel h tck ev ts \<noteq> None \<and>
      odp_timer_cancel h ts \<noteq> None \<and> odp_timer_free h ts \<noteq> None)"
proof -
  have "tim_start p n (ts1, {})" unfolding tim_start_def fst_conv snd_conv using assms(1-4) by blast
  then have "tim_inv p n (ts, H)" by (rule tim.reachable_inv [OF assms(5)])
  then obtain A where A: "ts_ok p ts A" "H = timer_hdl p ` A" "pool_num ts p = Some n" by (auto simp: tim_inv_def)
  then obtain tp where tp: "ts_pool ts ! p = Some tp" "tp_num tp = n" "tp_rep tp A" using ts_okE [OF A(1)] by fastforce
  have c: "card H = card A" unfolding A(2) using timer_hdl_inj [OF A(1)] by (intro card_image inj_onI) blast
  have "A \<subseteq> {..<n}" using tp_repD(10) [OF tp(3)] tp(2) by auto
  then have 1: "card H \<le> n" unfolding c by (metis card_lessThan card_mono finite_lessThan)
  have 2: "if card H < n then \<exists>h ts'. odp_timer_alloc p q up ts = Some (h, ts') \<and> h \<noteq> ODP_TIMER_INVALID \<and> h \<notin> H
      else odp_timer_alloc p q up ts = Some (ODP_TIMER_INVALID, ts)" if "q \<noteq> 0" for q up
    using timer_alloc_ok [OF A(1) that tp(1), of up] unfolding c tp(2) using A(2) by (auto split: if_splits)
  have 3: "odp_timer_set_abs h tck ev ts \<noteq> None \<and> odp_timer_set_rel h tck ev ts \<noteq> None \<and>
      odp_timer_cancel h ts \<noteq> None \<and> odp_timer_free h ts \<noteq> None" if h: "h \<in> H" for h tck ev
  proof -
    obtain i where i: "i \<in> A" "h = timer_hdl p i" using h A(2) by blast
    show ?thesis
      using timer_calls_ok(1,2) [OF A(1) i(1), of tck ev] timer_calls_ok(3) [OF A(1) i(1)] timer_free_ok [OF A(1) i(1)] i(2) by auto
  qed
  show ?thesis using 1 2 3 by blast
qed

definition tim_example_param :: odp_timer_pool_param_t where
  "tim_example_param = \<lparr>tpp_res_ns = 1000, tpp_min_tmo = 1000, tpp_max_tmo = 1000000, tpp_num_timers = 2,
     tpp_priv = 0, tpp_clk_src = ODP_CLOCK_CPU\<rparr>"

definition tim_example :: timer_state where
  "tim_example = \<lparr>ts_num_pools = 0, ts_pool = replicate MAX_TIMER_POOLS None,
     ts_tmo = \<lambda>_. \<lparr>to_expiration = 0, to_user_ptr = 0, to_timer = 0\<rparr>, ts_global = None, ts_st = queue_example_polled\<rparr>"

lemma tim_example_create:
  "\<exists>ts1. odp_timer_pool_create (\<lambda>_. 65536) (320, 16, 8) ''t'' tim_example_param tim_example = Some (Some 0, ts1)"
proof -
  let ?z = "replicate ODP_CONFIG_SHM_BLOCKS shm_zero_block"
  have nf: "find_block ?z ''t'' = None" by (simp add: find_block_None shm_zero_block_def)
  have f: "shm_first (\<lambda>b. sb_addr b = 0) ?z = 0"
    by (rule shm_first_eq) (simp_all add: ODP_CONFIG_SHM_BLOCKS_def shm_zero_block_def nth_replicate)
  have z: "pt_shm (os_pools (ts_st tim_example)) = ?z"
    by (simp add: tim_example_def queue_example_polled_def queue_example_def upd_qe_def pool_example_table_def)
  have "\<exists>tbl. odp_shm_reserve (\<lambda>_. 65536) (pt_shm (os_pools (ts_st tim_example))) ''t'' sz 64 ODP_SHM_SW_ONLY = Some (1, tbl)" for sz
    using nf f unfolding z by (simp add: odp_shm_reserve_def Let_def shm_to_handle_def ODP_SHM_PROC_def ODP_SHM_SW_ONLY_def ODP_SHM_INVALID_def)
  then obtain tbl where "odp_shm_reserve (\<lambda>_. 65536) (pt_shm (os_pools (ts_st tim_example))) ''t''
    (ucast (ODP_ALIGN_ROUNDUP 320 ODP_CACHE_LINE_SIZE + ODP_ALIGN_ROUNDUP 32 ODP_CACHE_LINE_SIZE +
       ODP_ALIGN_ROUNDUP 16 ODP_CACHE_LINE_SIZE)) 64 ODP_SHM_SW_ONLY = Some (1, tbl)" by blast
  then show ?thesis
    by (simp add: odp_timer_pool_create_def odp_timer_pool_new_def tim_example_param_def)
      (simp add: tim_example_def MAX_TIMER_POOLS_def ODP_SHM_INVALID_def upd_shm_def)
qed

theorem timer_calls_return_witness:
  "\<exists>ts1 ts h ts2. odp_timer_pool_create (\<lambda>_. 65536) (320, 16, 8) ''t'' tim_example_param tim_example = Some (Some 0, ts1) \<and>
     odp_timer_alloc 0 1000 7 ts1 = Some (h, ts) \<and> h \<noteq> ODP_TIMER_INVALID \<and>
     odp_timer_set_rel h 5 (Some 64) ts \<noteq> None \<and> odp_timer_alloc 0 1000 8 ts = Some ts2 \<and> fst ts2 \<noteq> h"
proof -
  obtain ts1 where c: "odp_timer_pool_create (\<lambda>_. 65536) (320, 16, 8) ''t'' tim_example_param tim_example = Some (Some 0, ts1)"
    using tim_example_create by blast
  have n: "unat (tpp_num_timers tim_example_param) = 2" "(2 :: nat) \<le> 2 ^ INDEX_BITS" "length (ts_pool tim_example) = MAX_TIMER_POOLS"
    by (simp_all add: tim_example_param_def tim_example_def INDEX_BITS_def)
  note K = timer_calls_return [OF c n(3,1,2)]
  let ?io = "\<lambda>(st :: odp_state) (q :: nat) (bs :: u32 list). (0 :: int, st)"
  have r0: "rtranclp (tim_step ?io (\<lambda>_. 0) 0) (ts1, {}) (ts1, {})" by simp
  obtain h ts where h: "odp_timer_alloc 0 1000 7 ts1 = Some (h, ts)" "h \<noteq> ODP_TIMER_INVALID"
    using K [OF r0, THEN conjunct2, THEN conjunct1, rule_format, of 1000 7] by auto
  have "tim_step ?io (\<lambda>_. 0) 0 (ts1, {}) (ts, {h})" using tim_step.alloc [OF h(1), of ?io "\<lambda>_. 0" "{}"] h(2) by simp
  then have r: "rtranclp (tim_step ?io (\<lambda>_. 0) 0) (ts1, {}) (ts, {h})" by (rule r_into_rtranclp)
  have "odp_timer_set_rel h 5 (Some 64) ts \<noteq> None"
    using K [OF r, THEN conjunct2, THEN conjunct2, rule_format, of h 5 "Some 64"] by blast
  moreover obtain g ts' where "odp_timer_alloc 0 1000 8 ts = Some (g, ts')" "g \<noteq> h"
    using K [OF r, THEN conjunct2, THEN conjunct1, rule_format, of 1000 8] by auto
  ultimately show ?thesis using c h by (metis fst_conv)
qed


text \<open>Two timers, the first of which is due and has event 64 for queue 0.\<close>

definition tim_example_pool :: odp_timer_pool_s where
  "tim_example_pool =
     \<lparr>tp_cur_tick = 5, tp_min_rel_tck = 1, tp_max_rel_tck = 1000,
      tp_tick_buf = [\<lparr>tb_exp_tck = 4, tb_tmo_buf = 64\<rparr>, \<lparr>tb_exp_tck = TMO_UNUSED, tb_tmo_buf = 0\<rparr>],
      tp_timers = [\<lparr>tm_user_ptr = 7, tm_queue = 1000\<rparr>, \<lparr>tm_user_ptr = 0, tm_queue = 2\<rparr>],
      tp_high_wm = 1, tp_num_alloc = 1, tp_first_free = 1, tp_tp_idx = 0, tp_param = tim_example_param, tp_name = ''t'', tp_shm = 1\<rparr>"

definition tim_example_running :: timer_state where
  "tim_example_running = tim_example\<lparr>ts_pool := (ts_pool tim_example)[0 := Some tim_example_pool], ts_global := Some 0\<rparr>"

lemma tim_example_ok: "ts_ok 0 tim_example_running {0}" "ts_pool tim_example_running ! 0 = Some tim_example_pool"
proof -
  have u: "[Suc 0..<2] = [Suc 0]" by (simp add: upt_rec)
  have "tp_free_list tim_example_pool {0} []"
    by (auto simp: tp_free_list_def tim_example_pool_def tim_example_param_def tp_next_def u)
  then have "tp_rep tim_example_pool {0}"
    by (rule tp_repI [rotated 6]) (auto simp: tim_example_pool_def tim_example_param_def timer_consts dest: less_2_cases)
  then show "ts_ok 0 tim_example_running {0}" "ts_pool tim_example_running ! 0 = Some tim_example_pool"
    by (auto simp: ts_ok_def tim_example_running_def tim_example_def MAX_TIMER_POOLS_def tim_example_pool_def)
qed

lemma queue_example_rep: "queues_rep queue_example_polled (\<lambda>_. [])"
proof -
  have "queue_rep queue_example_polled q []" if "q < 128" for q
    using that by (cases "q = 0") (auto simp: queue_rep_def queue_example_polled_def queue_example_def upd_qe_def
        ODP_CONFIG_QUEUES_def queue_zero_def queue_init_def ptr_opt_def)
  then show ?thesis by (simp add: queues_rep_def)
qed


end
