(* ===== verification/Odp_Class.thy ===== *)
theory Odp_Class
  imports Odp_Pktio Odp_Packet_Flags
begin

unbundle bit_operations_syntax

text \<open>
  Packet classification (\<open>linux-generic/odp_classification.c\<close> and
  \<open>odp_classification_inlines.h\<close>, which the device builds): classes of service, matching rules and rule sets, the
  classifier of each interface, and the dispatch of a received packet. A class of service is the index of its entry, an interface the
  index of its entry; \<open>None\<close> is a null pointer, an invalid handle, or a call that does not return. A locked section is one
  step. Reads of multi-byte fields that the source does not convert are little-endian, as on the device.
\<close>

section \<open>Data\<close>

definition ODP_COS_MAX_ENTRY :: nat where "ODP_COS_MAX_ENTRY = 64"
definition ODP_PMRSET_MAX_ENTRY :: nat where "ODP_PMRSET_MAX_ENTRY = 64"
definition ODP_PMR_MAX_ENTRY :: nat where "ODP_PMR_MAX_ENTRY = 64"
definition ODP_PMRTERM_MAX :: nat where "ODP_PMRTERM_MAX = 8"
definition ODP_PKTIO_MAX_PMR :: nat where "ODP_PKTIO_MAX_PMR = 8"
definition ODP_COS_MAX_L2_QOS :: nat where "ODP_COS_MAX_L2_QOS = 8"
definition ODP_COS_MAX_L3_QOS :: nat where "ODP_COS_MAX_L3_QOS = 64"
definition ODP_PMR_TERM_BYTES_MAX :: u32 where "ODP_PMR_TERM_BYTES_MAX = 8"
definition ODP_COS_NAME_LEN :: nat where "ODP_COS_NAME_LEN = 32"

lemmas class_consts = ODP_COS_MAX_ENTRY_def ODP_PMRSET_MAX_ENTRY_def ODP_PMR_MAX_ENTRY_def ODP_PMRTERM_MAX_def ODP_PKTIO_MAX_PMR_def
  ODP_COS_MAX_L2_QOS_def ODP_COS_MAX_L3_QOS_def ODP_PMR_TERM_BYTES_MAX_def ODP_COS_NAME_LEN_def

datatype odp_pmr_term_e =
    ODP_PMR_LEN | ODP_PMR_ETHTYPE_0 | ODP_PMR_ETHTYPE_X | ODP_PMR_VLAN_ID_0 | ODP_PMR_VLAN_ID_X | ODP_PMR_DMAC | ODP_PMR_IPPROTO
  | ODP_PMR_UDP_DPORT | ODP_PMR_TCP_DPORT | ODP_PMR_UDP_SPORT | ODP_PMR_TCP_SPORT | ODP_PMR_SIP_ADDR | ODP_PMR_DIP_ADDR
  | ODP_PMR_SIP6_ADDR | ODP_PMR_DIP6_ADDR | ODP_PMR_IPSEC_SPI | ODP_PMR_LD_VNI | ODP_PMR_CUSTOM_FRAME | ODP_PMR_INNER_HDR_OFF

record odp_pmr_match_t =
  mt_term :: odp_pmr_term_e
  mt_val :: "u8 list"
  mt_mask :: "u8 list"
  mt_val_sz :: u32
  mt_offset :: u32

record pmr_term_value_t =
  pv_term :: odp_pmr_term_e
  pv_val :: u64
  pv_mask :: u64
  pv_offset :: u32
  pv_val_sz :: u32

text \<open>A rule and a rule set have the same structure; a rule has one term, a set has eight.\<close>

record pmr_s =
  pm_valid :: bool
  pm_count :: u32
  pm_num_pmr :: u32
  pm_term_value :: "pmr_term_value_t list"

datatype pmr_ref = Pmr nat | PmrSet nat

record cos_s =
  cs_queue :: "nat option"
  cs_pool :: "nat option"
  cs_pmr :: "pmr_ref option"
  cs_linked_cos :: "nat option"
  cs_valid :: bool
  cs_drop_policy :: int
  cs_flow_set :: u16
  cs_name :: string
  cs_headroom :: u32

record classifier_t =
  cf_num_pmr :: nat
  cf_pmr :: "pmr_ref option list"
  cf_cos :: "nat option list"
  cf_error_cos :: "nat option"
  cf_default_cos :: "nat option"
  cf_l3_precedence :: bool
  cf_l2_cos :: "nat option list"
  cf_l3_cos :: "nat option list"
  cf_flow_set :: u16
  cf_headroom :: u32
  cf_skip :: u32

record cls_state =
  cl_cos :: "cos_s list"
  cl_pmr :: "pmr_s list"
  cl_pmr_set :: "pmr_s list"
  cl_pktio :: "nat \<Rightarrow> classifier_t"
  cl_enabled :: "nat \<Rightarrow> bool"

record odp_cls_cos_param_t =
  cp_queue :: "nat option"
  cp_pool :: "nat option"
  cp_drop_policy :: int

definition upd_cos :: "nat \<Rightarrow> (cos_s \<Rightarrow> cos_s) \<Rightarrow> cls_state \<Rightarrow> cls_state" where
  "upd_cos i f cl = cl\<lparr>cl_cos := (cl_cos cl)[i := f (cl_cos cl ! i)]\<rparr>"

definition upd_cls :: "nat \<Rightarrow> (classifier_t \<Rightarrow> classifier_t) \<Rightarrow> cls_state \<Rightarrow> cls_state" where
  "upd_cls i f cl = cl\<lparr>cl_pktio := (cl_pktio cl)(i := f (cl_pktio cl i))\<rparr>"

text \<open>\<open>pktio_cls_enabled_set\<close> with 1.\<close>

definition cls_enable :: "nat \<Rightarrow> cls_state \<Rightarrow> cls_state" where
  "cls_enable i cl = cl\<lparr>cl_enabled := (cl_enabled cl)(i := True)\<rparr>"

section \<open>Set-up\<close>

definition cos_zero :: cos_s where
  "cos_zero = \<lparr>cs_queue = None, cs_pool = None, cs_pmr = None, cs_linked_cos = None, cs_valid = False, cs_drop_policy = 0,
     cs_flow_set = 0, cs_name = [], cs_headroom = 0\<rparr>"

definition term_zero :: pmr_term_value_t where
  "term_zero = \<lparr>pv_term = ODP_PMR_LEN, pv_val = 0, pv_mask = 0, pv_offset = 0, pv_val_sz = 0\<rparr>"

definition pmr_zero :: "nat \<Rightarrow> pmr_s" where
  "pmr_zero n = \<lparr>pm_valid = False, pm_count = 0, pm_num_pmr = 0, pm_term_value = replicate n term_zero\<rparr>"

text \<open>The three tables in shared memory, cleared; the arguments are the sizes of the tables and of their entries. On failure the
  blocks reserved before are freed.\<close>

definition odp_classification_init_global ::
  "(u32 \<Rightarrow> u32) \<Rightarrow> u64 \<Rightarrow> u64 \<Rightarrow> u64 \<Rightarrow> u64 \<Rightarrow> u64 \<Rightarrow> u64 \<Rightarrow> odp_shm_table_t \<Rightarrow> cls_state \<Rightarrow> (int \<times> odp_shm_table_t \<times> cls_state) option" where
  "odp_classification_init_global malloc s_cos_tbl s_cos s_pmr_tbl s_pmr s_set_tbl s_set shm cl =
     do {
       (cos_shm, shm) \<leftarrow> odp_shm_reserve malloc shm ''shm_odp_cos_tbl'' s_cos_tbl s_cos 0;
       if cos_shm = ODP_SHM_INVALID then Some (- 1, shm, cl)
       else if odp_shm_addr shm cos_shm = 0 then do { (_, _, shm) \<leftarrow> odp_shm_free shm cos_shm; Some (- 1, shm, cl) }
       else do {
         let cl = cl\<lparr>cl_cos := replicate ODP_COS_MAX_ENTRY cos_zero\<rparr>;
         (pmr_shm, shm) \<leftarrow> odp_shm_reserve malloc shm ''shm_odp_pmr_tbl'' s_pmr_tbl s_pmr 0;
         if pmr_shm = ODP_SHM_INVALID then do { (_, _, shm) \<leftarrow> odp_shm_free shm cos_shm; Some (- 1, shm, cl) }
         else if odp_shm_addr shm pmr_shm = 0
         then do { (_, _, shm) \<leftarrow> odp_shm_free shm pmr_shm; (_, _, shm) \<leftarrow> odp_shm_free shm cos_shm; Some (- 1, shm, cl) }
         else do {
           let cl = cl\<lparr>cl_pmr := replicate ODP_PMR_MAX_ENTRY (pmr_zero 1)\<rparr>;
           (set_shm, shm) \<leftarrow> odp_shm_reserve malloc shm ''shm_odp_pmr_set_tbl'' s_set_tbl s_set 0;
           if set_shm = ODP_SHM_INVALID
           then do { (_, _, shm) \<leftarrow> odp_shm_free shm pmr_shm; (_, _, shm) \<leftarrow> odp_shm_free shm cos_shm; Some (- 1, shm, cl) }
           else if odp_shm_addr shm set_shm = 0
           then do { (_, _, shm) \<leftarrow> odp_shm_free shm set_shm; (_, _, shm) \<leftarrow> odp_shm_free shm pmr_shm;
                     (_, _, shm) \<leftarrow> odp_shm_free shm cos_shm; Some (- 1, shm, cl) }
           else Some (0, shm, cl\<lparr>cl_pmr_set := replicate ODP_PMRSET_MAX_ENTRY (pmr_zero ODP_PMRTERM_MAX)\<rparr>)
         }
       }
     }"

definition odp_classification_term_global :: "odp_shm_table_t \<Rightarrow> (int \<times> odp_shm_table_t) option" where
  "odp_classification_term_global shm =
     do {
       (r1, _, shm) \<leftarrow> odp_shm_free shm (odp_shm_lookup shm ''shm_odp_cos_tbl'');
       (r2, _, shm) \<leftarrow> odp_shm_free shm (odp_shm_lookup shm ''shm_odp_pmr_tbl'');
       (r3, _, shm) \<leftarrow> odp_shm_free shm (odp_shm_lookup shm ''shm_odp_pmr_set_tbl'');
       Some (if r1 < 0 \<or> r2 < 0 \<or> r3 < 0 then - 1 else 0, shm)
     }"

text \<open>\<open>ODP_COS_DROP_NEVER\<close> is 1.\<close>

definition odp_cls_cos_param_init :: odp_cls_cos_param_t where
  "odp_cls_cos_param_init = \<lparr>cp_queue = None, cp_pool = None, cp_drop_policy = 1\<rparr>"

section \<open>Classes of service\<close>

definition get_cos_entry :: "cls_state \<Rightarrow> u32 \<Rightarrow> nat option" where
  "get_cos_entry cl cos_id =
     (if unat cos_id \<ge> ODP_COS_MAX_ENTRY \<or> cos_id = - 1 then None
      else if \<not> cs_valid (cl_cos cl ! unat cos_id) then None else Some (unat cos_id))"

definition odp_cls_cos_create :: "string \<Rightarrow> odp_cls_cos_param_t \<Rightarrow> cls_state \<Rightarrow> u32 \<times> cls_state" where
  "odp_cls_cos_create name param cl =
     (case find (\<lambda>i. \<not> cs_valid (cl_cos cl ! i)) [0..<ODP_COS_MAX_ENTRY] of
        None \<Rightarrow> (- 1, cl)
      | Some i \<Rightarrow> (of_nat i, upd_cos i (\<lambda>c. c\<lparr>cs_name := take (ODP_COS_NAME_LEN - 1) name, cs_pmr := None, cs_linked_cos := None,
          cs_queue := cp_queue param, cs_pool := cp_pool param, cs_flow_set := 0, cs_headroom := 0, cs_valid := True,
          cs_drop_policy := cp_drop_policy param\<rparr>) cl))"

definition odp_cos_destroy :: "u32 \<Rightarrow> cls_state \<Rightarrow> int \<times> cls_state" where
  "odp_cos_destroy cos_id cl =
     (case get_cos_entry cl cos_id of None \<Rightarrow> (- 1, cl) | Some c \<Rightarrow> (0, upd_cos c (\<lambda>e. e\<lparr>cs_valid := False\<rparr>) cl))"

definition odp_cos_queue_set :: "u32 \<Rightarrow> nat option \<Rightarrow> cls_state \<Rightarrow> int \<times> cls_state" where
  "odp_cos_queue_set cos_id queue_id cl =
     (case get_cos_entry cl cos_id of None \<Rightarrow> (- 1, cl) | Some c \<Rightarrow> (0, upd_cos c (\<lambda>e. e\<lparr>cs_queue := queue_id\<rparr>) cl))"

definition odp_cos_queue :: "u32 \<Rightarrow> cls_state \<Rightarrow> nat option" where
  "odp_cos_queue cos_id cl = (case get_cos_entry cl cos_id of None \<Rightarrow> None | Some c \<Rightarrow> cs_queue (cl_cos cl ! c))"

definition odp_cos_drop_set :: "u32 \<Rightarrow> int \<Rightarrow> cls_state \<Rightarrow> int \<times> cls_state" where
  "odp_cos_drop_set cos_id drop_policy cl =
     (case get_cos_entry cl cos_id of None \<Rightarrow> (- 1, cl) | Some c \<Rightarrow> (0, upd_cos c (\<lambda>e. e\<lparr>cs_drop_policy := drop_policy\<rparr>) cl))"

definition odp_cos_drop :: "u32 \<Rightarrow> cls_state \<Rightarrow> int" where
  "odp_cos_drop cos_id cl = (case get_cos_entry cl cos_id of None \<Rightarrow> - 1 | Some c \<Rightarrow> cs_drop_policy (cl_cos cl ! c))"

definition odp_cls_cos_pool_set :: "u32 \<Rightarrow> nat option \<Rightarrow> cls_state \<Rightarrow> int \<times> cls_state" where
  "odp_cls_cos_pool_set cos_id pool_id cl =
     (case get_cos_entry cl cos_id of None \<Rightarrow> (- 1, cl) | Some c \<Rightarrow> (0, upd_cos c (\<lambda>e. e\<lparr>cs_pool := pool_id\<rparr>) cl))"

definition odp_cls_cos_pool :: "u32 \<Rightarrow> cls_state \<Rightarrow> nat option" where
  "odp_cls_cos_pool cos_id cl = (case get_cos_entry cl cos_id of None \<Rightarrow> None | Some c \<Rightarrow> cs_pool (cl_cos cl ! c))"

section \<open>The classifier of an interface\<close>

definition pktio_classifier_init :: "nat option \<Rightarrow> cls_state \<Rightarrow> int \<times> cls_state" where
  "pktio_classifier_init entry cl =
     (case entry of None \<Rightarrow> (- 1, cl)
      | Some i \<Rightarrow> (0, upd_cls i (\<lambda>c. c\<lparr>cf_num_pmr := 0, cf_flow_set := 0, cf_error_cos := None, cf_default_cos := None, cf_headroom := 0,
          cf_skip := 0, cf_pmr := replicate ODP_PKTIO_MAX_PMR None, cf_cos := replicate ODP_PKTIO_MAX_PMR None\<rparr>) cl))"

definition odp_pktio_default_cos_set :: "nat option \<Rightarrow> u32 \<Rightarrow> cls_state \<Rightarrow> int \<times> cls_state" where
  "odp_pktio_default_cos_set pktio_in default_cos cl =
     (case pktio_in of None \<Rightarrow> (- 1, cl)
      | Some i \<Rightarrow> (case get_cos_entry cl default_cos of None \<Rightarrow> (- 1, cl)
          | Some c \<Rightarrow> (0, cls_enable i (upd_cls i (\<lambda>e. e\<lparr>cf_default_cos := Some c\<rparr>) cl))))"

definition odp_pktio_error_cos_set :: "nat option \<Rightarrow> u32 \<Rightarrow> cls_state \<Rightarrow> int \<times> cls_state" where
  "odp_pktio_error_cos_set pktio_in error_cos cl =
     (case pktio_in of None \<Rightarrow> (- 1, cl)
      | Some i \<Rightarrow> (case get_cos_entry cl error_cos of None \<Rightarrow> (- 1, cl)
          | Some c \<Rightarrow> (0, upd_cls i (\<lambda>e. e\<lparr>cf_error_cos := Some c\<rparr>) cl)))"

definition odp_pktio_skip_set :: "nat option \<Rightarrow> u32 \<Rightarrow> cls_state \<Rightarrow> int \<times> cls_state" where
  "odp_pktio_skip_set pktio_in offset cl =
     (case pktio_in of None \<Rightarrow> (- 1, cl) | Some i \<Rightarrow> (0, upd_cls i (\<lambda>e. e\<lparr>cf_skip := offset\<rparr>) cl))"

definition odp_pktio_headroom_set :: "nat option \<Rightarrow> u32 \<Rightarrow> cls_state \<Rightarrow> int \<times> cls_state" where
  "odp_pktio_headroom_set pktio_in headroom cl =
     (case pktio_in of None \<Rightarrow> (- 1, cl) | Some i \<Rightarrow> (0, upd_cls i (\<lambda>e. e\<lparr>cf_headroom := headroom\<rparr>) cl))"

text \<open>The loop over the pairs of a priority and a class.\<close>

fun set_qos :: "cls_state \<Rightarrow> (u8 \<times> u32) list \<Rightarrow> nat option list \<Rightarrow> nat option list" where
  "set_qos cl [] tbl = tbl"
| "set_qos cl ((q, c) # qs) tbl =
     (case get_cos_entry cl c of None \<Rightarrow> set_qos cl qs tbl
      | Some e \<Rightarrow> set_qos cl qs (if length tbl > unat q then tbl[unat q := Some e] else tbl))"

definition odp_cos_with_l2_priority :: "nat option \<Rightarrow> (u8 \<times> u32) list \<Rightarrow> cls_state \<Rightarrow> int \<times> cls_state" where
  "odp_cos_with_l2_priority pktio_in qos cl =
     (case pktio_in of None \<Rightarrow> (- 1, cl)
      | Some i \<Rightarrow> (0, cls_enable i (upd_cls i (\<lambda>e. e\<lparr>cf_l2_cos := set_qos cl qos (cf_l2_cos e)\<rparr>) cl)))"

definition odp_cos_with_l3_qos :: "nat option \<Rightarrow> (u8 \<times> u32) list \<Rightarrow> bool \<Rightarrow> cls_state \<Rightarrow> int \<times> cls_state" where
  "odp_cos_with_l3_qos pktio_in qos l3_preference cl =
     (case pktio_in of None \<Rightarrow> (- 1, cl)
      | Some i \<Rightarrow> (0, cls_enable i (upd_cls i (\<lambda>e. e\<lparr>cf_l3_precedence := l3_preference, cf_l3_cos := set_qos cl qos (cf_l3_cos e)\<rparr>) cl)))"

section \<open>Matching rules\<close>

definition get_pmr_entry :: "cls_state \<Rightarrow> u32 \<Rightarrow> nat option" where
  "get_pmr_entry cl pmr_id =
     (if unat pmr_id \<ge> ODP_PMR_MAX_ENTRY \<or> pmr_id = - 1 then None
      else if \<not> pm_valid (cl_pmr cl ! unat pmr_id) then None else Some (unat pmr_id))"

definition get_pmr_set_entry :: "cls_state \<Rightarrow> u32 \<Rightarrow> nat option" where
  "get_pmr_set_entry cl pmr_set_id =
     (if unat pmr_set_id \<ge> ODP_PMRSET_MAX_ENTRY \<or> pmr_set_id = - 1 then None
      else if \<not> pm_valid (cl_pmr_set cl ! unat pmr_set_id) then None else Some (unat pmr_set_id))"

definition pmr_taken :: "pmr_s \<Rightarrow> pmr_s" where
  "pmr_taken p = p\<lparr>pm_valid := True, pm_count := 0, pm_num_pmr := 0\<rparr>"

definition alloc_pmr :: "cls_state \<Rightarrow> (nat \<times> cls_state) option" where
  "alloc_pmr cl =
     (case find (\<lambda>i. \<not> pm_valid (cl_pmr cl ! i)) [0..<ODP_PMR_MAX_ENTRY] of None \<Rightarrow> None
      | Some i \<Rightarrow> Some (i, cl\<lparr>cl_pmr := (cl_pmr cl)[i := pmr_taken (cl_pmr cl ! i)]\<rparr>))"

definition alloc_pmr_set :: "cls_state \<Rightarrow> (nat \<times> cls_state) option" where
  "alloc_pmr_set cl =
     (case find (\<lambda>i. \<not> pm_valid (cl_pmr_set cl ! i)) [0..<ODP_PMRSET_MAX_ENTRY] of None \<Rightarrow> None
      | Some i \<Rightarrow> Some (i, cl\<lparr>cl_pmr_set := (cl_pmr_set cl)[i := pmr_taken (cl_pmr_set cl ! i)]\<rparr>))"

text \<open>The value and the mask are copied into cleared 64-bit words: more than eight bytes overrun them.\<close>

definition odp_pmr_create_term :: "odp_pmr_match_t \<Rightarrow> pmr_term_value_t option" where
  "odp_pmr_create_term m =
     (if mt_val_sz m > 8 then None
      else let val = le_word (take (unat (mt_val_sz m)) (mt_val m)); msk = le_word (take (unat (mt_val_sz m)) (mt_mask m))
        in Some \<lparr>pv_term = mt_term m, pv_val = val AND msk, pv_mask = msk, pv_offset = mt_offset m, pv_val_sz = mt_val_sz m\<rparr>)"

definition odp_pmr_create :: "odp_pmr_match_t \<Rightarrow> cls_state \<Rightarrow> (u32 \<times> cls_state) option" where
  "odp_pmr_create m cl =
     (if mt_val_sz m > ODP_PMR_TERM_BYTES_MAX then Some (- 1, cl)
      else case alloc_pmr cl of None \<Rightarrow> Some (- 1, cl)
        | Some (i, cl) \<Rightarrow> do {
            t \<leftarrow> odp_pmr_create_term m;
            Some (of_nat i, cl\<lparr>cl_pmr := (cl_pmr cl)[i := (cl_pmr cl ! i)\<lparr>pm_num_pmr := 1,
              pm_term_value := (pm_term_value (cl_pmr cl ! i))[0 := t]\<rparr>]\<rparr>)
          })"

definition odp_pmr_destroy :: "u32 \<Rightarrow> cls_state \<Rightarrow> int \<times> cls_state" where
  "odp_pmr_destroy pmr_id cl =
     (case get_pmr_entry cl pmr_id of None \<Rightarrow> (- 1, cl)
      | Some i \<Rightarrow> (0, cl\<lparr>cl_pmr := (cl_pmr cl)[i := (cl_pmr cl ! i)\<lparr>pm_valid := False\<rparr>]\<rparr>))"

text \<open>The loop over the terms; a term that is too large is skipped, and its place keeps what it held.\<close>

fun set_terms :: "nat \<Rightarrow> odp_pmr_match_t list \<Rightarrow> pmr_term_value_t list \<Rightarrow> int \<Rightarrow> (int \<times> pmr_term_value_t list) option" where
  "set_terms i [] tv count = Some (count, tv)"
| "set_terms i (m # ms) tv count =
     (if sint (mt_val_sz m) > 8 then set_terms (Suc i) ms tv count
      else do { t \<leftarrow> odp_pmr_create_term m; set_terms (Suc i) ms (tv[i := t]) (count + 1) })"

definition odp_pmr_match_set_create :: "int \<Rightarrow> odp_pmr_match_t list \<Rightarrow> cls_state \<Rightarrow> (int \<times> u32 option \<times> cls_state) option" where
  "odp_pmr_match_set_create num_terms terms cl =
     (if num_terms > int ODP_PMRTERM_MAX then Some (- 1, None, cl)
      else case alloc_pmr_set cl of None \<Rightarrow> Some (- 1, Some (- 1), cl)
        | Some (i, cl) \<Rightarrow> do {
            (count, tv) \<leftarrow> set_terms 0 (take (nat num_terms) terms) (pm_term_value (cl_pmr_set cl ! i)) 0;
            Some (count, Some (of_nat i), cl\<lparr>cl_pmr_set := (cl_pmr_set cl)[i :=
              (cl_pmr_set cl ! i)\<lparr>pm_num_pmr := of_int num_terms, pm_term_value := tv\<rparr>]\<rparr>)
          })"

definition odp_pmr_match_set_destroy :: "u32 \<Rightarrow> cls_state \<Rightarrow> int \<times> cls_state" where
  "odp_pmr_match_set_destroy pmr_set_id cl =
     (case get_pmr_set_entry cl pmr_set_id of None \<Rightarrow> (- 1, cl)
      | Some i \<Rightarrow> (0, cl\<lparr>cl_pmr_set := (cl_pmr_set cl)[i := (cl_pmr_set cl ! i)\<lparr>pm_valid := False\<rparr>]\<rparr>))"

text \<open>The locked part that \<open>odp_pktio_pmr_cos\<close> and \<open>odp_pktio_pmr_match_set_cos\<close> repeat.\<close>

definition attach_pmr :: "nat \<Rightarrow> pmr_ref \<Rightarrow> nat \<Rightarrow> cls_state \<Rightarrow> int \<times> cls_state" where
  "attach_pmr i p c cl =
     (let n = cf_num_pmr (cl_pktio cl i) in
      if n \<ge> ODP_PKTIO_MAX_PMR then (- 1, cl)
      else (0, cls_enable i (upd_cls i (\<lambda>e. e\<lparr>cf_pmr := (cf_pmr e)[n := Some p], cf_cos := (cf_cos e)[n := Some c],
             cf_num_pmr := n + 1\<rparr>) cl)))"

definition odp_pktio_pmr_cos :: "u32 \<Rightarrow> nat option \<Rightarrow> u32 \<Rightarrow> cls_state \<Rightarrow> int \<times> cls_state" where
  "odp_pktio_pmr_cos pmr_id src_pktio dst_cos cl =
     (case src_pktio of None \<Rightarrow> (- 1, cl)
      | Some i \<Rightarrow> (case get_pmr_entry cl pmr_id of None \<Rightarrow> (- 1, cl)
          | Some p \<Rightarrow> (case get_cos_entry cl dst_cos of None \<Rightarrow> (- 1, cl) | Some c \<Rightarrow> attach_pmr i (Pmr p) c cl)))"

definition odp_pktio_pmr_match_set_cos :: "u32 \<Rightarrow> nat option \<Rightarrow> u32 \<Rightarrow> cls_state \<Rightarrow> int \<times> cls_state" where
  "odp_pktio_pmr_match_set_cos pmr_set_id src_pktio dst_cos cl =
     (case src_pktio of None \<Rightarrow> (- 1, cl)
      | Some i \<Rightarrow> (case get_pmr_set_entry cl pmr_set_id of None \<Rightarrow> (- 1, cl)
          | Some p \<Rightarrow> (case get_cos_entry cl dst_cos of None \<Rightarrow> (- 1, cl) | Some c \<Rightarrow> attach_pmr i (PmrSet p) c cl)))"

definition odp_cos_pmr_cos :: "u32 \<Rightarrow> u32 \<Rightarrow> u32 \<Rightarrow> cls_state \<Rightarrow> int \<times> cls_state" where
  "odp_cos_pmr_cos pmr_id src_cos dst_cos cl =
     (case (get_cos_entry cl src_cos, get_cos_entry cl dst_cos, get_pmr_entry cl pmr_id) of
        (Some s, Some d, Some p) \<Rightarrow> (0, upd_cos s (\<lambda>e. e\<lparr>cs_pmr := Some (Pmr p), cs_linked_cos := Some d\<rparr>) cl)
      | _ \<Rightarrow> (- 1, cl))"

text \<open>The terms \<open>ODP_PMR_LEN\<close>, \<open>ODP_PMR_IPPROTO\<close>, the ports and the IPv4 addresses, by their position in the enumeration.\<close>

definition odp_pmr_terms_cap :: u64 where
  "odp_pmr_terms_cap = push_bit 0 1 OR push_bit 6 1 OR push_bit 7 1 OR push_bit 8 1 OR push_bit 9 1 OR push_bit 10 1 OR
     push_bit 11 1 OR push_bit 12 1"

definition odp_pmr_terms_avail :: "cls_state \<Rightarrow> nat" where
  "odp_pmr_terms_avail cl = length (filter (\<lambda>i. \<not> pm_valid (cl_pmr cl ! i)) [0..<ODP_PMR_MAX_ENTRY])"

section \<open>Terms against a packet\<close>

definition be32 :: "(u32 \<Rightarrow> u8) \<Rightarrow> u32 \<Rightarrow> u32" where
  "be32 mem a = push_bit 16 (ucast (be16 mem a)) OR ucast (be16 mem (a + 2))"

definition verify_pmr_packet_len :: "odp_packet_hdr_t \<Rightarrow> pmr_term_value_t \<Rightarrow> bool" where
  "verify_pmr_packet_len h tv \<longleftrightarrow> pv_val tv = ucast (ph_frame_len h) AND pv_mask tv"

definition verify_pmr_ip_proto :: "(u32 \<Rightarrow> u8) \<Rightarrow> u32 \<Rightarrow> odp_packet_hdr_t \<Rightarrow> pmr_term_value_t \<Rightarrow> bool" where
  "verify_pmr_ip_proto mem pkt_addr h tv \<longleftrightarrow>
     if_ipv4 (ph_input_flags h) \<and> pv_val tv = ucast (mem (pkt_addr + ucast (ph_l3_offset h) + 9)) AND pv_mask tv"

definition verify_pmr_ipv4_saddr :: "(u32 \<Rightarrow> u8) \<Rightarrow> u32 \<Rightarrow> odp_packet_hdr_t \<Rightarrow> pmr_term_value_t \<Rightarrow> bool" where
  "verify_pmr_ipv4_saddr mem pkt_addr h tv \<longleftrightarrow>
     if_ipv4 (ph_input_flags h) \<and> pv_val tv = ucast (be32 mem (pkt_addr + ucast (ph_l3_offset h) + 12)) AND pv_mask tv"

definition verify_pmr_ipv4_daddr :: "(u32 \<Rightarrow> u8) \<Rightarrow> u32 \<Rightarrow> odp_packet_hdr_t \<Rightarrow> pmr_term_value_t \<Rightarrow> bool" where
  "verify_pmr_ipv4_daddr mem pkt_addr h tv \<longleftrightarrow>
     if_ipv4 (ph_input_flags h) \<and> pv_val tv = ucast (be32 mem (pkt_addr + ucast (ph_l3_offset h) + 16)) AND pv_mask tv"

definition verify_pmr_tcp_sport :: "(u32 \<Rightarrow> u8) \<Rightarrow> u32 \<Rightarrow> odp_packet_hdr_t \<Rightarrow> pmr_term_value_t \<Rightarrow> bool" where
  "verify_pmr_tcp_sport mem pkt_addr h tv \<longleftrightarrow>
     if_tcp (ph_input_flags h) \<and> pv_val tv = ucast (be16 mem (pkt_addr + ucast (ph_l4_offset h))) AND pv_mask tv"

definition verify_pmr_tcp_dport :: "(u32 \<Rightarrow> u8) \<Rightarrow> u32 \<Rightarrow> odp_packet_hdr_t \<Rightarrow> pmr_term_value_t \<Rightarrow> bool" where
  "verify_pmr_tcp_dport mem pkt_addr h tv \<longleftrightarrow>
     if_tcp (ph_input_flags h) \<and> pv_val tv = ucast (be16 mem (pkt_addr + ucast (ph_l4_offset h) + 2)) AND pv_mask tv"

definition verify_pmr_udp_dport :: "(u32 \<Rightarrow> u8) \<Rightarrow> u32 \<Rightarrow> odp_packet_hdr_t \<Rightarrow> pmr_term_value_t \<Rightarrow> bool" where
  "verify_pmr_udp_dport mem pkt_addr h tv \<longleftrightarrow>
     if_udp (ph_input_flags h) \<and> pv_val tv = ucast (be16 mem (pkt_addr + ucast (ph_l4_offset h) + 2)) AND pv_mask tv"

definition verify_pmr_udp_sport :: "(u32 \<Rightarrow> u8) \<Rightarrow> u32 \<Rightarrow> odp_packet_hdr_t \<Rightarrow> pmr_term_value_t \<Rightarrow> bool" where
  "verify_pmr_udp_sport mem pkt_addr h tv \<longleftrightarrow>
     if_udp (ph_input_flags h) \<and> pv_val tv = ucast (be16 mem (pkt_addr + ucast (ph_l4_offset h))) AND pv_mask tv"

definition verify_pmr_ipsec_spi :: "(u32 \<Rightarrow> u8) \<Rightarrow> u32 \<Rightarrow> odp_packet_hdr_t \<Rightarrow> pmr_term_value_t \<Rightarrow> bool" where
  "verify_pmr_ipsec_spi mem pkt_addr h tv \<longleftrightarrow>
     (if \<not> if_ipsec (ph_input_flags h) then False
      else let pkt_addr = pkt_addr + ucast (ph_l4_offset h) in
        if ph_l4_protocol h = ucast ODPH_IPPROTO_AH then pv_val tv = ucast (be32 mem (pkt_addr + 4)) AND pv_mask tv
        else if ph_l4_protocol h = ucast ODPH_IPPROTO_ESP then pv_val tv = ucast (be32 mem pkt_addr) AND pv_mask tv
        else False)"

text \<open>\<open>None\<close>: the assertion on the size fails.\<close>

definition verify_pmr_custom_frame :: "(u32 \<Rightarrow> u8) \<Rightarrow> u32 \<Rightarrow> odp_packet_hdr_t \<Rightarrow> pmr_term_value_t \<Rightarrow> bool option" where
  "verify_pmr_custom_frame mem pkt_addr h tv =
     (let offset = pv_offset tv; val_sz = pv_val_sz tv in
      if val_sz > ODP_PMR_TERM_BYTES_MAX then None
      else if ucast (ph_frame_len h) \<le> offset + val_sz then Some False
      else let val = le_word (map (\<lambda>k. mem (pkt_addr + offset + of_nat k)) [0..<unat val_sz])
        in Some (pv_val tv = val AND pv_mask tv))"

text \<open>The cases of the switch: the terms the code does not implement never match, \<open>ODP_PMR_INNER_HDR_OFF\<close> is not checked.\<close>

fun verify_term :: "(u32 \<Rightarrow> u8) \<Rightarrow> u32 \<Rightarrow> odp_packet_hdr_t \<Rightarrow> pmr_term_value_t \<Rightarrow> odp_pmr_term_e \<Rightarrow> bool option" where
  "verify_term mem a h tv ODP_PMR_LEN = Some (verify_pmr_packet_len h tv)"
| "verify_term mem a h tv ODP_PMR_ETHTYPE_0 = Some False"
| "verify_term mem a h tv ODP_PMR_ETHTYPE_X = Some False"
| "verify_term mem a h tv ODP_PMR_VLAN_ID_0 = Some False"
| "verify_term mem a h tv ODP_PMR_VLAN_ID_X = Some False"
| "verify_term mem a h tv ODP_PMR_DMAC = Some False"
| "verify_term mem a h tv ODP_PMR_IPPROTO = Some (verify_pmr_ip_proto mem a h tv)"
| "verify_term mem a h tv ODP_PMR_UDP_DPORT = Some (verify_pmr_udp_dport mem a h tv)"
| "verify_term mem a h tv ODP_PMR_TCP_DPORT = Some (verify_pmr_tcp_dport mem a h tv)"
| "verify_term mem a h tv ODP_PMR_UDP_SPORT = Some (verify_pmr_udp_sport mem a h tv)"
| "verify_term mem a h tv ODP_PMR_TCP_SPORT = Some (verify_pmr_tcp_sport mem a h tv)"
| "verify_term mem a h tv ODP_PMR_SIP_ADDR = Some (verify_pmr_ipv4_saddr mem a h tv)"
| "verify_term mem a h tv ODP_PMR_DIP_ADDR = Some (verify_pmr_ipv4_daddr mem a h tv)"
| "verify_term mem a h tv ODP_PMR_SIP6_ADDR = Some False"
| "verify_term mem a h tv ODP_PMR_DIP6_ADDR = Some False"
| "verify_term mem a h tv ODP_PMR_IPSEC_SPI = Some (verify_pmr_ipsec_spi mem a h tv)"
| "verify_term mem a h tv ODP_PMR_LD_VNI = Some False"
| "verify_term mem a h tv ODP_PMR_CUSTOM_FRAME = verify_pmr_custom_frame mem a h tv"
| "verify_term mem a h tv ODP_PMR_INNER_HDR_OFF = Some True"

fun verify_terms :: "(u32 \<Rightarrow> u8) \<Rightarrow> u32 \<Rightarrow> odp_packet_hdr_t \<Rightarrow> pmr_term_value_t list \<Rightarrow> bool option" where
  "verify_terms mem a h [] = Some True"
| "verify_terms mem a h (tv # tvs) =
     do { ok \<leftarrow> verify_term mem a h tv (pv_term tv); if ok then verify_terms mem a h tvs else Some False }"

section \<open>Choosing a class of service\<close>

fun pmr_at :: "cls_state \<Rightarrow> pmr_ref \<Rightarrow> pmr_s" where
  "pmr_at cl (Pmr i) = cl_pmr cl ! i"
| "pmr_at cl (PmrSet i) = cl_pmr_set cl ! i"

text \<open>\<open>odp_atomic_inc_u32\<close> on the number of packets that matched the rule.\<close>

fun pmr_count_inc :: "pmr_ref \<Rightarrow> cls_state \<Rightarrow> cls_state" where
  "pmr_count_inc (Pmr i) cl = cl\<lparr>cl_pmr := (cl_pmr cl)[i := (cl_pmr cl ! i)\<lparr>pm_count := pm_count (cl_pmr cl ! i) + 1\<rparr>]\<rparr>"
| "pmr_count_inc (PmrSet i) cl =
     cl\<lparr>cl_pmr_set := (cl_pmr_set cl)[i := (cl_pmr_set cl ! i)\<lparr>pm_count := pm_count (cl_pmr_set cl ! i) + 1\<rparr>]\<rparr>"

definition verify_pmr :: "pmr_ref \<Rightarrow> (u32 \<Rightarrow> u8) \<Rightarrow> u32 \<Rightarrow> odp_packet_hdr_t \<Rightarrow> cls_state \<Rightarrow> (bool \<times> cls_state) option" where
  "verify_pmr r mem pkt_addr h cl =
     (let p = pmr_at cl r in
      if \<not> pm_valid p then Some (False, cl)
      else do {
        ok \<leftarrow> verify_terms mem pkt_addr h (take (nat (sint (pm_num_pmr p))) (pm_term_value p));
        Some (if ok then (True, pmr_count_inc r cl) else (False, cl))
      })"

text \<open>The recursion follows the links between the classes; \<open>None\<close> also stands for a recursion that does not end.\<close>

partial_function (option) match_pmr_cos ::
  "nat option \<Rightarrow> (u32 \<Rightarrow> u8) \<Rightarrow> u32 \<Rightarrow> pmr_ref option \<Rightarrow> odp_packet_hdr_t \<Rightarrow> cls_state \<Rightarrow> (nat option \<times> cls_state) option" where
  "match_pmr_cos cos mem pkt_addr pmr h cl =
     (case cos of None \<Rightarrow> Some (None, cl)
      | Some c \<Rightarrow> (case pmr of None \<Rightarrow> Some (None, cl)
        | Some r \<Rightarrow>
            if \<not> cs_valid (cl_cos cl ! c) then Some (None, cl)
            else do {
              (ok, cl) \<leftarrow> verify_pmr r mem pkt_addr h cl;
              if ok
              then do {
                (retcos, cl) \<leftarrow> match_pmr_cos (cs_linked_cos (cl_cos cl ! c)) mem pkt_addr (cs_pmr (cl_cos cl ! c)) h cl;
                Some (if retcos = None then Some c else retcos, cl)
              }
              else Some (None, cl)
            }))"

definition ODPH_IPV4HDR_DSCP :: "u8 \<Rightarrow> u8" where "ODPH_IPV4HDR_DSCP tos = drop_bit 2 (tos AND 0xfc)"
definition ODPH_IPV6HDR_DSCP :: "u32 \<Rightarrow> u8" where
  "ODPH_IPV6HDR_DSCP ver_tc_flow = ucast (drop_bit 22 (ver_tc_flow AND 0x0fc00000) AND 0xff)"

text \<open>The first word of the IPv6 header is used as it is loaded.\<close>

definition match_qos_l3_cos :: "nat option list \<Rightarrow> (u32 \<Rightarrow> u8) \<Rightarrow> u32 \<Rightarrow> odp_packet_hdr_t \<Rightarrow> nat option" where
  "match_qos_l3_cos l3_cos mem pkt_addr h =
     (let f = ph_input_flags h; l3 = pkt_addr + ucast (ph_l3_offset h) in
      if if_l3 f \<and> if_ipv4 f then l3_cos ! unat (ODPH_IPV4HDR_DSCP (mem (l3 + 1)))
      else if if_l3 f \<and> if_ipv6 f
        then l3_cos ! unat (ODPH_IPV6HDR_DSCP (le_word [mem l3, mem (l3 + 1), mem (l3 + 2), mem (l3 + 3)]))
      else None)"

definition match_qos_l2_cos :: "nat option list \<Rightarrow> (u32 \<Rightarrow> u8) \<Rightarrow> u32 \<Rightarrow> odp_packet_hdr_t \<Rightarrow> nat option" where
  "match_qos_l2_cos l2_cos mem pkt_addr h =
     (let f = ph_input_flags h in
      if if_l2 f \<and> if_vlan f \<and> if_eth f
      then let qos = be16 mem (pkt_addr + ucast (ph_l2_offset h) + 12 + 2); qos = drop_bit 13 qos AND 0x07
        in l2_cos ! unat qos
      else None)"

definition match_qos_cos :: "classifier_t \<Rightarrow> (u32 \<Rightarrow> u8) \<Rightarrow> u32 \<Rightarrow> odp_packet_hdr_t \<Rightarrow> nat option" where
  "match_qos_cos c mem pkt_addr h =
     (let l3 = match_qos_l3_cos (cf_l3_cos c) mem pkt_addr h; l2 = match_qos_l2_cos (cf_l2_cos c) mem pkt_addr h in
      if cf_l3_precedence c then if l3 \<noteq> None then l3 else l2
      else if l2 \<noteq> None then l2 else l3)"

text \<open>The loop over the rules of the interface.\<close>

fun pktio_rules ::
  "(pmr_ref option \<times> nat option) list \<Rightarrow> (u32 \<Rightarrow> u8) \<Rightarrow> u32 \<Rightarrow> odp_packet_hdr_t \<Rightarrow> cls_state \<Rightarrow> (nat option \<times> cls_state) option" where
  "pktio_rules [] mem pkt_addr h cl = Some (None, cl)"
| "pktio_rules ((p, c) # rs) mem pkt_addr h cl =
     do {
       (cos, cl) \<leftarrow> match_pmr_cos c mem pkt_addr p h cl;
       if cos \<noteq> None then Some (cos, cl) else pktio_rules rs mem pkt_addr h cl
     }"

text \<open>The class chosen, and the header after the lazy parse.\<close>

definition pktio_select_cos ::
  "nat \<Rightarrow> (u32 \<Rightarrow> u8) \<Rightarrow> u32 \<Rightarrow> odp_packet_hdr_t \<Rightarrow> cls_state \<Rightarrow> (nat option \<times> odp_packet_hdr_t \<times> cls_state) option" where
  "pktio_select_cos i mem pkt_addr h cl =
     (let c = cl_pktio cl i; h = packet_parse_lazy mem h in
      if ph_error_flags h \<noteq> error_flags_zero then Some (cf_error_cos c, h, cl)
      else do {
        (cos, cl) \<leftarrow> pktio_rules (take (cf_num_pmr c) (zip (cf_pmr c) (cf_cos c))) mem pkt_addr h cl;
        if cos \<noteq> None then Some (cos, h, cl)
        else let q = match_qos_cos c mem pkt_addr h in
          if q \<noteq> None then Some (q, h, cl) else Some (cf_default_cos c, h, cl)
      })"

section \<open>Dispatching a packet\<close>

definition packet_drop :: "bool \<Rightarrow> u32 \<Rightarrow> odp_state \<Rightarrow> odp_state option" where
  "packet_drop nofree pkt st = do { t \<leftarrow> odp_packet_free nofree (os_pools st) pkt; Some (st\<lparr>os_pools := t\<rparr>) }"

text \<open>\<open>nofree\<close> and \<open>io\<close> are the parameters of the models of \<open>odp_packet_free\<close> and \<open>queue_enq\<close>.\<close>

definition odp_packet_classifier ::
  "bool \<Rightarrow> (odp_state \<Rightarrow> nat \<Rightarrow> u32 list \<Rightarrow> int \<times> odp_state) \<Rightarrow> nat option \<Rightarrow> u32 \<Rightarrow> cls_state \<Rightarrow> odp_state \<Rightarrow>
   (int \<times> cls_state \<times> odp_state) option" where
  "odp_packet_classifier nofree io entry pkt cl st =
     (case entry of None \<Rightarrow> Some (- 1, cl, st)
      | Some i \<Rightarrow> do {
          (cos, h, cl) \<leftarrow> pktio_select_cos i (om_byte (pt_mem (os_pools st))) (odp_packet_data (hdr st pkt)) (hdr st pkt) cl;
          let st = upd_buf pkt (\<lambda>_. h) st;
          case cos of None \<Rightarrow> Some (- 1, cl, st)
          | Some c \<Rightarrow> (case cs_pool (cl_cos cl ! c) of
              None \<Rightarrow> do { st \<leftarrow> packet_drop nofree pkt st; Some (- 1, cl, st) }
            | Some pool \<Rightarrow> (case cs_queue (cl_cos cl ! c) of
                None \<Rightarrow> do { st \<leftarrow> packet_drop nofree pkt st; Some (- 1, cl, st) }
              | Some queue \<Rightarrow>
                  if bh_pool_hdl (hdr st pkt) \<noteq> Some pool
                  then do {
                    (new_pkt, t) \<leftarrow> odp_packet_copy nofree (os_pools st) pkt pool;
                    st \<leftarrow> packet_drop nofree pkt (st\<lparr>os_pools := t\<rparr>);
                    if new_pkt = 0 then Some (- 1, cl, st)
                    else do { (rc, st) \<leftarrow> queue_enq io st queue new_pkt False; Some (rc, cl, st) }
                  }
                  else do { (rc, st) \<leftarrow> queue_enq io st queue pkt False; Some (rc, cl, st) }))
        })"

definition packet_classifier ::
  "bool \<Rightarrow> (odp_state \<Rightarrow> nat \<Rightarrow> u32 list \<Rightarrow> int \<times> odp_state) \<Rightarrow> nat option \<Rightarrow> u32 \<Rightarrow> cls_state \<Rightarrow> odp_state \<Rightarrow>
   (int \<times> cls_state \<times> odp_state) option" where
  "packet_classifier nofree io pktio pkt cl st =
     (if pktio = None then Some (- 1, cl, st) else odp_packet_classifier nofree io pktio pkt cl st)"

section \<open>The well-formed configuration\<close>

fun ref_ok :: "pmr_ref \<Rightarrow> bool" where
  "ref_ok (Pmr i) = (i < ODP_PMR_MAX_ENTRY)"
| "ref_ok (PmrSet i) = (i < ODP_PMRSET_MAX_ENTRY)"

definition cos_ref_ok :: "nat option \<Rightarrow> bool" where
  "cos_ref_ok c \<longleftrightarrow> (\<forall>d. c = Some d \<longrightarrow> d < ODP_COS_MAX_ENTRY)"

definition pmr_ok :: "nat \<Rightarrow> pmr_s \<Rightarrow> bool" where
  "pmr_ok n p \<longleftrightarrow> length (pm_term_value p) = n \<and> sint (pm_num_pmr p) \<le> int n \<and>
     (\<forall>tv\<in>set (pm_term_value p). pv_val_sz tv \<le> ODP_PMR_TERM_BYTES_MAX)"

definition cos_ok :: "cos_s \<Rightarrow> bool" where
  "cos_ok c \<longleftrightarrow> cos_ref_ok (cs_linked_cos c) \<and> (\<forall>r. cs_pmr c = Some r \<longrightarrow> ref_ok r)"

definition cf_ok :: "classifier_t \<Rightarrow> bool" where
  "cf_ok e \<longleftrightarrow> length (cf_pmr e) = ODP_PKTIO_MAX_PMR \<and> length (cf_cos e) = ODP_PKTIO_MAX_PMR \<and> cf_num_pmr e \<le> ODP_PKTIO_MAX_PMR \<and>
     (\<forall>k<cf_num_pmr e. \<exists>r c. cf_pmr e ! k = Some r \<and> cf_cos e ! k = Some c \<and> ref_ok r \<and> c < ODP_COS_MAX_ENTRY) \<and>
     length (cf_l2_cos e) = ODP_COS_MAX_L2_QOS \<and> length (cf_l3_cos e) = ODP_COS_MAX_L3_QOS \<and>
     (\<forall>c\<in>set (cf_l2_cos e). cos_ref_ok c) \<and> (\<forall>c\<in>set (cf_l3_cos e). cos_ref_ok c) \<and>
     cos_ref_ok (cf_error_cos e) \<and> cos_ref_ok (cf_default_cos e)"

definition cls_inv :: "cls_state \<Rightarrow> bool" where
  "cls_inv cl \<longleftrightarrow> length (cl_cos cl) = ODP_COS_MAX_ENTRY \<and> length (cl_pmr cl) = ODP_PMR_MAX_ENTRY \<and>
     length (cl_pmr_set cl) = ODP_PMRSET_MAX_ENTRY \<and> (\<forall>c\<in>set (cl_cos cl). cos_ok c) \<and> (\<forall>p\<in>set (cl_pmr cl). pmr_ok 1 p) \<and>
     (\<forall>p\<in>set (cl_pmr_set cl). pmr_ok ODP_PMRTERM_MAX p) \<and> (\<forall>i. cf_ok (cl_pktio cl i))"

lemma set_update_ball:
  assumes "\<forall>x\<in>set xs. P x" "i < length xs \<Longrightarrow> P (xs ! i) \<Longrightarrow> P y"
  shows "\<forall>x\<in>set (xs[i := y]). P x"
proof (cases "i < length xs")
  case True
  then have "P y" using assms by simp
  then show ?thesis using assms(1) set_update_subset_insert [of xs i y] by blast
qed (use assms(1) in \<open>simp add: list_update_beyond\<close>)

lemma find_upt:
  assumes "find P [0..<n] = Some i"
  shows "i < n" "P i"
  using assms unfolding find_Some_iff by auto

lemma get_cos_SomeD: "get_cos_entry cl x = Some c \<Longrightarrow> c < ODP_COS_MAX_ENTRY \<and> c = unat x \<and> cs_valid (cl_cos cl ! c)"
  by (auto simp: get_cos_entry_def split: if_splits)

lemma get_pmr_SomeD: "get_pmr_entry cl x = Some c \<Longrightarrow> c < ODP_PMR_MAX_ENTRY \<and> c = unat x \<and> pm_valid (cl_pmr cl ! c)"
  by (auto simp: get_pmr_entry_def split: if_splits)

lemma get_pmr_set_SomeD: "get_pmr_set_entry cl x = Some c \<Longrightarrow> c < ODP_PMRSET_MAX_ENTRY \<and> c = unat x \<and> pm_valid (cl_pmr_set cl ! c)"
  by (auto simp: get_pmr_set_entry_def split: if_splits)

lemma cls_inv_upd_cos:
  assumes "cls_inv cl" "c < ODP_COS_MAX_ENTRY \<Longrightarrow> cos_ok (cl_cos cl ! c) \<Longrightarrow> cos_ok (f (cl_cos cl ! c))"
  shows "cls_inv (upd_cos c f cl)"
proof -
  have "\<forall>x\<in>set ((cl_cos cl)[c := f (cl_cos cl ! c)]). cos_ok x"
    by (rule set_update_ball) (use assms in \<open>simp_all add: cls_inv_def\<close>)
  then show ?thesis using assms(1) by (simp add: cls_inv_def upd_cos_def)
qed

lemma cls_inv_upd_cls:
  assumes "cls_inv cl" "cf_ok (cl_pktio cl i) \<Longrightarrow> cf_ok (f (cl_pktio cl i))"
  shows "cls_inv (upd_cls i f cl)"
  using assms by (simp add: cls_inv_def upd_cls_def)

lemma cls_inv_enable [simp]: "cls_inv (cls_enable i cl) = cls_inv cl"
  by (simp add: cls_inv_def cls_enable_def)

lemma cls_inv_set_pmr:
  assumes "cls_inv cl" "i < ODP_PMR_MAX_ENTRY \<Longrightarrow> pmr_ok 1 (cl_pmr cl ! i) \<Longrightarrow> pmr_ok 1 p"
  shows "cls_inv (cl\<lparr>cl_pmr := (cl_pmr cl)[i := p]\<rparr>)"
proof -
  have "\<forall>x\<in>set ((cl_pmr cl)[i := p]). pmr_ok 1 x"
    by (rule set_update_ball) (use assms in \<open>simp_all add: cls_inv_def\<close>)
  then show ?thesis using assms(1) by (simp add: cls_inv_def)
qed

lemma cls_inv_set_pmr_set:
  assumes "cls_inv cl" "i < ODP_PMRSET_MAX_ENTRY \<Longrightarrow> pmr_ok ODP_PMRTERM_MAX (cl_pmr_set cl ! i) \<Longrightarrow> pmr_ok ODP_PMRTERM_MAX p"
  shows "cls_inv (cl\<lparr>cl_pmr_set := (cl_pmr_set cl)[i := p]\<rparr>)"
proof -
  have "\<forall>x\<in>set ((cl_pmr_set cl)[i := p]). pmr_ok ODP_PMRTERM_MAX x"
    by (rule set_update_ball) (use assms in \<open>simp_all add: cls_inv_def\<close>)
  then show ?thesis using assms(1) by (simp add: cls_inv_def)
qed

subsection \<open>The calls keep it\<close>

lemma cos_create_inv: "cls_inv cl \<Longrightarrow> cls_inv (snd (odp_cls_cos_create name param cl))"
  by (auto simp: odp_cls_cos_create_def cos_ok_def cos_ref_ok_def split: option.splits intro!: cls_inv_upd_cos)

lemma cos_set_inv:
  assumes "cls_inv cl"
  shows "cls_inv (snd (odp_cos_destroy x cl))" "cls_inv (snd (odp_cos_queue_set x q cl))" "cls_inv (snd (odp_cos_drop_set x d cl))"
    "cls_inv (snd (odp_cls_cos_pool_set x pl cl))"
  using assms by (auto simp: odp_cos_destroy_def odp_cos_queue_set_def odp_cos_drop_set_def odp_cls_cos_pool_set_def cos_ok_def
    split: option.splits intro!: cls_inv_upd_cos)

lemma cos_link_inv: "cls_inv cl \<Longrightarrow> cls_inv (snd (odp_cos_pmr_cos p s d cl))"
  by (auto simp: odp_cos_pmr_cos_def cos_ok_def cos_ref_ok_def split: option.splits intro!: cls_inv_upd_cos
    dest!: get_cos_SomeD get_pmr_SomeD)

lemma cf_set_inv:
  assumes "cls_inv cl"
  shows "cls_inv (snd (odp_pktio_default_cos_set e x cl))" "cls_inv (snd (odp_pktio_error_cos_set e x cl))"
    "cls_inv (snd (odp_pktio_skip_set e y cl))" "cls_inv (snd (odp_pktio_headroom_set e y cl))"
    "cls_inv (snd (pktio_classifier_init e cl))"
  using assms by (auto simp: odp_pktio_default_cos_set_def odp_pktio_error_cos_set_def odp_pktio_skip_set_def odp_pktio_headroom_set_def
    pktio_classifier_init_def cf_ok_def cos_ref_ok_def split: option.splits intro!: cls_inv_upd_cls dest!: get_cos_SomeD)

lemma set_qos_ok:
  assumes "\<forall>c\<in>set tbl. cos_ref_ok c"
  shows "length (set_qos cl qs tbl) = length tbl" "\<forall>c\<in>set (set_qos cl qs tbl). cos_ref_ok c"
proof -
  have "length (set_qos cl qs tbl) = length tbl \<and> (\<forall>c\<in>set (set_qos cl qs tbl). cos_ref_ok c)"
    using assms
  proof (induction cl qs tbl rule: set_qos.induct)
    case (2 cl q c qs tbl)
    show ?case
    proof (cases "get_cos_entry cl c")
      case None
      then show ?thesis using 2 by simp
    next
      case (Some e)
      have "\<forall>x\<in>set (tbl[unat q := Some e]). cos_ref_ok x"
        using 2(3) by (rule set_update_ball) (use get_cos_SomeD [OF Some] in \<open>simp add: cos_ref_ok_def\<close>)
      then show ?thesis using 2(2) [OF Some] 2(3) Some by simp
    qed
  qed simp
  then show "length (set_qos cl qs tbl) = length tbl" "\<forall>c\<in>set (set_qos cl qs tbl). cos_ref_ok c" by simp_all
qed

lemma qos_inv:
  assumes "cls_inv cl"
  shows "cls_inv (snd (odp_cos_with_l2_priority e qos cl))" "cls_inv (snd (odp_cos_with_l3_qos e qos b cl))"
  using assms by (auto simp: odp_cos_with_l2_priority_def odp_cos_with_l3_qos_def cf_ok_def set_qos_ok split: option.splits
    intro!: cls_inv_upd_cls dest: set_qos_ok(2) [rule_format, rotated])

lemma attach_inv:
  assumes "cls_inv cl" "ref_ok r" "c < ODP_COS_MAX_ENTRY"
  shows "cls_inv (snd (attach_pmr i r c cl))"
  using assms by (auto simp: attach_pmr_def Let_def cf_ok_def less_Suc_eq nth_list_update intro!: cls_inv_upd_cls)

lemma attach_calls_inv:
  assumes "cls_inv cl"
  shows "cls_inv (snd (odp_pktio_pmr_cos p e c cl))" "cls_inv (snd (odp_pktio_pmr_match_set_cos p e c cl))"
  using assms by (auto simp: odp_pktio_pmr_cos_def odp_pktio_pmr_match_set_cos_def split: option.splits intro!: attach_inv
    dest!: get_cos_SomeD get_pmr_SomeD get_pmr_set_SomeD)

lemma create_term_size: "odp_pmr_create_term m = Some t \<Longrightarrow> pv_val_sz t \<le> ODP_PMR_TERM_BYTES_MAX"
  by (auto simp: odp_pmr_create_term_def Let_def class_consts split: if_splits)

lemma alloc_pmr_inv: "cls_inv cl \<Longrightarrow> alloc_pmr cl = Some (i, cl') \<Longrightarrow> cls_inv cl'"
  by (auto simp: alloc_pmr_def pmr_taken_def pmr_ok_def split: option.splits intro!: cls_inv_set_pmr)

lemma alloc_pmr_set_inv: "cls_inv cl \<Longrightarrow> alloc_pmr_set cl = Some (i, cl') \<Longrightarrow> cls_inv cl'"
  by (auto simp: alloc_pmr_set_def pmr_taken_def pmr_ok_def split: option.splits intro!: cls_inv_set_pmr_set)

lemma pmr_create_inv:
  assumes "cls_inv cl" "odp_pmr_create m cl = Some (x, cl')"
  shows "cls_inv cl'"
proof (cases "mt_val_sz m > ODP_PMR_TERM_BYTES_MAX \<or> alloc_pmr cl = None")
  case True
  then show ?thesis using assms by (auto simp: odp_pmr_create_def split: if_splits)
next
  case False
  then obtain i cl1 where a: "alloc_pmr cl = Some (i, cl1)" by auto
  obtain t where t: "odp_pmr_create_term m = Some t"
    using False assms(2) a by (auto simp: odp_pmr_create_def split: bind_splits)
  have "\<forall>x\<in>set ((pm_term_value p)[0 := t]). pv_val_sz x \<le> ODP_PMR_TERM_BYTES_MAX" if "pmr_ok 1 p" for p
    using that create_term_size [OF t] by (intro set_update_ball) (simp_all add: pmr_ok_def)
  then have "pmr_ok 1 (p\<lparr>pm_num_pmr := 1, pm_term_value := (pm_term_value p)[0 := t]\<rparr>)" if "pmr_ok 1 p" for p
    using that by (simp add: pmr_ok_def)
  then show ?thesis
    using assms(2) False a t alloc_pmr_inv [OF assms(1) a] by (auto simp: odp_pmr_create_def intro!: cls_inv_set_pmr)
qed

lemma set_terms_ok:
  assumes "set_terms i ms tv count = Some (k, tv')" "\<forall>t\<in>set tv. pv_val_sz t \<le> ODP_PMR_TERM_BYTES_MAX"
  shows "length tv' = length tv \<and> (\<forall>t\<in>set tv'. pv_val_sz t \<le> ODP_PMR_TERM_BYTES_MAX)"
  using assms
proof (induction i ms tv count rule: set_terms.induct)
  case (2 i m ms tv count)
  show ?case
  proof (cases "sint (mt_val_sz m) > 8")
    case False
    then obtain t where t: "odp_pmr_create_term m = Some t" using 2(3) by (cases "odp_pmr_create_term m") auto
    have "\<forall>x\<in>set (tv[i := t]). pv_val_sz x \<le> ODP_PMR_TERM_BYTES_MAX"
      using 2(4) create_term_size [OF t] by (rule set_update_ball)
    then show ?thesis using 2(2) [OF False t] 2(3) False t by simp
  qed (use 2 in simp)
qed simp

lemma match_set_create_inv:
  assumes "cls_inv cl" "odp_pmr_match_set_create n ms cl = Some (k, x, cl')" "- (2 ^ 31) \<le> n"
  shows "cls_inv cl'"
proof (cases "n > int ODP_PMRTERM_MAX \<or> alloc_pmr_set cl = None")
  case True
  then show ?thesis using assms by (auto simp: odp_pmr_match_set_create_def split: if_splits)
next
  case False
  then obtain i cl1 where a: "alloc_pmr_set cl = Some (i, cl1)" by auto
  let ?p = "cl_pmr_set cl1 ! i"
  obtain c tv where s: "set_terms 0 (take (nat n) ms) (pm_term_value ?p) 0 = Some (c, tv)"
    using False assms(2) a by (auto simp: odp_pmr_match_set_create_def split: if_splits bind_splits)
  have "sint (of_int n :: u32) \<le> int ODP_PMRTERM_MAX"
    using False assms(3) by (simp add: class_consts signed_of_int signed_take_bit_int_eq_self)
  then have "pmr_ok ODP_PMRTERM_MAX ?p \<Longrightarrow> pmr_ok ODP_PMRTERM_MAX (?p\<lparr>pm_num_pmr := of_int n, pm_term_value := tv\<rparr>)"
    using set_terms_ok [OF s] by (simp add: pmr_ok_def)
  then show ?thesis
    using assms(2) False a s alloc_pmr_set_inv [OF assms(1) a]
    by (auto simp: odp_pmr_match_set_create_def intro!: cls_inv_set_pmr_set)
qed

lemma pmr_destroy_inv:
  assumes "cls_inv cl"
  shows "cls_inv (snd (odp_pmr_destroy x cl))" "cls_inv (snd (odp_pmr_match_set_destroy x cl))"
  using assms by (auto simp: odp_pmr_destroy_def odp_pmr_match_set_destroy_def pmr_ok_def split: option.splits
    intro!: cls_inv_set_pmr cls_inv_set_pmr_set)

section \<open>What a rule matches\<close>

definition pmr_matches :: "cls_state \<Rightarrow> (u32 \<Rightarrow> u8) \<Rightarrow> u32 \<Rightarrow> odp_packet_hdr_t \<Rightarrow> pmr_ref \<Rightarrow> bool" where
  "pmr_matches cl mem a h r \<longleftrightarrow> pm_valid (pmr_at cl r) \<and>
     (\<forall>tv\<in>set (take (nat (sint (pm_num_pmr (pmr_at cl r)))) (pm_term_value (pmr_at cl r))). verify_term mem a h tv (pv_term tv) = Some True)"

text \<open>Two configurations that differ at most in the counters of the rules.\<close>

definition pmr_core :: "pmr_s \<Rightarrow> pmr_s" where "pmr_core p = p\<lparr>pm_count := 0\<rparr>"

definition same_rules :: "cls_state \<Rightarrow> cls_state \<Rightarrow> bool" where
  "same_rules cl cl' \<longleftrightarrow> cl_cos cl' = cl_cos cl \<and> cl_pktio cl' = cl_pktio cl \<and> cl_enabled cl' = cl_enabled cl \<and>
     map pmr_core (cl_pmr cl') = map pmr_core (cl_pmr cl) \<and> map pmr_core (cl_pmr_set cl') = map pmr_core (cl_pmr_set cl)"

lemma same_rules_refl [simp]: "same_rules cl cl"
  by (simp add: same_rules_def)

lemma same_rules_trans: "same_rules a b \<Longrightarrow> same_rules b c \<Longrightarrow> same_rules a c"
  by (simp add: same_rules_def)

lemma map_core_update [simp]: "map pmr_core (ps[i := (ps ! i)\<lparr>pm_count := n\<rparr>]) = map pmr_core ps"
  by (cases "i < length ps") (auto simp: map_update pmr_core_def list_update_beyond intro!: list_update_same_conv [THEN iffD2])

lemma same_rules_inc [simp]: "same_rules cl (pmr_count_inc r cl)"
  by (cases r) (simp_all add: same_rules_def)

lemma core_eqD:
  assumes "pmr_core p = pmr_core q"
  shows "pm_valid p = pm_valid q" "pm_num_pmr p = pm_num_pmr q" "pm_term_value p = pm_term_value q"
  using assms by (cases p, cases q, simp add: pmr_core_def)+

lemma same_rules_at:
  assumes "same_rules cl cl'" "cls_inv cl" "ref_ok r"
  shows "pmr_core (pmr_at cl' r) = pmr_core (pmr_at cl r)"
proof -
  have l: "length (cl_pmr cl') = length (cl_pmr cl)" "length (cl_pmr_set cl') = length (cl_pmr_set cl)"
    using assms(1) unfolding same_rules_def by (metis length_map)+
  show ?thesis
  proof (cases r)
    case (Pmr i)
    then have "i < length (cl_pmr cl)" using assms by (simp add: cls_inv_def)
    then show ?thesis using assms(1) l nth_map [of i "cl_pmr cl'" pmr_core] nth_map [of i "cl_pmr cl" pmr_core]
      by (simp add: same_rules_def Pmr)
  next
    case (PmrSet i)
    then have "i < length (cl_pmr_set cl)" using assms by (simp add: cls_inv_def)
    then show ?thesis using assms(1) l nth_map [of i "cl_pmr_set cl'" pmr_core] nth_map [of i "cl_pmr_set cl" pmr_core]
      by (simp add: same_rules_def PmrSet)
  qed
qed

lemma same_rules_matches:
  assumes "same_rules cl cl'" "cls_inv cl" "ref_ok r"
  shows "pmr_matches cl' mem a h r = pmr_matches cl mem a h r"
  using core_eqD [OF same_rules_at [OF assms]] by (simp add: pmr_matches_def)

lemma pmr_ok_core: "pmr_ok n (pmr_core p) = pmr_ok n p"
  by (simp add: pmr_ok_def pmr_core_def)

lemma same_rules_inv:
  assumes "same_rules cl cl'" "cls_inv cl"
  shows "cls_inv cl'"
proof -
  have ok: "(\<forall>p\<in>set xs. pmr_ok n p) = (\<forall>p\<in>set (map pmr_core xs). pmr_ok n p)" for n xs
    by (simp add: pmr_ok_core)
  have l: "length (cl_pmr cl') = length (cl_pmr cl)" "length (cl_pmr_set cl') = length (cl_pmr_set cl)"
    using assms(1) unfolding same_rules_def by (metis length_map)+
  show ?thesis
    using assms l ok [of "cl_pmr cl" 1] ok [of "cl_pmr cl'" 1] ok [of "cl_pmr_set cl" ODP_PMRTERM_MAX]
      ok [of "cl_pmr_set cl'" ODP_PMRTERM_MAX]
    unfolding cls_inv_def same_rules_def by metis
qed

lemma verify_term_total:
  assumes "pv_val_sz tv \<le> ODP_PMR_TERM_BYTES_MAX"
  shows "\<exists>b. verify_term mem a h tv t = Some b"
  using assms by (cases t) (auto simp: verify_pmr_custom_frame_def Let_def not_less)

lemma verify_terms_eq:
  assumes "\<forall>tv\<in>set tvs. pv_val_sz tv \<le> ODP_PMR_TERM_BYTES_MAX"
  shows "verify_terms mem a h tvs = Some (\<forall>tv\<in>set tvs. verify_term mem a h tv (pv_term tv) = Some True)"
  using assms
proof (induction tvs)
  case (Cons tv tvs)
  then obtain b where "verify_term mem a h tv (pv_term tv) = Some b" using verify_term_total [of tv] by force
  then show ?case using Cons by (cases b) auto
qed simp

lemma pmr_at_ok:
  assumes "cls_inv cl" "ref_ok r"
  shows "\<forall>tv\<in>set (pm_term_value (pmr_at cl r)). pv_val_sz tv \<le> ODP_PMR_TERM_BYTES_MAX"
proof (cases r)
  case (Pmr i)
  then have "pmr_ok 1 (cl_pmr cl ! i)" using assms nth_mem [of i "cl_pmr cl"] by (simp add: cls_inv_def)
  then show ?thesis by (simp add: pmr_ok_def Pmr)
next
  case (PmrSet i)
  then have "pmr_ok ODP_PMRTERM_MAX (cl_pmr_set cl ! i)" using assms nth_mem [of i "cl_pmr_set cl"] by (simp add: cls_inv_def)
  then show ?thesis by (simp add: pmr_ok_def PmrSet)
qed

lemma verify_pmr_eq:
  assumes "cls_inv cl" "ref_ok r"
  shows "verify_pmr r mem a h cl = Some (if pmr_matches cl mem a h r then (True, pmr_count_inc r cl) else (False, cl))"
proof -
  have "verify_terms mem a h (take k (pm_term_value (pmr_at cl r))) =
      Some (\<forall>tv\<in>set (take k (pm_term_value (pmr_at cl r))). verify_term mem a h tv (pv_term tv) = Some True)" for k
    by (rule verify_terms_eq) (use pmr_at_ok [OF assms] in_set_takeD in fast)
  then show ?thesis by (simp add: verify_pmr_def pmr_matches_def Let_def)
qed

section \<open>The class a packet gets\<close>

text \<open>A class is entered by a rule when the class is valid and the rule matches. From a class entered the packet goes on to the
  class it is linked to, as long as that class is entered too.\<close>

definition enters :: "cls_state \<Rightarrow> (u32 \<Rightarrow> u8) \<Rightarrow> u32 \<Rightarrow> odp_packet_hdr_t \<Rightarrow> nat option \<Rightarrow> pmr_ref option \<Rightarrow> bool" where
  "enters cl mem a h cos pmr \<longleftrightarrow>
     (\<exists>c r. cos = Some c \<and> pmr = Some r \<and> cs_valid (cl_cos cl ! c) \<and> pmr_matches cl mem a h r)"

inductive class_of ::
  "cls_state \<Rightarrow> (u32 \<Rightarrow> u8) \<Rightarrow> u32 \<Rightarrow> odp_packet_hdr_t \<Rightarrow> nat option \<Rightarrow> pmr_ref option \<Rightarrow> nat \<Rightarrow> bool"
  for cl mem a h where
  stop: "enters cl mem a h (Some c) pmr \<Longrightarrow> \<not> enters cl mem a h (cs_linked_cos (cl_cos cl ! c)) (cs_pmr (cl_cos cl ! c)) \<Longrightarrow>
     class_of cl mem a h (Some c) pmr c"
| follow: "enters cl mem a h (Some c) pmr \<Longrightarrow> class_of cl mem a h (cs_linked_cos (cl_cos cl ! c)) (cs_pmr (cl_cos cl ! c)) d \<Longrightarrow>
     class_of cl mem a h (Some c) pmr d"

definition links_ranked :: "(nat \<Rightarrow> nat) \<Rightarrow> cls_state \<Rightarrow> bool" where
  "links_ranked rank cl \<longleftrightarrow>
     (\<forall>c<ODP_COS_MAX_ENTRY. \<forall>d. cs_linked_cos (cl_cos cl ! c) = Some d \<longrightarrow> rank d < rank c)"

definition pmr_ref_ok :: "pmr_ref option \<Rightarrow> bool" where
  "pmr_ref_ok p \<longleftrightarrow> (\<forall>r. p = Some r \<longrightarrow> ref_ok r)"

lemma class_of_enters: "class_of cl mem a h cos pmr d \<Longrightarrow> enters cl mem a h cos pmr"
  by (induction rule: class_of.induct) simp_all

lemma match_pmr_cos_correct:
  assumes "cls_inv cl" "same_rules cl cl1" "links_ranked rank cl" "cos_ref_ok cos" "pmr_ref_ok pmr"
  shows "\<exists>x cl2. match_pmr_cos cos mem a pmr h cl1 = Some (x, cl2) \<and> same_rules cl cl2 \<and>
     (if enters cl mem a h cos pmr then \<exists>d. x = Some d \<and> class_of cl mem a h cos pmr d else x = None)"
  using assms(2,4,5)
proof (induction "case cos of None \<Rightarrow> 0 | Some c \<Rightarrow> Suc (rank c)" arbitrary: cos pmr cl1 rule: less_induct)
  case less
  show ?case
  proof (cases "\<exists>c r. cos = Some c \<and> pmr = Some r \<and> cs_valid (cl_cos cl ! c)")
    case False
    then have "match_pmr_cos cos mem a pmr h cl1 = Some (None, cl1)"
      using less.prems(1) by (subst match_pmr_cos.simps) (auto simp: same_rules_def split: option.splits)
    moreover have "\<not> enters cl mem a h cos pmr" using False by (auto simp: enters_def)
    ultimately show ?thesis using less.prems(1) by simp
  next
    case True
    then obtain c r where cr: "cos = Some c" "pmr = Some r" "cs_valid (cl_cos cl ! c)" by blast
    have ok: "ref_ok r" "c < ODP_COS_MAX_ENTRY" using less.prems cr by (simp_all add: pmr_ref_ok_def cos_ref_ok_def)
    have cos: "cl_cos cl1 = cl_cos cl" using less.prems(1) by (simp add: same_rules_def)
    have v: "verify_pmr r mem a h cl1 = Some (if pmr_matches cl mem a h r then (True, pmr_count_inc r cl1) else (False, cl1))"
      using verify_pmr_eq [OF same_rules_inv [OF less.prems(1) assms(1)] ok(1)] same_rules_matches [OF less.prems(1) assms(1) ok(1)] by simp
    show ?thesis
    proof (cases "pmr_matches cl mem a h r")
      case False
      then have "match_pmr_cos cos mem a pmr h cl1 = Some (None, cl1)"
        using cr cos v by (subst match_pmr_cos.simps) simp
      moreover have "\<not> enters cl mem a h cos pmr" using False cr by (simp add: enters_def)
      ultimately show ?thesis using less.prems(1) by simp
    next
      case True
      let ?c = "cs_linked_cos (cl_cos cl ! c)" and ?p = "cs_pmr (cl_cos cl ! c)"
      have sr: "same_rules cl (pmr_count_inc r cl1)" using less.prems(1) same_rules_inc same_rules_trans by blast
      have "cos_ok (cl_cos cl ! c)" using assms(1) ok(2) nth_mem [of c "cl_cos cl"] by (simp add: cls_inv_def)
      then have "cos_ref_ok ?c" "pmr_ref_ok ?p" by (simp_all add: cos_ok_def pmr_ref_ok_def)
      moreover have "(case ?c of None \<Rightarrow> 0 | Some c \<Rightarrow> Suc (rank c)) < (case cos of None \<Rightarrow> 0 | Some c \<Rightarrow> Suc (rank c))"
        using assms(3) ok(2) cr(1) by (auto simp: links_ranked_def split: option.splits)
      ultimately obtain x cl2 where x: "match_pmr_cos ?c mem a ?p h (pmr_count_inc r cl1) = Some (x, cl2)" "same_rules cl cl2"
        "if enters cl mem a h ?c ?p then \<exists>d. x = Some d \<and> class_of cl mem a h ?c ?p d else x = None"
        using less.hyps [of ?c "pmr_count_inc r cl1" ?p] sr by blast
      have "cl_cos (pmr_count_inc r cl1) = cl_cos cl" using sr by (simp add: same_rules_def)
      then have m: "match_pmr_cos cos mem a pmr h cl1 = Some (if x = None then Some c else x, cl2)"
        using cr cos v True x(1) by (subst match_pmr_cos.simps) simp
      have e: "enters cl mem a h cos pmr" using cr True by (simp add: enters_def)
      show ?thesis
        using m x(2,3) e cr(1) class_of.stop [of cl mem a h c pmr] class_of.follow [of cl mem a h c pmr] by (auto split: if_splits)
    qed
  qed
qed

lemma u8_bits: "8 \<le> n \<Longrightarrow> \<not> bit (x :: u8) n"
  using bit_imp_le_length [of x n] by auto

lemma u8_eqI:
  assumes "bit x 0 = bit y 0" "bit x 1 = bit y 1" "bit x 2 = bit y 2" "bit x 3 = bit y 3" "bit x 4 = bit y 4" "bit x 5 = bit y 5"
    "bit x 6 = bit y 6" "bit x 7 = bit y 7"
  shows "x = (y :: u8)"
proof (rule bit_word_eqI)
  fix n assume "n < LENGTH(8)"
  then have "n \<in> {0, 1, 2, 3, 4, 5, 6, 7}" by auto
  then show "bit x n = bit y n" using assms by auto
qed

lemma pktio_rules_correct:
  assumes "cls_inv cl" "same_rules cl cl1" "links_ranked rank cl" "\<forall>(p, c)\<in>set rs. cos_ref_ok c \<and> pmr_ref_ok p"
  shows "\<exists>x cl2. pktio_rules rs mem a h cl1 = Some (x, cl2) \<and> same_rules cl cl2 \<and>
     (case find (\<lambda>(p, c). enters cl mem a h c p) rs of None \<Rightarrow> x = None
      | Some (p, c) \<Rightarrow> \<exists>d. x = Some d \<and> class_of cl mem a h c p d)"
  using assms(2,4)
proof (induction rs arbitrary: cl1)
  case (Cons r rs)
  obtain p c where r: "r = (p, c)" by (rule prod.exhaust)
  obtain x cl2 where x: "match_pmr_cos c mem a p h cl1 = Some (x, cl2)" "same_rules cl cl2"
    "if enters cl mem a h c p then \<exists>d. x = Some d \<and> class_of cl mem a h c p d else x = None"
    using match_pmr_cos_correct [OF assms(1) Cons.prems(1) assms(3), of c p mem a h] Cons.prems(2) r by auto
  show ?case
  proof (cases "enters cl mem a h c p")
    case True
    then show ?thesis using x r by auto
  next
    case False
    then show ?thesis using x r Cons.IH [OF x(2)] Cons.prems(2) by simp
  qed
qed simp

lemma cf_rules_ok:
  assumes "cls_inv cl"
  shows "\<forall>(p, c)\<in>set (take (cf_num_pmr (cl_pktio cl i)) (zip (cf_pmr (cl_pktio cl i)) (cf_cos (cl_pktio cl i)))). cos_ref_ok c \<and> pmr_ref_ok p"
proof -
  let ?e = "cl_pktio cl i"
  have ok: "cf_ok ?e" using assms by (simp add: cls_inv_def)
  have "cos_ref_ok c \<and> pmr_ref_ok p" if m: "(p, c) \<in> set (take (cf_num_pmr ?e) (zip (cf_pmr ?e) (cf_cos ?e)))" for p c
  proof -
    obtain k where "k < cf_num_pmr ?e" "k < length (zip (cf_pmr ?e) (cf_cos ?e))" "zip (cf_pmr ?e) (cf_cos ?e) ! k = (p, c)"
      using m by (auto simp: in_set_conv_nth)
    then show ?thesis using ok by (auto simp: cf_ok_def cos_ref_ok_def pmr_ref_ok_def)
  qed
  then show ?thesis by auto
qed

lemma class_of_range: "class_of cl mem a h cos pmr d \<Longrightarrow> cls_inv cl \<Longrightarrow> cos_ref_ok cos \<Longrightarrow> d < ODP_COS_MAX_ENTRY"
proof (induction rule: class_of.induct)
  case (follow c pmr d)
  then have "cos_ok (cl_cos cl ! c)" using nth_mem [of c "cl_cos cl"] by (simp add: cls_inv_def cos_ref_ok_def)
  then show ?case using follow by (simp add: cos_ok_def)
qed (simp add: cos_ref_ok_def)

lemma dscp_range: "unat (ODPH_IPV4HDR_DSCP x) < ODP_COS_MAX_L3_QOS" "unat (ODPH_IPV6HDR_DSCP y) < ODP_COS_MAX_L3_QOS"
proof -
  have "unat w < 64" if "w AND 0x3F = w" for w :: u8
    using that word_and_le1 [of w "0x3F"] by (simp add: word_le_nat_alt)
  moreover have "ODPH_IPV4HDR_DSCP x AND 0x3F = ODPH_IPV4HDR_DSCP x" "ODPH_IPV6HDR_DSCP y AND 0x3F = ODPH_IPV6HDR_DSCP y"
    by (rule u8_eqI; simp add: ODPH_IPV4HDR_DSCP_def ODPH_IPV6HDR_DSCP_def bit_simps u8_bits)+
  ultimately show "unat (ODPH_IPV4HDR_DSCP x) < ODP_COS_MAX_L3_QOS" "unat (ODPH_IPV6HDR_DSCP y) < ODP_COS_MAX_L3_QOS"
    by (simp_all add: class_consts)
qed

lemma match_qos_in:
  assumes "cf_ok e"
  shows "match_qos_cos e mem a h \<in> insert None (set (cf_l2_cos e) \<union> set (cf_l3_cos e))"
proof -
  have "unat (drop_bit 13 w AND 0x07 :: u16) < 8" for w
    using word_and_le1 [of "drop_bit 13 w" "0x07 :: u16"] by (simp add: word_le_nat_alt)
  then have "match_qos_l2_cos (cf_l2_cos e) mem a h \<in> insert None (set (cf_l2_cos e))"
    using assms by (simp add: match_qos_l2_cos_def Let_def cf_ok_def class_consts)
  moreover have "match_qos_l3_cos (cf_l3_cos e) mem a h \<in> insert None (set (cf_l3_cos e))"
    using assms dscp_range by (simp add: match_qos_l3_cos_def Let_def cf_ok_def)
  ultimately show ?thesis by (auto simp: match_qos_cos_def Let_def)
qed

section \<open>The calls as steps\<close>

text \<open>The state after \<open>odp_classification_init_global\<close> and \<open>odp_pktio_init_global\<close>.\<close>

definition cls_zero :: classifier_t where
  "cls_zero = \<lparr>cf_num_pmr = 0, cf_pmr = replicate ODP_PKTIO_MAX_PMR None, cf_cos = replicate ODP_PKTIO_MAX_PMR None, cf_error_cos = None,
     cf_default_cos = None, cf_l3_precedence = False, cf_l2_cos = replicate ODP_COS_MAX_L2_QOS None,
     cf_l3_cos = replicate ODP_COS_MAX_L3_QOS None, cf_flow_set = 0, cf_headroom = 0, cf_skip = 0\<rparr>"

definition cls_start :: cls_state where
  "cls_start = \<lparr>cl_cos = replicate ODP_COS_MAX_ENTRY cos_zero, cl_pmr = replicate ODP_PMR_MAX_ENTRY (pmr_zero 1),
     cl_pmr_set = replicate ODP_PMRSET_MAX_ENTRY (pmr_zero ODP_PMRTERM_MAX), cl_pktio = \<lambda>_. cls_zero, cl_enabled = \<lambda>_. False\<rparr>"

inductive cls_step :: "cls_state \<Rightarrow> cls_state \<Rightarrow> bool" where
  cos_create: "cls_step cl (snd (odp_cls_cos_create name param cl))"
| cos_destroy: "cls_step cl (snd (odp_cos_destroy cos cl))"
| queue_set: "cls_step cl (snd (odp_cos_queue_set cos q cl))"
| drop_set: "cls_step cl (snd (odp_cos_drop_set cos d cl))"
| pool_set: "cls_step cl (snd (odp_cls_cos_pool_set cos pool cl))"
| link: "cls_step cl (snd (odp_cos_pmr_cos pmr src dst cl))"
| pktio_open: "cls_step cl (snd (pktio_classifier_init e cl))"
| default_cos: "cls_step cl (snd (odp_pktio_default_cos_set e cos cl))"
| error_cos: "cls_step cl (snd (odp_pktio_error_cos_set e cos cl))"
| skip: "cls_step cl (snd (odp_pktio_skip_set e n cl))"
| headroom: "cls_step cl (snd (odp_pktio_headroom_set e n cl))"
| l2_qos: "cls_step cl (snd (odp_cos_with_l2_priority e qos cl))"
| l3_qos: "cls_step cl (snd (odp_cos_with_l3_qos e qos b cl))"
| pmr_create: "odp_pmr_create m cl = Some (x, cl') \<Longrightarrow> cls_step cl cl'"
| pmr_destroy: "cls_step cl (snd (odp_pmr_destroy pmr cl))"
| set_create: "- (2 ^ 31) \<le> n \<Longrightarrow> odp_pmr_match_set_create n ms cl = Some (k, y, cl') \<Longrightarrow> cls_step cl cl'"
| set_destroy: "cls_step cl (snd (odp_pmr_match_set_destroy pmr cl))"
| pmr_cos: "cls_step cl (snd (odp_pktio_pmr_cos pmr e cos cl))"
| set_cos: "cls_step cl (snd (odp_pktio_pmr_match_set_cos pmr e cos cl))"
| select: "pktio_select_cos i mem a h cl = Some (z, h', cl') \<Longrightarrow> cls_step cl cl'"

lemma verify_pmr_rules: "verify_pmr r mem a h cl = Some (ok, cl') \<Longrightarrow> same_rules cl cl'"
  by (auto simp: verify_pmr_def Let_def split: if_splits bind_splits)

lemma match_pmr_cos_rules: "match_pmr_cos cos mem a pmr h cl = Some y \<Longrightarrow> same_rules cl (snd y)"
proof (erule match_pmr_cos.raw_induct [rotated, where P = "\<lambda>cos mem a pmr h cl y. same_rules cl (snd y)"])
  fix f cos mem a pmr h cl y
  assume IH: "\<And>cos mem a pmr h cl y. f cos mem a pmr h cl = Some y \<Longrightarrow> same_rules cl (snd y)"
    and eq: "(case cos of None \<Rightarrow> Some (None, cl)
      | Some c \<Rightarrow> (case pmr of None \<Rightarrow> Some (None, cl)
        | Some r \<Rightarrow>
            if \<not> cs_valid (cl_cos cl ! c) then Some (None, cl)
            else do {
              (ok, cl) \<leftarrow> verify_pmr r mem a h cl;
              if ok
              then do {
                (retcos, cl) \<leftarrow> f (cs_linked_cos (cl_cos cl ! c)) mem a (cs_pmr (cl_cos cl ! c)) h cl;
                Some (if retcos = None then Some c else retcos, cl)
              }
              else Some (None, cl)
            })) = Some y"
  show "same_rules cl (snd y)"
  proof (cases "\<exists>c r. cos = Some c \<and> pmr = Some r \<and> cs_valid (cl_cos cl ! c)")
    case False
    then show ?thesis using eq by (auto split: option.splits)
  next
    case True
    then obtain c r where cr: "cos = Some c" "pmr = Some r" "cs_valid (cl_cos cl ! c)" by blast
    obtain ok cl1 where v: "verify_pmr r mem a h cl = Some (ok, cl1)" using eq cr by (auto split: bind_splits)
    note s = verify_pmr_rules [OF v]
    show ?thesis
    proof (cases ok)
      case True
      then obtain z cl2 where z: "f (cs_linked_cos (cl_cos cl1 ! c)) mem a (cs_pmr (cl_cos cl1 ! c)) h cl1 = Some (z, cl2)" "snd y = cl2"
        using eq cr v by (auto split: bind_splits)
      show ?thesis using same_rules_trans [OF s] IH [OF z(1)] z(2) by simp
    qed (use eq cr v s in auto)
  qed
qed

lemma pktio_rules_rules: "pktio_rules rs mem a h cl = Some (x, cl') \<Longrightarrow> same_rules cl cl'"
proof (induction rs mem a h cl rule: pktio_rules.induct)
  case (2 p c rs mem a h cl)
  obtain y cl1 where m: "match_pmr_cos c mem a p h cl = Some (y, cl1)" using 2(2) by (auto split: bind_splits)
  have s: "same_rules cl cl1" using match_pmr_cos_rules [OF m] by simp
  show ?case
  proof (cases "y = None")
    case True
    then have "same_rules cl1 cl'" using 2(1) [OF m refl] 2(2) m by simp
    then show ?thesis by (rule same_rules_trans [OF s])
  qed (use 2(2) m s in simp)
qed simp

lemma select_rules: "pktio_select_cos i mem a h cl = Some (x, h', cl') \<Longrightarrow> same_rules cl cl'"
  by (auto simp: pktio_select_cos_def Let_def split: if_splits bind_splits dest!: pktio_rules_rules)

lemma cls_step_inv: "cls_step cl cl' \<Longrightarrow> cls_inv cl \<Longrightarrow> cls_inv cl'"
  by (induction rule: cls_step.induct)
    (auto intro: cos_create_inv cos_set_inv cos_link_inv cf_set_inv qos_inv pmr_create_inv pmr_destroy_inv match_set_create_inv
      attach_calls_inv dest: select_rules intro: same_rules_inv)

lemma cls_start_inv: "cls_inv cls_start"
  by (simp add: cls_inv_def cls_start_def cls_zero_def cf_ok_def cos_ref_ok_def pmr_ok_def pmr_zero_def term_zero_def cos_ok_def cos_zero_def
    class_consts)

interpretation cfg: invariant_system "\<lambda>cl. cl = cls_start" cls_step cls_inv
  by unfold_locales (auto simp: cls_start_inv intro: cls_step_inv)

lemma select_cos_spec:
  assumes inv: "cls_inv cl" and "links_ranked rank cl"
  shows "\<exists>x cl'. pktio_select_cos i mem a h cl = Some (x, packet_parse_lazy mem h, cl') \<and> same_rules cl cl' \<and> cls_inv cl' \<and> cos_ref_ok x \<and>
     (let e = cl_pktio cl i; h' = packet_parse_lazy mem h in
      if ph_error_flags h' \<noteq> error_flags_zero then x = cf_error_cos e
      else case find (\<lambda>(p, c). enters cl mem a h' c p) (take (cf_num_pmr e) (zip (cf_pmr e) (cf_cos e))) of
        Some (p, c) \<Rightarrow> \<exists>d. x = Some d \<and> class_of cl mem a h' c p d
      | None \<Rightarrow> x = (case match_qos_cos e mem a h' of Some q \<Rightarrow> Some q | None \<Rightarrow> cf_default_cos e))"
proof -
  let ?e = "cl_pktio cl i" and ?h = "packet_parse_lazy mem h"
  let ?rs = "take (cf_num_pmr ?e) (zip (cf_pmr ?e) (cf_cos ?e))"
  obtain x cl2 where x: "pktio_rules ?rs mem a ?h cl = Some (x, cl2)" "same_rules cl cl2"
    "case find (\<lambda>(p, c). enters cl mem a ?h c p) ?rs of None \<Rightarrow> x = None | Some (p, c) \<Rightarrow> \<exists>d. x = Some d \<and> class_of cl mem a ?h c p d"
    using pktio_rules_correct [OF inv same_rules_refl assms(2) cf_rules_ok [OF inv, of i], of mem a ?h] by blast
  note inv2 = same_rules_inv [OF x(2) inv]
  have e: "cf_ok ?e" using inv by (simp add: cls_inv_def)
  then have ok: "cos_ref_ok (cf_error_cos ?e)" "cos_ref_ok (cf_default_cos ?e)" "cos_ref_ok (match_qos_cos ?e mem a ?h)"
    using match_qos_in [OF e, of mem a ?h] by (auto simp: cf_ok_def cos_ref_ok_def)
  have rok: "cos_ref_ok x"
  proof (cases "find (\<lambda>(p, c). enters cl mem a ?h c p) ?rs")
    case (Some pc)
    then have "pc \<in> set ?rs" by (rule find_SomeD [THEN conjunct1])
    then show ?thesis using x(3) Some cf_rules_ok [OF inv, of i] class_of_range [OF _ inv] by (fastforce simp: cos_ref_ok_def)
  qed (use x(3) in \<open>simp add: cos_ref_ok_def\<close>)
  show ?thesis
  proof (cases "ph_error_flags ?h = error_flags_zero")
    case False
    then show ?thesis using inv ok by (simp add: pktio_select_cos_def Let_def)
  next
    case True
    then show ?thesis using x inv2 ok rok by (auto simp: pktio_select_cos_def Let_def split: option.splits)
  qed
qed

section \<open>Classes by priority\<close>

text \<open>The layer 3 class of an IPv4 packet is the one configured for its DSCP, the upper six bits of the type of service. For an
  IPv6 packet the code reads the first word of the header without converting it from network order: the index it uses is made of bits
  of the flow label, in the third and the fourth byte, and the DSCP, which is in the first and the second byte, has no influence.\<close>

lemma ipv4_dscp_bits: "ODPH_IPV4HDR_DSCP x = drop_bit 2 x"
  by (rule u8_eqI) (simp_all add: ODPH_IPV4HDR_DSCP_def bit_simps u8_bits)

lemma ipv6_dscp_bits:
  "ODPH_IPV6HDR_DSCP (le_word [b0, b1, b2, b3]) = push_bit 2 (b3 AND 0xF) OR drop_bit 6 b2"
  by (rule u8_eqI) (simp_all add: ODPH_IPV6HDR_DSCP_def bit_simps bit_le_word u8_bits)

lemma qos_l3_class:
  assumes "if_l3 (ph_input_flags h)" "l3 = a + ucast (ph_l3_offset h)"
  shows "(if_ipv4 (ph_input_flags h) \<longrightarrow> match_qos_l3_cos tbl mem a h = tbl ! unat (drop_bit 2 (mem (l3 + 1)))) \<and>
    (\<not> if_ipv4 (ph_input_flags h) \<and> if_ipv6 (ph_input_flags h) \<longrightarrow>
       match_qos_l3_cos tbl mem a h = tbl ! unat (push_bit 2 (mem (l3 + 3) AND 0xF) OR drop_bit 6 (mem (l3 + 2)))) \<and>
    ODPH_IPV6HDR_DSCP (be32 mem l3) = push_bit 2 (mem l3 AND 0xF) OR drop_bit 6 (mem (l3 + 1))"
proof -
  have "ODPH_IPV6HDR_DSCP (be32 mem l3) = push_bit 2 (mem l3 AND 0xF) OR drop_bit 6 (mem (l3 + 1))"
    by (rule u8_eqI) (simp_all add: ODPH_IPV6HDR_DSCP_def be32_def be16_def bit_simps u8_bits)
  then show ?thesis using assms unfolding match_qos_l3_cos_def Let_def ipv4_dscp_bits ipv6_dscp_bits by simp
qed

text \<open>The class by priority as a specification: by the upper six bits of the type of service for IPv4, by the bits of the flow label
  for IPv6, and by the three priority bits of the outer tag for a frame with a VLAN tag; the flag of the interface says which of the
  layers is asked first.\<close>

definition qos_class :: "classifier_t \<Rightarrow> (u32 \<Rightarrow> u8) \<Rightarrow> u32 \<Rightarrow> odp_packet_hdr_t \<Rightarrow> nat option" where
  "qos_class e mem a h =
     (let f = ph_input_flags h; l3 = a + ucast (ph_l3_offset h); tag = a + ucast (ph_l2_offset h) + 14;
          by_l3 = (if if_l3 f \<and> if_ipv4 f then cf_l3_cos e ! unat (drop_bit 2 (mem (l3 + 1)))
                   else if if_l3 f \<and> if_ipv6 f
                     then cf_l3_cos e ! unat (push_bit 2 (mem (l3 + 3) AND 0xF) OR drop_bit 6 (mem (l3 + 2)))
                   else None);
          by_l2 = (if if_l2 f \<and> if_vlan f \<and> if_eth f then cf_l2_cos e ! unat (drop_bit 5 (mem tag)) else None)
      in if cf_l3_precedence e then (case by_l3 of Some c \<Rightarrow> Some c | None \<Rightarrow> by_l2)
         else (case by_l2 of Some c \<Rightarrow> Some c | None \<Rightarrow> by_l3))"

lemma match_qos_l2_bits: "unat (drop_bit 13 (be16 mem p) AND 0x07 :: u16) = unat (drop_bit 5 (mem p))"
proof -
  have "(drop_bit 13 (be16 mem p) AND mask 3 :: u16) = ucast (drop_bit 5 (mem p))"
  proof (rule bit_word_eqI)
    fix n assume "n < LENGTH(16)"
    then have n: "n < 16" by simp
    have "bit (mem (p + 1)) (13 + n) = False" using bit_u8 [of "mem (p + 1)" "13 + n"] by auto
    moreover have "bit (mem p) (n + 5) \<Longrightarrow> n < 3" using bit_u8 [of "mem p" "n + 5"] by auto
    moreover have "13 + n - 8 = n + 5" by simp
    ultimately show "bit (drop_bit 13 (be16 mem p) AND mask 3) n = bit (ucast (drop_bit 5 (mem p)) :: u16) n"
      using n unfolding be16_def bit_and_iff bit_drop_bit_eq comp_def bit_or_iff bit_push_bit_iff bit_mask_iff bit_ucast_iff
      by (auto simp: add.commute possible_bit_word)
  qed
  moreover have "(mask 3 :: u16) = 0x07" by (simp add: mask_eq_exp_minus_1)
  ultimately have "(drop_bit 13 (be16 mem p) AND 0x07 :: u16) = ucast (drop_bit 5 (mem p))" by simp
  moreover have "unat (ucast x :: u16) = unat x" for x :: u8
    using unsigned_less [of x, where ?'a = nat] by (simp add: unsigned_ucast_eq take_bit_nat_eq_self)
  ultimately show ?thesis by simp
qed
lemma match_qos_cos_class: "match_qos_cos e mem a h = qos_class e mem a h"
proof -
  have tag: "a + ucast (ph_l2_offset h) + 12 + 2 = a + ucast (ph_l2_offset h) + 14" by simp
  show ?thesis
    unfolding match_qos_cos_def qos_class_def match_qos_l3_cos_def match_qos_l2_cos_def Let_def match_qos_l2_bits tag
      ipv4_dscp_bits ipv6_dscp_bits
    by (simp split: option.split)
qed

text \<open>C9. Whatever sequence of calls configured the classifier, and however many packets it has classified: if the links between the
  classes have no cycle, \<open>pktio_select_cos\<close> returns, without running into the assertion on the size of a rule or outside the tables.
  It parses the header if that was still to be done and changes nothing but the counters of rules. A packet with an error gets the
  error class. Otherwise the first rule attached to the interface that matches, and whose class is valid, decides, and the
  packet gets the class reached from there along the links whose rules match and whose classes are valid. When no rule
  decides, it gets the class configured for the priority bits of its VLAN tag or for the layer 3 index, in the
  order the interface is configured for, and failing both the default class. The layer 3 index is the DSCP of an IPv4 packet; for an IPv6
  packet it is not the DSCP but six bits of the flow label (\<open>qos_class\<close>).\<close>

theorem select_cos_correct:
  assumes "rtranclp cls_step cls_start cl" "links_ranked rank cl"
  shows "\<exists>x cl'. pktio_select_cos i mem a h cl = Some (x, packet_parse_lazy mem h, cl') \<and> same_rules cl cl' \<and> cls_inv cl' \<and> cos_ref_ok x \<and>
     (let e = cl_pktio cl i; h' = packet_parse_lazy mem h in
      if ph_error_flags h' \<noteq> error_flags_zero then x = cf_error_cos e
      else case find (\<lambda>(p, c). enters cl mem a h' c p) (take (cf_num_pmr e) (zip (cf_pmr e) (cf_cos e))) of
        Some (p, c) \<Rightarrow> \<exists>d. x = Some d \<and> class_of cl mem a h' c p d
      | None \<Rightarrow> x = (case qos_class e mem a h' of Some q \<Rightarrow> Some q | None \<Rightarrow> cf_default_cos e))"
  using cfg.reachable_inv [OF assms(1)] assms(2) unfolding match_qos_cos_class [symmetric] by (intro select_cos_spec) simp_all

section \<open>Links that form a cycle\<close>

lemma match_cycle_none:
  assumes inv: "cls_inv cl" and c: "cs_valid (cl_cos cl ! c)" "cs_linked_cos (cl_cos cl ! c) = Some c" "cs_pmr (cl_cos cl ! c) = Some r"
    and r: "ref_ok r" "pmr_matches cl mem a h r"
  shows "match_pmr_cos (Some c) mem a (Some r) h cl = None"
proof (rule ccontr)
  let ?P = "\<lambda>cos mem' a' pmr h' cl1 y. \<not> (same_rules cl cl1 \<and> cos = Some c \<and> mem' = mem \<and> a' = a \<and> pmr = Some r \<and> h' = h)"
  assume "match_pmr_cos (Some c) mem a (Some r) h cl \<noteq> None"
  then obtain y where "match_pmr_cos (Some c) mem a (Some r) h cl = Some y" by blast
  then have "?P (Some c) mem a (Some r) h cl y"
  proof (erule_tac match_pmr_cos.raw_induct [rotated, where P = ?P])
    fix f cos mem' a' pmr h' cl1 y
    assume IH: "\<And>cos mem' a' pmr h' cl1 y. f cos mem' a' pmr h' cl1 = Some y \<Longrightarrow> ?P cos mem' a' pmr h' cl1 y"
      and eq: "(case cos of None \<Rightarrow> Some (None, cl1)
        | Some c \<Rightarrow> (case pmr of None \<Rightarrow> Some (None, cl1)
          | Some r \<Rightarrow>
              if \<not> cs_valid (cl_cos cl1 ! c) then Some (None, cl1)
              else do {
                (ok, cl) \<leftarrow> verify_pmr r mem' a' h' cl1;
                if ok
                then do {
                  (retcos, cl) \<leftarrow> f (cs_linked_cos (cl_cos cl ! c)) mem' a' (cs_pmr (cl_cos cl ! c)) h' cl;
                  Some (if retcos = None then Some c else retcos, cl)
                }
                else Some (None, cl)
              })) = Some y"
    show "?P cos mem' a' pmr h' cl1 y"
    proof
      assume s: "same_rules cl cl1 \<and> cos = Some c \<and> mem' = mem \<and> a' = a \<and> pmr = Some r \<and> h' = h"
      then have sr: "same_rules cl cl1" by simp
      have v: "verify_pmr r mem a h cl1 = Some (True, pmr_count_inc r cl1)"
        using verify_pmr_eq [OF same_rules_inv [OF sr inv] r(1), of mem a h] same_rules_matches [OF sr inv r(1)] r(2) by simp
      have sr2: "same_rules cl (pmr_count_inc r cl1)" using same_rules_trans [OF sr same_rules_inc] .
      have cc: "cl_cos cl1 = cl_cos cl" "cl_cos (pmr_count_inc r cl1) = cl_cos cl" using sr sr2 by (simp_all add: same_rules_def)
      obtain z where "f (Some c) mem a (Some r) h (pmr_count_inc r cl1) = Some z"
        using eq s v cc c by (auto split: bind_splits)
      then show False using IH sr2 by blast
    qed
  qed
  then show False by simp
qed

text \<open>C39. \<open>odp_cos_pmr_cos\<close> accepts a link of a class to itself. From then on the recursion of \<open>match_pmr_cos\<close> does not end for
  a packet that the rule of the link matches: classifying such a packet on an interface whose first rule is that rule, with that class,
  does not return.\<close>

theorem self_link_never_returns:
  assumes "rtranclp cls_step cls_start cl" "get_cos_entry cl x = Some c" "get_pmr_entry cl p = Some r"
    and "pmr_matches cl mem a (packet_parse_lazy mem h) (Pmr r)" "ph_error_flags (packet_parse_lazy mem h) = error_flags_zero"
    and "0 < cf_num_pmr (cl_pktio cl i)" "cf_pmr (cl_pktio cl i) ! 0 = Some (Pmr r)" "cf_cos (cl_pktio cl i) ! 0 = Some c"
  shows "fst (odp_cos_pmr_cos p x x cl) = 0 \<and> pktio_select_cos i mem a h (snd (odp_cos_pmr_cos p x x cl)) = None"
proof -
  let ?cl = "snd (odp_cos_pmr_cos p x x cl)" and ?h = "packet_parse_lazy mem h"
  have inv: "cls_inv cl" "cls_inv ?cl" using cfg.reachable_inv [OF assms(1)] cos_link_inv by simp_all
  have c: "c < ODP_COS_MAX_ENTRY" "cs_valid (cl_cos cl ! c)" using get_cos_SomeD [OF assms(2)] by blast+
  have r: "ref_ok (Pmr r)" using get_pmr_SomeD [OF assms(3)] by simp
  have eq: "odp_cos_pmr_cos p x x cl = (0, upd_cos c (\<lambda>e. e\<lparr>cs_pmr := Some (Pmr r), cs_linked_cos := Some c\<rparr>) cl)"
    using assms(2,3) by (simp add: odp_cos_pmr_cos_def)
  have l: "c < length (cl_cos cl)" using inv(1) c(1) by (simp add: cls_inv_def)
  have "pmr_matches ?cl mem a ?h (Pmr r)" using assms(4) by (simp add: eq pmr_matches_def upd_cos_def)
  then have m: "match_pmr_cos (Some c) mem a (Some (Pmr r)) ?h ?cl = None"
    by (intro match_cycle_none [OF inv(2) _ _ _ r]) (use l c(2) in \<open>simp_all add: eq upd_cos_def\<close>)
  have p: "cl_pktio ?cl i = cl_pktio cl i" by (simp add: eq upd_cos_def)
  have "cf_ok (cl_pktio cl i)" using inv(1) by (simp add: cls_inv_def)
  then obtain ps cs where "cf_pmr (cl_pktio cl i) = Some (Pmr r) # ps" "cf_cos (cl_pktio cl i) = Some c # cs"
    using assms(7,8) by (cases "cf_pmr (cl_pktio cl i)"; cases "cf_cos (cl_pktio cl i)") (auto simp: cf_ok_def class_consts)
  then show ?thesis
    using assms(5,6) m p eq by (cases "cf_num_pmr (cl_pktio cl i)") (simp_all add: pktio_select_cos_def Let_def)
qed

section \<open>Rules on the bytes of the frame\<close>

lemma le_word_mask_eq:
  assumes "length xs = n" "length ys = n" "length ms = n" "8 * n \<le> LENGTH('a::len)"
  shows "(le_word xs AND le_word ms :: 'a word) = le_word ys AND le_word ms \<longleftrightarrow> (\<forall>k<n. xs ! k AND ms ! k = ys ! k AND ms ! k)"
proof
  assume eq: "(le_word xs AND le_word ms :: 'a word) = le_word ys AND le_word ms"
  show "\<forall>k<n. xs ! k AND ms ! k = ys ! k AND ms ! k"
  proof (intro allI impI bit_word_eqI)
    fix k j assume k: "k < n" and j: "j < LENGTH(8)"
    have "8 * k + j < 8 * n" using k j by simp
    moreover have "bit (le_word xs AND le_word ms :: 'a word) (8 * k + j) = bit (le_word ys AND le_word ms :: 'a word) (8 * k + j)"
      by (simp only: eq)
    ultimately show "bit (xs ! k AND ms ! k) j = bit (ys ! k AND ms ! k) j"
      using assms j by (simp add: bit_le_word bit_and_iff)
  qed
next
  assume eq: "\<forall>k<n. xs ! k AND ms ! k = ys ! k AND ms ! k"
  show "(le_word xs AND le_word ms :: 'a word) = le_word ys AND le_word ms"
  proof (rule bit_word_eqI)
    fix j assume "j < LENGTH('a)"
    show "bit (le_word xs AND le_word ms :: 'a word) j = bit (le_word ys AND le_word ms :: 'a word) j"
    proof (cases "j < 8 * n")
      case True
      then have "xs ! (j div 8) AND ms ! (j div 8) = ys ! (j div 8) AND ms ! (j div 8)" using eq by simp
      then have "bit (xs ! (j div 8) AND ms ! (j div 8)) (j mod 8) = bit (ys ! (j div 8) AND ms ! (j div 8)) (j mod 8)" by simp
      then show ?thesis using assms by (auto simp: bit_le_word bit_and_iff)
    next
      case False
      then have "\<not> j div 8 < n" by linarith
      then show ?thesis using assms by (simp add: bit_le_word bit_and_iff)
    qed
  qed
qed

text \<open>\<open>odp_pmr_create\<close> with a rule on the bytes of the frame, of at most eight bytes, fails only when all rules are in use. The rule
  it makes takes an entry that was free and leaves the other rules, the rule sets, the classes and the interfaces alone. It matches a
  packet exactly when the bytes at its offset agree with its value in the bits of its mask and the frame is longer than the end of
  those bytes: a value that lies at the very end of the frame is never matched.\<close>

lemma pmr_create_custom_frame:
  assumes "cls_inv cl" "mt_term m = ODP_PMR_CUSTOM_FRAME" "unat (mt_val_sz m) \<le> 8"
    and "length (mt_val m) = unat (mt_val_sz m)" "length (mt_mask m) = unat (mt_val_sz m)" "unat (mt_offset m) + 8 < 2 ^ 32"
  shows "(\<forall>p\<in>set (cl_pmr cl). pm_valid p) \<and> odp_pmr_create m cl = Some (- 1, cl) \<or>
    (\<exists>i p. i < ODP_PMR_MAX_ENTRY \<and> \<not> pm_valid (cl_pmr cl ! i) \<and>
       odp_pmr_create m cl = Some (of_nat i, cl\<lparr>cl_pmr := (cl_pmr cl)[i := p]\<rparr>) \<and>
       (\<forall>mem a h. pmr_matches (cl\<lparr>cl_pmr := (cl_pmr cl)[i := p]\<rparr>) mem a h (Pmr i) \<longleftrightarrow>
          unat (mt_offset m) + unat (mt_val_sz m) < unat (ph_frame_len h) \<and>
          (\<forall>k<unat (mt_val_sz m). mem (a + mt_offset m + of_nat k) AND mt_mask m ! k = mt_val m ! k AND mt_mask m ! k)))"
proof -
  let ?n = "unat (mt_val_sz m)"
  have sz: "\<not> 8 < mt_val_sz m" "\<not> ODP_PMR_TERM_BYTES_MAX < mt_val_sz m"
    using assms(3) by (simp_all add: word_less_nat_alt class_consts)
  have l: "length (cl_pmr cl) = ODP_PMR_MAX_ENTRY" and ok: "\<forall>p\<in>set (cl_pmr cl). pmr_ok 1 p" using assms(1) by (simp_all add: cls_inv_def)
  show ?thesis
  proof (cases "find (\<lambda>i. \<not> pm_valid (cl_pmr cl ! i)) [0..<ODP_PMR_MAX_ENTRY]")
    case None
    then have "\<forall>p\<in>set (cl_pmr cl). pm_valid p" using l by (auto simp: find_None_iff in_set_conv_nth)
    then show ?thesis using None sz by (simp add: odp_pmr_create_def alloc_pmr_def)
  next
    case (Some i)
    have i: "i < ODP_PMR_MAX_ENTRY" "\<not> pm_valid (cl_pmr cl ! i)" using find_upt [OF Some] by simp_all
    define t where "t = \<lparr>pv_term = ODP_PMR_CUSTOM_FRAME, pv_val = le_word (mt_val m) AND le_word (mt_mask m), pv_mask = le_word (mt_mask m),
      pv_offset = mt_offset m, pv_val_sz = mt_val_sz m\<rparr>"
    have t: "odp_pmr_create_term m = Some t" using sz assms(2,4,5) by (simp add: odp_pmr_create_term_def t_def Let_def)
    have "length (pm_term_value (cl_pmr cl ! i)) = 1" using ok l i(1) by (simp add: pmr_ok_def)
    then have tv: "(pm_term_value (cl_pmr cl ! i))[0 := t] = [t]" by (cases "pm_term_value (cl_pmr cl ! i)") simp_all
    define p where "p = (cl_pmr cl ! i)\<lparr>pm_valid := True, pm_count := 0, pm_num_pmr := 1, pm_term_value := [t]\<rparr>"
    let ?cl = "cl\<lparr>cl_pmr := (cl_pmr cl)[i := p]\<rparr>"
    have c: "odp_pmr_create m cl = Some (of_nat i, ?cl)"
      using sz Some i(1) l t tv by (simp add: odp_pmr_create_def alloc_pmr_def pmr_taken_def p_def)
    have "pmr_matches ?cl mem a h (Pmr i) \<longleftrightarrow> unat (mt_offset m) + ?n < unat (ph_frame_len h) \<and>
        (\<forall>k<?n. mem (a + mt_offset m + of_nat k) AND mt_mask m ! k = mt_val m ! k AND mt_mask m ! k)" for mem a h
    proof -
      let ?f = "map (\<lambda>k. mem (a + mt_offset m + of_nat k)) [0..<?n]"
      have "unat (mt_offset m + mt_val_sz m) = unat (mt_offset m) + ?n" using assms(3,6) by (intro unat_add_small) simp
      then have len: "ucast (ph_frame_len h) \<le> mt_offset m + mt_val_sz m \<longleftrightarrow> \<not> unat (mt_offset m) + ?n < unat (ph_frame_len h)"
        by (simp add: word_le_nat_alt not_less)
      have "pmr_matches ?cl mem a h (Pmr i) \<longleftrightarrow> verify_pmr_custom_frame mem a h t = Some True"
        using i(1) l by (simp add: pmr_matches_def p_def t_def)
      also have "\<dots> \<longleftrightarrow> unat (mt_offset m) + ?n < unat (ph_frame_len h) \<and>
          (le_word ?f AND le_word (mt_mask m) :: u64) = le_word (mt_val m) AND le_word (mt_mask m)"
        using sz len by (auto simp: verify_pmr_custom_frame_def t_def Let_def)
      finally show ?thesis using le_word_mask_eq [of ?f ?n "mt_val m" "mt_mask m", where 'a = 64] assms(3-5) by simp
    qed
    then show ?thesis using i c by blast
  qed
qed

section \<open>Packets the classifier has dropped\<close>

text \<open>The classifier as the loop interface calls it; the counters of the rules, which no call reads, are left out.\<close>

definition loop_classifier ::
  "bool \<Rightarrow> (odp_state \<Rightarrow> nat \<Rightarrow> u32 list \<Rightarrow> int \<times> odp_state) \<Rightarrow> cls_state \<Rightarrow> nat \<Rightarrow> u32 \<Rightarrow> odp_state \<Rightarrow> int \<times> odp_state" where
  "loop_classifier nofree io cl i pkt st =
     (case odp_packet_classifier nofree io (Some i) pkt cl st of Some (rc, _, st) \<Rightarrow> (rc, st) | None \<Rightarrow> (0, st))"

lemma buf_partD:
  assumes "buf_part h = buf_part h'"
  shows "bh_next h = bh_next h'" "bh_pool_hdl h = bh_pool_hdl h'" "bh_size h = bh_size h'" "bh_addr h = bh_addr h'"
    "bh_uarea_addr h = bh_uarea_addr h'" "ph_nofree h = ph_nofree h'" "bh_origin_qe h = bh_origin_qe h'"
  using assms by (simp_all add: buf_part_def odp_buffer_hdr_t.truncate_def)

lemma upd_buf_pool_ok:
  assumes "pkt_pool_ok A i (os_pools st) owned" "buf_part (f (hdr st b)) = buf_part (hdr st b)"
  shows "pkt_pool_ok A i (os_pools (upd_buf b f st)) owned" "pkt_kept nofree (os_pools (upd_buf b f st)) b = pkt_kept nofree (os_pools st) b"
proof -
  have "mem_same (pt_mem (os_pools st)) (upd_hdr b f (pt_mem (os_pools st)))"
    using buf_partD [OF assms(2)] by (simp add: mem_same_def upd_hdr_def hdr_def)
  then show "pkt_pool_ok A i (os_pools (upd_buf b f st)) owned"
    unfolding upd_buf_def using pkt_pool_ok_mem [OF assms(1)] by simp
  show "pkt_kept nofree (os_pools (upd_buf b f st)) b = pkt_kept nofree (os_pools st) b"
    using buf_partD(6) [OF assms(2)] by (simp add: pkt_kept_def upd_buf_def upd_hdr_def hdr_def)
qed

lemma select_header: "pktio_select_cos i mem a h cl = Some (x, h', cl') \<Longrightarrow> h' = packet_parse_lazy mem h"
  by (auto simp: pktio_select_cos_def Let_def split: if_splits bind_splits)

lemma queue_enq_poll_one:
  assumes rep: "poll_rep q (st, own) evs" and b: "b \<in> own" "bh_next (hdr st b) = 0"
  shows "\<exists>st'. queue_enq io st q b sustain = Some (0, st') \<and> poll_rep q (st', own - {b}) (evs @ [b])"
proof -
  have "(hdr st b)\<lparr>bh_next := 0\<rparr> = hdr st b" using b(2) by (cases "hdr st b") simp
  then have c: "chain_bufs [b] st = st" by (simp add: upd_buf_def upd_hdr_def hdr_def)
  have f: "poll_fits (st, own) [b]" using b(1) by (simp add: poll_fits_def)
  obtain st' where st': "odp_queue_enq_multi io st q [b] = Some (1, st')" "poll_rep q (st', own - {b}) (evs @ [b])"
    using poll_put_rep [OF rep f, of io] by auto
  have "bh_origin_qe (hdr st b) = None" "sl_origin_qe (os_local st) = None" using rep b(1) by (simp_all add: poll_rep_def)
  from get_queue_order_none [OF this] obtain order st1 where
    go: "get_queue_order st b = ((None, order), st1)" "os_queue st1 = os_queue st" by blast
  have q: "qe_type (qe st1 q) = ODP_QUEUE_TYPE_POLL" "qe_status (qe st1 q) = QUEUE_STATUS_READY"
    "qe_type (qe st q) = ODP_QUEUE_TYPE_POLL" using rep go(2) by (simp_all add: poll_rep_def)
  obtain sched st2 where u: "queue_enq_update st1 q b b QUEUE_STATUS_READY = (sched, st2)" by fastforce
  have ns: "\<not> sched" using u by (auto simp: queue_enq_update_def Let_def queue_consts split: if_splits)
  have "st2 = st'"
    using st'(1) c go q u ns by (simp add: odp_queue_enq_multi_def queue_enq_multi_def Let_def queue_consts del: chain_bufs.simps)
  moreover have "queue_enq io st q b sustain = Some (0, st2)"
    using go q u ns unfolding queue_enq_def by (subst queue_do.simps) (simp add: Let_def queue_consts)
  ultimately show ?thesis using st'(2) by blast
qed

lemma upd_buf_poll:
  assumes "poll_rep q (st, own) evs" "buf_part (f (hdr st b)) = buf_part (hdr st b)"
  shows "poll_rep q (upd_buf b f st, own) evs"
proof -
  have "same_queues st (upd_buf b f st)"
    using buf_partD [OF assms(2)] by (auto simp: same_queues_def fun_eq_iff nexts_def)
  then show ?thesis using same_queues_rep assms(1) by blast
qed

text \<open>C23. When the class chosen for a packet has a polled queue that is ready, and its pool is the pool the packet came from,
  the classifier appends the packet to that queue, after the events that were in it, and the loop interface does not hand it to the
  application. The packet is held by the caller and not linked to others, and the thread is not inside an
  ordered context (parts of \<open>poll_rep\<close>); scheduled queues are not covered.\<close>

theorem classifier_delivers:
  assumes "poll_rep q (st, own) evs" "pkt \<in> own" "bh_next (hdr st pkt) = 0"
    and "pktio_select_cos i (om_byte (pt_mem (os_pools st))) (odp_packet_data (hdr (parse_input pkt st) pkt)) (hdr (parse_input pkt st) pkt) cl =
      Some (Some c, h', cl')"
    and "cs_pool (cl_cos cl' ! c) = Some pl" "bh_pool_hdl (hdr st pkt) = Some pl" "cs_queue (cl_cos cl' ! c) = Some q"
  shows "\<exists>st'. classify_input (loop_classifier nofree io cl) i [pkt] st = ([], st') \<and> poll_rep q (st', own - {pkt}) (evs @ [pkt])"
proof -
  let ?st = "parse_input pkt st"
  have m: "om_byte (pt_mem (os_pools ?st)) = om_byte (pt_mem (os_pools st))" by (simp add: parse_input_def upd_buf_def upd_hdr_def)
  have r1: "poll_rep q (?st, own) evs" using same_queues_rep [OF parse_input_same] assms(1) by blast
  have b1: "buf_part (hdr ?st pkt) = buf_part (hdr st pkt)"
    by (simp add: parse_input_def packet_parse_l2_def packet_parse_reset_def Let_def)
  have b2: "buf_part h' = buf_part (hdr ?st pkt)" unfolding select_header [OF assms(4)] by simp
  let ?st2 = "upd_buf pkt (\<lambda>_. h') ?st"
  have r2: "poll_rep q (?st2, own) evs" by (rule upd_buf_poll [OF r1]) (rule b2)
  have h2: "bh_next (hdr ?st2 pkt) = 0" "bh_pool_hdl (hdr ?st2 pkt) = Some pl"
    using buf_partD [OF b1] buf_partD [OF b2] assms(3,6) by simp_all
  obtain st' where st': "queue_enq io ?st2 q pkt False = Some (0, st')" "poll_rep q (st', own - {pkt}) (evs @ [pkt])"
    using queue_enq_poll_one [OF r2 assms(2) h2(1), of io False] by blast
  have "odp_packet_classifier nofree io (Some i) pkt cl ?st = Some (0, cl', st')"
    using assms(4,5,7) st'(1) h2(2) m by (simp add: odp_packet_classifier_def Let_def)
  then show ?thesis using st'(2) by (simp add: loop_classifier_def)
qed

text \<open>C38. When the class chosen for a packet has no pool or no queue, which is how a class made with the default parameters is, the
  classifier frees the packet and returns an error. The loop interface takes the error to mean that the packet was not classified, and
  hands it to the application: the packet received is at the same time a free buffer of its pool.\<close>

theorem classifier_drop_hands_out_freed:
  assumes "pkt_pool_ok A pl (os_pools st) owned" "pkt \<in> owned" "\<not> pkt_kept nofree (os_pools st) pkt"
    and "pktio_select_cos i (om_byte (pt_mem (os_pools st))) (odp_packet_data (hdr (parse_input pkt st) pkt)) (hdr (parse_input pkt st) pkt) cl =
      Some (Some c, h', cl')"
    and "cs_pool (cl_cos cl' ! c) = None \<or> cs_queue (cl_cos cl' ! c) = None"
  shows "\<exists>st'. classify_input (loop_classifier nofree io cl) i [pkt] st = ([pkt], st') \<and> pkt_pool_ok A pl (os_pools st') (owned - {pkt})"
proof -
  let ?st = "parse_input pkt st" and ?f = "\<lambda>h. packet_parse_l2 (packet_parse_reset h)"
  have f: "buf_part (?f h) = buf_part h" for h
    by (simp add: packet_parse_l2_def packet_parse_reset_def Let_def)
  note p1 = upd_buf_pool_ok [OF assms(1), of ?f pkt, OF f, folded parse_input_def]
  have m: "om_byte (pt_mem (os_pools ?st)) = om_byte (pt_mem (os_pools st))" by (simp add: parse_input_def upd_buf_def upd_hdr_def)
  have h': "h' = packet_parse_lazy (om_byte (pt_mem (os_pools st))) (hdr ?st pkt)" by (rule select_header [OF assms(4)])
  let ?st2 = "upd_buf pkt (\<lambda>_. h') ?st"
  have "buf_part h' = buf_part (hdr ?st pkt)" unfolding h' by simp
  note p2 = upd_buf_pool_ok [OF p1(1), of "\<lambda>_. h'" pkt, OF this]
  have k: "\<not> pkt_kept nofree (os_pools ?st2) pkt" using p2(2) p1(2) assms(3) by simp
  obtain t where t: "odp_packet_free nofree (os_pools ?st2) pkt = Some t" "pkt_pool_ok A pl t (owned - {pkt})"
    by (rule packet_free_ok [OF p2(1) assms(2), of nofree]) (use k in simp)
  have "odp_packet_classifier nofree io (Some i) pkt cl ?st = Some (- 1, cl', ?st2\<lparr>os_pools := t\<rparr>)"
    using assms(4,5) t(1) m by (cases "cs_pool (cl_cos cl' ! c)") (simp_all add: odp_packet_classifier_def packet_drop_def Let_def)
  then show ?thesis using t(2) by (simp add: loop_classifier_def)
qed

section \<open>An example configuration\<close>

text \<open>A class, which is the error class of interface 0 and the class of its only rule, and that rule
  matches every packet.\<close>

definition any_packet :: odp_pmr_match_t where
  "any_packet = \<lparr>mt_term = ODP_PMR_LEN, mt_val = [0, 0], mt_mask = [0, 0], mt_val_sz = 2, mt_offset = 0\<rparr>"

definition cls_example :: "odp_cls_cos_param_t \<Rightarrow> cls_state" where
  "cls_example prm = snd (odp_pktio_pmr_cos 0 (Some 0) 0 (snd (odp_pktio_error_cos_set (Some 0) 0
     (snd (the (odp_pmr_create any_packet (snd (odp_cls_cos_create ''cos'' prm cls_start))))))))"

definition hdr_parsed :: odp_packet_hdr_t where
  "hdr_parsed = hdr_example\<lparr>ph_input_flags := (ph_input_flags hdr_example)\<lparr>if_parsed_all := True, if_l3 := True, if_ipv4 := False,
     if_ipv6 := True\<rparr>, ph_error_flags := error_flags_zero, ph_l3_offset := 14\<rparr>"

lemma cls_example_reachable: "rtranclp cls_step cls_start (cls_example prm)"
proof -
  define c1 where "c1 = snd (odp_cls_cos_create ''cos'' prm cls_start)"
  have "odp_pmr_create any_packet c1 \<noteq> None"
    by (simp add: odp_pmr_create_def odp_pmr_create_term_def any_packet_def class_consts Let_def split: option.splits prod.splits)
  then obtain x c2 where c2: "odp_pmr_create any_packet c1 = Some (x, c2)" by auto
  have "rtranclp cls_step cls_start c2"
    using cls_step.cos_create [of cls_start "''cos''" prm] cls_step.pmr_create [OF c2] unfolding c1_def by auto
  then have "rtranclp cls_step cls_start (snd (odp_pktio_error_cos_set (Some 0) 0 c2))"
    using cls_step.error_cos [of c2 "Some 0" 0] by (rule rtranclp.rtrancl_into_rtrancl)
  then have "rtranclp cls_step cls_start (snd (odp_pktio_pmr_cos 0 (Some 0) 0 (snd (odp_pktio_error_cos_set (Some 0) 0 c2))))"
    using cls_step.pmr_cos [of _ 0 "Some 0" 0] by (rule rtranclp.rtrancl_into_rtrancl)
  then show ?thesis using c2 by (simp add: cls_example_def c1_def)
qed

lemma find_first: "P 0 \<Longrightarrow> find P [0..<64] = Some (0::nat)"
  by (simp add: upt_conv_Cons)

definition any_term :: pmr_term_value_t where
  "any_term = \<lparr>pv_term = ODP_PMR_LEN, pv_val = 0, pv_mask = 0, pv_offset = 0, pv_val_sz = 2\<rparr>"

lemma cls_example_eq:
  "cl_cos (cls_example prm) = (replicate 64 cos_zero)[0 := cos_zero\<lparr>cs_name := ''cos'', cs_valid := True, cs_drop_policy := cp_drop_policy prm,
     cs_queue := cp_queue prm, cs_pool := cp_pool prm\<rparr>]"
  "cl_pmr (cls_example prm) = (replicate 64 (pmr_zero 1))[0 := \<lparr>pm_valid = True, pm_count = 0, pm_num_pmr = 1, pm_term_value = [any_term]\<rparr>]"
  "cl_pktio (cls_example prm) 0 = cls_zero\<lparr>cf_error_cos := Some 0, cf_num_pmr := 1, cf_pmr := (replicate 8 None)[0 := Some (Pmr 0)],
     cf_cos := (replicate 8 None)[0 := Some 0]\<rparr>"
  by (simp_all add: cls_example_def odp_cls_cos_create_def  cls_start_def class_consts find_first cos_zero_def
    upd_cos_def odp_pmr_create_def any_packet_def alloc_pmr_def pmr_zero_def pmr_taken_def odp_pmr_create_term_def any_term_def Let_def
    odp_pktio_error_cos_set_def get_cos_entry_def upd_cls_def cls_zero_def odp_pktio_pmr_cos_def get_pmr_entry_def attach_pmr_def cls_enable_def)

lemma cls_example_entries:
  "get_cos_entry (cls_example prm) 0 = Some 0" "get_pmr_entry (cls_example prm) 0 = Some 0" "links_ranked (\<lambda>_. 0) (cls_example prm)"
  "cs_pool (cl_cos (cls_example prm) ! 0) = cp_pool prm" "cs_queue (cl_cos (cls_example prm) ! 0) = cp_queue prm"
  by (simp_all add: get_cos_entry_def get_pmr_entry_def cls_example_eq class_consts cos_zero_def links_ranked_def nth_list_update)

lemma cls_example_matches: "pmr_matches (cls_example prm) mem a h (Pmr 0)"
  by (simp add: pmr_matches_def cls_example_eq any_term_def verify_pmr_packet_len_def)

lemma cls_example_class: "class_of (cls_example prm) mem a h (Some 0) (Some (Pmr 0)) d \<Longrightarrow> d = 0"
  by (erule class_of.cases) (auto simp: cls_example_eq cos_zero_def dest!: class_of_enters simp: enters_def)

lemma hdr_parsed_lazy: "packet_parse_lazy mem hdr_parsed = hdr_parsed" "ph_error_flags hdr_parsed = error_flags_zero"
  by (simp_all add: packet_parse_lazy_def hdr_parsed_def)

lemma cls_example_find:
  "find (\<lambda>(p, c). enters (cls_example prm) mem a h c p) (take (cf_num_pmr (cl_pktio (cls_example prm) 0))
     (zip (cf_pmr (cl_pktio (cls_example prm) 0)) (cf_cos (cl_pktio (cls_example prm) 0)))) = Some (Some (Pmr 0), Some 0)"
proof -
  have "enters (cls_example prm) mem a h (Some 0) (Some (Pmr 0))" using cls_example_matches by (simp add: enters_def cls_example_eq)
  then show ?thesis by (simp add: cls_example_eq numeral_eq_Suc)
qed

lemma cls_example_select:
  obtains cl' where "pktio_select_cos 0 mem a h (cls_example prm) = Some (Some 0, packet_parse_lazy mem h, cl')" "same_rules (cls_example prm) cl'"
proof -
  have "cls_inv (cls_example prm)" using cfg.reachable_inv [OF cls_example_reachable] by simp
  note s = select_cos_spec [OF this cls_example_entries(3), of 0 mem a h, unfolded Let_def cls_example_find, simplified]
  show ?thesis using s that cls_example_class by (fastforce simp: cls_example_eq split: if_splits)
qed

theorem select_cos_correct_witness:
  "\<exists>cl'. pktio_select_cos 0 (\<lambda>_. 0) 64 hdr_parsed (cls_example odp_cls_cos_param_init) = Some (Some 0, hdr_parsed, cl') \<and> cls_inv cl'"
proof -
  show ?thesis
    using select_cos_correct [OF cls_example_reachable cls_example_entries(3), of 0 "\<lambda>_. 0" 64 hdr_parsed]
    by (auto simp: hdr_parsed_lazy cls_example_find dest!: cls_example_class)
qed

theorem self_link_never_returns_witness:
  "fst (odp_cos_pmr_cos 0 0 0 (cls_example odp_cls_cos_param_init)) = 0 \<and>
   pktio_select_cos 0 (\<lambda>_. 0) 64 hdr_parsed (snd (odp_cos_pmr_cos 0 0 0 (cls_example odp_cls_cos_param_init))) = None"
  by (rule self_link_never_returns [OF cls_example_reachable cls_example_entries(1,2)])
    (simp_all add: cls_example_matches hdr_parsed_lazy cls_example_eq)

text \<open>An IPv6 packet with DSCP 46 gets the class of DSCP 0.\<close>

theorem classifier_drop_hands_out_freed_witness:
  "\<exists>A st st' pkt. pkt_pool_ok A 0 (os_pools st) {pkt} \<and>
     classify_input (loop_classifier False (\<lambda>st _ _. (0, st)) (cls_example odp_cls_cos_param_init)) 0 [pkt] st = ([pkt], st') \<and> pkt_pool_ok A 0 (os_pools st') {}"
proof -
  obtain A t b where t: "pkt_pool_ok A 0 t {b}"
    by (rule pkt_example_owned) blast
  define st where "st = (undefined :: odp_state)\<lparr>os_pools := t\<rparr>"
  let ?mem = "om_byte (pt_mem (os_pools st))" and ?h = "hdr (parse_input b st) b"
  obtain cl' where x: "pktio_select_cos 0 ?mem (odp_packet_data ?h) ?h (cls_example odp_cls_cos_param_init) = Some (Some 0, packet_parse_lazy ?mem ?h, cl')"
    "same_rules (cls_example odp_cls_cos_param_init) cl'" by (rule cls_example_select)
  have "cs_pool (cl_cos cl' ! 0) = None" using x(2) cls_example_entries(4) by (simp add: same_rules_def odp_cls_cos_param_init_def)
  moreover have st: "pkt_pool_ok A 0 (os_pools st) {b}" using t by (simp add: st_def)
  ultimately obtain st' where "classify_input (loop_classifier False (\<lambda>st _ _. (0, st)) (cls_example odp_cls_cos_param_init)) 0 [b] st = ([b], st')"
    "pkt_pool_ok A 0 (os_pools st') {}"
    using classifier_drop_hands_out_freed [OF st _ _ x(1), of False] by (auto simp: pkt_kept_def)
  with st show ?thesis by blast
qed

theorem classifier_delivers_witness:
  "\<exists>st'. classify_input (loop_classifier False (\<lambda>st _ _. (0, st)) (cls_example \<lparr>cp_queue = Some 0, cp_pool = Some 0, cp_drop_policy = 1\<rparr>)) 0
       [64] queue_example_polled = ([], st') \<and> poll_rep 0 (st', {128, 192}) [64]"
proof -
  let ?st = queue_example_polled and ?prm = "\<lparr>cp_queue = Some 0, cp_pool = Some 0, cp_drop_policy = 1\<rparr> :: odp_cls_cos_param_t"
  let ?mem = "om_byte (pt_mem (os_pools ?st))" and ?h = "hdr (parse_input 64 ?st) 64"
  obtain cl' where x: "pktio_select_cos 0 ?mem (odp_packet_data ?h) ?h (cls_example ?prm) = Some (Some 0, packet_parse_lazy ?mem ?h, cl')"
    "same_rules (cls_example ?prm) cl'" by (rule cls_example_select)
  have "cs_pool (cl_cos cl' ! 0) = Some 0" "cs_queue (cl_cos cl' ! 0) = Some 0"
    using x(2) cls_example_entries(4,5) by (simp_all add: same_rules_def)
  moreover have "bh_next (hdr ?st 64) = 0" "bh_pool_hdl (hdr ?st 64) = Some 0"
    by (simp_all add: queue_example_polled_def queue_eval)
  ultimately show ?thesis
    using classifier_delivers [OF queue_example_polled_rep _ _ x(1), of 0 False "\<lambda>st _ _. (0, st)"] by auto
qed

end
