(* ===== verification/Odp_Table.thy ===== *)
theory Odp_Table
  imports Odp_Shm "HOL-Library.Monad_Syntax"
begin

unbundle bit_operations_syntax

text \<open>
  The lookup tables of the helper library (\<open>helper/hashtable.c\<close>, \<open>helper/lineartable.c\<close> and the linked
  lists of \<open>helper/odph_list_internal.h\<close>). A table lives in a block of shared memory; the sizes of the
  structures in it are arguments. The lock of a bucket, or of an entry, makes each call one step.
\<close>

section \<open>Definitions: doubly linked lists\<close>

text \<open>A list object is the head of a bucket or is in a node of the pool; \<open>None\<close> is the null pointer.\<close>

datatype lptr = Bucket nat | Entry nat

record odph_list_object =
  li_next :: "lptr \<Rightarrow> lptr option"
  li_prev :: "lptr \<Rightarrow> lptr option"

definition ODPH_INIT_LIST_HEAD :: "lptr \<Rightarrow> odph_list_object \<Rightarrow> odph_list_object" where
  "ODPH_INIT_LIST_HEAD a l = l\<lparr>li_next := (li_next l)(a := Some a), li_prev := (li_prev l)(a := Some a)\<rparr>"

definition odph_list_add :: "lptr \<Rightarrow> lptr \<Rightarrow> odph_list_object \<Rightarrow> odph_list_object option" where
  "odph_list_add new head l =
     do {
       nx \<leftarrow> li_next l head;
       Some (l\<lparr>li_prev := (li_prev l)(nx := Some new, new := Some head),
               li_next := (li_next l)(new := Some nx, head := Some new)\<rparr>)
     }"

definition odph_list_add_tail :: "lptr \<Rightarrow> lptr \<Rightarrow> odph_list_object \<Rightarrow> odph_list_object option" where
  "odph_list_add_tail new head l =
     do {
       pv \<leftarrow> li_prev l head;
       Some (l\<lparr>li_prev := (li_prev l)(head := Some new, new := Some pv),
               li_next := (li_next l)(new := Some head, pv := Some new)\<rparr>)
     }"

definition odph_list_empty :: "lptr \<Rightarrow> odph_list_object \<Rightarrow> bool" where
  "odph_list_empty head l \<longleftrightarrow> li_next l head = Some head"

definition odph_list_del :: "lptr \<Rightarrow> odph_list_object \<Rightarrow> odph_list_object option" where
  "odph_list_del entry l =
     do {
       pv \<leftarrow> li_prev l entry;
       nx \<leftarrow> li_next l entry;
       Some (ODPH_INIT_LIST_HEAD entry
         (l\<lparr>li_prev := (li_prev l)(nx := Some pv), li_next := (li_next l)(pv := Some nx)\<rparr>))
     }"

section \<open>Definitions: the hash table\<close>

definition ODPH_MAX_BUCKET_NUM :: nat where "ODPH_MAX_BUCKET_NUM = 0x10000"
definition ODPH_HASH_TABLE_MAGIC_WORD :: u32 where "ODPH_HASH_TABLE_MAGIC_WORD = 0xABABBABA"
definition ODPH_TABLE_NAME_LEN :: nat where "ODPH_TABLE_NAME_LEN = 32"
definition ODPH_SUCCESS :: int where "ODPH_SUCCESS = 0"
definition ODPH_FAIL :: int where "ODPH_FAIL = - 1"

record odph_hash_table_imp =
  ht_magicword :: u32
  ht_key_size :: u32
  ht_value_size :: u32
  ht_init_cap :: u32
  ht_hash_node_num :: u32
  ht_name :: string
  ht_list :: odph_list_object
  ht_content :: "nat \<Rightarrow> u8 list"

record odph_linear_table_imp =
  lt_magicword :: u32
  lt_init_cap :: u32
  lt_node_sum :: u32
  lt_value_size :: u32
  lt_name :: string
  lt_value_array :: "u8 list list"

record table_state =
  tbs_shm :: odp_shm_table_t
  tbs_hash :: "u32 \<Rightarrow> odph_hash_table_imp"
  tbs_linear :: "u32 \<Rightarrow> odph_linear_table_imp"

text \<open>The memory is cleared, so that every node has null links; the heads of the buckets are made empty. The
  arguments \<open>s_tbl\<close>, \<open>s_lock\<close>, \<open>s_head\<close> and \<open>s_node\<close> are the sizes of the table, a
  lock, a list head and a node without its content. Nodes are numbered, and have their own links and content: that they lie in the
  block is what \<open>hash_table_pool_in_block\<close> shows, where the control structures leave room for them.\<close>

definition odph_hash_table_create ::
  "(u32 \<Rightarrow> u32) \<Rightarrow> u32 \<Rightarrow> u32 \<Rightarrow> u32 \<Rightarrow> u32 \<Rightarrow> string \<Rightarrow> u32 \<Rightarrow> u32 \<Rightarrow> u32 \<Rightarrow> table_state \<Rightarrow> (u32 \<times> table_state) option" where
  "odph_hash_table_create malloc s_tbl s_lock s_head s_node name capacity key_size value_size ts =
     (if length name \<ge> ODPH_TABLE_NAME_LEN \<or> capacity < 1 \<or> capacity \<ge> 0x1000 \<or> key_size = 0 \<or> value_size = 0
      then Some (0, ts)
      else if odp_shm_addr (tbs_shm ts) (odp_shm_lookup (tbs_shm ts) name) \<noteq> 0 then Some (0, ts)
      else do {
        (shmem, shm) \<leftarrow> odp_shm_reserve malloc (tbs_shm ts) name (ucast (push_bit 20 capacity)) 64 1;
        if shmem = ODP_SHM_INVALID then Some (0, ts\<lparr>tbs_shm := shm\<rparr>)
        else let addr = odp_shm_addr shm shmem;
                 init_cap = push_bit 20 capacity;
                 node_mem = init_cap - s_tbl - of_nat ODPH_MAX_BUCKET_NUM * s_head - of_nat ODPH_MAX_BUCKET_NUM * s_lock;
                 heads = (\<lambda>a. case a of Bucket h \<Rightarrow> if h < ODPH_MAX_BUCKET_NUM then Some a else None | Entry _ \<Rightarrow> None);
                 tbl = \<lparr>ht_magicword = ODPH_HASH_TABLE_MAGIC_WORD, ht_key_size = key_size, ht_value_size = value_size,
                        ht_init_cap = init_cap, ht_hash_node_num = node_mem div (s_node + key_size + value_size),
                        ht_name = take (ODPH_TABLE_NAME_LEN - 1) name, ht_list = \<lparr>li_next = heads, li_prev = heads\<rparr>,
                        ht_content = \<lambda>_. replicate (unat (key_size + value_size)) 0\<rparr>
             in if s_node + key_size + value_size = 0 then None
                else Some (addr, ts\<lparr>tbs_shm := shm, tbs_hash := (tbs_hash ts)(addr := tbl)\<rparr>)
      })"

definition odph_hash_table_destroy :: "u32 \<Rightarrow> table_state \<Rightarrow> (int \<times> table_state) option" where
  "odph_hash_table_destroy table ts =
     (if table = 0 then Some (ODPH_FAIL, ts)
      else let tbl = tbs_hash ts table in
        if ht_magicword tbl \<noteq> ODPH_HASH_TABLE_MAGIC_WORD then Some (ODPH_FAIL, ts)
        else do {
          (ret, _, shm) \<leftarrow> odp_shm_free (tbs_shm ts) (odp_shm_lookup (tbs_shm ts) (ht_name tbl));
          Some (if ret \<noteq> 0 then ret else ODPH_SUCCESS, ts\<lparr>tbs_shm := shm\<rparr>)
        })"

definition odph_hash_table_lookup :: "string \<Rightarrow> table_state \<Rightarrow> u32" where
  "odph_hash_table_lookup name ts =
     (if length name \<ge> ODPH_TABLE_NAME_LEN then 0
      else let a = odp_shm_addr (tbs_shm ts) (odp_shm_lookup (tbs_shm ts) name) in
        if a \<noteq> 0 \<and> ht_name (tbs_hash ts a) = name then a else 0)"

text \<open>The loop does not advance the key. Whether \<open>char\<close> is signed is the argument \<open>sg\<close>.\<close>

fun key_hash_loop :: "nat \<Rightarrow> u32 \<Rightarrow> u32 \<Rightarrow> u32" where
  "key_hash_loop 0 ch hash = hash"
| "key_hash_loop (Suc idx) ch hash = key_hash_loop idx ch (hash * 131 + ch)"

definition odp_key_hash :: "bool \<Rightarrow> u8 list \<Rightarrow> u32 \<Rightarrow> nat" where
  "odp_key_hash sg key key_size =
     (let ch = (if sg then scast (hd key) else ucast (hd key))
      in unat (key_hash_loop (if key_size = 0 then 1 else unat key_size) ch 0 AND 0xFFFF))"

definition odp_hashnode_take :: "odph_hash_table_imp \<Rightarrow> (nat \<times> odph_hash_table_imp) option" where
  "odp_hashnode_take tbl =
     map_option (\<lambda>idx. (idx, tbl\<lparr>ht_list := ODPH_INIT_LIST_HEAD (Entry idx) (ht_list tbl)\<rparr>))
       (find (\<lambda>idx. li_next (ht_list tbl) (Entry idx) = None \<and> li_prev (ht_list tbl) (Entry idx) = None)
          [0..<unat (ht_hash_node_num tbl)])"

definition odp_hashnode_give :: "nat \<Rightarrow> odph_hash_table_imp \<Rightarrow> odph_hash_table_imp option" where
  "odp_hashnode_give node tbl =
     map_option (\<lambda>l. tbl\<lparr>ht_list := l\<lparr>li_next := (li_next l)(Entry node := None), li_prev := (li_prev l)(Entry node := None)\<rparr>,
                      ht_content := (ht_content tbl)(node := replicate (unat (ht_key_size tbl + ht_value_size tbl)) 0)\<rparr>)
       (odph_list_del (Entry node) (ht_list tbl))"

definition node_key :: "odph_hash_table_imp \<Rightarrow> nat \<Rightarrow> u8 list" where
  "node_key tbl node = take (unat (ht_key_size tbl)) (ht_content tbl node)"

text \<open>The loop over the nodes of a bucket: the node with the key, if there is one.\<close>

partial_function (option) bucket_find :: "odph_hash_table_imp \<Rightarrow> u8 list \<Rightarrow> nat \<Rightarrow> lptr option \<Rightarrow> nat option option" where
  "bucket_find tbl key h pos =
     (case pos of
        None \<Rightarrow> None
      | Some (Bucket _) \<Rightarrow> if pos = Some (Bucket h) then Some None else None
      | Some (Entry i) \<Rightarrow>
          if node_key tbl i = take (unat (ht_key_size tbl)) key then Some (Some i)
          else bucket_find tbl key h (li_next (ht_list tbl) (Entry i)))"

definition node_value :: "odph_hash_table_imp \<Rightarrow> nat \<Rightarrow> u8 list" where
  "node_value tbl node = take (unat (ht_value_size tbl)) (drop (unat (ht_key_size tbl)) (ht_content tbl node))"

text \<open>The two \<open>memcpy\<close> into a node.\<close>

definition set_value :: "nat \<Rightarrow> u8 list \<Rightarrow> odph_hash_table_imp \<Rightarrow> odph_hash_table_imp" where
  "set_value node val tbl = tbl\<lparr>ht_content := (ht_content tbl)(node := node_key tbl node @ take (unat (ht_value_size tbl)) val)\<rparr>"

definition set_key :: "nat \<Rightarrow> u8 list \<Rightarrow> odph_hash_table_imp \<Rightarrow> odph_hash_table_imp" where
  "set_key node key tbl =
     tbl\<lparr>ht_content := (ht_content tbl)(node := take (unat (ht_key_size tbl)) key @ drop (unat (ht_key_size tbl)) (ht_content tbl node))\<rparr>"

text \<open>What the calls do under the lock of the bucket.\<close>

definition hash_put :: "bool \<Rightarrow> odph_hash_table_imp \<Rightarrow> u8 list \<Rightarrow> u8 list \<Rightarrow> (int \<times> odph_hash_table_imp) option" where
  "hash_put sg tbl key val =
     (let hash = odp_key_hash sg key (ht_key_size tbl) in
      do {
        r \<leftarrow> bucket_find tbl key hash (li_next (ht_list tbl) (Bucket hash));
        case r of
          Some node \<Rightarrow> Some (ODPH_SUCCESS, set_value node val tbl)
        | None \<Rightarrow>
            (case odp_hashnode_take tbl of
               None \<Rightarrow> Some (ODPH_FAIL, tbl)
             | Some (node, tbl) \<Rightarrow>
                 let tbl = set_value node val (set_key node key tbl) in
                 map_option (\<lambda>l. (ODPH_SUCCESS, tbl\<lparr>ht_list := l\<rparr>)) (odph_list_add (Entry node) (Bucket hash) (ht_list tbl)))
      })"

text \<open>The result is the content of the buffer, if it is written.\<close>

definition hash_get :: "bool \<Rightarrow> odph_hash_table_imp \<Rightarrow> u8 list \<Rightarrow> (int \<times> u8 list option) option" where
  "hash_get sg tbl key =
     (let hash = odp_key_hash sg key (ht_key_size tbl) in
      do {
        r \<leftarrow> bucket_find tbl key hash (li_next (ht_list tbl) (Bucket hash));
        Some (case r of Some node \<Rightarrow> (ODPH_SUCCESS, Some (node_value tbl node)) | None \<Rightarrow> (ODPH_FAIL, None))
      })"

definition hash_remove :: "bool \<Rightarrow> odph_hash_table_imp \<Rightarrow> u8 list \<Rightarrow> (int \<times> odph_hash_table_imp) option" where
  "hash_remove sg tbl key =
     (let hash = odp_key_hash sg key (ht_key_size tbl) in
      do {
        r \<leftarrow> bucket_find tbl key hash (li_next (ht_list tbl) (Bucket hash));
        case r of
          Some node \<Rightarrow> map_option (\<lambda>tbl. (ODPH_SUCCESS, tbl)) (odp_hashnode_give node tbl)
        | None \<Rightarrow> Some (ODPH_SUCCESS, tbl)
      })"

text \<open>The calls on the address of a table; a \<open>None\<close> argument is the null pointer.\<close>

definition odph_hash_put_value ::
  "bool \<Rightarrow> u32 \<Rightarrow> u8 list option \<Rightarrow> u8 list option \<Rightarrow> table_state \<Rightarrow> (int \<times> table_state) option" where
  "odph_hash_put_value sg table key val ts =
     (if table = 0 \<or> key = None \<or> val = None then Some (ODPH_FAIL, ts)
      else map_option (\<lambda>(r, tbl). (r, ts\<lparr>tbs_hash := (tbs_hash ts)(table := tbl)\<rparr>))
             (hash_put sg (tbs_hash ts table) (the key) (the val)))"

definition odph_hash_get_value ::
  "bool \<Rightarrow> u32 \<Rightarrow> u8 list option \<Rightarrow> bool \<Rightarrow> u32 \<Rightarrow> table_state \<Rightarrow> (int \<times> u8 list option) option" where
  "odph_hash_get_value sg table key buffer_null buffer_size ts =
     (if table = 0 \<or> key = None \<or> buffer_null \<or> buffer_size < ht_value_size (tbs_hash ts table) then Some (ODPH_FAIL, None)
      else hash_get sg (tbs_hash ts table) (the key))"

definition odph_hash_remove_value :: "bool \<Rightarrow> u32 \<Rightarrow> u8 list option \<Rightarrow> table_state \<Rightarrow> (int \<times> table_state) option" where
  "odph_hash_remove_value sg table key ts =
     (if table = 0 \<or> key = None then Some (ODPH_FAIL, ts)
      else map_option (\<lambda>(r, tbl). (r, ts\<lparr>tbs_hash := (tbs_hash ts)(table := tbl)\<rparr>))
             (hash_remove sg (tbs_hash ts table) (the key)))"

section \<open>Definitions: the linear table\<close>

definition ODPH_LINEAR_TABLE_MAGIC_WORD :: u32 where "ODPH_LINEAR_TABLE_MAGIC_WORD = 0xEFEFFEFE"

text \<open>The comparison in \<open>init_cap\<close> is that of the source.\<close>

definition odph_linear_table_create ::
  "(u32 \<Rightarrow> u32) \<Rightarrow> u32 \<Rightarrow> string \<Rightarrow> u32 \<Rightarrow> u32 \<Rightarrow> table_state \<Rightarrow> (u32 \<times> table_state) option" where
  "odph_linear_table_create malloc s_lock name capacity value_size ts =
     (if length name \<ge> ODPH_TABLE_NAME_LEN \<or> capacity < 1 \<or> capacity \<ge> 0x1000 \<or> value_size = 0 then Some (0, ts)
      else if odp_shm_addr (tbs_shm ts) (odp_shm_lookup (tbs_shm ts) name) \<noteq> 0 then Some (0, ts)
      else do {
        (shmem, shm) \<leftarrow> odp_shm_reserve malloc (tbs_shm ts) name (ucast (push_bit 20 capacity)) 64 1;
        if shmem = ODP_SHM_INVALID then Some (0, ts\<lparr>tbs_shm := shm\<rparr>)
        else let addr = odp_shm_addr shm shmem;
                 init_cap = (if capacity < 20 then 1 else 0);
                 node_num = init_cap div (value_size + s_lock);
                 tbl = \<lparr>lt_magicword = ODPH_LINEAR_TABLE_MAGIC_WORD, lt_init_cap = init_cap, lt_node_sum = node_num,
                        lt_value_size = value_size + s_lock, lt_name = take (ODPH_TABLE_NAME_LEN - 1) name,
                        lt_value_array = replicate (unat node_num) (replicate (unat value_size) 0)\<rparr>
             in if value_size + s_lock = 0 then None
                else Some (addr, ts\<lparr>tbs_shm := shm, tbs_linear := (tbs_linear ts)(addr := tbl)\<rparr>)
      })"

definition odph_linear_table_destroy :: "u32 \<Rightarrow> table_state \<Rightarrow> (int \<times> table_state) option" where
  "odph_linear_table_destroy table ts =
     (if table = 0 then Some (ODPH_FAIL, ts)
      else let tbl = tbs_linear ts table in
        if lt_magicword tbl \<noteq> ODPH_LINEAR_TABLE_MAGIC_WORD then Some (ODPH_FAIL, ts)
        else do {
          (ret, _, shm) \<leftarrow> odp_shm_free (tbs_shm ts) (odp_shm_lookup (tbs_shm ts) (lt_name tbl));
          Some (if ret \<noteq> 0 then ret else ODPH_SUCCESS, ts\<lparr>tbs_shm := shm\<rparr>)
        })"

definition odph_linear_table_lookup :: "string \<Rightarrow> table_state \<Rightarrow> u32" where
  "odph_linear_table_lookup name ts =
     (if length name \<ge> ODPH_TABLE_NAME_LEN then 0
      else let a = odp_shm_addr (tbs_shm ts) (odp_shm_lookup (tbs_shm ts) name) in
        if a \<noteq> 0 \<and> lt_magicword (tbs_linear ts a) = ODPH_LINEAR_TABLE_MAGIC_WORD \<and> lt_name (tbs_linear ts a) = name
        then a else 0)"

text \<open>The size of the buffer is not looked at.\<close>

definition odph_lineartable_put_value ::
  "u32 \<Rightarrow> u32 \<Rightarrow> u32 option \<Rightarrow> u8 list option \<Rightarrow> table_state \<Rightarrow> int \<times> table_state" where
  "odph_lineartable_put_value s_lock table key val ts =
     (if table = 0 \<or> key = None \<or> val = None then (ODPH_FAIL, ts)
      else let tbl = tbs_linear ts table; ikey = the key in
        if ikey \<ge> lt_node_sum tbl then (ODPH_FAIL, ts)
        else (ODPH_SUCCESS, ts\<lparr>tbs_linear := (tbs_linear ts)(table :=
               tbl\<lparr>lt_value_array := (lt_value_array tbl)[unat ikey := take (unat (lt_value_size tbl - s_lock)) (the val)]\<rparr>)\<rparr>))"

definition odph_lineartable_get_value :: "u32 \<Rightarrow> u32 option \<Rightarrow> bool \<Rightarrow> u32 \<Rightarrow> table_state \<Rightarrow> int \<times> u8 list option" where
  "odph_lineartable_get_value table key buffer_null buffer_size ts =
     (if table = 0 \<or> key = None \<or> buffer_null then (ODPH_FAIL, None)
      else let tbl = tbs_linear ts table; ikey = the key in
        if ikey \<ge> lt_node_sum tbl then (ODPH_FAIL, None)
        else (ODPH_SUCCESS, Some (lt_value_array tbl ! unat ikey)))"

section \<open>Lists of a bucket\<close>

text \<open>The circular list at the head \<open>h\<close>, forwards and backwards.\<close>

definition dlist :: "odph_list_object \<Rightarrow> lptr \<Rightarrow> lptr list \<Rightarrow> bool" where
  "dlist l h xs \<longleftrightarrow> h \<notin> set xs \<and> distinct xs \<and> chain (li_next l) (li_next l h) xs (Some h) \<and>
     chain (li_prev l) (li_prev l h) (rev xs) (Some h)"

lemma dlist_cong:
  assumes "\<And>a. a \<in> insert h (set xs) \<Longrightarrow> li_next l' a = li_next l a" "\<And>a. a \<in> insert h (set xs) \<Longrightarrow> li_prev l' a = li_prev l a"
  shows "dlist l' h xs = dlist l h xs"
proof -
  have "chain (li_next l') p xs q = chain (li_next l) p xs q" for p q using assms(1) by (intro chain_cong) simp
  moreover have "chain (li_prev l') p (rev xs) q = chain (li_prev l) p (rev xs) q" for p q using assms(2) by (intro chain_cong) simp
  ultimately show ?thesis using assms by (simp add: dlist_def)
qed

lemma dlist_nil: "dlist l h [] \<longleftrightarrow> li_next l h = Some h \<and> li_prev l h = Some h"
  by (simp add: dlist_def)

text \<open>The neighbours of a node.\<close>

lemma dlist_split:
  assumes "dlist l h (as @ x # bs)"
  shows "li_next l x = Some (hd (bs @ [h]))" "li_prev l x = Some (last (h # as))"
    "li_next l (last (h # as)) = Some x" "li_prev l (hd (bs @ [h])) = Some x"
proof -
  have "h \<notin> set (as @ x # bs)" using assms by (simp add: dlist_def)
  obtain m where f: "chain (li_next l) (li_next l h) as (Some x)" "chain (li_next l) (li_next l x) bs (Some h)"
    using assms by (auto simp: dlist_def)
  obtain m where b: "chain (li_prev l) (li_prev l h) (rev bs) (Some x)" "chain (li_prev l) (li_prev l x) (rev as) (Some h)"
    using assms by (auto simp: dlist_def)
  show "li_next l x = Some (hd (bs @ [h]))" using f(2) by (cases bs) auto
  show "li_prev l x = Some (last (h # as))" using b(2) by (cases as rule: rev_cases) auto
  show "li_next l (last (h # as)) = Some x" using f(1) by (cases as rule: rev_cases) auto
  show "li_prev l (hd (bs @ [h])) = Some x" using b(1) by (cases bs) auto
qed

lemma dlist_add:
  assumes d: "dlist l h xs" and new: "new \<notin> set xs" "new \<noteq> h"
  shows "\<exists>l'. odph_list_add new h l = Some l' \<and> dlist l' h (new # xs) \<and>
    (\<forall>a. a \<notin> insert new (insert h (set xs)) \<longrightarrow> li_next l' a = li_next l a \<and> li_prev l' a = li_prev l a)"
proof -
  have nx: "li_next l h = Some (hd (xs @ [h]))" using d by (cases xs) (auto simp: dlist_def)
  let ?l = "l\<lparr>li_prev := (li_prev l)(hd (xs @ [h]) := Some new, new := Some h),
             li_next := (li_next l)(new := Some (hd (xs @ [h])), h := Some new)\<rparr>"
  have x: "h \<notin> set xs" "distinct xs" "chain (li_next l) (li_next l h) xs (Some h)" "chain (li_prev l) (li_prev l h) (rev xs) (Some h)"
    using d by (simp_all add: dlist_def)
  have f: "chain (li_next ?l) (li_next ?l new) xs (Some h)"
    using x(1,3) new nx by (simp add: fun_upd_twist)
  have b: "chain (li_prev ?l) (li_prev ?l h) (rev xs) (Some new)"
  proof (cases xs)
    case (Cons y ys)
    then have "chain (li_prev l) (li_prev l h) (rev ys) (Some y)" "y \<noteq> h" "y \<notin> set ys" using x by auto
    then show ?thesis using Cons new by (auto simp: fun_upd_twist)
  qed (use new in simp)
  have "dlist ?l h (new # xs)" unfolding dlist_def using f b x(1,2) new by simp
  moreover have "li_next ?l a = li_next l a \<and> li_prev ?l a = li_prev l a" if "a \<notin> insert new (insert h (set xs))" for a
    using that by (cases xs) auto
  moreover have "odph_list_add new h l = Some ?l" by (simp add: odph_list_add_def nx)
  ultimately show ?thesis by blast
qed

lemma dlist_del:
  assumes d: "dlist l h (as @ x # bs)"
  shows "\<exists>l'. odph_list_del x l = Some l' \<and> dlist l' h (as @ bs) \<and>
    (\<forall>a. a \<notin> insert h (set (as @ x # bs)) \<longrightarrow> li_next l' a = li_next l a \<and> li_prev l' a = li_prev l a)"
proof -
  define p n where "p = last (h # as)" and "n = hd (bs @ [h])"
  define l' where "l' = ODPH_INIT_LIST_HEAD x (l\<lparr>li_prev := (li_prev l)(n := Some p), li_next := (li_next l)(p := Some n)\<rparr>)"
  note S = dlist_split [OF d, folded p_def n_def]
  have x: "h \<notin> set as" "h \<notin> set bs" "h \<noteq> x" "distinct as" "distinct bs" "x \<notin> set as" "x \<notin> set bs" "set as \<inter> set bs = {}"
    using d by (auto simp: dlist_def)
  have f: "chain (li_next l) (li_next l h) as (Some x)" "chain (li_next l) (li_next l x) bs (Some h)"
    and b: "chain (li_prev l) (li_prev l h) (rev bs) (Some x)" "chain (li_prev l) (li_prev l x) (rev as) (Some h)"
    using d by (auto simp: dlist_def)
  have nl: "li_next l' = (li_next l)(p := Some n, x := Some x)" "li_prev l' = (li_prev l)(n := Some p, x := Some x)"
    by (simp_all add: l'_def ODPH_INIT_LIST_HEAD_def)
  have p: "p \<in> insert h (set as)" by (simp add: p_def)
  have n: "n \<in> insert h (set bs)" by (cases bs) (simp_all add: n_def)
  have "p \<notin> set bs" "n \<notin> set as" using p n x by auto
  then have f2: "chain (li_next l') (Some n) bs (Some h)" and b2: "chain (li_prev l') (Some p) (rev as) (Some h)"
    using f(2) S(1) b(2) S(2) x by (simp_all add: nl)
  have f1: "chain (li_next l') (li_next l' h) as (Some n)"
  proof (cases as rule: rev_cases)
    case (snoc ys y)
    then have "chain (li_next l) (li_next l h) ys (Some y)" "p = y" using f(1) by (auto simp: p_def)
    then show ?thesis using snoc x by (auto simp: nl)
  qed (use x in \<open>simp add: nl p_def\<close>)
  have b1: "chain (li_prev l') (li_prev l' h) (rev bs) (Some p)"
  proof (cases bs)
    case (Cons y ys)
    then have "chain (li_prev l) (li_prev l h) (rev ys) (Some y)" "n = y" using b(1) by (auto simp: n_def)
    then show ?thesis using Cons x by (auto simp: nl)
  qed (use x in \<open>simp add: nl n_def\<close>)
  have "dlist l' h (as @ bs)" unfolding dlist_def using f1 f2 b1 b2 x by auto
  moreover have "li_next l' a = li_next l a \<and> li_prev l' a = li_prev l a" if "a \<notin> insert h (set (as @ x # bs))" for a
    using that p n by (auto simp: nl)
  moreover have "odph_list_del x l = Some l'" by (simp add: odph_list_del_def S(1,2) l'_def)
  ultimately show ?thesis by blast
qed

section \<open>The hash table as a map\<close>

lemma bucket_find_chain:
  "chain (li_next (ht_list tbl)) p (map Entry xs) (Some (Bucket h)) \<Longrightarrow>
   bucket_find tbl key h p = Some (find (\<lambda>i. node_key tbl i = take (unat (ht_key_size tbl)) key) xs)"
  by (induction xs arbitrary: p) (auto simp: bucket_find.simps [of tbl key h "Some _"])

lemma key_hash_less: "odp_key_hash sg key ks < 0x10000"
proof -
  have "unat (x AND 0xFFFF) \<le> unat (0xFFFF :: u32)" for x :: u32
    by (meson word_and_le1 word_le_nat_alt)
  then have "unat (x AND 0xFFFF) < 0x10000" for x :: u32 by (rule order.strict_trans1) simp
  then show ?thesis unfolding odp_key_hash_def Let_def by blast
qed

text \<open>The nodes \<open>U\<close> are in use: every one is in the list of its bucket, its key is in no other node, and
  the pairs of keys and values are the map \<open>m\<close>. The other nodes have null links.\<close>

definition ht_nodes :: "bool \<Rightarrow> odph_hash_table_imp \<Rightarrow> nat set \<Rightarrow> bool" where
  "ht_nodes sg tbl U \<longleftrightarrow> U \<subseteq> {..<unat (ht_hash_node_num tbl)} \<and> inj_on (node_key tbl) U \<and>
     (\<forall>i\<in>U. length (ht_content tbl i) = unat (ht_key_size tbl) + unat (ht_value_size tbl)) \<and>
     (\<forall>h<0x10000. \<exists>xs. dlist (ht_list tbl) (Bucket h) (map Entry xs) \<and>
        set xs = {i \<in> U. odp_key_hash sg (node_key tbl i) (ht_key_size tbl) = h}) \<and>
     (\<forall>i<unat (ht_hash_node_num tbl). i \<notin> U \<longrightarrow> li_next (ht_list tbl) (Entry i) = None \<and> li_prev (ht_list tbl) (Entry i) = None)"

definition ht_rep :: "bool \<Rightarrow> odph_hash_table_imp \<Rightarrow> (u8 list \<rightharpoonup> u8 list) \<Rightarrow> bool" where
  "ht_rep sg tbl m \<longleftrightarrow> (\<exists>U. ht_nodes sg tbl U \<and> (\<forall>k v. m k = Some v \<longleftrightarrow> (\<exists>i\<in>U. node_key tbl i = k \<and> node_value tbl i = v)))"

lemma ht_nodesD:
  assumes "ht_nodes sg tbl U"
  shows "U \<subseteq> {..<unat (ht_hash_node_num tbl)}" "inj_on (node_key tbl) U"
    "\<And>i. i \<in> U \<Longrightarrow> length (ht_content tbl i) = unat (ht_key_size tbl) + unat (ht_value_size tbl)"
    "\<And>i. i < unat (ht_hash_node_num tbl) \<Longrightarrow> i \<notin> U \<Longrightarrow> li_next (ht_list tbl) (Entry i) = None \<and> li_prev (ht_list tbl) (Entry i) = None"
    "\<And>h. h < 0x10000 \<Longrightarrow> \<exists>xs. dlist (ht_list tbl) (Bucket h) (map Entry xs) \<and>
        set xs = {i \<in> U. odp_key_hash sg (node_key tbl i) (ht_key_size tbl) = h}"
  using assms unfolding ht_nodes_def by blast+

text \<open>The loop finds the node of the key, if there is one.\<close>

lemma bucket_find_correct:
  assumes n: "ht_nodes sg tbl U" and k: "length key = unat (ht_key_size tbl)"
  defines "h \<equiv> odp_key_hash sg key (ht_key_size tbl)"
  shows "\<exists>r. bucket_find tbl key h (li_next (ht_list tbl) (Bucket h)) = Some r \<and>
    (case r of None \<Rightarrow> \<forall>i\<in>U. node_key tbl i \<noteq> key | Some i \<Rightarrow> i \<in> U \<and> node_key tbl i = key)"
proof -
  obtain xs where xs: "dlist (ht_list tbl) (Bucket h) (map Entry xs)"
    "set xs = {i \<in> U. odp_key_hash sg (node_key tbl i) (ht_key_size tbl) = h}"
    using ht_nodesD(5) [OF n key_hash_less] unfolding h_def by blast
  have tk: "take (unat (ht_key_size tbl)) key = key" by (simp add: k)
  have "chain (li_next (ht_list tbl)) (li_next (ht_list tbl) (Bucket h)) (map Entry xs) (Some (Bucket h))"
    using xs(1) unfolding dlist_def by blast
  from bucket_find_chain [OF this, of key]
  have f: "bucket_find tbl key h (li_next (ht_list tbl) (Bucket h)) = Some (find (\<lambda>i. node_key tbl i = key) xs)"
    unfolding tk .
  have none: "\<forall>i\<in>U. node_key tbl i \<noteq> key" if "find (\<lambda>i. node_key tbl i = key) xs = None"
  proof (intro ballI notI)
    fix i assume "i \<in> U" "node_key tbl i = key"
    then have "i \<in> set xs" by (simp add: xs(2) h_def)
    then show False using that \<open>node_key tbl i = key\<close> by (simp add: find_None_iff)
  qed
  have some: "i \<in> U \<and> node_key tbl i = key" if "find (\<lambda>i. node_key tbl i = key) xs = Some i" for i
    using find_SomeD [OF that] xs(2) by simp
  show ?thesis
  proof (cases "find (\<lambda>i. node_key tbl i = key) xs")
    case None
    show ?thesis by (rule exI [of _ None]) (use f none [OF None] None in simp)
  next
    case (Some i)
    show ?thesis by (rule exI [of _ "Some i"]) (use f some [OF Some] Some in simp)
  qed
qed

lemma hash_get_correct:
  assumes m: "ht_rep sg tbl m" and k: "length key = unat (ht_key_size tbl)"
  shows "hash_get sg tbl key = Some (case m key of None \<Rightarrow> (ODPH_FAIL, None) | Some v \<Rightarrow> (ODPH_SUCCESS, Some v))"
proof -
  obtain U where U: "ht_nodes sg tbl U" "\<And>k v. m k = Some v \<longleftrightarrow> (\<exists>i\<in>U. node_key tbl i = k \<and> node_value tbl i = v)"
    using m by (auto simp: ht_rep_def)
  obtain r where r: "bucket_find tbl key (odp_key_hash sg key (ht_key_size tbl))
      (li_next (ht_list tbl) (Bucket (odp_key_hash sg key (ht_key_size tbl)))) = Some r"
    "case r of None \<Rightarrow> \<forall>i\<in>U. node_key tbl i \<noteq> key | Some i \<Rightarrow> i \<in> U \<and> node_key tbl i = key"
    using bucket_find_correct [OF U(1) k] by blast
  show ?thesis
  proof (cases r)
    case None
    then have "m key = None" using r(2) U(2) by (cases "m key") auto
    then show ?thesis using None r(1) by (simp add: hash_get_def Let_def)
  next
    case (Some i)
    then have "m key = Some (node_value tbl i)" using r(2) U(2) by auto
    then show ?thesis using Some r(1) by (simp add: hash_get_def Let_def)
  qed
qed

text \<open>A node in use has a link; the nodes of two buckets are different.\<close>

lemma used_linked:
  assumes n: "ht_nodes sg tbl U" and i: "i \<in> U"
  shows "li_next (ht_list tbl) (Entry i) \<noteq> None"
proof -
  let ?h = "odp_key_hash sg (node_key tbl i) (ht_key_size tbl)"
  obtain xs where xs: "dlist (ht_list tbl) (Bucket ?h) (map Entry xs)"
    "set xs = {j \<in> U. odp_key_hash sg (node_key tbl j) (ht_key_size tbl) = ?h}"
    using ht_nodesD(5) [OF n key_hash_less] by blast
  then have "i \<in> set xs" using i by simp
  then obtain as bs where "xs = as @ i # bs" by (meson split_list)
  then have "dlist (ht_list tbl) (Bucket ?h) (map Entry as @ Entry i # map Entry bs)" using xs(1) by simp
  from dlist_split(1) [OF this] show ?thesis by simp
qed

lemma hashnode_take_None:
  assumes n: "ht_nodes sg tbl U" and t: "odp_hashnode_take tbl = None"
  shows "U = {..<unat (ht_hash_node_num tbl)}"
proof -
  have "\<forall>i < unat (ht_hash_node_num tbl). \<not> (li_next (ht_list tbl) (Entry i) = None \<and> li_prev (ht_list tbl) (Entry i) = None)"
    using t by (simp add: odp_hashnode_take_def find_upt_None)
  then show ?thesis using ht_nodesD(1,4) [OF n] by blast
qed

lemma hashnode_take_Some:
  assumes n: "ht_nodes sg tbl U" and t: "odp_hashnode_take tbl = Some (i, tbl')"
  shows "i < unat (ht_hash_node_num tbl)" "i \<notin> U" "tbl' = tbl\<lparr>ht_list := ODPH_INIT_LIST_HEAD (Entry i) (ht_list tbl)\<rparr>"
proof -
  have f: "find (\<lambda>idx. li_next (ht_list tbl) (Entry idx) = None \<and> li_prev (ht_list tbl) (Entry idx) = None) [0..<unat (ht_hash_node_num tbl)] = Some i"
    using t by (auto simp: odp_hashnode_take_def)
  from find_SomeD [OF f] show "i < unat (ht_hash_node_num tbl)" by simp
  from find_SomeD [OF f] show "i \<notin> U" using used_linked [OF n] by blast
  show "tbl' = tbl\<lparr>ht_list := ODPH_INIT_LIST_HEAD (Entry i) (ht_list tbl)\<rparr>" using t by (auto simp: odp_hashnode_take_def)
qed

lemma node_key_upd [simp]:
  "node_key (tbl\<lparr>ht_list := l\<rparr>) j = node_key tbl j"
  "length (node_key tbl i) = unat (ht_key_size tbl) \<Longrightarrow> node_key (set_value i v tbl) j = node_key tbl j"
  "length key = unat (ht_key_size tbl) \<Longrightarrow> node_key (set_key i key tbl) j = (if j = i then key else node_key tbl j)"
  by (simp_all add: node_key_def set_value_def set_key_def)

lemma node_value_upd [simp]:
  "node_value (tbl\<lparr>ht_list := l\<rparr>) j = node_value tbl j"
  "length v = unat (ht_value_size tbl) \<Longrightarrow> length (node_key tbl i) = unat (ht_key_size tbl) \<Longrightarrow>
     node_value (set_value i v tbl) j = (if j = i then v else node_value tbl j)"
  "i \<noteq> j \<Longrightarrow> node_value (set_key i key tbl) j = node_value tbl j"
  by (simp_all add: node_key_def node_value_def set_value_def set_key_def)

lemma set_key_value_fields [simp]:
  "ht_list (set_value i v tbl) = ht_list tbl" "ht_list (set_key i key tbl) = ht_list tbl"
  "ht_key_size (set_value i v tbl) = ht_key_size tbl" "ht_key_size (set_key i key tbl) = ht_key_size tbl"
  "ht_value_size (set_value i v tbl) = ht_value_size tbl" "ht_value_size (set_key i key tbl) = ht_value_size tbl"
  "ht_hash_node_num (set_value i v tbl) = ht_hash_node_num tbl" "ht_hash_node_num (set_key i key tbl) = ht_hash_node_num tbl"
  "i \<noteq> j \<Longrightarrow> ht_content (set_value i v tbl) j = ht_content tbl j" "i \<noteq> j \<Longrightarrow> ht_content (set_key i key tbl) j = ht_content tbl j"
  by (simp_all add: set_value_def set_key_def)

lemma length_set_value [simp]:
  "length v = unat (ht_value_size tbl) \<Longrightarrow> length (node_key tbl i) = unat (ht_key_size tbl) \<Longrightarrow>
   length (ht_content (set_value i v tbl) i) = unat (ht_key_size tbl) + unat (ht_value_size tbl)"
  by (simp add: set_value_def)

lemma node_key_length: "ht_nodes sg tbl U \<Longrightarrow> i \<in> U \<Longrightarrow> length (node_key tbl i) = unat (ht_key_size tbl)"
  by (simp add: node_key_def ht_nodesD(3))

text \<open>The lists of the buckets after a change in the bucket \<open>h\<close> only.\<close>

lemma buckets_frame:
  assumes n: "ht_nodes sg tbl U" and hh: "h' < 0x10000" "h' \<noteq> h"
    and frame: "\<And>a. a \<notin> insert e (insert (Bucket h) (Entry ` {i \<in> U. odp_key_hash sg (node_key tbl i) (ht_key_size tbl) = h})) \<Longrightarrow>
      li_next l' a = li_next (ht_list tbl) a \<and> li_prev l' a = li_prev (ht_list tbl) a"
    and e: "e \<notin> insert (Bucket h') (Entry ` {i \<in> U. odp_key_hash sg (node_key tbl i) (ht_key_size tbl) = h'})"
  shows "\<exists>xs. dlist l' (Bucket h') (map Entry xs) \<and> set xs = {i \<in> U. odp_key_hash sg (node_key tbl i) (ht_key_size tbl) = h'}"
proof -
  obtain xs where xs: "dlist (ht_list tbl) (Bucket h') (map Entry xs)"
    "set xs = {i \<in> U. odp_key_hash sg (node_key tbl i) (ht_key_size tbl) = h'}"
    using ht_nodesD(5) [OF n hh(1)] by blast
  have eq: "li_next l' a = li_next (ht_list tbl) a \<and> li_prev l' a = li_prev (ht_list tbl) a"
    if "a \<in> insert (Bucket h') (set (map Entry xs))" for a
    by (rule frame) (use that e xs(2) hh(2) in auto)
  have "dlist l' (Bucket h') (map Entry xs) = dlist (ht_list tbl) (Bucket h') (map Entry xs)"
    by (rule dlist_cong) (use eq in blast)+
  then show ?thesis using xs by blast
qed

lemma put_new_list:
  assumes d: "dlist l (Bucket h) (map Entry xs)" and i: "i \<notin> set xs"
  shows "\<exists>l'. odph_list_add (Entry i) (Bucket h) (ODPH_INIT_LIST_HEAD (Entry i) l) = Some l' \<and> dlist l' (Bucket h) (map Entry (i # xs)) \<and>
    (\<forall>a. a \<notin> insert (Entry i) (insert (Bucket h) (Entry ` set xs)) \<longrightarrow> li_next l' a = li_next l a \<and> li_prev l' a = li_prev l a)"
proof -
  let ?l = "ODPH_INIT_LIST_HEAD (Entry i) l"
  have l: "li_next ?l a = li_next l a \<and> li_prev ?l a = li_prev l a" if "a \<noteq> Entry i" for a
    using that by (simp add: ODPH_INIT_LIST_HEAD_def)
  have ne: "a \<noteq> Entry i" if "a \<in> insert (Bucket h) (set (map Entry xs))" for a using that i by auto
  have "dlist ?l (Bucket h) (map Entry xs) = dlist l (Bucket h) (map Entry xs)"
    by (rule dlist_cong) (use l ne in blast)+
  with d have "dlist ?l (Bucket h) (map Entry xs)" by simp
  from dlist_add [OF this, of "Entry i"] i obtain l' where l': "odph_list_add (Entry i) (Bucket h) ?l = Some l'"
    "dlist l' (Bucket h) (map Entry (i # xs))"
    "\<And>a. a \<notin> insert (Entry i) (insert (Bucket h) (Entry ` set xs)) \<Longrightarrow> li_next l' a = li_next ?l a \<and> li_prev l' a = li_prev ?l a"
    by auto
  have "li_next l' a = li_next l a \<and> li_prev l' a = li_prev l a" if "a \<notin> insert (Entry i) (insert (Bucket h) (Entry ` set xs))" for a
    using l'(3) [OF that] l [of a] that by simp
  then show ?thesis using l'(1,2) by blast
qed

lemma put_new_nodes:
  assumes n: "ht_nodes sg tbl U" and i: "i < unat (ht_hash_node_num tbl)" "i \<notin> U"
    and k: "length key = unat (ht_key_size tbl)" "\<forall>j\<in>U. node_key tbl j \<noteq> key" and v: "length val = unat (ht_value_size tbl)"
  defines "h \<equiv> odp_key_hash sg key (ht_key_size tbl)" and "l1 \<equiv> ODPH_INIT_LIST_HEAD (Entry i) (ht_list tbl)"
  shows "\<exists>l'. odph_list_add (Entry i) (Bucket h) l1 = Some l' \<and>
    ht_nodes sg (set_value i val (set_key i key tbl)\<lparr>ht_list := l'\<rparr>) (insert i U)"
proof -
  let ?t = "set_value i val (set_key i key tbl)"
  let ?S = "{j \<in> U. odp_key_hash sg (node_key tbl j) (ht_key_size tbl) = h}"
  obtain xs where xs: "dlist (ht_list tbl) (Bucket h) (map Entry xs)" "set xs = ?S"
    using ht_nodesD(5) [OF n key_hash_less] unfolding h_def by blast
  have "i \<notin> set xs" using i(2) xs(2) by simp
  from put_new_list [OF xs(1) this] obtain l' where l': "odph_list_add (Entry i) (Bucket h) l1 = Some l'"
    "dlist l' (Bucket h) (map Entry (i # xs))" and
    frame: "\<And>a. a \<notin> insert (Entry i) (insert (Bucket h) (Entry ` ?S)) \<Longrightarrow> li_next l' a = li_next (ht_list tbl) a \<and> li_prev l' a = li_prev (ht_list tbl) a"
    unfolding l1_def xs(2) by blast
  have key: "node_key (?t\<lparr>ht_list := l'\<rparr>) j = (if j = i then key else node_key tbl j)" for j using k(1) by simp
  have S: "{j \<in> insert i U. odp_key_hash sg (node_key (?t\<lparr>ht_list := l'\<rparr>) j) (ht_key_size tbl) = h'} =
      (if h' = h then insert i ?S else {j \<in> U. odp_key_hash sg (node_key tbl j) (ht_key_size tbl) = h'})" for h'
    unfolding key using i(2) by (auto simp: h_def)
  have buckets: "\<exists>ys. dlist l' (Bucket h') (map Entry ys) \<and>
      set ys = {j \<in> insert i U. odp_key_hash sg (node_key (?t\<lparr>ht_list := l'\<rparr>) j) (ht_key_size tbl) = h'}" if "h' < 0x10000" for h'
  proof (cases "h' = h")
    case True
    then show ?thesis unfolding S using l'(2) xs(2) by (intro exI [of _ "i # xs"]) simp
  next
    case False
    have "\<exists>ys. dlist l' (Bucket h') (map Entry ys) \<and> set ys = {j \<in> U. odp_key_hash sg (node_key tbl j) (ht_key_size tbl) = h'}"
      by (rule buckets_frame [OF n that False frame]) (use i(2) in auto)
    then show ?thesis unfolding S using False by simp
  qed
  have "inj_on (node_key (?t\<lparr>ht_list := l'\<rparr>)) (insert i U)"
    using ht_nodesD(2) [OF n] k(2) i(2) unfolding inj_on_def key by auto
  moreover have "length (ht_content (?t\<lparr>ht_list := l'\<rparr>) j) = unat (ht_key_size tbl) + unat (ht_value_size tbl)" if "j \<in> insert i U" for j
    using that k(1) v ht_nodesD(3) [OF n, of j] by (cases "j = i") simp_all
  moreover have "li_next l' (Entry j) = None \<and> li_prev l' (Entry j) = None" if "j < unat (ht_hash_node_num tbl)" "j \<notin> insert i U" for j
    using frame [of "Entry j"] ht_nodesD(4) [OF n, of j] that by auto
  ultimately have "ht_nodes sg (?t\<lparr>ht_list := l'\<rparr>) (insert i U)"
    unfolding ht_nodes_def using buckets ht_nodesD(1) [OF n] i(1) by simp
  then show ?thesis using l'(1) by blast
qed

text \<open>The map has as many keys as there are nodes in use.\<close>

lemma ht_rep_card:
  assumes n: "ht_nodes sg tbl U" and m: "\<And>k v. m k = Some v \<longleftrightarrow> (\<exists>i\<in>U. node_key tbl i = k \<and> node_value tbl i = v)"
  shows "card (dom m) = card U" "finite U"
proof -
  have "dom m = node_key tbl ` U" using m by (auto simp: dom_def)
  then show "card (dom m) = card U" using ht_nodesD(2) [OF n] by (simp add: card_image)
  show "finite U" using ht_nodesD(1) [OF n] finite_subset by blast
qed

lemma set_value_nodes:
  assumes n: "ht_nodes sg tbl U" and i: "i \<in> U" and v: "length val = unat (ht_value_size tbl)"
  shows "ht_nodes sg (set_value i val tbl) U"
proof -
  have k: "node_key (set_value i val tbl) = node_key tbl" using node_key_length [OF n i] by auto
  have "length (ht_content (set_value i val tbl) j) = unat (ht_key_size tbl) + unat (ht_value_size tbl)" if "j \<in> U" for j
    using that v node_key_length [OF n i] ht_nodesD(3) [OF n that] by (cases "j = i") simp_all
  then show ?thesis using n unfolding ht_nodes_def k by simp
qed

text \<open>A key that is there gets the new value; for a new key a node is taken.\<close>

lemma put_existing:
  assumes U: "ht_nodes sg tbl U" and mm: "\<And>k v. m k = Some v \<longleftrightarrow> (\<exists>i\<in>U. node_key tbl i = k \<and> node_value tbl i = v)"
    and i: "i \<in> U" "node_key tbl i = key" and v: "length val = unat (ht_value_size tbl)"
  shows "ht_rep sg (set_value i val tbl) (m(key \<mapsto> val))" "key \<in> dom m"
proof -
  have "(m(key \<mapsto> val)) k = Some w \<longleftrightarrow> (\<exists>j\<in>U. node_key (set_value i val tbl) j = k \<and> node_value (set_value i val tbl) j = w)" for k w
    using i ht_nodesD(2) [OF U] mm [of k w] v node_key_length [OF U i(1)] by (auto simp: inj_on_def)
  then show "ht_rep sg (set_value i val tbl) (m(key \<mapsto> val))" using set_value_nodes [OF U i(1) v] by (auto simp: ht_rep_def)
  show "key \<in> dom m" using mm [of key] i by auto
qed

lemma put_new:
  assumes U: "ht_nodes sg tbl U" and mm: "\<And>k v. m k = Some v \<longleftrightarrow> (\<exists>i\<in>U. node_key tbl i = k \<and> node_value tbl i = v)"
    and nk: "\<forall>i\<in>U. node_key tbl i \<noteq> key" and t: "odp_hashnode_take tbl = Some (i, t1)"
    and k: "length key = unat (ht_key_size tbl)" and v: "length val = unat (ht_value_size tbl)"
  shows "\<exists>l'. odph_list_add (Entry i) (Bucket (odp_key_hash sg key (ht_key_size tbl))) (ht_list t1) = Some l' \<and>
    ht_rep sg (set_value i val (set_key i key t1)\<lparr>ht_list := l'\<rparr>) (m(key \<mapsto> val))" "card (dom m) < unat (ht_hash_node_num tbl)"
proof -
  note i = hashnode_take_Some [OF U t]
  obtain l' where l': "odph_list_add (Entry i) (Bucket (odp_key_hash sg key (ht_key_size tbl))) (ODPH_INIT_LIST_HEAD (Entry i) (ht_list tbl)) = Some l'"
    "ht_nodes sg (set_value i val (set_key i key tbl)\<lparr>ht_list := l'\<rparr>) (insert i U)"
    using put_new_nodes [OF U i(1,2) k nk v] by blast
  have eq: "set_value i val (set_key i key t1)\<lparr>ht_list := l'\<rparr> = set_value i val (set_key i key tbl)\<lparr>ht_list := l'\<rparr>"
    by (simp add: i(3) set_value_def set_key_def node_key_def)
  have "(m(key \<mapsto> val)) k' = Some w \<longleftrightarrow> (\<exists>j\<in>insert i U. node_key (set_value i val (set_key i key tbl)\<lparr>ht_list := l'\<rparr>) j = k' \<and>
      node_value (set_value i val (set_key i key tbl)\<lparr>ht_list := l'\<rparr>) j = w)" for k' w
    using i(2) nk mm [of k' w] v k by auto
  then have "ht_rep sg (set_value i val (set_key i key tbl)\<lparr>ht_list := l'\<rparr>) (m(key \<mapsto> val))" using l'(2) by (auto simp: ht_rep_def)
  then show "\<exists>l'. odph_list_add (Entry i) (Bucket (odp_key_hash sg key (ht_key_size tbl))) (ht_list t1) = Some l' \<and>
    ht_rep sg (set_value i val (set_key i key t1)\<lparr>ht_list := l'\<rparr>) (m(key \<mapsto> val))" using l'(1) eq by (simp add: i(3))
  show "card (dom m) < unat (ht_hash_node_num tbl)"
    using psubset_card_mono [of "{..<unat (ht_hash_node_num tbl)}" U] ht_nodesD(1) [OF U] i(1,2) ht_rep_card [OF U mm] by auto
qed

text \<open>Adding a key succeeds when the key is there or a node is free.\<close>

lemma hash_put_correct:
  assumes m: "ht_rep sg tbl m" and k: "length key = unat (ht_key_size tbl)" and v: "length val = unat (ht_value_size tbl)"
  shows "\<exists>tbl'. hash_put sg tbl key val =
      Some (if key \<in> dom m \<or> card (dom m) < unat (ht_hash_node_num tbl) then ODPH_SUCCESS else ODPH_FAIL, tbl') \<and>
    ht_rep sg tbl' (if key \<in> dom m \<or> card (dom m) < unat (ht_hash_node_num tbl) then m(key \<mapsto> val) else m) \<and>
    ht_key_size tbl' = ht_key_size tbl \<and> ht_value_size tbl' = ht_value_size tbl \<and> ht_hash_node_num tbl' = ht_hash_node_num tbl"
proof -
  obtain U where U: "ht_nodes sg tbl U" and mm: "\<And>k v. m k = Some v \<longleftrightarrow> (\<exists>i\<in>U. node_key tbl i = k \<and> node_value tbl i = v)"
    using m by (auto simp: ht_rep_def)
  obtain r where r: "bucket_find tbl key (odp_key_hash sg key (ht_key_size tbl))
      (li_next (ht_list tbl) (Bucket (odp_key_hash sg key (ht_key_size tbl)))) = Some r"
    "case r of None \<Rightarrow> \<forall>i\<in>U. node_key tbl i \<noteq> key | Some i \<Rightarrow> i \<in> U \<and> node_key tbl i = key"
    using bucket_find_correct [OF U k] by blast
  show ?thesis
  proof (cases r)
    case (Some i)
    then have "i \<in> U" "node_key tbl i = key" using r(2) by auto
    from put_existing [OF U mm this v] show ?thesis using Some r(1) by (simp add: hash_put_def Let_def)
  next
    case None
    then have nk: "\<forall>i\<in>U. node_key tbl i \<noteq> key" using r(2) by simp
    then have nd: "key \<notin> dom m" using mm by auto
    show ?thesis
    proof (cases "odp_hashnode_take tbl")
      case None
      then have "U = {..<unat (ht_hash_node_num tbl)}" by (rule hashnode_take_None [OF U])
      then have "\<not> card (dom m) < unat (ht_hash_node_num tbl)" using ht_rep_card [OF U mm] by simp
      then show ?thesis using None \<open>r = None\<close> r(1) nd m by (simp add: hash_put_def Let_def)
    next
      case (Some p)
      then obtain i t1 where p: "odp_hashnode_take tbl = Some (i, t1)" by (cases p) simp
      from put_new [OF U mm nk p k v] hashnode_take_Some(3) [OF U p]
      show ?thesis using None p r(1) by (auto simp: hash_put_def Let_def)
    qed
  qed
qed

text \<open>Removing a key.\<close>

lemma give_list:
  assumes d: "dlist l (Bucket h) (map Entry xs)" and i: "i \<in> set xs"
  shows "\<exists>l1 ys. odph_list_del (Entry i) l = Some l1 \<and> set ys = set xs - {i} \<and>
    dlist (l1\<lparr>li_next := (li_next l1)(Entry i := None), li_prev := (li_prev l1)(Entry i := None)\<rparr>) (Bucket h) (map Entry ys) \<and>
    (\<forall>a. a \<notin> insert (Bucket h) (Entry ` set xs) \<longrightarrow> li_next l1 a = li_next l a \<and> li_prev l1 a = li_prev l a)"
proof -
  obtain as bs where ab: "xs = as @ i # bs" using i by (meson split_list)
  have dd: "dlist l (Bucket h) (map Entry as @ Entry i # map Entry bs)" using d ab by simp
  have ni: "i \<notin> set as" "i \<notin> set bs" using dd by (auto simp: dlist_def)
  obtain l1 where l1: "odph_list_del (Entry i) l = Some l1" "dlist l1 (Bucket h) (map Entry (as @ bs))"
    "\<And>a. a \<notin> insert (Bucket h) (Entry ` set xs) \<Longrightarrow> li_next l1 a = li_next l a \<and> li_prev l1 a = li_prev l a"
    using dlist_del [OF dd] ab by auto
  let ?l2 = "l1\<lparr>li_next := (li_next l1)(Entry i := None), li_prev := (li_prev l1)(Entry i := None)\<rparr>"
  have "dlist ?l2 (Bucket h) (map Entry (as @ bs)) = dlist l1 (Bucket h) (map Entry (as @ bs))"
    by (rule dlist_cong) (use ni in auto)
  then have "dlist ?l2 (Bucket h) (map Entry (as @ bs))" using l1(2) by simp
  moreover have "set (as @ bs) = set xs - {i}" using ni ab by auto
  ultimately show ?thesis using l1(1,3) by blast
qed

lemma give_nodes:
  assumes n: "ht_nodes sg tbl U" and i: "i \<in> U"
  shows "\<exists>tbl'. odp_hashnode_give i tbl = Some tbl' \<and> ht_nodes sg tbl' (U - {i}) \<and> (\<forall>j. j \<noteq> i \<longrightarrow> ht_content tbl' j = ht_content tbl j) \<and>
    ht_key_size tbl' = ht_key_size tbl \<and> ht_value_size tbl' = ht_value_size tbl \<and> ht_hash_node_num tbl' = ht_hash_node_num tbl"
proof -
  define h where "h = odp_key_hash sg (node_key tbl i) (ht_key_size tbl)"
  let ?S = "\<lambda>h'. {j \<in> U. odp_key_hash sg (node_key tbl j) (ht_key_size tbl) = h'}"
  obtain xs where xs: "dlist (ht_list tbl) (Bucket h) (map Entry xs)" "set xs = ?S h"
    using ht_nodesD(5) [OF n key_hash_less] unfolding h_def by blast
  have "i \<in> set xs" using xs(2) i by (simp add: h_def)
  then obtain l1 ys where l1: "odph_list_del (Entry i) (ht_list tbl) = Some l1" "set ys = ?S h - {i}"
    "dlist (l1\<lparr>li_next := (li_next l1)(Entry i := None), li_prev := (li_prev l1)(Entry i := None)\<rparr>) (Bucket h) (map Entry ys)"
    "\<And>a. a \<notin> insert (Bucket h) (Entry ` ?S h) \<Longrightarrow> li_next l1 a = li_next (ht_list tbl) a \<and> li_prev l1 a = li_prev (ht_list tbl) a"
    using give_list [OF xs(1)] unfolding xs(2) by blast
  define l2 where "l2 = l1\<lparr>li_next := (li_next l1)(Entry i := None), li_prev := (li_prev l1)(Entry i := None)\<rparr>"
  define tbl' where "tbl' = tbl\<lparr>ht_list := l2, ht_content := (ht_content tbl)(i := replicate (unat (ht_key_size tbl + ht_value_size tbl)) 0)\<rparr>"
  have give: "odp_hashnode_give i tbl = Some tbl'" by (simp add: odp_hashnode_give_def l1(1) tbl'_def l2_def)
  have T: "ht_list tbl' = l2" "ht_key_size tbl' = ht_key_size tbl" "ht_value_size tbl' = ht_value_size tbl"
    "ht_hash_node_num tbl' = ht_hash_node_num tbl" "\<And>j. j \<noteq> i \<Longrightarrow> ht_content tbl' j = ht_content tbl j" by (simp_all add: tbl'_def)
  have key: "node_key tbl' j = node_key tbl j" if "j \<noteq> i" for j using that by (simp add: node_key_def tbl'_def)
  have frame: "li_next l2 a = li_next (ht_list tbl) a \<and> li_prev l2 a = li_prev (ht_list tbl) a"
    if "a \<notin> insert (Entry i) (insert (Bucket h) (Entry ` ?S h))" for a
    using l1(4) [of a] that unfolding l2_def by auto
  have S: "{j \<in> U - {i}. odp_key_hash sg (node_key tbl' j) (ht_key_size tbl) = h'} = ?S h' - {i}" for h'
    using key by auto
  have buckets: "\<exists>ys. dlist l2 (Bucket h') (map Entry ys) \<and> set ys = ?S h' - {i}" if "h' < 0x10000" for h'
  proof (cases "h' = h")
    case True
    then show ?thesis using l1(2,3) unfolding l2_def by blast
  next
    case False
    have "\<exists>ys. dlist l2 (Bucket h') (map Entry ys) \<and> set ys = ?S h'"
      by (rule buckets_frame [OF n that False frame]) (use False in \<open>auto simp: h_def\<close>)
    moreover have "?S h' - {i} = ?S h'" using False by (auto simp: h_def)
    ultimately show ?thesis by simp
  qed
  have "inj_on (node_key tbl') (U - {i})" using ht_nodesD(2) [OF n] key by (auto simp: inj_on_def)
  moreover have "li_next l2 (Entry j) = None \<and> li_prev l2 (Entry j) = None" if "j < unat (ht_hash_node_num tbl)" "j \<notin> U - {i}" for j
    using frame [of "Entry j"] ht_nodesD(4) [OF n, of j] that by (cases "j = i") (auto simp: l2_def)
  ultimately have "ht_nodes sg tbl' (U - {i})"
    unfolding ht_nodes_def T S using buckets ht_nodesD(1,3) [OF n] T(5) by auto
  then show ?thesis using give T by blast
qed

lemma hash_remove_correct:
  assumes m: "ht_rep sg tbl m" and k: "length key = unat (ht_key_size tbl)"
  shows "\<exists>tbl'. hash_remove sg tbl key = Some (ODPH_SUCCESS, tbl') \<and> ht_rep sg tbl' (m(key := None)) \<and>
    ht_key_size tbl' = ht_key_size tbl \<and> ht_value_size tbl' = ht_value_size tbl \<and> ht_hash_node_num tbl' = ht_hash_node_num tbl"
proof -
  obtain U where U: "ht_nodes sg tbl U" and mm: "\<And>k v. m k = Some v \<longleftrightarrow> (\<exists>i\<in>U. node_key tbl i = k \<and> node_value tbl i = v)"
    using m by (auto simp: ht_rep_def)
  obtain r where r: "bucket_find tbl key (odp_key_hash sg key (ht_key_size tbl))
      (li_next (ht_list tbl) (Bucket (odp_key_hash sg key (ht_key_size tbl)))) = Some r"
    "case r of None \<Rightarrow> \<forall>i\<in>U. node_key tbl i \<noteq> key | Some i \<Rightarrow> i \<in> U \<and> node_key tbl i = key"
    using bucket_find_correct [OF U k] by blast
  show ?thesis
  proof (cases r)
    case None
    then have "m key = None" using r(2) mm by (cases "m key") auto
    then have "m(key := None) = m" by auto
    then show ?thesis using None r(1) m by (simp add: hash_remove_def Let_def)
  next
    case (Some i)
    then have i: "i \<in> U" "node_key tbl i = key" using r(2) by auto
    obtain tbl' where t: "odp_hashnode_give i tbl = Some tbl'" "ht_nodes sg tbl' (U - {i})" "\<And>j. j \<noteq> i \<Longrightarrow> ht_content tbl' j = ht_content tbl j"
      "ht_key_size tbl' = ht_key_size tbl" "ht_value_size tbl' = ht_value_size tbl" "ht_hash_node_num tbl' = ht_hash_node_num tbl"
      using give_nodes [OF U i(1)] by blast
    have kv: "node_key tbl' j = node_key tbl j \<and> node_value tbl' j = node_value tbl j" if "j \<noteq> i" for j
      using t(3) [OF that] by (simp add: node_key_def node_value_def t(4,5))
    have "(m(key := None)) k = Some w \<longleftrightarrow> (\<exists>j\<in>U - {i}. node_key tbl' j = k \<and> node_value tbl' j = w)" for k w
      using kv mm [of k w] i ht_nodesD(2) [OF U] by (auto simp: inj_on_def)
    then have "ht_rep sg tbl' (m(key := None))" using t(2) by (auto simp: ht_rep_def)
    then show ?thesis using Some r(1) t by (simp add: hash_remove_def Let_def)
  qed
qed

section \<open>A table with a bounded number of keys\<close>

datatype ('k, 'v) table_call = CPut 'k 'v | CGet 'k | CRemove 'k

fun run_calls ::
  "('t \<Rightarrow> 'k \<Rightarrow> 'v \<Rightarrow> (int \<times> 't) option) \<Rightarrow> ('t \<Rightarrow> 'k \<Rightarrow> (int \<times> 'v option) option) \<Rightarrow> ('t \<Rightarrow> 'k \<Rightarrow> (int \<times> 't) option) \<Rightarrow>
   ('k, 'v) table_call list \<Rightarrow> 't \<Rightarrow> ((int \<times> 'v option) list \<times> 't) option" where
  "run_calls put get del [] t = Some ([], t)"
| "run_calls put get del (CPut k v # cs) t =
     do { (r, t) \<leftarrow> put t k v; (rs, t) \<leftarrow> run_calls put get del cs t; Some ((r, None) # rs, t) }"
| "run_calls put get del (CGet k # cs) t = do { r \<leftarrow> get t k; (rs, t) \<leftarrow> run_calls put get del cs t; Some (r # rs, t) }"
| "run_calls put get del (CRemove k # cs) t =
     do { (r, t) \<leftarrow> del t k; (rs, t) \<leftarrow> run_calls put get del cs t; Some ((r, None) # rs, t) }"

text \<open>The specification: a finite map with at most \<open>cap\<close> keys.\<close>

fun map_calls :: "nat \<Rightarrow> ('k, 'v) table_call list \<Rightarrow> ('k \<rightharpoonup> 'v) \<Rightarrow> (int \<times> 'v option) list" where
  "map_calls cap [] m = []"
| "map_calls cap (CPut k v # cs) m =
     (if k \<in> dom m \<or> card (dom m) < cap then (0, None) # map_calls cap cs (m(k \<mapsto> v)) else (- 1, None) # map_calls cap cs m)"
| "map_calls cap (CGet k # cs) m = (case m k of None \<Rightarrow> (- 1, None) | Some v \<Rightarrow> (0, Some v)) # map_calls cap cs m"
| "map_calls cap (CRemove k # cs) m = (0, None) # map_calls cap cs (m(k := None))"

fun call_ok :: "('k \<Rightarrow> bool) \<Rightarrow> ('v \<Rightarrow> bool) \<Rightarrow> ('k, 'v) table_call \<Rightarrow> bool" where
  "call_ok key_ok val_ok (CPut k v) = (key_ok k \<and> val_ok v)"
| "call_ok key_ok val_ok (CGet k) = key_ok k"
| "call_ok key_ok val_ok (CRemove k) = key_ok k"

locale bounded_map =
  fixes rep :: "'t \<Rightarrow> ('k \<rightharpoonup> 'v) \<Rightarrow> bool"
    and put :: "'t \<Rightarrow> 'k \<Rightarrow> 'v \<Rightarrow> (int \<times> 't) option"
    and get :: "'t \<Rightarrow> 'k \<Rightarrow> (int \<times> 'v option) option"
    and del :: "'t \<Rightarrow> 'k \<Rightarrow> (int \<times> 't) option"
    and key_ok :: "'k \<Rightarrow> bool" and val_ok :: "'v \<Rightarrow> bool" and cap :: nat
  assumes put_law: "rep t m \<Longrightarrow> key_ok k \<Longrightarrow> val_ok v \<Longrightarrow>
      \<exists>t'. put t k v = Some (if k \<in> dom m \<or> card (dom m) < cap then 0 else - 1, t') \<and>
        rep t' (if k \<in> dom m \<or> card (dom m) < cap then m(k \<mapsto> v) else m)"
    and get_law: "rep t m \<Longrightarrow> key_ok k \<Longrightarrow> get t k = Some (case m k of None \<Rightarrow> (- 1, None) | Some v \<Rightarrow> (0, Some v))"
    and del_law: "rep t m \<Longrightarrow> key_ok k \<Longrightarrow> \<exists>t'. del t k = Some (0, t') \<and> rep t' (m(k := None))"
begin

lemma calls_refine_map:
  "rep t m \<Longrightarrow> list_all (call_ok key_ok val_ok) cs \<Longrightarrow> \<exists>t'. run_calls put get del cs t = Some (map_calls cap cs m, t')"
proof (induction cs arbitrary: t m)
  case (Cons c cs)
  have ok: "list_all (call_ok key_ok val_ok) cs" using Cons.prems(2) by simp
  show ?case
  proof (cases c)
    case (CPut k v)
    then obtain t1 where "put t k v = Some (if k \<in> dom m \<or> card (dom m) < cap then 0 else - 1, t1)"
      "rep t1 (if k \<in> dom m \<or> card (dom m) < cap then m(k \<mapsto> v) else m)"
      using put_law [OF Cons.prems(1), of k v] Cons.prems(2) by auto
    with Cons.IH [OF this(2) ok] CPut show ?thesis by (auto split: if_splits)
  next
    case (CGet k)
    then show ?thesis using get_law [OF Cons.prems(1), of k] Cons.prems(2) Cons.IH [OF Cons.prems(1) ok] by auto
  next
    case (CRemove k)
    then obtain t1 where d: "del t k = Some (0, t1)" "rep t1 (m(k := None))"
      using del_law [OF Cons.prems(1), of k] Cons.prems(2) by auto
    obtain t2 where "run_calls put get del cs t1 = Some (map_calls cap cs (m(k := None)), t2)"
      using Cons.IH [OF d(2) ok] by blast
    then show ?thesis using CRemove d(1) by simp
  qed
qed simp

end

text \<open>The hash table at the address \<open>a\<close>, with keys of \<open>ks\<close> bytes, values of \<open>vs\<close> bytes and
  \<open>N\<close> nodes, read into buffers of \<open>bs\<close> bytes.\<close>

definition table_rep :: "bool \<Rightarrow> u32 \<Rightarrow> u32 \<Rightarrow> u32 \<Rightarrow> u32 \<Rightarrow> u32 \<Rightarrow> table_state \<Rightarrow> (u8 list \<rightharpoonup> u8 list) \<Rightarrow> bool" where
  "table_rep sg a ks vs N bs ts m \<longleftrightarrow> a \<noteq> 0 \<and> vs \<le> bs \<and> ht_key_size (tbs_hash ts a) = ks \<and> ht_value_size (tbs_hash ts a) = vs \<and>
     ht_hash_node_num (tbs_hash ts a) = N \<and> ht_rep sg (tbs_hash ts a) m"

definition hash_calls :: "bool \<Rightarrow> u32 \<Rightarrow> u32 \<Rightarrow> (u8 list, u8 list) table_call list \<Rightarrow> table_state \<Rightarrow> ((int \<times> u8 list option) list \<times> table_state) option" where
  "hash_calls sg a bs = run_calls (\<lambda>ts k v. odph_hash_put_value sg a (Some k) (Some v) ts)
     (\<lambda>ts k. odph_hash_get_value sg a (Some k) False bs ts) (\<lambda>ts k. odph_hash_remove_value sg a (Some k) ts)"

interpretation ht: bounded_map "table_rep sg a ks vs N bs" "\<lambda>ts k v. odph_hash_put_value sg a (Some k) (Some v) ts"
  "\<lambda>ts k. odph_hash_get_value sg a (Some k) False bs ts" "\<lambda>ts k. odph_hash_remove_value sg a (Some k) ts"
  "\<lambda>k. length k = unat ks" "\<lambda>v. length v = unat vs" "unat N" for sg a ks vs N bs
proof unfold_locales
  fix t m and k v :: "u8 list"
  assume r: "table_rep sg a ks vs N bs t m" and k: "length k = unat ks"
  let ?P = "k \<in> dom m \<or> card (dom m) < unat N"
  show "\<exists>t'. odph_hash_put_value sg a (Some k) (Some v) t = Some (if ?P then 0 else - 1, t') \<and>
      table_rep sg a ks vs N bs t' (if ?P then m(k \<mapsto> v) else m)" if v: "length v = unat vs"
  proof -
    obtain tbl' where "hash_put sg (tbs_hash t a) k v = Some (if ?P then ODPH_SUCCESS else ODPH_FAIL, tbl')"
      "ht_rep sg tbl' (if ?P then m(k \<mapsto> v) else m)" "ht_key_size tbl' = ks" "ht_value_size tbl' = vs" "ht_hash_node_num tbl' = N"
      using hash_put_correct [of sg "tbs_hash t a" m k v] r k v by (auto simp: table_rep_def)
    then show ?thesis using r by (simp add: table_rep_def odph_hash_put_value_def ODPH_SUCCESS_def ODPH_FAIL_def)
  qed
  show "odph_hash_get_value sg a (Some k) False bs t = Some (case m k of None \<Rightarrow> (- 1, None) | Some v \<Rightarrow> (0, Some v))"
    using hash_get_correct [of sg "tbs_hash t a" m k] r k
    by (auto simp: table_rep_def odph_hash_get_value_def ODPH_SUCCESS_def ODPH_FAIL_def not_less [symmetric] split: option.splits)
  show "\<exists>t'. odph_hash_remove_value sg a (Some k) t = Some (0, t') \<and> table_rep sg a ks vs N bs t' (m(k := None))"
    using hash_remove_correct [of sg "tbs_hash t a" m k] r k
    by (auto simp: table_rep_def odph_hash_remove_value_def ODPH_SUCCESS_def)
qed

text \<open>A new table.\<close>

lemma hash_table_create_Some:
  assumes c: "odph_hash_table_create malloc s_tbl s_lock s_head s_node name capacity ks vs ts = Some (a, ts1)" and a: "a \<noteq> 0"
  shows "ht_key_size (tbs_hash ts1 a) = ks" "ht_value_size (tbs_hash ts1 a) = vs" "ht_rep sg (tbs_hash ts1 a) Map.empty"
    "ht_hash_node_num (tbs_hash ts1 a) = (push_bit 20 capacity - s_tbl - of_nat ODPH_MAX_BUCKET_NUM * s_head - of_nat ODPH_MAX_BUCKET_NUM * s_lock)
       div (s_node + ks + vs)"
    "capacity \<noteq> 0" "capacity < 0x1000" "s_node + ks + vs \<noteq> 0"
proof -
  let ?heads = "\<lambda>b. case b of Bucket h \<Rightarrow> if h < ODPH_MAX_BUCKET_NUM then Some b else None | Entry _ \<Rightarrow> None"
  have C: "capacity \<noteq> 0 \<and> capacity < 0x1000 \<and> s_node + ks + vs \<noteq> 0 \<and> tbs_hash ts1 a =
      \<lparr>ht_magicword = ODPH_HASH_TABLE_MAGIC_WORD, ht_key_size = ks, ht_value_size = vs, ht_init_cap = push_bit 20 capacity,
       ht_hash_node_num = (push_bit 20 capacity - s_tbl - of_nat ODPH_MAX_BUCKET_NUM * s_head - of_nat ODPH_MAX_BUCKET_NUM * s_lock)
         div (s_node + ks + vs),
       ht_name = take (ODPH_TABLE_NAME_LEN - 1) name, ht_list = \<lparr>li_next = ?heads, li_prev = ?heads\<rparr>,
       ht_content = \<lambda>_. replicate (unat (ks + vs)) 0\<rparr>"
    using c a by (auto simp: odph_hash_table_create_def Let_def not_less not_le bind_eq_Some_conv split: if_splits)
  then show "ht_key_size (tbs_hash ts1 a) = ks" "ht_value_size (tbs_hash ts1 a) = vs" "capacity \<noteq> 0" "capacity < 0x1000" "s_node + ks + vs \<noteq> 0"
    "ht_hash_node_num (tbs_hash ts1 a) = (push_bit 20 capacity - s_tbl - of_nat ODPH_MAX_BUCKET_NUM * s_head - of_nat ODPH_MAX_BUCKET_NUM * s_lock)
       div (s_node + ks + vs)" by simp_all
  have "ht_nodes sg (tbs_hash ts1 a) {}"
    using C by (auto simp: ht_nodes_def dlist_nil ODPH_MAX_BUCKET_NUM_def intro!: exI [of _ "[] :: nat list"])
  then show "ht_rep sg (tbs_hash ts1 a) Map.empty" by (auto simp: ht_rep_def)
qed

text \<open>Where the control structures fit in the block, so does the pool of nodes.\<close>

lemma hash_table_pool_in_block:
  assumes c: "odph_hash_table_create malloc s_tbl s_lock s_head s_node name capacity ks vs ts = Some (a, ts1)" and a: "a \<noteq> 0"
    and fit: "unat s_tbl + 0x10000 * unat s_head + 0x10000 * unat s_lock \<le> unat capacity * 0x100000"
    and node: "unat s_node + unat ks + unat vs < 2 ^ 32"
  shows "unat s_tbl + 0x10000 * unat s_head + 0x10000 * unat s_lock +
    unat (ht_hash_node_num (tbs_hash ts1 a)) * (unat s_node + unat ks + unat vs) \<le> unat capacity * 0x100000"
proof -
  note C = hash_table_create_Some [OF c a]
  let ?x = "push_bit 20 capacity - s_tbl - of_nat ODPH_MAX_BUCKET_NUM * s_head - of_nat ODPH_MAX_BUCKET_NUM * s_lock"
  let ?k = "unat s_tbl + 0x10000 * unat s_head + 0x10000 * unat s_lock"
  have sz: "unat (s_node + ks + vs) = unat s_node + unat ks + unat vs" using node by (simp add: unat_word_ariths)
  have cap: "unat capacity * 0x100000 < 2 ^ 32" using C(6) by (simp add: word_less_nat_alt)
  have "?x = of_nat (unat capacity * 0x100000 - ?k)"
    using fit by (simp add: of_nat_diff push_bit_eq_mult ODPH_MAX_BUCKET_NUM_def algebra_simps)
  then have x: "unat ?x = unat capacity * 0x100000 - ?k" using cap by (simp add: unat_of_nat)
  have "unat (ht_hash_node_num (tbs_hash ts1 a)) * (unat s_node + unat ks + unat vs) \<le> unat ?x"
    unfolding C(4) sz [symmetric] by (simp add: unat_div)
  then show ?thesis using x fit by linarith
qed

lemma linear_table_create_Some:
  assumes c: "odph_linear_table_create malloc s_lock name capacity vs ts = Some (a, ts1)" and a: "a \<noteq> 0"
  shows "lt_node_sum (tbs_linear ts1 a) = (if capacity < 20 then 1 else 0) div (vs + s_lock)"
  using c a by (auto simp: odph_linear_table_create_def Let_def bind_eq_Some_conv split: if_splits)

lemmas table_eval = odph_hash_table_create_def odph_linear_table_create_def ODPH_TABLE_NAME_LEN_def ODPH_MAX_BUCKET_NUM_def
  odp_shm_lookup_def odp_shm_addr_def odp_shm_reserve_def find_block_def shm_from_handle_def shm_to_handle_def
  shm_zero_block_def ODP_SHM_INVALID_def ODP_SHM_PROC_def ODP_SHM_UNCACHED_def ODP_SHM_NAME_LEN_def ODP_CONFIG_SHM_BLOCKS_def
  ODP_ALIGN_ROUNDUP_def Let_def

lemma shm_first_none: "(\<And>b. b \<in> set tbl \<Longrightarrow> \<not> P b) \<Longrightarrow> shm_first P tbl = length tbl"
  by (induction tbl) auto

definition no_tables :: table_state where
  "no_tables = \<lparr>tbs_shm = replicate 60 shm_zero_block,
     tbs_hash = \<lambda>_. \<lparr>ht_magicword = 0, ht_key_size = 0, ht_value_size = 0, ht_init_cap = 0, ht_hash_node_num = 0, ht_name = [],
       ht_list = \<lparr>li_next = \<lambda>_. None, li_prev = \<lambda>_. None\<rparr>, ht_content = \<lambda>_. []\<rparr>,
     tbs_linear = \<lambda>_. \<lparr>lt_magicword = 0, lt_init_cap = 0, lt_node_sum = 0, lt_value_size = 0, lt_name = [], lt_value_array = []\<rparr>\<rparr>"

lemma table_create_empty_shm:
  "odp_shm_addr (tbs_shm no_tables) (odp_shm_lookup (tbs_shm no_tables) ''tbl'') = 0"
    "odp_shm_reserve (\<lambda>n. 4096) (tbs_shm no_tables) ''tbl'' (ucast (push_bit 20 2 :: u32)) 64 1 =
       Some (1, (tbs_shm no_tables)[0 := shm_new_block 4096 0 ''tbl'' 0x200000 64 1])"
    "odp_shm_addr ((tbs_shm no_tables)[0 := shm_new_block 4096 0 ''tbl'' 0x200000 64 1]) 1 = 4096"
proof -
  have "shm_first (\<lambda>b. sb_name b = ''tbl'') (tbs_shm no_tables) = length (tbs_shm no_tables)"
    by (rule shm_first_none) (simp add: no_tables_def shm_zero_block_def)
  moreover have "shm_first (\<lambda>b. sb_addr b = 0) (tbs_shm no_tables) = 0" by (rule shm_first_eq) (simp_all add: no_tables_def shm_zero_block_def)
  ultimately have f: "shm_first (\<lambda>b. sb_name b = ''tbl'') (tbs_shm no_tables) = 60" "shm_first (\<lambda>b. sb_addr b = 0) (tbs_shm no_tables) = 0" "length (tbs_shm no_tables) = 60"
    "tbs_shm no_tables ! 0 = shm_zero_block"
    by (simp_all add: no_tables_def)
  show "odp_shm_addr (tbs_shm no_tables) (odp_shm_lookup (tbs_shm no_tables) ''tbl'') = 0" by (simp add: table_eval f unsigned_minus_1_eq_mask mask_eq_exp_minus_1)
  show "odp_shm_reserve (\<lambda>n. 4096) (tbs_shm no_tables) ''tbl'' (ucast (push_bit 20 2 :: u32)) 64 1 =
       Some (1, (tbs_shm no_tables)[0 := shm_new_block 4096 0 ''tbl'' 0x200000 64 1])"
    by (simp add: table_eval f shm_new_block_def)
  show "odp_shm_addr ((tbs_shm no_tables)[0 := shm_new_block 4096 0 ''tbl'' 0x200000 64 1]) 1 = 4096"
    by (simp add: table_eval f shm_new_block_def)
qed

lemma hash_table_create_no_tables:
  "\<exists>ts1. odph_hash_table_create (\<lambda>n. 4096) 72 8 8 8 ''tbl'' 2 2 1 no_tables = Some (4096, ts1)"
  unfolding odph_hash_table_create_def table_create_empty_shm
  by (simp add: ODPH_TABLE_NAME_LEN_def ODP_SHM_INVALID_def table_create_empty_shm Let_def)

section \<open>Properties\<close>

text \<open>C7. The hash table is a finite map, for a table whose control structures (the table, its locks and its list heads) fit in
  the block of \<open>capacity\<close> megabytes, as they do from 2 megabytes on: the pool of nodes then lies in the block, and on a table just
  created every sequence of puts, gets and removes of keys and values of the right sizes returns, and each call gives what it gives on
  a map. A put fails exactly when the key is new and every node of the pool is in use; a get fails exactly when the key is absent.
  The calls are made one after another.\<close>

theorem hash_table_refines_map:
  assumes "odph_hash_table_create malloc s_tbl s_lock s_head s_node name capacity ks vs ts = Some (a, ts1)" "a \<noteq> 0" "vs \<le> bs"
    and "unat s_tbl + 0x10000 * unat s_head + 0x10000 * unat s_lock \<le> unat capacity * 0x100000" "unat s_node + unat ks + unat vs < 2 ^ 32"
    and "list_all (call_ok (\<lambda>k. length k = unat ks) (\<lambda>v. length v = unat vs)) cs"
  shows "unat s_tbl + 0x10000 * unat s_head + 0x10000 * unat s_lock +
      unat (ht_hash_node_num (tbs_hash ts1 a)) * (unat s_node + unat ks + unat vs) \<le> unat capacity * 0x100000 \<and>
    (\<exists>ts2. hash_calls sg a bs cs ts1 = Some (map_calls (unat (ht_hash_node_num (tbs_hash ts1 a))) cs Map.empty, ts2))"
proof
  note C = hash_table_create_Some [OF assms(1,2)]
  have "table_rep sg a ks vs (ht_hash_node_num (tbs_hash ts1 a)) bs ts1 Map.empty"
    using C(1,2) C(3) [of sg] assms(2,3) by (simp add: table_rep_def)
  from ht.calls_refine_map [OF this assms(6)]
  show "\<exists>ts2. hash_calls sg a bs cs ts1 = Some (map_calls (unat (ht_hash_node_num (tbs_hash ts1 a))) cs Map.empty, ts2)" unfolding hash_calls_def .
qed (rule hash_table_pool_in_block [OF assms(1,2,4,5)])

theorem hash_table_refines_map_witness:
  "\<exists>ts1 ts2. odph_hash_table_create (\<lambda>n. 4096) 72 8 8 8 ''tbl'' 2 2 1 no_tables = Some (4096, ts1) \<and>
     hash_calls True 4096 4 [CPut [1, 2] [9], CPut [1, 3] [8], CGet [1, 2], CRemove [1, 2], CGet [1, 2], CGet [1, 3]] ts1 =
       Some ([(0, None), (0, None), (0, Some [9]), (0, None), (- 1, None), (0, Some [8])], ts2)"
proof -
  obtain ts1 where c: "odph_hash_table_create (\<lambda>n. 4096) 72 8 8 8 ''tbl'' 2 2 1 no_tables = Some (4096, ts1)"
    using hash_table_create_no_tables by blast
  have "unat (ht_hash_node_num (tbs_hash ts1 4096)) = 95318"
    using hash_table_create_Some(4) [OF c] by (simp add: ODPH_MAX_BUCKET_NUM_def)
  then show ?thesis using c hash_table_refines_map [OF c, of 4
      "[CPut [1, 2] [9], CPut [1, 3] [8], CGet [1, 2], CRemove [1, 2], CGet [1, 2], CGet [1, 3]]" True] by simp
qed

text \<open>The node pool of a hash table on the device, where a lock and a list head have 8 bytes each: it lies in the block of
  \<open>capacity\<close> megabytes whenever that is at least 2. With a capacity of 1 the size of the pool wraps around: the
  table believes it has almost 4 gigabytes of nodes after a block of 1 megabyte.\<close>

lemma hash_table_pool_fits:
  assumes "odph_hash_table_create malloc s_tbl 8 8 s_node name capacity ks vs ts = Some (a, ts1)" "a \<noteq> 0"
    and "0 < s_tbl" "s_tbl \<le> 0x100000" "unat s_node + unat ks + unat vs < 2 ^ 32"
  shows "if capacity = 1
    then unat (ht_hash_node_num (tbs_hash ts1 a)) = (2 ^ 32 - unat s_tbl) div (unat s_node + unat ks + unat vs)
    else unat s_tbl + 0x10000 * 8 + 0x10000 * 8 + unat (ht_hash_node_num (tbs_hash ts1 a)) * (unat s_node + unat ks + unat vs)
           \<le> unat capacity * 0x100000"
proof -
  note C = hash_table_create_Some [OF assms(1,2)]
  have sz: "unat (s_node + ks + vs) = unat s_node + unat ks + unat vs"
    using assms(5) by (simp add: unat_word_ariths)
  have c: "capacity \<noteq> 0" "unat capacity < 0x1000" using C(5,6) by (simp_all add: word_less_nat_alt)
  define x where "x = push_bit 20 capacity - s_tbl - of_nat ODPH_MAX_BUCKET_NUM * 8 - of_nat ODPH_MAX_BUCKET_NUM * 8"
  have x: "x = push_bit 20 capacity - (s_tbl + 0x100000)" by (simp add: x_def ODPH_MAX_BUCKET_NUM_def)
  have s: "0 < unat s_tbl" "unat s_tbl \<le> 0x100000" using assms(3,4) by (simp_all add: word_less_nat_alt word_le_nat_alt)
  have num: "unat (ht_hash_node_num (tbs_hash ts1 a)) = unat x div (unat s_node + unat ks + unat vs)"
    unfolding C(4) x_def [symmetric] sz [symmetric] by (rule unat_div)
  show ?thesis
  proof (cases "capacity = 1")
    case True
    then have "x = - s_tbl" by (simp add: x)
    then have "unat x = 2 ^ 32 - unat s_tbl" using s unat_sub_if' [of 0 s_tbl] by simp
    then show ?thesis using num True by simp
  next
    case False
    have "unat capacity \<noteq> 0" "unat capacity \<noteq> 1" using c(1) False word_unat_eq_iff [of capacity 1] by (simp_all add: unat_eq_zero)
    then have c2: "2 \<le> unat capacity" by linarith
    have st: "unat (s_tbl + 0x100000) = unat s_tbl + 0x100000" using s by (simp add: unat_word_ariths)
    have cap: "unat (push_bit 20 capacity) = unat capacity * 0x100000"
      using c(2) by (simp add: push_bit_eq_mult unat_word_ariths)
    then have "unat x = unat capacity * 0x100000 - (unat s_tbl + 0x100000)"
      unfolding x using c2 s st by (subst unat_sub) (simp_all add: word_le_nat_alt)
    then have "unat s_tbl + 0x100000 + unat x = unat capacity * 0x100000" using c2 s by simp
    moreover have "unat (ht_hash_node_num (tbs_hash ts1 a)) * (unat s_node + unat ks + unat vs) \<le> unat x"
      unfolding num by (rule div_times_less_eq_dividend)
    ultimately have "unat s_tbl + 0x100000 + unat (ht_hash_node_num (tbs_hash ts1 a)) * (unat s_node + unat ks + unat vs)
        \<le> unat capacity * 0x100000" by linarith
    then show ?thesis using False by simp
  qed
qed

text \<open>A linear table has no room: \<open>odph_linear_table_create\<close> compares the capacity with 20 instead of shifting
  it, so that the table it returns has no element, and every put and every get on it fails.\<close>

lemma linear_table_always_empty:
  assumes "odph_linear_table_create malloc s_lock name capacity vs ts = Some (a, ts1)" "a \<noteq> 0"
    and "0 < s_lock" "unat vs + unat s_lock < 2 ^ 32"
  shows "odph_lineartable_put_value s_lock a key val ts1 = (ODPH_FAIL, ts1) \<and>
    odph_lineartable_get_value a key buffer_null buffer_size ts1 = (ODPH_FAIL, None)"
proof -
  have "unat (vs + s_lock) = unat vs + unat s_lock" using assms(4) by (simp add: unat_word_ariths)
  moreover have "vs \<noteq> 0" using assms(1,2) by (auto simp: odph_linear_table_create_def)
  moreover have "0 < unat s_lock" "0 < unat vs" using assms(3) \<open>vs \<noteq> 0\<close> by (simp_all add: word_less_nat_alt unat_gt_0)
  ultimately have "1 < unat (vs + s_lock)" by linarith
  then have "unat (1 div (vs + s_lock)) = 0" unfolding unat_div by simp
  then have "1 div (vs + s_lock) = 0" by (simp only: unat_eq_zero)
  then have "lt_node_sum (tbs_linear ts1 a) = 0"
    using linear_table_create_Some [OF assms(1,2)] by (simp add: unat_eq_zero)
  then show ?thesis by (simp add: odph_lineartable_put_value_def odph_lineartable_get_value_def Let_def)
qed

end
