(* ===== verification/Odp_Ring.thy ===== *)
theory Odp_Ring
  imports Odp_Shm "HOL-Library.Monad_Syntax"
begin

unbundle bit_operations_syntax

text \<open>
  The ring of pointers of the helper library (\<open>helper/ring.c\<close>). Its four indices run freely over all 32-bit
  values and are masked where the ring is read or written. The calls of one thread at a time are functions; the calls that many
  threads make at once are a relation whose steps are the single accesses to the shared ring.
\<close>

section \<open>Definitions: the ring\<close>

datatype odph_ring_queue_behavior = ODPH_RING_QUEUE_FIXED | ODPH_RING_QUEUE_VARIABLE

text \<open>A call returns a number or a negative error code.\<close>

datatype ring_errno = ENOBUFS | EDQUOT | ENOENT | EINVAL

datatype ring_ret = Ring_err ring_errno | Ring_ret int

record odph_ring_t =
  rg_name :: string
  rg_flags :: u32
  rp_watermark :: u32
  rp_sp_enqueue :: bool
  rp_size :: u32
  rp_mask :: u32
  rp_head :: u32
  rp_tail :: u32
  rc_sc_dequeue :: bool
  rc_size :: u32
  rc_mask :: u32
  rc_head :: u32
  rc_tail :: u32
  rg_ring :: "u32 list"

text \<open>The rings of the program: the memory they are in and the list of their addresses.\<close>

record ring_state =
  rgs_shm :: odp_shm_table_t
  rgs_ring :: "u32 \<Rightarrow> odph_ring_t"
  rgs_list :: "u32 list"

definition ODPH_RING_NAMESIZE :: nat where "ODPH_RING_NAMESIZE = 32"
definition ODPH_RING_F_SP_ENQ :: u32 where "ODPH_RING_F_SP_ENQ = 1"
definition ODPH_RING_F_SC_DEQ :: u32 where "ODPH_RING_F_SC_DEQ = 2"
definition ODPH_RING_QUOT_EXCEED :: u32 where "ODPH_RING_QUOT_EXCEED = 0x80000000"
definition ODPH_RING_SZ_MASK :: u32 where "ODPH_RING_SZ_MASK = 0x0fffffff"

definition RING_VAL_IS_POWER_2 :: "u32 \<Rightarrow> bool" where
  "RING_VAL_IS_POWER_2 x \<longleftrightarrow> (x - 1) AND x = 0"

section \<open>Definitions: copying the pointers\<close>

text \<open>The loops of \<open>ENQUEUE_PTRS\<close>: four entries at a time, and one at a time. The table of the caller has at
  least as many entries as are copied.\<close>

fun enq_quads :: "u32 list \<Rightarrow> u32 list \<Rightarrow> nat \<Rightarrow> nat \<Rightarrow> nat \<Rightarrow> u32 list" where
  "enq_quads ring obj idx i 0 = ring"
| "enq_quads ring obj idx i (Suc k) =
     enq_quads (ring[idx := obj ! i, idx + 1 := obj ! (i + 1), idx + 2 := obj ! (i + 2), idx + 3 := obj ! (i + 3)])
       obj (idx + 4) (i + 4) k"

fun enq_run :: "u32 list \<Rightarrow> u32 list \<Rightarrow> nat \<Rightarrow> nat \<Rightarrow> nat \<Rightarrow> u32 list" where
  "enq_run ring obj idx i 0 = ring"
| "enq_run ring obj idx i (Suc k) = enq_run (ring[idx := obj ! i]) obj (idx + 1) (i + 1) k"

definition ENQUEUE_PTRS :: "odph_ring_t \<Rightarrow> u32 \<Rightarrow> u32 \<Rightarrow> u32 list \<Rightarrow> u32 \<Rightarrow> u32 list" where
  "ENQUEUE_PTRS r msk prod_head obj_table n =
     (let idx = prod_head AND msk in
      if idx + n < rp_size r
      then let q = unat n div 4
           in enq_run (enq_quads (rg_ring r) obj_table (unat idx) 0 q) obj_table (unat idx + 4 * q) (4 * q) (unat n mod 4)
      else let k = unat (rp_size r) - unat idx
           in enq_run (enq_run (rg_ring r) obj_table (unat idx) 0 k) obj_table 0 k (unat n - k))"

fun deq_quads :: "u32 list \<Rightarrow> nat \<Rightarrow> nat \<Rightarrow> u32 list" where
  "deq_quads ring idx 0 = []"
| "deq_quads ring idx (Suc k) = [ring ! idx, ring ! (idx + 1), ring ! (idx + 2), ring ! (idx + 3)] @ deq_quads ring (idx + 4) k"

fun deq_run :: "u32 list \<Rightarrow> nat \<Rightarrow> nat \<Rightarrow> u32 list" where
  "deq_run ring idx 0 = []"
| "deq_run ring idx (Suc k) = ring ! idx # deq_run ring (idx + 1) k"

definition DEQUEUE_PTRS :: "odph_ring_t \<Rightarrow> u32 \<Rightarrow> u32 \<Rightarrow> u32 \<Rightarrow> u32 list" where
  "DEQUEUE_PTRS r msk cons_head n =
     (let idx = cons_head AND msk in
      if idx + n < rc_size r
      then let q = unat n div 4 in deq_quads (rg_ring r) (unat idx) q @ deq_run (rg_ring r) (unat idx + 4 * q) (unat n mod 4)
      else let k = unat (rc_size r) - unat idx in deq_run (rg_ring r) (unat idx) k @ deq_run (rg_ring r) 0 (unat n - k))"

section \<open>Definitions: enqueue and dequeue\<close>

text \<open>The checks for room: an early return, or the number of objects.\<close>

definition enq_room :: "odph_ring_queue_behavior \<Rightarrow> u32 \<Rightarrow> u32 \<Rightarrow> ring_ret + u32" where
  "enq_room behavior n free_entries =
     (if n > free_entries
      then if behavior = ODPH_RING_QUEUE_FIXED then Inl (Ring_err ENOBUFS)
           else if free_entries = 0 then Inl (Ring_ret 0) else Inr free_entries
      else Inr n)"

definition deq_room :: "odph_ring_queue_behavior \<Rightarrow> u32 \<Rightarrow> u32 \<Rightarrow> ring_ret + u32" where
  "deq_room behavior n entries =
     (if n > entries
      then if behavior = ODPH_RING_QUEUE_FIXED then Inl (Ring_err ENOENT)
           else if entries = 0 then Inl (Ring_ret 0) else Inr entries
      else Inr n)"

definition enq_ret :: "odph_ring_t \<Rightarrow> odph_ring_queue_behavior \<Rightarrow> u32 \<Rightarrow> u32 \<Rightarrow> u32 \<Rightarrow> ring_ret" where
  "enq_ret r behavior msk free_entries n =
     (if (msk + 1) - free_entries + n > rp_watermark r
      then if behavior = ODPH_RING_QUEUE_FIXED then Ring_err EDQUOT else Ring_ret (sint (n OR ODPH_RING_QUOT_EXCEED))
      else if behavior = ODPH_RING_QUEUE_FIXED then Ring_ret 0 else Ring_ret (sint n))"

definition deq_ret :: "odph_ring_queue_behavior \<Rightarrow> u32 \<Rightarrow> ring_ret" where
  "deq_ret behavior n = (if behavior = ODPH_RING_QUEUE_FIXED then Ring_ret 0 else Ring_ret (sint n))"

definition ring_sp_do_enqueue :: "odph_ring_t \<Rightarrow> u32 list \<Rightarrow> u32 \<Rightarrow> odph_ring_queue_behavior \<Rightarrow> ring_ret \<times> odph_ring_t" where
  "ring_sp_do_enqueue r obj_table n behavior =
     (let msk = rp_mask r;
          prod_head = rp_head r;
          cons_tail = rc_tail r;
          free_entries = msk + cons_tail - prod_head
      in case enq_room behavior n free_entries of
           Inl ret \<Rightarrow> (ret, r)
         | Inr n \<Rightarrow>
             let prod_next = prod_head + n;
                 r = r\<lparr>rp_head := prod_next\<rparr>;
                 r = r\<lparr>rg_ring := ENQUEUE_PTRS r msk prod_head obj_table n\<rparr>
             in (enq_ret r behavior msk free_entries n, r\<lparr>rp_tail := prod_next\<rparr>))"

definition ring_sc_do_dequeue :: "odph_ring_t \<Rightarrow> u32 \<Rightarrow> odph_ring_queue_behavior \<Rightarrow> ring_ret \<times> u32 list \<times> odph_ring_t" where
  "ring_sc_do_dequeue r n behavior =
     (let msk = rp_mask r;
          cons_head = rc_head r;
          prod_tail = rp_tail r;
          entries = prod_tail - cons_head
      in case deq_room behavior n entries of
           Inl ret \<Rightarrow> (ret, [], r)
         | Inr n \<Rightarrow>
             let cons_next = cons_head + n;
                 r = r\<lparr>rc_head := cons_next\<rparr>
             in (deq_ret behavior n, DEQUEUE_PTRS r msk cons_head n, r\<lparr>rc_tail := cons_next\<rparr>))"

text \<open>The calls for many threads, made by a thread that runs alone: the exchange succeeds, and the wait for the calls before it
  ends only if there are none (\<open>None\<close> otherwise).\<close>

definition ring_mp_do_enqueue :: "odph_ring_t \<Rightarrow> u32 list \<Rightarrow> u32 \<Rightarrow> odph_ring_queue_behavior \<Rightarrow> (ring_ret \<times> odph_ring_t) option" where
  "ring_mp_do_enqueue r obj_table n behavior =
     (let msk = rp_mask r;
          prod_head = rp_head r;
          cons_tail = rc_tail r;
          free_entries = msk + cons_tail - prod_head
      in case enq_room behavior n free_entries of
           Inl ret \<Rightarrow> Some (ret, r)
         | Inr n \<Rightarrow>
             let prod_next = prod_head + n;
                 r = r\<lparr>rp_head := prod_next\<rparr>;
                 r = r\<lparr>rg_ring := ENQUEUE_PTRS r msk prod_head obj_table n\<rparr>;
                 ret = enq_ret r behavior msk free_entries n
             in if rp_tail r \<noteq> prod_head then None else Some (ret, r\<lparr>rp_tail := prod_next\<rparr>))"

definition ring_mc_do_dequeue :: "odph_ring_t \<Rightarrow> u32 \<Rightarrow> odph_ring_queue_behavior \<Rightarrow> (ring_ret \<times> u32 list \<times> odph_ring_t) option" where
  "ring_mc_do_dequeue r n behavior =
     (let msk = rp_mask r;
          cons_head = rc_head r;
          prod_tail = rp_tail r;
          entries = prod_tail - cons_head
      in case deq_room behavior n entries of
           Inl ret \<Rightarrow> Some (ret, [], r)
         | Inr n \<Rightarrow>
             let cons_next = cons_head + n;
                 r = r\<lparr>rc_head := cons_next\<rparr>;
                 objs = DEQUEUE_PTRS r msk cons_head n
             in if rc_tail r \<noteq> cons_head then None else Some (deq_ret behavior n, objs, r\<lparr>rc_tail := cons_next\<rparr>))"

definition odph_ring_mp_enqueue_bulk :: "odph_ring_t \<Rightarrow> u32 list \<Rightarrow> u32 \<Rightarrow> (ring_ret \<times> odph_ring_t) option" where
  "odph_ring_mp_enqueue_bulk r obj_table n = ring_mp_do_enqueue r obj_table n ODPH_RING_QUEUE_FIXED"

definition odph_ring_mp_enqueue_burst :: "odph_ring_t \<Rightarrow> u32 list \<Rightarrow> u32 \<Rightarrow> (ring_ret \<times> odph_ring_t) option" where
  "odph_ring_mp_enqueue_burst r obj_table n = ring_mp_do_enqueue r obj_table n ODPH_RING_QUEUE_VARIABLE"

definition odph_ring_sp_enqueue_bulk :: "odph_ring_t \<Rightarrow> u32 list \<Rightarrow> u32 \<Rightarrow> ring_ret \<times> odph_ring_t" where
  "odph_ring_sp_enqueue_bulk r obj_table n = ring_sp_do_enqueue r obj_table n ODPH_RING_QUEUE_FIXED"

definition odph_ring_sp_enqueue_burst :: "odph_ring_t \<Rightarrow> u32 list \<Rightarrow> u32 \<Rightarrow> ring_ret \<times> odph_ring_t" where
  "odph_ring_sp_enqueue_burst r obj_table n = ring_sp_do_enqueue r obj_table n ODPH_RING_QUEUE_VARIABLE"

definition odph_ring_mc_dequeue_bulk :: "odph_ring_t \<Rightarrow> u32 \<Rightarrow> (ring_ret \<times> u32 list \<times> odph_ring_t) option" where
  "odph_ring_mc_dequeue_bulk r n = ring_mc_do_dequeue r n ODPH_RING_QUEUE_FIXED"

definition odph_ring_mc_dequeue_burst :: "odph_ring_t \<Rightarrow> u32 \<Rightarrow> (ring_ret \<times> u32 list \<times> odph_ring_t) option" where
  "odph_ring_mc_dequeue_burst r n = ring_mc_do_dequeue r n ODPH_RING_QUEUE_VARIABLE"

definition odph_ring_sc_dequeue_bulk :: "odph_ring_t \<Rightarrow> u32 \<Rightarrow> ring_ret \<times> u32 list \<times> odph_ring_t" where
  "odph_ring_sc_dequeue_bulk r n = ring_sc_do_dequeue r n ODPH_RING_QUEUE_FIXED"

definition odph_ring_sc_dequeue_burst :: "odph_ring_t \<Rightarrow> u32 \<Rightarrow> ring_ret \<times> u32 list \<times> odph_ring_t" where
  "odph_ring_sc_dequeue_burst r n = ring_sc_do_dequeue r n ODPH_RING_QUEUE_VARIABLE"

definition odph_ring_enqueue_burst :: "odph_ring_t \<Rightarrow> u32 list \<Rightarrow> u32 \<Rightarrow> (ring_ret \<times> odph_ring_t) option" where
  "odph_ring_enqueue_burst r obj_table n =
     (if rp_sp_enqueue r then Some (odph_ring_sp_enqueue_burst r obj_table n)
      else odph_ring_mp_enqueue_burst r obj_table n)"

definition odph_ring_dequeue_burst :: "odph_ring_t \<Rightarrow> u32 \<Rightarrow> (ring_ret \<times> u32 list \<times> odph_ring_t) option" where
  "odph_ring_dequeue_burst r n =
     (if rc_sc_dequeue r then Some (odph_ring_sc_dequeue_burst r n)
      else odph_ring_mc_dequeue_burst r n)"

section \<open>Definitions: creation and status\<close>

definition odph_ring_tailq_init :: "ring_state \<Rightarrow> ring_state" where
  "odph_ring_tailq_init rs = rs\<lparr>rgs_list := []\<rparr>"

text \<open>The argument \<open>s_ring\<close> is the size of the structure without the pointers, \<open>mem\<close> what the memory
  holds before.\<close>

definition odph_ring_create ::
  "(u32 \<Rightarrow> u32) \<Rightarrow> (nat \<Rightarrow> u32) \<Rightarrow> u32 \<Rightarrow> string \<Rightarrow> u32 \<Rightarrow> u32 \<Rightarrow> ring_state \<Rightarrow> (u32 \<times> ring_state) option" where
  "odph_ring_create malloc mem s_ring name count flags rs =
     (if \<not> RING_VAL_IS_POWER_2 count \<or> count > ODPH_RING_SZ_MASK then Some (0, rs)
      else let ring_name = take (ODPH_RING_NAMESIZE - 1) name;
               ring_size = count * 4 + s_ring
        in do {
          (shmem, shm) \<leftarrow> odp_shm_reserve malloc (rgs_shm rs) ring_name (ucast ring_size) 64 0;
          let addr = odp_shm_addr shm shmem in
          if addr = 0 then Some (0, rs\<lparr>rgs_shm := shm\<rparr>)
          else Some (addr, rs\<lparr>rgs_shm := shm,
            rgs_ring := (rgs_ring rs)(addr := \<lparr>rg_name = take (ODPH_RING_NAMESIZE - 1) name, rg_flags = flags, rp_watermark = count,
              rp_sp_enqueue = (flags AND ODPH_RING_F_SP_ENQ \<noteq> 0), rp_size = count, rp_mask = count - 1, rp_head = 0, rp_tail = 0,
              rc_sc_dequeue = (flags AND ODPH_RING_F_SC_DEQ \<noteq> 0), rc_size = count, rc_mask = count - 1, rc_head = 0, rc_tail = 0,
              rg_ring = map mem [0..<unat count]\<rparr>),
            rgs_list := rgs_list rs @ [addr]\<rparr>)
        })"

definition odph_ring_set_water_mark :: "odph_ring_t \<Rightarrow> u32 \<Rightarrow> ring_ret \<times> odph_ring_t" where
  "odph_ring_set_water_mark r count =
     (if count \<ge> rp_size r then (Ring_err EINVAL, r)
      else (Ring_ret 0, r\<lparr>rp_watermark := (if count = 0 then rp_size r else count)\<rparr>))"

definition odph_ring_full :: "odph_ring_t \<Rightarrow> bool" where
  "odph_ring_full r \<longleftrightarrow> (rc_tail r - rp_tail r - 1) AND rp_mask r = 0"

definition odph_ring_empty :: "odph_ring_t \<Rightarrow> bool" where
  "odph_ring_empty r \<longleftrightarrow> rc_tail r = rp_tail r"

definition odph_ring_count :: "odph_ring_t \<Rightarrow> u32" where
  "odph_ring_count r = (rp_tail r - rc_tail r) AND rp_mask r"

definition odph_ring_free_count :: "odph_ring_t \<Rightarrow> u32" where
  "odph_ring_free_count r = (rc_tail r - rp_tail r - 1) AND rp_mask r"

definition odph_ring_lookup :: "string \<Rightarrow> ring_state \<Rightarrow> u32" where
  "odph_ring_lookup name rs =
     (case find (\<lambda>a. rg_name (rgs_ring rs a) = take ODPH_RING_NAMESIZE name) (rgs_list rs) of None \<Rightarrow> 0 | Some a \<Rightarrow> a)"

section \<open>The shape of a ring\<close>

text \<open>The size is a power of two below the limit; the masks select an entry.\<close>

definition ring_shape :: "odph_ring_t \<Rightarrow> bool" where
  "ring_shape r \<longleftrightarrow> (\<exists>k \<le> 27. unat (rp_size r) = 2 ^ k) \<and> rc_size r = rp_size r \<and> rp_mask r = rp_size r - 1 \<and>
     length (rg_ring r) = unat (rp_size r)"

abbreviation ring_size :: "odph_ring_t \<Rightarrow> nat" where
  "ring_size r \<equiv> unat (rp_size r)"

lemma ring_shapeD:
  assumes "ring_shape r"
  shows "rc_size r = rp_size r" "length (rg_ring r) = ring_size r" "0 < ring_size r" "ring_size r \<le> 2 ^ 27"
    "unat (rp_mask r) = ring_size r - 1" "unat (x AND rp_mask r) = unat x mod ring_size r"
    "unat (of_nat p AND rp_mask r) = p mod ring_size r"
proof -
  obtain k where k: "k \<le> 27" "ring_size r = 2 ^ k" and m: "rp_mask r = rp_size r - 1" "rc_size r = rp_size r" "length (rg_ring r) = ring_size r"
    using assms by (auto simp: ring_shape_def)
  show "rc_size r = rp_size r" "length (rg_ring r) = ring_size r" "0 < ring_size r" using m k by simp_all
  show "ring_size r \<le> 2 ^ 27" unfolding k(2) using k(1) by (rule power_increasing) simp
  have "(2 :: nat) ^ k < 2 ^ 32" using k(1) by (intro power_strict_increasing) simp_all
  then have "unat (2 ^ k :: u32) = 2 ^ k" using unat_of_nat [where 'a = 32, of "2 ^ k"] by simp
  then have sz: "rp_size r = 2 ^ k" using k(2) by (simp add: word_unat_eq_iff)
  have mk: "rp_mask r = mask k" by (simp add: m sz mask_eq_exp_minus_1)
  have "rp_size r \<noteq> 0" using k(2) by auto
  then show "unat (rp_mask r) = ring_size r - 1" unfolding m by (rule unat_minus_one)
  have A: "unat (x AND rp_mask r) = unat x mod ring_size r" for x
    unfolding mk take_bit_eq_mask [symmetric] unsigned_take_bit_eq k(2) by (rule take_bit_eq_mod)
  then show "unat (x AND rp_mask r) = unat x mod ring_size r" .
  have "(2 :: nat) ^ k dvd 2 ^ 32" using k(1) by (intro le_imp_power_dvd) simp
  then show "unat (of_nat p AND rp_mask r) = p mod ring_size r"
    unfolding A by (simp add: unat_of_nat k(2) mod_mod_cancel)
qed

section \<open>Copying in and out\<close>

lemma enq_run_append: "enq_run ring obj idx i (a + b) = enq_run (enq_run ring obj idx i a) obj (idx + a) (i + a) b"
  by (induction a arbitrary: ring idx i) simp_all

lemma enq_quads_run: "enq_quads ring obj idx i k = enq_run ring obj idx i (4 * k)"
proof (induction k arbitrary: ring idx i)
  case (Suc k)
  have "4 * Suc k = Suc (Suc (Suc (Suc (4 * k))))" by simp
  then show ?case using Suc by (simp add: numeral_eq_Suc)
qed simp

lemma enq_run_foldl: "enq_run ring obj idx i k = foldl (\<lambda>rg j. rg[idx + j := obj ! (i + j)]) ring [0..<k]"
proof (induction k)
  case (Suc k)
  then show ?case using enq_run_append [of ring obj idx i k 1] by simp
qed simp

lemma deq_run_map: "deq_run ring idx k = map (\<lambda>j. ring ! (idx + j)) [0..<k]"
proof (induction k arbitrary: idx)
  case (Suc k)
  have "[0..<Suc k] = 0 # map Suc [0..<k]" by (simp add: map_Suc_upt upt_conv_Cons)
  then show ?case using Suc by simp
qed simp

lemma deq_quads_run: "deq_quads ring idx k = deq_run ring idx (4 * k)"
proof (induction k arbitrary: idx)
  case (Suc k)
  have "4 * Suc k = Suc (Suc (Suc (Suc (4 * k))))" by simp
  then show ?case using Suc by (simp add: numeral_eq_Suc)
qed simp

text \<open>Both branches of the macros visit the entries from the masked head on, in order.\<close>

lemma idx_plus:
  assumes "ring_shape r" "unat n < ring_size r"
  shows "(x AND rp_mask r) + n < rp_size r \<longleftrightarrow> unat x mod ring_size r + unat n < ring_size r"
proof -
  note S = ring_shapeD [OF assms(1)]
  have "unat x mod ring_size r < 2 ^ 27" using S(3,4) by (meson mod_less_divisor order.strict_trans2)
  then have "unat ((x AND rp_mask r) + n) = unat x mod ring_size r + unat n"
    using assms(2) S(4) by (simp add: unat_word_ariths S(6))
  then show ?thesis by (simp add: word_less_nat_alt)
qed

lemma wrap_slot: "x + k = s \<Longrightarrow> j < s \<Longrightarrow> (x + (j + k)) mod s = (j :: nat)"
proof -
  assume "x + k = s" "j < s"
  then have "x + (j + k) = j + s" by simp
  then show ?thesis using \<open>j < s\<close> by (simp only: mod_add_self2 mod_less)
qed

lemma ENQUEUE_PTRS_stores:
  assumes r: "ring_shape r" and n: "unat n < ring_size r"
  shows "ENQUEUE_PTRS r (rp_mask r) h obj n =
    foldl (\<lambda>rg j. rg[(unat h + j) mod ring_size r := obj ! j]) (rg_ring r) [0..<unat n]"
proof -
  note S = ring_shapeD [OF r]
  define x where "x = unat h mod ring_size r"
  have x: "x < ring_size r" "unat (h AND rp_mask r) = x" using S(3,6) by (simp_all add: x_def)
  have sl: "(unat h + j) mod ring_size r = (x + j) mod ring_size r" for j by (simp add: x_def mod_add_left_eq)
  show ?thesis
  proof (cases "x + unat n < ring_size r")
    case True
    have "ENQUEUE_PTRS r (rp_mask r) h obj n = enq_run (rg_ring r) obj x 0 (4 * (unat n div 4) + unat n mod 4)"
      using idx_plus [OF r n, of h] True x
      unfolding enq_run_append by (simp add: ENQUEUE_PTRS_def Let_def enq_quads_run x_def)
    also have "\<dots> = foldl (\<lambda>rg j. rg[x + j := obj ! j]) (rg_ring r) [0..<unat n]" by (simp add: enq_run_foldl)
    also have "\<dots> = foldl (\<lambda>rg j. rg[(x + j) mod ring_size r := obj ! j]) (rg_ring r) [0..<unat n]"
      by (rule foldl_cong) (use True in auto)
    finally show ?thesis by (simp only: sl)
  next
    case False
    define k where "k = ring_size r - x"
    have k: "k \<le> unat n" "x + k = ring_size r" "unat n - k < ring_size r" using False x n by (auto simp: k_def)
    have "ENQUEUE_PTRS r (rp_mask r) h obj n = enq_run (enq_run (rg_ring r) obj x 0 k) obj 0 k (unat n - k)"
      using idx_plus [OF r n, of h] False x by (simp add: ENQUEUE_PTRS_def Let_def x_def k_def)
    also have "\<dots> = foldl (\<lambda>rg j. rg[j := obj ! (k + j)]) (foldl (\<lambda>rg j. rg[x + j := obj ! j]) (rg_ring r) [0..<k]) [0..<unat n - k]"
      by (simp add: enq_run_foldl)
    also have "foldl (\<lambda>rg j. rg[x + j := obj ! j]) (rg_ring r) [0..<k] = foldl (\<lambda>rg j. rg[(x + j) mod ring_size r := obj ! j]) (rg_ring r) [0..<k]"
      by (rule foldl_cong) (use k in auto)
    also have "foldl (\<lambda>rg j. rg[j := obj ! (k + j)]) rg0 [0..<unat n - k] = foldl (\<lambda>rg j. rg[(x + j) mod ring_size r := obj ! j]) rg0 [k..<unat n]" for rg0
    proof -
      have "[k..<unat n] = map (\<lambda>j. j + k) [0..<unat n - k]" using k(1) by (simp add: map_add_upt)
      then have "foldl (\<lambda>rg j. rg[(x + j) mod ring_size r := obj ! j]) rg0 [k..<unat n] =
          foldl (\<lambda>rg j. rg[(x + (j + k)) mod ring_size r := obj ! (j + k)]) rg0 [0..<unat n - k]" by (simp add: foldl_map)
      also have "\<dots> = foldl (\<lambda>rg j. rg[j := obj ! (k + j)]) rg0 [0..<unat n - k]"
      proof (rule foldl_cong)
        fix a j assume "j \<in> set [0..<unat n - k]"
        then have "j < ring_size r" using k(3) by simp
        then show "a[(x + (j + k)) mod ring_size r := obj ! (j + k)] = a[j := obj ! (k + j)]"
          by (simp only: wrap_slot [OF k(2)] add.commute)
      qed simp_all
      finally show ?thesis by simp
    qed
    also have "foldl f (foldl f rg0 [0..<k]) [k..<unat n] = foldl f rg0 [0..<unat n]" for f and rg0 :: "u32 list"
      using k(1) upt_add_eq_append [of 0 k "unat n - k"] by (simp flip: foldl_append)
    finally show ?thesis by (simp only: sl)
  qed
qed

lemma DEQUEUE_PTRS_loads:
  assumes r: "ring_shape r" and n: "unat n < ring_size r"
  shows "DEQUEUE_PTRS r (rp_mask r) h n = map (\<lambda>j. rg_ring r ! ((unat h + j) mod ring_size r)) [0..<unat n]"
proof -
  note S = ring_shapeD [OF r]
  define x where "x = unat h mod ring_size r"
  have x: "x < ring_size r" "unat (h AND rp_mask r) = x" using S(3,6) by (simp_all add: x_def)
  have sl: "(unat h + j) mod ring_size r = (x + j) mod ring_size r" for j by (simp add: x_def mod_add_left_eq)
  show ?thesis
  proof (cases "x + unat n < ring_size r")
    case True
    have "deq_run (rg_ring r) i (a + b) = deq_run (rg_ring r) i a @ deq_run (rg_ring r) (i + a) b" for i a b
      by (induction a arbitrary: i) simp_all
    from this [of x "4 * (unat n div 4)" "unat n mod 4"]
    have "DEQUEUE_PTRS r (rp_mask r) h n = deq_run (rg_ring r) x (unat n)"
      using idx_plus [OF r n, of h] True x by (simp add: DEQUEUE_PTRS_def Let_def deq_quads_run x_def S(1))
    then show ?thesis using True by (simp add: deq_run_map sl)
  next
    case False
    define k where "k = ring_size r - x"
    have k: "k \<le> unat n" "x + k = ring_size r" "unat n - k < ring_size r" using False x n by (auto simp: k_def)
    have "DEQUEUE_PTRS r (rp_mask r) h n = deq_run (rg_ring r) x k @ deq_run (rg_ring r) 0 (unat n - k)"
      using idx_plus [OF r n, of h] False x by (simp add: DEQUEUE_PTRS_def Let_def x_def k_def S(1))
    also have "deq_run (rg_ring r) x k = map (\<lambda>j. rg_ring r ! ((x + j) mod ring_size r)) [0..<k]" using k by (simp add: deq_run_map)
    also have "deq_run (rg_ring r) 0 (unat n - k) = map (\<lambda>j. rg_ring r ! ((x + j) mod ring_size r)) [k..<unat n]"
    proof -
      have "[k..<unat n] = map (\<lambda>j. j + k) [0..<unat n - k]" using k(1) by (simp add: map_add_upt)
      moreover have "(x + (j + k)) mod ring_size r = j" if "j < unat n - k" for j
        using that k(3) by (intro wrap_slot [OF k(2)]) simp
      ultimately show ?thesis by (simp add: deq_run_map)
    qed
    also have "map f [0..<k] @ map f [k..<unat n] = map f [0..<unat n]" for f :: "nat \<Rightarrow> u32"
      using k(1) upt_add_eq_append [of 0 k "unat n - k"] by (simp flip: map_append)
    finally show ?thesis by (simp only: sl)
  qed
qed

section \<open>Many producers and consumers\<close>

text \<open>
  Where a thread is in \<open>__odph_ring_mp_do_enqueue\<close> or \<open>__odph_ring_mc_do_dequeue\<close>, with the
  variables of the call. The last numbers of a state count all objects since the creation of the ring: they are the positions that
  the 32-bit indices stand for, and no step depends on them.
\<close>

datatype ring_pc =
    Rg_idle
  | Rp_start "u32 list" odph_ring_queue_behavior
  | Rp_head "u32 list" odph_ring_queue_behavior u32 nat
  | Rp_tail "u32 list" odph_ring_queue_behavior u32 u32 nat nat
  | Rp_copy "u32 list" u32 u32 nat nat
  | Rp_ready "u32 list" u32 u32 nat
  | Rc_start u32 odph_ring_queue_behavior
  | Rc_head u32 odph_ring_queue_behavior u32 nat
  | Rc_tail u32 odph_ring_queue_behavior u32 u32 nat nat
  | Rc_copy u32 u32 "u32 list" nat
  | Rc_ready u32 u32 "u32 list" nat

text \<open>The ring, the threads, and what is observed: the objects in the order in which they got their place in the ring
  (\<open>rm_in\<close>) and in the order in which the calls that took them out completed (\<open>rm_out\<close>), how many were
  published by their producers (\<open>rm_pt\<close>) and how many were claimed by consumers (\<open>rm_ch\<close>).\<close>

record ring_sys =
  rm_ring :: odph_ring_t
  rm_pc :: "nat \<Rightarrow> ring_pc"
  rm_in :: "u32 list"
  rm_out :: "u32 list"
  rm_pt :: nat
  rm_ch :: nat

inductive ring_step :: "ring_sys \<Rightarrow> ring_sys \<Rightarrow> bool" where
  p_call: "ring_step s (s\<lparr>rm_pc := (rm_pc s)(t := Rp_start objs b)\<rparr>)"
    if "rm_pc s t = Rg_idle" "length objs < 2 ^ 32"
| p_head: "ring_step s (s\<lparr>rm_pc := (rm_pc s)(t := Rp_head objs b (rp_head (rm_ring s)) (length (rm_in s)))\<rparr>)"
    if "rm_pc s t = Rp_start objs b"
| p_tail: "ring_step s (s\<lparr>rm_pc := (rm_pc s)(t := Rp_tail objs b h (rc_tail (rm_ring s)) p (length (rm_out s)))\<rparr>)"
    if "rm_pc s t = Rp_head objs b h p"
| p_return: "ring_step s (s\<lparr>rm_pc := (rm_pc s)(t := Rg_idle)\<rparr>)"
    if "rm_pc s t = Rp_tail objs b h c p q" "enq_room b (of_nat (length objs)) (rp_mask (rm_ring s) + c - h) = Inl ret"
| p_retry: "ring_step s (s\<lparr>rm_pc := (rm_pc s)(t := Rp_start objs b)\<rparr>)"
    if "rm_pc s t = Rp_tail objs b h c p q" "enq_room b (of_nat (length objs)) (rp_mask (rm_ring s) + c - h) = Inr n"
      "rp_head (rm_ring s) \<noteq> h"
| p_reserve: "ring_step s (s\<lparr>rm_ring := (rm_ring s)\<lparr>rp_head := h + n\<rparr>, rm_pc := (rm_pc s)(t := Rp_copy objs h n 0 (length (rm_in s))),
      rm_in := rm_in s @ take (unat n) objs\<rparr>)"
    if "rm_pc s t = Rp_tail objs b h c p q" "enq_room b (of_nat (length objs)) (rp_mask (rm_ring s) + c - h) = Inr n"
      "rp_head (rm_ring s) = h"
| p_store: "ring_step s (s\<lparr>rm_ring := (rm_ring s)\<lparr>rg_ring := (rg_ring (rm_ring s))[unat ((h + of_nat i) AND rp_mask (rm_ring s)) := objs ! i]\<rparr>,
      rm_pc := (rm_pc s)(t := Rp_copy objs h n (Suc i) p)\<rparr>)"
    if "rm_pc s t = Rp_copy objs h n i p" "i < unat n"
| p_turn: "ring_step s (s\<lparr>rm_pc := (rm_pc s)(t := Rp_ready objs h n p)\<rparr>)"
    if "rm_pc s t = Rp_copy objs h n (unat n) p" "rp_tail (rm_ring s) = h"
| p_publish: "ring_step s (s\<lparr>rm_ring := (rm_ring s)\<lparr>rp_tail := h + n\<rparr>, rm_pc := (rm_pc s)(t := Rg_idle), rm_pt := p + unat n\<rparr>)"
    if "rm_pc s t = Rp_ready objs h n p"
| c_call: "ring_step s (s\<lparr>rm_pc := (rm_pc s)(t := Rc_start n b)\<rparr>)"
    if "rm_pc s t = Rg_idle"
| c_head: "ring_step s (s\<lparr>rm_pc := (rm_pc s)(t := Rc_head n b (rc_head (rm_ring s)) (rm_ch s))\<rparr>)"
    if "rm_pc s t = Rc_start n b"
| c_tail: "ring_step s (s\<lparr>rm_pc := (rm_pc s)(t := Rc_tail n b h (rp_tail (rm_ring s)) p (rm_pt s))\<rparr>)"
    if "rm_pc s t = Rc_head n b h p"
| c_return: "ring_step s (s\<lparr>rm_pc := (rm_pc s)(t := Rg_idle)\<rparr>)"
    if "rm_pc s t = Rc_tail n b h c p q" "deq_room b n (c - h) = Inl ret"
| c_retry: "ring_step s (s\<lparr>rm_pc := (rm_pc s)(t := Rc_start n b)\<rparr>)"
    if "rm_pc s t = Rc_tail n b h c p q" "deq_room b n (c - h) = Inr n'" "rc_head (rm_ring s) \<noteq> h"
| c_claim: "ring_step s (s\<lparr>rm_ring := (rm_ring s)\<lparr>rc_head := h + n'\<rparr>, rm_pc := (rm_pc s)(t := Rc_copy h n' [] (rm_ch s)),
      rm_ch := rm_ch s + unat n'\<rparr>)"
    if "rm_pc s t = Rc_tail n b h c p q" "deq_room b n (c - h) = Inr n'" "rc_head (rm_ring s) = h"
| c_load: "ring_step s (s\<lparr>rm_pc := (rm_pc s)(t := Rc_copy h n
      (got @ [rg_ring (rm_ring s) ! unat ((h + of_nat (length got)) AND rp_mask (rm_ring s))]) p)\<rparr>)"
    if "rm_pc s t = Rc_copy h n got p" "length got < unat n"
| c_turn: "ring_step s (s\<lparr>rm_pc := (rm_pc s)(t := Rc_ready h n got p)\<rparr>)"
    if "rm_pc s t = Rc_copy h n got p" "length got = unat n" "rc_tail (rm_ring s) = h"
| c_publish: "ring_step s (s\<lparr>rm_ring := (rm_ring s)\<lparr>rc_tail := h + n\<rparr>, rm_pc := (rm_pc s)(t := Rg_idle), rm_out := rm_out s @ got\<rparr>)"
    if "rm_pc s t = Rc_ready h n got p"

text \<open>A thread does not sleep between the load of an index and its compare-and-exchange while the index makes a full turn.\<close>

definition ring_fresh :: "ring_sys \<Rightarrow> bool" where
  "ring_fresh s \<longleftrightarrow>
     (\<forall>t objs b h c p q. rm_pc s t = Rp_head objs b h p \<or> rm_pc s t = Rp_tail objs b h c p q \<longrightarrow> length (rm_in s) < p + 2 ^ 32) \<and>
     (\<forall>t n b h c p q. rm_pc s t = Rc_head n b h p \<or> rm_pc s t = Rc_tail n b h c p q \<longrightarrow> rm_ch s < p + 2 ^ 32)"

text \<open>The calls in progress move at least one object. A call for no object can lose its turn between the test of the tail and
  the store to it, and then moves the tail back (\<open>ring_empty_call_loses\<close>).\<close>

definition ring_calls_pos :: "ring_sys \<Rightarrow> bool" where
  "ring_calls_pos s \<longleftrightarrow>
     (\<forall>t objs b. rm_pc s t = Rp_start objs b \<longrightarrow> objs \<noteq> []) \<and> (\<forall>t n b. rm_pc s t = Rc_start n b \<longrightarrow> n \<noteq> 0)"

definition ring_start :: "odph_ring_t \<Rightarrow> ring_sys" where
  "ring_start r = \<lparr>rm_ring = r, rm_pc = \<lambda>_. Rg_idle, rm_in = [], rm_out = [], rm_pt = 0, rm_ch = 0\<rparr>"

subsection \<open>The claims of the threads\<close>

text \<open>Each position between two indices is claimed by one thread.\<close>

definition tiles :: "(nat \<Rightarrow> nat set) \<Rightarrow> nat \<Rightarrow> nat \<Rightarrow> bool" where
  "tiles c lo hi \<longleftrightarrow> (\<forall>t. c t \<subseteq> {lo..<hi}) \<and> (\<forall>x. lo \<le> x \<and> x < hi \<longrightarrow> (\<exists>!t. x \<in> c t))"

lemma tilesD:
  assumes "tiles c lo hi"
  shows "x \<in> c t \<Longrightarrow> lo \<le> x \<and> x < hi" "x \<in> c t \<Longrightarrow> x \<in> c u \<Longrightarrow> t = u" "lo \<le> x \<Longrightarrow> x < hi \<Longrightarrow> \<exists>t. x \<in> c t"
proof -
  show 1: "x \<in> c t \<Longrightarrow> lo \<le> x \<and> x < hi" for x t
    using assms unfolding tiles_def by (meson atLeastLessThan_iff subsetD)
  show "x \<in> c t \<Longrightarrow> x \<in> c u \<Longrightarrow> t = u" using assms 1 unfolding tiles_def by blast
  show "lo \<le> x \<Longrightarrow> x < hi \<Longrightarrow> \<exists>t. x \<in> c t" using assms unfolding tiles_def by blast
qed

lemma tilesI:
  assumes "\<And>t x. x \<in> c t \<Longrightarrow> lo \<le> x \<and> x < hi" "\<And>t u x. x \<in> c t \<Longrightarrow> x \<in> c u \<Longrightarrow> t = u" "\<And>x. lo \<le> x \<Longrightarrow> x < hi \<Longrightarrow> \<exists>t. x \<in> c t"
  shows "tiles c lo hi"
  using assms unfolding tiles_def by (meson atLeastLessThan_iff subsetI)

lemma tiles_claim:
  assumes "tiles c lo hi" "c t = {}" "lo \<le> hi"
  shows "tiles (c(t := {hi..<hi + n})) lo (hi + n)"
proof (rule tilesI)
  note D = tilesD [OF assms(1)]
  show "lo \<le> x \<and> x < hi + n" if "x \<in> (c(t := {hi..<hi + n})) u" for u x
    using that D(1) [of x u] assms(3) by (auto split: if_splits)
  show "u = v" if "x \<in> (c(t := {hi..<hi + n})) u" "x \<in> (c(t := {hi..<hi + n})) v" for u v x
    using that D(1) [of x u] D(1) [of x v] D(2) [of x u v] by (auto split: if_splits)
  show "\<exists>u. x \<in> (c(t := {hi..<hi + n})) u" if "lo \<le> x" "x < hi + n" for x
  proof (cases "x < hi")
    case True
    then obtain u where "x \<in> c u" using D(3) [OF \<open>lo \<le> x\<close>] by blast
    then show ?thesis using assms(2) by (intro exI [of _ u]) auto
  qed (use that in \<open>auto intro!: exI [of _ t]\<close>)
qed

lemma tiles_publish:
  assumes "tiles c lo hi" "c t = {lo..<lo + n}"
  shows "tiles (c(t := {})) (lo + n) hi"
proof (rule tilesI)
  note D = tilesD [OF assms(1)]
  show "lo + n \<le> x \<and> x < hi" if x: "x \<in> (c(t := {})) u" for u x
  proof -
    have u: "x \<in> c u" "u \<noteq> t" using x by (auto split: if_splits)
    then have "x \<notin> c t" using D(2) by blast
    then show ?thesis using D(1) [OF u(1)] assms(2) by auto
  qed
  show "u = v" if "x \<in> (c(t := {})) u" "x \<in> (c(t := {})) v" for u v x
    using that D(2) [of x u v] by (auto split: if_splits)
  show "\<exists>u. x \<in> (c(t := {})) u" if "lo + n \<le> x" "x < hi" for x
  proof -
    obtain u where "x \<in> c u" using D(3) [of x] \<open>lo + n \<le> x\<close> \<open>x < hi\<close> by auto
    moreover have "x \<notin> c t" using assms(2) \<open>lo + n \<le> x\<close> by simp
    ultimately show ?thesis by (intro exI [of _ u]) auto
  qed
qed

fun p_claim :: "ring_pc \<Rightarrow> nat set" where
  "p_claim (Rp_copy objs h n i p) = {p..<p + unat n}"
| "p_claim (Rp_ready objs h n p) = {p..<p + unat n}"
| "p_claim _ = {}"

fun c_claim :: "ring_pc \<Rightarrow> nat set" where
  "c_claim (Rc_copy h n got p) = {p..<p + unat n}"
| "c_claim (Rc_ready h n got p) = {p..<p + unat n}"
| "c_claim _ = {}"

subsection \<open>The invariant\<close>

text \<open>What a thread knows, with \<open>N\<close> the size of the ring, \<open>rg\<close> its entries, \<open>xs\<close> all objects
  that got a place, and the four positions.\<close>

fun rpc_ok :: "nat \<Rightarrow> u32 list \<Rightarrow> u32 list \<Rightarrow> nat \<Rightarrow> nat \<Rightarrow> nat \<Rightarrow> ring_pc \<Rightarrow> bool" where
  "rpc_ok N rg xs ct ch pt (Rp_start objs b) \<longleftrightarrow> length objs < 2 ^ 32 \<and> objs \<noteq> []"
| "rpc_ok N rg xs ct ch pt (Rp_head objs b h p) \<longleftrightarrow>
     length objs < 2 ^ 32 \<and> objs \<noteq> [] \<and> h = of_nat p \<and> p \<le> length xs \<and> p < ct + N"
| "rpc_ok N rg xs ct ch pt (Rp_tail objs b h c p q) \<longleftrightarrow>
     length objs < 2 ^ 32 \<and> objs \<noteq> [] \<and> h = of_nat p \<and> c = of_nat q \<and> p \<le> length xs \<and> q \<le> ct \<and> p < q + N"
| "rpc_ok N rg xs ct ch pt (Rp_copy objs h n i p) \<longleftrightarrow> h = of_nat p \<and> 0 < unat n \<and> i \<le> unat n \<and>
     p + unat n \<le> length xs \<and> (\<forall>j < unat n. xs ! (p + j) = objs ! j) \<and> (\<forall>j < i. rg ! ((p + j) mod N) = objs ! j)"
| "rpc_ok N rg xs ct ch pt (Rp_ready objs h n p) \<longleftrightarrow> h = of_nat p \<and> 0 < unat n \<and>
     p + unat n \<le> length xs \<and> (\<forall>j < unat n. xs ! (p + j) = objs ! j) \<and> (\<forall>j < unat n. rg ! ((p + j) mod N) = objs ! j)"
| "rpc_ok N rg xs ct ch pt (Rc_start n b) \<longleftrightarrow> n \<noteq> 0"
| "rpc_ok N rg xs ct ch pt (Rc_head n b h p) \<longleftrightarrow> n \<noteq> 0 \<and> h = of_nat p \<and> p \<le> ch"
| "rpc_ok N rg xs ct ch pt (Rc_tail n b h c p q) \<longleftrightarrow> n \<noteq> 0 \<and> h = of_nat p \<and> c = of_nat q \<and> p \<le> ch \<and> q \<le> pt \<and> p \<le> q"
| "rpc_ok N rg xs ct ch pt (Rc_copy h n got p) \<longleftrightarrow> h = of_nat p \<and> 0 < unat n \<and> length got \<le> unat n \<and> p + unat n \<le> length xs \<and>
     (\<forall>j < length got. got ! j = xs ! (p + j))"
| "rpc_ok N rg xs ct ch pt (Rc_ready h n got p) \<longleftrightarrow> h = of_nat p \<and> 0 < unat n \<and> length got = unat n \<and> p + unat n \<le> length xs \<and>
     (\<forall>j < length got. got ! j = xs ! (p + j))"
| "rpc_ok N rg xs ct ch pt _ \<longleftrightarrow> True"

lemma rpc_ok_mono:
  assumes "rpc_ok N rg xs ct ch pt c" "ct \<le> ct'" "ch \<le> ch'" "pt \<le> pt'"
    and "\<And>x. x \<in> p_claim c \<Longrightarrow> rg' ! (x mod N) = rg ! (x mod N)"
  shows "rpc_ok N rg' (xs @ ys) ct' ch' pt' c"
  using assms by (cases c) (auto simp: nth_append)

definition ring_core :: "odph_ring_t \<Rightarrow> u32 list \<Rightarrow> u32 list \<Rightarrow> nat \<Rightarrow> nat \<Rightarrow> bool" where
  "ring_core r xs ys pt ch \<longleftrightarrow> ring_shape r \<and> rp_head r = of_nat (length xs) \<and> rp_tail r = of_nat pt \<and>
     rc_head r = of_nat ch \<and> rc_tail r = of_nat (length ys) \<and>
     length ys \<le> ch \<and> ch \<le> pt \<and> pt \<le> length xs \<and> length xs < length ys + ring_size r \<and> ys = take (length ys) xs \<and>
     (\<forall>p. length ys \<le> p \<and> p < pt \<longrightarrow> rg_ring r ! (p mod ring_size r) = xs ! p)"

text \<open>A thread that has found the tail at its own position still has its turn: the tail does not move until it does.\<close>

fun turn_ok :: "nat \<Rightarrow> nat \<Rightarrow> ring_pc \<Rightarrow> bool" where
  "turn_ok pt ct (Rp_ready objs h n p) \<longleftrightarrow> p = pt"
| "turn_ok pt ct (Rc_ready h n got p) \<longleftrightarrow> p = ct"
| "turn_ok pt ct _ \<longleftrightarrow> True"

definition hring_inv :: "ring_sys \<Rightarrow> bool" where
  "hring_inv s \<longleftrightarrow> ring_core (rm_ring s) (rm_in s) (rm_out s) (rm_pt s) (rm_ch s) \<and>
     tiles (\<lambda>t. p_claim (rm_pc s t)) (rm_pt s) (length (rm_in s)) \<and> tiles (\<lambda>t. c_claim (rm_pc s t)) (length (rm_out s)) (rm_ch s) \<and>
     (\<forall>t. rpc_ok (ring_size (rm_ring s)) (rg_ring (rm_ring s)) (rm_in s) (length (rm_out s)) (rm_ch s) (rm_pt s) (rm_pc s t)) \<and>
     (\<forall>t. turn_ok (rm_pt s) (length (rm_out s)) (rm_pc s t))"

lemma ring_coreD:
  assumes "ring_core r xs ys pt ch"
  shows "ring_shape r" "rp_head r = of_nat (length xs)" "rp_tail r = of_nat pt" "rc_head r = of_nat ch" "rc_tail r = of_nat (length ys)"
    "length ys \<le> ch" "ch \<le> pt" "pt \<le> length xs" "length xs < length ys + ring_size r" "ys = take (length ys) xs"
    "\<And>p. length ys \<le> p \<Longrightarrow> p < pt \<Longrightarrow> rg_ring r ! (p mod ring_size r) = xs ! p"
  using assms unfolding ring_core_def by blast+

lemma ring_coreI:
  assumes "ring_shape r" "rp_head r = of_nat (length xs)" "rp_tail r = of_nat pt" "rc_head r = of_nat ch" "rc_tail r = of_nat (length ys)"
    "length ys \<le> ch" "ch \<le> pt" "pt \<le> length xs" "length xs < length ys + ring_size r" "ys = take (length ys) xs"
    "\<And>p. length ys \<le> p \<Longrightarrow> p < pt \<Longrightarrow> rg_ring r ! (p mod ring_size r) = xs ! p"
  shows "ring_core r xs ys pt ch"
  using assms unfolding ring_core_def by blast

text \<open>A step that only moves one thread.\<close>

lemma hring_inv_local:
  assumes inv: "hring_inv s" and c: "p_claim c = p_claim (rm_pc s t)" "c_claim c = c_claim (rm_pc s t)"
    and ok: "rpc_ok (ring_size (rm_ring s)) (rg_ring (rm_ring s)) (rm_in s) (length (rm_out s)) (rm_ch s) (rm_pt s) c"
    and turn: "turn_ok (rm_pt s) (length (rm_out s)) c"
  shows "hring_inv (s\<lparr>rm_pc := (rm_pc s)(t := c)\<rparr>)"
proof -
  have "(\<lambda>u. p_claim (rm_pc (s\<lparr>rm_pc := (rm_pc s)(t := c)\<rparr>) u)) = (\<lambda>u. p_claim (rm_pc s u))"
    "(\<lambda>u. c_claim (rm_pc (s\<lparr>rm_pc := (rm_pc s)(t := c)\<rparr>) u)) = (\<lambda>u. c_claim (rm_pc s u))"
    using c by (auto simp: fun_eq_iff)
  then show ?thesis using inv ok turn unfolding hring_inv_def by simp
qed

text \<open>The difference of two indices that stand for near positions.\<close>

lemma of_nat_diff_u32: "a \<le> b \<Longrightarrow> b < a + 2 ^ 32 \<Longrightarrow> unat (of_nat b - of_nat a :: u32) = b - a"
  using unat_of_nat [where 'a = 32, of "b - a"] by (simp add: of_nat_diff)

lemma of_nat_eq_near: "(of_nat a :: u32) = of_nat b \<Longrightarrow> a \<le> b \<Longrightarrow> b < a + 2 ^ 32 \<Longrightarrow> a = b"
  using of_nat_diff_u32 [of a b] by simp

text \<open>Positions less than a turn apart are in different entries.\<close>

lemma slot_near: "a mod N = b mod N \<Longrightarrow> a < b + N \<Longrightarrow> b < a + N \<Longrightarrow> a = (b :: nat)"
proof (induction a b rule: linorder_wlog)
  case (le a b)
  have "N dvd b - a" using le mod_eq_dvd_iff_nat [of a b N] by simp
  moreover have "b - a < N" using le by linarith
  ultimately show ?case using le(1) by (metis diff_is_0_eq dvd_imp_le le_antisym linorder_not_less neq0_conv)
qed auto

lemma hring_invD:
  assumes "hring_inv s"
  shows "ring_core (rm_ring s) (rm_in s) (rm_out s) (rm_pt s) (rm_ch s)" "tiles (\<lambda>t. p_claim (rm_pc s t)) (rm_pt s) (length (rm_in s))"
    "tiles (\<lambda>t. c_claim (rm_pc s t)) (length (rm_out s)) (rm_ch s)"
    "\<And>t. rpc_ok (ring_size (rm_ring s)) (rg_ring (rm_ring s)) (rm_in s) (length (rm_out s)) (rm_ch s) (rm_pt s) (rm_pc s t)"
    "\<And>t. turn_ok (rm_pt s) (length (rm_out s)) (rm_pc s t)"
  using assms unfolding hring_inv_def by blast+

text \<open>The room a producer finds is not more than there is.\<close>

lemma enq_room_le:
  assumes r: "ring_shape r" and p: "p < q + ring_size r" "q \<le> p" and e: "enq_room b m (rp_mask r + of_nat q - of_nat p) = Inr n"
  shows "p + unat n < q + ring_size r" "unat n \<le> unat m" "m \<noteq> 0 \<Longrightarrow> 0 < unat n"
proof -
  note S = ring_shapeD [OF r]
  obtain M where M: "ring_size r = Suc M" using S(3) by (cases "ring_size r") simp_all
  have "rp_mask r = of_nat (unat (rp_mask r))" by simp
  then have "rp_mask r = of_nat M" using S(5) M by simp
  then have "rp_mask r + of_nat q - of_nat p = of_nat (M + q) - of_nat p" by simp
  moreover have "unat (of_nat (M + q) - of_nat p :: u32) = M + q - p"
    using S(4) M p by (intro of_nat_diff_u32) simp_all
  ultimately have f: "unat (rp_mask r + of_nat q - of_nat p) = M + q - p" by simp
  have n: "n \<le> rp_mask r + of_nat q - of_nat p" "n \<le> m"
    using e by (auto simp: enq_room_def split: if_splits)
  have "unat n \<le> M + q - p" using n(1) f by (simp add: word_le_nat_alt)
  then show "p + unat n < q + ring_size r" using p(1) M by linarith
  show "unat n \<le> unat m" using n(2) by (simp add: word_le_nat_alt)
  show "0 < unat n" if "m \<noteq> 0" using e that by (auto simp: enq_room_def unat_gt_0 split: if_splits)
qed

lemma deq_room_le:
  assumes "p \<le> q" "q < p + 2 ^ 32" "deq_room b m (of_nat q - of_nat p) = Inr n"
  shows "p + unat n \<le> q" "m \<noteq> 0 \<Longrightarrow> 0 < unat n"
proof -
  show "0 < unat n" if "m \<noteq> 0" using assms(3) that by (auto simp: deq_room_def unat_gt_0 split: if_splits)
  have "n \<le> of_nat q - of_nat p" using assms(3) by (auto simp: deq_room_def split: if_splits)
  then show "p + unat n \<le> q" using of_nat_diff_u32 [OF assms(1,2)] assms(1) by (simp add: word_le_nat_alt)
qed

lemma inv_reserve:
  assumes inv: "hring_inv s" and fresh: "ring_fresh s"
    and pc: "rm_pc s t = Rp_tail objs b h c p q" and room: "enq_room b (of_nat (length objs)) (rp_mask (rm_ring s) + c - h) = Inr n"
    and cas: "rp_head (rm_ring s) = h"
  shows "hring_inv (s\<lparr>rm_ring := (rm_ring s)\<lparr>rp_head := h + n\<rparr>, rm_pc := (rm_pc s)(t := Rp_copy objs h n 0 (length (rm_in s))),
      rm_in := rm_in s @ take (unat n) objs\<rparr>)" (is "hring_inv ?s")
proof -
  note I = hring_invD [OF inv]
  note C = ring_coreD [OF I(1)]
  have ok: "length objs < 2 ^ 32" "h = of_nat p" "c = of_nat q" "p \<le> length (rm_in s)" "q \<le> length (rm_out s)" "p < q + ring_size (rm_ring s)"
    and ne: "objs \<noteq> []"
    using I(4) [of t] pc by simp_all
  have "length (rm_in s) < p + 2 ^ 32" using fresh pc unfolding ring_fresh_def by blast
  then have p: "p = length (rm_in s)" using of_nat_eq_near [of p "length (rm_in s)"] ok(2,4) C(2) cas by simp
  have qp: "q \<le> p" using ok(5) C(6-8) p by linarith
  note R = enq_room_le [OF C(1) ok(6) qp room [unfolded ok(2,3)]]
  have m: "unat (of_nat (length objs) :: u32) = length objs" using ok(1) by (simp add: unat_of_nat)
  then have len: "length (take (unat n) objs) = unat n" using R(2) by simp
  have "(of_nat (length objs) :: u32) \<noteq> 0" using m ne by (metis length_0_conv unat_0)
  then have n: "0 < unat n" by (rule R(3))
  have "ring_shape (rm_ring ?s)" using C(1) by (simp add: ring_shape_def)
  then have "ring_core (rm_ring ?s) (rm_in ?s) (rm_out ?s) (rm_pt ?s) (rm_ch ?s)"
    using C R(1) len ok(5) p ok(2) by (intro ring_coreI) (auto simp: nth_append of_nat_unat)
  moreover have "tiles (\<lambda>u. p_claim (rm_pc ?s u)) (rm_pt ?s) (length (rm_in ?s))"
  proof -
    have "(\<lambda>u. p_claim (rm_pc ?s u)) = (\<lambda>u. p_claim (rm_pc s u))(t := {length (rm_in s)..<length (rm_in s) + unat n})"
      by (auto simp: fun_eq_iff)
    then show ?thesis using tiles_claim [OF I(2), of t "unat n"] pc C(8) len by simp
  qed
  moreover have "tiles (\<lambda>u. c_claim (rm_pc ?s u)) (length (rm_out ?s)) (rm_ch ?s)"
  proof -
    have "(\<lambda>u. c_claim (rm_pc ?s u)) = (\<lambda>u. c_claim (rm_pc s u))" using pc by (auto simp: fun_eq_iff)
    then show ?thesis using I(3) by simp
  qed
  moreover have "rpc_ok (ring_size (rm_ring ?s)) (rg_ring (rm_ring ?s)) (rm_in ?s) (length (rm_out ?s)) (rm_ch ?s) (rm_pt ?s) (rm_pc ?s u)" for u
  proof (cases "u = t")
    case True
    then show ?thesis using len ok(2) p n by (auto simp: nth_append)
  next
    case False
    then show ?thesis using rpc_ok_mono [OF I(4) [of u]] by simp
  qed
  moreover have "turn_ok (rm_pt ?s) (length (rm_out ?s)) (rm_pc ?s u)" for u using I(5) [of u] by simp
  ultimately show ?thesis unfolding hring_inv_def by blast
qed

text \<open>A store hits an entry that no object in use has, except the one it belongs to.\<close>

lemma inv_store:
  assumes inv: "hring_inv s" and pc: "rm_pc s t = Rp_copy objs h n i p" and i: "i < unat n"
  shows "hring_inv (s\<lparr>rm_ring := (rm_ring s)\<lparr>rg_ring := (rg_ring (rm_ring s))[unat ((h + of_nat i) AND rp_mask (rm_ring s)) := objs ! i]\<rparr>,
      rm_pc := (rm_pc s)(t := Rp_copy objs h n (Suc i) p)\<rparr>)" (is "hring_inv ?s")
proof -
  note I = hring_invD [OF inv]
  note C = ring_coreD [OF I(1)]
  note S = ring_shapeD [OF C(1)]
  let ?N = "ring_size (rm_ring s)"
  have ok: "h = of_nat p" "i \<le> unat n" "p + unat n \<le> length (rm_in s)" "\<And>j. j < unat n \<Longrightarrow> rm_in s ! (p + j) = objs ! j"
    "\<And>j. j < i \<Longrightarrow> rg_ring (rm_ring s) ! ((p + j) mod ?N) = objs ! j"
    using I(4) [of t] pc by simp_all
  have "h + of_nat i = of_nat (p + i)" by (simp add: ok(1))
  then have slot: "unat ((h + of_nat i) AND rp_mask (rm_ring s)) = (p + i) mod ?N" using S(7) by metis
  let ?rg = "(rg_ring (rm_ring s))[(p + i) mod ?N := objs ! i]"
  have lo: "rm_pt s \<le> p + i" "p + i < length (rm_in s)" using tilesD(1) [OF I(2), of "p + i" t] pc i by simp_all
  have other: "?rg ! (x mod ?N) = rg_ring (rm_ring s) ! (x mod ?N)" if "length (rm_out s) \<le> x" "x < length (rm_in s)" "x \<noteq> p + i" for x
  proof -
    have "x mod ?N \<noteq> (p + i) mod ?N" using slot_near [of x ?N "p + i"] that lo C(6-9) by linarith
    then show ?thesis by simp
  qed
  have "ring_shape (rm_ring ?s)" using C(1) by (simp add: ring_shape_def)
  then have "ring_core (rm_ring ?s) (rm_in ?s) (rm_out ?s) (rm_pt ?s) (rm_ch ?s)"
    using C lo other by (intro ring_coreI) (simp_all add: slot)
  moreover have "(\<lambda>u. p_claim (rm_pc ?s u)) = (\<lambda>u. p_claim (rm_pc s u))" "(\<lambda>u. c_claim (rm_pc ?s u)) = (\<lambda>u. c_claim (rm_pc s u))"
    using pc by (auto simp: fun_eq_iff)
  moreover have "rpc_ok ?N ?rg (rm_in s) (length (rm_out s)) (rm_ch s) (rm_pt s) (rm_pc ?s u)" for u
  proof (cases "u = t")
    case True
    have "?rg ! ((p + j) mod ?N) = objs ! j" if "j < Suc i" for j
    proof (cases "j = i")
      case True
      then show ?thesis using S(2,3) by simp
    next
      case False
      then show ?thesis using that other [of "p + j"] ok(5) [of j] lo tilesD(1) [OF I(2), of "p + j" t] pc i C(6,7) by simp
    qed
    then show ?thesis using True ok i I(4) [of t] pc by simp
  next
    case False
    have "?rg ! (x mod ?N) = rg_ring (rm_ring s) ! (x mod ?N)" if "x \<in> p_claim (rm_pc s u)" for x
    proof -
      have "x \<noteq> p + i" using tilesD(2) [OF I(2), of "p + i" t u] that pc i False by auto
      then show ?thesis using other [of x] tilesD(1) [OF I(2) that] C(6,7) by simp
    qed
    then show ?thesis using False rpc_ok_mono [OF I(4) [of u], of _ _ _ ?rg "[]"] by simp
  qed
  moreover have "turn_ok (rm_pt s) (length (rm_out s)) (rm_pc ?s u)" for u using I(5) [of u] by simp
  ultimately show ?thesis using I(2,3) unfolding hring_inv_def by (simp add: slot)
qed

text \<open>The test of the tail: a call whose entries begin where the tail is has its turn.\<close>

lemma inv_turn:
  assumes inv: "hring_inv s" and pc: "rm_pc s t = Rp_copy objs h n (unat n) p" and tail: "rp_tail (rm_ring s) = h"
  shows "hring_inv (s\<lparr>rm_pc := (rm_pc s)(t := Rp_ready objs h n p)\<rparr>)"
proof -
  note I = hring_invD [OF inv]
  note C = ring_coreD [OF I(1)]
  note S = ring_shapeD [OF C(1)]
  have ok: "h = of_nat p" "0 < unat n" "p + unat n \<le> length (rm_in s)" using I(4) [of t] pc by simp_all
  have "rm_pt s \<le> p" using tilesD(1) [OF I(2), of p t] pc ok(2) by simp
  then have "p = rm_pt s" using of_nat_eq_near [of "rm_pt s" p] C(3,6-9) S(4) ok(1,3) tail by simp
  then show ?thesis using I(4) [of t] pc by (intro hring_inv_local [OF inv]) simp_all
qed

lemma inv_publish:
  assumes inv: "hring_inv s" and pc: "rm_pc s t = Rp_ready objs h n p"
  shows "hring_inv (s\<lparr>rm_ring := (rm_ring s)\<lparr>rp_tail := h + n\<rparr>, rm_pc := (rm_pc s)(t := Rg_idle), rm_pt := p + unat n\<rparr>)" (is "hring_inv ?s")
proof -
  note I = hring_invD [OF inv]
  note C = ring_coreD [OF I(1)]
  let ?N = "ring_size (rm_ring s)"
  have ok: "h = of_nat p" "0 < unat n" "p + unat n \<le> length (rm_in s)" "\<And>j. j < unat n \<Longrightarrow> rm_in s ! (p + j) = objs ! j"
    "\<And>j. j < unat n \<Longrightarrow> rg_ring (rm_ring s) ! ((p + j) mod ?N) = objs ! j" and p: "p = rm_pt s"
    using I(4) [of t] I(5) [of t] pc by simp_all
  have "rg_ring (rm_ring s) ! (x mod ?N) = rm_in s ! x" if "length (rm_out s) \<le> x" "x < rm_pt s + unat n" for x
  proof (cases "x < rm_pt s")
    case False
    then have "x = p + (x - p)" "x - p < unat n" using that(2) p by auto
    then show ?thesis using ok(4,5) [of "x - p"] by metis
  qed (use C(11) that in simp)
  moreover have "ring_shape (rm_ring ?s)" using C(1) by (simp add: ring_shape_def)
  ultimately have "ring_core (rm_ring ?s) (rm_in ?s) (rm_out ?s) (rm_pt ?s) (rm_ch ?s)"
    using C ok(1,3) p by (intro ring_coreI) simp_all
  moreover have "tiles (\<lambda>u. p_claim (rm_pc ?s u)) (rm_pt ?s) (length (rm_in ?s))"
  proof -
    have "(\<lambda>u. p_claim (rm_pc ?s u)) = (\<lambda>u. p_claim (rm_pc s u))(t := {})" by (auto simp: fun_eq_iff)
    then show ?thesis using tiles_publish [OF I(2), of t "unat n"] pc p by simp
  qed
  moreover have "(\<lambda>u. c_claim (rm_pc ?s u)) = (\<lambda>u. c_claim (rm_pc s u))" using pc by (auto simp: fun_eq_iff)
  moreover have "rpc_ok ?N (rg_ring (rm_ring s)) (rm_in s) (length (rm_out s)) (rm_ch s) (p + unat n) (rm_pc ?s u)" for u
    using rpc_ok_mono [OF I(4) [of u], of _ _ "p + unat n" _ "[]"] p by simp
  moreover have "turn_ok (p + unat n) (length (rm_out s)) (rm_pc ?s u)" for u
  proof (cases "rm_pc ?s u")
    case (Rp_ready objs' h' n' p')
    then have "u \<noteq> t" "rm_pc s u = Rp_ready objs' h' n' p'" by (auto split: if_splits)
    moreover from this have "rm_pt s \<in> p_claim (rm_pc s u)" using I(4) [of u] I(5) [of u] by simp
    moreover have "rm_pt s \<in> p_claim (rm_pc s t)" using pc p ok(2) by simp
    ultimately show ?thesis using tilesD(2) [OF I(2)] by blast
  qed (use I(5) [of u] in \<open>auto split: if_splits\<close>)
  ultimately show ?thesis using I(3) unfolding hring_inv_def by simp
qed

lemma inv_claim:
  assumes inv: "hring_inv s" and fresh: "ring_fresh s"
    and pc: "rm_pc s t = Rc_tail m b h c p q" and room: "deq_room b m (c - h) = Inr n" and cas: "rc_head (rm_ring s) = h"
  shows "hring_inv (s\<lparr>rm_ring := (rm_ring s)\<lparr>rc_head := h + n\<rparr>, rm_pc := (rm_pc s)(t := Rc_copy h n [] (rm_ch s)),
      rm_ch := rm_ch s + unat n\<rparr>)" (is "hring_inv ?s")
proof -
  note I = hring_invD [OF inv]
  note C = ring_coreD [OF I(1)]
  note S = ring_shapeD [OF C(1)]
  have ok: "h = of_nat p" "c = of_nat q" "p \<le> rm_ch s" "q \<le> rm_pt s" "p \<le> q" "m \<noteq> 0" using I(4) [of t] pc by simp_all
  have "rm_ch s < p + 2 ^ 32" using fresh pc unfolding ring_fresh_def by blast
  then have p: "p = rm_ch s" using of_nat_eq_near [of p "rm_ch s"] ok(1,3) C(4) cas by simp
  have "q < p + 2 ^ 32" using ok(4) C(6-9) S(4) p by simp
  from deq_room_le [OF ok(5) this room [unfolded ok(1,2)]] have n: "rm_ch s + unat n \<le> rm_pt s" "0 < unat n" using ok(4,6) p by simp_all
  have "ring_shape (rm_ring ?s)" using C(1) by (simp add: ring_shape_def)
  then have "ring_core (rm_ring ?s) (rm_in ?s) (rm_out ?s) (rm_pt ?s) (rm_ch ?s)"
    using C n ok(1) p by (intro ring_coreI) simp_all
  moreover have "tiles (\<lambda>u. c_claim (rm_pc ?s u)) (length (rm_out ?s)) (rm_ch ?s)"
  proof -
    have "(\<lambda>u. c_claim (rm_pc ?s u)) = (\<lambda>u. c_claim (rm_pc s u))(t := {rm_ch s..<rm_ch s + unat n})" by (auto simp: fun_eq_iff)
    then show ?thesis using tiles_claim [OF I(3), of t "unat n"] pc C(6) by simp
  qed
  moreover have "(\<lambda>u. p_claim (rm_pc ?s u)) = (\<lambda>u. p_claim (rm_pc s u))" using pc by (auto simp: fun_eq_iff)
  moreover have "rpc_ok (ring_size (rm_ring s)) (rg_ring (rm_ring s)) (rm_in s) (length (rm_out s)) (rm_ch s + unat n) (rm_pt s) (rm_pc ?s u)" for u
  proof (cases "u = t")
    case True
    then show ?thesis using ok(1) p n C(8) by simp
  next
    case False
    then show ?thesis using rpc_ok_mono [OF I(4) [of u], of _ "rm_ch s + unat n" _ _ "[]"] by simp
  qed
  moreover have "turn_ok (rm_pt s) (length (rm_out s)) (rm_pc ?s u)" for u using I(5) [of u] by simp
  ultimately show ?thesis using I(2) unfolding hring_inv_def by simp
qed

lemma inv_load:
  assumes inv: "hring_inv s" and pc: "rm_pc s t = Rc_copy h n got p" and l: "length got < unat n"
  shows "hring_inv (s\<lparr>rm_pc := (rm_pc s)(t := Rc_copy h n
      (got @ [rg_ring (rm_ring s) ! unat ((h + of_nat (length got)) AND rp_mask (rm_ring s))]) p)\<rparr>)"
proof -
  note I = hring_invD [OF inv]
  note C = ring_coreD [OF I(1)]
  note S = ring_shapeD [OF C(1)]
  have ok: "h = of_nat p" "p + unat n \<le> length (rm_in s)" "\<And>j. j < length got \<Longrightarrow> got ! j = rm_in s ! (p + j)"
    using I(4) [of t] pc by simp_all
  have "h + of_nat (length got) = of_nat (p + length got)" by (simp add: ok(1))
  then have "unat ((h + of_nat (length got)) AND rp_mask (rm_ring s)) = (p + length got) mod ring_size (rm_ring s)" using S(7) by metis
  moreover have "rg_ring (rm_ring s) ! ((p + length got) mod ring_size (rm_ring s)) = rm_in s ! (p + length got)"
    using tilesD(1) [OF I(3), of "p + length got" t] pc l C(7) by (intro C(11)) simp_all
  ultimately show ?thesis
    using ok l pc by (intro hring_inv_local [OF inv]) (auto simp: nth_append less_Suc_eq)
qed

lemma inv_turn_out:
  assumes inv: "hring_inv s" and pc: "rm_pc s t = Rc_copy h n got p" and l: "length got = unat n" and tail: "rc_tail (rm_ring s) = h"
  shows "hring_inv (s\<lparr>rm_pc := (rm_pc s)(t := Rc_ready h n got p)\<rparr>)"
proof -
  note I = hring_invD [OF inv]
  note C = ring_coreD [OF I(1)]
  note S = ring_shapeD [OF C(1)]
  have ok: "h = of_nat p" "0 < unat n" "p + unat n \<le> length (rm_in s)" using I(4) [of t] pc by simp_all
  have "length (rm_out s) \<le> p" using tilesD(1) [OF I(3), of p t] pc ok(2) by simp
  then have "p = length (rm_out s)" using of_nat_eq_near [of "length (rm_out s)" p] C(5-9) S(4) ok(1,3) tail by simp
  then show ?thesis using I(4) [of t] pc l by (intro hring_inv_local [OF inv]) simp_all
qed

lemma inv_deliver:
  assumes inv: "hring_inv s" and pc: "rm_pc s t = Rc_ready h n got p"
  shows "hring_inv (s\<lparr>rm_ring := (rm_ring s)\<lparr>rc_tail := h + n\<rparr>, rm_pc := (rm_pc s)(t := Rg_idle), rm_out := rm_out s @ got\<rparr>)" (is "hring_inv ?s")
proof -
  note I = hring_invD [OF inv]
  note C = ring_coreD [OF I(1)]
  have ok: "h = of_nat p" "0 < unat n" "p + unat n \<le> length (rm_in s)" "\<And>j. j < unat n \<Longrightarrow> got ! j = rm_in s ! (p + j)"
    and l: "length got = unat n" and p: "p = length (rm_out s)"
    using I(4) [of t] I(5) [of t] pc by simp_all
  obtain m where m: "unat n = Suc m" using ok(2) by (cases "unat n") simp_all
  have le: "length (rm_out s) + unat n \<le> rm_ch s"
    using tilesD(1) [OF I(3), of "p + m" t] pc p m by simp
  have got: "got = take (unat n) (drop (length (rm_out s)) (rm_in s))"
    using p ok(3,4) l by (intro nth_equalityI) auto
  have "rm_out s @ got = take (length (rm_out s) + unat n) (rm_in s)"
    using C(10) got by (metis take_add)
  moreover have "ring_shape (rm_ring ?s)" using C(1) by (simp add: ring_shape_def)
  ultimately have "ring_core (rm_ring ?s) (rm_in ?s) (rm_out ?s) (rm_pt ?s) (rm_ch ?s)"
    using C le ok(1) p l by (intro ring_coreI) simp_all
  moreover have "tiles (\<lambda>u. c_claim (rm_pc ?s u)) (length (rm_out ?s)) (rm_ch ?s)"
  proof -
    have "(\<lambda>u. c_claim (rm_pc ?s u)) = (\<lambda>u. c_claim (rm_pc s u))(t := {})" by (auto simp: fun_eq_iff)
    then show ?thesis using tiles_publish [OF I(3), of t "unat n"] pc p l by simp
  qed
  moreover have "(\<lambda>u. p_claim (rm_pc ?s u)) = (\<lambda>u. p_claim (rm_pc s u))" using pc by (auto simp: fun_eq_iff)
  moreover have "rpc_ok (ring_size (rm_ring s)) (rg_ring (rm_ring s)) (rm_in s) (length (rm_out s) + unat n) (rm_ch s) (rm_pt s) (rm_pc ?s u)" for u
    using rpc_ok_mono [OF I(4) [of u], of "length (rm_out s) + unat n" _ _ _ "[]"] by simp
  moreover have "turn_ok (rm_pt s) (length (rm_out s) + unat n) (rm_pc ?s u)" for u
  proof (cases "rm_pc ?s u")
    case (Rc_ready h' n' got' p')
    then have "u \<noteq> t" "rm_pc s u = Rc_ready h' n' got' p'" by (auto split: if_splits)
    moreover from this have "length (rm_out s) \<in> c_claim (rm_pc s u)" using I(4) [of u] I(5) [of u] by simp
    moreover have "length (rm_out s) \<in> c_claim (rm_pc s t)" using pc p ok(2) by simp
    ultimately show ?thesis using tilesD(2) [OF I(3)] by blast
  qed (use I(5) [of u] in \<open>auto split: if_splits\<close>)
  ultimately show ?thesis using I(2) l unfolding hring_inv_def by simp
qed

lemma ring_step_inv:
  assumes "hring_inv s" "ring_fresh s" "ring_step s s'" "ring_calls_pos s'"
  shows "hring_inv s'"
  using assms(3)
proof cases
  case (p_call t objs b)
  then have "rm_pc s' t = Rp_start objs b" by simp
  then have "objs \<noteq> []" using assms(4) unfolding ring_calls_pos_def by blast
  with p_call show ?thesis by (auto intro!: hring_inv_local [OF assms(1)])
next
  case (c_call t n b)
  then have "rm_pc s' t = Rc_start n b" by simp
  then have "n \<noteq> 0" using assms(4) unfolding ring_calls_pos_def by blast
  with c_call show ?thesis by (auto intro!: hring_inv_local [OF assms(1)])
next
  case (c_retry t n b h c p q n')
  then show ?thesis using hring_invD(4) [OF assms(1), of t] by (auto intro!: hring_inv_local [OF assms(1)])
next
  case (p_head t objs b)
  note I = hring_invD [OF assms(1)] and C = ring_coreD [OF hring_invD(1) [OF assms(1)]]
  show ?thesis unfolding p_head(1) using p_head(2) C(2,9) I(4) [of t] by (intro hring_inv_local [OF assms(1)]) simp_all
next
  case (p_tail t objs b h p)
  note I = hring_invD [OF assms(1)] and C = ring_coreD [OF hring_invD(1) [OF assms(1)]]
  show ?thesis unfolding p_tail(1) using p_tail(2) C(5) I(4) [of t] by (intro hring_inv_local [OF assms(1)]) simp_all
next
  case (p_retry t objs b h c p q n)
  then show ?thesis using hring_invD(4) [OF assms(1), of t] by (auto intro!: hring_inv_local [OF assms(1)])
next
  case (c_head t n b)
  note I = hring_invD [OF assms(1)] and C = ring_coreD [OF hring_invD(1) [OF assms(1)]]
  show ?thesis unfolding c_head(1) using c_head(2) C(4) I(4) [of t] by (intro hring_inv_local [OF assms(1)]) simp_all
next
  case (c_tail t n b h p)
  note I = hring_invD [OF assms(1)] and C = ring_coreD [OF hring_invD(1) [OF assms(1)]]
  show ?thesis unfolding c_tail(1) using c_tail(2) C(3,7) I(4) [of t] by (intro hring_inv_local [OF assms(1)]) simp_all
qed (use assms(1,2) inv_reserve inv_store inv_turn inv_publish inv_claim inv_load inv_turn_out inv_deliver in
    \<open>auto intro!: hring_inv_local [OF assms(1)]\<close>)

subsection \<open>Creation\<close>

lemma power_of_two_nat: "n \<noteq> 0 \<Longrightarrow> (n - 1) AND n = 0 \<Longrightarrow> \<exists>k. n = 2 ^ k" for n :: nat
proof (induction n rule: less_induct)
  case (less n)
  show ?case
  proof (cases "even n")
    case True
    then obtain m where m: "n = 2 * m" by blast
    have "(n - 1) div 2 = m - 1" "n div 2 = m" using m less.prems(1) by auto
    moreover have "((n - 1) div 2) AND (n div 2) = 0" using less.prems(2) by (subst (asm) and_rec) auto
    ultimately obtain k where "m = 2 ^ k" using less.IH [of m] less.prems(1) m by auto
    then show ?thesis using m by (intro exI [of _ "Suc k"]) simp
  next
    case False
    then obtain m where m: "n = 2 * m + 1" by (elim oddE)
    have "((n - 1) div 2) AND (n div 2) = 0" using less.prems(2) by (subst (asm) and_rec) auto
    then have "m = 0" using m by simp
    then show ?thesis using m by (intro exI [of _ 0]) simp
  qed
qed

lemma ring_create_shape:
  assumes c: "odph_ring_create malloc mem s_ring name count flags rs = Some (a, rs1)" and a: "a \<noteq> 0" and n: "count \<noteq> 0"
  shows "ring_shape (rgs_ring rs1 a)" "rp_size (rgs_ring rs1 a) = count" "rp_head (rgs_ring rs1 a) = 0" "rp_tail (rgs_ring rs1 a) = 0"
    "rc_head (rgs_ring rs1 a) = 0" "rc_tail (rgs_ring rs1 a) = 0"
proof -
  let ?r = "rgs_ring rs1 a"
  have C: "RING_VAL_IS_POWER_2 count \<and> count \<le> ODPH_RING_SZ_MASK \<and> rp_size ?r = count \<and> rc_size ?r = count \<and> rp_mask ?r = count - 1 \<and>
      length (rg_ring ?r) = unat count \<and> rp_head ?r = 0 \<and> rp_tail ?r = 0 \<and> rc_head ?r = 0 \<and> rc_tail ?r = 0"
    using c a by (auto simp: odph_ring_create_def Let_def not_less bind_eq_Some_conv split: if_splits)
  then show "rp_size ?r = count" "rp_head ?r = 0" "rp_tail ?r = 0" "rc_head ?r = 0" "rc_tail ?r = 0" by blast+
  have "unat ((count - 1) AND count) = 0" using C by (simp add: RING_VAL_IS_POWER_2_def)
  then have "(unat count - 1) AND unat count = 0" by (simp add: unsigned_and_eq unat_minus_one [OF n])
  then obtain k where k: "unat count = 2 ^ k" using power_of_two_nat [of "unat count"] n by (auto simp: unat_eq_zero)
  have "unat count \<le> unat ODPH_RING_SZ_MASK" using C by (simp add: word_le_nat_alt)
  then have "(2 :: nat) ^ k < 2 ^ 28" using k by (simp add: ODPH_RING_SZ_MASK_def)
  then have "k < 28" by (rule power_less_imp_less_exp [rotated]) simp
  then show "ring_shape ?r" using C k unfolding ring_shape_def by (intro conjI exI [of _ k]) auto
qed

lemma ring_start_inv:
  assumes "ring_shape r" "rp_head r = 0" "rp_tail r = 0" "rc_head r = 0" "rc_tail r = 0"
  shows "hring_inv (ring_start r)"
proof -
  have "ring_core r [] [] 0 0" using assms ring_shapeD(3) [OF assms(1)] by (intro ring_coreI) simp_all
  then show ?thesis by (simp add: hring_inv_def ring_start_def tiles_def)
qed

interpretation hr: invariant_system
  "\<lambda>s. \<exists>r. s = ring_start r \<and> ring_shape r \<and> rp_head r = 0 \<and> rp_tail r = 0 \<and> rc_head r = 0 \<and> rc_tail r = 0"
  "\<lambda>s s'. ring_step s s' \<and> ring_fresh s' \<and> ring_calls_pos s'" "\<lambda>s. hring_inv s \<and> ring_fresh s"
proof unfold_locales
  fix s
  assume "\<exists>r. s = ring_start r \<and> ring_shape r \<and> rp_head r = 0 \<and> rp_tail r = 0 \<and> rc_head r = 0 \<and> rc_tail r = 0"
  then obtain r where "s = ring_start r" "ring_shape r" "rp_head r = 0" "rp_tail r = 0" "rc_head r = 0" "rc_tail r = 0" by blast
  then show "hring_inv s \<and> ring_fresh s" using ring_start_inv [of r] by (simp add: ring_fresh_def ring_start_def)
qed (use ring_step_inv in blast)

subsection \<open>Progress\<close>

text \<open>Calls that have reserved entries and not yet released them, and those of them that can take a step: to copy an object, to
  find the tail at their position, or to move it.\<close>

fun p_can :: "odph_ring_t \<Rightarrow> ring_pc \<Rightarrow> bool" where
  "p_can r (Rp_copy objs h n i p) \<longleftrightarrow> i < unat n \<or> i = unat n \<and> rp_tail r = h"
| "p_can r (Rp_ready objs h n p) \<longleftrightarrow> True"
| "p_can r _ \<longleftrightarrow> False"

fun c_can :: "odph_ring_t \<Rightarrow> ring_pc \<Rightarrow> bool" where
  "c_can r (Rc_copy h n got p) \<longleftrightarrow> length got < unat n \<or> length got = unat n \<and> rc_tail r = h"
| "c_can r (Rc_ready h n got p) \<longleftrightarrow> True"
| "c_can r _ \<longleftrightarrow> False"

lemma ring_progress:
  assumes inv: "hring_inv s"
  shows "p_claim (rm_pc s t) \<noteq> {} \<Longrightarrow> \<exists>u. p_can (rm_ring s) (rm_pc s u)"
    "c_claim (rm_pc s t) \<noteq> {} \<Longrightarrow> \<exists>u. c_can (rm_ring s) (rm_pc s u)"
proof -
  note I = hring_invD [OF inv]
  note C = ring_coreD [OF I(1)]
  show "\<exists>u. p_can (rm_ring s) (rm_pc s u)" if ne: "p_claim (rm_pc s t) \<noteq> {}"
  proof -
    obtain x where "x \<in> p_claim (rm_pc s t)" using ne by blast
    then have "rm_pt s < length (rm_in s)" using tilesD(1) [OF I(2), of x t] by simp
    then obtain u where u: "rm_pt s \<in> p_claim (rm_pc s u)" using tilesD(3) [OF I(2), of "rm_pt s"] by blast
    have "p_can (rm_ring s) (rm_pc s u)"
    proof (cases "rm_pc s u")
      case (Rp_copy objs h n i p)
      then have "p \<in> p_claim (rm_pc s u)" "p \<le> rm_pt s" using u by auto
      then have "p = rm_pt s" using tilesD(1) [OF I(2), of p u] by simp
      then show ?thesis using I(4) [of u] Rp_copy C(3) by auto
    qed (use u in simp_all)
    then show ?thesis by blast
  qed
  show "\<exists>u. c_can (rm_ring s) (rm_pc s u)" if ne: "c_claim (rm_pc s t) \<noteq> {}"
  proof -
    obtain x where "x \<in> c_claim (rm_pc s t)" using ne by blast
    then have "length (rm_out s) < rm_ch s" using tilesD(1) [OF I(3), of x t] by simp
    then obtain u where u: "length (rm_out s) \<in> c_claim (rm_pc s u)" using tilesD(3) [OF I(3), of "length (rm_out s)"] by blast
    have "c_can (rm_ring s) (rm_pc s u)"
    proof (cases "rm_pc s u")
      case (Rc_copy h n got p)
      then have "p \<in> c_claim (rm_pc s u)" "p \<le> length (rm_out s)" using u by auto
      then have "p = length (rm_out s)" using tilesD(1) [OF I(3), of p u] by simp
      then show ?thesis using I(4) [of u] Rc_copy C(5) by auto
    qed (use u in simp_all)
    then show ?thesis by blast
  qed
qed

section \<open>One call at a time\<close>

text \<open>A ring at rest that holds \<open>xs\<close>.\<close>

definition hring_rep :: "odph_ring_t \<Rightarrow> u32 list \<Rightarrow> bool" where
  "hring_rep r xs \<longleftrightarrow> ring_shape r \<and> rp_head r = rp_tail r \<and> rc_head r = rc_tail r \<and> length xs < ring_size r \<and>
     rp_tail r = rc_tail r + of_nat (length xs) \<and> (\<forall>j < length xs. rg_ring r ! ((unat (rc_tail r) + j) mod ring_size r) = xs ! j)"

lemma hring_repD:
  assumes "hring_rep r xs"
  shows "ring_shape r" "rp_head r = rp_tail r" "rc_head r = rc_tail r" "length xs < ring_size r" "rp_tail r = rc_tail r + of_nat (length xs)"
    "\<And>j. j < length xs \<Longrightarrow> rg_ring r ! ((unat (rc_tail r) + j) mod ring_size r) = xs ! j"
  using assms unfolding hring_rep_def by blast+

lemma hring_count:
  assumes "hring_rep r xs"
  shows "unat (rp_tail r - rc_tail r) = length xs" "unat (rp_mask r + rc_tail r - rp_tail r) = ring_size r - 1 - length xs"
proof -
  note D = hring_repD [OF assms]
  note S = ring_shapeD [OF D(1)]
  have l: "unat (of_nat (length xs) :: u32) = length xs" using D(4) S(4) by (simp add: unat_of_nat)
  then show "unat (rp_tail r - rc_tail r) = length xs" by (simp add: D(5))
  have e: "rp_mask r + rc_tail r - rp_tail r = rp_mask r - of_nat (length xs)" by (simp add: D(5))
  have "unat (rp_mask r - of_nat (length xs)) = unat (rp_mask r) - length xs"
    using l D(4) S(5) by (subst unat_sub) (simp_all add: word_le_nat_alt)
  then show "unat (rp_mask r + rc_tail r - rp_tail r) = ring_size r - 1 - length xs" unfolding e S(5) .
qed

text \<open>The slots from a masked index on; the size divides the range of the indices.\<close>

lemma slot_add:
  fixes x :: u32
  assumes "ring_shape r"
  shows "(unat (x + of_nat k) + j) mod ring_size r = (unat x + (k + j)) mod ring_size r"
proof -
  have "x + of_nat k = of_nat (unat x + k)" by simp
  then have "unat ((x + of_nat k) AND rp_mask r) = (unat x + k) mod ring_size r" using ring_shapeD(7) [OF assms] by metis
  then have "unat (x + of_nat k) mod ring_size r = (unat x + k) mod ring_size r" using ring_shapeD(6) [OF assms] by simp
  then have "(unat (x + of_nat k) + j) mod ring_size r = (unat x + k + j) mod ring_size r" by (rule mod_add_cong) simp
  then show ?thesis by (simp add: add.assoc)
qed

lemma foldl_stores:
  assumes "inj_on f {..<n}" "\<forall>i < n. f i < length rg"
  shows "length (foldl (\<lambda>rg j. rg[f j := v j]) rg [0..<n]) = length rg"
    "i < n \<Longrightarrow> foldl (\<lambda>rg j. rg[f j := v j]) rg [0..<n] ! f i = v i"
    "(\<And>j. j < n \<Longrightarrow> f j \<noteq> x) \<Longrightarrow> foldl (\<lambda>rg j. rg[f j := v j]) rg [0..<n] ! x = rg ! x"
proof -
  have l: "length (foldl (\<lambda>rg j. rg[f j := v j]) rg [0..<m]) = length rg" for m by (induction m) simp_all
  show "length (foldl (\<lambda>rg j. rg[f j := v j]) rg [0..<n]) = length rg" by (rule l)
  show "foldl (\<lambda>rg j. rg[f j := v j]) rg [0..<n] ! x = rg ! x" if "\<And>j. j < n \<Longrightarrow> f j \<noteq> x"
    using that by (induction n) simp_all
  have "foldl (\<lambda>rg j. rg[f j := v j]) rg [0..<m] ! f i = v i" if "i < m" "m \<le> n" for m i
    using that
  proof (induction m)
    case (Suc m)
    show ?case
    proof (cases "i = m")
      case False
      then have "f m \<noteq> f i" using assms(1) Suc.prems by (auto simp: inj_on_def)
      then show ?thesis using Suc False by simp
    qed (use assms(2) l Suc.prems in simp)
  qed simp
  then show "i < n \<Longrightarrow> foldl (\<lambda>rg j. rg[f j := v j]) rg [0..<n] ! f i = v i" by simp
qed

lemma enqueue_rep:
  assumes rep: "hring_rep r xs" and n: "length xs + unat n < ring_size r" "unat n \<le> length objs"
  shows "hring_rep (r\<lparr>rp_head := rp_head r + n, rg_ring := ENQUEUE_PTRS (r\<lparr>rp_head := rp_head r + n\<rparr>) (rp_mask r) (rp_head r) objs n,
      rp_tail := rp_head r + n\<rparr>) (xs @ take (unat n) objs)" (is "hring_rep ?r _")
proof -
  note D = hring_repD [OF rep]
  note S = ring_shapeD [OF D(1)]
  let ?N = "ring_size r" and ?f = "\<lambda>j. (unat (rc_tail r) + (length xs + j)) mod ring_size r"
  have sh: "ring_shape (r\<lparr>rp_head := rp_head r + n\<rparr>)" using D(1) by (simp add: ring_shape_def)
  have sl: "(unat (rp_head r) + j) mod ?N = ?f j" for j unfolding D(2) D(5) by (rule slot_add [OF D(1)])
  have nN: "unat n < ring_size (r\<lparr>rp_head := rp_head r + n\<rparr>)" using n(1) by simp
  have E: "rg_ring ?r = foldl (\<lambda>rg j. rg[?f j := objs ! j]) (rg_ring r) [0..<unat n]"
    using ENQUEUE_PTRS_stores [OF sh nN, of "rp_head r" objs] by (simp add: sl)
  have inj: "inj_on ?f {..<unat n}"
  proof (rule inj_onI)
    fix i j assume ij: "i \<in> {..<unat n}" "j \<in> {..<unat n}" "?f i = ?f j"
    have "unat (rc_tail r) + (length xs + i) = unat (rc_tail r) + (length xs + j)"
      by (rule slot_near [OF ij(3)]) (use ij(1,2) n(1) in simp)+
    then show "i = j" by linarith
  qed
  have lt: "\<forall>i < unat n. ?f i < length (rg_ring r)" using S(2,3) by simp
  note F = foldl_stores [where v = "\<lambda>j. objs ! j", OF inj lt]
  have old: "?f j \<noteq> (unat (rc_tail r) + i) mod ?N" if "j < unat n" "i < length xs" for i j
  proof
    assume e: "?f j = (unat (rc_tail r) + i) mod ?N"
    have "unat (rc_tail r) + (length xs + j) = unat (rc_tail r) + i"
      by (rule slot_near [OF e]) (use that n(1) in linarith)+
    then show False using that(2) by linarith
  qed
  have "rg_ring ?r ! ((unat (rc_tail r) + j) mod ?N) = (xs @ take (unat n) objs) ! j" if j: "j < length xs + unat n" for j
  proof (cases "j < length xs")
    case True
    have "rg_ring ?r ! ((unat (rc_tail r) + j) mod ?N) = rg_ring r ! ((unat (rc_tail r) + j) mod ?N)"
      unfolding E by (rule F(3)) (rule old [OF _ True])
    then show ?thesis using True D(6) [OF True] by (simp only: nth_append if_True)
  next
    case False
    then have k: "j - length xs < unat n" "length xs + (j - length xs) = j" using j by linarith+
    have "rg_ring ?r ! ((unat (rc_tail r) + j) mod ?N) = objs ! (j - length xs)"
      unfolding E using F(2) [OF k(1)] k(2) by simp
    then show ?thesis using False k(1) by (simp only: nth_append if_False nth_take)
  qed
  moreover have "length (rg_ring ?r) = length (rg_ring r)" unfolding E by (rule F(1))
  moreover have hd: "rp_head r + n = rc_tail r + of_nat (length xs + unat n)" unfolding D(2) D(5) by simp
  define r' where "r' = ?r"
  ultimately have "\<forall>j < length xs + unat n. rg_ring r' ! ((unat (rc_tail r) + j) mod ?N) = (xs @ take (unat n) objs) ! j"
    "length (rg_ring r') = length (rg_ring r)" by simp_all
  moreover have "rp_head r' = rp_tail r'" "rc_head r' = rc_tail r'" "rp_tail r' = rc_tail r' + of_nat (length xs + unat n)" "rc_tail r' = rc_tail r"
    "rp_size r' = rp_size r" "rc_size r' = rc_size r" "rp_mask r' = rp_mask r" unfolding r'_def using hd D(3) by simp_all
  ultimately have "hring_rep r' (xs @ take (unat n) objs)" using n D(1) unfolding hring_rep_def ring_shape_def by simp
  then show ?thesis unfolding r'_def .
qed

lemma dequeue_rep:
  assumes rep: "hring_rep r xs" and n: "unat n \<le> length xs"
  shows "hring_rep (r\<lparr>rc_head := rc_head r + n, rc_tail := rc_head r + n\<rparr>) (drop (unat n) xs)"
    "DEQUEUE_PTRS (r\<lparr>rc_head := rc_head r + n\<rparr>) (rp_mask r) (rc_head r) n = take (unat n) xs"
proof -
  note D = hring_repD [OF rep]
  have "ring_shape (r\<lparr>rc_head := rc_head r + n\<rparr>)" using D(1) by (simp add: ring_shape_def)
  from DEQUEUE_PTRS_loads [OF this, of n "rc_head r"] n D(4)
  show "DEQUEUE_PTRS (r\<lparr>rc_head := rc_head r + n\<rparr>) (rp_mask r) (rc_head r) n = take (unat n) xs"
    by (simp add: D(3)) (rule nth_equalityI, auto simp: D(6))
  have "rg_ring r ! ((unat (rc_head r + n) + j) mod ring_size r) = drop (unat n) xs ! j" if "j < length xs - unat n" for j
    using slot_add [OF D(1), of "rc_head r" "unat n" j] D(3) D(6) [of "unat n + j"] that by simp
  moreover have "rp_tail r = rc_head r + n + of_nat (length xs - unat n)" using D(3,5) n by (simp add: of_nat_diff)
  ultimately show "hring_rep (r\<lparr>rc_head := rc_head r + n, rc_tail := rc_head r + n\<rparr>) (drop (unat n) xs)"
    using D n by (simp add: hring_rep_def ring_shape_def)
qed

text \<open>How many of \<open>n\<close> objects a call takes when there is room for \<open>m\<close>.\<close>

definition taken :: "odph_ring_queue_behavior \<Rightarrow> nat \<Rightarrow> nat \<Rightarrow> nat" where
  "taken b m n = (if n \<le> m then n else if b = ODPH_RING_QUEUE_FIXED then 0 else m)"

lemma sp_enqueue_correct:
  assumes rep: "hring_rep r xs" and n: "length objs = unat n"
  shows "\<exists>ret r'. ring_sp_do_enqueue r objs n b = (ret, r') \<and> ring_mp_do_enqueue r objs n b = Some (ret, r') \<and> hring_rep r' (xs @ take (taken b (ring_size r - 1 - length xs) (unat n)) objs) \<and>
    (ret = Ring_err ENOBUFS \<longleftrightarrow> b = ODPH_RING_QUEUE_FIXED \<and> ring_size r - 1 - length xs < unat n)"
proof -
  note D = hring_repD [OF rep]
  let ?free = "rp_mask r + rc_tail r - rp_head r"
  have f: "unat ?free = ring_size r - 1 - length xs" using hring_count(2) [OF rep] D(2) by simp
  have ne: "enq_ret r1 b m f n' \<noteq> Ring_err ENOBUFS" for r1 m f n' by (simp add: enq_ret_def)
  show ?thesis
  proof (cases "enq_room b n ?free")
    case (Inl ret)
    then have l: "?free < n" and ret: "ret = (if b = ODPH_RING_QUEUE_FIXED then Ring_err ENOBUFS else Ring_ret 0)"
      and z: "b = ODPH_RING_QUEUE_FIXED \<or> ?free = 0" by (auto simp: enq_room_def split: if_splits)
    have lt: "ring_size r - 1 - length xs < unat n" using l f by (simp add: word_less_nat_alt)
    moreover have "b = ODPH_RING_QUEUE_FIXED \<or> ring_size r - 1 - length xs = 0" using z f by auto
    ultimately have "taken b (ring_size r - 1 - length xs) (unat n) = 0" unfolding taken_def by auto
    then show ?thesis using Inl rep ret lt by (simp add: ring_sp_do_enqueue_def ring_mp_do_enqueue_def Let_def)
  next
    case (Inr m)
    then have m: "unat m = taken b (ring_size r - 1 - length xs) (unat n)" "b = ODPH_RING_QUEUE_FIXED \<longrightarrow> \<not> ring_size r - 1 - length xs < unat n"
      using f unfolding taken_def by (auto simp: enq_room_def word_less_nat_alt split: if_splits)
    have "length xs + unat m < ring_size r" "unat m \<le> length objs" using m(1) n D(4) unfolding taken_def by (auto split: if_splits)
    from enqueue_rep [OF rep this]
    show ?thesis using Inr m ne D(2) by (simp add: ring_sp_do_enqueue_def ring_mp_do_enqueue_def Let_def)
  qed
qed

lemma sc_dequeue_correct:
  assumes rep: "hring_rep r xs"
  shows "\<exists>ret r'. ring_sc_do_dequeue r n b = (ret, take (taken b (length xs) (unat n)) xs, r') \<and> ring_mc_do_dequeue r n b = Some (ret, take (taken b (length xs) (unat n)) xs, r') \<and>
    hring_rep r' (drop (taken b (length xs) (unat n)) xs) \<and> (ret = Ring_err ENOENT \<longleftrightarrow> b = ODPH_RING_QUEUE_FIXED \<and> length xs < unat n)"
proof -
  note D = hring_repD [OF rep]
  have f: "unat (rp_tail r - rc_head r) = length xs" using hring_count(1) [OF rep] D(3) by simp
  show ?thesis
  proof (cases "deq_room b n (rp_tail r - rc_head r)")
    case (Inl ret)
    then have l: "rp_tail r - rc_head r < n" and ret: "ret = (if b = ODPH_RING_QUEUE_FIXED then Ring_err ENOENT else Ring_ret 0)"
      and z: "b = ODPH_RING_QUEUE_FIXED \<or> rp_tail r - rc_head r = 0" by (auto simp: deq_room_def split: if_splits)
    have lt: "length xs < unat n" using l f by (simp add: word_less_nat_alt)
    moreover have "b = ODPH_RING_QUEUE_FIXED \<or> length xs = 0" using z f by auto
    ultimately have "taken b (length xs) (unat n) = 0" unfolding taken_def by auto
    then show ?thesis using Inl rep ret lt by (simp add: ring_sc_do_dequeue_def ring_mc_do_dequeue_def Let_def)
  next
    case (Inr m)
    then have m: "unat m = taken b (length xs) (unat n)" "b = ODPH_RING_QUEUE_FIXED \<longrightarrow> \<not> length xs < unat n"
      using f unfolding taken_def by (auto simp: deq_room_def word_less_nat_alt split: if_splits)
    have "unat m \<le> length xs" using m(1) unfolding taken_def by (auto split: if_splits)
    from dequeue_rep [OF rep this]
    show ?thesis using Inr m D(3) by (simp add: ring_sc_do_dequeue_def ring_mc_do_dequeue_def Let_def deq_ret_def)
  qed
qed

lemma ring_status:
  assumes rep: "hring_rep r xs"
  shows "unat (odph_ring_count r) = length xs" "unat (odph_ring_free_count r) = ring_size r - 1 - length xs"
    "odph_ring_full r \<longleftrightarrow> length xs = ring_size r - 1" "odph_ring_empty r \<longleftrightarrow> xs = []"
proof -
  note D = hring_repD [OF rep]
  note S = ring_shapeD [OF D(1)]
  show c: "unat (odph_ring_count r) = length xs" unfolding odph_ring_count_def S(6) hring_count(1) [OF rep] using D(4) by simp
  have "rp_tail r = rc_tail r \<longleftrightarrow> unat (rp_tail r - rc_tail r) = 0" by (simp add: unat_eq_zero)
  then show "odph_ring_empty r \<longleftrightarrow> xs = []" unfolding hring_count(1) [OF rep] by (auto simp: odph_ring_empty_def)
  have e: "unat ((rc_tail r - rp_tail r - 1) AND rp_mask r) = unat ((rp_mask r + rc_tail r - rp_tail r) AND rp_mask r)"
  proof -
    define y where "y = rc_tail r - rp_tail r - 1"
    have "rp_mask r = rp_size r - 1" using D(1) by (simp add: ring_shape_def)
    then have "rp_mask r + rc_tail r - rp_tail r = y + rp_size r" by (simp add: y_def)
    also have "\<dots> = of_nat (unat y + ring_size r)" by simp
    finally have "unat ((rp_mask r + rc_tail r - rp_tail r) AND rp_mask r) = unat y mod ring_size r" by (simp only: S(7) mod_add_self2)
    then show ?thesis unfolding y_def [symmetric] S(6) by simp
  qed
  show f: "unat (odph_ring_free_count r) = ring_size r - 1 - length xs"
    unfolding odph_ring_free_count_def e unfolding S(6) hring_count(2) [OF rep] using S(3) by simp
  show "odph_ring_full r \<longleftrightarrow> length xs = ring_size r - 1"
    using f D(4) unfolding odph_ring_full_def odph_ring_free_count_def [symmetric] by (metis diff_is_0_eq' le_antisym less_Suc_eq_le Suc_diff_1 S(3) unat_eq_zero diff_is_0_eq)
qed

definition hring_put :: "odph_ring_t \<Rightarrow> u32 list \<Rightarrow> odph_ring_t" where
  "hring_put r objs = snd (odph_ring_sp_enqueue_bulk r objs (of_nat (length objs)))"

definition hring_get :: "odph_ring_t \<Rightarrow> nat \<Rightarrow> u32 list \<times> odph_ring_t" where
  "hring_get r n = snd (odph_ring_sc_dequeue_burst r (of_nat n))"

definition hring_fits :: "odph_ring_t \<Rightarrow> u32 list \<Rightarrow> bool" where
  "hring_fits r objs \<longleftrightarrow> unat (rp_tail r - rc_tail r) + length objs < ring_size r"

interpretation hrq: fifo_container hring_rep hring_fits hring_put hring_get
proof unfold_locales
  fix r xs ys
  assume rep: "hring_rep r xs" and fits: "hring_fits r ys"
  have "length xs + length ys < ring_size r" using fits hring_count(1) [OF rep] by (simp add: hring_fits_def)
  moreover from this have "unat (of_nat (length ys) :: u32) = length ys"
    using ring_shapeD(4) [OF hring_repD(1) [OF rep]] by (simp add: unat_of_nat)
  ultimately show "hring_rep (hring_put r ys) (xs @ ys)"
    using sp_enqueue_correct [OF rep, of ys "of_nat (length ys)" ODPH_RING_QUEUE_FIXED]
    by (auto simp: taken_def hring_put_def odph_ring_sp_enqueue_bulk_def)
next
  fix r xs and n :: nat
  assume rep: "hring_rep r xs"
  obtain ret r' k where "ring_sc_do_dequeue r (of_nat n) ODPH_RING_QUEUE_VARIABLE = (ret, take k xs, r')" "hring_rep r' (drop k xs)"
    using sc_dequeue_correct [OF rep, of "of_nat n" ODPH_RING_QUEUE_VARIABLE] by blast
  then show "\<exists>zs. xs = fst (hring_get r n) @ zs \<and> hring_rep (snd (hring_get r n)) zs"
    by (intro exI [of _ "drop k xs"]) (simp add: hring_get_def odph_ring_sc_dequeue_burst_def)
qed

lemma hring_run_fifo:
  assumes "hring_rep r []" "fifo_run hring_fits hring_put hring_get ops r = (i, out, r')"
  shows "\<exists>ys. hring_rep r' ys \<and> i = out @ ys"
  using hrq.run_fifo [OF assms] by simp

text \<open>A size of 0 passes the check for a power of two: the ring has no entry and a mask of all ones.\<close>

lemma ring_create_zero:
  assumes "odph_ring_create malloc mem s_ring name 0 flags rs = Some (a, rs1)" "a \<noteq> 0"
  shows "rg_ring (rgs_ring rs1 a) = [] \<and> rp_mask (rgs_ring rs1 a) = - 1"
  using assms by (auto simp: odph_ring_create_def Let_def bind_eq_Some_conv split: if_splits)

section \<open>Properties\<close>

text \<open>C19. The calls of the helper ring on a ring that holds \<open>xs\<close>, called by one thread, with the indices anywhere in their
  32-bit range. An enqueue in bulk adds all objects or, when they do not fit, none and returns \<open>-ENOBUFS\<close>; an enqueue in a
  burst adds as many as fit. A dequeue in bulk takes all that are asked for or none, a dequeue in a burst as many as there are, in
  the order in which they were added. The variants for one and for many threads do the same. The numbers of used and free entries
  are right.\<close>

theorem ring_calls_correct:
  assumes "hring_rep r xs" "length objs = unat n"
  shows "(\<exists>ret r'. odph_ring_sp_enqueue_bulk r objs n = (ret, r') \<and> odph_ring_mp_enqueue_bulk r objs n = Some (ret, r') \<and>
      (if length xs + unat n < ring_size r then ret \<noteq> Ring_err ENOBUFS \<and> hring_rep r' (xs @ objs) else ret = Ring_err ENOBUFS \<and> hring_rep r' xs)) \<and>
    (\<exists>ret r'. odph_ring_sp_enqueue_burst r objs n = (ret, r') \<and> odph_ring_mp_enqueue_burst r objs n = Some (ret, r') \<and>
      hring_rep r' (xs @ take (ring_size r - 1 - length xs) objs)) \<and>
    (\<exists>ret os r'. odph_ring_sc_dequeue_bulk r n = (ret, os, r') \<and> odph_ring_mc_dequeue_bulk r n = Some (ret, os, r') \<and>
      (if unat n \<le> length xs then ret \<noteq> Ring_err ENOENT \<and> os = take (unat n) xs \<and> hring_rep r' (drop (unat n) xs)
       else ret = Ring_err ENOENT \<and> os = [] \<and> hring_rep r' xs)) \<and>
    (\<exists>ret r'. odph_ring_sc_dequeue_burst r n = (ret, take (unat n) xs, r') \<and> odph_ring_mc_dequeue_burst r n = Some (ret, take (unat n) xs, r') \<and>
      hring_rep r' (drop (unat n) xs)) \<and>
    unat (odph_ring_count r) = length xs \<and> unat (odph_ring_free_count r) = ring_size r - 1 - length xs \<and>
    (odph_ring_full r \<longleftrightarrow> length xs = ring_size r - 1) \<and> (odph_ring_empty r \<longleftrightarrow> xs = [])"
proof (intro conjI)
  note D = hring_repD [OF assms(1)]
  have sz: "unat n \<le> ring_size r - 1 - length xs \<longleftrightarrow> length xs + unat n < ring_size r" using D(4) by linarith
  show "\<exists>ret r'. odph_ring_sp_enqueue_bulk r objs n = (ret, r') \<and> odph_ring_mp_enqueue_bulk r objs n = Some (ret, r') \<and>
      (if length xs + unat n < ring_size r then ret \<noteq> Ring_err ENOBUFS \<and> hring_rep r' (xs @ objs) else ret = Ring_err ENOBUFS \<and> hring_rep r' xs)"
    using sp_enqueue_correct [OF assms, of ODPH_RING_QUEUE_FIXED] sz assms(2)
    unfolding odph_ring_sp_enqueue_bulk_def odph_ring_mp_enqueue_bulk_def by (auto simp: taken_def not_le)
  show "\<exists>ret r'. odph_ring_sp_enqueue_burst r objs n = (ret, r') \<and> odph_ring_mp_enqueue_burst r objs n = Some (ret, r') \<and>
      hring_rep r' (xs @ take (ring_size r - 1 - length xs) objs)"
    using sp_enqueue_correct [OF assms, of ODPH_RING_QUEUE_VARIABLE] assms(2)
    unfolding odph_ring_sp_enqueue_burst_def odph_ring_mp_enqueue_burst_def by (auto simp: taken_def split: if_splits)
  show "\<exists>ret os r'. odph_ring_sc_dequeue_bulk r n = (ret, os, r') \<and> odph_ring_mc_dequeue_bulk r n = Some (ret, os, r') \<and>
      (if unat n \<le> length xs then ret \<noteq> Ring_err ENOENT \<and> os = take (unat n) xs \<and> hring_rep r' (drop (unat n) xs)
       else ret = Ring_err ENOENT \<and> os = [] \<and> hring_rep r' xs)"
    using sc_dequeue_correct [OF assms(1), of n ODPH_RING_QUEUE_FIXED]
    unfolding odph_ring_sc_dequeue_bulk_def odph_ring_mc_dequeue_bulk_def by (auto simp: taken_def not_le)
  show "\<exists>ret r'. odph_ring_sc_dequeue_burst r n = (ret, take (unat n) xs, r') \<and> odph_ring_mc_dequeue_burst r n = Some (ret, take (unat n) xs, r') \<and>
      hring_rep r' (drop (unat n) xs)"
    using sc_dequeue_correct [OF assms(1), of n ODPH_RING_QUEUE_VARIABLE]
    unfolding odph_ring_sc_dequeue_burst_def odph_ring_mc_dequeue_burst_def by (auto simp: taken_def split: if_splits)
qed (use ring_status [OF assms(1)] in blast)+

lemma example_ring_rep:
  "hring_rep \<lparr>rg_name = ''r'', rg_flags = 0, rp_watermark = 4, rp_sp_enqueue = False, rp_size = 4, rp_mask = 3, rp_head = 1, rp_tail = 1,
     rc_sc_dequeue = False, rc_size = 4, rc_mask = 3, rc_head = 0xFFFFFFFF, rc_tail = 0xFFFFFFFF, rg_ring = [8, 0, 0, 7]\<rparr> [7, 8]"
proof -
  have "\<exists>k \<le> 27. (4 :: nat) = 2 ^ k" by (intro exI [of _ 2]) simp
  then show ?thesis by (simp add: hring_rep_def ring_shape_def less_Suc_eq)
qed

theorem ring_calls_correct_witness:
  "\<exists>r ret r'. hring_rep r [7, 8] \<and> odph_ring_mp_enqueue_bulk r [9] 1 = Some (ret, r') \<and> hring_rep r' [7, 8, 9]"
  using ring_calls_correct [OF example_ring_rep, of "[9]" 1, THEN conjunct1] example_ring_rep by auto

text \<open>What a call for no object can do. Thread 0 asks to enqueue nothing and finds the tail at its position; before its store to the
  tail, thread 1 enqueues the object 7 and returns. The store takes the tail back, and the object that thread 1 was told to have
  enqueued is not visible to any consumer.\<close>

lemma producer_reserves:
  assumes pc: "rm_pc s t = Rg_idle" and l: "length objs < 2 ^ 32"
    and room: "enq_room b (of_nat (length objs)) (rp_mask (rm_ring s) + rc_tail (rm_ring s) - rp_head (rm_ring s)) = Inr n"
  shows "rtranclp ring_step s (s\<lparr>rm_ring := (rm_ring s)\<lparr>rp_head := rp_head (rm_ring s) + n\<rparr>,
    rm_pc := (rm_pc s)(t := Rp_copy objs (rp_head (rm_ring s)) n 0 (length (rm_in s))), rm_in := rm_in s @ take (unat n) objs\<rparr>)"
proof -
  let ?h = "rp_head (rm_ring s)" and ?c = "rc_tail (rm_ring s)" and ?p = "length (rm_in s)"
  define at where "at c = s\<lparr>rm_pc := (rm_pc s)(t := c)\<rparr>" for c
  have "ring_step s (at (Rp_start objs b))" unfolding at_def by (rule ring_step.p_call [OF pc l])
  moreover have "ring_step (at (Rp_start objs b)) (at (Rp_head objs b ?h ?p))"
    using ring_step.p_head [of "at (Rp_start objs b)" t objs b] by (simp add: at_def)
  moreover have "ring_step (at (Rp_head objs b ?h ?p)) (at (Rp_tail objs b ?h ?c ?p (length (rm_out s))))"
    using ring_step.p_tail [of "at (Rp_head objs b ?h ?p)" t objs b ?h ?p] by (simp add: at_def)
  ultimately have "rtranclp ring_step s (at (Rp_tail objs b ?h ?c ?p (length (rm_out s))))"
    by (meson r_into_rtranclp rtranclp_trans)
  moreover note ring_step.p_reserve [of "at (Rp_tail objs b ?h ?c ?p (length (rm_out s)))" t objs b ?h ?c ?p "length (rm_out s)" n]
  ultimately show ?thesis using room by (simp add: at_def rtranclp.rtrancl_into_rtrancl)
qed

lemma ring_empty_call_loses:
  assumes "rp_head r = 0" "rp_tail r = 0" "rc_tail r = 0" "rp_mask r \<noteq> 0"
  shows "\<exists>s. rtranclp ring_step (ring_start r) s \<and> rm_pc s 0 = Rg_idle \<and> rm_pc s 1 = Rg_idle \<and>
    rm_in s = [7] \<and> rm_out s = [] \<and> rp_head (rm_ring s) = 1 \<and> rp_tail (rm_ring s) = 0"
proof -
  let ?F = ODPH_RING_QUEUE_FIXED
  define s1 where "s1 = (ring_start r)\<lparr>rm_ring := r\<lparr>rp_head := 0\<rparr>, rm_pc := (\<lambda>_. Rg_idle)(0 := Rp_copy [] 0 0 0 0)\<rparr>"
  define s2 where "s2 = s1\<lparr>rm_pc := (\<lambda>_. Rg_idle)(0 := Rp_ready [] 0 0 0)\<rparr>"
  define s3 where "s3 = s2\<lparr>rm_ring := r\<lparr>rp_head := 1\<rparr>, rm_pc := (rm_pc s2)(1 := Rp_copy [7] 0 1 0 0), rm_in := [7]\<rparr>"
  define s4 where "s4 = s3\<lparr>rm_ring := (rm_ring s3)\<lparr>rg_ring := (rg_ring r)[0 := 7]\<rparr>, rm_pc := (rm_pc s2)(1 := Rp_copy [7] 0 1 1 0)\<rparr>"
  define s5 where "s5 = s4\<lparr>rm_pc := (rm_pc s2)(1 := Rp_ready [7] 0 1 0)\<rparr>"
  define s6 where "s6 = s5\<lparr>rm_ring := (rm_ring s5)\<lparr>rp_tail := 1\<rparr>, rm_pc := rm_pc s2, rm_pt := 1\<rparr>"
  define s7 where "s7 = s6\<lparr>rm_ring := (rm_ring s6)\<lparr>rp_tail := 0\<rparr>, rm_pc := \<lambda>_. Rg_idle, rm_pt := 0\<rparr>"
  note D = s7_def s6_def s5_def s4_def s3_def s2_def s1_def ring_start_def
  have "rtranclp ring_step (ring_start r) s1"
    using producer_reserves [of "ring_start r" 0 "[]" ?F 0] assms by (simp add: D enq_room_def)
  moreover have "ring_step s1 s2" using ring_step.p_turn [of s1 0 "[]" 0 0 0] assms by (simp add: D)
  moreover have "rtranclp ring_step s2 s3"
    using producer_reserves [of s2 1 "[7]" ?F 1] assms by (simp add: D enq_room_def word_less_1 not_less)
  moreover have "ring_step s3 s4" using ring_step.p_store [of s3 1 "[7]" 0 1 0 0] assms by (simp add: D)
  moreover have "ring_step s4 s5" using ring_step.p_turn [of s4 1 "[7]" 0 1 0] assms by (simp add: D)
  moreover have "ring_step s5 s6" using ring_step.p_publish [of s5 1 "[7]" 0 1 0] by (simp add: D fun_upd_idem)
  moreover have "ring_step s6 s7" using ring_step.p_publish [of s6 0 "[]" 0 0 0] by (simp add: D fun_upd_idem)
  ultimately have "rtranclp ring_step (ring_start r) s7" by (meson r_into_rtranclp rtranclp_trans)
  then show ?thesis by (intro exI [of _ s7]) (simp add: D)
qed

text \<open>C3. The helper ring with any number of producers and consumers that call it at the same time for at least one object each,
  one access to the ring after another in any order (the test of a tail and the store to it are two accesses). The objects leave in
  the order in which their producers reserved the entries: none is lost,
  overtaken, delivered twice or overwritten before it is read, and there are never as many objects as entries, although the
  indices wrap around. As long as a call has reserved entries that it has not released, some such call can take its next
  step, so that the calls do not block each other. It is assumed that an index does not make a full turn between its load
  and the compare-and-exchange of the same call.\<close>

theorem ring_mpmc_fifo:
  assumes "odph_ring_create malloc mem s_ring name count flags rs = Some (a, rs1)" "a \<noteq> 0" "count \<noteq> 0"
    and "rtranclp (\<lambda>s s'. ring_step s s' \<and> ring_fresh s' \<and> ring_calls_pos s') (ring_start (rgs_ring rs1 a)) s"
  shows "(\<exists>rest. rm_in s = rm_out s @ rest \<and> length rest < unat count) \<and>
    ((\<exists>t. p_claim (rm_pc s t) \<noteq> {}) \<longrightarrow> (\<exists>u. p_can (rm_ring s) (rm_pc s u))) \<and>
    ((\<exists>t. c_claim (rm_pc s t) \<noteq> {}) \<longrightarrow> (\<exists>u. c_can (rm_ring s) (rm_pc s u)))"
proof -
  note R = ring_create_shape [OF assms(1-3)]
  have inv: "hring_inv s" using hr.reachable_inv [OF assms(4)] R by blast
  note C = ring_coreD [OF hring_invD(1) [OF inv]]
  have sz: "ring_size (rm_ring s) = unat count"
    using assms(4) R(2) by (induction rule: rtranclp_induct) (auto simp: ring_start_def elim!: ring_step.cases)
  have "rm_in s = rm_out s @ drop (length (rm_out s)) (rm_in s)" using C(10) by (metis append_take_drop_id)
  moreover have "length (drop (length (rm_out s)) (rm_in s)) < unat count" using C(6-9) sz by simp
  ultimately show ?thesis using ring_progress [OF inv] by blast
qed

definition no_rings :: ring_state where
  "no_rings = \<lparr>rgs_shm = replicate 60 shm_zero_block, rgs_ring = \<lambda>_. \<lparr>rg_name = [], rg_flags = 0, rp_watermark = 0, rp_sp_enqueue = False,
     rp_size = 0, rp_mask = 0, rp_head = 0, rp_tail = 0, rc_sc_dequeue = False, rc_size = 0, rc_mask = 0, rc_head = 0, rc_tail = 0, rg_ring = []\<rparr>,
     rgs_list = []\<rparr>"

lemma ring_create_no_rings:
  "\<exists>rs1. odph_ring_create (\<lambda>n. 4096) (\<lambda>_. 0) 192 ''r'' 4 0 no_rings = Some (4096, rs1) \<and> rp_mask (rgs_ring rs1 4096) = 3"
proof -
  let ?t = "rgs_shm no_rings"
  have t: "length ?t = 60" "?t ! 0 = shm_zero_block" "\<forall>b \<in> set ?t. sb_name b \<noteq> ''r''" by (simp_all add: no_rings_def shm_zero_block_def)
  have f: "shm_first (\<lambda>b. sb_addr b = 0) ?t = 0" by (rule shm_first_eq) (simp_all add: t shm_zero_block_def)
  have n: "find_block ?t ''r'' = None" unfolding find_block_None by (rule t(3))
  show ?thesis
    by (simp add: odph_ring_create_def RING_VAL_IS_POWER_2_def ODPH_RING_SZ_MASK_def ODPH_RING_NAMESIZE_def Let_def odp_shm_reserve_def n f t
        ODP_SHM_PROC_def ODP_CONFIG_SHM_BLOCKS_def shm_to_handle_def shm_from_handle_def odp_shm_addr_def ODP_SHM_UNCACHED_def ODP_ALIGN_ROUNDUP_def
        shm_zero_block_def)
qed

theorem ring_mpmc_fifo_witness:
  "\<exists>rs1 s rest. odph_ring_create (\<lambda>n. 4096) (\<lambda>_. 0) 192 ''r'' 4 0 no_rings = Some (4096, rs1) \<and>
     rtranclp (\<lambda>s s'. ring_step s s' \<and> ring_fresh s' \<and> ring_calls_pos s') (ring_start (rgs_ring rs1 4096)) s \<and>
     rm_in s = [7] \<and> rm_pt s = 1 \<and> rm_in s = rm_out s @ rest"
proof -
  obtain rs1 where c: "odph_ring_create (\<lambda>n. 4096) (\<lambda>_. 0) 192 ''r'' 4 0 no_rings = Some (4096, rs1)" and m: "rp_mask (rgs_ring rs1 4096) = 3"
    using ring_create_no_rings by blast
  have R: "rp_head (rgs_ring rs1 4096) = 0" "rp_tail (rgs_ring rs1 4096) = 0" "rc_tail (rgs_ring rs1 4096) = 0"
    using ring_create_shape [OF c] by simp_all
  let ?R = "\<lambda>s s'. ring_step s s' \<and> ring_fresh s' \<and> ring_calls_pos s'"
  define s0 where "s0 = ring_start (rgs_ring rs1 4096)"
  define s1 where "s1 = s0\<lparr>rm_pc := (rm_pc s0)(0 := Rp_start [7] ODPH_RING_QUEUE_FIXED)\<rparr>"
  define s2 where "s2 = s1\<lparr>rm_pc := (rm_pc s1)(0 := Rp_head [7] ODPH_RING_QUEUE_FIXED (rp_head (rm_ring s1)) (length (rm_in s1)))\<rparr>"
  define s3 where "s3 = s2\<lparr>rm_pc := (rm_pc s2)(0 := Rp_tail [7] ODPH_RING_QUEUE_FIXED 0 (rc_tail (rm_ring s2)) 0 (length (rm_out s2)))\<rparr>"
  define s4 where "s4 = s3\<lparr>rm_ring := (rm_ring s3)\<lparr>rp_head := 0 + 1\<rparr>, rm_pc := (rm_pc s3)(0 := Rp_copy [7] 0 1 0 (length (rm_in s3))),
      rm_in := rm_in s3 @ take (unat (1 :: u32)) [7]\<rparr>"
  define s5 where "s5 = s4\<lparr>rm_ring := (rm_ring s4)\<lparr>rg_ring := (rg_ring (rm_ring s4))[unat ((0 + of_nat 0) AND rp_mask (rm_ring s4)) := [7] ! 0]\<rparr>,
      rm_pc := (rm_pc s4)(0 := Rp_copy [7] 0 1 (Suc 0) 0)\<rparr>"
  define s6 where "s6 = s5\<lparr>rm_pc := (rm_pc s5)(0 := Rp_ready [7] 0 1 0)\<rparr>"
  define s7 where "s7 = s6\<lparr>rm_ring := (rm_ring s6)\<lparr>rp_tail := 0 + 1\<rparr>, rm_pc := (rm_pc s6)(0 := Rg_idle), rm_pt := 0 + unat (1 :: u32)\<rparr>"
  note D = s7_def s6_def s5_def s4_def s3_def s2_def s1_def s0_def ring_start_def
  have r1: "?R s0 s1" unfolding s1_def by (intro conjI ring_step.p_call) (auto simp: D ring_fresh_def ring_calls_pos_def)
  have r2: "?R s1 s2" unfolding s2_def by (intro conjI ring_step.p_head) (auto simp: D ring_fresh_def ring_calls_pos_def)
  have r3: "?R s2 s3" unfolding s3_def by (intro conjI ring_step.p_tail) (auto simp: D ring_fresh_def ring_calls_pos_def R)
  have r4: "?R s3 s4" unfolding s4_def
    by (intro conjI ring_step.p_reserve [of _ _ _ ODPH_RING_QUEUE_FIXED _ 0 0 0]) (auto simp: D ring_fresh_def ring_calls_pos_def R m enq_room_def)
  have r5: "?R s4 s5" unfolding s5_def by (intro conjI ring_step.p_store) (auto simp: D ring_fresh_def ring_calls_pos_def)
  have r6: "?R s5 s6" unfolding s6_def by (intro conjI ring_step.p_turn) (auto simp: D ring_fresh_def ring_calls_pos_def R)
  have r7: "?R s6 s7" unfolding s7_def by (intro conjI ring_step.p_publish [of _ _ "[7]"]) (auto simp: D ring_fresh_def ring_calls_pos_def R)
  have "rtranclp ?R s0 s6"
    by (rule rtranclp_trans [OF three_steps [of ?R, OF r1 r2 r3] three_steps [of ?R, OF r4 r5 r6]])
  then have run: "rtranclp ?R s0 s7" using r7 by (rule rtranclp.rtrancl_into_rtrancl)
  have "rm_in s7 = [7]" "rm_pt s7 = 1" by (simp_all add: D)
  then show ?thesis using c run ring_mpmc_fifo [OF c _ _ run [unfolded s0_def], THEN conjunct1] unfolding s0_def by auto
qed

end
