(* ===== verification/Odp_Crypto.thy ===== *)
theory Odp_Crypto
  imports Odp_Packet Odp_Queue
begin

unbundle bit_operations_syntax

text \<open>
  Cryptographic operations (\<open>platform/mppa/odp_crypto.c\<close>, \<open>include/odp_crypto_internal.h\<close>) and the release
  of events (\<open>odp_event.c\<close>). A session is the index of its entry; \<open>None\<close> is an invalid handle, or a call that aborts. The
  digests and ciphers are those of a library that is not part of the sources: they are the fields of a
  record \<open>crypto_lib\<close>, an argument of every definition that uses them. Keys and initialisation vectors are
  read from memory through their pointers. A locked section is one step.
\<close>

section \<open>Data\<close>

definition MAX_SESSIONS :: nat where "MAX_SESSIONS = 32"
definition OP_RESULT_MAGIC :: u32 where "OP_RESULT_MAGIC = 0x91919191"
definition AES_BLOCK_SIZE :: nat where "AES_BLOCK_SIZE = 16"
definition DES_CBLOCK_SIZE :: nat where "DES_CBLOCK_SIZE = 8"
definition ODP_EVENT_CRYPTO_COMPL :: int where "ODP_EVENT_CRYPTO_COMPL = 4"

datatype odp_crypto_op_t = ODP_CRYPTO_OP_ENCODE | ODP_CRYPTO_OP_DECODE

text \<open>The last constructor of the two algorithm types stands for the values that name no algorithm. The preferred mode of a session, which
  the code does not read, is left out.\<close>

datatype odp_cipher_alg_t =
    ODP_CIPHER_ALG_NULL | ODP_CIPHER_ALG_DES | ODP_CIPHER_ALG_3DES_CBC | ODP_CIPHER_ALG_AES128_CBC
  | ODP_CIPHER_ALG_AES128_GCM | Cipher_alg_other

datatype odp_auth_alg_t =
    ODP_AUTH_ALG_NULL | ODP_AUTH_ALG_MD5_96 | ODP_AUTH_ALG_SHA256_128 | ODP_AUTH_ALG_AES128_GCM | Auth_alg_other

datatype odp_crypto_ses_create_err_t =
    ODP_CRYPTO_SES_CREATE_ERR_NONE | ODP_CRYPTO_SES_CREATE_ERR_ENOMEM
  | ODP_CRYPTO_SES_CREATE_ERR_INV_CIPHER | ODP_CRYPTO_SES_CREATE_ERR_INV_AUTH

datatype odp_crypto_alg_err_t =
    ODP_CRYPTO_ALG_ERR_NONE | ODP_CRYPTO_ALG_ERR_DATA_SIZE | ODP_CRYPTO_ALG_ERR_KEY_SIZE
  | ODP_CRYPTO_ALG_ERR_ICV_CHECK | ODP_CRYPTO_ALG_ERR_IV_INVALID

datatype odp_crypto_hw_err_t =
    ODP_CRYPTO_HW_ERR_NONE | ODP_CRYPTO_HW_ERR_DMA | ODP_CRYPTO_HW_ERR_BP_DEPLETED

record odp_crypto_key_t =
  ck_data :: u32
  ck_length :: u32

record odp_crypto_iv_t =
  ci_data :: u32
  ci_length :: u32

record odp_crypto_data_range_t =
  dr_offset :: u32
  dr_length :: u32

record odp_crypto_session_params_t =
  cs_op :: odp_crypto_op_t
  cs_auth_cipher_text :: bool
  cs_cipher_alg :: odp_cipher_alg_t
  cs_cipher_key :: odp_crypto_key_t
  cs_iv :: odp_crypto_iv_t
  cs_auth_alg :: odp_auth_alg_t
  cs_auth_key :: odp_crypto_key_t
  cs_compl_queue :: "nat option"
  cs_output_pool :: "nat option"

record odp_crypto_op_params_t =
  cp_session :: nat
  cp_ctx :: u32
  cp_pkt :: u32
  cp_out_pkt :: u32
  cp_override_iv_ptr :: u32
  cp_hash_result_offset :: u32
  cp_cipher_range :: odp_crypto_data_range_t
  cp_auth_range :: odp_crypto_data_range_t

record odp_crypto_compl_status_t =
  cc_alg_err :: odp_crypto_alg_err_t
  cc_hw_err :: odp_crypto_hw_err_t

record odp_crypto_op_result_t =
  cr_ok :: bool
  cr_ctx :: u32
  cr_pkt :: u32
  cr_cipher_status :: odp_crypto_compl_status_t
  cr_auth_status :: odp_crypto_compl_status_t

record odp_crypto_generic_op_result_t =
  cg_magic :: u32
  cg_result :: odp_crypto_op_result_t

text \<open>
  The two unions of a session (key schedules or context of the cipher, key and number of bytes of the digest), and the
  functions a session points to. Key schedules and the context of the GCM mode are the library's own, here lists of bytes.
\<close>

datatype cipher_data =
    Cipher_none
  | Cipher_des "u8 list" "u8 list" "u8 list"
  | Cipher_aes "u8 list"
  | Cipher_aes_gcm "u8 list"

datatype auth_data = Auth_none | Auth_md5 "u8 list" u32 | Auth_sha256 "u8 list" u32

datatype crypto_func_t =
    Null_crypto_routine | Md5_gen | Md5_check | Sha256_gen | Sha256_check | Aes_encrypt | Aes_decrypt
  | Aes_gcm_encrypt | Aes_gcm_decrypt | Des_encrypt | Des_decrypt

record odp_crypto_generic_session_t =
  se_next :: "nat option"
  se_op :: odp_crypto_op_t
  se_do_cipher_first :: bool
  se_compl_queue :: "nat option"
  se_output_pool :: "nat option"
  se_cipher_alg :: odp_cipher_alg_t
  se_iv_data :: u32
  se_iv_len :: u32
  se_cipher_data :: cipher_data
  se_cipher_func :: "crypto_func_t option"
  se_auth_alg :: odp_auth_alg_t
  se_auth_data :: auth_data
  se_auth_func :: "crypto_func_t option"

text \<open>The global data; the results that the packet headers hold for completion events are kept by packet.\<close>

record odp_crypto_global_t =
  gl_free :: "nat option"
  gl_sessions :: "odp_crypto_generic_session_t list"
  gl_op_result :: "u32 \<Rightarrow> odp_crypto_generic_op_result_t"

text \<open>
  The functions of the cryptographic library. \<open>cl_aes_cbc\<close> and \<open>cl_des_ede3_cbc\<close> have the direction first (true for encryption);
  \<open>cl_gcm_ctx\<close> is the context after its creation with direction, length of the vector and key;
  \<open>cl_gcm_encrypt\<close> reads the vector itself, so it is given the memory from that pointer on, and returns cipher text and tag;
  \<open>cl_gcm_decrypt\<close> is the run of the decryption calls for vector, tag, authenticated head, cipher text and
  the bytes of the call for an authenticated tail, if it is made, with the bytes written in place of the cipher text and the
  value of the final call. The code passes a null pointer for the length in the call for the tail: a library that writes through
  it does not return (\<open>None\<close>).
\<close>

record crypto_lib =
  cl_hmac_md5 :: "u8 list \<Rightarrow> u8 list \<Rightarrow> u8 list"
  cl_hmac_sha256 :: "u8 list \<Rightarrow> u8 list \<Rightarrow> u8 list"
  cl_aes_set_encrypt_key :: "u8 list \<Rightarrow> u8 list"
  cl_aes_set_decrypt_key :: "u8 list \<Rightarrow> u8 list"
  cl_aes_cbc :: "bool \<Rightarrow> u8 list \<Rightarrow> u8 list \<Rightarrow> u8 list \<Rightarrow> u8 list"
  cl_des_set_key :: "u8 list \<Rightarrow> u8 list"
  cl_des_ede3_cbc :: "bool \<Rightarrow> u8 list \<Rightarrow> u8 list \<Rightarrow> u8 list \<Rightarrow> u8 list \<Rightarrow> u8 list \<Rightarrow> u8 list"
  cl_gcm_ctx :: "bool \<Rightarrow> u32 \<Rightarrow> u8 list \<Rightarrow> u8 list"
  cl_gcm_encrypt :: "u8 list \<Rightarrow> (u32 \<Rightarrow> u8) \<Rightarrow> u8 list \<Rightarrow> u8 list \<Rightarrow> u8 list \<times> u8 list"
  cl_gcm_decrypt :: "u8 list \<Rightarrow> u8 list \<Rightarrow> u8 list \<Rightarrow> u8 list \<Rightarrow> u8 list \<Rightarrow> u8 list option \<Rightarrow> (u8 list \<times> int) option"

definition EVP_MAX_MD_SIZE :: nat where "EVP_MAX_MD_SIZE = 64"

definition session_zero :: odp_crypto_generic_session_t where
  "session_zero = \<lparr>se_next = None, se_op = ODP_CRYPTO_OP_ENCODE, se_do_cipher_first = False, se_compl_queue = None,
     se_output_pool = None, se_cipher_alg = ODP_CIPHER_ALG_NULL, se_iv_data = 0, se_iv_len = 0,
     se_cipher_data = Cipher_none, se_cipher_func = None, se_auth_alg = ODP_AUTH_ALG_NULL,
     se_auth_data = Auth_none, se_auth_func = None\<rparr>"

section \<open>Sessions\<close>

definition alloc_session :: "odp_crypto_global_t \<Rightarrow> nat option \<times> odp_crypto_global_t" where
  "alloc_session g =
     (case gl_free g of
        None \<Rightarrow> (None, g)
      | Some s \<Rightarrow> (Some s, g\<lparr>gl_free := se_next (gl_sessions g ! s)\<rparr>))"

definition free_session :: "nat \<Rightarrow> odp_crypto_global_t \<Rightarrow> odp_crypto_global_t" where
  "free_session s g =
     g\<lparr>gl_sessions := (gl_sessions g)[s := (gl_sessions g ! s)\<lparr>se_next := gl_free g\<rparr>], gl_free := Some s\<rparr>"

section \<open>Digests\<close>

text \<open>
  The functions get the memory and the address of the packet data. What the generating functions, and what the checking
  functions share: the first \<open>bytes\<close> bytes of the digest are stored, or compared with those found in the packet,
  which are cleared before the digest is computed.
\<close>

definition icv_gen ::
  "(u8 list \<Rightarrow> u8 list) \<Rightarrow> u32 \<Rightarrow> (u32 \<Rightarrow> u8) \<Rightarrow> u32 \<Rightarrow> odp_crypto_op_params_t \<Rightarrow> odp_crypto_alg_err_t \<times> (u32 \<Rightarrow> u8)" where
  "icv_gen hmac bytes mem data p =
     (let icv = data + cp_hash_result_offset p;
          hash = hmac (read_bytes mem (data + dr_offset (cp_auth_range p)) (unat (dr_length (cp_auth_range p))))
      in (ODP_CRYPTO_ALG_ERR_NONE, write_bytes mem icv (take (unat bytes) hash)))"

definition icv_check ::
  "(u8 list \<Rightarrow> u8 list) \<Rightarrow> u32 \<Rightarrow> (u32 \<Rightarrow> u8) \<Rightarrow> u32 \<Rightarrow> odp_crypto_op_params_t \<Rightarrow> odp_crypto_alg_err_t \<times> (u32 \<Rightarrow> u8)" where
  "icv_check hmac bytes mem data p =
     (let icv = data + cp_hash_result_offset p;
          hash_in = read_bytes mem icv (unat bytes);
          mem = write_bytes mem icv (replicate (unat bytes) 0);
          hash = hmac (read_bytes mem (data + dr_offset (cp_auth_range p)) (unat (dr_length (cp_auth_range p))));
          hash_out = hash @ drop (length hash) (replicate EVP_MAX_MD_SIZE 0)
      in (if hash_in \<noteq> take (unat bytes) hash_out then ODP_CRYPTO_ALG_ERR_ICV_CHECK else ODP_CRYPTO_ALG_ERR_NONE, mem))"

definition md5_gen where
  "md5_gen lib mem data p s =
     (case se_auth_data s of Auth_md5 key bytes \<Rightarrow> Some (icv_gen (cl_hmac_md5 lib key) bytes mem data p) | _ \<Rightarrow> None)"

definition md5_check where
  "md5_check lib mem data p s =
     (case se_auth_data s of Auth_md5 key bytes \<Rightarrow> Some (icv_check (cl_hmac_md5 lib key) bytes mem data p) | _ \<Rightarrow> None)"

definition sha256_gen where
  "sha256_gen lib mem data p s =
     (case se_auth_data s of Auth_sha256 key bytes \<Rightarrow> Some (icv_gen (cl_hmac_sha256 lib key) bytes mem data p) | _ \<Rightarrow> None)"

definition sha256_check where
  "sha256_check lib mem data p s =
     (case se_auth_data s of Auth_sha256 key bytes \<Rightarrow> Some (icv_check (cl_hmac_sha256 lib key) bytes mem data p) | _ \<Rightarrow> None)"

section \<open>Ciphers\<close>

definition iv_ptr :: "odp_crypto_op_params_t \<Rightarrow> odp_crypto_generic_session_t \<Rightarrow> u32 option" where
  "iv_ptr p s =
     (if cp_override_iv_ptr p \<noteq> 0 then Some (cp_override_iv_ptr p)
      else if se_iv_data s \<noteq> 0 then Some (se_iv_data s)
      else None)"

text \<open>A block cipher over the cipher range, with \<open>n\<close> bytes of initialisation vector.\<close>

definition cbc_apply ::
  "(u8 list \<Rightarrow> u8 list \<Rightarrow> u8 list) \<Rightarrow> nat \<Rightarrow> (u32 \<Rightarrow> u8) \<Rightarrow> u32 \<Rightarrow> odp_crypto_op_params_t \<Rightarrow>
   odp_crypto_generic_session_t \<Rightarrow> odp_crypto_alg_err_t \<times> (u32 \<Rightarrow> u8)" where
  "cbc_apply cipher n mem data p s =
     (case iv_ptr p s of
        None \<Rightarrow> (ODP_CRYPTO_ALG_ERR_IV_INVALID, mem)
      | Some iv \<Rightarrow>
          let data = data + dr_offset (cp_cipher_range p)
          in (ODP_CRYPTO_ALG_ERR_NONE,
              write_bytes mem data
                (cipher (read_bytes mem iv n) (read_bytes mem data (unat (dr_length (cp_cipher_range p)))))))"

definition aes_encrypt where
  "aes_encrypt lib mem data p s =
     (case se_cipher_data s of Cipher_aes key \<Rightarrow> Some (cbc_apply (cl_aes_cbc lib True key) AES_BLOCK_SIZE mem data p s) | _ \<Rightarrow> None)"

definition aes_decrypt where
  "aes_decrypt lib mem data p s =
     (case se_cipher_data s of Cipher_aes key \<Rightarrow> Some (cbc_apply (cl_aes_cbc lib False key) AES_BLOCK_SIZE mem data p s) | _ \<Rightarrow> None)"

definition des_encrypt where
  "des_encrypt lib mem data p s =
     (case se_cipher_data s of
        Cipher_des ks1 ks2 ks3 \<Rightarrow> Some (cbc_apply (cl_des_ede3_cbc lib True ks1 ks2 ks3) DES_CBLOCK_SIZE mem data p s) | _ \<Rightarrow> None)"

definition des_decrypt where
  "des_decrypt lib mem data p s =
     (case se_cipher_data s of
        Cipher_des ks1 ks2 ks3 \<Rightarrow> Some (cbc_apply (cl_des_ede3_cbc lib False ks1 ks2 ks3) DES_CBLOCK_SIZE mem data p s) | _ \<Rightarrow> None)"

text \<open>The test of both GCM functions that the cipher range lies inside the authenticated range; the sums are 32-bit.\<close>

definition gcm_ranges_bad :: "odp_crypto_op_params_t \<Rightarrow> bool" where
  "gcm_ranges_bad p \<longleftrightarrow>
     dr_offset (cp_auth_range p) > dr_offset (cp_cipher_range p) \<or>
     dr_offset (cp_auth_range p) + dr_length (cp_auth_range p) < dr_offset (cp_cipher_range p) + dr_length (cp_cipher_range p)"

definition aes_gcm_encrypt where
  "aes_gcm_encrypt lib mem data p s =
     (case se_cipher_data s of
        Cipher_aes_gcm ctx \<Rightarrow>
          (case iv_ptr p s of
             None \<Rightarrow> Some (ODP_CRYPTO_ALG_ERR_IV_INVALID, mem)
           | Some iv \<Rightarrow>
               if gcm_ranges_bad p then Some (ODP_CRYPTO_ALG_ERR_DATA_SIZE, mem)
               else let plain_len = dr_length (cp_cipher_range p);
                        aad_head = data + dr_offset (cp_auth_range p);
                        plaindata = data + dr_offset (cp_cipher_range p);
                        tag = data + cp_hash_result_offset p;
                        (out, t) = cl_gcm_encrypt lib ctx (\<lambda>i. mem (iv + i)) (read_bytes mem aad_head (unat (plaindata - aad_head)))
                                     (read_bytes mem plaindata (unat plain_len));
                        mem = write_bytes (write_bytes mem plaindata out) tag t
                    in Some (if aad_head + dr_length (cp_auth_range p) > plaindata + plain_len
                             then ODP_CRYPTO_ALG_ERR_DATA_SIZE else ODP_CRYPTO_ALG_ERR_NONE, mem))
      | _ \<Rightarrow> None)"

definition aes_gcm_decrypt where
  "aes_gcm_decrypt lib mem data p s =
     (case se_cipher_data s of
        Cipher_aes_gcm ctx \<Rightarrow>
          (case iv_ptr p s of
             None \<Rightarrow> Some (ODP_CRYPTO_ALG_ERR_IV_INVALID, mem)
           | Some iv \<Rightarrow>
               if gcm_ranges_bad p then Some (ODP_CRYPTO_ALG_ERR_DATA_SIZE, mem)
               else let cipher_len = dr_length (cp_cipher_range p);
                        auth_len = dr_length (cp_auth_range p);
                        aad_head = data + dr_offset (cp_auth_range p);
                        cipherdata = data + dr_offset (cp_cipher_range p);
                        aad_tail = data + dr_offset (cp_cipher_range p) + cipher_len;
                        iv_enc = read_bytes mem iv AES_BLOCK_SIZE;
                        tag = read_bytes mem (data + cp_hash_result_offset p) 16;
                        head = (if aad_head < cipherdata then read_bytes mem aad_head (unat (cipherdata - aad_head)) else []);
                        tl = (if aad_head + auth_len > cipherdata + cipher_len
                              then Some (read_bytes mem aad_tail (unat (auth_len - (aad_tail - aad_head)))) else None)
                    in map_option (\<lambda>(plain, final).
                         (if final < 0 then ODP_CRYPTO_ALG_ERR_ICV_CHECK else ODP_CRYPTO_ALG_ERR_NONE, write_bytes mem cipherdata plain))
                         (cl_gcm_decrypt lib ctx iv_enc tag head (read_bytes mem cipherdata (unat cipher_len)) tl))
      | _ \<Rightarrow> None)"

section \<open>Creation and destruction of sessions\<close>

definition process_aes_params ::
  "crypto_lib \<Rightarrow> (u32 \<Rightarrow> u8) \<Rightarrow> odp_crypto_session_params_t \<Rightarrow> odp_crypto_generic_session_t \<Rightarrow> int \<times> odp_crypto_generic_session_t" where
  "process_aes_params lib mem p s =
     (if ci_length (cs_iv p) \<noteq> 0 \<and> ci_length (cs_iv p) \<noteq> 16 then (- 1, s)
      else let key = read_bytes mem (ck_data (cs_cipher_key p)) 16
           in (0, if cs_op p = ODP_CRYPTO_OP_ENCODE
                  then s\<lparr>se_cipher_func := Some Aes_encrypt, se_cipher_data := Cipher_aes (cl_aes_set_encrypt_key lib key)\<rparr>
                  else s\<lparr>se_cipher_func := Some Aes_decrypt, se_cipher_data := Cipher_aes (cl_aes_set_decrypt_key lib key)\<rparr>))"

definition process_aes_gcm_params ::
  "crypto_lib \<Rightarrow> (u32 \<Rightarrow> u8) \<Rightarrow> odp_crypto_session_params_t \<Rightarrow> odp_crypto_generic_session_t \<Rightarrow> int \<times> odp_crypto_generic_session_t" where
  "process_aes_gcm_params lib mem p s =
     (if ck_length (cs_cipher_key p) \<noteq> 16 then (- 1, s)
      else let encode = (cs_op p = ODP_CRYPTO_OP_ENCODE);
               ctx = cl_gcm_ctx lib encode (ci_length (cs_iv p)) (read_bytes mem (ck_data (cs_cipher_key p)) 16)
           in (0, s\<lparr>se_cipher_func := Some (if encode then Aes_gcm_encrypt else Aes_gcm_decrypt),
                    se_cipher_data := Cipher_aes_gcm ctx\<rparr>))"

definition process_des_params ::
  "crypto_lib \<Rightarrow> (u32 \<Rightarrow> u8) \<Rightarrow> odp_crypto_session_params_t \<Rightarrow> odp_crypto_generic_session_t \<Rightarrow> int \<times> odp_crypto_generic_session_t" where
  "process_des_params lib mem p s =
     (if ci_length (cs_iv p) \<noteq> 0 \<and> ci_length (cs_iv p) \<noteq> 8 then (- 1, s)
      else let key = (\<lambda>i. cl_des_set_key lib (read_bytes mem (ck_data (cs_cipher_key p) + i) DES_CBLOCK_SIZE))
           in (0, s\<lparr>se_cipher_func := Some (if cs_op p = ODP_CRYPTO_OP_ENCODE then Des_encrypt else Des_decrypt),
                    se_cipher_data := Cipher_des (key 0) (key 8) (key 16)\<rparr>))"

definition process_md5_params ::
  "(u32 \<Rightarrow> u8) \<Rightarrow> odp_crypto_session_params_t \<Rightarrow> u32 \<Rightarrow> odp_crypto_generic_session_t \<Rightarrow> int \<times> odp_crypto_generic_session_t" where
  "process_md5_params mem p bits s =
     (0, s\<lparr>se_auth_func := Some (if cs_op p = ODP_CRYPTO_OP_ENCODE then Md5_gen else Md5_check),
           se_auth_data := Auth_md5 (read_bytes mem (ck_data (cs_auth_key p)) 16) (bits div 8)\<rparr>)"

definition process_sha256_params ::
  "(u32 \<Rightarrow> u8) \<Rightarrow> odp_crypto_session_params_t \<Rightarrow> u32 \<Rightarrow> odp_crypto_generic_session_t \<Rightarrow> int \<times> odp_crypto_generic_session_t" where
  "process_sha256_params mem p bits s =
     (0, s\<lparr>se_auth_func := Some (if cs_op p = ODP_CRYPTO_OP_ENCODE then Sha256_gen else Sha256_check),
           se_auth_data := Auth_sha256 (read_bytes mem (ck_data (cs_auth_key p)) 32) (bits div 8)\<rparr>)"

text \<open>The parts of \<open>odp_crypto_session_create\<close>: what is copied, and the two switches.\<close>

definition session_copy :: "odp_crypto_session_params_t \<Rightarrow> odp_crypto_generic_session_t \<Rightarrow> odp_crypto_generic_session_t" where
  "session_copy p s =
     s\<lparr>se_do_cipher_first := (if cs_op p = ODP_CRYPTO_OP_ENCODE then cs_auth_cipher_text p else \<not> cs_auth_cipher_text p),
       se_op := cs_op p, se_compl_queue := cs_compl_queue p, se_cipher_alg := cs_cipher_alg p,
       se_iv_data := ci_data (cs_iv p), se_iv_len := ci_length (cs_iv p), se_auth_alg := cs_auth_alg p,
       se_output_pool := cs_output_pool p\<rparr>"

definition session_cipher ::
  "crypto_lib \<Rightarrow> (u32 \<Rightarrow> u8) \<Rightarrow> odp_crypto_session_params_t \<Rightarrow> odp_crypto_generic_session_t \<Rightarrow> int \<times> odp_crypto_generic_session_t" where
  "session_cipher lib mem p s =
     (case cs_cipher_alg p of
        ODP_CIPHER_ALG_NULL \<Rightarrow> (0, s\<lparr>se_cipher_func := Some Null_crypto_routine\<rparr>)
      | ODP_CIPHER_ALG_DES \<Rightarrow> process_des_params lib mem p s
      | ODP_CIPHER_ALG_3DES_CBC \<Rightarrow> process_des_params lib mem p s
      | ODP_CIPHER_ALG_AES128_CBC \<Rightarrow> process_aes_params lib mem p s
      | ODP_CIPHER_ALG_AES128_GCM \<Rightarrow>
          if cs_auth_alg p \<noteq> ODP_AUTH_ALG_AES128_GCM then (- 1, s) else process_aes_gcm_params lib mem p s
      | Cipher_alg_other \<Rightarrow> (- 1, s))"

definition session_auth ::
  "(u32 \<Rightarrow> u8) \<Rightarrow> odp_crypto_session_params_t \<Rightarrow> odp_crypto_generic_session_t \<Rightarrow> int \<times> odp_crypto_generic_session_t" where
  "session_auth mem p s =
     (case cs_auth_alg p of
        ODP_AUTH_ALG_NULL \<Rightarrow> (0, s\<lparr>se_auth_func := Some Null_crypto_routine\<rparr>)
      | ODP_AUTH_ALG_MD5_96 \<Rightarrow> process_md5_params mem p 96 s
      | ODP_AUTH_ALG_SHA256_128 \<Rightarrow> process_sha256_params mem p 128 s
      | ODP_AUTH_ALG_AES128_GCM \<Rightarrow>
          if cs_cipher_alg p \<noteq> ODP_CIPHER_ALG_AES128_GCM then (- 1, s)
          else (0, s\<lparr>se_auth_func := Some Null_crypto_routine\<rparr>)
      | Auth_alg_other \<Rightarrow> (- 1, s))"

text \<open>The result is the return value, the session written to the output argument if one is, and the status.\<close>

definition odp_crypto_session_create ::
  "crypto_lib \<Rightarrow> (u32 \<Rightarrow> u8) \<Rightarrow> odp_crypto_session_params_t \<Rightarrow> odp_crypto_global_t \<Rightarrow>
   (int \<times> nat option \<times> odp_crypto_ses_create_err_t) \<times> odp_crypto_global_t" where
  "odp_crypto_session_create lib mem p g =
     (case alloc_session g of
        (None, g) \<Rightarrow> ((- 1, None, ODP_CRYPTO_SES_CREATE_ERR_ENOMEM), g)
      | (Some n, g) \<Rightarrow>
          let (rc, s) = session_cipher lib mem p (session_copy p (gl_sessions g ! n));
              g = g\<lparr>gl_sessions := (gl_sessions g)[n := s]\<rparr>
          in if rc \<noteq> 0 then ((- 1, None, ODP_CRYPTO_SES_CREATE_ERR_INV_CIPHER), g)
             else let (rc, s) = session_auth mem p s;
                      g = g\<lparr>gl_sessions := (gl_sessions g)[n := s]\<rparr>
                  in if rc \<noteq> 0 then ((- 1, None, ODP_CRYPTO_SES_CREATE_ERR_INV_AUTH), g)
                     else ((0, Some n, ODP_CRYPTO_SES_CREATE_ERR_NONE), g))"

definition odp_crypto_session_destroy :: "nat \<Rightarrow> odp_crypto_global_t \<Rightarrow> int \<times> odp_crypto_global_t" where
  "odp_crypto_session_destroy n g = (0, free_session n (g\<lparr>gl_sessions := (gl_sessions g)[n := session_zero]\<rparr>))"

text \<open>
  Start and end. The size of the block is the argument \<open>mem_size\<close>, because it depends on types of the library; a block that cannot be
  reserved is written through a null pointer. The count of the free sessions does not end on a cyclic list.
\<close>

definition crypto_global_init :: "(u32 \<Rightarrow> odp_crypto_generic_op_result_t) \<Rightarrow> odp_crypto_global_t" where
  "crypto_global_init results =
     fold free_session [0..<MAX_SESSIONS]
       \<lparr>gl_free = None, gl_sessions = replicate MAX_SESSIONS session_zero, gl_op_result = results\<rparr>"

definition odp_crypto_init_global ::
  "(u32 \<Rightarrow> u32) \<Rightarrow> u64 \<Rightarrow> (u32 \<Rightarrow> odp_crypto_generic_op_result_t) \<Rightarrow> odp_shm_table_t \<Rightarrow>
   (int \<times> odp_crypto_global_t \<times> odp_shm_table_t) option" where
  "odp_crypto_init_global malloc mem_size results tbl =
     do {
       (shm, tbl) \<leftarrow> odp_shm_reserve malloc tbl ''crypto_pool'' mem_size (ucast ODP_CACHE_LINE_SIZE) 0;
       if odp_shm_addr tbl shm = 0 then None else Some (0, crypto_global_init results, tbl)
     }"

partial_function (option) count_free :: "odp_crypto_global_t \<Rightarrow> nat option \<Rightarrow> nat option" where
  "count_free g s =
     (case s of None \<Rightarrow> Some 0 | Some n \<Rightarrow> Option.bind (count_free g (se_next (gl_sessions g ! n))) (\<lambda>c. Some (Suc c)))"

definition odp_crypto_term_global :: "odp_crypto_global_t \<Rightarrow> odp_shm_table_t \<Rightarrow> (int \<times> odp_shm_table_t) option" where
  "odp_crypto_term_global g tbl =
     do {
       count \<leftarrow> count_free g (gl_free g);
       let rc = (if count \<noteq> MAX_SESSIONS then - 1 else 0 :: int);
       (ret, _, tbl) \<leftarrow> odp_shm_free tbl (odp_shm_lookup tbl ''crypto_pool'');
       Some (if ret < 0 then - 1 else rc, tbl)
     }"

section \<open>Operations\<close>

definition crypto_call ::
  "crypto_lib \<Rightarrow> crypto_func_t option \<Rightarrow> (u32 \<Rightarrow> u8) \<Rightarrow> u32 \<Rightarrow> odp_crypto_op_params_t \<Rightarrow> odp_crypto_generic_session_t \<Rightarrow>
   (odp_crypto_alg_err_t \<times> (u32 \<Rightarrow> u8)) option" where
  "crypto_call lib f mem data p s =
     (case f of
        None \<Rightarrow> None
      | Some Null_crypto_routine \<Rightarrow> Some (ODP_CRYPTO_ALG_ERR_NONE, mem)
      | Some Md5_gen \<Rightarrow> md5_gen lib mem data p s
      | Some Md5_check \<Rightarrow> md5_check lib mem data p s
      | Some Sha256_gen \<Rightarrow> sha256_gen lib mem data p s
      | Some Sha256_check \<Rightarrow> sha256_check lib mem data p s
      | Some Aes_encrypt \<Rightarrow> aes_encrypt lib mem data p s
      | Some Aes_decrypt \<Rightarrow> aes_decrypt lib mem data p s
      | Some Aes_gcm_encrypt \<Rightarrow> aes_gcm_encrypt lib mem data p s
      | Some Aes_gcm_decrypt \<Rightarrow> aes_gcm_decrypt lib mem data p s
      | Some Des_encrypt \<Rightarrow> des_encrypt lib mem data p s
      | Some Des_decrypt \<Rightarrow> des_decrypt lib mem data p s)"

definition crypto_invoke ::
  "crypto_lib \<Rightarrow> (u32 \<Rightarrow> u8) \<Rightarrow> u32 \<Rightarrow> odp_crypto_op_params_t \<Rightarrow> odp_crypto_generic_session_t \<Rightarrow>
   (odp_crypto_alg_err_t \<times> odp_crypto_alg_err_t \<times> (u32 \<Rightarrow> u8)) option" where
  "crypto_invoke lib mem data p s =
     (if se_do_cipher_first s
      then do {
        (rc_cipher, mem) \<leftarrow> crypto_call lib (se_cipher_func s) mem data p s;
        (rc_auth, mem) \<leftarrow> crypto_call lib (se_auth_func s) mem data p s;
        Some (rc_cipher, rc_auth, mem)
      }
      else do {
        (rc_auth, mem) \<leftarrow> crypto_call lib (se_auth_func s) mem data p s;
        (rc_cipher, mem) \<leftarrow> crypto_call lib (se_cipher_func s) mem data p s;
        Some (rc_cipher, rc_auth, mem)
      })"

text \<open>
  Completion events. A completion event is the packet with another event type; freeing it makes it a packet again and
  does not give it back to its pool. A timeout is given back like a buffer (\<open>odp_timeout_free\<close>).
\<close>

definition odp_event_type :: "odp_state \<Rightarrow> u32 \<Rightarrow> int" where
  "odp_event_type st ev = bh_event_type (hdr st ev)"

definition buffer_event_type_set :: "u32 \<Rightarrow> int \<Rightarrow> odp_state \<Rightarrow> odp_state" where
  "buffer_event_type_set b ev st = upd_buf b (\<lambda>h. h\<lparr>bh_event_type := ev\<rparr>) st"

definition odp_crypto_compl_from_event :: "odp_state \<Rightarrow> u32 \<Rightarrow> u32 option" where
  "odp_crypto_compl_from_event st ev = (if odp_event_type st ev \<noteq> ODP_EVENT_CRYPTO_COMPL then None else Some ev)"

definition odp_crypto_compl_free :: "u32 \<Rightarrow> odp_state \<Rightarrow> odp_state" where
  "odp_crypto_compl_free completion_event st = buffer_event_type_set completion_event ODP_EVENT_PACKET st"

definition odp_crypto_compl_result :: "odp_crypto_global_t \<Rightarrow> u32 \<Rightarrow> odp_crypto_op_result_t option" where
  "odp_crypto_compl_result g completion_event =
     (let op_result = gl_op_result g completion_event in
      if cg_magic op_result \<noteq> OP_RESULT_MAGIC then None else Some (cg_result op_result))"

definition odp_event_free :: "bool \<Rightarrow> u32 \<Rightarrow> odp_state \<Rightarrow> odp_state option" where
  "odp_event_free nofree ev st =
     (if odp_event_type st ev = ODP_EVENT_BUFFER \<or> odp_event_type st ev = ODP_EVENT_TIMEOUT
      then map_option (\<lambda>t. st\<lparr>os_pools := t\<rparr>) (odp_buffer_free (os_pools st) ev)
      else if odp_event_type st ev = ODP_EVENT_PACKET
      then map_option (\<lambda>t. st\<lparr>os_pools := t\<rparr>) (odp_packet_free nofree (os_pools st) ev)
      else if odp_event_type st ev = ODP_EVENT_CRYPTO_COMPL
      then map_option (\<lambda>c. odp_crypto_compl_free c st) (odp_crypto_compl_from_event st ev)
      else None)"

text \<open>The parts of \<open>odp_crypto_operation\<close>: the output packet, the copy to it, and the result.\<close>

definition crypto_out_pkt ::
  "odp_crypto_op_params_t \<Rightarrow> odp_crypto_generic_session_t \<Rightarrow> odp_state \<Rightarrow> (odp_crypto_op_params_t \<times> odp_state) option" where
  "crypto_out_pkt p s st =
     (case se_output_pool s of
        Some pool \<Rightarrow>
          if cp_out_pkt p \<noteq> 0 then Some (p, st)
          else if cp_pkt p = 0 then None
          else map_option (\<lambda>(out, t). (p\<lparr>cp_out_pkt := out\<rparr>, st\<lparr>os_pools := t\<rparr>))
                 (odp_packet_alloc (os_pools st) pool (odp_packet_len (hdr st (cp_pkt p))))
      | None \<Rightarrow> Some (p, st))"

definition crypto_copy_pkt ::
  "bool \<Rightarrow> odp_crypto_op_params_t \<Rightarrow> odp_state \<Rightarrow> (odp_crypto_op_params_t \<times> odp_state) option" where
  "crypto_copy_pkt nofree p st =
     (if cp_pkt p = cp_out_pkt p then Some (p, st)
      else if cp_out_pkt p = 0 \<or> cp_pkt p = 0 then None
      else do {
        (_, t) \<leftarrow> pkt_copy_range (os_pools st) (cp_pkt p) 0 (cp_out_pkt p) 0 (odp_packet_len (hdr st (cp_pkt p)));
        t \<leftarrow> pkt_copy_md t (cp_pkt p) (cp_out_pkt p);
        t \<leftarrow> odp_packet_free nofree t (cp_pkt p);
        Some (p\<lparr>cp_pkt := 0\<rparr>, st\<lparr>os_pools := t\<rparr>)
      })"

definition crypto_result ::
  "odp_crypto_op_params_t \<Rightarrow> odp_crypto_alg_err_t \<Rightarrow> odp_crypto_alg_err_t \<Rightarrow> odp_crypto_op_result_t" where
  "crypto_result p rc_cipher rc_auth =
     \<lparr>cr_ok = (rc_cipher = ODP_CRYPTO_ALG_ERR_NONE \<and> rc_auth = ODP_CRYPTO_ALG_ERR_NONE), cr_ctx = cp_ctx p, cr_pkt = cp_out_pkt p,
      cr_cipher_status = \<lparr>cc_alg_err = rc_cipher, cc_hw_err = ODP_CRYPTO_HW_ERR_NONE\<rparr>,
      cr_auth_status = \<lparr>cc_alg_err = rc_auth, cc_hw_err = ODP_CRYPTO_HW_ERR_NONE\<rparr>\<rparr>"

abbreviation set_bytes :: "(u32 \<Rightarrow> u8) \<Rightarrow> odp_state \<Rightarrow> odp_state" where
  "set_bytes mem st \<equiv> st\<lparr>os_pools := (os_pools st)\<lparr>pt_mem := (pt_mem (os_pools st))\<lparr>om_byte := mem\<rparr>\<rparr>\<rparr>"

abbreviation bytes_of :: "odp_state \<Rightarrow> u32 \<Rightarrow> u8" where
  "bytes_of st \<equiv> om_byte (pt_mem (os_pools st))"

text \<open>
  The result is the return value, the value of \<open>posted\<close> and of \<open>result\<close> if they are written, and the parameters, which the call
  changes. \<open>with_result\<close> says whether the pointer \<open>result\<close> is not null. A packet that is invalid and the same for input and output is
  not dereferenced when both functions are the null routine, the one case in which the call does not need its data.
\<close>

definition odp_crypto_operation ::
  "crypto_lib \<Rightarrow> (odp_state \<Rightarrow> nat \<Rightarrow> u32 list \<Rightarrow> int \<times> odp_state) \<Rightarrow> bool \<Rightarrow> odp_crypto_op_params_t \<Rightarrow> bool \<Rightarrow>
   odp_crypto_global_t \<Rightarrow> odp_state \<Rightarrow>
   ((int \<times> bool option \<times> odp_crypto_op_result_t option \<times> odp_crypto_op_params_t) \<times> odp_crypto_global_t \<times> odp_state) option" where
  "odp_crypto_operation lib io nofree p with_result g st =
     do {
       let s = gl_sessions g ! cp_session p;
       (p, st) \<leftarrow> crypto_out_pkt p s st;
       (p, st) \<leftarrow> crypto_copy_pkt nofree p st;
       let out = cp_out_pkt p;
       let needs_data = (se_cipher_func s \<noteq> Some Null_crypto_routine \<or> se_auth_func s \<noteq> Some Null_crypto_routine \<or> se_compl_queue s \<noteq> None);
       if out = 0 \<and> needs_data then None
       else do {
         (rc_cipher, rc_auth, mem) \<leftarrow> crypto_invoke lib (bytes_of st) (odp_packet_data (hdr st out)) p s;
         let st = set_bytes mem st;
         let result = crypto_result p rc_cipher rc_auth;
         case se_compl_queue s of
           Some queue \<Rightarrow>
             do {
               let st = buffer_event_type_set out ODP_EVENT_CRYPTO_COMPL st;
               let g = g\<lparr>gl_op_result := (gl_op_result g)(out := \<lparr>cg_magic = OP_RESULT_MAGIC, cg_result = result\<rparr>)\<rparr>;
               (rc, st) \<leftarrow> odp_queue_enq io st queue out;
               if rc \<noteq> 0
               then map_option (\<lambda>st. ((- 1, None, None, p), g, st)) (odp_event_free nofree out st)
               else Some ((0, Some True, None, p), g, st)
             }
         | None \<Rightarrow>
             Some (if \<not> with_result then ((- 1, None, None, p), g, st)
                   else ((0, Some False, Some result, p), g, st))
       }
     }"

section \<open>Random data\<close>

text \<open>
  Random bytes come from a server; its answer to a request of a length is the argument \<open>rpc\<close>: no answer, a refusal, or the
  array of the message and the length it states. A length beyond the array reads outside the message.
\<close>

definition RND_DATA_SIZE :: nat where "RND_DATA_SIZE = 31"

datatype rnd_ack = Rnd_no_answer | Rnd_declined | Rnd_data "u8 list" nat

partial_function (option) random_loop ::
  "('s \<Rightarrow> nat \<Rightarrow> rnd_ack \<times> 's) \<Rightarrow> 's \<Rightarrow> (u32 \<Rightarrow> u8) \<Rightarrow> u32 \<Rightarrow> int \<Rightarrow> nat \<Rightarrow> (nat \<times> (u32 \<Rightarrow> u8) \<times> 's) option" where
  "random_loop rpc srv mem buf len rnd_len =
     (if len = 0 then Some (rnd_len, mem, srv)
      else let pkt_len = min (nat (len mod 2 ^ 32)) RND_DATA_SIZE in
        (case rpc srv pkt_len of
           (Rnd_data rnd n, srv) \<Rightarrow>
             if n > length rnd then None
             else let mem = write_bytes mem (buf + of_nat rnd_len) (take n rnd)
                  in if n = 0 then Some (rnd_len, mem, srv)
                     else random_loop rpc srv mem buf (len - int n) (rnd_len + n)
         | (_, srv) \<Rightarrow> Some (rnd_len, mem, srv)))"

definition odp_random_data where
  "odp_random_data rpc srv mem buf len = random_loop rpc srv mem buf len 0"

section \<open>The free list\<close>

definition sess_free :: "odp_crypto_global_t \<Rightarrow> nat list \<Rightarrow> bool" where
  "sess_free g fs \<longleftrightarrow> chain (\<lambda>n. se_next (gl_sessions g ! n)) (gl_free g) fs None \<and>
     set fs \<subseteq> {..<length (gl_sessions g)}"

lemma sess_free_Nil: "sess_free g [] \<longleftrightarrow> gl_free g = None"
  by (auto simp: sess_free_def)

lemma sess_free_Cons:
  "sess_free g (n # ns) \<Longrightarrow> gl_free g = Some n \<and> n < length (gl_sessions g) \<and> n \<notin> set ns \<and>
     sess_free (g\<lparr>gl_free := se_next (gl_sessions g ! n)\<rparr>) ns"
  using chain_distinct [of "\<lambda>n. se_next (gl_sessions g ! n)" _ "n # ns"] by (auto simp: sess_free_def)

lemma sess_free_upd [simp]:
  assumes "n \<notin> set fs"
  shows "sess_free (g\<lparr>gl_sessions := (gl_sessions g)[n := s]\<rparr>) fs = sess_free g fs"
proof -
  have "(gl_sessions g)[n := s] ! a = gl_sessions g ! a" if "a \<in> set fs" for a
    using that assms by (intro nth_list_update_neq) auto
  then have "chain (\<lambda>i. se_next ((gl_sessions g)[n := s] ! i)) (gl_free g) fs None =
      chain (\<lambda>i. se_next (gl_sessions g ! i)) (gl_free g) fs None" by (intro chain_cong) simp
  then show ?thesis by (simp add: sess_free_def)
qed

lemma free_session_free:
  "sess_free g fs \<Longrightarrow> n \<notin> set fs \<Longrightarrow> n < length (gl_sessions g) \<Longrightarrow> sess_free (free_session n g) (n # fs)"
  using sess_free_upd [of n fs g "(gl_sessions g ! n)\<lparr>se_next := gl_free g\<rparr>"]
  by (auto simp: sess_free_def free_session_def)

lemma fold_free_session:
  "sess_free g fs \<Longrightarrow> distinct ns \<Longrightarrow> set ns \<inter> set fs = {} \<Longrightarrow> set ns \<subseteq> {..<length (gl_sessions g)} \<Longrightarrow>
     sess_free (fold free_session ns g) (rev ns @ fs)"
proof (induction ns arbitrary: g fs)
  case (Cons n ns)
  have "length (gl_sessions (free_session n g)) = length (gl_sessions g)" by (simp add: free_session_def)
  with Cons.IH [OF free_session_free [OF Cons.prems(1), of n]] Cons.prems show ?case by auto
qed simp

lemma crypto_global_init_free: "sess_free (crypto_global_init r) (rev [0..<MAX_SESSIONS])"
  unfolding crypto_global_init_def
  using fold_free_session [of "\<lparr>gl_free = None, gl_sessions = replicate MAX_SESSIONS session_zero, gl_op_result = r\<rparr>" "[]" "[0..<MAX_SESSIONS]"]
  by (simp add: sess_free_Nil lessThan_atLeast0)

lemma count_free_chain: "chain (\<lambda>n. se_next (gl_sessions g ! n)) p fs None \<Longrightarrow> count_free g p = Some (length fs)"
proof (induction fs arbitrary: p)
  case Nil
  then show ?case by (subst count_free.simps) simp
next
  case (Cons n fs)
  then show ?case by (subst count_free.simps) auto
qed

section \<open>Parameters of sessions\<close>

text \<open>The combinations a session can be created with.\<close>

definition cipher_params_ok :: "odp_crypto_session_params_t \<Rightarrow> bool" where
  "cipher_params_ok p \<longleftrightarrow>
     (case cs_cipher_alg p of
        ODP_CIPHER_ALG_NULL \<Rightarrow> True
      | ODP_CIPHER_ALG_DES \<Rightarrow> ci_length (cs_iv p) \<in> {0, 8}
      | ODP_CIPHER_ALG_3DES_CBC \<Rightarrow> ci_length (cs_iv p) \<in> {0, 8}
      | ODP_CIPHER_ALG_AES128_CBC \<Rightarrow> ci_length (cs_iv p) \<in> {0, 16}
      | ODP_CIPHER_ALG_AES128_GCM \<Rightarrow> cs_auth_alg p = ODP_AUTH_ALG_AES128_GCM \<and> ck_length (cs_cipher_key p) = 16
      | Cipher_alg_other \<Rightarrow> False)"

definition auth_params_ok :: "odp_crypto_session_params_t \<Rightarrow> bool" where
  "auth_params_ok p \<longleftrightarrow> cs_auth_alg p \<noteq> Auth_alg_other \<and>
     (cs_auth_alg p = ODP_AUTH_ALG_AES128_GCM \<longrightarrow> cs_cipher_alg p = ODP_CIPHER_ALG_AES128_GCM)"

definition session_set :: "crypto_lib \<Rightarrow> (u32 \<Rightarrow> u8) \<Rightarrow> odp_crypto_session_params_t \<Rightarrow> odp_crypto_generic_session_t \<Rightarrow> odp_crypto_generic_session_t" where
  "session_set lib mem p s = snd (session_auth mem p (snd (session_cipher lib mem p (session_copy p s))))"

lemma session_cipher_rc: "fst (session_cipher lib mem p s) = (if cipher_params_ok p then 0 else - 1)"
  by (auto simp: session_cipher_def cipher_params_ok_def process_des_params_def process_aes_params_def
      process_aes_gcm_params_def Let_def split: odp_cipher_alg_t.split)

lemma session_auth_rc: "fst (session_auth mem p s) = (if auth_params_ok p then 0 else - 1)"
  by (auto simp: session_auth_def auth_params_ok_def process_md5_params_def process_sha256_params_def split: odp_auth_alg_t.split)

lemma session_create_cases:
  assumes "sess_free g fs"
  shows "case fs of
      [] \<Rightarrow> odp_crypto_session_create lib mem p g = ((- 1, None, ODP_CRYPTO_SES_CREATE_ERR_ENOMEM), g)
    | n # ns \<Rightarrow> \<exists>s g'. odp_crypto_session_create lib mem p g =
        (if \<not> cipher_params_ok p then (- 1, None, ODP_CRYPTO_SES_CREATE_ERR_INV_CIPHER)
         else if \<not> auth_params_ok p then (- 1, None, ODP_CRYPTO_SES_CREATE_ERR_INV_AUTH)
         else (0, Some n, ODP_CRYPTO_SES_CREATE_ERR_NONE), g') \<and>
        sess_free g' ns \<and> gl_sessions g' = (gl_sessions g)[n := s] \<and> gl_op_result g' = gl_op_result g \<and>
        (cipher_params_ok p \<longrightarrow> auth_params_ok p \<longrightarrow> s = session_set lib mem p (gl_sessions g ! n))"
proof (cases fs)
  case Nil
  then show ?thesis using assms by (simp add: sess_free_Nil odp_crypto_session_create_def alloc_session_def)
next
  case (Cons n ns)
  from sess_free_Cons [OF assms [unfolded Cons]]
  have f: "gl_free g = Some n" "n < length (gl_sessions g)" "n \<notin> set ns"
    and r: "\<And>s. sess_free (g\<lparr>gl_free := se_next (gl_sessions g ! n), gl_sessions := (gl_sessions g)[n := s]\<rparr>) ns"
    using sess_free_upd [of n ns "g\<lparr>gl_free := se_next (gl_sessions g ! n)\<rparr>"] by auto
  obtain rc s1 where c: "session_cipher lib mem p (session_copy p (gl_sessions g ! n)) = (rc, s1)" by fastforce
  obtain ra s2 where a: "session_auth mem p s1 = (ra, s2)" by fastforce
  have "rc = (if cipher_params_ok p then 0 else - 1)" "ra = (if auth_params_ok p then 0 else - 1)"
    using session_cipher_rc [of lib mem p "session_copy p (gl_sessions g ! n)"] session_auth_rc [of mem p s1] c a by simp_all
  then show ?thesis using f r c a unfolding Cons
    by (simp add: odp_crypto_session_create_def alloc_session_def session_set_def split del: if_split)
      (auto intro: exI)
qed

section \<open>Encoding and decoding\<close>

text \<open>
  What the code relies on of the library: the lengths of the digests, and that a block cipher in chaining mode keeps the length of
  whole blocks and that decryption with the same key and vector undoes encryption.
\<close>

definition crypto_lib_ok :: "crypto_lib \<Rightarrow> bool" where
  "crypto_lib_ok lib \<longleftrightarrow>
     (\<forall>k d. length (cl_hmac_md5 lib k d) = 16) \<and> (\<forall>k d. length (cl_hmac_sha256 lib k d) = 32) \<and>
     (\<forall>k v d. 16 dvd length d \<longrightarrow>
        (let c = cl_aes_cbc lib True (cl_aes_set_encrypt_key lib k) v d
         in length c = length d \<and> cl_aes_cbc lib False (cl_aes_set_decrypt_key lib k) v c = d)) \<and>
     (\<forall>k1 k2 k3 v d. 8 dvd length d \<longrightarrow>
        (let c = cl_des_ede3_cbc lib True k1 k2 k3 v d
         in length c = length d \<and> cl_des_ede3_cbc lib False k1 k2 k3 v c = d))"

definition icv_len :: "odp_auth_alg_t \<Rightarrow> nat" where
  "icv_len alg = (case alg of ODP_AUTH_ALG_MD5_96 \<Rightarrow> 12 | ODP_AUTH_ALG_SHA256_128 \<Rightarrow> 16 | _ \<Rightarrow> 0)"

definition block_len :: "odp_cipher_alg_t \<Rightarrow> nat" where
  "block_len alg = (case alg of ODP_CIPHER_ALG_DES \<Rightarrow> 8 | ODP_CIPHER_ALG_3DES_CBC \<Rightarrow> 8 | ODP_CIPHER_ALG_AES128_CBC \<Rightarrow> 16 | _ \<Rightarrow> 1)"

text \<open>
  The ranges of an operation on \<open>len\<close> bytes at \<open>data\<close>: inside the packet, the digest outside the bytes that are authenticated or
  ciphered, whole blocks, and an initialisation vector that is not part of the packet.
\<close>

definition crypto_ranges_ok :: "odp_crypto_session_params_t \<Rightarrow> odp_crypto_op_params_t \<Rightarrow> u32 \<Rightarrow> nat \<Rightarrow> bool" where
  "crypto_ranges_ok P p data len \<longleftrightarrow>
     (let co = unat (dr_offset (cp_cipher_range p)); cn = unat (dr_length (cp_cipher_range p));
          ao = unat (dr_offset (cp_auth_range p)); an = unat (dr_length (cp_auth_range p));
          ho = unat (cp_hash_result_offset p); hn = icv_len (cs_auth_alg P);
          iv = (if cp_override_iv_ptr p \<noteq> 0 then cp_override_iv_ptr p else ci_data (cs_iv P))
      in unat data + len < 2 ^ 32 \<and> co + cn \<le> len \<and> ao + an \<le> len \<and> ho + hn \<le> len \<and>
         {ho ..< ho + hn} \<inter> {co ..< co + cn} = {} \<and> {ho ..< ho + hn} \<inter> {ao ..< ao + an} = {} \<and>
         block_len (cs_cipher_alg P) dvd cn \<and>
         (cs_cipher_alg P \<noteq> ODP_CIPHER_ALG_NULL \<longrightarrow>
            iv \<noteq> 0 \<and> unat iv + 16 \<le> 2 ^ 32 \<and> {unat iv ..< unat iv + 16} \<inter> {unat data ..< unat data + len} = {}))"

text \<open>Both functions of a cipher, in the form the round trip needs; the null routine is the case of no bytes.\<close>

definition cipher_pair where
  "cipher_pair lib p data e d iv k c n enc dec \<longleftrightarrow>
     (\<forall>m. crypto_call lib (se_cipher_func e) m data p e =
        Some (ODP_CRYPTO_ALG_ERR_NONE, write_bytes m c (enc (read_bytes m iv k) (read_bytes m c n)))) \<and>
     (\<forall>m. crypto_call lib (se_cipher_func d) m data p d =
        Some (ODP_CRYPTO_ALG_ERR_NONE, write_bytes m c (dec (read_bytes m iv k) (read_bytes m c n)))) \<and>
     (\<forall>v x. length x = n \<longrightarrow> length (enc v x) = n \<and> dec v (enc v x) = x)"

definition auth_pair where
  "auth_pair lib p data e d icv b a n hmac \<longleftrightarrow>
     (\<forall>m. crypto_call lib (se_auth_func e) m data p e =
        Some (ODP_CRYPTO_ALG_ERR_NONE, write_bytes m icv (take b (hmac (read_bytes m a n))))) \<and>
     (\<forall>m. crypto_call lib (se_auth_func d) m data p d =
        (let m' = write_bytes m icv (replicate b 0)
         in Some (if read_bytes m icv b \<noteq> take b (hmac (read_bytes m' a n)) then ODP_CRYPTO_ALG_ERR_ICV_CHECK
                  else ODP_CRYPTO_ALG_ERR_NONE, m'))) \<and>
     (\<forall>x. b \<le> length (hmac x :: u8 list))"

lemma auth_pair_roundtrip:
  assumes a: "auth_pair lib p data e d icv b a n hmac"
    and r: "unat icv + b \<le> 2 ^ 32" "unat a + n \<le> 2 ^ 32" "{unat icv ..< unat icv + b} \<inter> {unat a ..< unat a + n} = {}"
    and m': "m' = write_bytes m icv (take b (hmac (read_bytes m a n)))"
  shows "crypto_call lib (se_auth_func d) m' data p d = Some (ODP_CRYPTO_ALG_ERR_NONE, write_bytes m icv (replicate b 0))"
proof -
  let ?h = "take b (hmac (read_bytes m a n))"
  have l: "length ?h = b" "b \<le> 2 ^ 32" using a r(1) by (simp_all add: auth_pair_def)
  have "read_bytes m' icv b = ?h" using read_write_bytes [of ?h m icv] l unfolding m' by simp
  moreover have z: "write_bytes m' icv (replicate b 0) = write_bytes m icv (replicate b 0)"
    unfolding m' using l by (intro write_write_same) simp_all
  moreover have "read_bytes (write_bytes m icv (replicate b 0)) a n = read_bytes m a n"
    using r by (intro read_write_disjoint) simp_all
  ultimately show ?thesis using a by (simp add: auth_pair_def)
qed

lemma invoke_roundtrip:
  assumes c: "cipher_pair lib p data e d iv k c n enc dec" and a: "auth_pair lib p data e d icv b au an hmac"
    and o: "se_do_cipher_first d = (\<not> se_do_cipher_first e)"
    and r: "unat icv + b \<le> 2 ^ 32" "unat au + an \<le> 2 ^ 32" "unat c + n \<le> 2 ^ 32" "unat iv + k \<le> 2 ^ 32"
    and s: "{unat icv ..< unat icv + b} \<inter> {unat au ..< unat au + an} = {}"
      "{unat icv ..< unat icv + b} \<inter> {unat c ..< unat c + n} = {}"
      "{unat iv ..< unat iv + k} \<inter> {unat c ..< unat c + n} = {}" "{unat iv ..< unat iv + k} \<inter> {unat icv ..< unat icv + b} = {}"
  shows "\<exists>m1. crypto_invoke lib m data p e = Some (ODP_CRYPTO_ALG_ERR_NONE, ODP_CRYPTO_ALG_ERR_NONE, m1) \<and>
    crypto_invoke lib m1 data p d = Some (ODP_CRYPTO_ALG_ERR_NONE, ODP_CRYPTO_ALG_ERR_NONE, write_bytes m icv (replicate b 0))"
proof -
  define E where "E m = write_bytes m c (enc (read_bytes m iv k) (read_bytes m c n))" for m
  define D where "D m = write_bytes m c (dec (read_bytes m iv k) (read_bytes m c n))" for m
  define G where "G m = write_bytes m icv (take b (hmac (read_bytes m au an)))" for m
  define Z where "Z m = write_bytes m icv (replicate b 0)" for m
  have ce: "crypto_call lib (se_cipher_func e) m data p e = Some (ODP_CRYPTO_ALG_ERR_NONE, E m)"
    and cd: "crypto_call lib (se_cipher_func d) m data p d = Some (ODP_CRYPTO_ALG_ERR_NONE, D m)"
    and ae: "crypto_call lib (se_auth_func e) m data p e = Some (ODP_CRYPTO_ALG_ERR_NONE, G m)" for m
    using c a by (simp_all add: cipher_pair_def auth_pair_def E_def D_def G_def)
  have ad: "crypto_call lib (se_auth_func d) (G m) data p d = Some (ODP_CRYPTO_ALG_ERR_NONE, Z m)" for m
    unfolding Z_def using a r(1,2) s(1) by (rule auth_pair_roundtrip) (simp add: G_def)
  have law: "length (enc v x) = n" "dec v (enc v x) = x" if "length x = n" for v x
    using c that by (simp_all add: cipher_pair_def)
  have RE: "read_bytes (E m) c n = enc (read_bytes m iv k) (read_bytes m c n)" "read_bytes (E m) iv k = read_bytes m iv k" for m
  proof -
    let ?x = "enc (read_bytes m iv k) (read_bytes m c n)"
    have l: "length ?x = n" by (simp add: law)
    then show "read_bytes (E m) c n = ?x" using read_write_bytes [of ?x m c] r(3) by (simp add: E_def)
    show "read_bytes (E m) iv k = read_bytes m iv k"
      unfolding E_def using r(3,4) s(3) l by (intro read_write_disjoint) auto
  qed
  have D1: "D (E m) = m" for m
  proof -
    have "D (E m) = write_bytes (E m) c (read_bytes m c n)" by (simp add: D_def RE law)
    also have "\<dots> = m" using r(3) by (simp add: E_def law write_write_same write_read_same)
    finally show ?thesis .
  qed
  have DZ: "D (Z m) = Z (D m)" if "length (dec (read_bytes m iv k) (read_bytes m c n)) = n" for m
  proof -
    have "read_bytes (Z m) c n = read_bytes m c n" "read_bytes (Z m) iv k = read_bytes m iv k"
      unfolding Z_def using r s by (intro read_write_disjoint; auto)+
    then show ?thesis unfolding D_def using r s that unfolding Z_def by (simp, intro write_write_commute) auto
  qed
  have "length (dec (read_bytes (E m) iv k) (read_bytes (E m) c n)) = n" by (simp add: RE law)
  then have "D (Z (E m)) = Z m" by (simp add: DZ D1)
  then show ?thesis using o ce cd ae ad D1
    by (cases "se_do_cipher_first e") (auto simp: crypto_invoke_def Z_def)
qed


lemma session_set_fields [simp]:
  "se_do_cipher_first (session_set lib mem p s) = (if cs_op p = ODP_CRYPTO_OP_ENCODE then cs_auth_cipher_text p else \<not> cs_auth_cipher_text p)"
  "se_compl_queue (session_set lib mem p s) = cs_compl_queue p"
  "se_output_pool (session_set lib mem p s) = cs_output_pool p"
  "se_iv_data (session_set lib mem p s) = ci_data (cs_iv p)"
  by (auto simp: session_set_def session_auth_def session_cipher_def session_copy_def process_des_params_def process_aes_params_def
      process_aes_gcm_params_def process_md5_params_def process_sha256_params_def Let_def
      split: odp_cipher_alg_t.split odp_auth_alg_t.split)

lemma session_set_cipher:
  "se_cipher_func (session_set lib mem p s) = se_cipher_func (snd (session_cipher lib mem p (session_copy p s)))"
  "se_cipher_data (session_set lib mem p s) = se_cipher_data (snd (session_cipher lib mem p (session_copy p s)))"
  by (auto simp: session_set_def session_auth_def process_md5_params_def process_sha256_params_def split: odp_auth_alg_t.split)

lemma cbc_pairI:
  assumes "\<And>m. crypto_call lib (se_cipher_func e) m data p e = Some (cbc_apply enc k m data p e)"
    and "\<And>m. crypto_call lib (se_cipher_func d) m data p d = Some (cbc_apply dec k m data p d)"
    and "iv_ptr p e = Some iv" "iv_ptr p d = Some iv"
    and "\<And>v x. length x = unat (dr_length (cp_cipher_range p)) \<Longrightarrow> length (enc v x) = length x \<and> dec v (enc v x) = x"
  shows "cipher_pair lib p data e d iv k (data + dr_offset (cp_cipher_range p)) (unat (dr_length (cp_cipher_range p))) enc dec"
  using assms by (simp add: cipher_pair_def cbc_apply_def Let_def)

lemma crypto_lib_aes:
  "crypto_lib_ok lib \<Longrightarrow> 16 dvd length x \<Longrightarrow>
     length (cl_aes_cbc lib True (cl_aes_set_encrypt_key lib k) v x) = length x \<and>
     cl_aes_cbc lib False (cl_aes_set_decrypt_key lib k) v (cl_aes_cbc lib True (cl_aes_set_encrypt_key lib k) v x) = x"
  unfolding crypto_lib_ok_def Let_def by blast

lemma crypto_lib_des:
  "crypto_lib_ok lib \<Longrightarrow> 8 dvd length x \<Longrightarrow>
     length (cl_des_ede3_cbc lib True k1 k2 k3 v x) = length x \<and>
     cl_des_ede3_cbc lib False k1 k2 k3 v (cl_des_ede3_cbc lib True k1 k2 k3 v x) = x"
  unfolding crypto_lib_ok_def Let_def by blast

lemma session_iv:
  assumes "crypto_ranges_ok P p data len" "cs_cipher_alg P \<noteq> ODP_CIPHER_ALG_NULL" "se_iv_data s = ci_data (cs_iv P)"
  shows "iv_ptr p s = Some (if cp_override_iv_ptr p \<noteq> 0 then cp_override_iv_ptr p else ci_data (cs_iv P))"
  using assms unfolding crypto_ranges_ok_def Let_def iv_ptr_def by (cases "cp_override_iv_ptr p = 0") simp_all

lemma session_cipher_pair:
  fixes lib P p s s' mem
  defines "e \<equiv> session_set lib mem P s" and "d \<equiv> session_set lib mem (P\<lparr>cs_op := ODP_CRYPTO_OP_DECODE\<rparr>) s'"
    and "iv \<equiv> (if cp_override_iv_ptr p \<noteq> 0 then cp_override_iv_ptr p else ci_data (cs_iv P))"
  assumes lib: "crypto_lib_ok lib" and P: "cs_op P = ODP_CRYPTO_OP_ENCODE" "cs_cipher_alg P \<noteq> ODP_CIPHER_ALG_AES128_GCM"
    "cipher_params_ok P" and r: "crypto_ranges_ok P p data len"
  obtains k n enc dec where "k \<le> (if cs_cipher_alg P = ODP_CIPHER_ALG_NULL then 0 else 16)" "n \<le> unat (dr_length (cp_cipher_range p))"
    "cipher_pair lib p data e d iv k (data + dr_offset (cp_cipher_range p)) n enc dec"
proof -
  let ?n = "unat (dr_length (cp_cipher_range p))"
  consider (null) "cs_cipher_alg P = ODP_CIPHER_ALG_NULL" | (aes) "cs_cipher_alg P = ODP_CIPHER_ALG_AES128_CBC"
    | (des) "cs_cipher_alg P \<in> {ODP_CIPHER_ALG_DES, ODP_CIPHER_ALG_3DES_CBC}"
    using P by (cases "cs_cipher_alg P") (auto simp: cipher_params_ok_def)
  then show thesis
  proof cases
    case null
    then show thesis using P unfolding e_def d_def
      by (intro that [of 0 0 "\<lambda>_ x. x" "\<lambda>_ x. x"])
        (simp_all add: cipher_pair_def session_set_cipher session_cipher_def crypto_call_def read_bytes_def e_def d_def)
  next
    case aes
    let ?key = "read_bytes mem (ck_data (cs_cipher_key P)) 16"
    have i: "ci_length (cs_iv P) = 0 \<or> ci_length (cs_iv P) = 16" "16 dvd ?n"
      using P r aes by (auto simp: cipher_params_ok_def crypto_ranges_ok_def block_len_def Let_def)
    have s: "se_cipher_func e = Some Aes_encrypt" "se_cipher_data e = Cipher_aes (cl_aes_set_encrypt_key lib ?key)"
      "se_cipher_func d = Some Aes_decrypt" "se_cipher_data d = Cipher_aes (cl_aes_set_decrypt_key lib ?key)"
      using i P aes unfolding e_def d_def by (auto simp: session_set_cipher session_cipher_def process_aes_params_def)
    have v: "iv_ptr p e = Some iv" "iv_ptr p d = Some iv"
      unfolding iv_def using r aes by (intro session_iv; simp add: e_def d_def)+
    have "cipher_pair lib p data e d iv 16 (data + dr_offset (cp_cipher_range p)) ?n
        (cl_aes_cbc lib True (cl_aes_set_encrypt_key lib ?key)) (cl_aes_cbc lib False (cl_aes_set_decrypt_key lib ?key))"
      using i by (intro cbc_pairI v crypto_lib_aes [OF lib])
        (simp_all add: s crypto_call_def aes_encrypt_def aes_decrypt_def AES_BLOCK_SIZE_def)
    then show thesis using aes by (intro that) auto
  next
    case des
    let ?key = "\<lambda>i. cl_des_set_key lib (read_bytes mem (ck_data (cs_cipher_key P) + i) 8)"
    have i: "ci_length (cs_iv P) = 0 \<or> ci_length (cs_iv P) = 8" "8 dvd ?n"
      using P r des by (auto simp: cipher_params_ok_def crypto_ranges_ok_def block_len_def Let_def)
    have s: "se_cipher_func e = Some Des_encrypt" "se_cipher_data e = Cipher_des (?key 0) (?key 8) (?key 16)"
      "se_cipher_func d = Some Des_decrypt" "se_cipher_data d = Cipher_des (?key 0) (?key 8) (?key 16)"
      using i P des unfolding e_def d_def by (auto simp: session_set_cipher session_cipher_def process_des_params_def DES_CBLOCK_SIZE_def)
    have v: "iv_ptr p e = Some iv" "iv_ptr p d = Some iv"
      unfolding iv_def using r des by (intro session_iv; auto simp: e_def d_def)+
    have "cipher_pair lib p data e d iv 8 (data + dr_offset (cp_cipher_range p)) ?n
        (cl_des_ede3_cbc lib True (?key 0) (?key 8) (?key 16)) (cl_des_ede3_cbc lib False (?key 0) (?key 8) (?key 16))"
      using i by (intro cbc_pairI v crypto_lib_des [OF lib])
        (simp_all add: s crypto_call_def des_encrypt_def des_decrypt_def DES_CBLOCK_SIZE_def)
    then show thesis using des by (intro that) auto
  qed
qed

lemma session_auth_pair:
  assumes lib: "crypto_lib_ok lib" and P: "cs_op P = ODP_CRYPTO_OP_ENCODE" "auth_params_ok P"
    and a: "a = data + dr_offset (cp_auth_range p)" and icv: "icv = data + cp_hash_result_offset p"
  obtains n hmac where "n \<le> unat (dr_length (cp_auth_range p))"
    "auth_pair lib p data (session_set lib mem P s) (session_set lib mem (P\<lparr>cs_op := ODP_CRYPTO_OP_DECODE\<rparr>) s') icv
       (icv_len (cs_auth_alg P)) a n hmac"
proof (cases "cs_auth_alg P")
  case ODP_AUTH_ALG_MD5_96
  show thesis using lib P a icv ODP_AUTH_ALG_MD5_96
    by (intro that [of "unat (dr_length (cp_auth_range p))" "cl_hmac_md5 lib (read_bytes mem (ck_data (cs_auth_key P)) 16)"])
      (auto simp: auth_pair_def session_set_def session_auth_def crypto_call_def process_md5_params_def md5_gen_def md5_check_def
        icv_gen_def icv_check_def crypto_lib_ok_def icv_len_def Let_def)
next
  case ODP_AUTH_ALG_SHA256_128
  show thesis using lib P a icv ODP_AUTH_ALG_SHA256_128
    by (intro that [of "unat (dr_length (cp_auth_range p))" "cl_hmac_sha256 lib (read_bytes mem (ck_data (cs_auth_key P)) 32)"])
      (auto simp: auth_pair_def session_set_def session_auth_def crypto_call_def process_sha256_params_def sha256_gen_def sha256_check_def
        icv_gen_def icv_check_def crypto_lib_ok_def icv_len_def Let_def)
qed (use P in \<open>intro that [of 0 "\<lambda>_. []"],
    auto simp: auth_pair_def auth_params_ok_def session_set_def session_auth_def crypto_call_def icv_len_def read_bytes_def\<close>)

lemma unat_add_le: "unat a + n < 2 ^ 32 \<Longrightarrow> unat b \<le> n \<Longrightarrow> unat (a + b :: u32) = unat a + unat b"
  by (simp add: unat_word_ariths)

lemma session_roundtrip:
  assumes lib: "crypto_lib_ok lib" and P: "cs_op P = ODP_CRYPTO_OP_ENCODE" "cs_cipher_alg P \<noteq> ODP_CIPHER_ALG_AES128_GCM"
    "cipher_params_ok P" "auth_params_ok P" and r: "crypto_ranges_ok P p data len"
  shows "\<exists>m1. crypto_invoke lib m data p (session_set lib mem P s) = Some (ODP_CRYPTO_ALG_ERR_NONE, ODP_CRYPTO_ALG_ERR_NONE, m1) \<and>
    crypto_invoke lib m1 data p (session_set lib mem (P\<lparr>cs_op := ODP_CRYPTO_OP_DECODE\<rparr>) s') =
      Some (ODP_CRYPTO_ALG_ERR_NONE, ODP_CRYPTO_ALG_ERR_NONE,
        write_bytes m (data + cp_hash_result_offset p) (replicate (icv_len (cs_auth_alg P)) 0))"
proof -
  let ?iv = "if cp_override_iv_ptr p \<noteq> 0 then cp_override_iv_ptr p else ci_data (cs_iv P)"
  let ?co = "unat (dr_offset (cp_cipher_range p))" and ?cn = "unat (dr_length (cp_cipher_range p))"
  let ?ao = "unat (dr_offset (cp_auth_range p))" and ?an = "unat (dr_length (cp_auth_range p))"
  let ?ho = "unat (cp_hash_result_offset p)" and ?hn = "icv_len (cs_auth_alg P)"
  obtain k n enc dec where k: "k \<le> (if cs_cipher_alg P = ODP_CIPHER_ALG_NULL then 0 else 16)" and n: "n \<le> ?cn"
    and c: "cipher_pair lib p data (session_set lib mem P s) (session_set lib mem (P\<lparr>cs_op := ODP_CRYPTO_OP_DECODE\<rparr>) s')
        ?iv k (data + dr_offset (cp_cipher_range p)) n enc dec"
    by (rule session_cipher_pair [OF lib P(1-3) r])
  obtain an hmac where an: "an \<le> ?an"
    and a: "auth_pair lib p data (session_set lib mem P s) (session_set lib mem (P\<lparr>cs_op := ODP_CRYPTO_OP_DECODE\<rparr>) s')
        (data + cp_hash_result_offset p) ?hn (data + dr_offset (cp_auth_range p)) an hmac"
    by (rule session_auth_pair [OF lib P(1,4) refl refl])
  have b: "unat data + len < 2 ^ 32" "?co + ?cn \<le> len" "?ao + ?an \<le> len" "?ho + ?hn \<le> len"
    and d: "{?ho ..< ?ho + ?hn} \<inter> {?co ..< ?co + ?cn} = {}" "{?ho ..< ?ho + ?hn} \<inter> {?ao ..< ?ao + ?an} = {}"
    and v: "cs_cipher_alg P \<noteq> ODP_CIPHER_ALG_NULL \<Longrightarrow>
      unat ?iv + 16 \<le> 2 ^ 32 \<and> {unat ?iv ..< unat ?iv + 16} \<inter> {unat data ..< unat data + len} = {}"
    using r by (simp_all only: crypto_ranges_ok_def Let_def split: if_splits) blast+
  have u: "unat (data + dr_offset (cp_cipher_range p)) = unat data + ?co" "unat (data + dr_offset (cp_auth_range p)) = unat data + ?ao"
    "unat (data + cp_hash_result_offset p) = unat data + ?ho"
    using b by (intro unat_add_le [OF b(1)]; simp)+
  have iv: "unat ?iv + k \<le> 2 ^ 32" "{unat ?iv ..< unat ?iv + k} \<inter> {unat data ..< unat data + len} = {}"
    using v k u32_bound [of ?iv] by (cases "cs_cipher_alg P = ODP_CIPHER_ALG_NULL"; fastforce)+
  show ?thesis
  proof (rule invoke_roundtrip [OF c a])
    show "{unat (data + cp_hash_result_offset p) ..< unat (data + cp_hash_result_offset p) + ?hn} \<inter>
        {unat (data + dr_offset (cp_auth_range p)) ..< unat (data + dr_offset (cp_auth_range p)) + an} = {}"
      "{unat (data + cp_hash_result_offset p) ..< unat (data + cp_hash_result_offset p) + ?hn} \<inter>
        {unat (data + dr_offset (cp_cipher_range p)) ..< unat (data + dr_offset (cp_cipher_range p)) + n} = {}"
      using d an n by (auto simp: u disjoint_iff)
    show "{unat ?iv ..< unat ?iv + k} \<inter> {unat (data + dr_offset (cp_cipher_range p)) ..< unat (data + dr_offset (cp_cipher_range p)) + n} = {}"
      "{unat ?iv ..< unat ?iv + k} \<inter> {unat (data + cp_hash_result_offset p) ..< unat (data + cp_hash_result_offset p) + ?hn} = {}"
      using iv(2) b n by (force simp: u disjoint_iff)+
  qed (use b iv an n P in \<open>simp_all add: u\<close>)
qed

lemma crypto_func_session:
  "icv_gen h b m data (p\<lparr>cp_session := x\<rparr>) = icv_gen h b m data p"
  "icv_check h b m data (p\<lparr>cp_session := x\<rparr>) = icv_check h b m data p"
  "cbc_apply c n m data (p\<lparr>cp_session := x\<rparr>) s = cbc_apply c n m data p s"
  "iv_ptr (p\<lparr>cp_session := x\<rparr>) s = iv_ptr p s" "gcm_ranges_bad (p\<lparr>cp_session := x\<rparr>) = gcm_ranges_bad p"
  by (simp_all add: icv_gen_def icv_check_def cbc_apply_def iv_ptr_def gcm_ranges_bad_def)

lemma crypto_funcs_session:
  "md5_gen lib m data (p\<lparr>cp_session := x\<rparr>) s = md5_gen lib m data p s" "md5_check lib m data (p\<lparr>cp_session := x\<rparr>) s = md5_check lib m data p s"
  "sha256_gen lib m data (p\<lparr>cp_session := x\<rparr>) s = sha256_gen lib m data p s"
  "sha256_check lib m data (p\<lparr>cp_session := x\<rparr>) s = sha256_check lib m data p s"
  "aes_encrypt lib m data (p\<lparr>cp_session := x\<rparr>) s = aes_encrypt lib m data p s"
  "aes_decrypt lib m data (p\<lparr>cp_session := x\<rparr>) s = aes_decrypt lib m data p s"
  "des_encrypt lib m data (p\<lparr>cp_session := x\<rparr>) s = des_encrypt lib m data p s"
  "des_decrypt lib m data (p\<lparr>cp_session := x\<rparr>) s = des_decrypt lib m data p s"
  "aes_gcm_encrypt lib m data (p\<lparr>cp_session := x\<rparr>) s = aes_gcm_encrypt lib m data p s"
  "aes_gcm_decrypt lib m data (p\<lparr>cp_session := x\<rparr>) s = aes_gcm_decrypt lib m data p s"
  by (simp_all add: md5_gen_def md5_check_def sha256_gen_def sha256_check_def aes_encrypt_def aes_decrypt_def des_encrypt_def des_decrypt_def
      aes_gcm_encrypt_def aes_gcm_decrypt_def crypto_func_session Let_def
      cong: auth_data.case_cong cipher_data.case_cong option.case_cong prod.case_cong if_cong)

lemma crypto_call_session [simp]: "crypto_call lib f m data (p\<lparr>cp_session := x\<rparr>) s = crypto_call lib f m data p s"
  by (simp only: crypto_call_def crypto_funcs_session)

lemma crypto_invoke_session [simp]: "crypto_invoke lib m data (p\<lparr>cp_session := x\<rparr>) s = crypto_invoke lib m data p s"
  by (simp add: crypto_invoke_def)

lemma set_bytes_sel [simp]: "hdr (set_bytes m st) a = hdr st a" "bytes_of (set_bytes m st) = m" "set_bytes m (set_bytes m' st) = set_bytes m st"
  by (simp_all add: hdr_def)

lemma operation_in_place:
  assumes "cp_pkt p \<noteq> 0" "cp_out_pkt p = cp_pkt p" "pkt_wf (hdr st (cp_pkt p))"
    and "se_compl_queue (gl_sessions g ! cp_session p) = None"
    and "crypto_invoke lib (bytes_of st) (pkt_start (hdr st (cp_pkt p))) p (gl_sessions g ! cp_session p) = Some (rc, ra, m)"
  shows "odp_crypto_operation lib io nofree p True g st =
    Some ((0, Some False, Some (crypto_result p rc ra), p), g, set_bytes m st)"
proof -
  have "odp_packet_data (hdr st (cp_pkt p)) = pkt_start (hdr st (cp_pkt p))"
    using packet_map_in [OF assms(3), of 0] by (simp add: odp_packet_data_def)
  then show ?thesis using assms
    by (simp add: odp_crypto_operation_def crypto_out_pkt_def crypto_copy_pkt_def Let_def cong: option.case_cong split: option.split)
qed

text \<open>C10. Encoding a packet in place and decoding it again gives it back. Two sessions are created with the same algorithms, keys,
  initialisation vector and order of cipher and digest, one to encode and one to decode; the cipher is null, DES, triple DES or AES in
  chaining mode, the digest null, MD5 or SHA-256. When the ranges lie in the packet, the digest is stored outside the bytes it
  covers and the bytes that are ciphered, and the cipher range consists of whole blocks, both operations return 0 with a result that is
  ok, and afterwards the memory is the one before the encoding except for the bytes of the digest, which are zero. No header,
  queue or pool changes.\<close>

theorem crypto_roundtrip:
  assumes "crypto_lib_ok lib" and "sess_free g0 fs"
    and "cs_op P = ODP_CRYPTO_OP_ENCODE" "cs_cipher_alg P \<noteq> ODP_CIPHER_ALG_AES128_GCM" "cs_compl_queue P = None"
    and "odp_crypto_session_create lib mem P g0 = ((0, Some e, s1), g1)"
    and "odp_crypto_session_create lib mem (P\<lparr>cs_op := ODP_CRYPTO_OP_DECODE\<rparr>) g1 = ((0, Some d, s2), g)"
    and "cp_pkt p \<noteq> 0" "cp_out_pkt p = cp_pkt p" "pkt_wf (hdr st (cp_pkt p))"
    and "crypto_ranges_ok P p (pkt_start (hdr st (cp_pkt p))) (unat (ph_frame_len (hdr st (cp_pkt p))))"
  shows "\<exists>r m r'. odp_crypto_operation lib io nofree (p\<lparr>cp_session := e\<rparr>) True g st =
      Some ((0, Some False, Some r, p\<lparr>cp_session := e\<rparr>), g, set_bytes m st) \<and> cr_ok r \<and>
    odp_crypto_operation lib io nofree (p\<lparr>cp_session := d\<rparr>) True g (set_bytes m st) =
      Some ((0, Some False, Some r', p\<lparr>cp_session := d\<rparr>), g,
        set_bytes (write_bytes (bytes_of st) (pkt_start (hdr st (cp_pkt p)) + cp_hash_result_offset p)
          (replicate (icv_len (cs_auth_alg P)) 0)) st) \<and> cr_ok r'"
proof -
  let ?D = "P\<lparr>cs_op := ODP_CRYPTO_OP_DECODE\<rparr>"
  obtain n ns where f: "fs = n # ns" and ok: "cipher_params_ok P" "auth_params_ok P" "e = n" and f1: "sess_free g1 ns"
    and g1: "gl_sessions g1 = (gl_sessions g0)[n := session_set lib mem P (gl_sessions g0 ! n)]"
    using session_create_cases [OF assms(2), of lib mem P] assms(6) by (auto split: list.splits if_splits)
  obtain n' ns' where f': "ns = n' # ns'" and d: "d = n'"
    and g: "gl_sessions g = (gl_sessions g1)[n' := session_set lib mem ?D (gl_sessions g1 ! n')]"
    using session_create_cases [OF f1, of lib mem ?D] assms(7) by (auto split: list.splits if_splits)
  have "n < length (gl_sessions g0)" "n' < length (gl_sessions g1)" "n \<noteq> n'"
    using sess_free_Cons [OF assms(2) [unfolded f]] sess_free_Cons [OF f1 [unfolded f']] f' by auto
  then have s: "gl_sessions g ! e = session_set lib mem P (gl_sessions g0 ! n)" "gl_sessions g ! d = session_set lib mem ?D (gl_sessions g1 ! n')"
    unfolding g d ok(3) using g1 by simp_all
  let ?a = "pkt_start (hdr st (cp_pkt p))"
  obtain m where m: "crypto_invoke lib (bytes_of st) ?a p (gl_sessions g ! e) = Some (ODP_CRYPTO_ALG_ERR_NONE, ODP_CRYPTO_ALG_ERR_NONE, m)"
    "crypto_invoke lib m ?a p (gl_sessions g ! d) = Some (ODP_CRYPTO_ALG_ERR_NONE, ODP_CRYPTO_ALG_ERR_NONE,
        write_bytes (bytes_of st) (?a + cp_hash_result_offset p) (replicate (icv_len (cs_auth_alg P)) 0))"
    unfolding s using session_roundtrip [OF assms(1,3,4) ok(1,2) assms(11)] by blast
  have q: "se_compl_queue (gl_sessions g ! e) = None" "se_compl_queue (gl_sessions g ! d) = None"
    using assms(5) by (simp_all add: s)
  show ?thesis
    using operation_in_place [of "p\<lparr>cp_session := e\<rparr>" st g lib _ _ m] operation_in_place [of "p\<lparr>cp_session := d\<rparr>" "set_bytes m st" g lib]
      assms(8-10) q m by (auto simp: crypto_result_def)
qed

lemma session_cipher_returns:
  assumes "cipher_params_ok P" "cs_cipher_alg P \<noteq> ODP_CIPHER_ALG_AES128_GCM"
  shows "\<exists>r. crypto_call lib (se_cipher_func (session_set lib mem P s)) m data p (session_set lib mem P s) = Some r"
  using assms by (cases "cs_cipher_alg P"; cases "cs_op P")
    (auto simp: cipher_params_ok_def session_set_cipher session_cipher_def process_des_params_def process_aes_params_def Let_def
      crypto_call_def aes_encrypt_def aes_decrypt_def des_encrypt_def des_decrypt_def)

text \<open>C20. The decoding operation decides by the digest. For a session that checks an MD5 or SHA-256 digest before it deciphers, an
  operation in place returns 0, and its result reports success of the authentication exactly when the bytes found in
  the place of the digest are the first 12 or 16 bytes of the digest over the authenticated bytes, computed with that place cleared;
  otherwise it reports a failed check and the result is not ok.\<close>

theorem crypto_icv_decides:
  assumes "crypto_lib_ok lib" and "sess_free g0 fs"
    and "cs_op P = ODP_CRYPTO_OP_DECODE" "cs_auth_cipher_text P" "cs_compl_queue P = None"
    and "cs_cipher_alg P \<noteq> ODP_CIPHER_ALG_AES128_GCM"
    and "cs_auth_alg P = ODP_AUTH_ALG_MD5_96 \<and> hmac = cl_hmac_md5 lib (read_bytes mem (ck_data (cs_auth_key P)) 16) \<or>
         cs_auth_alg P = ODP_AUTH_ALG_SHA256_128 \<and> hmac = cl_hmac_sha256 lib (read_bytes mem (ck_data (cs_auth_key P)) 32)"
    and "odp_crypto_session_create lib mem P g0 = ((0, Some (cp_session p), s1), g)"
    and "cp_pkt p \<noteq> 0" "cp_out_pkt p = cp_pkt p" "pkt_wf (hdr st (cp_pkt p))"
    and "n = icv_len (cs_auth_alg P)" "icv = pkt_start (hdr st (cp_pkt p)) + cp_hash_result_offset p"
  shows "\<exists>r m. odp_crypto_operation lib io nofree p True g st = Some ((0, Some False, Some r, p), g, set_bytes m st) \<and>
    (if read_bytes (bytes_of st) icv n = take n (hmac (read_bytes (write_bytes (bytes_of st) icv (replicate n 0))
          (pkt_start (hdr st (cp_pkt p)) + dr_offset (cp_auth_range p)) (unat (dr_length (cp_auth_range p)))))
     then cc_alg_err (cr_auth_status r) = ODP_CRYPTO_ALG_ERR_NONE
     else cc_alg_err (cr_auth_status r) = ODP_CRYPTO_ALG_ERR_ICV_CHECK \<and> \<not> cr_ok r)"
proof -
  obtain k ns where f: "fs = k # ns" and ok: "cipher_params_ok P" "auth_params_ok P" "cp_session p = k"
    and g: "gl_sessions g = (gl_sessions g0)[k := session_set lib mem P (gl_sessions g0 ! k)]"
    using session_create_cases [OF assms(2), of lib mem P] assms(8) by (auto split: list.splits if_splits)
  let ?s = "session_set lib mem P (gl_sessions g0 ! k)" and ?a = "pkt_start (hdr st (cp_pkt p))"
  have s: "gl_sessions g ! cp_session p = ?s"
    using sess_free_Cons [OF assms(2) [unfolded f]] by (simp add: g ok(3))
  define h where "h = hmac (read_bytes (write_bytes (bytes_of st) icv (replicate n 0)) (?a + dr_offset (cp_auth_range p)) (unat (dr_length (cp_auth_range p))))"
  have n: "n \<le> 16" "16 \<le> length h" using assms(1,7,12) by (auto simp: crypto_lib_ok_def icv_len_def h_def)
  obtain m where a: "crypto_call lib (se_auth_func ?s) (bytes_of st) ?a p ?s =
      Some (if read_bytes (bytes_of st) icv n = take n h then ODP_CRYPTO_ALG_ERR_NONE else ODP_CRYPTO_ALG_ERR_ICV_CHECK, m)"
    using assms(3,7,12,13) n
    by (auto simp: session_set_def session_auth_def process_md5_params_def process_sha256_params_def crypto_call_def md5_check_def
        sha256_check_def icv_check_def icv_len_def h_def Let_def)
  obtain rc m' where c: "crypto_call lib (se_cipher_func ?s) m ?a p ?s = Some (rc, m')"
    using session_cipher_returns [OF ok(1) assms(6), of lib mem "gl_sessions g0 ! k" m ?a p] by fastforce
  have "crypto_invoke lib (bytes_of st) ?a p (gl_sessions g ! cp_session p) =
      Some (rc, if read_bytes (bytes_of st) icv n = take n h then ODP_CRYPTO_ALG_ERR_NONE else ODP_CRYPTO_ALG_ERR_ICV_CHECK, m')"
    using assms(3,4) a c by (simp add: crypto_invoke_def s)
  from operation_in_place [OF assms(9-11) _ this] have
    "odp_crypto_operation lib io nofree p True g st = Some ((0, Some False, Some (crypto_result p rc
        (if read_bytes (bytes_of st) icv n = take n h then ODP_CRYPTO_ALG_ERR_NONE else ODP_CRYPTO_ALG_ERR_ICV_CHECK)), p), g, set_bytes m' st)"
    using assms(5) s by simp
  then show ?thesis unfolding h_def [symmetric] by (auto simp: crypto_result_def)
qed

text \<open>C21. Decoding with AES in Galois/Counter mode accepts every tag. The final call of the library returns 1 when the tag
  matches and 0 when it does not, and the code asks only whether the value is negative: whatever the packet holds in the place of
  the tag, an operation in place with an initialisation vector and with the cipher range inside the authenticated range returns a
  result that is ok. It is assumed that the calls of the library return, also the one for authenticated bytes behind the cipher range, if
  there are any, to which the code passes a null pointer for the length.\<close>

theorem crypto_gcm_accepts_any_tag:
  assumes "sess_free g0 fs" "\<And>ctx iv tag hd ct tl. cl_gcm_decrypt lib ctx iv tag hd ct tl \<in> Some ` (UNIV \<times> {0, 1})"
    and "cs_op P = ODP_CRYPTO_OP_DECODE" "cs_cipher_alg P = ODP_CIPHER_ALG_AES128_GCM" "cs_compl_queue P = None"
    and "odp_crypto_session_create lib mem P g0 = ((0, Some (cp_session p), s1), g)"
    and "cp_pkt p \<noteq> 0" "cp_out_pkt p = cp_pkt p" "pkt_wf (hdr st (cp_pkt p))"
    and "cp_override_iv_ptr p \<noteq> 0 \<or> ci_data (cs_iv P) \<noteq> 0" "\<not> gcm_ranges_bad p"
  shows "\<exists>r m. odp_crypto_operation lib io nofree p True g st = Some ((0, Some False, Some r, p), g, set_bytes m st) \<and> cr_ok r"
proof -
  obtain k ns where f: "fs = k # ns" and ok: "cipher_params_ok P" "auth_params_ok P" "cp_session p = k"
    and g: "gl_sessions g = (gl_sessions g0)[k := session_set lib mem P (gl_sessions g0 ! k)]"
    using session_create_cases [OF assms(1), of lib mem P] assms(6) by (auto split: list.splits if_splits)
  let ?s = "session_set lib mem P (gl_sessions g0 ! k)" and ?a = "pkt_start (hdr st (cp_pkt p))"
  have s: "gl_sessions g ! cp_session p = ?s"
    using sess_free_Cons [OF assms(1) [unfolded f]] by (simp add: g ok(3))
  have au: "cs_auth_alg P = ODP_AUTH_ALG_AES128_GCM" "ck_length (cs_cipher_key P) = 16" using ok(1) assms(4) by (simp_all add: cipher_params_ok_def)
  obtain ctx where c: "se_cipher_func ?s = Some Aes_gcm_decrypt" "se_cipher_data ?s = Cipher_aes_gcm ctx" "se_auth_func ?s = Some Null_crypto_routine"
    using assms(3,4) au by (simp add: session_set_def session_cipher_def session_auth_def process_aes_gcm_params_def)
  obtain iv where iv: "iv_ptr p ?s = Some iv" using assms(10) by (cases "cp_override_iv_ptr p = 0") (auto simp: iv_ptr_def)
  define out v where "out iv' tag hd ct tl = fst (the (cl_gcm_decrypt lib ctx iv' tag hd ct tl))"
    and "v iv' tag hd ct tl = snd (the (cl_gcm_decrypt lib ctx iv' tag hd ct tl))" for iv' tag hd ct tl
  have "cl_gcm_decrypt lib ctx iv' tag hd ct tl = Some (out iv' tag hd ct tl, v iv' tag hd ct tl) \<and> \<not> v iv' tag hd ct tl < 0" for iv' tag hd ct tl
    using assms(2) [of ctx iv' tag hd ct tl] by (auto simp: out_def v_def)
  then have "\<exists>m'. crypto_call lib (se_cipher_func ?s) m ?a p ?s = Some (ODP_CRYPTO_ALG_ERR_NONE, m')" for m
    using assms(11) by (simp add: c iv crypto_call_def aes_gcm_decrypt_def Let_def)
  then obtain m where m: "crypto_call lib (se_cipher_func ?s) (bytes_of st) ?a p ?s = Some (ODP_CRYPTO_ALG_ERR_NONE, m)" by blast
  then have "crypto_invoke lib (bytes_of st) ?a p (gl_sessions g ! cp_session p) = Some (ODP_CRYPTO_ALG_ERR_NONE, ODP_CRYPTO_ALG_ERR_NONE, m)"
    unfolding s by (simp add: crypto_invoke_def c(3)) (simp add: crypto_call_def)
  from operation_in_place [OF assms(7-9) _ this] show ?thesis
    using assms(5) s by (auto simp: crypto_result_def)
qed

text \<open>C22. Sessions. Creation takes the first free session, or reports that there is none and changes nothing. It succeeds exactly for
  the combinations of algorithms and lengths that \<open>cipher_params_ok\<close> and \<open>auth_params_ok\<close> list, and reports which of the two is wrong
  otherwise; the other sessions keep their contents. In every case the session has left the free list, also
  when the creation has failed and no handle is returned. Destruction puts a session that is not free at the head of the list. The count at the end
  finds the sessions of the list, and the call fails when they are not all there.\<close>

theorem crypto_session_lifecycle:
  assumes "sess_free g fs"
  shows "(case fs of
      [] \<Rightarrow> odp_crypto_session_create lib mem p g = ((- 1, None, ODP_CRYPTO_SES_CREATE_ERR_ENOMEM), g)
    | n # ns \<Rightarrow> \<exists>s g'. odp_crypto_session_create lib mem p g =
        (if \<not> cipher_params_ok p then (- 1, None, ODP_CRYPTO_SES_CREATE_ERR_INV_CIPHER)
         else if \<not> auth_params_ok p then (- 1, None, ODP_CRYPTO_SES_CREATE_ERR_INV_AUTH)
         else (0, Some n, ODP_CRYPTO_SES_CREATE_ERR_NONE), g') \<and>
        sess_free g' ns \<and> gl_sessions g' = (gl_sessions g)[n := s]) \<and>
    (\<forall>n < length (gl_sessions g). n \<notin> set fs \<longrightarrow>
      fst (odp_crypto_session_destroy n g) = 0 \<and> sess_free (snd (odp_crypto_session_destroy n g)) (n # fs)) \<and>
    odp_crypto_term_global g tbl =
      map_option (\<lambda>(ret, _, tbl'). (if ret < 0 \<or> length fs \<noteq> MAX_SESSIONS then - 1 else 0, tbl'))
        (odp_shm_free tbl (odp_shm_lookup tbl ''crypto_pool''))"
proof (intro conjI allI impI)
  show "case fs of
      [] \<Rightarrow> odp_crypto_session_create lib mem p g = ((- 1, None, ODP_CRYPTO_SES_CREATE_ERR_ENOMEM), g)
    | n # ns \<Rightarrow> \<exists>s g'. odp_crypto_session_create lib mem p g =
        (if \<not> cipher_params_ok p then (- 1, None, ODP_CRYPTO_SES_CREATE_ERR_INV_CIPHER)
         else if \<not> auth_params_ok p then (- 1, None, ODP_CRYPTO_SES_CREATE_ERR_INV_AUTH)
         else (0, Some n, ODP_CRYPTO_SES_CREATE_ERR_NONE), g') \<and>
        sess_free g' ns \<and> gl_sessions g' = (gl_sessions g)[n := s]"
    using session_create_cases [OF assms, of lib mem p] by (cases fs) fastforce+
  fix n assume n: "n < length (gl_sessions g)" "n \<notin> set fs"
  then show "fst (odp_crypto_session_destroy n g) = 0" "sess_free (snd (odp_crypto_session_destroy n g)) (n # fs)"
    using assms unfolding odp_crypto_session_destroy_def by (auto intro!: free_session_free)
next
  show "odp_crypto_term_global g tbl =
      map_option (\<lambda>(ret, _, tbl'). (if ret < 0 \<or> length fs \<noteq> MAX_SESSIONS then - 1 else 0, tbl'))
        (odp_shm_free tbl (odp_shm_lookup tbl ''crypto_pool''))"
    using count_free_chain [of g "gl_free g" fs] assms
    by (cases "odp_shm_free tbl (odp_shm_lookup tbl ''crypto_pool'')") (auto simp: odp_crypto_term_global_def sess_free_def)
qed

text \<open>So creations that fail use up the sessions: after as many of them as there are sessions, no creation succeeds.\<close>

lemma failed_creates_exhaust:
  assumes bad: "\<not> (cipher_params_ok p \<and> auth_params_ok p)"
  shows "fst (odp_crypto_session_create lib mem q
    (((\<lambda>g. snd (odp_crypto_session_create lib mem p g)) ^^ MAX_SESSIONS) (crypto_global_init r))) =
      (- 1, None, ODP_CRYPTO_SES_CREATE_ERR_ENOMEM)"
proof -
  have "sess_free (((\<lambda>g. snd (odp_crypto_session_create lib mem p g)) ^^ k) g) (drop k fs)" if "sess_free g fs" for k g fs
    using that
  proof (induction k arbitrary: g fs)
    case (Suc k)
    have "sess_free (snd (odp_crypto_session_create lib mem p g)) (tl fs)"
      using session_create_cases [OF Suc.prems, of lib mem p] Suc.prems by (cases fs) auto
    from Suc.IH [OF this] show ?case by (simp add: funpow_Suc_right drop_Suc del: funpow.simps)
  qed simp
  from this [OF crypto_global_init_free, where k = MAX_SESSIONS]
  have "sess_free (((\<lambda>g. snd (odp_crypto_session_create lib mem p g)) ^^ MAX_SESSIONS) (crypto_global_init r)) []" by simp
  from session_create_cases [OF this] show ?thesis by simp
qed

section \<open>Random data ends\<close>

text \<open>A server that never answers with more bytes than requested makes the loop end with at most the bytes asked for.\<close>

lemma random_loop_returns:
  assumes srv: "\<And>srv k rnd n srv'. rpc srv k = (Rnd_data rnd n, srv') \<Longrightarrow> n \<le> k \<and> n \<le> length rnd" and "l < 2 ^ 32"
  shows "\<exists>n mem' srv'. random_loop rpc srv mem buf (int l) c = Some (c + n, mem', srv') \<and> n \<le> l"
  using \<open>l < 2 ^ 32\<close>
proof (induction l arbitrary: srv mem c rule: less_induct)
  case (less l)
  show ?case
  proof (cases "l = 0")
    case True
    then show ?thesis by (subst random_loop.simps) simp
  next
    case False
    let ?k = "min (nat (int l mod 2 ^ 32)) RND_DATA_SIZE"
    have k: "?k \<le> l" using less.prems by simp
    obtain ans srv' where a: "rpc srv ?k = (ans, srv')" by fastforce
    show ?thesis
    proof (cases ans)
      case (Rnd_data rnd n)
      then have n: "n \<le> l" "n \<le> length rnd" using srv [of srv ?k rnd n srv'] a k by auto
      show ?thesis
      proof (cases "n = 0")
        case True
        then show ?thesis using False a Rnd_data by (subst random_loop.simps) (simp add: Let_def)
      next
        case n0: False
        have "l - n < l" "l - n < 2 ^ 32" using n0 n less.prems by auto
        from less.IH [OF this, of srv' "write_bytes mem (buf + of_nat c) (take n rnd)" "c + n"]
        obtain n' mem' srv'' where r: "random_loop rpc srv' (write_bytes mem (buf + of_nat c) (take n rnd)) buf (int l - int n) (c + n) =
            Some (c + n + n', mem', srv'')" "n' \<le> l - n" using n by (auto simp: of_nat_diff)
        then have "random_loop rpc srv mem buf (int l) c = Some (c + (n + n'), mem', srv'')"
          using False a Rnd_data n0 n by (subst random_loop.simps) (simp add: Let_def add.assoc)
        moreover have "n + n' \<le> l" using r(2) n by simp
        ultimately show ?thesis by blast
      qed
    qed (use False a in \<open>subst random_loop.simps, simp add: Let_def\<close>)+
  qed
qed

section \<open>An example\<close>

text \<open>
  A library with these laws: both block ciphers add the exclusive or of the key bytes to every byte, a digest is made of
  copies of the sum of key and data; the tag that the counter mode expects is sixteen times the sum of the cipher text.
\<close>

definition crypto_lib_example :: crypto_lib where
  "crypto_lib_example =
     \<lparr>cl_hmac_md5 = \<lambda>k d. replicate 16 (sum_list k + sum_list d), cl_hmac_sha256 = \<lambda>k d. replicate 32 (sum_list k + sum_list d),
      cl_aes_set_encrypt_key = \<lambda>k. k, cl_aes_set_decrypt_key = \<lambda>k. k,
      cl_aes_cbc = \<lambda>enc k v d. map (\<lambda>x. x XOR fold (XOR) k 0) d,
      cl_des_set_key = \<lambda>k. k, cl_des_ede3_cbc = \<lambda>enc k1 k2 k3 v d. map (\<lambda>x. x XOR fold (XOR) k1 0) d,
      cl_gcm_ctx = \<lambda>enc n k. k, cl_gcm_encrypt = \<lambda>ctx iv aad d. (d, replicate 16 (sum_list d)),
      cl_gcm_decrypt = \<lambda>ctx iv tag hd ct tl. Some (ct, if tag = replicate 16 (sum_list ct) then 1 else 0)\<rparr>"

definition crypto_state_example :: odp_state where
  "crypto_state_example = set_bytes (\<lambda>a. ucast a) (upd_buf 64 (\<lambda>_. pkt_example) queue_example)"

definition crypto_params_example :: odp_crypto_session_params_t where
  "crypto_params_example =
     \<lparr>cs_op = ODP_CRYPTO_OP_ENCODE, cs_auth_cipher_text = True, cs_cipher_alg = ODP_CIPHER_ALG_AES128_CBC,
      cs_cipher_key = \<lparr>ck_data = 8193, ck_length = 16\<rparr>, cs_iv = \<lparr>ci_data = 8208, ci_length = 16\<rparr>,
      cs_auth_alg = ODP_AUTH_ALG_MD5_96, cs_auth_key = \<lparr>ck_data = 8224, ck_length = 16\<rparr>, cs_compl_queue = None, cs_output_pool = None\<rparr>"

definition crypto_op_example :: odp_crypto_op_params_t where
  "crypto_op_example =
     \<lparr>cp_session = 31, cp_ctx = 0, cp_pkt = 64, cp_out_pkt = 64, cp_override_iv_ptr = 0, cp_hash_result_offset = 80,
      cp_cipher_range = \<lparr>dr_offset = 16, dr_length = 32\<rparr>, cp_auth_range = \<lparr>dr_offset = 0, dr_length = 64\<rparr>\<rparr>"

definition crypto_global_example :: odp_crypto_global_t where
  "crypto_global_example = crypto_global_init (\<lambda>_. \<lparr>cg_magic = 0,
     cg_result = crypto_result crypto_op_example ODP_CRYPTO_ALG_ERR_NONE ODP_CRYPTO_ALG_ERR_NONE\<rparr>)"

lemma crypto_lib_example_ok: "crypto_lib_ok crypto_lib_example"
  by (simp add: crypto_lib_ok_def crypto_lib_example_def Let_def o_def xor.assoc)

lemma crypto_global_example_free: "sess_free crypto_global_example (31 # 30 # rev [0..<30])"
  using crypto_global_init_free unfolding crypto_global_example_def
  by (simp add: MAX_SESSIONS_def numeral_eq_Suc)

lemma crypto_example_create:
  assumes "sess_free g (n # ns)" "cipher_params_ok P" "auth_params_ok P"
  obtains g' where "odp_crypto_session_create lib mem P g = ((0, Some n, ODP_CRYPTO_SES_CREATE_ERR_NONE), g')" "sess_free g' ns"
  using session_create_cases [OF assms(1), of lib mem P] assms(2,3) by auto

lemma crypto_state_example_simps:
  "hdr crypto_state_example 64 = pkt_example" "bytes_of crypto_state_example = (\<lambda>a. ucast a)"
  by (simp_all add: crypto_state_example_def)

theorem crypto_roundtrip_witness:
  "\<exists>g e d r m r'. odp_crypto_operation crypto_lib_example (\<lambda>st _ _. (0, st)) False (crypto_op_example\<lparr>cp_session := e\<rparr>) True g crypto_state_example =
      Some ((0, Some False, Some r, crypto_op_example\<lparr>cp_session := e\<rparr>), g, set_bytes m crypto_state_example) \<and> cr_ok r \<and>
    odp_crypto_operation crypto_lib_example (\<lambda>st _ _. (0, st)) False (crypto_op_example\<lparr>cp_session := d\<rparr>) True g (set_bytes m crypto_state_example) =
      Some ((0, Some False, Some r', crypto_op_example\<lparr>cp_session := d\<rparr>), g,
        set_bytes (write_bytes (\<lambda>a. ucast a) 4240 (replicate 12 0)) crypto_state_example) \<and> cr_ok r'"
proof -
  let ?P = crypto_params_example and ?D = "crypto_params_example\<lparr>cs_op := ODP_CRYPTO_OP_DECODE\<rparr>"
  have ok: "cipher_params_ok ?P" "auth_params_ok ?P" "cipher_params_ok ?D" "auth_params_ok ?D"
    by (simp_all add: crypto_params_example_def cipher_params_ok_def auth_params_ok_def)
  obtain g1 where g1: "odp_crypto_session_create crypto_lib_example (\<lambda>a. ucast a) ?P crypto_global_example = ((0, Some 31, ODP_CRYPTO_SES_CREATE_ERR_NONE), g1)"
    "sess_free g1 (30 # rev [0..<30])" by (rule crypto_example_create [OF crypto_global_example_free ok(1,2)])
  obtain g where g: "odp_crypto_session_create crypto_lib_example (\<lambda>a. ucast a) ?D g1 = ((0, Some 30, ODP_CRYPTO_SES_CREATE_ERR_NONE), g)"
    by (rule crypto_example_create [OF g1(2) ok(3,4)])
  have "crypto_ranges_ok ?P crypto_op_example (pkt_start pkt_example) (unat (ph_frame_len pkt_example))"
    by (simp add: crypto_ranges_ok_def Let_def crypto_params_example_def crypto_op_example_def pkt_example_ok icv_len_def block_len_def)
  with crypto_roundtrip [OF crypto_lib_example_ok crypto_global_example_free _ _ _ g1(1) g,
      of crypto_op_example crypto_state_example "\<lambda>st _ _. (0, st)" False]
  show ?thesis
    by (simp add: crypto_params_example_def crypto_op_example_def crypto_state_example_simps pkt_example_ok icv_len_def) blast
qed

lemma example_not_constant: "2 \<le> n \<Longrightarrow> read_bytes (\<lambda>a. ucast a) 4240 n \<noteq> replicate n (x :: u8)"
proof
  assume n: "2 \<le> n" and e: "read_bytes (\<lambda>a. ucast a) 4240 n = replicate n x"
  have "read_bytes (\<lambda>a. ucast a) 4240 n ! i = x" if "i < n" for i using that by (simp add: e)
  from this [of 0] this [of 1] n have "(144 :: u8) = x" "(145 :: u8) = x" by (simp_all add: read_bytes_def)
  then show False by simp
qed

theorem crypto_icv_decides_witness:
  "\<exists>g r m. odp_crypto_operation crypto_lib_example (\<lambda>st _ _. (0, st)) False crypto_op_example True g crypto_state_example =
      Some ((0, Some False, Some r, crypto_op_example), g, set_bytes m crypto_state_example) \<and>
    cc_alg_err (cr_auth_status r) = ODP_CRYPTO_ALG_ERR_ICV_CHECK \<and> \<not> cr_ok r"
proof -
  let ?D = "crypto_params_example\<lparr>cs_op := ODP_CRYPTO_OP_DECODE\<rparr>"
  have ok: "cipher_params_ok ?D" "auth_params_ok ?D"
    by (simp_all add: crypto_params_example_def cipher_params_ok_def auth_params_ok_def)
  obtain g where "odp_crypto_session_create crypto_lib_example (\<lambda>a. ucast a) ?D crypto_global_example =
      ((0, Some 31, ODP_CRYPTO_SES_CREATE_ERR_NONE), g)" by (rule crypto_example_create [OF crypto_global_example_free ok])
  then have g: "odp_crypto_session_create crypto_lib_example (\<lambda>a. ucast a) ?D crypto_global_example =
      ((0, Some (cp_session crypto_op_example), ODP_CRYPTO_SES_CREATE_ERR_NONE), g)" by (simp add: crypto_op_example_def)
  let ?h = "cl_hmac_md5 crypto_lib_example (read_bytes (\<lambda>a. ucast a) (ck_data (cs_auth_key ?D)) 16)"
  have h: "take 12 (?h x) = replicate 12 (hd (?h x))" for x by (simp add: crypto_lib_example_def)
  let ?m = "write_bytes (bytes_of crypto_state_example) 4240 (replicate 12 0)"
  have "\<exists>r m. odp_crypto_operation crypto_lib_example (\<lambda>st _ _. (0, st)) False crypto_op_example True g crypto_state_example =
      Some ((0, Some False, Some r, crypto_op_example), g, set_bytes m crypto_state_example) \<and>
    (if read_bytes (bytes_of crypto_state_example) 4240 12 = take 12 (?h (read_bytes ?m
          (pkt_start (hdr crypto_state_example (cp_pkt crypto_op_example)) + dr_offset (cp_auth_range crypto_op_example))
          (unat (dr_length (cp_auth_range crypto_op_example)))))
     then cc_alg_err (cr_auth_status r) = ODP_CRYPTO_ALG_ERR_NONE
     else cc_alg_err (cr_auth_status r) = ODP_CRYPTO_ALG_ERR_ICV_CHECK \<and> \<not> cr_ok r)"
    by (rule crypto_icv_decides [OF crypto_lib_example_ok crypto_global_example_free _ _ _ _ _ g])
      (simp_all add: crypto_params_example_def crypto_op_example_def crypto_state_example_simps pkt_example_ok icv_len_def)
  moreover have "read_bytes (bytes_of crypto_state_example) 4240 12 \<noteq> take 12 (?h x)" for x
    unfolding h crypto_state_example_simps by (rule example_not_constant) simp
  ultimately show ?thesis by simp blast
qed

theorem crypto_gcm_accepts_any_tag_witness:
  "(\<exists>g r m. odp_crypto_operation crypto_lib_example (\<lambda>st _ _. (0, st)) False crypto_op_example True g crypto_state_example =
      Some ((0, Some False, Some r, crypto_op_example), g, set_bytes m crypto_state_example) \<and> cr_ok r) \<and>
   (\<forall>ctx iv hd ct tl. (cl_gcm_decrypt crypto_lib_example ctx iv (read_bytes (bytes_of crypto_state_example) 4240 16) hd ct tl) = Some (ct, 0))"
proof -
  let ?D = "crypto_params_example\<lparr>cs_op := ODP_CRYPTO_OP_DECODE, cs_cipher_alg := ODP_CIPHER_ALG_AES128_GCM, cs_auth_alg := ODP_AUTH_ALG_AES128_GCM\<rparr>"
  have ok: "cipher_params_ok ?D" "auth_params_ok ?D"
    by (simp_all add: crypto_params_example_def cipher_params_ok_def auth_params_ok_def)
  obtain g where "odp_crypto_session_create crypto_lib_example (\<lambda>a. ucast a) ?D crypto_global_example =
      ((0, Some 31, ODP_CRYPTO_SES_CREATE_ERR_NONE), g)" by (rule crypto_example_create [OF crypto_global_example_free ok])
  then have g: "odp_crypto_session_create crypto_lib_example (\<lambda>a. ucast a) ?D crypto_global_example =
      ((0, Some (cp_session crypto_op_example), ODP_CRYPTO_SES_CREATE_ERR_NONE), g)" by (simp add: crypto_op_example_def)
  have v: "cl_gcm_decrypt crypto_lib_example ctx iv tag hd ct tl \<in> Some ` (UNIV \<times> {0, 1})" for ctx iv tag hd ct tl
    by (simp add: crypto_lib_example_def)
  have "\<exists>r m. odp_crypto_operation crypto_lib_example (\<lambda>st _ _. (0, st)) False crypto_op_example True g crypto_state_example =
      Some ((0, Some False, Some r, crypto_op_example), g, set_bytes m crypto_state_example) \<and> cr_ok r"
    by (rule crypto_gcm_accepts_any_tag [OF crypto_global_example_free v _ _ _ g])
      (simp_all add: crypto_params_example_def crypto_op_example_def crypto_state_example_simps pkt_example_ok gcm_ranges_bad_def)
  then show ?thesis using example_not_constant [of 16] by (simp add: crypto_state_example_simps crypto_lib_example_def) blast
qed

theorem crypto_session_lifecycle_witness:
  "\<exists>g'. odp_crypto_session_create crypto_lib_example (\<lambda>_. 0) (crypto_params_example\<lparr>cs_auth_alg := Auth_alg_other\<rparr>) crypto_global_example =
     ((- 1, None, ODP_CRYPTO_SES_CREATE_ERR_INV_AUTH), g') \<and> sess_free g' (30 # rev [0..<30])"
  using crypto_session_lifecycle [OF crypto_global_example_free, of crypto_lib_example "\<lambda>_. 0" "crypto_params_example\<lparr>cs_auth_alg := Auth_alg_other\<rparr>" "[]"]
  by (auto simp: cipher_params_ok_def auth_params_ok_def crypto_params_example_def)

end
