(* ===== verification/Spec2Isabelle.thy ===== *)
theory Spec2Isabelle
  imports Odp_Locks Odp_Timer Odp_Class Odp_Hash Odp_Table Odp_Ring Odp_Crypto
begin

text \<open>
  \<^bold>\<open>The program.\<close> OpenDataPlane for the Kalray MPPA (\<open>src/\<close>) is a library for packet processing on a
  many-core processor: memory blocks, pools of buffers, packets with their parser, queues, a
  scheduler, timers, packet interfaces with a classifier, cryptographic sessions, locks and thread management, with helper
  libraries for rings and tables. The parts stack up as follows. A pool reserves its memory
  from the shared-memory table, keeps its free buffers in a ring and in per-core caches, and hands
  out buffers; a packet is a buffer with metadata that the parser fills in on demand; a queue links
  buffers through their headers; the scheduler keeps one command buffer per scheduled queue in
  priority queues that are queues themselves; a timer sends its timeout buffer to a queue; an interface receives packets
  into queues of its own or into those of the class that the classifier chooses; a cryptographic operation works on the data of a
  packet and can post it to a queue; threads are known by identifiers whose masks are also
  the first scheduling groups.

  \<^bold>\<open>The theories.\<close> Each theory models the files named in its opening text, with the functions of the
  source under their own names and the fields of a structure under a prefix.

  \<^item> \<open>Odp_Prelude\<close>: words, lists, linked lists through a map of links, the locale of first-in first-out
    containers (\<open>fifo_container\<close>) and that of step relations with an invariant (\<open>invariant_system\<close>); the components interpret
    them on their own operations.
  \<^item> \<open>Odp_Buffer_Ring\<close>: \<open>platform/mppa/odp_buffer_ring.c\<close> and its header. Every sequence of its calls refines a list, for
    32-bit positions that wrap; the count that \<open>odp_pool_destroy\<close> reads is one too high in half of the states.
  \<^item> \<open>Odp_Shm\<close>: \<open>platform/mppa/odp_shared_memory.c\<close>. Blocks are aligned, inside memory of their own, and
    found by name; \<open>malloc\<close> is a parameter.
  \<^item> \<open>Odp_Types\<close>: the buffer, packet and flag structures.
  \<^item> \<open>Odp_Packet_Hdr\<close>: the data window of one packet (\<open>platform/mppa/odp_packet.c\<close>) refines a window with
    head and tail room; bytes copied in are read back; an overflow in the range check never returns.
  \<^item> \<open>Odp_Packet_Parse\<close>: the frame parser of the same file: every frame gets coherent metadata, valid
    IPv4/UDP is accepted, UDP over IPv6 is rejected by a length mix-up.
  \<^item> \<open>Odp_Packet_Flags\<close>: \<open>platform/linux-generic/odp_packet_flags.c\<close>: parsing on demand cannot be observed.
  \<^item> \<open>Odp_Pool\<close>: \<open>platform/mppa/odp_pool.c\<close> with the caches of \<open>odp_pool_internal.h\<close>: creation, and no buffer is
    ever handed out twice.
  \<^item> \<open>Odp_Packet\<close>: allocation, copies and insertion or removal of data, on pools.
  \<^item> \<open>Odp_Queue\<close>: \<open>platform/mppa/odp_queue.c\<close> and the scheduler functions it calls: polled queues refine a
    list, the reorder list of an ordered queue is sorted, and the merge of an event in turn moves the events it releases to their queue and
    drops those that still wait.
    Packet output from an ordered context loses the first packet of a multiple send.
  \<^item> \<open>Odp_Pktio\<close>: \<open>platform/mppa/odp_packet_io.c\<close> and \<open>pktio/loop.c\<close>: the table of interfaces and the loop
    interface, which returns what was sent, in order, parsed and with its input interface; the other drivers are a parameter.
  \<^item> \<open>Odp_Class\<close>: \<open>platform/linux-generic/odp_classification.c\<close> and its inline functions: the class chosen for a packet is that of
    a specification by priority of rules, classes of service and default, in every configuration that calls can build; links in a
    cycle never return; accepted packets end in the queue of their class, and a packet the classifier has freed is
    still handed to the application.
  \<^item> \<open>Odp_Sched\<close>: \<open>platform/mppa/odp_schedule.c\<close>. For one thread every operation is a function; for any number of threads
    the steps on the shared queues keep one command per scheduled queue, lose no event, and serve an atomic queue by one thread only.
  \<^item> \<open>Odp_Timer\<close>: \<open>platform/mppa/odp_timer.c\<close>: handles, the free list of a pool, and that a tick delivers exactly the
    timeouts that are due.
  \<^item> \<open>Odp_Time\<close>: \<open>platform/mppa/odp_time.c\<close>: the split conversions equal the exact quotient.
  \<^item> \<open>Odp_Crypto\<close>: \<open>platform/mppa/odp_crypto.c\<close> and \<open>odp_event.c\<close>: decoding undoes encoding, a digest that does not match is
    reported, the tag of the Galois/Counter mode is not, and a creation that fails loses its session.
  \<^item> \<open>Odp_Ring\<close>: \<open>helper/ring.c\<close>: with any number of producers and consumers that move at least one object, one step for each access of
    shared memory, the ring delivers what was enqueued, in order; a call for no object can lose objects; the calls alone are correct on every branch.
  \<^item> \<open>Odp_Table\<close>: \<open>helper/hashtable.c\<close>, \<open>helper/lineartable.c\<close> and the intrusive lists: the hash table refines a bounded map, where its block has room for the
    control structures; the linear table never has an element.
  \<^item> \<open>Odp_Hash\<close>: \<open>platform/linux-generic/odp_hash.c\<close>: the eight tables give the CRC by bits.
  \<^item> \<open>Odp_Locks\<close>: spin lock, ticket lock, reader-writer lock and barrier, any number of threads, one
    step for each atomic access.
  \<^item> \<open>Odp_Cpumask\<close>: masks and their strings.
  \<^item> \<open>Odp_Thread\<close>: \<open>platform/mppa/odp_thread.c\<close>, \<open>odp_thrmask.c\<close> and the scheduling groups of
    \<open>odp_schedule.c\<close>: identifiers are unique and the masks and counters agree in every interleaving; groups are created,
    joined, left and destroyed without effect on the others.

  \<^bold>\<open>Conventions.\<close> Machine integers keep their width (\<open>u8\<close> to \<open>u64\<close>), \<open>int\<close> results are \<open>int\<close>, pointers and
  addresses are 32-bit words with zero as null, as on the target. Handles of tables are indices. A
  function that may not return, or that dereferences a null pointer or aborts, gives \<open>None\<close>; the loops that may not
  end are partial functions into \<open>option\<close>, and the theorems state that calls return. No fuel is used.
  A section of code that holds a lock is one step; where locks themselves or the interleaving of
  threads matter, the system is an inductive step relation. Memory is sequentially consistent: the
  cache maintenance instructions of the target are not modelled. What comes from outside the
  sources, as the allocator of the C library, the number of CPUs, the output of a packet
  interface, the cycle counter, the functions of the cryptographic library or the server of random data, is a parameter.

  \<^bold>\<open>Not modelled.\<close> The drivers of the packet interfaces, the microcode and the firmware act on hardware
  whose behaviour is not in the sources. The recursive locks only count nested calls around the locks that are modelled. Start-up,
  logging, printing and version strings are calls to the operating system. The Linux variants of
  the files that exist for the MPPA are not compiled for it. The applications, examples and the
  test framework use the library and add nothing to it.
\<close>

end
